(* ===== verification/Palloc_Base.thy ===== *)
theory Palloc_Base
  imports Main "HOL-Library.Word"
begin

text \<open>
  Prelude: the machine types of the C sources on a 64-bit target, the collections of
  simplification rules the components share, and generic lemmas on words and lists.
\<close>

unbundle bit_operations_syntax

type_synonym size_t = "64 word"
type_synonym uintptr_t = "64 word"
type_synonym u32 = "32 word"
type_synonym u8 = "8 word"

lemma list_all_uptD: "list_all P [a..<b] \<Longrightarrow> a \<le> n \<Longrightarrow> n < b \<Longrightarrow> P n"
  by (simp add: list_all_iff)

lemma unat_lt2p: "unat (w :: 'a::len word) < 2 ^ LENGTH('a)"
  by (rule unsigned_less)

lemma unat_power_lower [simp]: "k < LENGTH('a) \<Longrightarrow> unat (2 ^ k :: 'a::len word) = 2 ^ k"
  by (metis of_nat_numeral of_nat_power power_strict_increasing_iff one_less_numeral_iff
      semiring_norm(76) unat_of_nat mod_less)

lemma unat_max_word [simp]: "unat (- 1 :: 'a::len word) = 2 ^ LENGTH('a) - 1"
  by (simp add: unsigned_minus_1_eq_mask mask_eq_exp_minus_1)

lemma unat_mask_word:
  assumes "k \<le> LENGTH('a)"
  shows "unat (mask k :: 'a::len word) = 2 ^ k - 1"
proof -
  have "unat (mask k :: 'a word) = mask k"
    by (rule bit_eqI) (use assms in \<open>auto simp: bit_simps\<close>)
  then show ?thesis by (simp add: mask_eq_exp_minus_1)
qed

lemma unat_dec: "w \<noteq> 0 \<Longrightarrow> unat (w - 1 :: 'a::len word) = unat w - 1"
  by (simp add: unat_minus_one)

lemma unat_add_no_wrap:
  "unat a + unat b < 2 ^ LENGTH('a) \<Longrightarrow> unat (a + b :: 'a::len word) = unat a + unat b"
  by (simp add: unat_word_ariths)

lemma unat_mult_no_wrap:
  "unat a * unat b < 2 ^ LENGTH('a) \<Longrightarrow> unat (a * b :: 'a::len word) = unat a * unat b"
  by (simp add: unat_word_ariths)

lemma unat_drop_bit: "unat (drop_bit k w :: 'a::len word) = unat w div 2 ^ k"
  by (subst unat_drop_bit_eq) (simp add: drop_bit_eq_div)

lemma unat_and_mask:
  fixes w :: "'a::len word"
  shows "unat (w AND mask k) = unat w mod 2 ^ k"
proof -
  have "unat (take_bit k w) = take_bit k (unat w)" by (rule unsigned_take_bit_eq)
  also have "\<dots> = unat w mod 2 ^ k" by (rule take_bit_eq_mod)
  finally show ?thesis by (simp only: take_bit_eq_mask)
qed

lemma unat_and_not_mask:
  fixes w :: "'a::len word"
  shows "unat (w AND NOT (mask k)) = unat w div 2 ^ k * 2 ^ k"
proof -
  have 1: "w AND NOT (mask k) = w - take_bit k w"
    by (subst disjunctive_diff_eq_and_not) (auto simp: take_bit_eq_mask bit_eq_iff bit_simps)
  have 2: "take_bit k (unat w) \<le> unat w" by (simp add: take_bit_eq_mod)
  then have "take_bit k w \<le> w" by (simp add: word_le_nat_alt unsigned_take_bit_eq)
  then have "unat (w - take_bit k w) = unat w - unat (take_bit k w)"
    by (simp add: unat_sub)
  also have "unat (take_bit k w) = unat w mod 2 ^ k"
    by (simp add: unsigned_take_bit_eq) (simp add: take_bit_eq_mod)
  finally have "unat (w - take_bit k w) = unat w div 2 ^ k * 2 ^ k"
    by (simp add: minus_mod_eq_div_mult)
  then show ?thesis using 1 by simp
qed

lemma bit_top_nat:
  assumes "2 ^ n \<le> (x::nat)" "x < 2 ^ Suc n"
  shows "bit x n"
proof -
  from assms have "x div 2 ^ n = 1" by (intro div_nat_eqI) auto
  then show ?thesis by (simp add: bit_iff_odd)
qed

lemma nat_log2_ex: "0 < (x::nat) \<Longrightarrow> \<exists>n. 2 ^ n \<le> x \<and> x < 2 ^ Suc n"
  using ex_power_ivl1 [of 2 x] by auto

lemma pow2_iff_and_pred:
  fixes x :: "'a::len word"
  shows "x AND (x - 1) = 0 \<longleftrightarrow> x = 0 \<or> (\<exists>k < LENGTH('a). x = 2 ^ k)"
proof (cases "x = 0")
  case False
  then have pos: "0 < unat x" by (simp add: unat_gt_0)
  then obtain n where n: "2 ^ n \<le> unat x" "unat x < 2 ^ Suc n" using nat_log2_ex by blast
  have nlt: "n < LENGTH('a)"
  proof (rule ccontr)
    assume "\<not> n < LENGTH('a)"
    then have "(2::nat) ^ LENGTH('a) \<le> 2 ^ n" by simp
    also note n(1)
    also have "unat x < 2 ^ LENGTH('a)" by (rule unat_lt2p)
    finally show False by simp
  qed
  have un: "unat (2 ^ n :: 'a word) = 2 ^ n" using nlt by simp
  show ?thesis
  proof (cases "unat x = 2 ^ n")
    case True
    with un have x: "x = 2 ^ n" by (metis word_unat_eq_iff)
    then have "x AND (x - 1) = 0"
      by (simp add: mask_eq_exp_minus_1 [symmetric]) (rule bit_word_eqI, auto simp: bit_simps)
    with x nlt show ?thesis by blast
  next
    case ne: False
    have "unat (x - 1) = unat x - 1" using False by (rule unat_dec)
    with n ne have b: "bit (unat (x - 1)) n" by (intro bit_top_nat) auto
    have a: "bit (unat x) n" using n by (rule bit_top_nat)
    have "bit (x AND (x - 1)) n" using a b nlt by (simp add: bit_simps)
    then have "x AND (x - 1) \<noteq> 0" by auto
    moreover have "\<not> (\<exists>k < LENGTH('a). x = 2 ^ k)"
    proof
      assume "\<exists>k < LENGTH('a). x = 2 ^ k"
      then obtain k where k: "k < LENGTH('a)" "x = 2 ^ k" by blast
      then have "unat x = 2 ^ k" by simp
      with n have "n = k" by (metis power_strict_increasing_iff power_increasing_iff le_less_Suc_eq less_Suc_eq_le one_less_numeral_iff semiring_norm(76) leD nat_less_le)
      with ne \<open>unat x = 2 ^ k\<close> show False by simp
    qed
    ultimately show ?thesis using False by blast
  qed
qed simp

end
