(* ===== verification/Palloc_Arith.thy ===== *)
theory Palloc_Arith
  imports Palloc_Base
begin

text \<open>
  Size and pointer arithmetic of \<open>include/palloc/internal.h\<close>: alignment, rounded
  division, clamping, multiplication with overflow detection, the encoding of free-list
  links and the xor-shift shuffle.  Everything is computed on 64-bit words, so that
  wrap-around is part of the model; \<open>assert\<close>s of the debug build are not executed in
  the modelled release configuration.
\<close>

definition pa_is_power_of_two :: "uintptr_t \<Rightarrow> bool" where
  "pa_is_power_of_two x \<longleftrightarrow> x AND (x - 1) = 0"

definition pa_is_aligned :: "uintptr_t \<Rightarrow> size_t \<Rightarrow> bool" where
  "pa_is_aligned p alignment \<longleftrightarrow> p mod alignment = 0"

definition pa_align_up :: "uintptr_t \<Rightarrow> size_t \<Rightarrow> uintptr_t" where
  "pa_align_up sz alignment =
     (let msk = alignment - 1
      in if alignment AND msk = 0
         then (sz + msk) AND NOT msk
         else ((sz + msk) div alignment) * alignment)"

definition pa_align_down :: "uintptr_t \<Rightarrow> size_t \<Rightarrow> uintptr_t" where
  "pa_align_down sz alignment =
     (let msk = alignment - 1
      in if alignment AND msk = 0
         then sz AND NOT msk
         else (sz div alignment) * alignment)"

definition pa_divide_up :: "uintptr_t \<Rightarrow> size_t \<Rightarrow> uintptr_t" where
  "pa_divide_up sz divider =
     (if divider = 0 then sz else (sz + divider - 1) div divider)"

definition pa_clamp :: "size_t \<Rightarrow> size_t \<Rightarrow> size_t \<Rightarrow> size_t" where
  "pa_clamp sz lo hi = (if sz < lo then lo else if hi < sz then hi else sz)"

definition pa_wsize_from_size :: "size_t \<Rightarrow> size_t" where
  "pa_wsize_from_size sz = (sz + 8 - 1) div 8"

definition SIZE_MAX :: size_t where
  "SIZE_MAX = - 1"

definition builtin_umull_overflow :: "size_t \<Rightarrow> size_t \<Rightarrow> bool \<times> size_t" where
  "builtin_umull_overflow count sz =
     (let total = unat count * unat sz in (2 ^ 64 \<le> total, of_nat total))"

definition pa_mul_overflow_fallback :: "size_t \<Rightarrow> size_t \<Rightarrow> bool \<times> size_t" where
  "pa_mul_overflow_fallback count sz =
     (let could = push_bit 32 1
      in ((could \<le> sz \<or> could \<le> count) \<and> 0 < sz \<and> SIZE_MAX div sz < count,
          count * sz))"

definition pa_count_size_overflow :: "size_t \<Rightarrow> size_t \<Rightarrow> bool \<times> size_t" where
  "pa_count_size_overflow count sz =
     (if count = 1 then (False, sz)
      else let (ovf, total) = builtin_umull_overflow count sz
           in if ovf then (True, SIZE_MAX) else (False, total))"

lemma unat_mul_div_le:
  fixes a b :: "'a::len word"
  shows "unat (a div b * b) = unat a div unat b * unat b"
proof -
  have "unat a div unat b * unat b \<le> unat a" by simp
  also have "\<dots> < 2 ^ LENGTH('a)" by (rule unat_lt2p)
  finally show ?thesis by (subst unat_mult_no_wrap) (simp_all add: unat_div)
qed

lemma pow2_and_pred_mask:
  fixes a :: "'a::len word"
  assumes "a \<noteq> 0" "a AND (a - 1) = 0"
  obtains k where "k < LENGTH('a)" "a = 2 ^ k" "a - 1 = mask k" "unat a = 2 ^ k"
proof -
  from assms obtain k where k: "k < LENGTH('a)" "a = 2 ^ k"
    using pow2_iff_and_pred [of a] by blast
  then show ?thesis by (intro that [of k]) (auto simp: mask_eq_exp_minus_1)
qed

lemma unat_pa_align_up:
  assumes "alignment \<noteq> 0" and "unat sz + (unat alignment - 1) < 2 ^ 64"
  shows "unat (pa_align_up sz alignment) =
    (unat sz + (unat alignment - 1)) div unat alignment * unat alignment"
proof -
  have pos: "0 < unat alignment" using assms(1) by (simp add: unat_gt_0)
  have m1: "unat (alignment - 1) = unat alignment - 1"
    using assms(1) by (rule unat_dec)
  have sm: "unat (sz + (alignment - 1)) = unat sz + (unat alignment - 1)"
    using assms(2) m1 by (simp only: unat_word_ariths) simp
  show ?thesis
  proof (cases "alignment AND (alignment - 1) = 0")
    case True
    with assms(1) obtain k where k: "alignment - 1 = mask k" "unat alignment = 2 ^ k"
      by (rule pow2_and_pred_mask) simp
    then have "pa_align_up sz alignment = (sz + (alignment - 1)) AND NOT (mask k)"
      using True by (simp add: pa_align_up_def Let_def)
    then show ?thesis using sm by (simp only: unat_and_not_mask k)
  next
    case False
    then have "pa_align_up sz alignment = (sz + (alignment - 1)) div alignment * alignment"
      by (simp add: pa_align_up_def Let_def)
    then show ?thesis by (simp only: unat_mul_div_le sm)
  qed
qed

lemma nat_round_up_least:
  fixes s a :: nat
  assumes "0 < a"
  shows "s \<le> (s + (a - 1)) div a * a" "(s + (a - 1)) div a * a < s + a"
    "a dvd m \<Longrightarrow> s \<le> m \<Longrightarrow> (s + (a - 1)) div a * a \<le> m"
proof -
  have "(s + (a - 1)) div a * a + (s + (a - 1)) mod a = s + (a - 1)"
    by (rule div_mult_mod_eq)
  moreover have "(s + (a - 1)) mod a < a" using assms by simp
  ultimately show "s \<le> (s + (a - 1)) div a * a" "(s + (a - 1)) div a * a < s + a"
    using assms by linarith+
  assume "a dvd m" "s \<le> m"
  then obtain q where q: "m = a * q" by blast
  have "(s + (a - 1)) div a < q + 1"
    using \<open>s \<le> m\<close> q assms by (simp add: div_less_iff_less_mult) (simp add: algebra_simps)
  then have "(s + (a - 1)) div a \<le> q" by simp
  then show "(s + (a - 1)) div a * a \<le> m" unfolding q by (metis mult.commute mult_le_mono1)
qed

lemma pa_align_up_spec:
  assumes "alignment \<noteq> 0" and "unat sz + (unat alignment - 1) < 2 ^ 64"
  shows "unat sz \<le> unat (pa_align_up sz alignment) \<and>
    unat alignment dvd unat (pa_align_up sz alignment) \<and>
    (\<forall>m. unat alignment dvd m \<and> unat sz \<le> m \<longrightarrow> unat (pa_align_up sz alignment) \<le> m)"
proof -
  have pos: "0 < unat alignment" using assms(1) by (simp add: unat_gt_0)
  show ?thesis
    using nat_round_up_least [OF pos] by (simp add: unat_pa_align_up [OF assms])
qed

lemma pa_align_up_wrap:
  assumes "alignment \<noteq> 0" "alignment AND (alignment - 1) = 0"
    and "2 ^ 64 \<le> unat sz + (unat alignment - 1)"
  shows "pa_align_up sz alignment = 0"
proof -
  obtain k where k: "k < 64" "alignment - 1 = mask k" "unat alignment = 2 ^ k"
    using assms(1,2) by (rule pow2_and_pred_mask) simp
  have m1: "unat (alignment - 1) = unat alignment - 1"
    using assms(1) by (rule unat_dec)
  have "unat (sz + (alignment - 1)) = (unat sz + (unat alignment - 1)) mod 2 ^ 64"
    using m1 by (simp only: unat_word_ariths) simp
  also have "\<dots> = unat sz + (unat alignment - 1) - 2 ^ 64"
    using assms(3) unat_lt2p [of sz] unat_lt2p [of alignment] by (simp add: mod_if)
  also have "\<dots> < 2 ^ k"
  proof -
    have "0 < (2::nat) ^ k" by simp
    moreover have "unat sz < 2 ^ 64" using unat_lt2p [of sz] by simp
    ultimately show ?thesis unfolding k(3) using assms(3) by linarith
  qed
  finally have "unat (sz + (alignment - 1)) div 2 ^ k = 0" by simp
  then have "unat ((sz + (alignment - 1)) AND NOT (mask k)) = 0"
    by (simp only: unat_and_not_mask)
  then show ?thesis using assms(2) k(2) by (simp add: pa_align_up_def Let_def unat_0_iff)
qed

text \<open>C33: rounding up.  When \<open>sz + alignment - 1\<close> does not wrap, \<open>_pa_align_up\<close> returns the
  least multiple of \<open>alignment\<close> that is at least \<open>sz\<close>, for power-of-two alignments (the
  masked branch) as for any other alignment (the dividing branch).\<close>
theorem pa_align_up_least:
  assumes "alignment \<noteq> 0" and "unat sz + (unat alignment - 1) < 2 ^ 64"
  shows "unat sz \<le> unat (pa_align_up sz alignment) \<and>
    unat alignment dvd unat (pa_align_up sz alignment) \<and>
    (\<forall>m. unat alignment dvd m \<and> unat sz \<le> m \<longrightarrow> unat (pa_align_up sz alignment) \<le> m)"
  using assms by (rule pa_align_up_spec)

theorem pa_align_up_least_witness:
  "unat (1000 :: size_t) \<le> unat (pa_align_up 1000 48) \<and> pa_align_up 1000 48 = 1008 \<and>
   pa_align_up 1000 64 = 1024"
  using pa_align_up_least [of 48 1000] by (simp add: pa_align_up_def)

lemma pa_align_up_overflow_check:
  assumes "alignment \<noteq> 0" "pa_is_power_of_two alignment"
  shows "pa_align_up sz alignment < sz \<longleftrightarrow> 2 ^ 64 \<le> unat sz + (unat alignment - 1)"
proof (cases "2 ^ 64 \<le> unat sz + (unat alignment - 1)")
  case True
  then have "pa_align_up sz alignment = 0"
    using assms pa_align_up_wrap by (simp add: pa_is_power_of_two_def)
  moreover have "0 < sz"
  proof (rule ccontr)
    assume "\<not> 0 < sz"
    then have "sz = 0" by (simp add: word_gt_0)
    with True show False using unat_lt2p [of alignment] by simp
  qed
  ultimately show ?thesis using True by simp
next
  case False
  then show ?thesis using pa_align_up_spec [OF assms(1), of sz] by (simp add: word_less_nat_alt)
qed

lemma mul_overflow_iff:
  fixes a b m :: nat
  assumes "0 < b"
  shows "m div b < a \<longleftrightarrow> m < a * b"
  using assms by (simp add: div_less_iff_less_mult)

lemma pa_mul_overflow_fallback_eq:
  "pa_mul_overflow_fallback count sz = builtin_umull_overflow count sz"
proof -
  have mx: "unat SIZE_MAX = 2 ^ 64 - 1" by (simp add: SIZE_MAX_def)
  have c: "unat (push_bit 32 1 :: size_t) = 2 ^ 32" by simp
  have prod: "count * sz = of_nat (unat count * unat sz)" by simp
  have "((push_bit 32 1 \<le> sz \<or> push_bit 32 1 \<le> count) \<and> 0 < sz \<and> SIZE_MAX div sz < count)
      \<longleftrightarrow> 2 ^ 64 \<le> unat count * unat sz" (is "?L = ?R")
  proof (cases "sz = 0")
    case True then show ?thesis by simp
  next
    case False
    then have p: "0 < unat sz" by (simp add: unat_gt_0)
    have d: "SIZE_MAX div sz < count \<longleftrightarrow> 2 ^ 64 - 1 < unat count * unat sz"
      using mul_overflow_iff [OF p, of "2 ^ 64 - 1" "unat count"]
      by (simp only: word_less_nat_alt unat_div mx)
    have small: "unat count * unat sz < 2 ^ 64" if "unat sz < 2 ^ 32" "unat count < 2 ^ 32"
    proof -
      have "unat count * unat sz < 2 ^ 32 * 2 ^ 32"
        by (rule mult_strict_mono) (use that p in auto)
      then show ?thesis by simp
    qed
    show ?thesis
      using d small p False unfolding word_le_nat_alt c by (fastforce simp: word_less_nat_alt not_le)
  qed
  then show ?thesis by (simp only: pa_mul_overflow_fallback_def builtin_umull_overflow_def Let_def prod)
qed

lemma builtin_umull_overflow_value:
  "\<not> fst (builtin_umull_overflow count sz) \<Longrightarrow> unat (snd (builtin_umull_overflow count sz)) = unat count * unat sz"
  using unat_mult_no_wrap [of count sz] by (simp add: builtin_umull_overflow_def Let_def)

text \<open>C34: allocation sizes \<open>count * size\<close> never wrap silently.  \<open>pa_count_size_overflow\<close>
  reports overflow exactly when the mathematical product does not fit in \<open>size_t\<close> (and then
  stores \<open>SIZE_MAX\<close>), stores the exact product otherwise, and the portable multiplication
  test agrees with the compiler builtin on every pair of operands.\<close>
theorem pa_count_size_overflow_exact:
  "(fst (pa_count_size_overflow count sz) \<longleftrightarrow> 2 ^ 64 \<le> unat count * unat sz) \<and>
   unat (snd (pa_count_size_overflow count sz)) =
     (if 2 ^ 64 \<le> unat count * unat sz then 2 ^ 64 - 1 else unat count * unat sz) \<and>
   pa_mul_overflow_fallback count sz = builtin_umull_overflow count sz"
proof (cases "count = 1")
  case True
  then show ?thesis using unat_lt2p [of sz] by (simp add: pa_count_size_overflow_def pa_mul_overflow_fallback_eq)
next
  case False
  have "fst (builtin_umull_overflow count sz) \<longleftrightarrow> 2 ^ 64 \<le> unat count * unat sz"
    by (simp add: builtin_umull_overflow_def Let_def)
  then show ?thesis using False builtin_umull_overflow_value [of count sz]
    by (auto simp: pa_count_size_overflow_def pa_mul_overflow_fallback_eq SIZE_MAX_def split: prod.split)
qed

definition pa_rotl :: "uintptr_t \<Rightarrow> uintptr_t \<Rightarrow> uintptr_t" where
  "pa_rotl x shift =
     (let s = unat (shift mod 64)
      in if s = 0 then x else push_bit s x OR drop_bit (64 - s) x)"

definition pa_rotr :: "uintptr_t \<Rightarrow> uintptr_t \<Rightarrow> uintptr_t" where
  "pa_rotr x shift =
     (let s = unat (shift mod 64)
      in if s = 0 then x else drop_bit s x OR push_bit (64 - s) x)"

definition pa_ptr_decode :: "uintptr_t \<Rightarrow> uintptr_t \<Rightarrow> uintptr_t \<times> uintptr_t \<Rightarrow> uintptr_t" where
  "pa_ptr_decode null x keys =
     (let p = pa_rotr (x - fst keys) (fst keys) XOR snd keys
      in if p = null then 0 else p)"

definition pa_ptr_encode :: "uintptr_t \<Rightarrow> uintptr_t \<Rightarrow> uintptr_t \<times> uintptr_t \<Rightarrow> uintptr_t" where
  "pa_ptr_encode null p keys =
     (let x = (if p = 0 then null else p)
      in pa_rotl (x XOR snd keys) (fst keys) + fst keys)"

definition pa_ptr_encode_canary :: "uintptr_t \<Rightarrow> uintptr_t \<Rightarrow> uintptr_t \<times> uintptr_t \<Rightarrow> u32" where
  "pa_ptr_encode_canary null p keys =
     (let x = ucast (pa_ptr_encode null p keys) :: u32 in x AND 0xFFFFFF00)"

definition pa_random_shuffle :: "uintptr_t \<Rightarrow> uintptr_t" where
  "pa_random_shuffle x0 =
     (let x = (if x0 = 0 then 17 else x0);
          x = x XOR drop_bit 30 x;
          x = x * 0xbf58476d1ce4e5b9;
          x = x XOR drop_bit 27 x;
          x = x * 0x94d049bb133111eb
      in x XOR drop_bit 31 x)"

lemma bit_pa_rotl:
  assumes "i < 64"
  shows "bit (pa_rotl x s) i \<longleftrightarrow> bit x ((i + 64 - unat (s mod 64)) mod 64)"
proof -
  have lt: "unat (s mod 64) < 64" by (simp add: unat_mod)
  show ?thesis
  proof (cases "unat (s mod 64) = 0")
    case True then show ?thesis using assms by (simp add: pa_rotl_def Let_def)
  next
    case False
    let ?s = "unat (s mod 64)"
    have "(i + 64 - ?s) mod 64 = (if ?s \<le> i then i - ?s else i + 64 - ?s)"
      using assms lt False by (auto simp: mod_if)
    moreover have "\<not> bit x (i + (64 - ?s))" if "?s \<le> i"
      using that lt by (auto dest: bit_imp_le_length)
    ultimately show ?thesis
      using False assms lt by (auto simp: pa_rotl_def Let_def bit_simps add.commute)
  qed
qed

lemma bit_pa_rotr:
  assumes "i < 64"
  shows "bit (pa_rotr x s) i \<longleftrightarrow> bit x ((i + unat (s mod 64)) mod 64)"
proof -
  have lt: "unat (s mod 64) < 64" by (simp add: unat_mod)
  show ?thesis
  proof (cases "unat (s mod 64) = 0")
    case True then show ?thesis using assms by (simp add: pa_rotr_def Let_def)
  next
    case False
    let ?s = "unat (s mod 64)"
    have "(i + ?s) mod 64 = (if 64 - ?s \<le> i then i - (64 - ?s) else i + ?s)"
      using assms lt False by (auto simp: mod_if)
    moreover have "\<not> bit x (i + ?s)" if "64 - ?s \<le> i"
      using that lt by (auto dest: bit_imp_le_length)
    ultimately show ?thesis
      using False assms lt by (auto simp: pa_rotr_def Let_def bit_simps add.commute)
  qed
qed

lemma pa_rotr_rotl [simp]: "pa_rotr (pa_rotl x s) s = x"
proof (rule bit_word_eqI)
  fix n assume "n < LENGTH(64)"
  then have n: "n < 64" by simp
  have lt: "unat (s mod 64) < 64" by (simp add: unat_mod)
  have "((n + unat (s mod 64)) mod 64 + 64 - unat (s mod 64)) mod 64 = n"
    using n lt by (simp add: mod_if) arith
  then show "bit (pa_rotr (pa_rotl x s) s) n \<longleftrightarrow> bit x n"
    using n by (simp add: bit_pa_rotr bit_pa_rotl)
qed

text \<open>C35: encoded free-list links round-trip.  For every pair of keys, decoding an encoded
  pointer gives the pointer back, and the null pointer is represented by the address of
  the page or heap it belongs to, which therefore must not itself be stored.\<close>
theorem pa_ptr_decode_encode:
  assumes "p \<noteq> null \<or> null = 0"
  shows "pa_ptr_decode null (pa_ptr_encode null p keys) keys = p"
proof -
  have "pa_rotr (pa_ptr_encode null p keys - fst keys) (fst keys) XOR snd keys
      = (if p = 0 then null else p)"
    by (simp add: pa_ptr_encode_def Let_def xor.assoc)
  then show ?thesis using assms by (auto simp: pa_ptr_decode_def Let_def)
qed

theorem pa_ptr_decode_encode_witness:
  "pa_ptr_decode 0x1000 (pa_ptr_encode 0x1000 0x2040 (0x123456789, 0xABCDEF)) (0x123456789, 0xABCDEF) = 0x2040"
  using pa_ptr_decode_encode [of "0x2040" "0x1000" "(0x123456789, 0xABCDEF)"] by simp

lemma xor_drop_bit_eq_0:
  fixes x :: "'a::len word"
  assumes "0 < k" "x XOR drop_bit k x = 0"
  shows "x = 0"
proof (rule ccontr)
  assume "x \<noteq> 0"
  from assms(2) have e: "x = drop_bit k x" by (metis xor_self_eq xor.left_commute xor.right_neutral)
  have "unat (drop_bit k x) = unat x div 2 ^ k" by (rule unat_drop_bit)
  with e have "unat x = unat x div 2 ^ k" by simp
  moreover have "unat x div 2 ^ k < unat x"
    using \<open>x \<noteq> 0\<close> one_less_power [of "2::nat" k] assms(1)
    by (intro div_less_dividend) (auto simp: unat_gt_0)
  ultimately show False by simp
qed

lemma odd_mult_eq_0:
  fixes x c :: "'a::len word"
  assumes "odd (unat c)" "x * c = 0"
  shows "x = 0"
proof -
  have "2 ^ LENGTH('a) dvd unat x * unat c"
    using assms(2) by (metis unat_0 unat_word_ariths(2) dvd_eq_mod_eq_0)
  moreover have "coprime (2 ^ LENGTH('a)) (unat c)"
    using assms(1) by (simp add: coprime_left_2_iff_odd)
  ultimately have "2 ^ LENGTH('a) dvd unat x" by (simp add: coprime_dvd_mult_left_iff)
  then show ?thesis using unat_lt2p [of x] by (metis nat_dvd_not_less unat_gt_0)
qed

theorem pa_random_shuffle_nonzero: "pa_random_shuffle x \<noteq> 0"
proof
  let ?a = "if x = 0 then 17 else x"
  let ?b = "?a XOR drop_bit 30 ?a"
  let ?c = "?b * 0xbf58476d1ce4e5b9"
  let ?d = "?c XOR drop_bit 27 ?c"
  let ?e = "?d * 0x94d049bb133111eb"
  assume "pa_random_shuffle x = 0"
  then have "?e XOR drop_bit 31 ?e = 0" unfolding pa_random_shuffle_def Let_def .
  then have "?e = 0" by (rule xor_drop_bit_eq_0 [rotated]) simp
  then have "?d = 0" by (rule odd_mult_eq_0 [rotated]) simp
  then have "?c = 0" by (rule xor_drop_bit_eq_0 [rotated]) simp
  then have "?b = 0" by (rule odd_mult_eq_0 [rotated]) simp
  then have "?a = 0" by (rule xor_drop_bit_eq_0 [rotated]) simp
  then show False by (simp split: if_splits)
qed

end
