(* ===== verification/Palloc_Bits.thy ===== *)
theory Palloc_Bits
  imports Palloc_Base
begin

text \<open>
  Bit scanning of \<open>include/palloc/internal.h\<close>.  \<open>word_ctz\<close>, \<open>word_clz\<close> and \<open>word_popcount\<close>
  state what the compiler builtins compute; the portable branches are modelled with their
  de Bruijn tables and proved equal to them.
\<close>


definition word_ctz :: "'a::len word \<Rightarrow> nat" where
  "word_ctz x = length (takeWhile (\<lambda>i. \<not> bit x i) [0..<LENGTH('a)])"

definition word_clz :: "'a::len word \<Rightarrow> nat" where
  "word_clz x = length (takeWhile (\<lambda>i. \<not> bit x i) (rev [0..<LENGTH('a)]))"

definition word_popcount :: "'a::len word \<Rightarrow> nat" where
  "word_popcount x = length (filter (bit x) [0..<LENGTH('a)])"

definition pa_ctz :: "size_t \<Rightarrow> nat" where
  "pa_ctz x = (if x = 0 then 64 else word_ctz x)"

definition pa_clz :: "size_t \<Rightarrow> nat" where
  "pa_clz x = (if x = 0 then 64 else word_clz x)"

definition debruijn_ctz :: "nat list" where
  "debruijn_ctz =
    [0, 1, 28, 2, 29, 14, 24, 3, 30, 22, 20, 15, 25, 17, 4, 8,
     31, 27, 13, 23, 21, 19, 16, 7, 26, 12, 18, 6, 11, 5, 10, 9]"

definition pa_ctz_generic32 :: "u32 \<Rightarrow> nat" where
  "pa_ctz_generic32 x =
     (if x = 0 then 32
      else debruijn_ctz ! unat (drop_bit 27 ((x AND (- x)) * 0x077CB531)))"

definition debruijn_clz :: "nat list" where
  "debruijn_clz =
    [31, 22, 30, 21, 18, 10, 29, 2, 20, 17, 15, 13, 9, 6, 28, 1,
     23, 19, 11, 3, 16, 14, 7, 24, 12, 4, 8, 25, 5, 26, 27, 0]"

definition pa_clz_generic32 :: "u32 \<Rightarrow> nat" where
  "pa_clz_generic32 x0 =
     (if x0 = 0 then 32
      else let x = x0 OR drop_bit 1 x0;
               x = x OR drop_bit 2 x;
               x = x OR drop_bit 4 x;
               x = x OR drop_bit 8 x;
               x = x OR drop_bit 16 x
           in debruijn_clz ! unat (drop_bit 27 (x * 0x07C4ACDD)))"

definition pa_ctz_portable :: "size_t \<Rightarrow> nat" where
  "pa_ctz_portable x =
     (if x = 0 then 64
      else let lo = ucast x :: u32
           in if lo \<noteq> 0 then pa_ctz_generic32 lo
              else 32 + pa_ctz_generic32 (ucast (drop_bit 32 x)))"

definition pa_clz_portable :: "size_t \<Rightarrow> nat" where
  "pa_clz_portable x =
     (if x = 0 then 64
      else let hi = ucast (drop_bit 32 x) :: u32
           in if hi \<noteq> 0 then pa_clz_generic32 hi
              else 32 + pa_clz_generic32 (ucast x))"

definition pa_bsr :: "size_t \<Rightarrow> nat" where
  "pa_bsr x = (if x = 0 then 64 else 64 - 1 - pa_clz x)"

definition pa_popcount :: "size_t \<Rightarrow> size_t" where
  "pa_popcount x =
     (if x \<le> 1 then x else if x = - 1 then 64 else of_nat (word_popcount x))"

lemma takeWhile_upt_first:
  assumes "i < n" "P i" "\<And>j. j < i \<Longrightarrow> \<not> P j"
  shows "length (takeWhile (\<lambda>j. \<not> P j) [0..<n]) = i"
proof -
  have "[0..<n] = [0..<i] @ [i..<n]" using assms(1) by (metis le_add1 upt_add_eq_append less_imp_add_positive add_0)
  moreover have "takeWhile (\<lambda>j. \<not> P j) [i..<n] = []"
    using assms by (simp add: upt_conv_Cons)
  ultimately have "takeWhile (\<lambda>j. \<not> P j) [0..<n] = [0..<i]"
    using assms(3) by (simp add: takeWhile_append)
  then show ?thesis by simp
qed

lemma word_ctz_eqI:
  fixes x :: "'a::len word"
  assumes "bit x i" "\<And>j. j < i \<Longrightarrow> \<not> bit x j"
  shows "word_ctz x = i"
  unfolding word_ctz_def
  by (rule takeWhile_upt_first) (use assms bit_imp_le_length in auto)

lemma word_nonzero_low:
  fixes x :: "'a::len word"
  assumes "x \<noteq> 0"
  obtains i where "bit x i" "\<And>j. j < i \<Longrightarrow> \<not> bit x j"
proof -
  obtain n where n: "bit x n" using assms bit_eqI [of x 0] by auto
  show ?thesis
  proof (rule that)
    show "bit x (LEAST i. bit x i)" using n by (rule LeastI)
    show "\<And>j. j < (LEAST i. bit x i) \<Longrightarrow> \<not> bit x j" by (rule not_less_Least)
  qed
qed

lemma word_nonzero_high:
  fixes x :: "'a::len word"
  assumes "x \<noteq> 0"
  obtains i where "bit x i" "i < LENGTH('a)" "\<And>j. i < j \<Longrightarrow> \<not> bit x j"
proof -
  obtain n where n: "bit x n" using assms bit_eqI [of x 0] by auto
  let ?S = "{i. bit x i}"
  have fin: "finite ?S" by (rule finite_subset [of _ "{..<LENGTH('a)}"]) (auto dest: bit_imp_le_length)
  have "Max ?S \<in> ?S" using fin n by (intro Max_in) auto
  then show ?thesis using Max_ge [OF fin] bit_imp_le_length
    by (intro that [of "Max ?S"]) (auto simp: not_le [symmetric])
qed

lemma word_clz_eqI:
  fixes x :: "'a::len word"
  assumes "bit x i" "\<And>j. i < j \<Longrightarrow> \<not> bit x j"
  shows "word_clz x = LENGTH('a) - 1 - i"
proof -
  have i: "i < LENGTH('a)" using assms(1) by (rule bit_imp_le_length)
  have r: "rev [0..<LENGTH('a)] = map (\<lambda>k. LENGTH('a) - 1 - k) [0..<LENGTH('a)]"
    by (rule nth_equalityI) (auto simp: rev_nth)
  have "word_clz x = length (takeWhile (\<lambda>k. \<not> bit x (LENGTH('a) - 1 - k)) [0..<LENGTH('a)])"
    by (simp add: word_clz_def r takeWhile_map comp_def)
  also have "\<dots> = LENGTH('a) - 1 - i"
    by (rule takeWhile_upt_first) (use i assms in auto)
  finally show ?thesis .
qed

lemma word_bit_ctz: "x \<noteq> 0 \<Longrightarrow> bit x (word_ctz x)"
  and word_ctz_low: "x \<noteq> 0 \<Longrightarrow> j < word_ctz x \<Longrightarrow> \<not> bit x j"
  and word_ctz_lt: "x \<noteq> 0 \<Longrightarrow> word_ctz x < LENGTH('a)" for x :: "'a::len word"
  by (metis word_nonzero_low word_ctz_eqI bit_imp_le_length)+

lemma lowest_bit_isolate:
  fixes x :: "'a::len word"
  assumes "x \<noteq> 0"
  shows "x AND (- x) = 2 ^ word_ctz x"
proof -
  let ?k = "word_ctz x"
  let ?h = "x AND NOT (mask (Suc ?k))"
  have k: "?k < LENGTH('a)" using assms by (rule word_ctz_lt)
  have x: "x = 2 ^ ?k + ?h"
  proof (subst disjunctive_add_eq_or)
    show "2 ^ ?k AND ?h = 0" by (rule bit_word_eqI) (auto simp: bit_simps)
    show "x = 2 ^ ?k OR ?h"
      by (rule bit_word_eqI)
        (use word_bit_ctz [OF assms] word_ctz_low [OF assms] in \<open>auto simp: bit_simps not_less_eq intro: linorder_neqE_nat\<close>)
  qed
  have "x - 1 = mask ?k + ?h" using x by (simp add: mask_eq_exp_minus_1 algebra_simps)
  also have "\<dots> = mask ?k OR ?h"
    by (rule disjunctive_add_eq_or) (rule bit_word_eqI, auto simp: bit_simps)
  finally have "- x = NOT (mask ?k OR ?h)" by (simp add: minus_eq_not_minus_1)
  then show ?thesis
    using word_bit_ctz [OF assms] word_ctz_low [OF assms] k
    by (intro bit_word_eqI) (auto simp: bit_simps not_less)
qed

lemma debruijn_ctz_table:
  "list_all (\<lambda>k. debruijn_ctz ! unat (drop_bit 27 ((2 ^ k :: u32) * 0x077CB531)) = k) [0..<32]"
  by code_simp

lemma debruijn_ctz_correct:
  "k < 32 \<Longrightarrow> debruijn_ctz ! unat (drop_bit 27 ((2 ^ k :: u32) * 0x077CB531)) = k"
  using debruijn_ctz_table unfolding list_all_iff by auto

lemma pa_ctz_generic32_correct: "x \<noteq> 0 \<Longrightarrow> pa_ctz_generic32 x = word_ctz x"
  using debruijn_ctz_correct word_ctz_lt [of x]
  by (simp add: pa_ctz_generic32_def lowest_bit_isolate)

lemma smear_step:
  fixes x y :: "'a::len word"
  assumes "\<And>i. bit y i \<longleftrightarrow> (\<exists>d < m. bit x (i + d))"
  shows "bit (y OR drop_bit m y) i \<longleftrightarrow> (\<exists>d < 2 * m. bit x (i + d))"
proof -
  have "(\<exists>d < 2 * m. bit x (i + d)) \<longleftrightarrow> (\<exists>d < m. bit x (i + d)) \<or> (\<exists>d < m. bit x (i + m + d))"
  proof
    assume "\<exists>d < 2 * m. bit x (i + d)"
    then obtain d where d: "d < 2 * m" "bit x (i + d)" by blast
    show "(\<exists>d < m. bit x (i + d)) \<or> (\<exists>d < m. bit x (i + m + d))"
    proof (cases "d < m")
      case True with d show ?thesis by blast
    next
      case False
      then have "d - m < m" "bit x (i + m + (d - m))" using d by auto
      then show ?thesis by blast
    qed
  next
    assume "(\<exists>d < m. bit x (i + d)) \<or> (\<exists>d < m. bit x (i + m + d))"
    then show "\<exists>d < 2 * m. bit x (i + d)"
    proof
      assume "\<exists>d < m. bit x (i + m + d)"
      then obtain d where "d < m" "bit x (i + m + d)" by blast
      then have "m + d < 2 * m" "bit x (i + (m + d))" by (auto simp: add.assoc)
      then show ?thesis by blast
    next
      assume "\<exists>d < m. bit x (i + d)"
      then obtain d where "d < m" "bit x (i + d)" by blast
      then have "d < 2 * m" "bit x (i + d)" by auto
      then show ?thesis by blast
    qed
  qed
  then show ?thesis using assms by (simp add: bit_simps add.commute add.left_commute)
qed

definition smear32 :: "u32 \<Rightarrow> u32" where
  "smear32 x0 =
     (let x = x0 OR drop_bit 1 x0; x = x OR drop_bit 2 x; x = x OR drop_bit 4 x; x = x OR drop_bit 8 x
      in x OR drop_bit 16 x)"

lemma smear32_mask:
  assumes "bit x h" "\<And>j. h < j \<Longrightarrow> \<not> bit x j"
  shows "smear32 x = mask (Suc h)"
proof (rule bit_word_eqI)
  fix n assume "n < LENGTH(32)"
  then have n: "n < 32" by simp
  have h: "h < 32" using bit_imp_le_length [OF assms(1)] by simp
  have 0: "\<And>i. bit x i \<longleftrightarrow> (\<exists>d < 1. bit x (i + d))" by simp
  note 5 = smear_step [OF smear_step [OF smear_step [OF smear_step [OF smear_step [OF 0]]]], simplified]
  have "bit (smear32 x) n \<longleftrightarrow> (\<exists>d < 32. bit x (n + d))"
    unfolding smear32_def Let_def using 5 by simp
  also have "\<dots> \<longleftrightarrow> n \<le> h"
  proof
    assume "\<exists>d < 32. bit x (n + d)"
    then show "n \<le> h" using assms(2) by (meson le_add1 le_trans not_less)
  next
    assume "n \<le> h"
    then have "h - n < 32 \<and> bit x (n + (h - n))" using h assms(1) by simp
    then show "\<exists>d < 32. bit x (n + d)" by blast
  qed
  finally show "bit (smear32 x) n \<longleftrightarrow> bit (mask (Suc h) :: u32) n" using n by (simp add: bit_simps less_Suc_eq_le)
qed

lemma debruijn_clz_table:
  "list_all (\<lambda>k. debruijn_clz ! unat (drop_bit 27 ((mask (Suc k) :: u32) * 0x07C4ACDD)) = 31 - k) [0..<32]"
  by code_simp

lemma debruijn_clz_correct:
  "k < 32 \<Longrightarrow> debruijn_clz ! unat (drop_bit 27 ((mask (Suc k) :: u32) * 0x07C4ACDD)) = 31 - k"
  using debruijn_clz_table unfolding list_all_iff by auto

lemma pa_clz_generic32_correct:
  assumes "x \<noteq> 0"
  shows "pa_clz_generic32 x = word_clz x"
proof -
  obtain h where h: "bit x h" "h < 32" "\<And>j. h < j \<Longrightarrow> \<not> bit x j"
    using word_nonzero_high [OF assms] by auto
  have "pa_clz_generic32 x = debruijn_clz ! unat (drop_bit 27 (smear32 x * 0x07C4ACDD))"
    using assms by (simp only: pa_clz_generic32_def smear32_def Let_def if_False)
  also have "\<dots> = 31 - h" using h(2) by (simp only: smear32_mask [OF h(1,3)] debruijn_clz_correct)
  also have "\<dots> = word_clz x" using word_clz_eqI [of x h] h by simp
  finally show ?thesis .
qed

lemma bit_lo32: "bit (ucast (x :: size_t) :: u32) i \<longleftrightarrow> i < 32 \<and> bit x i"
  by (auto simp: bit_simps)

lemma bit_hi32: "bit (ucast (drop_bit 32 (x :: size_t)) :: u32) i \<longleftrightarrow> bit x (i + 32)"
  using bit_imp_le_length [of x "i + 32"] by (auto simp: bit_simps add.commute)

lemma word_ctz_split:
  fixes x :: size_t
  defines "lo \<equiv> ucast x :: u32" and "hi \<equiv> ucast (drop_bit 32 x) :: u32"
  assumes "x \<noteq> 0"
  shows "word_ctz x = (if lo \<noteq> 0 then word_ctz lo else 32 + word_ctz hi)"
    and "lo = 0 \<Longrightarrow> hi \<noteq> 0"
proof -
  obtain i where i: "bit x i" "\<And>j. j < i \<Longrightarrow> \<not> bit x j" using word_nonzero_low [OF assms(3)] by blast
  have w: "word_ctz x = i" using i by (rule word_ctz_eqI)
  have i64: "i < 64" using bit_imp_le_length [OF i(1)] by simp
  have hibit: "bit hi (i - 32)" "\<And>j. j < i - 32 \<Longrightarrow> \<not> bit hi j" if "32 \<le> i"
    using i that by (auto simp: hi_def bit_hi32)
  show "word_ctz x = (if lo \<noteq> 0 then word_ctz lo else 32 + word_ctz hi)"
  proof (cases "i < 32")
    case True
    then have b: "bit lo i" "\<And>j. j < i \<Longrightarrow> \<not> bit lo j" using i by (auto simp: lo_def bit_lo32)
    then have "lo \<noteq> 0" by auto
    then show ?thesis using word_ctz_eqI [OF b] w by simp
  next
    case False
    have "lo = 0" by (rule bit_word_eqI) (use i False in \<open>auto simp: lo_def bit_lo32\<close>)
    then show ?thesis using word_ctz_eqI [OF hibit] False w by simp
  qed
  show "hi \<noteq> 0" if "lo = 0"
  proof -
    have "\<not> i < 32" using that i by (auto simp: lo_def bit_lo32 bit_eq_iff)
    then have "bit hi (i - 32)" using hibit by simp
    then show ?thesis by auto
  qed
qed

lemma word_clz_split:
  fixes x :: size_t
  defines "lo \<equiv> ucast x :: u32" and "hi \<equiv> ucast (drop_bit 32 x) :: u32"
  assumes "x \<noteq> 0"
  shows "word_clz x = (if hi \<noteq> 0 then word_clz hi else 32 + word_clz lo)"
    and "hi = 0 \<Longrightarrow> lo \<noteq> 0"
proof -
  obtain i where i: "bit x i" "i < 64" "\<And>j. i < j \<Longrightarrow> \<not> bit x j"
    using word_nonzero_high [OF assms(3)] by auto
  have w: "word_clz x = 63 - i" using word_clz_eqI [OF i(1,3)] by simp
  have lobit: "bit lo i" "\<And>j. i < j \<Longrightarrow> \<not> bit lo j" if "i < 32"
    using i that by (auto simp: lo_def bit_lo32)
  have hi0: "hi = 0 \<longleftrightarrow> i < 32"
  proof
    assume "hi = 0"
    then have "\<not> bit hi (i - 32)" by simp
    then show "i < 32" using i(1) by (cases "32 \<le> i") (auto simp: hi_def bit_hi32)
  next
    assume "i < 32"
    then show "hi = 0" by (intro bit_word_eqI) (use i in \<open>auto simp: hi_def bit_hi32\<close>)
  qed
  show "word_clz x = (if hi \<noteq> 0 then word_clz hi else 32 + word_clz lo)"
  proof (cases "i < 32")
    case True
    then have "word_clz lo = 31 - i" using word_clz_eqI [OF lobit] by simp
    then show ?thesis using hi0 True w by simp
  next
    case False
    then have "bit hi (i - 32)" "\<And>j. i - 32 < j \<Longrightarrow> \<not> bit hi j" using i by (auto simp: hi_def bit_hi32)
    then have "word_clz hi = 31 - (i - 32)" using word_clz_eqI [of hi "i - 32"] by simp
    then show ?thesis using hi0 False w i(2) by simp
  qed
  show "lo \<noteq> 0" if "hi = 0" using lobit hi0 that by auto
qed

text \<open>C36: bit scans.  The portable de Bruijn implementations of count-trailing-zeros and
  count-leading-zeros (table lookups on 32-bit halves) return what the compiler builtins
  return, on every 64-bit word, zero included.\<close>
theorem pa_bitscan_portable:
  "pa_ctz_portable x = pa_ctz x \<and> pa_clz_portable x = pa_clz x"
proof (cases "x = 0")
  case True then show ?thesis by (simp add: pa_ctz_portable_def pa_ctz_def pa_clz_portable_def pa_clz_def)
next
  case False
  then show ?thesis
    using word_ctz_split [OF False] word_clz_split [OF False]
    by (simp add: pa_ctz_portable_def pa_ctz_def pa_clz_portable_def pa_clz_def Let_def
        pa_ctz_generic32_correct pa_clz_generic32_correct)
qed

lemma pa_bsr_eqI: "2 ^ n \<le> unat x \<Longrightarrow> unat x < 2 ^ Suc n \<Longrightarrow> pa_bsr x = n"
proof -
  assume a: "2 ^ n \<le> unat x" "unat x < 2 ^ Suc n"
  then have x0: "x \<noteq> 0" by auto
  have b: "bit x n" using bit_top_nat [OF a] by (simp add: bit_simps)
  have up: "\<not> bit x j" if "n < j" for j
  proof -
    have "unat x < 2 ^ j" using a(2) that
      by (meson Suc_leI less_le_trans one_le_numeral power_increasing)
    then have "\<not> bit (unat x) j" by (simp add: bit_iff_odd)
    then show ?thesis by (auto simp: bit_simps dest: bit_imp_le_length)
  qed
  have "n < 64" using bit_imp_le_length [OF b] by simp
  then show ?thesis using word_clz_eqI [OF b up] x0 by (simp add: pa_bsr_def pa_clz_def)
qed

end
