(* ===== verification/Palloc_Bins.thy ===== *)
theory Palloc_Bins
  imports Palloc_Arith Palloc_Bits
begin

text \<open>
  Size classes.  \<open>pa_bin\<close>, its lookup table, \<open>pa_bin_size\<close> and \<open>pa_good_size\<close> are those of
  \<open>src/page-queue.c\<close> with the block sizes of \<open>PA_PAGE_QUEUES_EMPTY\<close> in \<open>src/init.c\<close>;
  \<open>pa_slice_bin\<close> classifies free spans of slices (\<open>src/segment.c\<close>).  The shared argument is
  about \<open>wbin\<close>: a word count above 8 lies in exactly one interval
  \<open>((4 + r) * 2 ^ (n - 2), (5 + r) * 2 ^ (n - 2)]\<close>.
\<close>


definition PA_SMALL_SIZE_MAX :: nat where "PA_SMALL_SIZE_MAX = 128 * 8"
definition PA_MEDIUM_PAGE_SIZE :: nat where "PA_MEDIUM_PAGE_SIZE = 2 ^ 19"
definition PA_MEDIUM_OBJ_SIZE_MAX :: nat where "PA_MEDIUM_OBJ_SIZE_MAX = PA_MEDIUM_PAGE_SIZE div 8"
definition PA_MEDIUM_OBJ_WSIZE_MAX :: nat where "PA_MEDIUM_OBJ_WSIZE_MAX = PA_MEDIUM_OBJ_SIZE_MAX div 8"
definition PA_BIN_HUGE :: nat where "PA_BIN_HUGE = 73"
definition PA_BIN_FULL :: nat where "PA_BIN_FULL = PA_BIN_HUGE + 1"

lemmas bin_consts = PA_SMALL_SIZE_MAX_def PA_MEDIUM_PAGE_SIZE_def PA_MEDIUM_OBJ_SIZE_MAX_def
  PA_MEDIUM_OBJ_WSIZE_MAX_def PA_BIN_HUGE_def PA_BIN_FULL_def

definition pa_bin :: "size_t \<Rightarrow> nat" where
  "pa_bin sz =
     (let wsize = pa_wsize_from_size sz
      in if wsize \<le> 8 then (if wsize \<le> 1 then 1 else unat ((wsize + 1) AND NOT 1))
         else if of_nat PA_MEDIUM_OBJ_WSIZE_MAX < wsize then PA_BIN_HUGE
         else let wsize = wsize - 1;
                  b = 64 - 1 - pa_clz wsize
              in (push_bit 2 b + unat (drop_bit (b - 2) wsize AND 3)) - 3)"

definition page_queue_wsizes :: "nat list" where
  "page_queue_wsizes =
    [1,
     1, 2, 3, 4, 5, 6, 7, 8,
     10, 12, 14, 16, 20, 24, 28, 32,
     40, 48, 56, 64, 80, 96, 112, 128,
     160, 192, 224, 256, 320, 384, 448, 512,
     640, 768, 896, 1024, 1280, 1536, 1792, 2048,
     2560, 3072, 3584, 4096, 5120, 6144, 7168, 8192,
     10240, 12288, 14336, 16384, 20480, 24576, 28672, 32768,
     40960, 49152, 57344, 65536, 81920, 98304, 114688, 131072,
     163840, 196608, 229376, 262144, 327680, 393216, 458752, 524288,
     PA_MEDIUM_OBJ_WSIZE_MAX + 1, PA_MEDIUM_OBJ_WSIZE_MAX + 2]"

definition pa_bin_size :: "nat \<Rightarrow> nat" where
  "pa_bin_size bin = page_queue_wsizes ! bin * 8"

definition pa_size2bin_tab :: "u8 list" where
  "pa_size2bin_tab =
     map (\<lambda>s. let b = pa_bin (of_nat s) in of_nat (if PA_BIN_HUGE \<le> b then PA_BIN_HUGE else b))
       [0..<8192]"

definition pa_bin_fast :: "size_t \<Rightarrow> nat" where
  "pa_bin_fast sz = (if sz < 8192 then unat (pa_size2bin_tab ! unat sz) else pa_bin sz)"

definition pa_good_size :: "size_t \<Rightarrow> size_t \<Rightarrow> size_t" where
  "pa_good_size os_page_size sz =
     (if unat sz \<le> PA_MEDIUM_OBJ_SIZE_MAX then of_nat (pa_bin_size (pa_bin sz))
      else pa_align_up sz os_page_size)"

subsection \<open>Bins of the nat size\<close>

definition wsize_nat :: "nat \<Rightarrow> nat" where
  "wsize_nat s = (s + 7) div 8"

lemma unat_pa_wsize: "unat sz + 8 < 2 ^ 64 \<Longrightarrow> unat (pa_wsize_from_size sz) = wsize_nat (unat sz)"
proof -
  assume a: "unat sz + 8 < 2 ^ 64"
  have "sz + 8 - 1 = sz + 7" by simp
  moreover have "unat (sz + 7) = unat sz + 7" using a by (subst unat_add_no_wrap) auto
  ultimately show ?thesis by (simp only: pa_wsize_from_size_def wsize_nat_def unat_div) simp
qed

definition wbin :: "nat \<Rightarrow> nat" where
  "wbin w = (if w \<le> 8 then (if w \<le> 1 then 1 else (w + 1) div 2 * 2)
             else if 8192 < w then 73
             else let b = (LEAST n. w - 1 < 2 ^ Suc n) in 4 * b + (w - 1) div 2 ^ (b - 2) mod 4 - 3)"

lemma least_log2:
  assumes "2 ^ n \<le> (x::nat)" "x < 2 ^ Suc n"
  shows "(LEAST n. x < 2 ^ Suc n) = n"
proof (rule Least_equality)
  show "x < 2 ^ Suc n" by fact
  fix m assume "x < 2 ^ Suc m"
  with assms(1) have "(2::nat) ^ n < 2 ^ Suc m" by linarith
  then have "n < Suc m" by (rule power_less_imp_less_exp [rotated]) simp
  then show "n \<le> m" by simp
qed

lemma pa_bin_eq_wbin:
  assumes "unat sz + 8 < 2 ^ 64"
  shows "pa_bin sz = wbin (wsize_nat (unat sz))"
proof -
  let ?w = "pa_wsize_from_size sz"
  have u: "unat ?w = wsize_nat (unat sz)" by (rule unat_pa_wsize [OF assms])
  consider (small) "unat ?w \<le> 8" | (huge) "8192 < unat ?w" | (med) "8 < unat ?w" "unat ?w \<le> 8192" by linarith
  then show ?thesis
  proof cases
    case small
    have "NOT 1 = (NOT (mask 1) :: size_t)" by simp
    moreover have "unat (?w + 1) = unat ?w + 1" using small by (subst unat_add_no_wrap) auto
    ultimately have "unat ((?w + 1) AND NOT 1) = (unat ?w + 1) div 2 * 2"
      by (metis unat_and_not_mask power_one_right)
    then show ?thesis using small u
      by (simp add: pa_bin_def wbin_def Let_def word_le_nat_alt)
  next
    case huge
    then show ?thesis using u
      by (simp add: pa_bin_def wbin_def Let_def word_le_nat_alt word_less_nat_alt bin_consts)
  next
    case med
    let ?v = "?w - 1"
    have v: "unat ?v = unat ?w - 1" using med by (intro unat_dec) auto
    obtain n where n: "2 ^ n \<le> unat ?v" "unat ?v < 2 ^ Suc n" using nat_log2_ex [of "unat ?v"] v med by auto
    have "unat ?v \<noteq> 0" using v med by simp
    then have v0: "?v \<noteq> 0" by (metis unat_0)
    have b: "64 - 1 - pa_clz ?v = n" using pa_bsr_eqI [OF n] v0 by (simp add: pa_bsr_def)
    have a3: "unat (drop_bit (n - 2) ?v AND 3) = unat ?v div 2 ^ (n - 2) mod 4"
    proof -
      have "drop_bit (n - 2) ?v AND 3 = take_bit 2 (drop_bit (n - 2) ?v)"
        by (simp add: take_bit_eq_mask mask_eq_exp_minus_1)
      then show ?thesis by (simp add: unsigned_take_bit_eq unat_drop_bit) (simp add: take_bit_eq_mod)
    qed
    have L: "(LEAST n. unat ?w - 1 < 2 ^ Suc n) = n" using least_log2 [OF n] v by simp
    have "pa_bin sz = (let b = 64 - 1 - pa_clz ?v in push_bit 2 b + unat (drop_bit (b - 2) ?v AND 3) - 3)"
      using med by (simp add: pa_bin_def word_le_nat_alt word_less_nat_alt bin_consts Let_def)
    also have "\<dots> = push_bit 2 n + unat ?v div 2 ^ (n - 2) mod 4 - 3"
      unfolding Let_def b a3 ..
    also have "\<dots> = wbin (unat ?w)"
      using med v L by (simp add: wbin_def Let_def push_bit_eq_mult mult.commute)
    finally show ?thesis using u by simp
  qed
qed

lemma wbin_medium:
  assumes "8 < w" "w \<le> 8192"
  obtains n r where "3 \<le> n" "n \<le> 12" "r < 4" "wbin w = 4 * n + r - 3"
    "(4 + r) * 2 ^ (n - 2) < w" "w \<le> (5 + r) * 2 ^ (n - 2)"
proof -
  obtain n where n: "2 ^ n \<le> w - 1" "w - 1 < 2 ^ Suc n" using nat_log2_ex [of "w - 1"] assms by auto
  have "2 ^ 3 < (2::nat) ^ Suc n" using n(2) assms(1) by simp
  then have n3: "3 \<le> n" using power_less_imp_less_exp [of "2::nat" 3 "Suc n"] by simp
  have "2 ^ n < (2::nat) ^ 13" using n(1) assms by simp
  then have n12: "n \<le> 12" using power_less_imp_less_exp [of "2::nat" n 13] by simp
  let ?q = "(w - 1) div 2 ^ (n - 2)"
  have "n = (n - 2) + 2" using n3 by simp
  then have "(2::nat) ^ n = 2 ^ ((n - 2) + 2)" by (rule arg_cong)
  then have e: "(2::nat) ^ n = 4 * 2 ^ (n - 2)" by (simp only: power_add) simp
  have q: "4 \<le> ?q" "?q < 8"
    using n e by (auto simp: less_eq_div_iff_mult_less_eq div_less_iff_less_mult mult.commute)
  define r where "r = ?q - 4"
  have r: "r < 4" "?q = 4 + r" using q by (auto simp: r_def)
  have m: "?q mod 4 = r" using r by simp
  have "wbin w = 4 * n + r - 3"
    using assms least_log2 [OF n] m by (simp add: wbin_def Let_def)
  moreover have "(4 + r) * 2 ^ (n - 2) \<le> w - 1" using r(2) by (metis div_times_less_eq_dividend)
  moreover have "w - 1 < (5 + r) * 2 ^ (n - 2)"
  proof -
    have "?q < 5 + r" using r(2) by simp
    then show ?thesis by (simp add: div_less_iff_less_mult)
  qed
  ultimately show ?thesis using that [of n r] n3 n12 r(1) assms by simp
qed

lemma page_queue_wsizes_medium_table:
  "list_all (\<lambda>n. list_all (\<lambda>r. page_queue_wsizes ! (4 * n + r - 3) = (5 + r) * 2 ^ (n - 2)) [0..<4]) [3..<13]"
  by (simp add: page_queue_wsizes_def upt_rec)

lemma page_queue_wsizes_medium:
  "3 \<le> n \<Longrightarrow> n \<le> 12 \<Longrightarrow> r < 4 \<Longrightarrow> page_queue_wsizes ! (4 * n + r - 3) = (5 + r) * 2 ^ (n - 2)"
  using list_all_uptD [OF list_all_uptD [OF page_queue_wsizes_medium_table], of n r] by simp

lemma wbin_le: "w \<le> 8192 \<Longrightarrow> 1 \<le> wbin w \<and> wbin w \<le> 48"
proof (cases "w \<le> 8")
  case False
  assume "w \<le> 8192"
  with False obtain n r where "3 \<le> n" "n \<le> 12" "r < 4" "wbin w = 4 * n + r - 3"
    using wbin_medium [of w] by (metis not_le)
  then show ?thesis by linarith
qed (auto simp: wbin_def)

lemma wbin_small_table:
  "list_all (\<lambda>w. w \<le> page_queue_wsizes ! wbin w \<and> page_queue_wsizes ! wbin w \<le> Suc w) [0..<9]"
  by (simp add: page_queue_wsizes_def upt_rec wbin_def)

lemma wbin_fits: "w \<le> 8192 \<Longrightarrow> w \<le> page_queue_wsizes ! wbin w"
proof (cases "w \<le> 8")
  case True then show ?thesis using list_all_uptD [OF wbin_small_table, of w] by simp
next
  case False
  assume "w \<le> 8192"
  with False obtain n r where "3 \<le> n" "n \<le> 12" "r < 4" "wbin w = 4 * n + r - 3"
    "w \<le> (5 + r) * 2 ^ (n - 2)" using wbin_medium [of w] by (metis not_le)
  then show ?thesis by (simp add: page_queue_wsizes_medium)
qed

lemma wbin_waste: "8 < w \<Longrightarrow> w \<le> 8192 \<Longrightarrow> 4 * page_queue_wsizes ! wbin w < 5 * w"
proof -
  assume w: "8 < w" "w \<le> 8192"
  then obtain n r where nr: "3 \<le> n" "n \<le> 12" "r < 4" "wbin w = 4 * n + r - 3"
    "(4 + r) * 2 ^ (n - 2) < w" by (rule wbin_medium)
  then have e: "page_queue_wsizes ! wbin w = (5 + r) * 2 ^ (n - 2)" by (simp add: page_queue_wsizes_medium)
  have "4 * ((5 + r) * 2 ^ (n - 2)) \<le> 5 * ((4 + r) * (2::nat) ^ (n - 2))"
    by (simp add: algebra_simps)
  also have "\<dots> < 5 * w" using nr(5) by simp
  finally show ?thesis by (simp add: e)
qed

lemma wbin_eqI:
  assumes "3 \<le> n" "n \<le> 12" "r < 4" "(4 + r) * 2 ^ (n - 2) < w" "w \<le> (5 + r) * 2 ^ (n - 2)"
  shows "wbin w = 4 * n + r - 3"
proof -
  have "n = (n - 2) + 2" using assms(1) by simp
  then have "(2::nat) ^ n = 2 ^ ((n - 2) + 2)" by (rule arg_cong)
  then have e: "(2::nat) ^ n = 4 * 2 ^ (n - 2)" by (simp only: power_add) simp
  have hi: "(5 + r) * 2 ^ (n - 2) \<le> 8 * (2::nat) ^ (n - 2)" using assms(3) by (intro mult_right_mono) auto
  have lo: "4 * 2 ^ (n - 2) \<le> (4 + r) * (2::nat) ^ (n - 2)" by (intro mult_right_mono) auto
  have e': "(2::nat) ^ Suc n = 8 * 2 ^ (n - 2)" using e by simp
  have "2 ^ n \<le> w - 1" using assms(4) e lo by linarith
  moreover have "w - 1 < 2 ^ Suc n" using assms(4,5) e' hi by linarith
  ultimately have n: "2 ^ n \<le> w - 1" "w - 1 < 2 ^ Suc n" by auto
  have "(2::nat) ^ n \<le> 2 ^ 12" using assms(2) by (intro power_increasing) auto
  then have w: "8 < w" "w \<le> 8192"
    using n e hi assms(5) power_increasing [of 3 n "2::nat"] assms(1) by auto
  have "(w - 1) div 2 ^ (n - 2) = 4 + r"
    using assms(4,5) by (intro div_nat_eqI) (auto simp: mult.commute)
  then have "(w - 1) div 2 ^ (n - 2) mod 4 = r" using assms(3) by simp
  then show ?thesis using w least_log2 [OF n] by (simp add: wbin_def Let_def)
qed

lemma wbin_less:
  assumes "8 < w" "w \<le> w'" "w' \<le> 8192"
  shows "wbin w \<le> wbin w'"
proof (rule ccontr)
  assume gt: "\<not> wbin w \<le> wbin w'"
  obtain n r where nr: "3 \<le> n" "n \<le> 12" "r < 4" "wbin w = 4 * n + r - 3" "(4 + r) * 2 ^ (n - 2) < w"
    using assms wbin_medium [of w] by (metis le_trans)
  obtain n' r' where nr': "3 \<le> n'" "n' \<le> 12" "r' < 4" "wbin w' = 4 * n' + r' - 3" "w' \<le> (5 + r') * 2 ^ (n' - 2)"
    using assms wbin_medium [of w'] by (metis less_le_trans)
  have c: "4 * n' + r' < 4 * n + r" using gt nr nr' by simp
  have "(5 + r') * 2 ^ (n' - 2) \<le> (4 + r) * (2::nat) ^ (n - 2)"
  proof (cases "n' = n")
    case True then show ?thesis using c by (intro mult_mono) auto
  next
    case False
    then have "n' - 2 + 1 \<le> n - 2" using c nr nr' by simp
    then have "(2::nat) ^ (n' - 2 + 1) \<le> 2 ^ (n - 2)" by (intro power_increasing) auto
    then have "8 * 2 ^ (n' - 2) \<le> 4 * (2::nat) ^ (n - 2)" by simp
    moreover have "(5 + r') * 2 ^ (n' - 2) \<le> 8 * (2::nat) ^ (n' - 2)" using nr' by (intro mult_right_mono) auto
    moreover have "4 * 2 ^ (n - 2) \<le> (4 + r) * (2::nat) ^ (n - 2)" by (intro mult_right_mono) auto
    ultimately show ?thesis by linarith
  qed
  then show False using nr(5) nr'(5) assms(2) by linarith
qed

lemma wbin_mono: "w \<le> w' \<Longrightarrow> wbin w \<le> wbin w'"
proof -
  assume le: "w \<le> w'"
  consider "8192 < w'" | "8 < w" "w' \<le> 8192" | "w \<le> 8" "w' \<le> 8" | "w \<le> 8" "8 < w'" "w' \<le> 8192" by linarith
  then show ?thesis
  proof cases
    case 1
    then have "wbin w' = 73" by (simp add: wbin_def)
    then show ?thesis using wbin_le [of w] by (cases "w \<le> 8192") (auto simp: wbin_def)
  next
    case 2 then show ?thesis using wbin_less le by simp
  next
    case 3 then show ?thesis using le by (auto simp: wbin_def)
  next
    case 4
    then obtain n r where "3 \<le> n" "wbin w' = 4 * n + r - 3" using wbin_medium by metis
    then have "9 \<le> wbin w'" by simp
    then show ?thesis using 4 by (auto simp: wbin_def)
  qed
qed

lemma wbin_table: "w \<le> 8192 \<Longrightarrow> wbin (page_queue_wsizes ! wbin w) = wbin w"
proof (cases "w \<le> 8")
  case True
  have "list_all (\<lambda>w. wbin (page_queue_wsizes ! wbin w) = wbin w) [0..<9]"
    by (simp add: page_queue_wsizes_def upt_rec wbin_def)
  then show ?thesis using True list_all_uptD by fastforce
next
  case False
  assume "w \<le> 8192"
  with False obtain n r where nr: "3 \<le> n" "n \<le> 12" "r < 4" "wbin w = 4 * n + r - 3"
    using wbin_medium [of w] by (metis not_le)
  then have "wbin ((5 + r) * 2 ^ (n - 2)) = 4 * n + r - 3" by (intro wbin_eqI) auto
  then show ?thesis using nr by (simp add: page_queue_wsizes_medium)
qed

subsection \<open>Size classes\<close>

lemma wsize_le_medium: "s \<le> PA_MEDIUM_OBJ_SIZE_MAX \<longleftrightarrow> wsize_nat s \<le> 8192"
  by (auto simp: wsize_nat_def bin_consts)

lemma pa_bin_range:
  assumes "unat sz \<le> PA_MEDIUM_OBJ_SIZE_MAX"
  shows "0 < pa_bin sz \<and> pa_bin sz < PA_BIN_HUGE \<and> unat sz \<le> pa_bin_size (pa_bin sz)"
proof -
  have w: "wsize_nat (unat sz) \<le> 8192" using assms wsize_le_medium by simp
  have b: "pa_bin sz = wbin (wsize_nat (unat sz))"
    using assms by (intro pa_bin_eq_wbin) (simp add: bin_consts)
  have "unat sz \<le> wsize_nat (unat sz) * 8" by (simp add: wsize_nat_def)
  also have "\<dots> \<le> pa_bin_size (pa_bin sz)" using wbin_fits [OF w] by (simp add: b pa_bin_size_def)
  finally show ?thesis using wbin_le [OF w] by (simp add: b bin_consts)
qed

lemma pa_bin_waste:
  assumes "64 < unat sz" and "unat sz \<le> PA_MEDIUM_OBJ_SIZE_MAX"
  shows "4 * pa_bin_size (pa_bin sz) < 5 * ((unat sz + 7) div 8 * 8)"
proof -
  have w: "8 < wsize_nat (unat sz)" "wsize_nat (unat sz) \<le> 8192"
    using assms wsize_le_medium by (auto simp: wsize_nat_def)
  have b: "pa_bin sz = wbin (wsize_nat (unat sz))"
    using assms by (intro pa_bin_eq_wbin) (simp add: bin_consts)
  have "4 * pa_bin_size (pa_bin sz) < 5 * (wsize_nat (unat sz) * 8)"
    using wbin_waste [OF w] by (simp add: b pa_bin_size_def)
  then show ?thesis by (simp add: wsize_nat_def)
qed

lemma pa_bin_huge: "PA_MEDIUM_OBJ_SIZE_MAX < unat sz \<Longrightarrow> unat sz + 8 < 2 ^ 64 \<Longrightarrow> pa_bin sz = PA_BIN_HUGE"
  using wsize_le_medium [of "unat sz"] by (simp add: pa_bin_eq_wbin wbin_def) (simp add: bin_consts)

lemma pa_bin_mono:
  assumes "sz \<le> sz'" and "unat sz' + 8 < 2 ^ 64"
  shows "pa_bin sz \<le> pa_bin sz'"
proof -
  have "unat sz \<le> unat sz'" using assms(1) by (simp add: word_le_nat_alt)
  then show ?thesis using assms(2)
    by (simp add: pa_bin_eq_wbin wsize_nat_def wbin_mono div_le_mono)
qed

text \<open>C28: size classes.  Every request of at most 64 KiB is served by a regular bin (neither
  bin 0 nor the huge bin) whose block size holds it, and above 64 bytes the block is less than a
  quarter larger than the request rounded up to words; every larger request goes to the huge bin; and
  no request goes to a smaller bin than a request that is not larger.  Only the last eight sizes below
  \<open>2 ^ 64\<close>, where rounding to words wraps around, are left out.\<close>
theorem pa_bin_fits:
  assumes "unat sz + 8 < 2 ^ 64"
  shows "(unat sz \<le> PA_MEDIUM_OBJ_SIZE_MAX \<longrightarrow>
      0 < pa_bin sz \<and> pa_bin sz < PA_BIN_HUGE \<and> unat sz \<le> pa_bin_size (pa_bin sz) \<and>
      (64 < unat sz \<longrightarrow> 4 * pa_bin_size (pa_bin sz) < 5 * ((unat sz + 7) div 8 * 8))) \<and>
    (PA_MEDIUM_OBJ_SIZE_MAX < unat sz \<longrightarrow> pa_bin sz = PA_BIN_HUGE) \<and>
    (\<forall>s \<le> sz. pa_bin s \<le> pa_bin sz)"
  using pa_bin_range pa_bin_waste pa_bin_huge [OF _ assms] pa_bin_mono [OF _ assms] by blast

theorem pa_bin_fits_witness:
  "1025 \<le> pa_bin_size (pa_bin 1025) \<and> 4 * pa_bin_size (pa_bin 1025) < 5 * 1032 \<and> pa_bin 1000 \<le> pa_bin 1025 \<and>
   pa_bin 100000 = PA_BIN_HUGE"
  using pa_bin_fits [of 1025] pa_bin_fits [of 100000] by (simp add: bin_consts)

text \<open>C29: the constant-time size-class lookup.  The byte table filled by
  \<open>_pa_size2bin_table_init\<close>, with its fallback for large sizes, agrees with the bit-scanning
  computation \<open>pa_bin\<close> on every \<open>size_t\<close>.\<close>
theorem pa_bin_fast_eq: "pa_bin_fast sz = pa_bin sz"
proof (cases "sz < 8192")
  case True
  then have u: "unat sz < 8192" by (simp add: word_less_nat_alt)
  then have "unat sz \<le> PA_MEDIUM_OBJ_SIZE_MAX" by (simp add: bin_consts)
  then have "pa_bin sz < 73" using pa_bin_range by (simp add: bin_consts)
  then show ?thesis using True u
    by (simp add: pa_bin_fast_def pa_size2bin_tab_def Let_def bin_consts unat_of_nat)
qed (simp add: pa_bin_fast_def)

lemma pa_good_size_medium:
  assumes "unat sz \<le> PA_MEDIUM_OBJ_SIZE_MAX"
  shows "sz \<le> pa_good_size os_page_size sz \<and>
    pa_bin (pa_good_size os_page_size sz) = pa_bin sz \<and>
    pa_good_size os_page_size (pa_good_size os_page_size sz) = pa_good_size os_page_size sz"
proof -
  have w: "wsize_nat (unat sz) \<le> 8192" using assms wsize_le_medium by simp
  have b: "pa_bin sz = wbin (wsize_nat (unat sz))"
    using assms by (intro pa_bin_eq_wbin) (simp add: bin_consts)
  let ?t = "page_queue_wsizes ! wbin (wsize_nat (unat sz))"
  have t: "?t \<le> 8192"
  proof (rule ccontr)
    assume "\<not> ?t \<le> 8192"
    then have "wbin ?t = 73" by (simp add: wbin_def)
    then show False using wbin_table [OF w] wbin_le [OF w] by simp
  qed
  let ?g = "pa_good_size os_page_size sz"
  have g: "?g = of_nat (pa_bin_size (pa_bin sz))" using assms by (simp add: pa_good_size_def)
  have u: "unat ?g = ?t * 8" using t by (simp only: g pa_bin_size_def b unat_of_nat) simp
  have 1: "sz \<le> ?g" using pa_bin_range [OF assms] by (simp add: word_le_nat_alt u b pa_bin_size_def)
  have "pa_bin ?g = wbin (wsize_nat (?t * 8))"
    using u t by (subst pa_bin_eq_wbin) auto
  also have "wsize_nat (?t * 8) = ?t" by (simp add: wsize_nat_def)
  finally have 2: "pa_bin ?g = pa_bin sz" using wbin_table [OF w] b by simp
  have "unat ?g \<le> PA_MEDIUM_OBJ_SIZE_MAX" using u t by (simp add: bin_consts)
  then have "pa_good_size os_page_size ?g = of_nat (pa_bin_size (pa_bin ?g))"
    by (simp add: pa_good_size_def)
  then show ?thesis using 1 2 g by simp
qed

lemma pa_good_size_large:
  assumes sz: "PA_MEDIUM_OBJ_SIZE_MAX < unat sz" and ps: "os_page_size \<noteq> 0" "unat sz + 2 * unat os_page_size + 8 < 2 ^ 64"
  shows "sz \<le> pa_good_size os_page_size sz \<and> unat (pa_good_size os_page_size sz) < unat sz + unat os_page_size \<and>
    unat os_page_size dvd unat (pa_good_size os_page_size sz) \<and>
    pa_bin (pa_good_size os_page_size sz) = pa_bin sz \<and>
    pa_good_size os_page_size (pa_good_size os_page_size sz) = pa_good_size os_page_size sz"
proof -
  let ?g = "pa_good_size os_page_size sz" and ?n = "unat os_page_size"
  have n: "0 < ?n" using ps(1) by (simp add: unat_gt_0)
  have g: "?g = pa_align_up sz os_page_size" using sz by (simp add: pa_good_size_def)
  have G: "unat sz \<le> unat ?g" "?n dvd unat ?g" unfolding g using pa_align_up_least [OF ps(1), of sz] ps(2) by auto
  have "unat ?g = (unat sz + (?n - 1)) div ?n * ?n" unfolding g by (rule unat_pa_align_up) (use ps in simp_all)
  also have "\<dots> \<le> unat sz + (?n - 1)" by simp
  finally have lt: "unat ?g < unat sz + ?n" using n by simp
  have "pa_bin ?g = pa_bin sz" using sz G(1) lt ps(2) by (simp add: pa_bin_huge)
  moreover have "pa_good_size os_page_size ?g = ?g"
  proof -
    have "unat (pa_align_up ?g os_page_size) = (unat ?g + (?n - 1)) div ?n * ?n"
      by (rule unat_pa_align_up) (use ps lt in simp_all)
    also have "\<dots> = unat ?g"
    proof -
      obtain k where k: "unat ?g = k * ?n" using G(2) by (metis dvdE mult.commute)
      have "(k * ?n + (?n - 1)) div ?n = k" using n by (intro div_nat_eqI) (simp_all add: algebra_simps)
      then show ?thesis by (simp add: k)
    qed
    finally have "pa_align_up ?g os_page_size = ?g" by (simp add: word_unat_eq_iff)
    then show ?thesis using sz G(1) by (simp add: pa_good_size_def [of os_page_size ?g])
  qed
  ultimately show ?thesis using G lt by (simp add: word_le_nat_alt)
qed

text \<open>C30: \<open>pa_good_size\<close> returns the capacity a request really gets: it holds the request,
  falls in the same size class, and is a fixed point (asking for the good size wastes
  nothing more).  Above 64 KiB it is the next multiple of the operating system's page size, as long as rounding up
  to pages and words stays below \<open>2 ^ 64\<close>.\<close>
theorem pa_good_size_bin:
  assumes "os_page_size \<noteq> 0" "unat sz + 2 * unat os_page_size + 8 < 2 ^ 64"
  shows "sz \<le> pa_good_size os_page_size sz \<and>
    pa_bin (pa_good_size os_page_size sz) = pa_bin sz \<and>
    pa_good_size os_page_size (pa_good_size os_page_size sz) = pa_good_size os_page_size sz \<and>
    (PA_MEDIUM_OBJ_SIZE_MAX < unat sz \<longrightarrow> unat os_page_size dvd unat (pa_good_size os_page_size sz) \<and>
       unat (pa_good_size os_page_size sz) < unat sz + unat os_page_size)"
  using pa_good_size_medium [of sz os_page_size] pa_good_size_large [OF _ assms] by (cases "unat sz \<le> PA_MEDIUM_OBJ_SIZE_MAX") auto

theorem pa_good_size_bin_witness:
  "1025 \<le> pa_good_size 4096 1025 \<and> pa_bin (pa_good_size 4096 1025) = pa_bin 1025 \<and>
   100000 \<le> pa_good_size 4096 100000 \<and> 4096 dvd unat (pa_good_size 4096 100000)"
  using pa_good_size_bin [of 4096 1025] pa_good_size_bin [of 4096 100000] by (simp add: bin_consts)

subsection \<open>Span bins\<close>

definition PA_SEGMENT_BIN_MAX :: nat where "PA_SEGMENT_BIN_MAX = 35"
definition PA_SLICES_PER_SEGMENT :: nat where "PA_SLICES_PER_SEGMENT = 512"

definition pa_slice_bin8 :: "nat \<Rightarrow> nat" where
  "pa_slice_bin8 slice_count =
     (if slice_count \<le> 1 then slice_count
      else let sc = slice_count - 1;
               s = pa_bsr (of_nat sc)
           in if s \<le> 2 then sc + 1
              else (push_bit 2 s OR (drop_bit (s - 2) sc AND 3)) - 4)"

definition pa_slice_bin :: "nat \<Rightarrow> nat" where
  "pa_slice_bin slice_count = pa_slice_bin8 slice_count"

definition span_queue_counts :: "nat list" where
  "span_queue_counts =
    [1,
     1, 2, 3, 4, 5, 6, 7, 10,
     12, 14, 16, 20, 24, 28, 32, 40,
     48, 56, 64, 80, 96, 112, 128, 160,
     192, 224, 256, 320, 384, 448, 512, 640,
     768, 896, 1024]"

lemma pa_bsr_nat: "0 < n \<Longrightarrow> n < 2 ^ 64 \<Longrightarrow> 2 ^ k \<le> n \<Longrightarrow> n < 2 ^ Suc k \<Longrightarrow> pa_bsr (of_nat n) = k"
  by (intro pa_bsr_eqI) (auto simp: unat_of_nat)

lemma slice_bin_large:
  assumes "8 < c" "c \<le> 512"
  obtains n r where "3 \<le> n" "n \<le> 8" "r < 4" "pa_slice_bin8 c = 4 * n + r - 4"
    "(4 + r) * 2 ^ (n - 2) < c" "c \<le> (5 + r) * 2 ^ (n - 2)"
proof -
  have "c \<le> 8192" using assms(2) by simp
  with assms(1) obtain n r where "3 \<le> n" "n \<le> 12" "r < 4" "wbin c = 4 * n + r - 3"
    "(4 + r) * 2 ^ (n - 2) < c" "c \<le> (5 + r) * 2 ^ (n - 2)" by (rule wbin_medium)
  note nr = this(1,2,3,5,6)
  have "n = (n - 2) + 2" using nr by simp
  then have "(2::nat) ^ n = 2 ^ ((n - 2) + 2)" by (rule arg_cong)
  then have e: "(2::nat) ^ n = 4 * 2 ^ (n - 2)" by (simp only: power_add) simp
  have hi: "(5 + r) * 2 ^ (n - 2) \<le> 8 * (2::nat) ^ (n - 2)" using nr by (intro mult_right_mono) auto
  have lo: "4 * 2 ^ (n - 2) \<le> (4 + r) * (2::nat) ^ (n - 2)" by (intro mult_right_mono) auto
  have l: "2 ^ n \<le> c - 1" using nr e lo by linarith
  have "(2::nat) ^ Suc n = 8 * 2 ^ (n - 2)" using e by simp
  then have u: "c - 1 < 2 ^ Suc n" using nr hi by linarith
  have n8: "n \<le> 8"
  proof -
    have "(2::nat) ^ n < 2 ^ 9" using l assms by simp
    then show ?thesis using power_less_imp_less_exp [of "2::nat" n 9] by simp
  qed
  have b: "pa_bsr (of_nat (c - 1)) = n" using assms l u by (intro pa_bsr_nat) auto
  have q: "(c - 1) div 2 ^ (n - 2) = 4 + r" using nr by (intro div_nat_eqI) (auto simp: mult.commute)
  have "drop_bit (n - 2) (c - 1) AND 3 = r"
  proof -
    have "drop_bit (n - 2) (c - 1) AND 3 = take_bit 2 (4 + r)"
      using q by (simp add: drop_bit_eq_div take_bit_eq_mask mask_eq_exp_minus_1)
    then show ?thesis using nr by (simp add: take_bit_eq_mod)
  qed
  moreover have "push_bit 2 n OR r = 4 * n + r"
  proof -
    have "push_bit 2 n AND r = 0"
    proof (rule bit_eqI)
      fix i
      have "\<not> bit r i" if "2 \<le> i"
      proof -
        have "r < 2 ^ i" using nr(3) power_increasing [OF that, of "2::nat"] by simp
        then show ?thesis by (simp add: bit_iff_odd)
      qed
      then show "bit (push_bit 2 n AND r) i \<longleftrightarrow> bit 0 i" by (auto simp: bit_simps)
    qed
    then have "push_bit 2 n + r = push_bit 2 n OR r" by (rule disjunctive_add_eq_or)
    then show ?thesis by (simp add: push_bit_eq_mult mult.commute)
  qed
  ultimately have "pa_slice_bin8 c = 4 * n + r - 4"
    using assms nr b by (simp add: pa_slice_bin8_def Let_def)
  then show ?thesis using that [of n r] nr n8 by simp
qed

lemma slice_bin_small: "c \<le> 8 \<Longrightarrow> pa_slice_bin8 c = c"
proof (cases "c \<le> 1")
  case False
  assume "c \<le> 8"
  then obtain n where n: "2 ^ n \<le> c - 1" "c - 1 < 2 ^ Suc n" using nat_log2_ex [of "c - 1"] False by auto
  have "(2::nat) ^ n < 2 ^ 3" using n(1) \<open>c \<le> 8\<close> False by simp
  then have "n \<le> 2" using power_less_imp_less_exp [of "2::nat" n 3] by simp
  moreover have "pa_bsr (of_nat (c - 1)) = n" using \<open>c \<le> 8\<close> False n by (intro pa_bsr_nat) auto
  ultimately show ?thesis using False by (simp add: pa_slice_bin8_def Let_def)
qed (simp add: pa_slice_bin8_def)

lemma span_queue_counts_large_table:
  "list_all (\<lambda>n. list_all (\<lambda>r. span_queue_counts ! (4 * n + r - 4) = (5 + r) * 2 ^ (n - 2)) [0..<4]) [3..<9]"
  by (simp add: span_queue_counts_def upt_rec)

lemma span_queue_counts_small_table: "list_all (\<lambda>c. c \<le> span_queue_counts ! c) [0..<9]"
  by (simp add: span_queue_counts_def upt_rec)

lemma pa_slice_bin_range:
  assumes "c \<le> PA_SLICES_PER_SEGMENT"
  shows "pa_slice_bin c \<le> 31 \<and> c \<le> span_queue_counts ! pa_slice_bin c"
proof (cases "c \<le> 8")
  case True
  then show ?thesis using list_all_uptD [OF span_queue_counts_small_table, of c]
    by (simp add: pa_slice_bin_def slice_bin_small)
next
  case False
  then have "8 < c" "c \<le> 512" using assms by (auto simp: PA_SLICES_PER_SEGMENT_def)
  then obtain n r where nr: "3 \<le> n" "n \<le> 8" "r < 4" "pa_slice_bin8 c = 4 * n + r - 4"
    "(4 + r) * 2 ^ (n - 2) < c" "c \<le> (5 + r) * 2 ^ (n - 2)"
    by (rule slice_bin_large)
  then show ?thesis
    using list_all_uptD [OF list_all_uptD [OF span_queue_counts_large_table], of n r]
    by (simp add: pa_slice_bin_def)
qed

lemma slice_bin_wbin:
  assumes "x \<le> 512"
  shows "pa_slice_bin8 x = (if x \<le> 8 then x else wbin x - 1)"
proof (cases "x \<le> 8")
  case False
  then have "8 < x" "x \<le> 512" using assms by auto
  then obtain n r where "3 \<le> n" "n \<le> 8" "r < 4" "pa_slice_bin8 x = 4 * n + r - 4"
     "(4 + r) * 2 ^ (n - 2) < x" "x \<le> (5 + r) * 2 ^ (n - 2)"
    by (rule slice_bin_large)
  then show ?thesis using False wbin_eqI [of n r x] by simp
qed (simp add: slice_bin_small)

lemma pa_slice_bin_mono:
  assumes "c \<le> c'" and "c' \<le> PA_SLICES_PER_SEGMENT"
  shows "pa_slice_bin c \<le> pa_slice_bin c'"
proof -
  have c': "c' \<le> 512" using assms(2) by (simp add: PA_SLICES_PER_SEGMENT_def)
  note off = slice_bin_wbin
  have nine: "9 \<le> wbin x" if "8 < x" "x \<le> 512" for x
  proof -
    have "x \<le> 8192" using that by simp
    with that(1) obtain n r where "3 \<le> n" "wbin x = 4 * n + r - 3" by (rule wbin_medium)
    then show ?thesis by simp
  qed
  show ?thesis
    using assms(1) c' wbin_mono [OF assms(1)] nine [of c'] off [of c] off [of c']
    by (auto simp: pa_slice_bin_def)
qed

text \<open>C31: span queues.  A span of \<open>c\<close> slices goes to a queue whose nominal slice count is at least
  \<open>c\<close>; smaller spans never go to a later queue, so a search that starts at the
  queue of the request and moves up cannot pass a span that is large enough.\<close>
theorem pa_slice_bin_fits:
  assumes "c \<le> PA_SLICES_PER_SEGMENT"
  shows "pa_slice_bin c < PA_SEGMENT_BIN_MAX \<and> c \<le> span_queue_counts ! pa_slice_bin c \<and>
    (\<forall>c' \<le> c. pa_slice_bin c' \<le> pa_slice_bin c)"
  using pa_slice_bin_range [OF assms] pa_slice_bin_mono [OF _ assms] by (simp add: PA_SEGMENT_BIN_MAX_def)

theorem pa_slice_bin_fits_witness: "8 \<le> span_queue_counts ! pa_slice_bin 8 \<and> pa_slice_bin 3 \<le> pa_slice_bin 8"
  using pa_slice_bin_fits [of 8] by (simp add: PA_SLICES_PER_SEGMENT_def)

text \<open>The largest span of a normal segment lies in queue 31; the four queues after it stay
  empty (\<open>types.h\<close> says 35 for this bin).\<close>

lemma pa_slice_bin_segment: "pa_slice_bin PA_SLICES_PER_SEGMENT = 31"
  using wbin_eqI [of 8 3 512] slice_bin_wbin [of 512]
  by (simp add: pa_slice_bin_def PA_SLICES_PER_SEGMENT_def)

text \<open>A request of 1025 bytes gets a block of 1280 bytes: 24.9\% of slack.\<close>

lemma pa_bin_1025: "pa_bin_size (pa_bin 1025) = 1280"
proof -
  have "pa_bin 1025 = wbin 129"
    by (subst pa_bin_eq_wbin) (auto simp: wsize_nat_def)
  also have "wbin 129 = 25" using wbin_eqI [of 7 0 129] by simp
  finally show ?thesis by (simp add: pa_bin_size_def page_queue_wsizes_def)
qed

end
