(* ===== verification/Palloc_BitArray.thy ===== *)
theory Palloc_BitArray
  imports Palloc_Base Palloc_Bits
begin

text \<open>
  Arrays of 64-bit words read as one set of bit positions.  Commit masks
  (\<open>src/segment.c\<close>) and arena bitmaps (\<open>src/bitmap.c\<close>) are both such arrays; the lemmas
  here say what a masked update of one word does to the set.
\<close>

definition bits_of :: "size_t list \<Rightarrow> nat set" where
  "bits_of ws = {i. i < 64 * length ws \<and> bit (ws ! (i div 64)) (i mod 64)}"

lemma bits_of_bound: "i \<in> bits_of ws \<Longrightarrow> i < 64 * length ws"
  by (simp add: bits_of_def)

lemma finite_bits_of [simp]: "finite (bits_of ws)"
  by (rule finite_subset [of _ "{..<64 * length ws}"]) (auto simp: bits_of_def)

lemma bits_of_nth: "i < length ws \<Longrightarrow> j < 64 \<Longrightarrow> 64 * i + j \<in> bits_of ws \<longleftrightarrow> bit (ws ! i) j"
proof -
  assume a: "i < length ws" "j < 64"
  have d: "(64 * i + j) div 64 = i" "(64 * i + j) mod 64 = j" using a(2) by auto
  have "64 * i + j < 64 * length ws" using a by linarith
  then show ?thesis unfolding bits_of_def by (simp only: mem_Collect_eq d) simp
qed

lemma bits_of_decomp: "i \<in> bits_of ws \<longleftrightarrow> i div 64 < length ws \<and> bit (ws ! (i div 64)) (i mod 64)"
  by (auto simp: bits_of_def less_mult_imp_div_less mult.commute)

lemma bits_of_eqI:
  assumes "\<And>i j. i < n \<Longrightarrow> j < 64 \<Longrightarrow> bit (ws ! i) j \<longleftrightarrow> 64 * i + j \<in> S"
    and "length ws = n" and "\<And>k. k \<in> S \<Longrightarrow> k < 64 * n"
  shows "bits_of ws = S"
proof (rule set_eqI)
  fix k :: nat
  have k: "64 * (k div 64) + k mod 64 = k" by simp
  show "k \<in> bits_of ws \<longleftrightarrow> k \<in> S"
    using assms(1) [of "k div 64" "k mod 64"] assms(2,3) k
    by (auto simp: bits_of_decomp div_less_iff_less_mult mult.commute)
qed

text \<open>A run of \<open>count\<close> ones at \<open>ofs\<close> within one word.\<close>

definition run_mask :: "nat \<Rightarrow> nat \<Rightarrow> size_t" where
  "run_mask count ofs = push_bit ofs (push_bit count 1 - 1)"

lemma run_mask_mask: "run_mask count ofs = push_bit ofs (mask count)"
  by (simp add: run_mask_def mask_eq_exp_minus_1 push_bit_eq_mult)

lemma bit_run_mask: "bit (run_mask count ofs) i \<longleftrightarrow> i < 64 \<and> ofs \<le> i \<and> i < ofs + count"
  by (auto simp: run_mask_mask bit_simps)

lemma bits_of_update:
  assumes "i < length ws"
  shows "bits_of (ws[i := w]) = (bits_of ws - {64 * i..<64 * i + 64}) \<union> ((+) (64 * i)) ` {j. j < 64 \<and> bit w j}"
proof (rule bits_of_eqI [where n = "length ws"])
  fix i' j assume ij: "i' < length ws" "j < (64::nat)"
  show "bit (ws[i := w] ! i') j \<longleftrightarrow>
    64 * i' + j \<in> (bits_of ws - {64 * i..<64 * i + 64}) \<union> ((+) (64 * i)) ` {j. j < 64 \<and> bit w j}"
  proof (cases "i' = i")
    case True
    then show ?thesis using ij assms by (auto simp: image_iff)
  next
    case False
    then have "64 * i' + j \<notin> {64 * i..<64 * i + 64}" using ij by auto
    moreover have "64 * i' + j \<notin> ((+) (64 * i)) ` {j. j < 64 \<and> bit w j}"
      using False ij by auto
    ultimately show ?thesis using False ij by (simp add: bits_of_nth)
  qed
next
  show "\<And>k. k \<in> (bits_of ws - {64 * i..<64 * i + 64}) \<union> ((+) (64 * i)) ` {j. j < 64 \<and> bit w j} \<Longrightarrow> k < 64 * length ws"
    using assms by (auto dest: bits_of_bound)
qed simp

lemma word_run_iff:
  fixes i i' j o' c :: nat
  assumes "j < 64"
  shows "64 * i + o' \<le> 64 * i' + j \<and> 64 * i' + j < 64 * i + min 64 (o' + c)
    \<longleftrightarrow> i' = i \<and> o' \<le> j \<and> j < o' + c"
proof (cases "i' = i")
  case False
  then have "i' < i \<or> i < i'" by linarith
  then have "64 * i' + j < 64 * i \<or> 64 * i + 64 \<le> 64 * i' + j" using assms by linarith
  then show ?thesis using False by linarith
qed (use assms in auto)

lemma bits_of_or:
  assumes "i < length ws"
  shows "bits_of (ws[i := ws ! i OR run_mask c o']) = bits_of ws \<union> {k. 64 * i + o' \<le> k \<and> k < 64 * i + min 64 (o' + c)}"
    (is "_ = _ \<union> ?R")
proof (rule bits_of_eqI [where n = "length ws"])
  fix i' j assume ij: "i' < length ws" "j < (64::nat)"
  have "64 * i' + j \<in> ?R \<longleftrightarrow> i' = i \<and> o' \<le> j \<and> j < o' + c" using word_run_iff [OF ij(2)] by simp
  then show "bit (ws[i := ws ! i OR run_mask c o'] ! i') j \<longleftrightarrow> 64 * i' + j \<in> bits_of ws \<union> ?R"
    using ij assms by (cases "i' = i") (auto simp: bits_of_nth bit_simps bit_run_mask)
next
  show "\<And>k. k \<in> bits_of ws \<union> ?R \<Longrightarrow> k < 64 * length ws" using assms by (auto dest: bits_of_bound)
qed simp

lemma bits_of_and_not:
  assumes "i < length ws"
  shows "bits_of (ws[i := ws ! i AND NOT (run_mask c o')]) = bits_of ws - {k. 64 * i + o' \<le> k \<and> k < 64 * i + min 64 (o' + c)}"
    (is "_ = _ - ?R")
proof (rule bits_of_eqI [where n = "length ws"])
  fix i' j assume ij: "i' < length ws" "j < (64::nat)"
  have "64 * i' + j \<in> ?R \<longleftrightarrow> i' = i \<and> o' \<le> j \<and> j < o' + c" using word_run_iff [OF ij(2)] by simp
  then show "bit (ws[i := ws ! i AND NOT (run_mask c o')] ! i') j \<longleftrightarrow> 64 * i' + j \<in> bits_of ws - ?R"
    using ij assms by (cases "i' = i") (auto simp: bits_of_nth bit_simps bit_run_mask)
next
  show "\<And>k. k \<in> bits_of ws - ?R \<Longrightarrow> k < 64 * length ws" by (auto dest: bits_of_bound)
qed simp

lemma and_mask_eq_mask_iff:
  "w AND m = m \<longleftrightarrow> (\<forall>j < 64. bit m j \<longrightarrow> bit w j)" for w m :: size_t
  by (auto simp: bit_eq_iff bit_simps dest: bit_imp_le_length)

lemma and_mask_eq_0_iff:
  "w AND m = 0 \<longleftrightarrow> (\<forall>j < 64. bit m j \<longrightarrow> \<not> bit w j)" for w m :: size_t
  by (auto simp: bit_eq_iff bit_simps dest: bit_imp_le_length)

lemma bits_of_map_upt:
  assumes "\<And>i j. i < n \<Longrightarrow> j < 64 \<Longrightarrow> bit (f i) j \<longleftrightarrow> 64 * i + j \<in> S" "\<And>k. k \<in> S \<Longrightarrow> k < 64 * n"
  shows "bits_of (map f [0..<n]) = S"
  using assms by (intro bits_of_eqI [where n = n]) auto

lemma list_all_upt_iff [simp]: "list_all P [0..<n] \<longleftrightarrow> (\<forall>i < n. P i)"
  by (auto simp: list_all_iff)

lemma list_ex_upt_iff [simp]: "list_ex P [0..<n] \<longleftrightarrow> (\<exists>i < n. P i)"
  by (auto simp: list_ex_iff)

lemma bits_of_subset_iff:
  assumes "length a = n" "length b = n"
  shows "bits_of b \<subseteq> bits_of a \<longleftrightarrow> (\<forall>i < n. a ! i AND b ! i = b ! i)"
  using assms
  by (auto simp: and_mask_eq_mask_iff bits_of_decomp subset_iff)
     (metis bits_of_decomp bits_of_nth)

lemma bits_of_disjoint_iff:
  assumes "length a = n" "length b = n"
  shows "bits_of a \<inter> bits_of b = {} \<longleftrightarrow> (\<forall>i < n. a ! i AND b ! i = 0)"
  using assms
  by (auto simp: and_mask_eq_0_iff bits_of_decomp disjoint_iff)
     (metis bits_of_decomp bits_of_nth)

lemma bits_of_empty_iff: "length a = n \<Longrightarrow> bits_of a = {} \<longleftrightarrow> (\<forall>i < n. a ! i = 0)"
  using bits_of_disjoint_iff [of a n a] by simp

lemma bits_of_full_iff: "length a = n \<Longrightarrow> bits_of a = {..<64 * n} \<longleftrightarrow> (\<forall>i < n. a ! i = NOT 0)"
proof
  assume n: "length a = n" and full: "bits_of a = {..<64 * n}"
  show "\<forall>i < n. a ! i = NOT 0"
  proof (intro allI impI bit_word_eqI)
    fix i j assume "i < n" "j < LENGTH(64)"
    then have "64 * i + j < 64 * n" by simp
    then show "bit (a ! i) j = bit (NOT (0::size_t)) j"
      using bits_of_nth [of i a j] \<open>i < n\<close> \<open>j < _\<close> n full by (simp add: bit_simps)
  qed
next
  assume "length a = n" "\<forall>i < n. a ! i = NOT 0"
  then show "bits_of a = {..<64 * n}" by (intro bits_of_eqI [where n = n]) (auto simp: bit_simps)
qed

end
