(* ===== verification/Palloc_CommitMask.thy ===== *)
theory Palloc_CommitMask
  imports Palloc_BitArray
begin

text \<open>
  Commit masks (\<open>src/segment.c\<close>, first section, and \<open>include/palloc/internal.h\<close>): a segment of
  512 slices records in eight 64-bit words which slices are backed by committed memory.
  The loops over the eight fields are folds over \<open>[0..<8]\<close>; the loops that shift a mask are
  recursive functions with their termination proofs.  The locale \<open>slice_set\<close> is the contract
  the segment code relies on, interpreted here on the words.
\<close>

section \<open>The operations\<close>

definition PA_COMMIT_MASK_FIELD_COUNT :: nat where "PA_COMMIT_MASK_FIELD_COUNT = 8"

abbreviation "FIELDS \<equiv> PA_COMMIT_MASK_FIELD_COUNT"

type_synonym commit_mask = "size_t list"

definition pa_commit_mask_create_empty :: commit_mask where
  "pa_commit_mask_create_empty = map (\<lambda>_. 0) [0..<FIELDS]"

definition pa_commit_mask_create_full :: commit_mask where
  "pa_commit_mask_create_full = map (\<lambda>_. NOT 0) [0..<FIELDS]"

definition pa_commit_mask_is_empty :: "commit_mask \<Rightarrow> bool" where
  "pa_commit_mask_is_empty cm = list_all (\<lambda>i. cm ! i = 0) [0..<FIELDS]"

definition pa_commit_mask_is_full :: "commit_mask \<Rightarrow> bool" where
  "pa_commit_mask_is_full cm = list_all (\<lambda>i. cm ! i = NOT 0) [0..<FIELDS]"

definition pa_commit_mask_all_set :: "commit_mask \<Rightarrow> commit_mask \<Rightarrow> bool" where
  "pa_commit_mask_all_set commit cm = list_all (\<lambda>i. commit ! i AND cm ! i = cm ! i) [0..<FIELDS]"

definition pa_commit_mask_any_set :: "commit_mask \<Rightarrow> commit_mask \<Rightarrow> bool" where
  "pa_commit_mask_any_set commit cm = list_ex (\<lambda>i. commit ! i AND cm ! i \<noteq> 0) [0..<FIELDS]"

definition pa_commit_mask_create_intersect :: "commit_mask \<Rightarrow> commit_mask \<Rightarrow> commit_mask" where
  "pa_commit_mask_create_intersect commit cm = map (\<lambda>i. commit ! i AND cm ! i) [0..<FIELDS]"

definition pa_commit_mask_clear :: "commit_mask \<Rightarrow> commit_mask \<Rightarrow> commit_mask" where
  "pa_commit_mask_clear res cm = map (\<lambda>i. res ! i AND NOT (cm ! i)) [0..<FIELDS]"

definition pa_commit_mask_set :: "commit_mask \<Rightarrow> commit_mask \<Rightarrow> commit_mask" where
  "pa_commit_mask_set res cm = map (\<lambda>i. res ! i OR cm ! i) [0..<FIELDS]"

text \<open>The loop of \<open>pa_commit_mask_create\<close>: one word per round.\<close>

function commit_mask_create_loop :: "nat \<Rightarrow> nat \<Rightarrow> nat \<Rightarrow> commit_mask \<Rightarrow> commit_mask" where
  "commit_mask_create_loop i ofs bitcount cm =
     (if 0 < bitcount then
        let avail = 64 - ofs;
            count = (if avail < bitcount then avail else bitcount);
            msk = (if 64 \<le> count then NOT 0 else push_bit ofs (push_bit count 1 - 1))
        in commit_mask_create_loop (i + 1) 0 (bitcount - count) (cm[i := msk])
      else cm)"
  by pat_completeness auto
termination
  by (relation "measure (\<lambda>(i, ofs, bitcount, cm). 2 * bitcount + of_bool (64 \<le> ofs))") auto

definition pa_commit_mask_create :: "nat \<Rightarrow> nat \<Rightarrow> commit_mask" where
  "pa_commit_mask_create bitidx bitcount =
     (if bitcount = 512 then pa_commit_mask_create_full
      else if bitcount = 0 then pa_commit_mask_create_empty
      else commit_mask_create_loop (bitidx div 64) (bitidx mod 64) bitcount pa_commit_mask_create_empty)"

text \<open>The bit-counting loop \<open>for (; mask != 0; mask >>= 1)\<close>.\<close>

function count_bits_loop :: "size_t \<Rightarrow> nat \<Rightarrow> nat" where
  "count_bits_loop msk count =
     (if msk \<noteq> 0 then count_bits_loop (drop_bit 1 msk) (if msk AND 1 \<noteq> 0 then count + 1 else count)
      else count)"
  by pat_completeness auto
termination
  by (relation "measure (\<lambda>(msk, count). unat msk)") (auto simp: unat_drop_bit unat_gt_0)

definition pa_commit_mask_committed_size :: "commit_mask \<Rightarrow> size_t \<Rightarrow> size_t" where
  "pa_commit_mask_committed_size cm total_size =
     (let count = fold (\<lambda>i count. if NOT (cm ! i) = 0 then count + 64 else count_bits_loop (cm ! i) count)
                       [0..<FIELDS] 0
      in (total_size div 512) * of_nat count)"

text \<open>\<open>_pa_commit_mask_next_run\<close>: skip zeros to the first one at or after \<open>idx\<close>, then count ones,
  crossing word boundaries.  \<open>skip_zeros\<close> is entered with a non-zero mask only.\<close>

function skip_zeros :: "size_t \<Rightarrow> nat \<Rightarrow> size_t \<times> nat" where
  "skip_zeros msk ofs =
     (if msk \<noteq> 0 \<and> msk AND 1 = 0 then skip_zeros (drop_bit 1 msk) (ofs + 1) else (msk, ofs))"
  by pat_completeness auto
termination
  by (relation "measure (\<lambda>(msk, ofs). unat msk)") (auto simp: unat_drop_bit unat_gt_0)

function find_first_ones :: "commit_mask \<Rightarrow> nat \<Rightarrow> nat \<Rightarrow> (nat \<times> size_t \<times> nat) option" where
  "find_first_ones cm i ofs =
     (if i < FIELDS then
        let msk = drop_bit ofs (cm ! i)
        in if msk \<noteq> 0 then Some (i, skip_zeros msk ofs) else find_first_ones cm (i + 1) 0
      else None)"
  by pat_completeness auto
termination by (relation "measure (\<lambda>(cm, i, ofs). FIELDS - i)") auto

function count_ones :: "nat \<Rightarrow> size_t \<Rightarrow> nat \<times> size_t" where
  "count_ones count msk =
     (let msk' = drop_bit 1 msk
      in if msk' AND 1 = 1 then count_ones (count + 1) msk' else (count + 1, msk'))"
  by pat_completeness auto
termination
proof (relation "measure (\<lambda>(count, msk). unat msk)")
  fix count msk and msk' :: size_t
  assume "msk' = drop_bit 1 msk" "msk' AND 1 = 1"
  then have "0 < unat msk div 2" by (metis unat_drop_bit power_one_right and_zero_eq unat_gt_0 zero_neq_one and.commute)
  then show "((count + 1, msk'), count, msk) \<in> measure (\<lambda>(count, msk). unat msk)"
    by (simp add: \<open>msk' = _\<close> unat_drop_bit)
qed simp

declare count_ones.simps [simp del]

lemma count_ones_even: "snd (count_ones count msk) AND 1 \<noteq> 1"
  by (induction count msk rule: count_ones.induct) (subst count_ones.simps, auto simp: Let_def)

function count_run :: "commit_mask \<Rightarrow> nat \<Rightarrow> nat \<Rightarrow> nat \<Rightarrow> size_t \<Rightarrow> nat" where
  "count_run cm idx i count msk =
     (let r = count_ones count msk
      in if (idx + fst r) mod 64 = 0
         then (if FIELDS \<le> i + 1 then fst r
               else if cm ! (i + 1) AND 1 = 1 then count_run cm idx (i + 1) (fst r) (cm ! (i + 1))
               else fst r)
         else if snd r AND 1 = 1 then count_run cm idx i (fst r) (snd r)
         else fst r)"
  by pat_completeness auto
termination
  by (relation "measure (\<lambda>(cm, idx, i, count, msk). FIELDS - i)") (auto simp: count_ones_even)

declare commit_mask_create_loop.simps [simp del] count_bits_loop.simps [simp del] skip_zeros.simps [simp del]
  find_first_ones.simps [simp del] count_run.simps [simp del]

definition pa_commit_mask_next_run :: "commit_mask \<Rightarrow> nat \<Rightarrow> nat \<times> nat" where
  "pa_commit_mask_next_run cm idx =
     (case find_first_ones cm (idx div 64) (idx mod 64) of
        None \<Rightarrow> (0, 512)
      | Some (i, msk, ofs) \<Rightarrow> (count_run cm (64 * i + ofs) i 0 msk, 64 * i + ofs))"

section \<open>Masks as sets of slices\<close>

lemma FIELDS_8 [simp]: "FIELDS = 8"
  by (simp add: PA_COMMIT_MASK_FIELD_COUNT_def)

definition cm_inv :: "commit_mask \<Rightarrow> bool" where
  "cm_inv cm \<longleftrightarrow> length cm = FIELDS"

lemma commit_mask_create_loop_bits:
  assumes "length cm = n" "ofs < 64" "64 * i + ofs + bitcount \<le> 64 * n"
    "\<And>k. k \<in> bits_of cm \<Longrightarrow> k < 64 * i"
  shows "length (commit_mask_create_loop i ofs bitcount cm) = n \<and>
    bits_of (commit_mask_create_loop i ofs bitcount cm) = bits_of cm \<union> {64 * i + ofs..<64 * i + ofs + bitcount}"
  using assms
proof (induction i ofs bitcount cm rule: commit_mask_create_loop.induct)
  case (1 i ofs bitcount cm)
  define count where "count = (if 64 - ofs < bitcount then 64 - ofs else bitcount)"
  define msk :: size_t where "msk = (if 64 \<le> count then NOT 0 else push_bit ofs (push_bit count 1 - 1))"
  show ?case
  proof (cases "0 < bitcount")
    case True
    then have i: "i < n" and c: "0 < count" "count \<le> bitcount" "ofs + count \<le> 64"
      using "1.prems" by (auto simp: count_def split: if_splits)
    have msk: "msk = run_mask count ofs"
      using c by (auto simp: msk_def run_mask_def mask_eq_exp_minus_1 [symmetric] run_mask_mask
          intro!: bit_word_eqI simp: bit_simps)
    have bits: "bits_of (cm[i := msk]) = bits_of cm \<union> {64 * i + ofs..<64 * i + ofs + count}"
    proof -
      have "cm ! i = 0"
      proof (rule bit_word_eqI)
        fix j assume "j < LENGTH(64)"
        then show "bit (cm ! i) j = bit (0::size_t) j"
          using "1.prems"(1,4) bits_of_nth [of i cm j] i by fastforce
      qed
      then have "bits_of (cm[i := msk]) = bits_of (cm[i := cm ! i OR run_mask count ofs])" by (simp add: msk)
      then show ?thesis using bits_of_or [of i cm count ofs] i "1.prems"(1) c by (auto simp: min_def)
    qed
    have step: "commit_mask_create_loop i ofs bitcount cm =
        commit_mask_create_loop (i + 1) 0 (bitcount - count) (cm[i := msk])"
      using True by (subst commit_mask_create_loop.simps) (simp add: Let_def count_def msk_def)
    have next_full: "bitcount - count = 0 \<or> ofs + count = 64" using "1.prems"(2) by (auto simp: count_def)
    have b: "64 * (i + 1) + 0 + (bitcount - count) \<le> 64 * n"
    proof -
      have "64 * i + 64 \<le> 64 * n" using i by linarith
      then show ?thesis using next_full "1.prems"(3) c by (elim disjE) auto
    qed
    have IH: "length (commit_mask_create_loop (i + 1) 0 (bitcount - count) (cm[i := msk])) = n \<and>
      bits_of (commit_mask_create_loop (i + 1) 0 (bitcount - count) (cm[i := msk])) =
        bits_of (cm[i := msk]) \<union> {64 * (i + 1) + 0..<64 * (i + 1) + 0 + (bitcount - count)}"
    proof (rule "1.IH" [OF True refl])
      show "\<And>k. k \<in> bits_of (cm[i := msk]) \<Longrightarrow> k < 64 * (i + 1)"
        using "1.prems"(4) c by (fastforce simp: bits)
    qed (use b "1.prems"(1) in \<open>auto simp: count_def msk_def\<close>)
    have "{64 * i + ofs..<64 * i + ofs + count} \<union> {64 * (i + 1)..<64 * (i + 1) + (bitcount - count)}
        = {64 * i + ofs..<64 * i + ofs + bitcount}"
      using next_full c by auto
    then show ?thesis using IH by (simp add: step bits Un_assoc)
  next
    case False
    then show ?thesis using "1.prems" by (subst (1 2) commit_mask_create_loop.simps) simp
  qed
qed

lemma cm_create_empty [simp]: "cm_inv pa_commit_mask_create_empty" "bits_of pa_commit_mask_create_empty = {}"
  by (auto simp: cm_inv_def pa_commit_mask_create_empty_def bits_of_empty_iff)

lemma cm_create_full [simp]: "cm_inv pa_commit_mask_create_full" "bits_of pa_commit_mask_create_full = {..<512}"
  using bits_of_full_iff [of pa_commit_mask_create_full 8]
  by (auto simp: cm_inv_def pa_commit_mask_create_full_def)

lemma cm_create:
  assumes "bitidx + bitcount \<le> 512"
  shows "cm_inv (pa_commit_mask_create bitidx bitcount)"
    and "bits_of (pa_commit_mask_create bitidx bitcount) = {bitidx..<bitidx + bitcount}"
proof -
  have "64 * (bitidx div 64) + bitidx mod 64 = bitidx" by simp
  then have "length (commit_mask_create_loop (bitidx div 64) (bitidx mod 64) bitcount pa_commit_mask_create_empty) = 8 \<and>
    bits_of (commit_mask_create_loop (bitidx div 64) (bitidx mod 64) bitcount pa_commit_mask_create_empty)
      = {} \<union> {bitidx..<bitidx + bitcount}"
    using commit_mask_create_loop_bits [of pa_commit_mask_create_empty 8 "bitidx mod 64" "bitidx div 64" bitcount] assms
    by (simp add: cm_create_empty(1) [unfolded cm_inv_def, simplified])
  then have loop: "cm_inv (commit_mask_create_loop (bitidx div 64) (bitidx mod 64) bitcount pa_commit_mask_create_empty)"
    "bits_of (commit_mask_create_loop (bitidx div 64) (bitidx mod 64) bitcount pa_commit_mask_create_empty)
      = {bitidx..<bitidx + bitcount}"
    by (simp_all add: cm_inv_def)
  show "cm_inv (pa_commit_mask_create bitidx bitcount)"
    unfolding pa_commit_mask_create_def using loop(1) by simp
  show "bits_of (pa_commit_mask_create bitidx bitcount) = {bitidx..<bitidx + bitcount}"
    unfolding pa_commit_mask_create_def using loop(2) assms by (cases "bitidx = 0") (auto simp: lessThan_atLeast0)
qed

lemma cm_intersect:
  assumes "cm_inv a" "cm_inv b"
  shows "cm_inv (pa_commit_mask_create_intersect a b)"
    and "bits_of (pa_commit_mask_create_intersect a b) = bits_of a \<inter> bits_of b"
  using assms bits_of_bound [of _ a]
  by (auto simp: cm_inv_def pa_commit_mask_create_intersect_def bits_of_nth bit_simps intro!: bits_of_map_upt)

lemma cm_clear:
  assumes "cm_inv a" "cm_inv b"
  shows "cm_inv (pa_commit_mask_clear a b)" and "bits_of (pa_commit_mask_clear a b) = bits_of a - bits_of b"
  using assms bits_of_bound [of _ a]
  by (auto simp: cm_inv_def pa_commit_mask_clear_def bits_of_nth bit_simps intro!: bits_of_map_upt)

lemma cm_set:
  assumes "cm_inv a" "cm_inv b"
  shows "cm_inv (pa_commit_mask_set a b)" and "bits_of (pa_commit_mask_set a b) = bits_of a \<union> bits_of b"
  using assms bits_of_bound [of _ a] bits_of_bound [of _ b]
  by (auto simp: cm_inv_def pa_commit_mask_set_def bits_of_nth bit_simps intro!: bits_of_map_upt)

lemma cm_all_set: "cm_inv a \<Longrightarrow> cm_inv b \<Longrightarrow> pa_commit_mask_all_set a b \<longleftrightarrow> bits_of b \<subseteq> bits_of a"
  using bits_of_subset_iff [of a 8 b] by (simp add: cm_inv_def pa_commit_mask_all_set_def)

lemma cm_any_set: "cm_inv a \<Longrightarrow> cm_inv b \<Longrightarrow> pa_commit_mask_any_set a b \<longleftrightarrow> bits_of a \<inter> bits_of b \<noteq> {}"
  using bits_of_disjoint_iff [of a 8 b] by (simp add: cm_inv_def pa_commit_mask_any_set_def)

lemma cm_is_empty: "cm_inv a \<Longrightarrow> pa_commit_mask_is_empty a \<longleftrightarrow> bits_of a = {}"
  using bits_of_empty_iff [of a 8] by (simp add: cm_inv_def pa_commit_mask_is_empty_def)

lemma cm_is_full: "cm_inv a \<Longrightarrow> pa_commit_mask_is_full a \<longleftrightarrow> bits_of a = {..<512}"
  using bits_of_full_iff [of a 8] by (simp add: cm_inv_def pa_commit_mask_is_full_def)

section \<open>Runs of committed slices\<close>

lemma and_1_bit: "msk AND 1 = 1 \<longleftrightarrow> bit msk 0" "msk AND 1 = 0 \<longleftrightarrow> \<not> bit msk 0" "msk AND 1 \<noteq> 0 \<longleftrightarrow> bit msk 0"
  for msk :: size_t
  by (simp_all add: and_one_eq bit_0 mod_2_eq_odd)

lemma skip_zeros_spec:
  "msk \<noteq> 0 \<Longrightarrow> \<exists>k. skip_zeros msk ofs = (drop_bit k msk, ofs + k) \<and> bit msk k \<and> (\<forall>j < k. \<not> bit msk j)"
proof (induction msk ofs rule: skip_zeros.induct)
  case (1 msk ofs)
  show ?case
  proof (cases "bit msk 0")
    case True
    then show ?thesis by (intro exI [of _ 0]) (subst skip_zeros.simps, simp add: and_1_bit)
  next
    case False
    have "drop_bit 1 msk \<noteq> 0"
    proof
      assume "drop_bit 1 msk = 0"
      then have "\<not> bit msk j" for j
        using False bit_drop_bit_eq [of 1 msk] by (cases j) (auto simp: fun_eq_iff)
      then show False using "1.prems" by (simp add: bit_eq_iff)
    qed
    then obtain k where k: "skip_zeros (drop_bit 1 msk) (ofs + 1) = (drop_bit k (drop_bit 1 msk), ofs + 1 + k)"
      "bit (drop_bit 1 msk) k" "\<forall>j < k. \<not> bit (drop_bit 1 msk) j"
      using "1.IH" False "1.prems" by (auto simp: and_1_bit)
    have "\<not> bit msk j" if "j < Suc k" for j
      using k(3) that False by (cases j) (auto simp: bit_drop_bit_eq)
    then show ?thesis using k False "1.prems"
      by (intro exI [of _ "Suc k"]) (subst skip_zeros.simps, simp add: and_1_bit bit_drop_bit_eq drop_bit_drop_bit)
  qed
qed

lemma find_first_ones_None:
  assumes "cm_inv cm" "ofs < 64" "find_first_ones cm i ofs = None" "k \<in> bits_of cm"
  shows "k < 64 * i + ofs"
  using assms
proof (induction cm i ofs rule: find_first_ones.induct)
  case (1 cm i ofs)
  show ?case
  proof (cases "i < 8")
    case True
    then have z: "drop_bit ofs (cm ! i) = 0" and n: "find_first_ones cm (i + 1) 0 = None"
      using "1.prems"(3) find_first_ones.simps [of cm i ofs] by (simp_all add: Let_def split: if_splits)
    have "k < 64 * (i + 1) + 0" using "1.IH" [of "drop_bit ofs (cm ! i)"] "1.prems" True z n by simp
    moreover have "\<not> 64 * i + ofs \<le> k"
    proof
      assume "64 * i + ofs \<le> k"
      then have "k = 64 * i + (k - 64 * i)" "k - 64 * i < 64" "ofs \<le> k - 64 * i"
        using \<open>k < 64 * (i + 1) + 0\<close> by auto
      then have "bit (cm ! i) (k - 64 * i)"
        using "1.prems"(1,4) True bits_of_nth [of i cm "k - 64 * i"] by (simp add: cm_inv_def)
      then have "bit (drop_bit ofs (cm ! i)) (k - 64 * i - ofs)"
        using le_add_diff_inverse [OF \<open>ofs \<le> k - 64 * i\<close>] by (simp only: bit_drop_bit_eq o_def)
      then show False by (simp add: z)
    qed
    ultimately show ?thesis by simp
  next
    case False
    then show ?thesis using "1.prems" bits_of_bound [of k cm] by (simp add: cm_inv_def)
  qed
qed

lemma find_first_ones_Some:
  assumes "cm_inv cm" "ofs < 64" "find_first_ones cm i ofs = Some (i', msk, o')"
  shows "i' < 8 \<and> o' < 64 \<and> msk = drop_bit o' (cm ! i') \<and> bit msk 0 \<and> 64 * i + ofs \<le> 64 * i' + o' \<and>
    (\<forall>k \<in> bits_of cm. 64 * i + ofs \<le> k \<longrightarrow> 64 * i' + o' \<le> k)"
  using assms
proof (induction cm i ofs rule: find_first_ones.induct)
  case (1 cm i ofs)
  have i: "i < 8" using "1.prems"(3) by (subst (asm) find_first_ones.simps) (simp split: if_splits)
  have gap: "\<not> bit (cm ! i) (k - 64 * i) \<Longrightarrow> k \<in> bits_of cm \<Longrightarrow> 64 * i \<le> k \<Longrightarrow> 64 * i + 64 \<le> k" for k
    using bits_of_nth [of i cm "k - 64 * i"] i "1.prems"(1) by (cases "k - 64 * i < 64") (auto simp: cm_inv_def)
  show ?case
  proof (cases "drop_bit ofs (cm ! i) = 0")
    case True
    have z: "\<not> bit (cm ! i) j" if "ofs \<le> j" for j
      using True that bit_drop_bit_eq [of ofs "cm ! i"] by (auto simp: fun_eq_iff dest: spec [of _ "j - ofs"])
    have "find_first_ones cm (i + 1) 0 = Some (i', msk, o')"
      using "1.prems"(3) i True by (subst (asm) find_first_ones.simps) simp
    then have IH: "i' < 8 \<and> o' < 64 \<and> msk = drop_bit o' (cm ! i') \<and> bit msk 0 \<and> 64 * (i + 1) + 0 \<le> 64 * i' + o' \<and>
      (\<forall>k \<in> bits_of cm. 64 * (i + 1) + 0 \<le> k \<longrightarrow> 64 * i' + o' \<le> k)"
      using True i "1.prems"(1) by (intro "1.IH" [OF _ refl]) simp_all
    have "64 * i' + o' \<le> k" if "k \<in> bits_of cm" "64 * i + ofs \<le> k" for k
      using IH gap [of k] z [of "k - 64 * i"] that by simp
    then show ?thesis using IH "1.prems"(2) by auto
  next
    case False
    then obtain j where j: "skip_zeros (drop_bit ofs (cm ! i)) ofs = (drop_bit j (drop_bit ofs (cm ! i)), ofs + j)"
      "bit (drop_bit ofs (cm ! i)) j" "\<forall>j' < j. \<not> bit (drop_bit ofs (cm ! i)) j'"
      using skip_zeros_spec [of "drop_bit ofs (cm ! i)" ofs] by blast
    then have eq: "i' = i" "msk = drop_bit (ofs + j) (cm ! i)" "o' = ofs + j"
      using "1.prems"(3) i False find_first_ones.simps [of cm i ofs] by (auto simp: drop_bit_drop_bit add.commute)
    have b: "bit (cm ! i) (ofs + j)" using j(2) by (simp add: bit_drop_bit_eq)
    then have "ofs + j < 64" using bit_imp_le_length by fastforce
    moreover have "64 * i + (ofs + j) \<le> k" if "k \<in> bits_of cm" "64 * i + ofs \<le> k" for k
    proof (rule ccontr)
      assume "\<not> ?thesis"
      then have "k - 64 * i - ofs < j" "k - 64 * i < 64" using that \<open>ofs + j < 64\<close> by auto
      then have "\<not> bit (cm ! i) (k - 64 * i)"
        using j(3) that by (auto simp: bit_drop_bit_eq dest!: spec [of _ "k - 64 * i - ofs"])
      then show False using gap [of k] that \<open>k - 64 * i < 64\<close> by simp
    qed
    ultimately show ?thesis using i b by (simp add: eq bit_drop_bit_eq)
  qed
qed

lemma count_ones_spec:
  "\<exists>n. 1 \<le> n \<and> count_ones count msk = (count + n, drop_bit n msk) \<and> (\<forall>j. 0 < j \<and> j < n \<longrightarrow> bit msk j) \<and> \<not> bit msk n"
proof (induction count msk rule: count_ones.induct)
  case (1 count msk)
  show ?case
  proof (cases "bit (drop_bit 1 msk) 0")
    case True
    then obtain n where n: "1 \<le> n" "count_ones (count + 1) (drop_bit 1 msk) = (count + 1 + n, drop_bit n (drop_bit 1 msk))"
      "\<forall>j. 0 < j \<and> j < n \<longrightarrow> bit (drop_bit 1 msk) j" "\<not> bit (drop_bit 1 msk) n"
      using "1.IH" by (auto simp: and_1_bit)
    have "bit msk j" if "0 < j" "j < Suc n" for j
      using n(3) that True by (cases "j = 1") (auto simp: bit_drop_bit_eq dest!: spec [of _ "j - 1"])
    then show ?thesis using n True
      by (intro exI [of _ "Suc n"]) (subst count_ones.simps, simp add: and_1_bit Let_def bit_drop_bit_eq drop_bit_drop_bit)
  next
    case False
    then show ?thesis
      by (intro exI [of _ 1]) (subst count_ones.simps, simp add: and_1_bit Let_def bit_drop_bit_eq)
  qed
qed

lemma count_run_spec:
  assumes "cm_inv cm" "i < 8" "o' < 64" "idx + count = 64 * i + o'" "msk = drop_bit o' (cm ! i)" "bit msk 0"
    "{idx..<idx + count} \<subseteq> bits_of cm"
  shows "count < count_run cm idx i count msk \<and> {idx..<idx + count_run cm idx i count msk} \<subseteq> bits_of cm \<and>
    idx + count_run cm idx i count msk \<notin> bits_of cm"
  using assms
proof (induction cm idx i count msk arbitrary: o' rule: count_run.induct)
  case (1 cm idx i count msk)
  obtain n where n: "1 \<le> n" "count_ones count msk = (count + n, drop_bit n msk)"
    "\<And>j. 0 < j \<Longrightarrow> j < n \<Longrightarrow> bit msk j" "\<not> bit msk n"
    using count_ones_spec [of count msk] by blast
  have b: "bit (cm ! i) (o' + j)" if "j < n" for j
    using n(3) [of j] that "1.prems"(5,6) by (cases "j = 0") (auto simp: bit_drop_bit_eq)
  have n64: "o' + n \<le> 64"
    using b [of "n - 1"] n(1) bit_imp_le_length [of "cm ! i" "o' + (n - 1)"] by simp
  have len: "i < length cm" using "1.prems"(1,2) by (simp add: cm_inv_def)
  have run: "{idx..<idx + (count + n)} \<subseteq> bits_of cm"
  proof
    fix k assume k: "k \<in> {idx..<idx + (count + n)}"
    show "k \<in> bits_of cm"
    proof (cases "k < idx + count")
      case False
      then have "k = 64 * i + (o' + (k - (idx + count)))" "k - (idx + count) < n" using k "1.prems"(4) by auto
      then show ?thesis using bits_of_nth [OF len, of "o' + (k - (idx + count))"] b n64 by fastforce
    qed (use k "1.prems"(7) in auto)
  qed
  have bnd: "(idx + (count + n)) mod 64 = 0 \<longleftrightarrow> o' + n = 64"
  proof -
    have "idx + (count + n) = (o' + n) + 64 * i" using "1.prems"(4) by simp
    then have "(idx + (count + n)) mod 64 = (o' + n) mod 64" by (simp only: mod_mult_self2)
    then show ?thesis using n64 n(1) by (auto simp: mod_if)
  qed
  note unf = count_run.simps [of cm idx i count msk]
  show ?case
  proof (cases "o' + n = 64")
    case False
    then have "\<not> bit (cm ! i) (o' + n)" using n(4) "1.prems"(5) by (simp add: bit_drop_bit_eq)
    then have "64 * i + (o' + n) \<notin> bits_of cm" using bits_of_nth [OF len] n64 False by simp
    moreover have "count_run cm idx i count msk = count + n"
      using unf n(2,4) bnd False by (simp add: and_1_bit bit_drop_bit_eq)
    ultimately show ?thesis using run n(1) "1.prems"(4) by (simp add: add.assoc [symmetric])
  next
    case True
    have nxt: "idx + (count + n) = 64 * (i + 1)" using True "1.prems"(4) by simp
    show ?thesis
    proof (cases "i + 1 < 8 \<and> bit (cm ! (i + 1)) 0")
      case T: True
      have eq: "count_run cm idx i count msk = count_run cm idx (i + 1) (count + n) (cm ! (i + 1))"
        using unf n(2) bnd True T by (simp add: and_1_bit)
      have "count + n < count_run cm idx (i + 1) (count + n) (cm ! (i + 1)) \<and>
        {idx..<idx + count_run cm idx (i + 1) (count + n) (cm ! (i + 1))} \<subseteq> bits_of cm \<and>
        idx + count_run cm idx (i + 1) (count + n) (cm ! (i + 1)) \<notin> bits_of cm"
        using "1.IH"(1) [of "(count + n, drop_bit n msk)" 0] n(2) bnd True T "1.prems"(1) nxt run by (simp add: and_1_bit)
      then show ?thesis unfolding eq by simp
    next
      case F: False
      then have "64 * (i + 1) \<notin> bits_of cm"
        using bits_of_nth [of "i + 1" cm 0] bits_of_bound [of "64 * (i + 1)" cm] "1.prems"(1) by (auto simp: cm_inv_def)
      moreover have "count_run cm idx i count msk = count + n"
        using unf n(2) bnd True F by (auto simp: and_1_bit Let_def)
      ultimately show ?thesis using run n(1) nxt by simp
    qed
  qed
qed

text \<open>The specification of one step of the iteration: the first maximal run of ones at or after \<open>idx\<close>.\<close>

definition first_run :: "nat set \<Rightarrow> nat \<Rightarrow> nat \<Rightarrow> nat \<Rightarrow> bool" where
  "first_run S idx count idx' \<longleftrightarrow>
     idx \<le> idx' \<and> 0 < count \<and> {idx'..<idx' + count} \<subseteq> S \<and> idx' + count \<notin> S \<and> (\<forall>k \<in> S. idx \<le> k \<longrightarrow> idx' \<le> k)"

lemma next_run_cases:
  assumes "cm_inv cm"
  shows "(pa_commit_mask_next_run cm idx = (0, 512) \<and> (\<forall>k \<in> bits_of cm. k < idx)) \<or>
    (\<exists>count idx'. pa_commit_mask_next_run cm idx = (count, idx') \<and> first_run (bits_of cm) idx count idx')"
proof (cases "find_first_ones cm (idx div 64) (idx mod 64)")
  case None
  then have "k < idx" if "k \<in> bits_of cm" for k
    using find_first_ones_None [OF assms _ None that] by simp
  then show ?thesis using None by (simp add: pa_commit_mask_next_run_def)
next
  case (Some r)
  obtain i msk o' where r: "r = (i, msk, o')" by (cases r)
  have f: "i < 8 \<and> o' < 64 \<and> msk = drop_bit o' (cm ! i) \<and> bit msk 0 \<and> 64 * (idx div 64) + idx mod 64 \<le> 64 * i + o' \<and>
    (\<forall>k \<in> bits_of cm. 64 * (idx div 64) + idx mod 64 \<le> k \<longrightarrow> 64 * i + o' \<le> k)"
    using Some r by (intro find_first_ones_Some [OF assms]) simp_all
  have "0 < count_run cm (64 * i + o') i 0 msk \<and>
    {64 * i + o'..<64 * i + o' + count_run cm (64 * i + o') i 0 msk} \<subseteq> bits_of cm \<and>
    64 * i + o' + count_run cm (64 * i + o') i 0 msk \<notin> bits_of cm"
    using f by (intro count_run_spec [OF assms]) auto
  then show ?thesis using Some r f by (simp add: pa_commit_mask_next_run_def first_run_def)
qed

lemma find_first_ones_cong: "find_first_ones (map ((!) cm) [0..<8]) i ofs = find_first_ones cm i ofs"
proof (induction cm i ofs rule: find_first_ones.induct)
  case (1 cm i ofs)
  then show ?case
    using find_first_ones.simps [of cm i ofs] find_first_ones.simps [of "map ((!) cm) [0..<8]" i ofs]
    by (simp add: Let_def)
qed

lemma count_run_cong: "count_run (map ((!) cm) [0..<8]) idx i count msk = count_run cm idx i count msk"
proof (induction cm idx i count msk rule: count_run.induct)
  case (1 cm idx i count msk)
  then show ?case
    using count_run.simps [of cm idx i count msk] count_run.simps [of "map ((!) cm) [0..<8]" idx i count msk]
    by (simp add: Let_def)
qed

lemma next_run_progress:
  assumes "pa_commit_mask_next_run cm idx = (count, idx')" "0 < count"
  shows "idx < idx' + count" "idx' + count \<le> 512"
proof -
  let ?cm = "map ((!) cm) [0..<8]"
  have eq: "pa_commit_mask_next_run ?cm idx = pa_commit_mask_next_run cm idx"
    by (simp add: pa_commit_mask_next_run_def find_first_ones_cong count_run_cong cong: option.case_cong)
  have "cm_inv ?cm" by (simp add: cm_inv_def)
  from next_run_cases [OF this, of idx] assms eq have f: "first_run (bits_of ?cm) idx count idx'" by auto
  then show "idx < idx' + count" by (auto simp: first_run_def)
  have "idx' + count - 1 \<in> bits_of ?cm" using f by (auto simp: first_run_def subset_iff)
  then show "idx' + count \<le> 512" using bits_of_bound [of _ ?cm] by fastforce
qed

text \<open>The macro pair \<open>pa_commit_mask_foreach\<close> and \<open>pa_commit_mask_foreach_end\<close>, with the body of
  the loop as a function of the run and the loop state.\<close>

function pa_commit_mask_foreach :: "(nat \<Rightarrow> nat \<Rightarrow> 's \<Rightarrow> 's) \<Rightarrow> commit_mask \<Rightarrow> nat \<Rightarrow> 's \<Rightarrow> 's" where
  "pa_commit_mask_foreach body cm idx s =
     (let (count, idx') = pa_commit_mask_next_run cm idx
      in if 0 < count then pa_commit_mask_foreach body cm (idx' + count) (body idx' count s) else s)"
  by pat_completeness auto
termination
proof (relation "measure (\<lambda>(body, cm, idx, s). 512 - idx)")
  fix body :: "nat \<Rightarrow> nat \<Rightarrow> 's \<Rightarrow> 's" and cm idx s x count idx'
  assume "x = pa_commit_mask_next_run cm idx" "(count, idx') = x" "0 < count"
  then show "((body, cm, idx' + count, body idx' count s), body, cm, idx, s) \<in> measure (\<lambda>(body, cm, idx, s). 512 - idx)"
    using next_run_progress [of cm idx count idx'] by simp
qed simp

declare pa_commit_mask_foreach.simps [simp del]

definition mask_runs :: "commit_mask \<Rightarrow> nat \<Rightarrow> (nat \<times> nat) list" where
  "mask_runs cm idx = pa_commit_mask_foreach (\<lambda>i c rs. rs @ [(i, c)]) cm idx []"

lemma foreach_append:
  "pa_commit_mask_foreach (\<lambda>i c rs. rs @ [(i, c)]) cm idx rs = rs @ mask_runs cm idx"
proof (induction "512 - idx" arbitrary: idx rs rule: less_induct)
  case less
  obtain count idx' where n: "pa_commit_mask_next_run cm idx = (count, idx')" by fastforce
  note unf = pa_commit_mask_foreach.simps [of _ cm idx]
  show ?case
  proof (cases "0 < count")
    case True
    then have "512 - (idx' + count) < 512 - idx" using next_run_progress [OF n] by simp
    note IH = less [OF this]
    have "pa_commit_mask_foreach (\<lambda>i c rs. rs @ [(i, c)]) cm idx rs = (rs @ [(idx', count)]) @ mask_runs cm (idx' + count)" for rs
      using True by (simp add: unf n IH)
    from this [of rs] this [of "[]"] show ?thesis by (simp add: mask_runs_def [of cm idx])
  qed (simp add: unf n mask_runs_def)
qed

lemma mask_runs_step:
  assumes "pa_commit_mask_next_run cm idx = (count, idx')"
  shows "mask_runs cm idx = (if 0 < count then (idx', count) # mask_runs cm (idx' + count) else [])"
  using assms foreach_append [of cm "idx' + count" "[(idx', count)]"]
  by (simp add: mask_runs_def pa_commit_mask_foreach.simps [of _ cm idx])

lemma foreach_fold:
  "pa_commit_mask_foreach body cm idx s = fold (\<lambda>(i, c). body i c) (mask_runs cm idx) s"
proof (induction "512 - idx" arbitrary: idx s rule: less_induct)
  case less
  obtain count idx' where n: "pa_commit_mask_next_run cm idx = (count, idx')" by fastforce
  show ?case
  proof (cases "0 < count")
    case True
    then have "512 - (idx' + count) < 512 - idx" using next_run_progress [OF n] by simp
    from less [OF this] show ?thesis
      using True by (simp add: pa_commit_mask_foreach.simps [of body cm idx] n mask_runs_step [OF n])
  qed (simp add: pa_commit_mask_foreach.simps [of body cm idx] n mask_runs_step [OF n])
qed

lemma mask_runs_spec:
  assumes "cm_inv cm"
  shows "(\<Union>(i, c) \<in> set (mask_runs cm idx). {i..<i + c}) = {k \<in> bits_of cm. idx \<le> k} \<and>
    (\<forall>(i, c) \<in> set (mask_runs cm idx). idx \<le> i \<and> 0 < c \<and> i + c \<notin> bits_of cm) \<and>
    sorted_wrt (\<lambda>(i, c) (i', c'). i + c < i') (mask_runs cm idx)"
proof (induction "512 - idx" arbitrary: idx rule: less_induct)
  case less
  show ?case
  proof (cases "\<forall>k \<in> bits_of cm. k < idx")
    case True
    then have "mask_runs cm idx = []"
      using next_run_cases [OF assms, of idx] by (fastforce simp: first_run_def mask_runs_step subset_iff)
    then show ?thesis using True by auto
  next
    case False
    then obtain count idx' where n: "pa_commit_mask_next_run cm idx = (count, idx')"
      and f: "first_run (bits_of cm) idx count idx'"
      using next_run_cases [OF assms, of idx] by auto
    have c: "0 < count" and i: "idx \<le> idx'" and sub: "{idx'..<idx' + count} \<subseteq> bits_of cm"
      and end_out: "idx' + count \<notin> bits_of cm" and least: "\<And>k. k \<in> bits_of cm \<Longrightarrow> idx \<le> k \<Longrightarrow> idx' \<le> k"
      using f by (auto simp: first_run_def)
    have "512 - (idx' + count) < 512 - idx" using next_run_progress [OF n c] by simp
    note IH = less [OF this]
    have rs: "mask_runs cm idx = (idx', count) # mask_runs cm (idx' + count)" using mask_runs_step [OF n] c by simp
    have "{idx'..<idx' + count} \<union> {k \<in> bits_of cm. idx' + count \<le> k} = {k \<in> bits_of cm. idx \<le> k}"
      using i sub least by fastforce
    moreover have "idx' + count < i'" if "(i', c') \<in> set (mask_runs cm (idx' + count))" for i' c'
    proof -
      have "idx' + count \<le> i'" "0 < c'" using IH that by auto
      then have "i' \<in> bits_of cm" using IH that by fastforce
      then show ?thesis using end_out \<open>idx' + count \<le> i'\<close> by (metis le_neq_implies_less)
    qed
    ultimately show ?thesis using IH i c end_out by (auto simp: rs)
  qed
qed

text \<open>C26: iterating over a commit mask.  The \<open>pa_commit_mask_foreach\<close> loop calls its body on a
  list of runs that are maximal, strictly increasing, separated by at least one clear bit, and together
  cover exactly the set bits of the mask: no slice is skipped or visited twice, also where a run crosses
  the boundary between two 64-bit fields or ends at the last bit.\<close>
theorem commit_mask_foreach_runs:
  assumes "cm_inv cm"
  shows "pa_commit_mask_foreach body cm 0 s = fold (\<lambda>(i, c). body i c) (mask_runs cm 0) s \<and>
    (\<Union>(i, c) \<in> set (mask_runs cm 0). {i..<i + c}) = bits_of cm \<and>
    (\<forall>(i, c) \<in> set (mask_runs cm 0). 0 < c \<and> i + c \<notin> bits_of cm) \<and>
    sorted_wrt (\<lambda>(i, c) (i', c'). i + c < i') (mask_runs cm 0)"
  using mask_runs_spec [OF assms, of 0] foreach_fold [of body cm 0 s] by auto

theorem commit_mask_foreach_runs_witness:
  "(\<Union>(i, c) \<in> set (mask_runs (pa_commit_mask_create 60 70) 0). {i..<i + c}) = {60..<130}"
  using commit_mask_foreach_runs [of "pa_commit_mask_create 60 70" "\<lambda>i c n. n + c" "0::nat"] cm_create [of 60 70] by simp

section \<open>Counting\<close>

lemma count_bits_loop_card: "count_bits_loop msk count = count + card {j. bit msk j}"
proof (induction msk count rule: count_bits_loop.induct)
  case (1 msk count)
  have unf: "count_bits_loop msk count =
     (if msk \<noteq> 0 then count_bits_loop (drop_bit 1 msk) (if bit msk 0 then count + 1 else count) else count)"
    using count_bits_loop.simps [of msk count] by (simp add: and_1_bit)
  have split: "{j. bit msk j} = (if bit msk 0 then {0} else {}) \<union> Suc ` {j. bit (drop_bit 1 msk) j}"
  proof (rule set_eqI)
    fix j show "j \<in> {j. bit msk j} \<longleftrightarrow> j \<in> (if bit msk 0 then {0} else {}) \<union> Suc ` {j. bit (drop_bit 1 msk) j}"
      by (cases j) (auto simp: bit_drop_bit_eq)
  qed
  have fin: "finite {j. bit m j}" for m :: size_t
    by (rule finite_subset [of _ "{..<64}"]) (auto dest: bit_imp_le_length)
  have "card {j. bit msk j} = (if bit msk 0 then 1 else 0) + card {j. bit (drop_bit 1 msk) j}"
    by (subst split, subst card_Un_disjoint) (auto simp: fin card_image)
  then show ?case using 1 by (simp add: unf and_1_bit)
qed

lemma bits_of_append: "bits_of (ws @ [w]) = bits_of ws \<union> (+) (64 * length ws) ` {j. bit w j}"
proof (rule bits_of_eqI [where n = "Suc (length ws)"])
  fix i j :: nat assume ij: "i < Suc (length ws)" "j < 64"
  show "bit ((ws @ [w]) ! i) j \<longleftrightarrow> 64 * i + j \<in> bits_of ws \<union> (+) (64 * length ws) ` {j. bit w j}"
  proof (cases "i = length ws")
    case True
    then show ?thesis using ij bits_of_bound [of "64 * i + j" ws] by auto
  next
    case False
    then have "i < length ws" using ij by simp
    then have "64 * i + j < 64 * length ws" using ij by linarith
    then show ?thesis using ij bits_of_nth [of i ws j] \<open>i < length ws\<close> by (auto simp: nth_append)
  qed
qed (auto dest!: bits_of_bound bit_imp_le_length)

lemma count_fold_card:
  assumes "n \<le> length cm"
  shows "fold (\<lambda>i count. if NOT (cm ! i) = 0 then count + 64 else count_bits_loop (cm ! i) count) [0..<n] 0
    = card (bits_of (take n cm))"
  using assms
proof (induction n)
  case 0
  then show ?case by (simp add: bits_of_def)
next
  case (Suc n)
  have fin: "finite {j. bit m j}" for m :: size_t
    by (rule finite_subset [of _ "{..<64}"]) (auto dest: bit_imp_le_length)
  have full: "card {j. bit m j} = 64" if "NOT m = 0" for m :: size_t
  proof -
    have "m = NOT 0" using that by (metis bit.double_compl)
    then have "{j. bit m j} = {..<64}" by (auto simp: bit_simps)
    then show ?thesis by simp
  qed
  have "take (Suc n) cm = take n cm @ [cm ! n]" using Suc.prems by (simp add: take_Suc_conv_app_nth)
  then have "card (bits_of (take (Suc n) cm)) = card (bits_of (take n cm)) + card {j. bit (cm ! n) j}"
    using bits_of_bound [of _ "take n cm"] Suc.prems
    by (subst \<open>take (Suc n) cm = _\<close>, subst bits_of_append, subst card_Un_disjoint) (fastforce simp: fin card_image)+
  then show ?case using Suc full [of "cm ! n"] by (simp add: count_bits_loop_card)
qed

lemma cm_committed_size:
  assumes "cm_inv cm"
  shows "pa_commit_mask_committed_size cm total_size = (total_size div 512) * of_nat (card (bits_of cm))"
  using count_fold_card [of 8 cm] assms by (simp add: pa_commit_mask_committed_size_def cm_inv_def)

section \<open>The contract the segment code relies on\<close>

text \<open>A representation of sets of slices.  The lemmas of the locale are the three ways in which
  \<open>src/segment.c\<close> combines the operations on the pair of a commit and a purge mask, each of
  which keeps the purge mask inside the commit mask.\<close>

locale slice_set =
  fixes slices_of :: "'m \<Rightarrow> nat set" and inv :: "'m \<Rightarrow> bool"
    and empty :: "'m" and is_empty :: "'m \<Rightarrow> bool"
    and all_set any_set :: "'m \<Rightarrow> 'm \<Rightarrow> bool"
    and intersect clear add :: "'m \<Rightarrow> 'm \<Rightarrow> 'm"
  assumes empty: "inv empty" "slices_of empty = {}"
    and is_empty: "inv a \<Longrightarrow> is_empty a \<longleftrightarrow> slices_of a = {}"
    and all_set: "inv a \<Longrightarrow> inv b \<Longrightarrow> all_set a b \<longleftrightarrow> slices_of b \<subseteq> slices_of a"
    and any_set: "inv a \<Longrightarrow> inv b \<Longrightarrow> any_set a b \<longleftrightarrow> slices_of a \<inter> slices_of b \<noteq> {}"
    and intersect: "inv a \<Longrightarrow> inv b \<Longrightarrow> inv (intersect a b)"
      "inv a \<Longrightarrow> inv b \<Longrightarrow> slices_of (intersect a b) = slices_of a \<inter> slices_of b"
    and clear: "inv a \<Longrightarrow> inv b \<Longrightarrow> inv (clear a b)"
      "inv a \<Longrightarrow> inv b \<Longrightarrow> slices_of (clear a b) = slices_of a - slices_of b"
    and add: "inv a \<Longrightarrow> inv b \<Longrightarrow> inv (add a b)"
      "inv a \<Longrightarrow> inv b \<Longrightarrow> slices_of (add a b) = slices_of a \<union> slices_of b"
begin

definition paired :: "'m \<Rightarrow> 'm \<Rightarrow> bool" where
  "paired commit purge \<longleftrightarrow> inv commit \<and> inv purge \<and> all_set commit purge"

lemma paired_iff: "paired commit purge \<longleftrightarrow> inv commit \<and> inv purge \<and> slices_of purge \<subseteq> slices_of commit"
  by (auto simp: paired_def all_set)

lemma paired_commit: "paired commit purge \<Longrightarrow> inv m \<Longrightarrow> paired (add commit m) (clear purge m)"
  by (auto simp: paired_iff add clear)

lemma paired_keep: "paired commit purge \<Longrightarrow> inv m \<Longrightarrow> paired commit (clear purge m)"
  by (auto simp: paired_iff clear)

lemma paired_decommit: "paired commit purge \<Longrightarrow> inv m \<Longrightarrow> paired (clear commit m) (clear purge m)"
  by (auto simp: paired_iff clear)

lemma paired_schedule: "paired commit purge \<Longrightarrow> inv m \<Longrightarrow> paired commit (add purge (intersect commit m))"
  by (auto simp: paired_iff add intersect)

lemma paired_empty: "paired commit purge \<Longrightarrow> paired commit empty"
  by (simp add: paired_iff empty)

end

interpretation cm: slice_set bits_of cm_inv pa_commit_mask_create_empty pa_commit_mask_is_empty
  pa_commit_mask_all_set pa_commit_mask_any_set pa_commit_mask_create_intersect pa_commit_mask_clear pa_commit_mask_set
  by unfold_locales
    (simp_all add: cm_is_empty cm_all_set cm_any_set cm_intersect cm_clear cm_set)

end
