(* ===== verification/Palloc_Types.thy ===== *)
theory Palloc_Types
  imports Palloc_CommitMask Palloc_Bins
begin

text \<open>
  The data structures of \<open>include/palloc/types.h\<close>, with the fields in the order of the source.
  A pointer to a slice or page is a pair of the address of its segment and its index in the
  \<open>slices\<close> array (pages and slices share this array in the source, too); \<open>None\<close> is the null
  pointer.  Addresses are 64-bit words, bit fields and 16-bit counters are natural numbers whose
  bounds are part of the invariants (fields are prefixed \<open>pg_\<close> and \<open>sg_\<close>), clock values and option values are integers.
\<close>

definition PA_SEGMENT_SIZE :: size_t where "PA_SEGMENT_SIZE = 0x2000000"
definition PA_SEGMENT_SLICE_SIZE :: size_t where "PA_SEGMENT_SLICE_SIZE = 0x10000"
definition PA_COMMIT_SIZE :: size_t where "PA_COMMIT_SIZE = PA_SEGMENT_SLICE_SIZE"

lemmas size_consts = PA_SEGMENT_SIZE_def PA_SEGMENT_SLICE_SIZE_def PA_COMMIT_SIZE_def

type_synonym slice_ref = "uintptr_t \<times> nat"

datatype pa_delayed = PA_USE_DELAYED_FREE | PA_DELAYED_FREEING | PA_NO_DELAYED_FREE | PA_NEVER_DELAYED_FREE

record pa_page =
  pg_slice_count :: nat
  pg_slice_offset :: nat
  pg_is_committed :: bool
  pg_is_huge :: bool
  pg_is_zero_init :: bool
  pg_retire_expire :: nat
  pg_capacity :: nat
  pg_used :: nat
  pg_in_full :: bool
  pg_has_aligned :: bool
  pg_free_is_zero :: bool
  pg_block_size_shift :: nat
  pg_free :: uintptr_t
  pg_local_free :: uintptr_t
  pg_xthread_free :: uintptr_t
  pg_block_size :: size_t
  pg_reserved :: nat
  pg_heap_tag :: nat
  pg_page_start :: uintptr_t
  pg_xheap :: uintptr_t
  pg_next :: "slice_ref option"
  pg_prev :: "slice_ref option"

datatype pa_page_kind = PA_PAGE_SMALL | PA_PAGE_MEDIUM | PA_PAGE_LARGE | PA_PAGE_HUGE

datatype pa_segment_kind = PA_SEGMENT_NORMAL | PA_SEGMENT_HUGE

datatype pa_memkind = PA_MEM_NONE | PA_MEM_EXTERNAL | PA_MEM_STATIC | PA_MEM_OS | PA_MEM_OS_HUGE | PA_MEM_OS_REMAP | PA_MEM_ARENA

text \<open>The union holds the base and size of an OS allocation, or the block index, arena id and exclusiveness of an
  arena allocation.\<close>

datatype pa_memid_info =
    Mem_os uintptr_t size_t
  | Mem_arena nat int bool

record pa_memid =
  mi_mem :: pa_memid_info
  mi_is_pinned :: bool
  mi_initially_committed :: bool
  mi_initially_zero :: bool
  mi_memkind :: pa_memkind

text \<open>The segment.  \<open>sg_addr\<close> is the address of the structure itself.  The array \<open>slices\<close> of a segment is
  part of a store from slice references to slices that the components share; the fields that link
  abandoned segments, the sub-process and the cookie are not part of this model.\<close>

record pa_segment =
  sg_addr :: uintptr_t
  sg_memid :: pa_memid
  sg_allow_decommit :: bool
  sg_allow_purge :: bool
  sg_segment_size :: size_t
  sg_purge_expire :: int
  sg_purge_delay_ms :: int
  sg_purge_mask :: commit_mask
  sg_commit_mask :: commit_mask
  sg_was_reclaimed :: bool
  sg_dont_free :: bool
  sg_free_is_zero :: bool
  sg_abandoned :: nat
  sg_abandoned_visits :: nat
  sg_used :: nat
  sg_segment_slices :: nat
  sg_segment_info_slices :: nat
  sg_kind :: pa_segment_kind
  sg_slice_entries :: nat
  sg_thread_id :: nat

end
