(* ===== verification/Palloc_SegCommit.thy ===== *)
theory Palloc_SegCommit
  imports Palloc_Types Palloc_Arith "HOL-Library.Signed_Division"
begin

text \<open>
  Committing and purging ranges of a segment (\<open>src/segment.c\<close>, section ``Commit/Decommit
  ranges'').  What the operating system layer answers (\<open>_pa_os_commit\<close>, \<open>_pa_os_purge\<close>), the
  clock and the options are a record of parameters; the state of the operating system is threaded
  through as a value of an arbitrary type, so that a property can say which bytes are backed by
  committed memory.  Statistics counters are not part of the state.
\<close>

section \<open>The operations\<close>

record 'o os_env =
  os_commit :: "'o \<Rightarrow> uintptr_t \<Rightarrow> size_t \<Rightarrow> bool \<times> bool \<times> 'o"
  os_purge :: "'o \<Rightarrow> uintptr_t \<Rightarrow> size_t \<Rightarrow> bool \<times> 'o"
  clock_now :: int
  opt_purge_delay :: int
  opt_purge_extend_delay :: int
  opt_adaptive_purge :: bool

definition pa_segment_info_size :: "pa_segment \<Rightarrow> size_t" where
  "pa_segment_info_size seg = of_nat (sg_segment_info_slices seg) * PA_SEGMENT_SLICE_SIZE"

definition pa_segment_size :: "pa_segment \<Rightarrow> size_t" where
  "pa_segment_size seg = of_nat (sg_segment_slices seg) * PA_SEGMENT_SLICE_SIZE"

definition pa_segment_commit_mask ::
    "pa_segment \<Rightarrow> bool \<Rightarrow> uintptr_t \<Rightarrow> size_t \<Rightarrow> uintptr_t \<times> size_t \<times> commit_mask" where
  "pa_segment_commit_mask seg conservative p sz =
     (if sz = 0 \<or> PA_SEGMENT_SIZE < sz \<or> sg_kind seg = PA_SEGMENT_HUGE then (0, 0, pa_commit_mask_create_empty)
      else let segstart = pa_segment_info_size seg; segsize = pa_segment_size seg
      in if sg_addr seg + segsize \<le> p then (0, 0, pa_commit_mask_create_empty)
      else let pstart = p - sg_addr seg;
               start = (if conservative then pa_align_up pstart PA_COMMIT_SIZE
                        else pa_align_down pstart PA_COMMIT_SIZE);
               ende = (if conservative then pa_align_down (pstart + sz) PA_COMMIT_SIZE
                       else pa_align_up (pstart + sz) PA_COMMIT_SIZE);
               start = (if segstart \<le> pstart \<and> start < segstart then segstart else start);
               ende = (if segsize < ende then segsize else ende);
               full_size = (if start < ende then ende - start else 0)
      in if full_size = 0 then (sg_addr seg + start, 0, pa_commit_mask_create_empty)
      else (sg_addr seg + start, full_size,
            pa_commit_mask_create (unat (start div PA_COMMIT_SIZE)) (unat (full_size div PA_COMMIT_SIZE))))"

text \<open>Using part of a range that is scheduled for purging postpones the purge.\<close>

definition segment_extend_purge :: "'o os_env \<Rightarrow> pa_segment \<Rightarrow> commit_mask \<Rightarrow> pa_segment" where
  "segment_extend_purge env seg msk =
     (if pa_commit_mask_any_set (sg_purge_mask seg) msk
      then let seg = (if opt_adaptive_purge env
                      then let d = (if sg_purge_delay_ms seg = 0 then 1 else sg_purge_delay_ms seg * 2)
                           in seg\<lparr>sg_purge_delay_ms := (if 1000 < d then 1000 else d)\<rparr>
                      else seg)
           in seg\<lparr>sg_purge_expire := clock_now env +
                (if 0 < sg_purge_delay_ms seg then sg_purge_delay_ms seg else opt_purge_delay env)\<rparr>
      else seg)"

definition pa_segment_commit ::
    "'o os_env \<Rightarrow> pa_segment \<Rightarrow> 'o \<Rightarrow> uintptr_t \<Rightarrow> size_t \<Rightarrow> bool \<times> bool \<times> pa_segment \<times> 'o" where
  "pa_segment_commit env seg os p sz =
     (let (start, full_size, msk) = pa_segment_commit_mask seg False p sz
      in if pa_commit_mask_is_empty msk \<or> full_size = 0 then (True, False, seg, os)
      else let (ok, out_zero, seg, os) =
             (if \<not> pa_commit_mask_all_set (sg_commit_mask seg) msk
              then let (ok, is_zero, os) = os_commit env os start full_size
                   in if \<not> ok then (False, False, seg, os)
                      else (True, is_zero, seg\<lparr>sg_commit_mask := pa_commit_mask_set (sg_commit_mask seg) msk\<rparr>, os)
              else (True, False, seg, os))
      in if \<not> ok then (False, False, seg, os)
      else let seg = segment_extend_purge env seg msk
      in (True, out_zero, seg\<lparr>sg_purge_mask := pa_commit_mask_clear (sg_purge_mask seg) msk\<rparr>, os))"

definition pa_segment_ensure_committed ::
    "'o os_env \<Rightarrow> pa_segment \<Rightarrow> 'o \<Rightarrow> uintptr_t \<Rightarrow> size_t \<Rightarrow> bool \<times> bool \<times> pa_segment \<times> 'o" where
  "pa_segment_ensure_committed env seg os p sz =
     (if pa_commit_mask_is_full (sg_commit_mask seg) \<and> pa_commit_mask_is_empty (sg_purge_mask seg)
      then (True, False, seg, os)
      else pa_segment_commit env seg os p sz)"

definition pa_segment_purge ::
    "'o os_env \<Rightarrow> pa_segment \<Rightarrow> 'o \<Rightarrow> uintptr_t \<Rightarrow> size_t \<Rightarrow> pa_segment \<times> 'o" where
  "pa_segment_purge env seg os p sz =
     (if \<not> sg_allow_purge seg then (seg, os)
      else let (start, full_size, msk) = pa_segment_commit_mask seg True p sz
      in if pa_commit_mask_is_empty msk \<or> full_size = 0 then (seg, os)
      else let (seg, os) =
             (if pa_commit_mask_any_set (sg_commit_mask seg) msk
              then let (decommitted, os) = os_purge env os start full_size
                   in (if decommitted then seg\<lparr>sg_commit_mask := pa_commit_mask_clear (sg_commit_mask seg) msk\<rparr> else seg, os)
              else (seg, os))
      in (seg\<lparr>sg_purge_mask := pa_commit_mask_clear (sg_purge_mask seg) msk\<rparr>, os))"

definition pa_segment_try_purge :: "'o os_env \<Rightarrow> pa_segment \<Rightarrow> 'o \<Rightarrow> bool \<Rightarrow> pa_segment \<times> 'o" where
  "pa_segment_try_purge env seg os force =
     (if \<not> sg_allow_purge seg \<or> sg_purge_expire seg = 0 \<or> pa_commit_mask_is_empty (sg_purge_mask seg) then (seg, os)
      else if \<not> force \<and> clock_now env < sg_purge_expire seg then (seg, os)
      else let msk = sg_purge_mask seg;
               seg = seg\<lparr>sg_purge_expire := 0, sg_purge_mask := pa_commit_mask_create_empty\<rparr>;
               (seg, os) = pa_commit_mask_foreach
                 (\<lambda>idx count (seg, os). pa_segment_purge env seg os
                    (sg_addr seg + of_nat idx * PA_COMMIT_SIZE) (of_nat count * PA_COMMIT_SIZE))
                 msk 0 (seg, os)
      in (if opt_adaptive_purge env \<and> \<not> force
          then let d = sg_purge_delay_ms seg - (sg_purge_delay_ms seg - opt_purge_delay env) sdiv 4
               in seg\<lparr>sg_purge_delay_ms := (if d < opt_purge_delay env then opt_purge_delay env else d)\<rparr>
          else seg, os))"

definition pa_segment_schedule_purge ::
    "'o os_env \<Rightarrow> pa_segment \<Rightarrow> 'o \<Rightarrow> uintptr_t \<Rightarrow> size_t \<Rightarrow> pa_segment \<times> 'o" where
  "pa_segment_schedule_purge env seg os p sz =
     (if \<not> sg_allow_purge seg then (seg, os)
      else if opt_purge_delay env = 0 then pa_segment_purge env seg os p sz
      else let (start, full_size, msk) = pa_segment_commit_mask seg True p sz
      in if pa_commit_mask_is_empty msk \<or> full_size = 0 then (seg, os)
      else let cmask = pa_commit_mask_create_intersect (sg_commit_mask seg) msk;
               seg = seg\<lparr>sg_purge_mask := pa_commit_mask_set (sg_purge_mask seg) cmask\<rparr>;
               now = clock_now env
      in if sg_purge_expire seg = 0
         then (seg\<lparr>sg_purge_expire := now +
                 (if 0 < sg_purge_delay_ms seg then sg_purge_delay_ms seg else opt_purge_delay env)\<rparr>, os)
         else if sg_purge_expire seg \<le> now
         then (if sg_purge_expire seg + opt_purge_extend_delay env \<le> now
               then pa_segment_try_purge env seg os True
               else (seg\<lparr>sg_purge_expire := now + opt_purge_extend_delay env\<rparr>, os))
         else (seg\<lparr>sg_purge_expire := sg_purge_expire seg + opt_purge_extend_delay env\<rparr>, os))"

definition pa_segment_collect :: "'o os_env \<Rightarrow> pa_segment \<Rightarrow> 'o \<Rightarrow> bool \<Rightarrow> pa_segment \<times> 'o" where
  "pa_segment_collect env seg os force = pa_segment_try_purge env seg os force"

section \<open>Which slices a byte range covers\<close>

text \<open>A normal segment: 512 slices, placed so that address arithmetic inside it does not wrap.\<close>

definition seg_shape :: "pa_segment \<Rightarrow> bool" where
  "seg_shape seg \<longleftrightarrow> sg_kind seg = PA_SEGMENT_NORMAL \<and> sg_segment_slices seg = 512 \<and>
     sg_segment_info_slices seg \<le> sg_segment_slices seg \<and> unat (sg_addr seg) + 0x2000000 < 2 ^ 64"

definition in_segment :: "pa_segment \<Rightarrow> uintptr_t \<Rightarrow> size_t \<Rightarrow> bool" where
  "in_segment seg p sz \<longleftrightarrow> unat (sg_addr seg) \<le> unat p \<and>
     unat p + unat sz \<le> unat (sg_addr seg) + sg_segment_slices seg * 65536"

definition covered :: "bool \<Rightarrow> nat \<Rightarrow> nat \<Rightarrow> nat set" where
  "covered conservative ofs sz =
     (if sz = 0 then {}
      else if conservative then {(ofs + 65535) div 65536..<(ofs + sz) div 65536}
      else {ofs div 65536..<(ofs + sz + 65535) div 65536})"

lemma unat_align_slice_down: "unat (pa_align_down x PA_COMMIT_SIZE) = unat x div 65536 * 65536"
proof -
  have "PA_COMMIT_SIZE - 1 = (mask 16 :: size_t)" "PA_COMMIT_SIZE AND mask 16 = 0"
    by (simp_all add: size_consts mask_numeral)
  then have "pa_align_down x PA_COMMIT_SIZE = x AND NOT (mask 16)" by (simp add: pa_align_down_def Let_def)
  then show ?thesis by (simp only: unat_and_not_mask) simp
qed

lemma unat_align_slice_up:
  assumes "unat x + 65535 < 2 ^ 64"
  shows "unat (pa_align_up x PA_COMMIT_SIZE) = (unat x + 65535) div 65536 * 65536"
  using unat_pa_align_up [of PA_COMMIT_SIZE x] assms by (simp add: size_consts)

lemma unat_slices: "n \<le> 512 \<Longrightarrow> unat (of_nat n * PA_SEGMENT_SLICE_SIZE) = n * 65536"
  by (subst unat_mult_no_wrap) (simp_all add: size_consts unat_of_nat)

lemma div_round_bounds:
  fixes x n :: nat
  shows "x \<le> n * 65536 \<Longrightarrow> (x + 65535) div 65536 * 65536 \<le> n * 65536"
    and "x \<le> (x + 65535) div 65536 * 65536" and "x div 65536 * 65536 \<le> x"
    and "n * 65536 \<le> x \<Longrightarrow> n * 65536 \<le> x div 65536 * 65536"
proof -
  show "x \<le> n * 65536 \<Longrightarrow> (x + 65535) div 65536 * 65536 \<le> n * 65536"
    using nat_round_up_least(3) [of 65536 "n * 65536" x] by simp
  show "x \<le> (x + 65535) div 65536 * 65536" using nat_round_up_least(1) [of 65536 x] by simp
  show "x div 65536 * 65536 \<le> x" by simp
  assume "n * 65536 \<le> x"
  then have "n \<le> x div 65536" by (simp add: less_eq_div_iff_mult_less_eq)
  then show "n * 65536 \<le> x div 65536 * 65536" by simp
qed

definition first_slice :: "bool \<Rightarrow> nat \<Rightarrow> nat" where
  "first_slice conservative ofs = (if conservative then (ofs + 65535) div 65536 else ofs div 65536)"

definition end_slice :: "bool \<Rightarrow> nat \<Rightarrow> nat" where
  "end_slice conservative x = (if conservative then x div 65536 else (x + 65535) div 65536)"

lemma covered_slices:
  "covered c ofs sz = (if sz = 0 then {} else {first_slice c ofs..<end_slice c (ofs + sz)})"
  by (simp add: covered_def first_slice_def end_slice_def)

lemma segment_commit_mask_cases:
  fixes c :: bool
  assumes seg: "seg_shape seg" and rng: "in_segment seg p sz"
  defines "ofs \<equiv> unat p - unat (sg_addr seg)"
  defines "a \<equiv> first_slice c ofs" and "b \<equiv> end_slice c (ofs + unat sz)"
  shows "\<exists>start f. unat start = unat (sg_addr seg) + a * 65536 \<and> unat f = (b - a) * 65536 \<and> b \<le> 512 \<and>
    pa_segment_commit_mask seg c p sz =
     (if sz = 0 then (0, 0, pa_commit_mask_create_empty)
      else if b \<le> a then (start, 0, pa_commit_mask_create_empty)
      else (start, f, pa_commit_mask_create a (b - a)))"
proof -
  let ?n = "sg_segment_slices seg" and ?base = "unat (sg_addr seg)"
  let ?pstart = "p - sg_addr seg"
  let ?start = "if c then pa_align_up ?pstart PA_COMMIT_SIZE else pa_align_down ?pstart PA_COMMIT_SIZE"
  let ?fin = "if c then pa_align_down (?pstart + sz) PA_COMMIT_SIZE else pa_align_up (?pstart + sz) PA_COMMIT_SIZE"
  have n: "?n \<le> 512" "sg_kind seg = PA_SEGMENT_NORMAL" "sg_segment_info_slices seg \<le> ?n"
    "?base + 0x2000000 < 2 ^ 64" using seg by (auto simp: seg_shape_def)
  have bp: "?base \<le> unat p" and end_le: "ofs + unat sz \<le> ?n * 65536"
    using rng by (auto simp: in_segment_def ofs_def)
  have up: "unat ?pstart = ofs" using bp by (simp add: ofs_def unat_sub word_le_nat_alt)
  have n_max: "?n * 65536 \<le> 0x2000000" using n(1) by simp
  have us: "unat (?pstart + sz) = ofs + unat sz"
    using end_le n_max by (subst unat_add_no_wrap) (simp_all add: up)
  have s: "unat ?start = a * 65536" using end_le n_max
    by (simp add: a_def first_slice_def unat_align_slice_down unat_align_slice_up up)
  have e: "unat ?fin = b * 65536" using end_le n_max
    by (simp add: b_def end_slice_def unat_align_slice_down unat_align_slice_up us)
  have segsize: "unat (pa_segment_size seg) = ?n * 65536"
    and segstart: "unat (pa_segment_info_size seg) = sg_segment_info_slices seg * 65536"
    using n by (simp_all add: pa_segment_size_def pa_segment_info_size_def unat_slices)
  have no_raise: "\<not> (pa_segment_info_size seg \<le> ?pstart \<and> ?start < pa_segment_info_size seg)"
    using div_round_bounds(2) [of ofs] div_round_bounds(4) [of "sg_segment_info_slices seg" ofs]
    by (auto simp: word_le_nat_alt word_less_nat_alt up s segstart a_def first_slice_def)
  have b_le: "b \<le> ?n"
    using div_round_bounds(1) [OF end_le] div_round_bounds(3) [of "ofs + unat sz"] end_le
    by (auto simp: b_def end_slice_def)
  have no_cut: "\<not> pa_segment_size seg < ?fin" using b_le by (simp add: word_less_nat_alt e segsize del: if_split)
  have early: "(sz = 0 \<or> PA_SEGMENT_SIZE < sz \<or> sg_kind seg = PA_SEGMENT_HUGE) \<longleftrightarrow> sz = 0"
    using n end_le n_max by (auto simp: word_less_nat_alt size_consts)
  have inside: "\<not> sg_addr seg + pa_segment_size seg \<le> p" if "sz \<noteq> 0"
  proof -
    have "0 < unat sz" using that by (simp add: unat_gt_0)
    moreover have "unat (sg_addr seg + pa_segment_size seg) = ?base + ?n * 65536"
      using n(4) n_max by (subst unat_add_no_wrap) (simp_all add: segsize)
    ultimately show ?thesis using rng by (simp add: word_le_nat_alt in_segment_def)
  qed
  define f where "f = (if ?start < ?fin then ?fin - ?start else 0)"
  have lt: "?start < ?fin \<longleftrightarrow> a < b" by (simp only: word_less_nat_alt s e) simp
  have f: "unat f = (b - a) * 65536"
    using s e lt by (auto simp: f_def unat_sub word_less_nat_alt word_le_nat_alt diff_mult_distrib)
  then have f0: "f = 0 \<longleftrightarrow> b \<le> a" by (simp add: unat_eq_zero [symmetric] del: unat_eq_zero)
  have idx: "unat (?start div PA_COMMIT_SIZE) = a" "unat (f div PA_COMMIT_SIZE) = b - a"
    by (simp_all only: unat_div s f) (simp_all add: size_consts)
  have res: "pa_segment_commit_mask seg c p sz =
     (if sz = 0 then (0, 0, pa_commit_mask_create_empty)
      else if b \<le> a then (sg_addr seg + ?start, 0, pa_commit_mask_create_empty)
      else (sg_addr seg + ?start, f, pa_commit_mask_create a (b - a)))"
    unfolding pa_segment_commit_mask_def Let_def early
    by (simp add: inside no_raise no_cut f_def [symmetric] f0 idx del: if_split cong: if_cong)
  have "ofs \<le> 512 * 65536" using end_le n_max by linarith
  then have "a \<le> 512"
    using div_round_bounds(1) [of ofs 512] div_round_bounds(3) [of ofs] by (auto simp: a_def first_slice_def)
  then have "unat (sg_addr seg + ?start) = ?base + a * 65536"
    using n(4) by (subst unat_add_no_wrap) (simp_all add: s)
  then show ?thesis using res f b_le n(1) by (intro exI [of _ "sg_addr seg + ?start"] exI [of _ f]) simp
qed

lemma segment_commit_mask_spec:
  assumes "seg_shape seg" "in_segment seg p sz" "pa_segment_commit_mask seg c p sz = (start, full_size, msk)"
  shows "cm_inv msk" "bits_of msk = covered c (unat p - unat (sg_addr seg)) (unat sz)"
    "full_size = 0 \<longleftrightarrow> bits_of msk = {}"
    "\<And>k. bits_of msk \<noteq> {} \<Longrightarrow> k \<in> {unat start..<unat start + unat full_size} \<longleftrightarrow>
       unat (sg_addr seg) \<le> k \<and> (k - unat (sg_addr seg)) div 65536 \<in> bits_of msk"
proof -
  let ?ofs = "unat p - unat (sg_addr seg)"
  let ?a = "first_slice c ?ofs" and ?b = "end_slice c (?ofs + unat sz)"
  obtain st f where r: "unat st = unat (sg_addr seg) + ?a * 65536" "unat f = (?b - ?a) * 65536" "?b \<le> 512"
    "(start, full_size, msk) =
     (if sz = 0 then (0, 0, pa_commit_mask_create_empty)
      else if ?b \<le> ?a then (st, 0, pa_commit_mask_create_empty)
      else (st, f, pa_commit_mask_create ?a (?b - ?a)))"
    using segment_commit_mask_cases [OF assms(1,2), of c] assms(3) by auto
  have m: "cm_inv (pa_commit_mask_create ?a (?b - ?a))" "bits_of (pa_commit_mask_create ?a (?b - ?a)) = {?a..<?b}"
    if "?a < ?b" using cm_create [of ?a "?b - ?a"] that r(3) by auto
  show "cm_inv msk" using r(4) m by (auto split: if_splits)
  show bits: "bits_of msk = covered c ?ofs (unat sz)" using r(4) m by (auto simp: covered_slices unat_eq_zero split: if_splits)
  have z: "f = 0 \<longleftrightarrow> ?b \<le> ?a" using r(2) by (simp add: unat_eq_zero [symmetric] del: unat_eq_zero)
  show "full_size = 0 \<longleftrightarrow> bits_of msk = {}" using r(4) m z by (auto split: if_splits)
  fix k assume ne: "bits_of msk \<noteq> {}"
  then have "sz \<noteq> 0" "?a < ?b" using bits by (auto simp: covered_slices split: if_splits)
  then have eq: "start = st" "full_size = f" "bits_of msk = {?a..<?b}" using r(4) m by (auto split: if_splits)
  have "unat st + unat f = unat (sg_addr seg) + ?b * 65536"
    using r(1,2) \<open>?a < ?b\<close> by (simp add: add_mult_distrib [symmetric])
  then show "k \<in> {unat start..<unat start + unat full_size} \<longleftrightarrow>
       unat (sg_addr seg) \<le> k \<and> (k - unat (sg_addr seg)) div 65536 \<in> bits_of msk"
    unfolding eq using r(1)
    by (auto simp: less_eq_div_iff_mult_less_eq div_less_iff_less_mult)
qed

section \<open>What is committed stays recorded correctly\<close>

text \<open>The behaviour of the operating system layer that the segment code relies on.  \<open>comm os\<close> is the
  set of byte addresses backed by committed memory: a successful commit adds (at least) its range and a
  failed one removes nothing; a purge takes away at most its range, and nothing when it reports that
  no recommit is needed.\<close>

definition os_ok :: "('o \<Rightarrow> nat set) \<Rightarrow> 'o os_env \<Rightarrow> bool" where
  "os_ok comm env \<longleftrightarrow>
     (\<forall>os a s. case os_commit env os a s of (ok, z, os') \<Rightarrow>
        comm os \<subseteq> comm os' \<and> (ok \<longrightarrow> {unat a..<unat a + unat s} \<subseteq> comm os')) \<and>
     (\<forall>os a s. case os_purge env os a s of (decommitted, os') \<Rightarrow>
        comm os - {unat a..<unat a + unat s} \<subseteq> comm os' \<and> (\<not> decommitted \<longrightarrow> comm os \<subseteq> comm os'))"

definition slice_of :: "pa_segment \<Rightarrow> nat \<Rightarrow> nat" where
  "slice_of seg b = (b - unat (sg_addr seg)) div 65536"

definition commit_sound :: "('o \<Rightarrow> nat set) \<Rightarrow> pa_segment \<Rightarrow> 'o \<Rightarrow> bool" where
  "commit_sound comm seg os \<longleftrightarrow>
     (\<forall>b. unat (sg_addr seg) \<le> b \<and> slice_of seg b \<in> bits_of (sg_commit_mask seg) \<longrightarrow> b \<in> comm os)"

definition seg_masks :: "pa_segment \<Rightarrow> bool" where
  "seg_masks seg \<longleftrightarrow> cm.paired (sg_commit_mask seg) (sg_purge_mask seg)"

definition seg_inv :: "('o \<Rightarrow> nat set) \<Rightarrow> pa_segment \<Rightarrow> 'o \<Rightarrow> bool" where
  "seg_inv comm seg os \<longleftrightarrow> seg_shape seg \<and> seg_masks seg \<and> commit_sound comm seg os"

text \<open>Everything but the masks and the purge timers is left alone.\<close>

definition same_frame :: "pa_segment \<Rightarrow> pa_segment \<Rightarrow> bool" where
  "same_frame seg seg' \<longleftrightarrow>
     seg' = seg\<lparr>sg_commit_mask := sg_commit_mask seg', sg_purge_mask := sg_purge_mask seg',
                sg_purge_expire := sg_purge_expire seg', sg_purge_delay_ms := sg_purge_delay_ms seg'\<rparr>"

lemma same_frame_updates [simp]:
  "same_frame seg seg" "same_frame seg (seg'\<lparr>sg_commit_mask := c\<rparr>) = same_frame seg seg'"
  "same_frame seg (seg'\<lparr>sg_purge_mask := c\<rparr>) = same_frame seg seg'"
  "same_frame seg (seg'\<lparr>sg_purge_expire := e\<rparr>) = same_frame seg seg'"
  "same_frame seg (seg'\<lparr>sg_purge_delay_ms := e\<rparr>) = same_frame seg seg'"
  by (cases seg; cases seg'; auto simp: same_frame_def)+

lemma same_frame_trans: "same_frame a b \<Longrightarrow> same_frame b c \<Longrightarrow> same_frame a c"
  by (cases a; cases b; cases c) (simp add: same_frame_def)

text \<open>Outside the slices \<open>D\<close>, committed slices stay committed and no purge is newly scheduled.\<close>

definition masks_keep :: "nat set \<Rightarrow> pa_segment \<Rightarrow> pa_segment \<Rightarrow> bool" where
  "masks_keep D seg seg' \<longleftrightarrow> bits_of (sg_commit_mask seg) - D \<subseteq> bits_of (sg_commit_mask seg') \<and>
     bits_of (sg_purge_mask seg') \<subseteq> bits_of (sg_purge_mask seg) \<union> D"

lemma masks_keep_refl [simp]: "masks_keep D seg seg"
  by (auto simp: masks_keep_def)

lemma masks_keep_trans: "masks_keep D a b \<Longrightarrow> masks_keep E b c \<Longrightarrow> masks_keep (D \<union> E) a c"
  by (auto simp: masks_keep_def)

lemma masks_keep_mono: "masks_keep D a b \<Longrightarrow> D \<subseteq> E \<Longrightarrow> masks_keep E a b"
  by (auto simp: masks_keep_def)

lemma same_frame_fields:
  assumes "same_frame seg seg'"
  shows "sg_addr seg' = sg_addr seg" "seg_shape seg' = seg_shape seg" "slice_of seg' = slice_of seg"
    "in_segment seg' = in_segment seg" "sg_kind seg' = sg_kind seg" "sg_slice_entries seg' = sg_slice_entries seg"
    "sg_used seg' = sg_used seg" "sg_thread_id seg' = sg_thread_id seg" "sg_memid seg' = sg_memid seg" "sg_segment_slices seg' = sg_segment_slices seg"
    "sg_segment_info_slices seg' = sg_segment_info_slices seg" "sg_abandoned seg' = sg_abandoned seg" "sg_dont_free seg' = sg_dont_free seg"
    "sg_free_is_zero seg' = sg_free_is_zero seg" "sg_allow_purge seg' = sg_allow_purge seg"
  using assms by (cases seg; cases seg'; auto simp: same_frame_def seg_shape_def slice_of_def fun_eq_iff in_segment_def)+

lemma os_commitD:
  assumes "os_ok comm env" "os_commit env os a s = (ok, z, os')"
  shows "comm os \<subseteq> comm os'" "ok \<Longrightarrow> {unat a..<unat a + unat s} \<subseteq> comm os'"
proof -
  have "case os_commit env os a s of (ok, z, os') \<Rightarrow>
        comm os \<subseteq> comm os' \<and> (ok \<longrightarrow> {unat a..<unat a + unat s} \<subseteq> comm os')"
    using assms(1) unfolding os_ok_def by (elim conjE allE)
  then show "comm os \<subseteq> comm os'" "ok \<Longrightarrow> {unat a..<unat a + unat s} \<subseteq> comm os'" using assms(2) by simp_all
qed

lemma os_purgeD:
  assumes "os_ok comm env" "os_purge env os a s = (d, os')"
  shows "comm os - {unat a..<unat a + unat s} \<subseteq> comm os'" "\<not> d \<Longrightarrow> comm os \<subseteq> comm os'"
proof -
  have "case os_purge env os a s of (decommitted, os') \<Rightarrow>
        comm os - {unat a..<unat a + unat s} \<subseteq> comm os' \<and> (\<not> decommitted \<longrightarrow> comm os \<subseteq> comm os')"
    using assms(1) unfolding os_ok_def by (elim conjE allE)
  then show "comm os - {unat a..<unat a + unat s} \<subseteq> comm os'" "\<not> d \<Longrightarrow> comm os \<subseteq> comm os'" using assms(2) by simp_all
qed

lemma segment_extend_purge_fields [simp]:
  "sg_commit_mask (segment_extend_purge env seg msk) = sg_commit_mask seg"
  "sg_purge_mask (segment_extend_purge env seg msk) = sg_purge_mask seg"
  "same_frame seg' (segment_extend_purge env seg msk) = same_frame seg' seg"
  by (simp_all add: segment_extend_purge_def Let_def)

text \<open>The decision tree of \<open>pa_segment_commit\<close> as three cases.\<close>

lemma segment_commit_cases:
  assumes r: "pa_segment_commit env seg os p sz = (ok, z, seg', os')"
    and m: "pa_segment_commit_mask seg False p sz = (start, full_size, msk)"
  obtains (none) "pa_commit_mask_is_empty msk \<or> full_size = 0" "ok" "seg' = seg" "os' = os"
  | (failed) "\<not> ok" "seg' = seg" "\<exists>z. os_commit env os start full_size = (False, z, os')"
  | (performed) "ok" "full_size \<noteq> 0" "same_frame seg seg'"
      "sg_purge_mask seg' = pa_commit_mask_clear (sg_purge_mask seg) msk"
      "pa_commit_mask_all_set (sg_commit_mask seg) msk \<and> sg_commit_mask seg' = sg_commit_mask seg \<and> os' = os \<or>
       sg_commit_mask seg' = pa_commit_mask_set (sg_commit_mask seg) msk \<and> (\<exists>z. os_commit env os start full_size = (True, z, os'))"
proof (cases "pa_commit_mask_is_empty msk \<or> full_size = 0")
  case True
  then show ?thesis using r m none by (auto simp: pa_segment_commit_def)
next
  case ne: False
  obtain ok1 z1 os1 where oc: "os_commit env os start full_size = (ok1, z1, os1)" by (cases "os_commit env os start full_size")
  show ?thesis
  proof (cases "\<not> pa_commit_mask_all_set (sg_commit_mask seg) msk \<and> \<not> ok1")
    case True
    then show ?thesis using r m ne oc failed by (simp add: pa_segment_commit_def split: if_splits)
  next
    case False
    then show ?thesis using r m ne oc
      by (intro performed) (auto simp: pa_segment_commit_def split: if_splits)
  qed
qed

lemma segment_commit_inv:
  assumes ok: "os_ok comm env" and inv: "seg_inv comm seg os" and rng: "in_segment seg p sz"
    and r: "pa_segment_commit env seg os p sz = (res, z, seg', os')"
  shows "seg_inv comm seg' os'" "same_frame seg seg'" "comm os \<subseteq> comm os'" "masks_keep {} seg seg'"
    "res \<Longrightarrow> covered False (unat p - unat (sg_addr seg)) (unat sz) \<subseteq> bits_of (sg_commit_mask seg') - bits_of (sg_purge_mask seg')"
proof -
  obtain start full_size msk where m: "pa_segment_commit_mask seg False p sz = (start, full_size, msk)" by (metis prod_cases3)
  have shape: "seg_shape seg" and pair: "cm.paired (sg_commit_mask seg) (sg_purge_mask seg)"
    and sound: "\<And>b. unat (sg_addr seg) \<le> b \<Longrightarrow> slice_of seg b \<in> bits_of (sg_commit_mask seg) \<Longrightarrow> b \<in> comm os"
    using inv by (auto simp: seg_inv_def seg_masks_def commit_sound_def)
  note spec = segment_commit_mask_spec [OF shape rng m]
  have msks: "cm_inv (sg_commit_mask seg)" "cm_inv (sg_purge_mask seg)" using pair by (auto simp: cm.paired_def)
  from r m have "seg_inv comm seg' os' \<and> same_frame seg seg' \<and> comm os \<subseteq> comm os' \<and> masks_keep {} seg seg' \<and>
    (res \<longrightarrow> bits_of msk \<subseteq> bits_of (sg_commit_mask seg') - bits_of (sg_purge_mask seg'))"
  proof (cases rule: segment_commit_cases)
    case none
    then have "bits_of msk = {}" using spec(1,3) by (auto simp: cm_is_empty)
    then show ?thesis using none inv by simp
  next
    case failed
    then obtain z where "os_commit env os start full_size = (False, z, os')" by blast
    from os_commitD(1) [OF ok this] show ?thesis using failed inv by (auto simp: seg_inv_def commit_sound_def)
  next
    case performed
    note frame = same_frame_fields [OF performed(3)]
    from performed(5) show ?thesis
    proof
      assume a: "pa_commit_mask_all_set (sg_commit_mask seg) msk \<and> sg_commit_mask seg' = sg_commit_mask seg \<and> os' = os"
      then have "bits_of msk \<subseteq> bits_of (sg_commit_mask seg)" using msks spec(1) by (simp add: cm_all_set)
      then show ?thesis
        using a performed frame inv pair msks spec(1) cm.paired_keep [OF pair spec(1)]
        by (auto simp: seg_inv_def seg_masks_def commit_sound_def masks_keep_def cm_clear)
    next
      assume b: "sg_commit_mask seg' = pa_commit_mask_set (sg_commit_mask seg) msk \<and> (\<exists>z. os_commit env os start full_size = (True, z, os'))"
      then obtain z where oc: "os_commit env os start full_size = (True, z, os')" by blast
      have ne: "bits_of msk \<noteq> {}" using performed(2) spec(3) by simp
      have "x \<in> comm os'" if "unat (sg_addr seg) \<le> x" "slice_of seg x \<in> bits_of (sg_commit_mask seg) \<union> bits_of msk" for x
        using that os_commitD [OF ok oc] sound spec(4) [OF ne, of x] by (auto simp: slice_of_def)
      then show ?thesis
        using b performed frame shape pair msks spec(1) cm.paired_commit [OF pair spec(1)] os_commitD(1) [OF ok oc]
        by (auto simp: seg_inv_def seg_masks_def commit_sound_def masks_keep_def cm_clear cm_set)
    qed
  qed
  then show "seg_inv comm seg' os'" "same_frame seg seg'" "comm os \<subseteq> comm os'" "masks_keep {} seg seg'"
    "res \<Longrightarrow> covered False (unat p - unat (sg_addr seg)) (unat sz) \<subseteq> bits_of (sg_commit_mask seg') - bits_of (sg_purge_mask seg')"
    using spec(2) by auto
qed

lemma segment_purge_inv:
  assumes ok: "os_ok comm env" and inv: "seg_inv comm seg os" and rng: "in_segment seg p sz"
    and r: "pa_segment_purge env seg os p sz = (seg', os')"
  shows "seg_inv comm seg' os'" "same_frame seg seg'"
    "comm os - {b. unat (sg_addr seg) \<le> b \<and> slice_of seg b \<in> covered True (unat p - unat (sg_addr seg)) (unat sz)} \<subseteq> comm os'"
    "bits_of (sg_purge_mask seg') \<subseteq> bits_of (sg_purge_mask seg)"
    "masks_keep (covered True (unat p - unat (sg_addr seg)) (unat sz)) seg seg'"
proof -
  obtain start full_size msk where m: "pa_segment_commit_mask seg True p sz = (start, full_size, msk)" by (metis prod_cases3)
  have shape: "seg_shape seg" and pair: "cm.paired (sg_commit_mask seg) (sg_purge_mask seg)"
    and sound: "\<And>b. unat (sg_addr seg) \<le> b \<Longrightarrow> slice_of seg b \<in> bits_of (sg_commit_mask seg) \<Longrightarrow> b \<in> comm os"
    using inv by (auto simp: seg_inv_def seg_masks_def commit_sound_def)
  note spec = segment_commit_mask_spec [OF shape rng m]
  have msks: "cm_inv (sg_commit_mask seg)" "cm_inv (sg_purge_mask seg)" using pair by (auto simp: cm.paired_def)
  obtain d os1 where op: "os_purge env os start full_size = (d, os1)" by fastforce
  note frame = same_frame_fields
  have "seg_inv comm seg' os' \<and> same_frame seg seg' \<and> bits_of (sg_purge_mask seg') \<subseteq> bits_of (sg_purge_mask seg) \<and>
    masks_keep (bits_of msk) seg seg' \<and> comm os - {b. unat (sg_addr seg) \<le> b \<and> slice_of seg b \<in> bits_of msk} \<subseteq> comm os'"
  proof (cases "\<not> sg_allow_purge seg \<or> pa_commit_mask_is_empty msk \<or> full_size = 0")
    case True
    then have "seg' = seg" "os' = os" using r m by (auto simp: pa_segment_purge_def split: if_splits)
    then show ?thesis using inv by auto
  next
    case F: False
    then have ne: "bits_of msk \<noteq> {}" using spec(3) by simp
    let ?pm = "pa_commit_mask_clear (sg_purge_mask seg) msk"
    consider (keep) "seg' = seg\<lparr>sg_purge_mask := ?pm\<rparr>" "comm os \<subseteq> comm os'"
      | (drop) "seg' = seg\<lparr>sg_commit_mask := pa_commit_mask_clear (sg_commit_mask seg) msk, sg_purge_mask := ?pm\<rparr>" "os' = os1"
      using r m F op os_purgeD(2) [OF ok op] by (auto simp: pa_segment_purge_def split: if_splits)
    then show ?thesis
    proof cases
      case keep
      then show ?thesis using inv pair msks spec(1) cm.paired_keep [OF pair spec(1)] sound
        by (auto simp: seg_inv_def seg_shape_def seg_masks_def commit_sound_def slice_of_def masks_keep_def cm_clear)
    next
      case drop
      then have "x \<in> comm os'" if "x \<in> comm os" "\<not> (unat (sg_addr seg) \<le> x \<and> slice_of seg x \<in> bits_of msk)" for x
        using that os_purgeD(1) [OF ok op] spec(4) [OF ne, of x] by (auto simp: slice_of_def)
      then show ?thesis using drop shape msks spec(1) sound cm.paired_decommit [OF pair spec(1)]
        by (auto simp: seg_inv_def seg_shape_def seg_masks_def commit_sound_def slice_of_def masks_keep_def cm_clear)
    qed
  qed
  then show "seg_inv comm seg' os'" "same_frame seg seg'"
    "comm os - {b. unat (sg_addr seg) \<le> b \<and> slice_of seg b \<in> covered True (unat p - unat (sg_addr seg)) (unat sz)} \<subseteq> comm os'"
    "bits_of (sg_purge_mask seg') \<subseteq> bits_of (sg_purge_mask seg)"
    "masks_keep (covered True (unat p - unat (sg_addr seg)) (unat sz)) seg seg'"
    using spec(2) by auto
qed

lemma purge_runs_inv:
  assumes ok: "os_ok comm env"
  shows "seg_inv comm seg os \<Longrightarrow> \<forall>(i, c) \<in> set rs. i + c \<le> 512 \<Longrightarrow>
    fold (\<lambda>(idx, count) (seg, os). pa_segment_purge env seg os
      (sg_addr seg + of_nat idx * PA_COMMIT_SIZE) (of_nat count * PA_COMMIT_SIZE)) rs (seg, os) = (seg', os') \<Longrightarrow>
    seg_inv comm seg' os' \<and> same_frame seg seg' \<and> bits_of (sg_purge_mask seg') \<subseteq> bits_of (sg_purge_mask seg) \<and>
    masks_keep (\<Union>(i, c) \<in> set rs. {i..<i + c}) seg seg' \<and>
    comm os - {b. unat (sg_addr seg) \<le> b \<and> slice_of seg b \<in> (\<Union>(i, c) \<in> set rs. {i..<i + c})} \<subseteq> comm os'"
proof (induction rs arbitrary: seg os)
  case (Cons r rs)
  obtain i c where r: "r = (i, c)" by fastforce
  let ?p = "sg_addr seg + of_nat i * PA_COMMIT_SIZE" and ?sz = "of_nat c * PA_COMMIT_SIZE :: size_t"
  obtain seg1 os1 where one: "pa_segment_purge env seg os ?p ?sz = (seg1, os1)" by fastforce
  have ic: "i + c \<le> 512" and shape: "seg_shape seg" using Cons.prems r by (auto simp: seg_inv_def)
  have base: "unat (sg_addr seg) + 0x2000000 < 2 ^ 64" "sg_segment_slices seg = 512"
    using shape by (auto simp: seg_shape_def)
  have ui: "unat (of_nat i * PA_COMMIT_SIZE :: size_t) = i * 65536" and uc: "unat ?sz = c * 65536"
    using ic unat_slices [of i] unat_slices [of c] by (simp_all add: PA_COMMIT_SIZE_def)
  have up: "unat ?p = unat (sg_addr seg) + i * 65536"
    using base ic by (subst unat_add_no_wrap) (simp_all add: ui)
  have rng: "in_segment seg ?p ?sz" using ic base by (simp add: in_segment_def up uc)
  have "covered True (unat ?p - unat (sg_addr seg)) (unat ?sz) \<subseteq> {i..<i + c}"
  proof -
    have "(i * 65536 + c * 65536) div 65536 = i + c" by (simp only: add_mult_distrib [symmetric]) simp
    then show ?thesis by (simp add: covered_def up uc)
  qed
  note P = segment_purge_inv [OF ok Cons.prems(1) rng one] this
  have F: "seg_inv comm seg' os' \<and> same_frame seg1 seg' \<and> bits_of (sg_purge_mask seg') \<subseteq> bits_of (sg_purge_mask seg1) \<and>
    masks_keep (\<Union>(i, c) \<in> set rs. {i..<i + c}) seg1 seg' \<and>
    comm os1 - {b. unat (sg_addr seg1) \<le> b \<and> slice_of seg1 b \<in> (\<Union>(i, c) \<in> set rs. {i..<i + c})} \<subseteq> comm os'"
    using Cons.prems(2,3) by (intro Cons.IH P(1)) (simp_all add: r one)
  note frame = same_frame_fields [OF P(2)]
  have "x \<in> comm os'"
    if "x \<in> comm os" "\<not> (unat (sg_addr seg) \<le> x \<and> slice_of seg x \<in> (\<Union>(i, c) \<in> set (r # rs). {i..<i + c}))" for x
  proof -
    have "x \<in> comm os1" using that P(3,6) by (auto simp: r)
    then show ?thesis using that F unfolding frame by (auto simp: r)
  qed
  moreover have "masks_keep (\<Union>(i, c) \<in> set (r # rs). {i..<i + c}) seg seg'"
    using masks_keep_trans [OF masks_keep_mono [OF P(5,6)]] F by (simp add: r)
  ultimately show ?case using F P(2,4) same_frame_trans [of seg seg1 seg'] by blast
qed simp

lemma segment_try_purge_inv:
  assumes ok: "os_ok comm env" and inv: "seg_inv comm seg os"
    and r: "pa_segment_try_purge env seg os force = (seg', os')"
  shows "seg_inv comm seg' os'" "same_frame seg seg'"
    "comm os - {b. unat (sg_addr seg) \<le> b \<and> slice_of seg b \<in> bits_of (sg_purge_mask seg)} \<subseteq> comm os'"
    "force \<Longrightarrow> sg_allow_purge seg \<Longrightarrow> sg_purge_expire seg \<noteq> 0 \<Longrightarrow> bits_of (sg_purge_mask seg') = {}"
    "masks_keep (bits_of (sg_purge_mask seg)) seg seg'"
proof -
  have pair: "cm.paired (sg_commit_mask seg) (sg_purge_mask seg)" using inv by (simp add: seg_inv_def seg_masks_def)
  then have msks: "cm_inv (sg_purge_mask seg)" by (simp add: cm.paired_def)
  let ?quiet = "\<not> sg_allow_purge seg \<or> sg_purge_expire seg = 0 \<or> pa_commit_mask_is_empty (sg_purge_mask seg) \<or>
    \<not> force \<and> clock_now env < sg_purge_expire seg"
  have "seg_inv comm seg' os' \<and> same_frame seg seg' \<and>
    comm os - {b. unat (sg_addr seg) \<le> b \<and> slice_of seg b \<in> bits_of (sg_purge_mask seg)} \<subseteq> comm os' \<and>
    masks_keep (bits_of (sg_purge_mask seg)) seg seg' \<and> (\<not> ?quiet \<longrightarrow> bits_of (sg_purge_mask seg') = {})"
  proof (cases ?quiet)
    case True
    then have "seg' = seg" "os' = os" using r by (auto simp: pa_segment_try_purge_def split: if_splits)
    then show ?thesis using inv True by auto
  next
    case False
    let ?seg = "seg\<lparr>sg_purge_expire := 0, sg_purge_mask := pa_commit_mask_create_empty\<rparr>"
    let ?body = "\<lambda>idx count (seg, os). pa_segment_purge env seg os
      (sg_addr seg + of_nat idx * PA_COMMIT_SIZE) (of_nat count * PA_COMMIT_SIZE)"
    obtain seg1 os1 where f: "pa_commit_mask_foreach ?body (sg_purge_mask seg) 0 (?seg, os) = (seg1, os1)" by fastforce
    have res: "same_frame seg1 seg'" "sg_purge_mask seg' = sg_purge_mask seg1" "sg_commit_mask seg' = sg_commit_mask seg1" "os' = os1"
      using r False f by (auto simp: pa_segment_try_purge_def Let_def split: if_splits)
    have runs: "\<forall>(i, c) \<in> set (mask_runs (sg_purge_mask seg) 0). i + c \<le> 512"
    proof clarify
      fix i c assume rn: "(i, c) \<in> set (mask_runs (sg_purge_mask seg) 0)"
      then have "0 < c" using mask_runs_spec [OF msks, of 0] by auto
      then have "i + c - 1 \<in> (\<Union>(i, c) \<in> set (mask_runs (sg_purge_mask seg) 0). {i..<i + c})"
        using rn by (intro UN_I [of "(i, c)"]) auto
      then have "i + c - 1 \<in> bits_of (sg_purge_mask seg)" using mask_runs_spec [OF msks, of 0] by auto
      then show "i + c \<le> 512" using bits_of_bound [of "i + c - 1" "sg_purge_mask seg"] msks by (simp add: cm_inv_def)
    qed
    have "seg_inv comm ?seg os" using inv cm.paired_empty [OF pair]
      by (auto simp: seg_inv_def seg_shape_def seg_masks_def commit_sound_def slice_of_def)
    from purge_runs_inv [OF ok this runs] f
    have "seg_inv comm seg1 os1 \<and> same_frame ?seg seg1 \<and> bits_of (sg_purge_mask seg1) \<subseteq> bits_of (sg_purge_mask ?seg) \<and>
      masks_keep (\<Union>(i, c) \<in> set (mask_runs (sg_purge_mask seg) 0). {i..<i + c}) ?seg seg1 \<and>
      comm os - {b. unat (sg_addr ?seg) \<le> b \<and> slice_of ?seg b \<in> (\<Union>(i, c) \<in> set (mask_runs (sg_purge_mask seg) 0). {i..<i + c})} \<subseteq> comm os1"
      by (simp add: foreach_fold)
    moreover have "(\<Union>(i, c) \<in> set (mask_runs (sg_purge_mask seg) 0). {i..<i + c}) = bits_of (sg_purge_mask seg)"
      using mask_runs_spec [OF msks, of 0] by simp
    moreover have "same_frame seg ?seg" "slice_of ?seg = slice_of seg" by (simp_all add: slice_of_def fun_eq_iff)
    ultimately show ?thesis
      using res same_frame_fields [OF res(1)] same_frame_trans [of seg ?seg seg1] same_frame_trans [of seg seg1 seg'] False
      by (auto simp: seg_inv_def seg_masks_def commit_sound_def masks_keep_def)
  qed
  then show "seg_inv comm seg' os'" "same_frame seg seg'"
    "comm os - {b. unat (sg_addr seg) \<le> b \<and> slice_of seg b \<in> bits_of (sg_purge_mask seg)} \<subseteq> comm os'"
    "force \<Longrightarrow> sg_allow_purge seg \<Longrightarrow> sg_purge_expire seg \<noteq> 0 \<Longrightarrow> bits_of (sg_purge_mask seg') = {}"
    "masks_keep (bits_of (sg_purge_mask seg)) seg seg'"
    using cm_is_empty [OF msks] r by (auto simp: pa_segment_try_purge_def split: if_splits)
qed

lemma covered_conservative:
  assumes "unat (sg_addr seg) \<le> unat p" "unat (sg_addr seg) \<le> b"
    "slice_of seg b \<in> covered True (unat p - unat (sg_addr seg)) sz"
  shows "unat p \<le> b \<and> b < unat p + sz"
proof -
  let ?o = "unat p - unat (sg_addr seg)" and ?b = "b - unat (sg_addr seg)"
  have d: "(?o + 65535) div 65536 \<le> ?b div 65536" "?b div 65536 < (?o + sz) div 65536"
    using assms(3) by (auto simp: covered_def slice_of_def split: if_splits)
  have "?o \<le> (?o + 65535) div 65536 * 65536" by (rule div_round_bounds(2))
  also have "\<dots> \<le> ?b div 65536 * 65536" using d(1) by simp
  also have "\<dots> \<le> ?b" by simp
  finally have 1: "?o \<le> ?b" .
  have "?b < (?b div 65536 + 1) * 65536" by simp
  also have "\<dots> \<le> (?o + sz) div 65536 * 65536" using d(2) by simp
  also have "\<dots> \<le> ?o + sz" by simp
  finally show ?thesis using 1 assms(1,2) by linarith
qed

lemma covered_liberal:
  assumes "unat (sg_addr seg) \<le> unat p" "unat p \<le> b" "b < unat p + sz"
  shows "slice_of seg b \<in> covered False (unat p - unat (sg_addr seg)) sz"
proof -
  let ?o = "unat p - unat (sg_addr seg)" and ?b = "b - unat (sg_addr seg)"
  have b: "?o \<le> ?b" "?b < ?o + sz" using assms by linarith+
  then have "?b < (?o + sz + 65535) div 65536 * 65536" using div_round_bounds(2) [of "?o + sz"] by linarith
  then show ?thesis using b by (auto simp: covered_def slice_of_def div_le_mono div_less_iff_less_mult)
qed

lemma segment_ensure_committed_inv:
  assumes ok: "os_ok comm env" and inv: "seg_inv comm seg os" and rng: "in_segment seg p sz"
    and r: "pa_segment_ensure_committed env seg os p sz = (res, z, seg', os')"
  shows "seg_inv comm seg' os'" "same_frame seg seg'" "comm os \<subseteq> comm os'" "masks_keep {} seg seg'"
    "res \<Longrightarrow> unat p \<le> b \<Longrightarrow> b < unat p + unat sz \<Longrightarrow> slice_of seg b \<in> bits_of (sg_commit_mask seg') - bits_of (sg_purge_mask seg')"
proof -
  have msks: "cm_inv (sg_commit_mask seg)" "cm_inv (sg_purge_mask seg)"
    using inv by (auto simp: seg_inv_def seg_masks_def cm.paired_def)
  have base: "unat (sg_addr seg) \<le> unat p" using rng by (simp add: in_segment_def)
  have "seg_inv comm seg' os' \<and> same_frame seg seg' \<and> comm os \<subseteq> comm os' \<and> masks_keep {} seg seg' \<and>
    (res \<and> unat p \<le> b \<and> b < unat p + unat sz \<longrightarrow> slice_of seg b \<in> bits_of (sg_commit_mask seg') - bits_of (sg_purge_mask seg'))"
  proof (cases "pa_commit_mask_is_full (sg_commit_mask seg) \<and> pa_commit_mask_is_empty (sg_purge_mask seg)")
    case True
    then have "bits_of (sg_commit_mask seg) = {..<512}" "bits_of (sg_purge_mask seg) = {}"
      using msks by (auto simp: cm_is_full cm_is_empty)
    moreover have "slice_of seg b < 512" if "unat p \<le> b" "b < unat p + unat sz"
    proof -
      have "b - unat (sg_addr seg) < 512 * 65536"
        using that rng inv by (auto simp: in_segment_def seg_inv_def seg_shape_def)
      then show ?thesis by (simp add: slice_of_def div_less_iff_less_mult)
    qed
    ultimately show ?thesis using True r inv by (auto simp: pa_segment_ensure_committed_def)
  next
    case False
    then have "pa_segment_commit env seg os p sz = (res, z, seg', os')" using r by (auto simp: pa_segment_ensure_committed_def)
    from segment_commit_inv [OF ok inv rng this] covered_liberal [OF base, of b "unat sz"] show ?thesis by blast
  qed
  then show "seg_inv comm seg' os'" "same_frame seg seg'" "comm os \<subseteq> comm os'" "masks_keep {} seg seg'"
    "res \<Longrightarrow> unat p \<le> b \<Longrightarrow> b < unat p + unat sz \<Longrightarrow> slice_of seg b \<in> bits_of (sg_commit_mask seg') - bits_of (sg_purge_mask seg')"
    by auto
qed

text \<open>C21: memory handed out is committed.  If the operating system layer behaves as documented and
  \<open>pa_segment_ensure_committed\<close> returns true for a byte range of a normal segment, then every byte
  of the range is backed by committed memory afterwards, and its slice is recorded as committed and no longer
  scheduled for purging, so that no delayed purge can take it away later.\<close>
theorem segment_ensure_committed_sound:
  assumes "os_ok comm env" and "seg_inv comm seg os" and "in_segment seg p sz"
    and "pa_segment_ensure_committed env seg os p sz = (True, z, seg', os')"
    and "unat p \<le> b" "b < unat p + unat sz"
  shows "b \<in> comm os' \<and> slice_of seg b \<in> bits_of (sg_commit_mask seg') \<and> slice_of seg b \<notin> bits_of (sg_purge_mask seg')"
proof -
  note inv = segment_ensure_committed_inv [OF assms(1-4)]
  have bits: "slice_of seg b \<in> bits_of (sg_commit_mask seg') - bits_of (sg_purge_mask seg')"
    using inv(5) [of b] assms(5,6) by simp
  have "unat (sg_addr seg') \<le> b" "slice_of seg' b = slice_of seg b"
    using same_frame_fields [OF inv(2)] assms(3,5) by (auto simp: in_segment_def)
  then show ?thesis using bits inv(1) by (auto simp: seg_inv_def commit_sound_def)
qed

text \<open>An operating system that always succeeds, for concrete runs.\<close>

definition demo_env :: "nat set os_env" where
  "demo_env = \<lparr>os_commit = \<lambda>os a s. (True, True, os \<union> {unat a..<unat a + unat s}),
     os_purge = \<lambda>os a s. (True, os - {unat a..<unat a + unat s}),
     clock_now = 0, opt_purge_delay = 10, opt_purge_extend_delay = 1, opt_adaptive_purge = False\<rparr>"

definition demo_memid :: pa_memid where
  "demo_memid = \<lparr>mi_mem = Mem_arena 0 1 False, mi_is_pinned = False, mi_initially_committed = False,
     mi_initially_zero = True, mi_memkind = PA_MEM_ARENA\<rparr>"

definition demo_segment :: pa_segment where
  "demo_segment = \<lparr>sg_addr = 0x2000000, sg_memid = demo_memid, sg_allow_decommit = True, sg_allow_purge = True,
     sg_segment_size = PA_SEGMENT_SIZE, sg_purge_expire = 0, sg_purge_delay_ms = 0,
     sg_purge_mask = pa_commit_mask_create_empty, sg_commit_mask = pa_commit_mask_create_empty,
     sg_was_reclaimed = False, sg_dont_free = False, sg_free_is_zero = True, sg_abandoned = 0,
     sg_abandoned_visits = 0, sg_used = 0, sg_segment_slices = 512, sg_segment_info_slices = 1,
     sg_kind = PA_SEGMENT_NORMAL, sg_slice_entries = 512, sg_thread_id = 1\<rparr>"

lemma demo_ok: "os_ok (\<lambda>os. os) demo_env" "seg_inv (\<lambda>os. os) demo_segment {}"
  by (auto simp: os_ok_def demo_env_def seg_inv_def seg_shape_def seg_masks_def commit_sound_def
      demo_segment_def cm.paired_iff)

lemma demo_range: "in_segment demo_segment 0x2020000 0x1000"
  by (simp add: in_segment_def demo_segment_def)

lemma demo_mask: "\<not> pa_commit_mask_is_full pa_commit_mask_create_empty"
proof -
  have "(0::nat) \<in> {..<512}" by simp
  then have "{..<512} \<noteq> ({} :: nat set)" by blast
  then show ?thesis by (simp add: cm_is_full)
qed

lemma demo_commit:
  "\<exists>seg' os'. pa_segment_ensure_committed demo_env demo_segment {} 0x2020000 0x1000 = (True, True, seg', os')"
proof -
  obtain start f where "unat f = 65536" and m: "pa_segment_commit_mask demo_segment False 0x2020000 0x1000
      = (start, f, pa_commit_mask_create 2 1)"
    using segment_commit_mask_cases [of demo_segment "0x2020000" "0x1000" False] demo_ok(2) demo_range
    by (auto simp: seg_inv_def first_slice_def end_slice_def demo_segment_def)
  then have "f \<noteq> 0" "\<not> pa_commit_mask_is_empty (pa_commit_mask_create 2 1)"
    "\<not> pa_commit_mask_all_set pa_commit_mask_create_empty (pa_commit_mask_create 2 1)"
    using cm_create [of 2 1] by (auto simp: cm_is_empty cm_all_set)
  moreover have "sg_commit_mask demo_segment = pa_commit_mask_create_empty" by (simp add: demo_segment_def)
  ultimately show ?thesis
    using m demo_mask by (simp add: pa_segment_ensure_committed_def pa_segment_commit_def demo_env_def Let_def)
qed

theorem segment_ensure_committed_sound_witness:
  "\<exists>seg' os'. pa_segment_ensure_committed demo_env demo_segment {} 0x2020000 0x1000 = (True, True, seg', os') \<and> 0x2020FFF \<in> os'"
proof -
  obtain seg' os' where "pa_segment_ensure_committed demo_env demo_segment {} 0x2020000 0x1000 = (True, True, seg', os')"
    using demo_commit by blast
  with segment_ensure_committed_sound [OF demo_ok demo_range this, of "0x2020FFF"] show ?thesis by auto
qed

lemma segment_schedule_purge_inv:
  assumes ok: "os_ok comm env" and inv: "seg_inv comm seg os" and rng: "in_segment seg p sz"
    and r: "pa_segment_schedule_purge env seg os p sz = (seg', os')"
  shows "seg_inv comm seg' os'" "same_frame seg seg'"
    "comm os - {b. unat (sg_addr seg) \<le> b \<and> slice_of seg b \<in>
       bits_of (sg_purge_mask seg) \<union> covered True (unat p - unat (sg_addr seg)) (unat sz)} \<subseteq> comm os'"
    "masks_keep (bits_of (sg_purge_mask seg) \<union> covered True (unat p - unat (sg_addr seg)) (unat sz)) seg seg'"
    "bits_of (sg_purge_mask seg') \<subseteq> bits_of (sg_purge_mask seg) \<union> covered True (unat p - unat (sg_addr seg)) (unat sz)"
proof -
  obtain start full_size msk where m: "pa_segment_commit_mask seg True p sz = (start, full_size, msk)" by (metis prod_cases3)
  have shape: "seg_shape seg" and pair: "cm.paired (sg_commit_mask seg) (sg_purge_mask seg)"
    using inv by (auto simp: seg_inv_def seg_masks_def)
  have msks: "cm_inv (sg_commit_mask seg)" "cm_inv (sg_purge_mask seg)" using pair by (auto simp: cm.paired_def)
  note spec = segment_commit_mask_spec [OF shape rng m]
  let ?pm = "pa_commit_mask_set (sg_purge_mask seg) (pa_commit_mask_create_intersect (sg_commit_mask seg) msk)"
  let ?seg = "seg\<lparr>sg_purge_mask := ?pm\<rparr>"
  have sched: "seg_inv comm ?seg os" "same_frame seg ?seg" "bits_of ?pm \<subseteq> bits_of (sg_purge_mask seg) \<union> bits_of msk"
    using inv cm.paired_schedule [OF pair spec(1)] cm_set [OF msks(2)] cm_intersect [OF msks(1) spec(1)]
    by (auto simp: seg_inv_def seg_shape_def seg_masks_def commit_sound_def slice_of_def)
  consider (same) "seg' = seg" "os' = os" | (purge) "pa_segment_purge env seg os p sz = (seg', os')"
    | (tried) "pa_segment_try_purge env ?seg os True = (seg', os')"
    | (timer) "\<exists>e. seg' = ?seg\<lparr>sg_purge_expire := e\<rparr>" "os' = os"
  proof (cases "\<not> sg_allow_purge seg \<or> opt_purge_delay env = 0 \<or> pa_commit_mask_is_empty msk \<or> full_size = 0")
    case True
    show thesis
    proof (cases "sg_allow_purge seg \<and> opt_purge_delay env = 0")
      case d: True
      then have "pa_segment_purge env seg os p sz = (seg', os')" using r by (simp add: pa_segment_schedule_purge_def)
      then show thesis by (rule that(2))
    next
      case False
      with True m have "pa_segment_schedule_purge env seg os p sz = (seg, os)" by (auto simp: pa_segment_schedule_purge_def)
      then show thesis using that(1) r by simp
    qed
  next
    case F: False
    show thesis
    proof (cases "sg_purge_expire seg \<noteq> 0 \<and> sg_purge_expire seg \<le> clock_now env \<and>
        sg_purge_expire seg + opt_purge_extend_delay env \<le> clock_now env")
      case True
      then show thesis using r m F that(3) by (simp add: pa_segment_schedule_purge_def Let_def)
    next
      case False
      have "os' = os \<and> (seg' = ?seg\<lparr>sg_purge_expire := sg_purge_expire seg'\<rparr>)"
        using r m F False by (simp add: pa_segment_schedule_purge_def Let_def split: if_splits) auto
      then show thesis using that(4) by blast
    qed
  qed
  then have "seg_inv comm seg' os' \<and> same_frame seg seg' \<and> masks_keep (bits_of (sg_purge_mask seg) \<union> bits_of msk) seg seg' \<and>
    comm os - {b. unat (sg_addr seg) \<le> b \<and> slice_of seg b \<in> bits_of (sg_purge_mask seg) \<union> bits_of msk} \<subseteq> comm os'"
  proof cases
    case purge
    from segment_purge_inv [OF ok inv rng this] show ?thesis using spec(2) by (auto simp: masks_keep_def)
  next
    case tried
    from segment_try_purge_inv [OF ok sched(1) this] sched(2,3) same_frame_trans [of seg ?seg seg'] show ?thesis
      by (auto simp: slice_of_def masks_keep_def)
  next
    case timer
    then show ?thesis using sched
      by (auto simp: seg_inv_def seg_shape_def seg_masks_def commit_sound_def slice_of_def masks_keep_def)
  qed (use inv in auto)
  then show "seg_inv comm seg' os'" "same_frame seg seg'"
    "comm os - {b. unat (sg_addr seg) \<le> b \<and> slice_of seg b \<in>
       bits_of (sg_purge_mask seg) \<union> covered True (unat p - unat (sg_addr seg)) (unat sz)} \<subseteq> comm os'"
    "masks_keep (bits_of (sg_purge_mask seg) \<union> covered True (unat p - unat (sg_addr seg)) (unat sz)) seg seg'"
    "bits_of (sg_purge_mask seg') \<subseteq> bits_of (sg_purge_mask seg) \<union> covered True (unat p - unat (sg_addr seg)) (unat sz)"
    using spec(2) by (auto simp: masks_keep_def)
qed

section \<open>Histories of a segment\<close>

text \<open>Any sequence of commits, purges and scheduled purges of ranges inside the segment, with environments
  (clock, options and answers of the operating system) that may differ from step to step.  \<open>live\<close> is
  the set of bytes in use: a range becomes live when \<open>ensure_committed\<close> succeeds on it and stops being live
  when it is freed (given to the purge functions), as \<open>pa_segment_span_allocate\<close> and
  \<open>pa_segment_span_free\<close> do.\<close>

definition byte_range :: "uintptr_t \<Rightarrow> size_t \<Rightarrow> nat set" where
  "byte_range p sz = {unat p..<unat p + unat sz}"

inductive seg_history :: "('o \<Rightarrow> nat set) \<Rightarrow> pa_segment \<Rightarrow> 'o \<Rightarrow> nat set \<Rightarrow> pa_segment \<Rightarrow> 'o \<Rightarrow> nat set \<Rightarrow> bool"
  for comm seg0 os0 live0 where
  start: "seg_history comm seg0 os0 live0 seg0 os0 live0"
| use: "seg_history comm seg0 os0 live0 seg os live \<Longrightarrow> os_ok comm env \<Longrightarrow> in_segment seg p sz \<Longrightarrow>
    pa_segment_ensure_committed env seg os p sz = (res, z, seg', os') \<Longrightarrow>
    seg_history comm seg0 os0 live0 seg' os' (if res then live \<union> byte_range p sz else live)"
| free_purge: "seg_history comm seg0 os0 live0 seg os live \<Longrightarrow> os_ok comm env \<Longrightarrow> in_segment seg p sz \<Longrightarrow>
    pa_segment_purge env seg os p sz = (seg', os') \<Longrightarrow>
    seg_history comm seg0 os0 live0 seg' os' (live - byte_range p sz)"
| free_schedule: "seg_history comm seg0 os0 live0 seg os live \<Longrightarrow> os_ok comm env \<Longrightarrow> in_segment seg p sz \<Longrightarrow>
    pa_segment_schedule_purge env seg os p sz = (seg', os') \<Longrightarrow>
    seg_history comm seg0 os0 live0 seg' os' (live - byte_range p sz)"
| collect: "seg_history comm seg0 os0 live0 seg os live \<Longrightarrow> os_ok comm env \<Longrightarrow>
    pa_segment_collect env seg os force = (seg', os') \<Longrightarrow>
    seg_history comm seg0 os0 live0 seg' os' live"

text \<open>Live bytes lie in committed slices that are not scheduled for purging.\<close>

definition live_ok :: "pa_segment \<Rightarrow> nat set \<Rightarrow> bool" where
  "live_ok seg live \<longleftrightarrow> (\<forall>b \<in> live. unat (sg_addr seg) \<le> b \<and>
     slice_of seg b \<in> bits_of (sg_commit_mask seg) \<and> slice_of seg b \<notin> bits_of (sg_purge_mask seg))"

lemma live_ok_keep:
  assumes "live_ok seg live" "same_frame seg seg'" "masks_keep D seg seg'"
    and "\<And>b. b \<in> live' \<Longrightarrow> b \<in> live \<and> slice_of seg b \<notin> D"
  shows "live_ok seg' live'"
  using assms same_frame_fields [OF assms(2)] by (fastforce simp: live_ok_def masks_keep_def)

lemma seg_history_inv:
  assumes "seg_history comm seg0 os0 live0 seg os live" "seg_inv comm seg0 os0" "live_ok seg0 live0"
  shows "seg_inv comm seg os \<and> live_ok seg live"
  using assms
proof (induction rule: seg_history.induct)
  case (use seg os live env p sz res z seg' os')
  then have inv: "seg_inv comm seg os" and live: "live_ok seg live" by auto
  note C = segment_ensure_committed_inv [OF use.hyps(2) inv use.hyps(3,4)]
  have "live_ok seg' live" using live C(2,4) by (rule live_ok_keep) simp
  moreover have "live_ok seg' (byte_range p sz)" if res
    using C(5) [OF that] same_frame_fields [OF C(2)] use.hyps(3)
    by (auto simp: live_ok_def byte_range_def in_segment_def)
  ultimately show ?case using C(1) by (auto simp: live_ok_def)
next
  case (free_purge seg os live env p sz seg' os')
  then have inv: "seg_inv comm seg os" and live: "live_ok seg live" by auto
  note P = segment_purge_inv [OF free_purge.hyps(2) inv free_purge.hyps(3,4)]
  have "live_ok seg' (live - byte_range p sz)"
    using live P(2,5)
  proof (rule live_ok_keep)
    fix b assume b: "b \<in> live - byte_range p sz"
    then show "b \<in> live \<and> slice_of seg b \<notin> covered True (unat p - unat (sg_addr seg)) (unat sz)"
      using covered_conservative [of seg p b] live free_purge.hyps(3)
      by (auto simp: byte_range_def live_ok_def in_segment_def)
  qed
  then show ?case using P(1) by simp
next
  case (free_schedule seg os live env p sz seg' os')
  then have inv: "seg_inv comm seg os" and live: "live_ok seg live" by auto
  note P = segment_schedule_purge_inv [OF free_schedule.hyps(2) inv free_schedule.hyps(3,4)]
  have "live_ok seg' (live - byte_range p sz)"
    using live P(2,4)
  proof (rule live_ok_keep)
    fix b assume b: "b \<in> live - byte_range p sz"
    then show "b \<in> live \<and> slice_of seg b \<notin> bits_of (sg_purge_mask seg) \<union> covered True (unat p - unat (sg_addr seg)) (unat sz)"
      using covered_conservative [of seg p b] live free_schedule.hyps(3)
      by (auto simp: byte_range_def live_ok_def in_segment_def)
  qed
  then show ?case using P(1) by simp
next
  case (collect seg os live env force seg' os')
  then have inv: "seg_inv comm seg os" and live: "live_ok seg live" by auto
  have "pa_segment_try_purge env seg os force = (seg', os')" using collect.hyps(3) by (simp add: pa_segment_collect_def)
  note P = segment_try_purge_inv [OF collect.hyps(2) inv this]
  have "live_ok seg' live"
    using live P(2,5) by (rule live_ok_keep) (use live in \<open>auto simp: live_ok_def\<close>)
  then show ?case using P(1) by simp
qed auto

text \<open>C20: purging never hits live memory.  In every history of commits, immediate purges, scheduled purges
  and collections of a segment, in any order and with any answers of an operating system layer that behaves as documented,
  the purge mask stays inside the commit mask, the commit mask only records memory that really is committed,
  and every byte that was made usable and not freed since is still backed by committed memory.\<close>
theorem segment_live_memory_committed:
  assumes "seg_history comm seg0 os0 {} seg os live" and "seg_inv comm seg0 os0"
  shows "pa_commit_mask_all_set (sg_commit_mask seg) (sg_purge_mask seg) \<and> commit_sound comm seg os \<and> live \<subseteq> comm os"
proof -
  have "live_ok seg0 {}" by (simp add: live_ok_def)
  from seg_history_inv [OF assms this] show ?thesis
    by (auto simp: seg_inv_def seg_masks_def cm.paired_def commit_sound_def live_ok_def)
qed

theorem segment_live_memory_committed_witness:
  "\<exists>seg os. seg_history (\<lambda>os. os) demo_segment {} {} seg os (byte_range 0x2020000 0x1000) \<and> byte_range 0x2020000 0x1000 \<subseteq> os"
proof -
  obtain seg os where c: "pa_segment_ensure_committed demo_env demo_segment {} 0x2020000 0x1000 = (True, True, seg, os)"
    using demo_commit by blast
  have h: "seg_history (\<lambda>os. os) demo_segment {} {} seg os (byte_range 0x2020000 0x1000)"
    using seg_history.use [OF seg_history.start demo_ok(1) demo_range c, of "{}"] by simp
  from segment_live_memory_committed [OF h demo_ok(2)] h show ?thesis by blast
qed

end
