(* ===== verification/Palloc_Bitmap.thy ===== *)
theory Palloc_Bitmap
  imports Palloc_BitArray Palloc_Arith
begin

text \<open>
  Atomic bitmaps (\<open>src/bitmap.c\<close>, \<open>src/bitmap.h\<close>), used for the blocks of an arena.  Several
  threads claim and release bits of the same array with atomic instructions.  The model runs one
  thread and lets the others interfere before each of its atomic accesses: \<open>bm_env\<close> lists, access by
  access, the atomic steps of the other threads, each of which releases bits it owns and claims bits that are
  clear in one field.  \<open>bm_others\<close> is the ghost record of the bits the other threads own.  The list is
  arbitrary, so a property holds for every interleaving.  The bitmap index of the source,
  \<open>field * 64 + bit\<close>, is a natural number.
\<close>

section \<open>Shared memory and atomic accesses\<close>

type_synonym interference = "(nat \<times> size_t \<times> size_t) list"

record bitmap_state =
  bm :: "size_t list"
  bm_others :: "size_t list"
  bm_env :: "interference list"

definition env_step :: "nat \<times> size_t \<times> size_t \<Rightarrow> bitmap_state \<Rightarrow> bitmap_state" where
  "env_step = (\<lambda>(i, release, claim) s.
     if i < length (bm s)
     then let w = bm s ! i; d = bm_others s ! i; c = claim AND NOT w
          in s\<lparr>bm := (bm s)[i := (w AND NOT (release AND d)) OR c],
               bm_others := (bm_others s)[i := (d AND NOT release) OR c]\<rparr>
     else s)"

definition interfere :: "bitmap_state \<Rightarrow> bitmap_state" where
  "interfere s = (case bm_env s of [] \<Rightarrow> s | e # es \<Rightarrow> fold env_step e (s\<lparr>bm_env := es\<rparr>))"

definition atomic_load :: "nat \<Rightarrow> bitmap_state \<Rightarrow> size_t \<times> bitmap_state" where
  "atomic_load i s = (let s = interfere s in (bm s ! i, s))"

definition atomic_store :: "nat \<Rightarrow> size_t \<Rightarrow> bitmap_state \<Rightarrow> bitmap_state" where
  "atomic_store i v s = (let s = interfere s in s\<lparr>bm := (bm s)[i := v]\<rparr>)"

definition atomic_and :: "nat \<Rightarrow> size_t \<Rightarrow> bitmap_state \<Rightarrow> size_t \<times> bitmap_state" where
  "atomic_and i v s = (let s = interfere s in (bm s ! i, s\<lparr>bm := (bm s)[i := bm s ! i AND v]\<rparr>))"

definition atomic_or :: "nat \<Rightarrow> size_t \<Rightarrow> bitmap_state \<Rightarrow> size_t \<times> bitmap_state" where
  "atomic_or i v s = (let s = interfere s in (bm s ! i, s\<lparr>bm := (bm s)[i := bm s ! i OR v]\<rparr>))"

text \<open>Compare-and-swap returns success and the value found.\<close>

definition atomic_cas :: "nat \<Rightarrow> size_t \<Rightarrow> size_t \<Rightarrow> bitmap_state \<Rightarrow> bool \<times> size_t \<times> bitmap_state" where
  "atomic_cas i expected new s =
     (let s = interfere s
      in if bm s ! i = expected then (True, expected, s\<lparr>bm := (bm s)[i := new]\<rparr>)
         else (False, bm s ! i, s))"

lemma env_step_env [simp]: "bm_env (env_step e s) = bm_env s"
  by (auto simp: env_step_def Let_def split: prod.splits)

lemma fold_env_step_env [simp]: "bm_env (fold env_step e s) = bm_env s"
  by (induction e arbitrary: s) auto

lemma bm_env_interfere [simp]: "bm_env (interfere s) = tl (bm_env s)"
  by (simp add: interfere_def split: list.split)

lemma interfere_quiet: "bm_env s = [] \<Longrightarrow> interfere s = s"
  by (simp add: interfere_def)

lemma atomic_cas_fail:
  assumes "atomic_cas i expected new s = (False, v, s')"
  shows "2 * length (bm_env s') + of_bool (bm s' ! i \<noteq> v) < 2 * length (bm_env s) + of_bool (bm s ! i \<noteq> expected)"
proof (cases "bm_env s")
  case Nil
  then show ?thesis using assms by (auto simp: atomic_cas_def Let_def interfere_quiet split: if_splits)
next
  case (Cons e es)
  then show ?thesis using assms by (auto simp: atomic_cas_def Let_def split: if_splits)
qed

section \<open>Claims within one field\<close>

definition pa_bitmap_index_field :: "nat \<Rightarrow> nat" where
  "pa_bitmap_index_field bitmap_idx = bitmap_idx div 64"

definition pa_bitmap_index_bit_in_field :: "nat \<Rightarrow> nat" where
  "pa_bitmap_index_bit_in_field bitmap_idx = bitmap_idx mod 64"

definition pa_bitmap_index_create :: "nat \<Rightarrow> nat \<Rightarrow> nat" where
  "pa_bitmap_index_create idx bitidx = idx * 64 + bitidx"

definition pa_bitmap_mask :: "nat \<Rightarrow> nat \<Rightarrow> size_t" where
  "pa_bitmap_mask count bitidx =
     (if 64 \<le> count then NOT 0 else if count = 0 then 0 else push_bit bitidx (push_bit count 1 - 1))"

lemma pa_clz_nonzero:
  assumes "x \<noteq> 0"
  obtains i where "i < 64" "bit x i" "\<And>j. i < j \<Longrightarrow> \<not> bit x j" "pa_clz x = 63 - i"
proof -
  obtain i where i: "bit x i" "i < LENGTH(64)" "\<And>j. i < j \<Longrightarrow> \<not> bit x j" using assms by (rule word_nonzero_high) blast
  then show ?thesis using assms word_clz_eqI [of x i] by (intro that [of i]) (auto simp: pa_clz_def)
qed

lemma clz_shift_progress:
  assumes "mp AND push_bit bitidx msk \<noteq> (0 :: size_t)"
  shows "pa_clz (mp AND push_bit bitidx msk) < 64 - bitidx"
proof -
  obtain i where i: "i < 64" "bit (mp AND push_bit bitidx msk) i" "pa_clz (mp AND push_bit bitidx msk) = 63 - i"
    using assms by (rule pa_clz_nonzero)
  then have "bitidx \<le> i" by (auto simp: bit_simps)
  then show ?thesis using i by simp
qed

text \<open>The scan of one field.  The source updates \<open>m\<close> incrementally; by its invariant \<open>m\<close> is the mask
  shifted by \<open>bitidx\<close>.\<close>

function find_claim_loop :: "nat \<Rightarrow> nat \<Rightarrow> size_t \<Rightarrow> nat \<Rightarrow> bitmap_state \<Rightarrow> nat option \<times> bitmap_state" where
  "find_claim_loop idx count mp bitidx s =
     (if bitidx \<le> 64 - count then
        let m = push_bit bitidx (pa_bitmap_mask count 0); mapm = mp AND m
        in if mapm = 0 then
             let (ok, mp, s) = atomic_cas idx mp (mp OR m) s
             in if \<not> ok then find_claim_loop idx count mp bitidx s
                else (Some (pa_bitmap_index_create idx bitidx), s)
           else let shift = (if count = 1 then 1 else 64 - pa_clz mapm - bitidx)
                in find_claim_loop idx count mp (bitidx + shift) s
      else (None, s))"
  by pat_completeness auto
termination
proof (relation "measures [\<lambda>(idx, count, mp, bitidx, s). 2 * length (bm_env s) + of_bool (bm s ! idx \<noteq> mp),
    \<lambda>(idx, count, mp, bitidx, s). 65 - bitidx]", goal_cases)
  case (2 idx count mp bitidx s m mapm x ok y mp' s')
  then have "atomic_cas idx mp (mp OR m) s = (False, mp', s')" by (auto split: prod.splits)
  from atomic_cas_fail [OF this] show ?case by simp
next
  case (3 idx count mp bitidx s m mapm shift)
  then have "pa_clz mapm < 64 - bitidx" using clz_shift_progress [of mp bitidx "pa_bitmap_mask count 0"] by simp
  then show ?case using 3 by auto
qed simp

definition pa_bitmap_try_find_claim_field :: "nat \<Rightarrow> nat \<Rightarrow> bitmap_state \<Rightarrow> nat option \<times> bitmap_state" where
  "pa_bitmap_try_find_claim_field idx count s =
     (let (mp, s) = atomic_load idx s
      in if mp = NOT 0 then (None, s) else find_claim_loop idx count mp (pa_ctz (NOT mp)) s)"

text \<open>The loop over the fields that all searching functions share: start at \<open>idx\<close>, wrap around, and visit
  \<open>n\<close> fields until one attempt succeeds.\<close>

fun visit_fields :: "(nat \<Rightarrow> bitmap_state \<Rightarrow> nat option \<times> bitmap_state) \<Rightarrow> nat \<Rightarrow> nat \<Rightarrow> nat \<Rightarrow> bitmap_state
    \<Rightarrow> nat option \<times> bitmap_state" where
  "visit_fields try_field bitmap_fields 0 idx s = (None, s)"
| "visit_fields try_field bitmap_fields (Suc n) idx s =
     (let idx = (if bitmap_fields \<le> idx then 0 else idx); (r, s) = try_field idx s
      in case r of Some b \<Rightarrow> (Some b, s) | None \<Rightarrow> visit_fields try_field bitmap_fields n (idx + 1) s)"

definition pa_bitmap_try_find_from_claim :: "nat \<Rightarrow> nat \<Rightarrow> nat \<Rightarrow> bitmap_state \<Rightarrow> nat option \<times> bitmap_state" where
  "pa_bitmap_try_find_from_claim bitmap_fields start_field_idx count s =
     visit_fields (\<lambda>idx. pa_bitmap_try_find_claim_field idx count) bitmap_fields bitmap_fields start_field_idx s"

definition pa_bitmap_unclaim :: "nat \<Rightarrow> nat \<Rightarrow> bitmap_state \<Rightarrow> bool \<times> bitmap_state" where
  "pa_bitmap_unclaim count bitmap_idx s =
     (let idx = pa_bitmap_index_field bitmap_idx; bitidx = pa_bitmap_index_bit_in_field bitmap_idx;
          msk = pa_bitmap_mask count bitidx;
          (prev, s) = atomic_and idx (NOT msk) s
      in (prev AND msk = msk, s))"

definition try_field_pred :: "nat \<Rightarrow> (nat \<Rightarrow> bool) option \<Rightarrow> nat \<Rightarrow> bitmap_state \<Rightarrow> nat option \<times> bitmap_state" where
  "try_field_pred count pred idx s =
     (let (r, s) = pa_bitmap_try_find_claim_field idx count s
      in case r of
           Some b \<Rightarrow>
             if (case pred of None \<Rightarrow> True | Some f \<Rightarrow> f b) then (Some b, s)
             else let (_, s) = pa_bitmap_unclaim count b s in (None, s)
         | None \<Rightarrow> (None, s))"

definition pa_bitmap_try_find_from_claim_pred ::
    "nat \<Rightarrow> nat \<Rightarrow> nat \<Rightarrow> (nat \<Rightarrow> bool) option \<Rightarrow> bitmap_state \<Rightarrow> nat option \<times> bitmap_state" where
  "pa_bitmap_try_find_from_claim_pred bitmap_fields start_field_idx count pred s =
     visit_fields (try_field_pred count pred) bitmap_fields bitmap_fields start_field_idx s"

definition pa_bitmap_claim :: "nat \<Rightarrow> nat \<Rightarrow> bitmap_state \<Rightarrow> bool \<times> bool \<times> bitmap_state" where
  "pa_bitmap_claim count bitmap_idx s =
     (let idx = pa_bitmap_index_field bitmap_idx; bitidx = pa_bitmap_index_bit_in_field bitmap_idx;
          msk = pa_bitmap_mask count bitidx;
          (prev, s) = atomic_or idx msk s
      in (prev AND msk = 0, prev AND msk \<noteq> msk, s))"

definition pa_bitmap_is_claimedx :: "nat \<Rightarrow> nat \<Rightarrow> bitmap_state \<Rightarrow> bool \<times> bool \<times> bitmap_state" where
  "pa_bitmap_is_claimedx count bitmap_idx s =
     (let idx = pa_bitmap_index_field bitmap_idx; bitidx = pa_bitmap_index_bit_in_field bitmap_idx;
          msk = pa_bitmap_mask count bitidx;
          (field, s) = atomic_load idx s
      in (field AND msk = msk, field AND msk \<noteq> 0, s))"

text \<open>The compare-and-swap loop that sets a mask whose bits must all be clear.\<close>

function cas_claim_loop :: "nat \<Rightarrow> size_t \<Rightarrow> size_t \<Rightarrow> bitmap_state \<Rightarrow> bool \<times> bitmap_state" where
  "cas_claim_loop idx msk expected s =
     (if expected AND msk \<noteq> 0 then (False, s)
      else let (ok, expected, s) = atomic_cas idx expected (expected OR msk) s
           in if ok then (True, s) else cas_claim_loop idx msk expected s)"
  by pat_completeness auto
termination
proof (relation "measure (\<lambda>(idx, msk, expected, s). 2 * length (bm_env s) + of_bool (bm s ! idx \<noteq> expected))", goal_cases)
  case (2 idx msk expected s x ok y expected' s')
  then have "atomic_cas idx expected (expected OR msk) s = (False, expected', s')" by (auto split: prod.splits)
  from atomic_cas_fail [OF this] show ?case by simp
qed simp

definition pa_bitmap_try_claim :: "nat \<Rightarrow> nat \<Rightarrow> bitmap_state \<Rightarrow> bool \<times> bitmap_state" where
  "pa_bitmap_try_claim count bitmap_idx s =
     (let idx = pa_bitmap_index_field bitmap_idx; bitidx = pa_bitmap_index_bit_in_field bitmap_idx;
          msk = pa_bitmap_mask count bitidx;
          (expected, s) = atomic_load idx s
      in cas_claim_loop idx msk expected s)"

section \<open>Claims across fields\<close>

function scan_ahead :: "nat \<Rightarrow> nat \<Rightarrow> nat \<Rightarrow> size_t \<Rightarrow> bitmap_state \<Rightarrow> (nat \<times> size_t) option \<times> bitmap_state" where
  "scan_ahead field found count msk s =
     (if found < count then
        let field = field + 1;
            (mp, s) = atomic_load field s;
            mask_bits = (if found + 64 \<le> count then 64 else count - found);
            msk = pa_bitmap_mask mask_bits 0
        in if mp AND msk \<noteq> 0 then (None, s)
           else scan_ahead field (found + mask_bits) count msk s
      else (Some (field, msk), s))"
  by pat_completeness auto
termination by (relation "measure (\<lambda>(field, found, count, msk, s). count - found)") auto

text \<open>Claiming the intermediate fields: the result is the field where a claim failed, if one did.\<close>

function claim_mid :: "nat \<Rightarrow> nat \<Rightarrow> bitmap_state \<Rightarrow> nat option \<times> bitmap_state" where
  "claim_mid field final_field s =
     (if field < final_field then
        let (ok, _, s) = atomic_cas field 0 (NOT 0) s
        in if \<not> ok then (Some field, s) else claim_mid (field + 1) final_field s
      else (None, s))"
  by pat_completeness auto
termination by (relation "measure (\<lambda>(field, final_field, s). final_field - field)") auto

text \<open>The compare-and-swap loop that clears a mask.\<close>

function cas_clear_loop :: "nat \<Rightarrow> size_t \<Rightarrow> size_t \<Rightarrow> bitmap_state \<Rightarrow> bitmap_state" where
  "cas_clear_loop idx msk mp s =
     (let (ok, mp, s) = atomic_cas idx mp (mp AND NOT msk) s
      in if ok then s else cas_clear_loop idx msk mp s)"
  by pat_completeness auto
termination
proof (relation "measure (\<lambda>(idx, msk, mp, s). 2 * length (bm_env s) + of_bool (bm s ! idx \<noteq> mp))", goal_cases)
  case (2 idx msk mp s x ok y mp' s')
  then have "atomic_cas idx mp (mp AND NOT msk) s = (False, mp', s')" by (auto split: prod.splits)
  from atomic_cas_fail [OF this] show ?case by simp
qed simp

fun rollback :: "nat \<Rightarrow> nat \<Rightarrow> size_t \<Rightarrow> bitmap_state \<Rightarrow> bitmap_state" where
  "rollback initial_field 0 initial_mask s = s"
| "rollback initial_field (Suc field) initial_mask s =
     (if initial_field < field then rollback initial_field field initial_mask (atomic_store field 0 s)
      else if field = initial_field
      then let (mp, s) = atomic_load field s in cas_clear_loop field initial_mask mp s
      else s)"

text \<open>One attempt: the outcome is a claimed index, no suitable range, or a rollback after which the
  source retries.\<close>

datatype attempt = Claimed nat | NotFound | RolledBack

definition claim_range :: "nat \<Rightarrow> nat \<Rightarrow> nat \<Rightarrow> size_t \<Rightarrow> bitmap_state \<Rightarrow> attempt \<times> bitmap_state" where
  "claim_range idx initial final_field final_mask s =
     (let initial_idx = 64 - initial; initial_mask = pa_bitmap_mask initial initial_idx;
          (mp, s) = atomic_load idx s;
          (ok, s) = cas_claim_loop idx initial_mask mp s
      in if \<not> ok then (RolledBack, rollback idx idx initial_mask s)
      else let (failed, s) = claim_mid (idx + 1) final_field s
      in case failed of
           Some field \<Rightarrow> (RolledBack, rollback idx field initial_mask s)
         | None \<Rightarrow>
             let (mp, s) = atomic_load final_field s;
                 (ok, s) = cas_claim_loop final_field final_mask mp s
             in if \<not> ok then (RolledBack, rollback idx final_field initial_mask s)
                else (Claimed (pa_bitmap_index_create idx initial_idx), s))"

definition claim_across_attempt :: "nat \<Rightarrow> nat \<Rightarrow> nat \<Rightarrow> bitmap_state \<Rightarrow> attempt \<times> bitmap_state" where
  "claim_across_attempt bitmap_fields idx count s =
     (let (mp, s) = atomic_load idx s; initial = pa_clz mp
      in if initial = 0 then (NotFound, s)
      else if count \<le> initial then
        let (r, s) = pa_bitmap_try_find_claim_field idx count s
        in (case r of Some b \<Rightarrow> Claimed b | None \<Rightarrow> NotFound, s)
      else if bitmap_fields - idx \<le> unat (pa_divide_up (of_nat (count - initial)) 64) then (NotFound, s)
      else let (r, s) = scan_ahead idx initial count 0 s
      in case r of
           None \<Rightarrow> (NotFound, s)
         | Some (final_field, final_mask) \<Rightarrow> claim_range idx initial final_field final_mask s)"

function pa_bitmap_try_find_claim_field_across ::
    "nat \<Rightarrow> nat \<Rightarrow> nat \<Rightarrow> nat \<Rightarrow> bitmap_state \<Rightarrow> nat option \<times> bitmap_state" where
  "pa_bitmap_try_find_claim_field_across bitmap_fields idx count retries s =
     (let (r, s) = claim_across_attempt bitmap_fields idx count s
      in case r of
           Claimed b \<Rightarrow> (Some b, s)
         | NotFound \<Rightarrow> (None, s)
         | RolledBack \<Rightarrow>
             if retries \<le> 2
             then pa_bitmap_try_find_claim_field_across bitmap_fields idx count (retries + 1) s
             else (None, s))"
  by pat_completeness auto
termination by (relation "measure (\<lambda>(bitmap_fields, idx, count, retries, s). 4 - retries)") auto

declare find_claim_loop.simps [simp del] cas_claim_loop.simps [simp del] scan_ahead.simps [simp del]
  claim_mid.simps [simp del] cas_clear_loop.simps [simp del] pa_bitmap_try_find_claim_field_across.simps [simp del]

definition pa_bitmap_try_find_from_claim_across :: "nat \<Rightarrow> nat \<Rightarrow> nat \<Rightarrow> bitmap_state \<Rightarrow> nat option \<times> bitmap_state" where
  "pa_bitmap_try_find_from_claim_across bitmap_fields start_field_idx count s =
     (if count \<le> 2 then pa_bitmap_try_find_from_claim bitmap_fields start_field_idx count s
      else visit_fields (\<lambda>idx. pa_bitmap_try_find_claim_field_across bitmap_fields idx count 0)
             bitmap_fields bitmap_fields start_field_idx s)"

definition pa_bitmap_mask_across :: "nat \<Rightarrow> nat \<Rightarrow> nat \<times> size_t \<times> size_t \<times> size_t" where
  "pa_bitmap_mask_across bitmap_idx count =
     (let bitidx = pa_bitmap_index_bit_in_field bitmap_idx
      in if bitidx + count \<le> 64 then (0, pa_bitmap_mask count bitidx, 0, 0)
         else let pre_bits = 64 - bitidx; count = count - pre_bits
              in (count div 64, pa_bitmap_mask pre_bits bitidx, NOT 0,
                  if count mod 64 = 0 then 0 else pa_bitmap_mask (count mod 64) 0))"

fun unclaim_mid :: "nat \<Rightarrow> nat \<Rightarrow> size_t \<Rightarrow> bool \<Rightarrow> bitmap_state \<Rightarrow> bool \<times> nat \<times> bitmap_state" where
  "unclaim_mid 0 field msk all_one s = (all_one, field, s)"
| "unclaim_mid (Suc n) field msk all_one s =
     (let (prev, s) = atomic_and field (NOT msk) s
      in unclaim_mid n (field + 1) msk (if prev AND msk \<noteq> msk then False else all_one) s)"

definition pa_bitmap_unclaim_across :: "nat \<Rightarrow> nat \<Rightarrow> bitmap_state \<Rightarrow> bool \<times> bitmap_state" where
  "pa_bitmap_unclaim_across count bitmap_idx s =
     (let idx = pa_bitmap_index_field bitmap_idx;
          (mid_count, pre_mask, mid_mask, post_mask) = pa_bitmap_mask_across bitmap_idx count;
          (prev, s) = atomic_and idx (NOT pre_mask) s;
          (all_one, field, s) = unclaim_mid mid_count (idx + 1) mid_mask (prev AND pre_mask = pre_mask) s
      in if post_mask \<noteq> 0
         then let (prev, s) = atomic_and field (NOT post_mask) s
              in (if prev AND post_mask \<noteq> post_mask then False else all_one, s)
         else (all_one, s))"

text \<open>The accumulators of \<open>_pa_bitmap_claim_across\<close>: all zero, any zero, number of ones found.\<close>

type_synonym bit_summary = "bool \<times> bool \<times> nat"

definition claim_note :: "size_t \<Rightarrow> size_t \<Rightarrow> bit_summary \<Rightarrow> bit_summary" where
  "claim_note prev msk = (\<lambda>(all_zero, any_zero, one_count).
     (if prev AND msk \<noteq> 0 then False else all_zero,
      if prev AND msk \<noteq> msk then True else any_zero,
      if prev AND msk \<noteq> 0 then one_count + unat (pa_popcount (prev AND msk)) else one_count))"

fun claim_mid_across :: "nat \<Rightarrow> nat \<Rightarrow> size_t \<Rightarrow> bit_summary \<Rightarrow> bitmap_state \<Rightarrow> bit_summary \<times> nat \<times> bitmap_state" where
  "claim_mid_across 0 field msk acc s = (acc, field, s)"
| "claim_mid_across (Suc n) field msk acc s =
     (let (prev, s) = atomic_or field msk s
      in claim_mid_across n (field + 1) msk (claim_note prev msk acc) s)"

definition pa_bitmap_claim_across :: "nat \<Rightarrow> nat \<Rightarrow> bitmap_state \<Rightarrow> bit_summary \<times> bitmap_state" where
  "pa_bitmap_claim_across count bitmap_idx s =
     (let idx = pa_bitmap_index_field bitmap_idx;
          (mid_count, pre_mask, mid_mask, post_mask) = pa_bitmap_mask_across bitmap_idx count;
          (prev, s) = atomic_or idx pre_mask s;
          acc = claim_note prev pre_mask (True, False, 0);
          (acc, field, s) = claim_mid_across mid_count (idx + 1) mid_mask acc s
      in if post_mask \<noteq> 0
         then let (prev, s) = atomic_or field post_mask s in (claim_note prev post_mask acc, s)
         else (acc, s))"

definition claimed_note :: "size_t \<Rightarrow> size_t \<Rightarrow> bit_summary \<Rightarrow> bit_summary" where
  "claimed_note prev msk = (\<lambda>(all_ones, any_ones, one_count).
     (if prev AND msk \<noteq> msk then False else all_ones,
      if prev AND msk \<noteq> 0 then True else any_ones,
      if prev AND msk \<noteq> 0 then one_count + unat (pa_popcount (prev AND msk)) else one_count))"

fun claimed_mid_across :: "nat \<Rightarrow> nat \<Rightarrow> size_t \<Rightarrow> bit_summary \<Rightarrow> bitmap_state \<Rightarrow> bit_summary \<times> nat \<times> bitmap_state" where
  "claimed_mid_across 0 field msk acc s = (acc, field, s)"
| "claimed_mid_across (Suc n) field msk acc s =
     (let (prev, s) = atomic_load field s
      in claimed_mid_across n (field + 1) msk (claimed_note prev msk acc) s)"

definition pa_bitmap_is_claimedx_across :: "nat \<Rightarrow> nat \<Rightarrow> bitmap_state \<Rightarrow> bit_summary \<times> bitmap_state" where
  "pa_bitmap_is_claimedx_across count bitmap_idx s =
     (let idx = pa_bitmap_index_field bitmap_idx;
          (mid_count, pre_mask, mid_mask, post_mask) = pa_bitmap_mask_across bitmap_idx count;
          (prev, s) = atomic_load idx s;
          acc = claimed_note prev pre_mask (True, False, 0);
          (acc, field, s) = claimed_mid_across mid_count (idx + 1) mid_mask acc s
      in if post_mask \<noteq> 0
         then let (prev, s) = atomic_load field s in (claimed_note prev post_mask acc, s)
         else (acc, s))"

section \<open>Ownership\<close>

text \<open>The bits of field \<open>i\<close> selected by a mask, and the bits this thread owns: those set and not owned by
  another thread.\<close>

definition fbits :: "nat \<Rightarrow> size_t \<Rightarrow> nat set" where
  "fbits i m = {k. k div 64 = i \<and> bit m (k mod 64)}"

definition own :: "bitmap_state \<Rightarrow> nat set" where
  "own s = bits_of (bm s) - bits_of (bm_others s)"

definition bitmap_wf :: "bitmap_state \<Rightarrow> bool" where
  "bitmap_wf s \<longleftrightarrow> length (bm_others s) = length (bm s) \<and> bits_of (bm_others s) \<subseteq> bits_of (bm s)"

lemma bits_of_upd: "i < length ws \<Longrightarrow> bits_of (ws[i := w]) = {k \<in> bits_of ws. k div 64 \<noteq> i} \<union> fbits i w"
  by (auto simp: bits_of_decomp fbits_def nth_list_update split: if_splits)

lemma bits_of_field: "i < length ws \<Longrightarrow> k div 64 = i \<Longrightarrow> k \<in> bits_of ws \<longleftrightarrow> bit (ws ! i) (k mod 64)"
  by (auto simp: bits_of_decomp)

lemma fbits_mask:
  assumes "bitidx + count \<le> 64"
  shows "fbits i (pa_bitmap_mask count bitidx) = {64 * i + bitidx..<64 * i + bitidx + count}"
proof (rule set_eqI)
  fix k :: nat
  have k: "k = 64 * (k div 64) + k mod 64" by simp
  have "bit (pa_bitmap_mask count bitidx) j \<longleftrightarrow> j < 64 \<and> bitidx \<le> j \<and> j < bitidx + count" for j
    using assms bit_run_mask [of count bitidx j] by (auto simp: pa_bitmap_mask_def run_mask_def bit_simps)
  then have "k \<in> fbits i (pa_bitmap_mask count bitidx) \<longleftrightarrow>
      k div 64 = i \<and> bitidx \<le> k mod 64 \<and> k mod 64 < bitidx + count"
    by (simp add: fbits_def)
  also have "\<dots> \<longleftrightarrow> k \<in> {64 * i + bitidx..<64 * i + bitidx + count}"
    using word_run_iff [of "k mod 64" i bitidx "k div 64" count] assms by (auto simp: min_def)
  finally show "k \<in> fbits i (pa_bitmap_mask count bitidx) \<longleftrightarrow> k \<in> {64 * i + bitidx..<64 * i + bitidx + count}" .
qed

lemma shifted_mask:
  assumes "bitidx + count \<le> 64"
  shows "push_bit bitidx (pa_bitmap_mask count 0) = pa_bitmap_mask count bitidx"
  using assms by (cases "bitidx = 0") (auto simp: pa_bitmap_mask_def)

lemma own_env_step:
  assumes "bitmap_wf s"
  shows "bitmap_wf (env_step e s) \<and> own (env_step e s) = own s \<and> length (bm (env_step e s)) = length (bm s)"
proof -
  obtain i r c where e: "e = (i, r, c)" by (cases e)
  show ?thesis
  proof (cases "i < length (bm s)")
    case True
    have len: "length (bm_others s) = length (bm s)" using assms by (simp add: bitmap_wf_def)
    have field: "bit (bm_others s ! i) j \<Longrightarrow> bit (bm s ! i) j" if "j < 64" for j
      using assms bits_of_nth [of i "bm s" j] bits_of_nth [of i "bm_others s" j] True len that
      by (auto simp: bitmap_wf_def)
    show ?thesis
      using assms True len field
      by (auto simp: e env_step_def bitmap_wf_def own_def Let_def bits_of_upd fbits_def bit_simps bits_of_field)
  qed (use assms in \<open>simp add: e env_step_def\<close>)
qed

lemma own_interfere:
  assumes "bitmap_wf s"
  shows "bitmap_wf (interfere s)" "own (interfere s) = own s" "length (bm (interfere s)) = length (bm s)"
proof -
  have f: "bitmap_wf s \<Longrightarrow> bitmap_wf (fold env_step e s) \<and> own (fold env_step e s) = own s \<and>
      length (bm (fold env_step e s)) = length (bm s)" for e s
    by (induction e arbitrary: s) (auto simp: own_env_step)
  have drop_env: "bitmap_wf (s\<lparr>bm_env := es\<rparr>) = bitmap_wf s" "own (s\<lparr>bm_env := es\<rparr>) = own s" for es
    by (simp_all add: bitmap_wf_def own_def)
  have "bitmap_wf (interfere s) \<and> own (interfere s) = own s \<and> length (bm (interfere s)) = length (bm s)"
  proof (cases "bm_env s")
    case (Cons e es)
    then show ?thesis using f [of "s\<lparr>bm_env := es\<rparr>" e] assms by (simp add: interfere_def drop_env)
  qed (use assms in \<open>simp add: interfere_def\<close>)
  then show "bitmap_wf (interfere s)" "own (interfere s) = own s" "length (bm (interfere s)) = length (bm s)"
    by simp_all
qed

lemma own_claim:
  assumes "bitmap_wf s" "i < length (bm s)" "bm s ! i AND m = 0"
  shows "bitmap_wf (s\<lparr>bm := (bm s)[i := bm s ! i OR m]\<rparr>)"
    and "own (s\<lparr>bm := (bm s)[i := bm s ! i OR m]\<rparr>) = own s \<union> fbits i m" and "own s \<inter> fbits i m = {}"
proof -
  have free: "bit m j \<Longrightarrow> \<not> bit (bm s ! i) j" if "j < 64" for j
    using assms(3) that by (auto simp: and_mask_eq_0_iff)
  have eq: "bits_of ((bm s)[i := bm s ! i OR m]) = bits_of (bm s) \<union> fbits i m"
    using assms(2) by (auto simp: bits_of_upd fbits_def bit_simps bits_of_field)
  have dis: "bits_of (bm s) \<inter> fbits i m = {}"
    using free assms(2) by (auto simp: fbits_def bits_of_field)
  show "bitmap_wf (s\<lparr>bm := (bm s)[i := bm s ! i OR m]\<rparr>)"
    "own (s\<lparr>bm := (bm s)[i := bm s ! i OR m]\<rparr>) = own s \<union> fbits i m" "own s \<inter> fbits i m = {}"
    using assms(1) dis by (auto simp: bitmap_wf_def own_def eq)
qed

lemma own_release:
  assumes "bitmap_wf s" "i < length (bm s)" "fbits i m \<subseteq> own s"
  shows "bitmap_wf (s\<lparr>bm := (bm s)[i := bm s ! i AND NOT m]\<rparr>)"
    and "own (s\<lparr>bm := (bm s)[i := bm s ! i AND NOT m]\<rparr>) = own s - fbits i m"
proof -
  have eq: "bits_of ((bm s)[i := bm s ! i AND NOT m]) = bits_of (bm s) - fbits i m"
    using assms(2) by (auto simp: bits_of_upd fbits_def bit_simps bits_of_field)
  show "bitmap_wf (s\<lparr>bm := (bm s)[i := bm s ! i AND NOT m]\<rparr>)"
    "own (s\<lparr>bm := (bm s)[i := bm s ! i AND NOT m]\<rparr>) = own s - fbits i m"
    using assms(1,3) by (auto simp: bitmap_wf_def own_def eq)
qed

text \<open>What one atomic access does to ownership.\<close>

lemma atomic_load_own:
  assumes "bitmap_wf s" "atomic_load i s = (v, s')"
  shows "bitmap_wf s'" "own s' = own s" "length (bm s') = length (bm s)" "v = bm s' ! i"
  using assms own_interfere [OF assms(1)] unfolding atomic_load_def Let_def by blast+

lemma atomic_cas_claim_own:
  assumes "bitmap_wf s" "i < length (bm s)" "expected AND m = 0" "atomic_cas i expected (expected OR m) s = (ok, v, s')"
  shows "bitmap_wf s' \<and> length (bm s') = length (bm s) \<and>
    (if ok then own s' = own s \<union> fbits i m \<and> own s \<inter> fbits i m = {} else own s' = own s)"
  using assms own_interfere [OF assms(1)] own_claim [of "interfere s" i m]
  by (auto simp: atomic_cas_def Let_def split: if_splits)

lemma cas_claim_loop_own:
  assumes "bitmap_wf s" "i < length (bm s)" "cas_claim_loop i m expected s = (ok, s')"
  shows "bitmap_wf s' \<and> length (bm s') = length (bm s) \<and>
    (if ok then own s' = own s \<union> fbits i m \<and> own s \<inter> fbits i m = {} else own s' = own s)"
  using assms
proof (induction i m expected s rule: cas_claim_loop.induct)
  case (1 i m expected s)
  note unf = cas_claim_loop.simps [of i m expected s]
  show ?case
  proof (cases "expected AND m = 0")
    case True
    obtain ok1 v s1 where c: "atomic_cas i expected (expected OR m) s = (ok1, v, s1)" by (metis prod_cases3)
    note C = atomic_cas_claim_own [OF "1.prems"(1,2) True c]
    show ?thesis
    proof (cases ok1)
      case T: True
      then show ?thesis using "1.prems"(3) C True c unf by auto
    next
      case False
      then have "cas_claim_loop i m v s1 = (ok, s')" using "1.prems"(3) True c unf by simp
      then show ?thesis using "1.IH" [of "(ok1, v, s1)" ok1 "(v, s1)" v s1] True c False C "1.prems"(2) by (cases ok) auto
    qed
  next
    case False
    then show ?thesis using "1.prems" unf by auto
  qed
qed

text \<open>The contract of the searching functions: on success the thread owns exactly \<open>count\<close> more bits, which
  nobody owned before; on failure it owns what it owned.\<close>

definition claim_ok :: "nat \<Rightarrow> bitmap_state \<Rightarrow> nat option \<Rightarrow> bitmap_state \<Rightarrow> bool" where
  "claim_ok count s r s' \<longleftrightarrow> bitmap_wf s' \<and> length (bm s') = length (bm s) \<and>
     (case r of None \<Rightarrow> own s' = own s
      | Some b \<Rightarrow> b + count \<le> 64 * length (bm s) \<and> own s' = own s \<union> {b..<b + count} \<and> own s \<inter> {b..<b + count} = {})"

lemma claim_ok_after:
  assumes "claim_ok count s1 r s'" "own s1 = own s" "length (bm s1) = length (bm s)"
  shows "claim_ok count s r s'"
  using assms by (cases r) (auto simp: claim_ok_def)

lemma claim_ok_None: "bitmap_wf s' \<Longrightarrow> length (bm s') = length (bm s) \<Longrightarrow> own s' = own s \<Longrightarrow> claim_ok count s None s'"
  by (simp add: claim_ok_def)

lemma find_claim_loop_own:
  assumes "bitmap_wf s" "i < length (bm s)" "0 < count" "count \<le> 64" "find_claim_loop i count mp bitidx s = (r, s')"
  shows "claim_ok count s r s' \<and> (\<forall>b. r = Some b \<longrightarrow> b div 64 = i \<and> b mod 64 + count \<le> 64)"
  using assms
proof (induction i count mp bitidx s rule: find_claim_loop.induct)
  case (1 i count mp bitidx s)
  let ?m = "push_bit bitidx (pa_bitmap_mask count 0)"
  note unf = find_claim_loop.simps [of i count mp bitidx s, unfolded Let_def]
  consider (out) "\<not> bitidx \<le> 64 - count" | (free) "bitidx \<le> 64 - count" "mp AND ?m = 0"
    | (busy) "bitidx \<le> 64 - count" "mp AND ?m \<noteq> 0" by blast
  then show ?case
  proof cases
    case out
    then show ?thesis using "1.prems" unf by (auto intro: claim_ok_None)
  next
    case free
    obtain ok v s1 where c: "atomic_cas i mp (mp OR ?m) s = (ok, v, s1)" by (metis prod_cases3)
    note C = atomic_cas_claim_own [OF "1.prems"(1,2) free(2) c]
    show ?thesis
    proof (cases ok)
      case True
      have fits: "bitidx + count \<le> 64" using free(1) "1.prems"(4) by linarith
      have r: "r = Some (i * 64 + bitidx)" "s' = s1"
        using "1.prems"(5) free c True unf by (auto simp: pa_bitmap_index_create_def)
      have fb: "fbits i ?m = {i * 64 + bitidx..<i * 64 + bitidx + count}"
        using fbits_mask [OF fits, of i] shifted_mask [OF fits] by (simp add: mult.commute)
      have "bitidx < 64" "i * 64 + 64 \<le> length (bm s) * 64" using fits "1.prems"(2,3) by simp_all
      then show ?thesis using C True r fb fits by (simp add: claim_ok_def)
    next
      case False
      then have "find_claim_loop i count v bitidx s1 = (r, s')" using "1.prems"(5) free c unf by simp
      then have "claim_ok count s1 r s' \<and> (\<forall>b. r = Some b \<longrightarrow> b div 64 = i \<and> b mod 64 + count \<le> 64)"
        using "1.IH"(1) [OF free(1) refl refl free(2) c [symmetric] refl refl] False C "1.prems" by simp
      then show ?thesis using C False claim_ok_after [of count s1 r s' s] by simp
    qed
  next
    case busy
    then have "find_claim_loop i count mp (bitidx + (if count = 1 then 1 else 64 - pa_clz (mp AND ?m) - bitidx)) s = (r, s')"
      using "1.prems"(5) unf by simp
    then show ?thesis using "1.IH"(2) [OF busy(1) refl refl busy(2) refl] "1.prems" by simp
  qed
qed

lemma try_find_claim_field_own:
  assumes "bitmap_wf s" "i < length (bm s)" "0 < count" "count \<le> 64" "pa_bitmap_try_find_claim_field i count s = (r, s')"
  shows "claim_ok count s r s' \<and> (\<forall>b. r = Some b \<longrightarrow> b div 64 = i \<and> b mod 64 + count \<le> 64)"
proof -
  obtain v s1 where l: "atomic_load i s = (v, s1)" by fastforce
  note L = atomic_load_own [OF assms(1) l]
  show ?thesis
  proof (cases "v = NOT 0")
    case True
    then show ?thesis using assms(5) l L by (auto simp: pa_bitmap_try_find_claim_field_def intro: claim_ok_None)
  next
    case False
    then have "find_claim_loop i count v (pa_ctz (NOT v)) s1 = (r, s')"
      using assms(5) l by (simp add: pa_bitmap_try_find_claim_field_def)
    from find_claim_loop_own [OF L(1) _ assms(3,4) this] show ?thesis
      using L assms(2) claim_ok_after [of count s1 r s' s] by simp
  qed
qed

text \<open>The client of the searching loop: whatever is tried per field, if each attempt keeps the contract, so does
  the search.\<close>

locale field_search =
  fixes try_field :: "nat \<Rightarrow> nat \<Rightarrow> nat \<Rightarrow> bitmap_state \<Rightarrow> nat option \<times> bitmap_state" and valid :: "nat \<Rightarrow> bool"
  assumes try_field_ok: "valid count \<Longrightarrow> bitmap_wf s \<Longrightarrow> i < length (bm s) \<Longrightarrow>
    try_field (length (bm s)) count i s = (r, s') \<Longrightarrow> claim_ok count s r s'"
begin

lemma visit_fields_ok:
  assumes "valid count"
  shows "bitmap_wf s \<Longrightarrow> length (bm s) = nfields \<Longrightarrow> 0 < nfields \<Longrightarrow>
    visit_fields (try_field nfields count) nfields n idx s = (r, s') \<Longrightarrow> claim_ok count s r s'"
proof (induction n arbitrary: idx s)
  case 0
  then show ?case by (auto intro: claim_ok_None)
next
  case (Suc n)
  let ?i = "if nfields \<le> idx then 0 else idx"
  obtain r1 s1 where f: "try_field nfields count ?i s = (r1, s1)" by fastforce
  have C: "claim_ok count s r1 s1" using try_field_ok [OF assms Suc.prems(1), of ?i r1 s1] f Suc.prems(2,3) by auto
  show ?case
  proof (cases r1)
    case None
    then have s1: "own s1 = own s" "length (bm s1) = length (bm s)" "bitmap_wf s1" using C by (simp_all add: claim_ok_def)
    have "visit_fields (try_field nfields count) nfields n (?i + 1) s1 = (r, s')" using Suc.prems(4) f None by simp
    then have "claim_ok count s1 r s'" using Suc.IH s1 Suc.prems by simp
    then show ?thesis using s1(1,2) by (rule claim_ok_after)
  next
    case (Some b)
    then show ?thesis using Suc.prems(4) f C by simp
  qed
qed

end

lemma atomic_and_own:
  assumes "bitmap_wf s" "i < length (bm s)" "fbits i m \<subseteq> own s" "atomic_and i (NOT m) s = (prev, s')"
  shows "bitmap_wf s'" "length (bm s') = length (bm s)" "own s' = own s - fbits i m" "prev AND m = m"
proof -
  let ?s = "interfere s"
  note I = own_interfere [OF assms(1)]
  have R: "bitmap_wf (?s\<lparr>bm := (bm ?s)[i := bm ?s ! i AND NOT m]\<rparr>)"
    "own (?s\<lparr>bm := (bm ?s)[i := bm ?s ! i AND NOT m]\<rparr>) = own ?s - fbits i m"
    using I assms(2,3) by (intro own_release; simp)+
  have eq: "s' = ?s\<lparr>bm := (bm ?s)[i := bm ?s ! i AND NOT m]\<rparr>" "prev = bm ?s ! i"
    using assms(4) by (auto simp: atomic_and_def Let_def)
  show "bitmap_wf s'" "length (bm s') = length (bm s)" "own s' = own s - fbits i m" using eq R I by simp_all
  have "bit prev j" if "j < 64" "bit m j" for j
  proof -
    have "64 * i + j \<in> fbits i m" using that by (simp add: fbits_def)
    then have "64 * i + j \<in> bits_of (bm ?s)" using assms(3) I(2) by (auto simp: own_def)
    then show ?thesis using bits_of_nth [of i "bm ?s" j] that I(3) assms(2) by (simp add: eq)
  qed
  then show "prev AND m = m" by (simp add: and_mask_eq_mask_iff)
qed

lemma unclaim_own:
  assumes "bitmap_wf s" "b div 64 < length (bm s)" "b mod 64 + count \<le> 64" "{b..<b + count} \<subseteq> own s"
    "pa_bitmap_unclaim count b s = (r, s')"
  shows "bitmap_wf s'" "length (bm s') = length (bm s)" "own s' = own s - {b..<b + count}" "r"
proof -
  let ?m = "pa_bitmap_mask count (b mod 64)"
  have fb: "fbits (b div 64) ?m = {b..<b + count}" using fbits_mask [OF assms(3), of "b div 64"] by simp
  obtain prev s1 where a: "atomic_and (b div 64) (NOT ?m) s = (prev, s1)" by fastforce
  have "s' = s1" "r = (prev AND ?m = ?m)"
    using assms(5) a by (auto simp: pa_bitmap_unclaim_def Let_def pa_bitmap_index_field_def pa_bitmap_index_bit_in_field_def)
  then show "bitmap_wf s'" "length (bm s') = length (bm s)" "own s' = own s - {b..<b + count}" "r"
    using atomic_and_own [OF assms(1,2) _ a] assms(4) fb by simp_all
qed

lemma try_field_pred_own:
  assumes "bitmap_wf s" "i < length (bm s)" "0 < count" "count \<le> 64" "try_field_pred count pred i s = (r, s')"
  shows "claim_ok count s r s'"
proof -
  obtain r1 s1 where f: "pa_bitmap_try_find_claim_field i count s = (r1, s1)" by fastforce
  note C = try_find_claim_field_own [OF assms(1-4) f]
  show ?thesis
  proof (cases r1)
    case None
    then show ?thesis using C assms(5) f by (simp add: try_field_pred_def)
  next
    case (Some b)
    then have c: "bitmap_wf s1" "length (bm s1) = length (bm s)" "own s1 = own s \<union> {b..<b + count}" "own s \<inter> {b..<b + count} = {}"
      "b div 64 = i" "b mod 64 + count \<le> 64" using C by (auto simp: claim_ok_def)
    obtain u s2 where u: "pa_bitmap_unclaim count b s1 = (u, s2)" by fastforce
    have U: "bitmap_wf s2" "length (bm s2) = length (bm s1)" "own s2 = own s1 - {b..<b + count}"
      using unclaim_own [OF c(1) _ c(6) _ u] c assms(2) by auto
    have "own s2 = own s" using U(3) c(3,4) by auto
    then have "claim_ok count s None s2" using U c by (intro claim_ok_None) auto
    then show ?thesis using C assms(5) f Some u by (auto simp: try_field_pred_def split: if_splits)
  qed
qed

lemma fbits_full: "fbits i (NOT 0) = {64 * i..<64 * (i + 1)}"
  using fbits_mask [of 0 64 i] by (simp add: pa_bitmap_mask_def algebra_simps)

lemma fbits_minus_1: "fbits i (- 1) = {64 * i..<64 + 64 * i}"
  using fbits_full [of i] by (simp add: algebra_simps)

lemma scan_ahead_own:
  assumes "bitmap_wf s" "scan_ahead field found count msk s = (r, s')"
  shows "bitmap_wf s' \<and> length (bm s') = length (bm s) \<and> own s' = own s"
  using assms
proof (induction field found count msk s rule: scan_ahead.induct)
  case (1 field found count msk s)
  obtain v s1 where l: "atomic_load (field + 1) s = (v, s1)" by fastforce
  note L = atomic_load_own [OF "1.prems"(1) l]
  let ?n = "if found + 64 \<le> count then 64 else count - found"
  note unf = scan_ahead.simps [of field found count msk s, unfolded Let_def l]
  show ?case
  proof (cases "found < count \<and> v AND pa_bitmap_mask ?n 0 = 0")
    case True
    then have "scan_ahead (field + 1) (found + ?n) count (pa_bitmap_mask ?n 0) s1 = (r, s')" using "1.prems"(2) unf by simp
    then show ?thesis using "1.IH" [OF _ refl l [symmetric] refl refl refl] True L by auto
  next
    case False
    then have "s' = s \<or> s' = s1" using "1.prems"(2) unf by (auto split: if_splits)
    then show ?thesis using L "1.prems"(1) by auto
  qed
qed

lemma scan_ahead_final:
  assumes "found < count" "scan_ahead field found count msk s = (Some (ff, fm), s')"
  shows "\<exists>l. 0 < l \<and> l \<le> 64 \<and> fm = pa_bitmap_mask l 0 \<and> field < ff \<and> 64 * (field + 1) + (count - found) = 64 * ff + l"
  using assms
proof (induction field found count msk s rule: scan_ahead.induct)
  case (1 field found count msk s)
  obtain v s1 where l: "atomic_load (field + 1) s = (v, s1)" by fastforce
  let ?n = "if found + 64 \<le> count then 64 else count - found"
  note unf = scan_ahead.simps [of field found count msk s, unfolded Let_def l]
  have free: "v AND pa_bitmap_mask ?n 0 = 0" using "1.prems" unf by (auto split: if_splits)
  then have nxt: "scan_ahead (field + 1) (found + ?n) count (pa_bitmap_mask ?n 0) s1 = (Some (ff, fm), s')"
    using "1.prems" unf by simp
  show ?case
  proof (cases "found + ?n < count")
    case True
    then have "?n = 64" by auto
    moreover have "\<exists>l. 0 < l \<and> l \<le> 64 \<and> fm = pa_bitmap_mask l 0 \<and> field + 1 < ff \<and> 64 * (field + 1 + 1) + (count - (found + ?n)) = 64 * ff + l"
      using "1.IH" [OF "1.prems"(1) refl l [symmetric] refl refl refl] free True nxt by simp
    ultimately show ?thesis using True by auto
  next
    case False
    then have "ff = field + 1" "fm = pa_bitmap_mask ?n 0" using nxt by (simp_all add: scan_ahead.simps)
    moreover have "count - found = ?n" using False "1.prems"(1) by auto
    ultimately show ?thesis using "1.prems"(1) by (intro exI [of _ ?n]) (auto split: if_splits)
  qed
qed

lemma claim_mid_own:
  assumes "bitmap_wf s" "ff \<le> length (bm s)" "field \<le> ff" "claim_mid field ff s = (r, s')"
  defines "stop \<equiv> (case r of None \<Rightarrow> ff | Some f \<Rightarrow> f)"
  shows "bitmap_wf s' \<and> length (bm s') = length (bm s) \<and> field \<le> stop \<and> stop \<le> ff \<and>
    own s' = own s \<union> {64 * field..<64 * stop} \<and> own s \<inter> {64 * field..<64 * stop} = {}"
  using assms(1-4) unfolding stop_def
proof (induction field ff s rule: claim_mid.induct)
  case (1 field ff s)
  note unf = claim_mid.simps [of field ff s]
  obtain ok v s1 where c: "atomic_cas field 0 (NOT 0) s = (ok, v, s1)" by (metis prod_cases3)
  show ?case
  proof (cases "field < ff")
    case True
    then have "atomic_cas field 0 (0 OR NOT 0) s = (ok, v, s1)" using c by simp
    note C = atomic_cas_claim_own [OF "1.prems"(1) _ _ this, simplified fbits_full]
    show ?thesis
    proof (cases ok)
      case T: True
      then have nxt: "claim_mid (field + 1) ff s1 = (r, s')" using "1.prems"(4) unf c True by simp
      have s1: "bitmap_wf s1" "length (bm s1) = length (bm s)" "own s1 = own s \<union> {64 * field..<64 * (field + 1)}"
        "own s \<inter> {64 * field..<64 * (field + 1)} = {}" using C T True "1.prems"(2) by auto
      let ?stop = "case r of None \<Rightarrow> ff | Some f \<Rightarrow> f"
      have IH: "bitmap_wf s' \<and> length (bm s') = length (bm s1) \<and> field + 1 \<le> ?stop \<and> ?stop \<le> ff \<and>
        own s' = own s1 \<union> {64 * (field + 1)..<64 * ?stop} \<and> own s1 \<inter> {64 * (field + 1)..<64 * ?stop} = {}"
        using "1.IH" [OF True c [symmetric] refl] T nxt s1 "1.prems"(2) True by simp
      have "{64 * field..<64 * ?stop} = {64 * field..<64 * (field + 1)} \<union> {64 * (field + 1)..<64 * ?stop}"
        using IH by auto
      then show ?thesis using IH s1 by (auto simp del: mult_Suc_right)
    next
      case False
      then have "r = Some field" "s' = s1" using "1.prems"(4) unf c True by auto
      then show ?thesis using C False True "1.prems"(2) by simp
    qed
  next
    case False
    then show ?thesis using "1.prems" unf by auto
  qed
qed

lemma cas_clear_loop_own:
  assumes "bitmap_wf s" "i < length (bm s)" "fbits i m \<subseteq> own s" "cas_clear_loop i m mp s = s'"
  shows "bitmap_wf s' \<and> length (bm s') = length (bm s) \<and> own s' = own s - fbits i m"
  using assms
proof (induction i m mp s rule: cas_clear_loop.induct)
  case (1 i m mp s)
  note I = own_interfere [OF "1.prems"(1)]
  have R: "bitmap_wf ((interfere s)\<lparr>bm := (bm (interfere s))[i := bm (interfere s) ! i AND NOT m]\<rparr>)"
    "own ((interfere s)\<lparr>bm := (bm (interfere s))[i := bm (interfere s) ! i AND NOT m]\<rparr>) = own (interfere s) - fbits i m"
    using I "1.prems"(2,3) by (intro own_release; simp)+
  obtain ok v s1 where c: "atomic_cas i mp (mp AND NOT m) s = (ok, v, s1)" by (metis prod_cases3)
  note unf = cas_clear_loop.simps [of i m mp s]
  show ?case
  proof (cases ok)
    case True
    then have "s' = s1" using "1.prems"(4) unf c by simp
    then show ?thesis using c True R I by (auto simp: atomic_cas_def Let_def split: if_splits)
  next
    case False
    then have "s1 = interfere s" using c by (auto simp: atomic_cas_def Let_def split: if_splits)
    then show ?thesis using "1.IH" [OF c [symmetric] refl] False I "1.prems" unf c by simp
  qed
qed

lemma atomic_store_0_own:
  assumes "bitmap_wf s" "i < length (bm s)" "{64 * i..<64 * (i + 1)} \<subseteq> own s"
  shows "bitmap_wf (atomic_store i 0 s)" "length (bm (atomic_store i 0 s)) = length (bm s)"
    "own (atomic_store i 0 s) = own s - {64 * i..<64 * (i + 1)}"
  using own_release [of "interfere s" i "NOT 0"] own_interfere [OF assms(1)] assms(2,3)
  by (simp_all add: atomic_store_def Let_def fbits_minus_1)

lemma rollback_own:
  assumes "bitmap_wf s" "field \<le> length (bm s)" "idx < field"
    "fbits idx m \<subseteq> own s" "{64 * (idx + 1)..<64 * field} \<subseteq> own s"
  shows "bitmap_wf (rollback idx field m s) \<and> length (bm (rollback idx field m s)) = length (bm s) \<and>
    own (rollback idx field m s) = own s - (fbits idx m \<union> {64 * (idx + 1)..<64 * field})"
  using assms
proof (induction idx field m s rule: rollback.induct)
  case (2 idx field m s)
  show ?case
  proof (cases "idx < field")
    case True
    then have "idx + 1 \<le> field" by simp
    then have part: "{64 * (idx + 1)..<64 * Suc field} = {64 * (idx + 1)..<64 * field} \<union> {64 * field..<64 * (field + 1)}"
      using ivl_disj_un_two(3) [of "64 * (idx + 1)" "64 * field" "64 * Suc field"] by simp
    have dis: "fbits idx m \<inter> {64 * field..<64 * (field + 1)} = {}"
      using True by (auto simp: fbits_def)
    have sub: "{64 * field..<64 * (field + 1)} \<subseteq> own s" "{64 * (idx + 1)..<64 * field} \<subseteq> own s" using "2.prems"(5) part by auto
    note S = atomic_store_0_own [OF "2.prems"(1) _ sub(1)]
    have "bitmap_wf (rollback idx field m (atomic_store field 0 s)) \<and>
      length (bm (rollback idx field m (atomic_store field 0 s))) = length (bm (atomic_store field 0 s)) \<and>
      own (rollback idx field m (atomic_store field 0 s)) = own (atomic_store field 0 s) - (fbits idx m \<union> {64 * (idx + 1)..<64 * field})"
      using S "2.prems" True dis sub by (intro "2.IH") auto
    then show ?thesis using True S "2.prems"(2) part by (auto simp del: mult_Suc_right)
  next
    case False
    then have f: "field = idx" using "2.prems"(3) by simp
    obtain v s1 where l: "atomic_load idx s = (v, s1)" by fastforce
    note L = atomic_load_own [OF "2.prems"(1) l]
    have "bitmap_wf (cas_clear_loop idx m v s1) \<and> length (bm (cas_clear_loop idx m v s1)) = length (bm s1) \<and>
      own (cas_clear_loop idx m v s1) = own s1 - fbits idx m"
      using L "2.prems" f by (intro cas_clear_loop_own [OF _ _ _ refl]) auto
    then show ?thesis using f l L by simp
  qed
qed simp

lemma claim_range_own:
  assumes "bitmap_wf s" "0 < initial" "initial \<le> 64" "idx < ff" "ff < length (bm s)" "0 < l" "l \<le> 64"
    and r: "claim_range idx initial ff (pa_bitmap_mask l 0) s = (r, s')"
  defines "b \<equiv> 64 * idx + (64 - initial)"
  shows "bitmap_wf s' \<and> length (bm s') = length (bm s) \<and>
    (case r of Claimed b' \<Rightarrow> b' = b \<and> own s' = own s \<union> {b..<64 * ff + l} \<and> own s \<inter> {b..<64 * ff + l} = {}
     | _ \<Rightarrow> own s' = own s)"
proof -
  let ?im = "pa_bitmap_mask initial (64 - initial)" and ?fm = "pa_bitmap_mask l 0"
  let ?I = "{b..<64 * (idx + 1)}" and ?F = "{64 * ff..<64 * ff + l}"
  have fi: "fbits idx ?im = ?I" using fbits_mask [of "64 - initial" initial idx] assms(3) by (simp add: b_def algebra_simps)
  have ff: "fbits ff ?fm = ?F" using fbits_mask [of 0 l ff] assms(7) by simp
  obtain v s1 where l1: "atomic_load idx s = (v, s1)" by fastforce
  note L1 = atomic_load_own [OF assms(1) l1]
  obtain ok1 s2 where c1: "cas_claim_loop idx ?im v s1 = (ok1, s2)" by fastforce
  have C1: "bitmap_wf s2" "length (bm s2) = length (bm s)"
    "if ok1 then own s2 = own s \<union> ?I \<and> own s \<inter> ?I = {} else own s2 = own s"
    using cas_claim_loop_own [OF L1(1) _ c1] L1 assms(4,5) fi by (simp_all split: if_splits)
  show ?thesis
  proof (cases ok1)
    case False
    have "rollback idx idx ?im s2 = s2" by (cases idx) simp_all
    then have "r = RolledBack" "s' = s2" using r l1 c1 False by (auto simp: claim_range_def Let_def)
    then show ?thesis using C1 False by simp
  next
    case ok1: True
    obtain r2 s3 where c2: "claim_mid (idx + 1) ff s2 = (r2, s3)" by fastforce
    define stop where "stop = (case r2 of None \<Rightarrow> ff | Some f \<Rightarrow> f)"
    let ?M = "{64 * (idx + 1)..<64 * stop}"
    have C2: "bitmap_wf s3" "length (bm s3) = length (bm s)" "idx + 1 \<le> stop" "stop \<le> ff"
      "own s3 = own s \<union> ?I \<union> ?M" "own s \<inter> (?I \<union> ?M) = {}"
      using claim_mid_own [OF C1(1) _ _ c2] C1 ok1 assms(4,5) by (auto simp: stop_def)
    have undo: "bitmap_wf (rollback idx f ?im s4) \<and> length (bm (rollback idx f ?im s4)) = length (bm s) \<and> own (rollback idx f ?im s4) = own s"
      if "f = stop" "bitmap_wf s4" "own s4 = own s3" "length (bm s4) = length (bm s)" for f s4
      using rollback_own [of s4 f idx ?im] that C2 assms(5) unfolding fi by auto
    show ?thesis
    proof (cases r2)
      case (Some f)
      then have "r = RolledBack" "s' = rollback idx f ?im s3" "f = stop"
        using r l1 c1 ok1 c2 by (auto simp: claim_range_def Let_def stop_def)
      then show ?thesis using undo [of f s3] C2 by simp
    next
      case None
      then have stop: "stop = ff" by (simp add: stop_def)
      obtain v3 s4 where l3: "atomic_load ff s3 = (v3, s4)" by fastforce
      note L3 = atomic_load_own [OF C2(1) l3]
      obtain ok3 s5 where c3: "cas_claim_loop ff ?fm v3 s4 = (ok3, s5)" by fastforce
      have C3: "bitmap_wf s5" "length (bm s5) = length (bm s)"
        "if ok3 then own s5 = own s3 \<union> ?F \<and> own s3 \<inter> ?F = {} else own s5 = own s3"
        using cas_claim_loop_own [OF L3(1) _ c3] L3 C2(2) assms(5) ff by (simp_all split: if_splits)
      show ?thesis
      proof (cases ok3)
        case True
        then have res: "r = Claimed b" "s' = s5"
          using r l1 c1 ok1 c2 None l3 c3 by (auto simp: claim_range_def Let_def b_def pa_bitmap_index_create_def)
        have "b \<le> 64 * (idx + 1)" "64 * (idx + 1) \<le> 64 * ff" using C2(3) stop by (simp_all add: b_def)
        then have "?I \<union> ?M \<union> ?F = {b..<64 * ff + l}" unfolding stop by auto
        then show ?thesis using C3 True C2 res by auto
      next
        case False
        then have "r = RolledBack" "s' = rollback idx ff ?im s5"
          using r l1 c1 ok1 c2 None l3 c3 by (auto simp: claim_range_def Let_def)
        then show ?thesis using undo [of ff s5] C3 False stop by simp
      qed
    qed
  qed
qed

lemma claim_across_attempt_own:
  assumes "bitmap_wf s" "idx < length (bm s)" "2 < count" "count < 2 ^ 63"
    and r: "claim_across_attempt (length (bm s)) idx count s = (r, s')"
  shows "claim_ok count s (case r of Claimed b \<Rightarrow> Some b | _ \<Rightarrow> None) s'"
proof -
  obtain v s1 where l: "atomic_load idx s = (v, s1)" by fastforce
  note L = atomic_load_own [OF assms(1) l]
  define initial where "initial = pa_clz v"
  have initial: "initial \<le> 64" by (simp add: initial_def pa_clz_def word_clz_def) (metis length_takeWhile_le length_rev length_upt diff_zero)
  have quiet: "claim_ok count s None s1" using L by (intro claim_ok_None) auto
  let ?need = "unat (pa_divide_up (of_nat (count - initial)) 64)"
  consider (none) "initial = 0" | (inside) "0 < initial" "count \<le> initial"
    | (short) "0 < initial" "\<not> count \<le> initial" "length (bm s) - idx \<le> ?need"
    | (cross) "0 < initial" "initial < count" "?need < length (bm s) - idx" by linarith
  then show ?thesis
  proof cases
    case inside
    obtain r1 s2 where f: "pa_bitmap_try_find_claim_field idx count s1 = (r1, s2)" by fastforce
    then have "r = (case r1 of Some b \<Rightarrow> Claimed b | None \<Rightarrow> NotFound)" "s' = s2"
      using r l inside by (auto simp: claim_across_attempt_def Let_def initial_def)
    moreover have "claim_ok count s1 r1 s2" using try_find_claim_field_own [OF L(1) _ _ _ f] L assms(2,3) inside initial by simp
    ultimately show ?thesis using L claim_ok_after [of count s1 r1 s2 s] by (cases r1) auto
  next
    case cross
    obtain r1 s2 where sc: "scan_ahead idx initial count 0 s1 = (r1, s2)" by fastforce
    have S: "bitmap_wf s2" "length (bm s2) = length (bm s)" "own s2 = own s" using scan_ahead_own [OF L(1) sc] L by auto
    show ?thesis
    proof (cases r1)
      case None
      then have "r = NotFound" "s' = s2" using r l cross sc by (auto simp: claim_across_attempt_def Let_def initial_def)
      then show ?thesis using S by (simp add: claim_ok_None)
    next
      case (Some p)
      obtain ff fm where p: "p = (ff, fm)" by fastforce
      from scan_ahead_final [OF cross(2), of idx 0 s1 ff fm s2] sc Some p
      obtain l where l': "0 < l" "l \<le> 64" "fm = pa_bitmap_mask l 0" "idx < ff" "64 * (idx + 1) + (count - initial) = 64 * ff + l" by auto
      have cr: "claim_range idx initial ff (pa_bitmap_mask l 0) s2 = (r, s')"
        using r l cross sc Some p l'(3) by (simp add: claim_across_attempt_def Let_def initial_def)
      have "?need = (count - initial + 63) div 64"
        using assms(4) by (simp add: pa_divide_up_def unat_div unat_word_ariths unat_of_nat)
      then have "ff < length (bm s)" using cross(3) l' by simp
      moreover have "64 * idx + (64 - initial) + count = 64 * ff + l" using l'(5) initial cross(2) by simp
      moreover have "64 * ff + l \<le> 64 * length (bm s)" using \<open>ff < length (bm s)\<close> l'(2) by linarith
      ultimately show ?thesis
        using claim_range_own [OF S(1) cross(1) initial l'(4) _ l'(1,2) cr] S
        by (cases r) (simp_all add: claim_ok_def)
    qed
  qed (use r l quiet in \<open>auto simp: claim_across_attempt_def Let_def initial_def\<close>)
qed

lemma try_find_claim_field_across_own:
  assumes "bitmap_wf s" "idx < length (bm s)" "2 < count" "count < 2 ^ 63"
    "pa_bitmap_try_find_claim_field_across (length (bm s)) idx count retries s = (r, s')"
  shows "claim_ok count s r s'"
  using assms
proof (induction "4 - retries" arbitrary: retries s rule: less_induct)
  case less
  obtain r1 s1 where a: "claim_across_attempt (length (bm s)) idx count s = (r1, s1)" by fastforce
  note A = claim_across_attempt_own [OF less.prems(1-4) a]
  note unf = pa_bitmap_try_find_claim_field_across.simps [of "length (bm s)" idx count retries s, unfolded a]
  show ?case
  proof (cases "r1 = RolledBack \<and> retries \<le> 2")
    case True
    then have s1: "bitmap_wf s1" "length (bm s1) = length (bm s)" "own s1 = own s" using A by (auto simp: claim_ok_def)
    have "pa_bitmap_try_find_claim_field_across (length (bm s1)) idx count (retries + 1) s1 = (r, s')"
      using less.prems(5) unf True s1 by simp
    then have "claim_ok count s1 r s'" using less.hyps [of "retries + 1" s1] less.prems True s1 by auto
    then show ?thesis by (rule claim_ok_after [OF _ s1(3,2)])
  next
    case False
    then have "(r, s') = ((case r1 of Claimed b \<Rightarrow> Some b | _ \<Rightarrow> None), s1)"
      using less.prems(5) unf by (cases r1) simp_all
    then show ?thesis using A by simp
  qed
qed

interpretation in_field: field_search "\<lambda>_ count i. pa_bitmap_try_find_claim_field i count" "\<lambda>count. 0 < count \<and> count \<le> 64"
  by unfold_locales (use try_find_claim_field_own in blast)

interpretation with_pred: field_search "\<lambda>_ count. try_field_pred count pred" "\<lambda>count. 0 < count \<and> count \<le> 64" for pred
  by unfold_locales (use try_field_pred_own in blast)

interpretation across: field_search "\<lambda>nfields count i. pa_bitmap_try_find_claim_field_across nfields i count 0" "\<lambda>count. 2 < count \<and> count < 2 ^ 63"
  by unfold_locales (use try_find_claim_field_across_own in blast)

lemma find_from_claim_across_own:
  assumes "bitmap_wf s" and "0 < length (bm s)" and "0 < count" "count < 2 ^ 63"
    and "pa_bitmap_try_find_from_claim_across (length (bm s)) start_field_idx count s = (r, s')"
  shows "claim_ok count s r s'"
proof (cases "count \<le> 2")
  case True
  then show ?thesis using in_field.visit_fields_ok [of count s "length (bm s)"] assms
    by (simp add: pa_bitmap_try_find_from_claim_across_def pa_bitmap_try_find_from_claim_def)
next
  case False
  then show ?thesis using across.visit_fields_ok [of count s "length (bm s)"] assms
    by (simp add: pa_bitmap_try_find_from_claim_across_def)
qed

text \<open>C16: arena blocks are claimed exclusively.  Whatever other threads claim and release between its atomic
  accesses, \<open>_pa_bitmap_try_find_from_claim_across\<close> either returns an index such that the thread
  now owns exactly the \<open>count\<close> consecutive bits from it in addition to what it owned, bits that it did not own
  before and that no other thread owns; or it returns false and owns exactly what it owned: a claim that fails
  half way is rolled back without touching bits of other threads.  The loops end under every finite interference.\<close>
theorem bitmap_claim_across_exclusive:
  assumes "bitmap_wf s" and "0 < length (bm s)" and "0 < count" "count < 2 ^ 63"
    and "pa_bitmap_try_find_from_claim_across (length (bm s)) start_field_idx count s = (r, s')"
  shows "bitmap_wf s' \<and> length (bm s') = length (bm s) \<and>
    (case r of
       Some b \<Rightarrow> b + count \<le> 64 * length (bm s) \<and> own s' = own s \<union> {b..<b + count} \<and> own s \<inter> {b..<b + count} = {} \<and>
         {b..<b + count} \<inter> bits_of (bm_others s') = {}
     | None \<Rightarrow> own s' = own s)"
  using find_from_claim_across_own [OF assms] by (cases r) (auto simp: claim_ok_def own_def)

text \<open>A run with interference: two free fields, a request for 70 blocks, and a thread that claims and then releases
  one of the bits while the claim is under way.\<close>

definition demo_bitmap :: bitmap_state where
  "demo_bitmap = \<lparr>bm = [1, 0], bm_others = [1, 0], bm_env = [[], [], [], [(0, 1, 0)]]\<rparr>"

theorem bitmap_claim_across_exclusive_witness:
  "\<exists>s'. pa_bitmap_try_find_from_claim_across 2 0 70 demo_bitmap = (Some 1, s') \<and> own s' = {1..<71}"
proof -
  have run: "pa_bitmap_try_find_from_claim_across 2 0 70 demo_bitmap =
      (Some 1, \<lparr>bm = [0xFFFFFFFFFFFFFFFE, 0x7F], bm_others = [0, 0], bm_env = []\<rparr>)"
    by code_simp
  have "own demo_bitmap = {}" "bitmap_wf demo_bitmap" "length (bm demo_bitmap) = 2"
    by (simp_all add: demo_bitmap_def bitmap_wf_def own_def)
  then show ?thesis using bitmap_claim_across_exclusive [of demo_bitmap 70 0 "Some 1"] run by simp
qed

section \<open>Releasing and marking ranges that cross fields\<close>

text \<open>The three masks of \<open>pa_bitmap_mask_across\<close> cover exactly the range.\<close>

lemma mask_across_range:
  assumes "0 < count" "b + count \<le> 64 * n" "pa_bitmap_mask_across b count = (mid, pre, midm, post)"
  defines "i \<equiv> b div 64"
  shows "{b..<b + count} = fbits i pre \<union> {64 * (i + 1)..<64 * (i + 1 + mid)} \<union> fbits (i + 1 + mid) post"
    and "i + 1 + mid \<le> n" and "post \<noteq> 0 \<Longrightarrow> i + 1 + mid < n" and "0 < mid \<Longrightarrow> midm = NOT 0"
    and "fbits i pre \<subseteq> {64 * i..<64 * (i + 1)}"
proof -
  have b: "b = 64 * i + b mod 64" "b mod 64 < 64" by (simp_all add: i_def)
  have sub: "fbits j m \<subseteq> {64 * j..<64 * (j + 1)}" for j m by (auto simp: fbits_def)
  then show "fbits i pre \<subseteq> {64 * i..<64 * (i + 1)}" .
  show "0 < mid \<Longrightarrow> midm = NOT 0"
    using assms(3) by (auto simp: pa_bitmap_mask_across_def Let_def split: if_splits)
  have main: "{b..<b + count} = fbits i pre \<union> {64 * (i + 1)..<64 * (i + 1 + mid)} \<union> fbits (i + 1 + mid) post \<and>
    i + 1 + mid \<le> n \<and> (post \<noteq> 0 \<longrightarrow> i + 1 + mid < n)"
  proof (cases "b mod 64 + count \<le> 64")
    case True
    then have "mid = 0" "pre = pa_bitmap_mask count (b mod 64)" "post = 0"
      using assms(3) by (auto simp: pa_bitmap_mask_across_def Let_def pa_bitmap_index_bit_in_field_def)
    then show ?thesis using fbits_mask [OF True, of i] b assms(1,2) by (simp add: fbits_def)
  next
    case False
    define c where "c = count - (64 - b mod 64)"
    have eq: "mid = c div 64" "pre = pa_bitmap_mask (64 - b mod 64) (b mod 64)"
      "post = (if c mod 64 = 0 then 0 else pa_bitmap_mask (c mod 64) 0)"
      using assms(3) False by (auto simp: pa_bitmap_mask_across_def Let_def pa_bitmap_index_bit_in_field_def c_def)
    have end_eq: "b + count = 64 * (i + 1 + mid) + c mod 64"
    proof -
      have "64 * mid + c mod 64 = c" by (simp add: eq)
      moreover have "b + count = 64 * (i + 1) + c" using b False by (simp add: c_def)
      ultimately show ?thesis by simp
    qed
    have "64 * i + b mod 64 + (64 - b mod 64) = 64 * (i + 1)" using b(2) by simp
    then have pre: "fbits i pre = {b..<64 * (i + 1)}"
      using fbits_mask [of "b mod 64" "64 - b mod 64" i] b(2) unfolding eq(2) by (simp only: b(1) [symmetric])
    have post: "fbits (i + 1 + mid) post = {64 * (i + 1 + mid)..<64 * (i + 1 + mid) + c mod 64}"
      using fbits_mask [of 0 "c mod 64" "i + 1 + mid"] by (simp add: eq(3) fbits_def)
    have "64 * (i + 1 + mid) + c mod 64 \<le> 64 * n" using assms(2) end_eq by simp
    then have bound: "i + 1 + mid \<le> n" "post \<noteq> 0 \<Longrightarrow> i + 1 + mid < n" by (auto simp: eq(3) split: if_splits)
    have "64 * i + b mod 64 \<le> 64 * (i + 1)" using b(2) by simp
    then have "b \<le> 64 * (i + 1)" by (subst b(1))
    then have "{b..<b + count} = {b..<64 * (i + 1)} \<union> {64 * (i + 1)..<64 * (i + 1 + mid)} \<union> {64 * (i + 1 + mid)..<64 * (i + 1 + mid) + c mod 64}"
      unfolding end_eq by auto
    then show ?thesis using pre post bound by simp
  qed
  then show "{b..<b + count} = fbits i pre \<union> {64 * (i + 1)..<64 * (i + 1 + mid)} \<union> fbits (i + 1 + mid) post"
    "i + 1 + mid \<le> n" "post \<noteq> 0 \<Longrightarrow> i + 1 + mid < n" by simp_all
qed

lemma unclaim_mid_own:
  assumes "bitmap_wf s" "field + n \<le> length (bm s)" "{64 * field..<64 * (field + n)} \<subseteq> own s"
    "unclaim_mid n field (NOT 0) a s = (a', f', s')"
  shows "bitmap_wf s' \<and> length (bm s') = length (bm s) \<and> own s' = own s - {64 * field..<64 * (field + n)} \<and> a' = a \<and> f' = field + n"
  using assms
proof (induction n field "NOT 0 :: size_t" a s rule: unclaim_mid.induct)
  case (2 n field a s)
  have part: "{64 * field..<64 * (field + Suc n)} = {64 * field..<64 * (field + 1)} \<union> {64 * (field + 1)..<64 * (field + 1 + n)}"
    by auto
  obtain prev s1 where c: "atomic_and field (NOT (NOT 0)) s = (prev, s1)" by fastforce
  have A: "bitmap_wf s1" "length (bm s1) = length (bm s)" "own s1 = own s - {64 * field..<64 * (field + 1)}" "prev = NOT 0"
    using atomic_and_own [OF "2.prems"(1) _ _ c] "2.prems"(2,3) part by (auto simp: fbits_minus_1)
  have dis: "{64 * field..<64 * (field + 1)} \<inter> {64 * (field + 1)..<64 * (field + 1 + n)} = {}" by auto
  have "bitmap_wf s' \<and> length (bm s') = length (bm s1) \<and> own s' = own s1 - {64 * (field + 1)..<64 * (field + 1 + n)} \<and>
    a' = (if prev AND NOT 0 \<noteq> NOT 0 then False else a) \<and> f' = field + 1 + n"
  proof (rule "2.hyps" [OF c [symmetric] refl])
    show "{64 * (field + 1)..<64 * (field + 1 + n)} \<subseteq> own s1" using A(3) "2.prems"(3) part dis by blast
  qed (use A "2.prems" c in auto)
  then show ?case using A part by auto
qed auto

lemma unclaim_across_own:
  assumes "bitmap_wf s" "0 < count" "b + count \<le> 64 * length (bm s)" "{b..<b + count} \<subseteq> own s"
    "pa_bitmap_unclaim_across count b s = (r, s')"
  shows "bitmap_wf s' \<and> length (bm s') = length (bm s) \<and> own s' = own s - {b..<b + count} \<and> r"
proof -
  obtain mid pre midm post where m: "pa_bitmap_mask_across b count = (mid, pre, midm, post)" by (metis prod_cases4)
  let ?i = "b div 64"
  note M = mask_across_range [OF assms(2,3) m]
  let ?P = "fbits ?i pre" and ?M = "{64 * (?i + 1)..<64 * (?i + 1 + mid)}" and ?Q = "fbits (?i + 1 + mid) post"
  have dis: "?P \<inter> ?M = {}" "?Q \<inter> (?P \<union> ?M) = {}" using M(5) by (auto simp: fbits_def)
  obtain p1 s1 where c1: "atomic_and ?i (NOT pre) s = (p1, s1)" by fastforce
  have A1: "bitmap_wf s1" "length (bm s1) = length (bm s)" "own s1 = own s - ?P" "p1 AND pre = pre"
    using atomic_and_own [OF assms(1) _ _ c1] M(1,2) assms(4) by auto
  obtain a2 f2 s2 where c2: "unclaim_mid mid (?i + 1) midm (p1 AND pre = pre) s1 = (a2, f2, s2)" by (metis prod_cases3)
  have A2: "bitmap_wf s2" "length (bm s2) = length (bm s)" "own s2 = own s - ?P - ?M" "a2" "f2 = ?i + 1 + mid"
  proof -
    have "bitmap_wf s2 \<and> length (bm s2) = length (bm s1) \<and> own s2 = own s1 - ?M \<and> a2 = True \<and> f2 = ?i + 1 + mid"
    proof (cases "mid = 0")
      case True
      then show ?thesis using c2 A1 by auto
    next
      case False
      then have "unclaim_mid mid (?i + 1) (NOT 0) True s1 = (a2, f2, s2)" using c2 M(4) A1(4) by simp
      moreover have "?M \<subseteq> own s1" using A1(3) M(1) assms(4) dis(1) by blast
      ultimately show ?thesis using M(2) A1(2)
        unclaim_mid_own [OF A1(1), of "?i + 1" mid True a2 f2 s2] by (simp only: simp_thms)
    qed
    then show "bitmap_wf s2" "length (bm s2) = length (bm s)" "own s2 = own s - ?P - ?M" "a2" "f2 = ?i + 1 + mid"
      using A1(2,3) by (simp_all only: conj_commute simp_thms)
  qed
  show ?thesis
  proof (cases "post = 0")
    case True
    then have "r = a2" "s' = s2" "?Q = {}"
      using assms(5) m c1 c2 by (auto simp: pa_bitmap_unclaim_across_def Let_def pa_bitmap_index_field_def fbits_def)
    moreover have "own s - ?P - ?M = own s - (?P \<union> ?M \<union> {})" by blast
    ultimately show ?thesis using A2 unfolding M(1) by simp
  next
    case False
    obtain p3 s3 where c3: "atomic_and f2 (NOT post) s2 = (p3, s3)" by fastforce
    have A3: "bitmap_wf s3" "length (bm s3) = length (bm s)" "own s3 = own s2 - ?Q" "p3 AND post = post"
    proof -
      have "f2 < length (bm s2)" using A2(2,5) M(3) False by simp
      moreover have "fbits f2 post \<subseteq> own s2" using A2(3) dis(2) assms(4) unfolding M(1) A2(5) by blast
      ultimately show "bitmap_wf s3" "length (bm s3) = length (bm s)" "own s3 = own s2 - ?Q" "p3 AND post = post"
        using atomic_and_own [OF A2(1) _ _ c3] A2(2) unfolding A2(5) by simp_all
    qed
    have "r = a2" "s' = s3"
      using assms(5) m c1 c2 c3 False A3(4) by (auto simp: pa_bitmap_unclaim_across_def Let_def pa_bitmap_index_field_def)
    moreover have "own s - ?P - ?M - ?Q = own s - (?P \<union> ?M \<union> ?Q)" by blast
    ultimately show ?thesis using A2(3,4) A3 unfolding M(1) by simp
  qed
qed

text \<open>C18: releasing arena blocks.  \<open>_pa_bitmap_unclaim_across\<close> on a range this thread owns reports that all
  bits were set and leaves the thread with exactly the other bits it owned, also when the range crosses fields
  and whatever the other threads do in between; so a release undoes a claim.\<close>
theorem bitmap_unclaim_across_releases:
  assumes "bitmap_wf s" and "0 < count" and "b + count \<le> 64 * length (bm s)" and "{b..<b + count} \<subseteq> own s"
    and "pa_bitmap_unclaim_across count b s = (r, s')"
  shows "r \<and> bitmap_wf s' \<and> own s' = own s - {b..<b + count}"
  using unclaim_across_own [OF assms] by simp

theorem bitmap_unclaim_across_releases_witness:
  "own (snd (pa_bitmap_unclaim_across 70 1 \<lparr>bm = [NOT 0, NOT 0], bm_others = [0, 0], bm_env = [[(0, 1, 0)]]\<rparr>)) = {..<128} - {1..<71}"
proof -
  let ?s = "\<lparr>bm = [NOT 0, NOT 0 :: size_t], bm_others = [0, 0], bm_env = [[(0, 1, 0)]]\<rparr>"
  have b: "bits_of [NOT 0, NOT 0 :: size_t] = {..<128}" "bits_of [0, 0 :: size_t] = {}"
    using bits_of_full_iff [of "[NOT 0, NOT 0]" 2] bits_of_empty_iff [of "[0, 0]" 2] by (auto simp: less_Suc_eq nth_Cons' eval_nat_numeral)
  have o: "own ?s = {..<128}" by (simp only: own_def bitmap_state.select_convs b) simp
  have wf: "bitmap_wf ?s" by (simp only: bitmap_wf_def bitmap_state.select_convs b) simp
  obtain r s' where u: "pa_bitmap_unclaim_across 70 1 ?s = (r, s')" by fastforce
  have "{1..<1 + 70} \<subseteq> own ?s" unfolding o by auto
  from bitmap_unclaim_across_releases [OF wf _ _ this u] have "own s' = {..<128} - {1..<71}" unfolding o by simp
  then show ?thesis unfolding u by simp
qed

section \<open>Counting marked bits\<close>

lemma card_bits_popcount: "card {j. bit x j} = word_popcount x" for x :: size_t
proof -
  have set_eq: "{j. bit x j} = set (filter (bit x) [0..<64])" by (auto dest: bit_imp_le_length)
  show ?thesis unfolding set_eq word_popcount_def by (subst distinct_card) simp_all
qed

lemma unat_pa_popcount: "unat (pa_popcount x) = card {j. bit x j}"
proof -
  have le: "word_popcount x \<le> 64" using length_filter_le [of "bit x" "[0..<64]"] by (simp add: word_popcount_def)
  consider "x = 0" | "x = 1" | "x = - 1" | (other) "\<not> x \<le> 1" "x \<noteq> - 1"
  proof (cases "x \<le> 1")
    case True
    then have "unat x \<le> 1" by (simp add: word_le_nat_alt)
    then have "unat x = 0 \<or> unat x = 1" by linarith
    then show ?thesis using that(1,2) by (auto simp: word_unat_eq_iff)
  qed (use that in blast)
  then show ?thesis
  proof cases
    case 2
    have "{j. bit (1 :: size_t) j} = {0}" by (auto simp: bit_1_iff)
    then show ?thesis using 2 by (simp add: pa_popcount_def)
  next
    case 3
    have "{j. bit (- 1 :: size_t) j} = {..<64}" by (auto simp: bit_simps)
    moreover have "pa_popcount (- 1) = 64" by (simp add: pa_popcount_def word_le_nat_alt)
    ultimately show ?thesis using 3 by simp
  next
    case other
    then have "pa_popcount x = of_nat (word_popcount x)" by (simp add: pa_popcount_def)
    moreover have "word_popcount x < 2 ^ LENGTH(64)" using le by simp
    ultimately show ?thesis using le by (simp add: card_bits_popcount unat_of_nat)
  qed (simp add: pa_popcount_def)
qed

text \<open>The summary of a set of bits \<open>R\<close> in a bitmap with the set bits \<open>B\<close>.\<close>

definition summary_claim :: "nat set \<Rightarrow> nat set \<Rightarrow> bit_summary" where
  "summary_claim B R = (B \<inter> R = {}, \<not> R \<subseteq> B, card (B \<inter> R))"

lemma finite_fbits [simp]: "finite (fbits i m)"
  by (rule finite_subset [of _ "{64 * i..<64 * (i + 1)}"]) (auto simp: fbits_def)

lemma card_fbits: "card (fbits i m) = card {j. bit m j}"
proof -
  have "fbits i m = (+) (64 * i) ` {j. bit m j}"
  proof (rule set_eqI)
    fix k :: nat
    have "k = 64 * (k div 64) + k mod 64" by simp
    then have "k \<in> (+) (64 * i) ` {j. bit m j}" if "k div 64 = i" "bit m (k mod 64)"
      using that by (metis (mono_tags) imageI mem_Collect_eq)
    moreover have "k div 64 = i \<and> bit m (k mod 64)" if "k \<in> (+) (64 * i) ` {j. bit m j}"
    proof -
      from that obtain j where "k = 64 * i + j" "bit m j" by blast
      moreover have "j < 64" using bit_imp_le_length [OF \<open>bit m j\<close>] by simp
      ultimately show ?thesis by simp
    qed
    ultimately show "k \<in> fbits i m \<longleftrightarrow> k \<in> (+) (64 * i) ` {j. bit m j}" by (auto simp: fbits_def)
  qed
  then show ?thesis by (simp add: card_image)
qed

lemma fbits_and: "fbits i (x AND y) = fbits i x \<inter> fbits i y"
  by (auto simp: fbits_def bit_simps)

lemma fbits_inject: "fbits i x = fbits i y \<longleftrightarrow> x = y"
proof
  assume eq: "fbits i x = fbits i y"
  show "x = y"
  proof (rule bit_word_eqI)
    fix j assume "j < LENGTH(64)"
    then have "(64 * i + j \<in> fbits i z) = bit z j" for z by (simp add: fbits_def)
    then show "bit x j = bit y j" using eq by metis
  qed
qed simp

lemma claim_note_summary:
  assumes "finite R" "R \<inter> fbits i m = {}" "B \<inter> fbits i m = fbits i w \<inter> fbits i m"
  shows "claim_note w m (summary_claim B R) = summary_claim B (R \<union> fbits i m)"
proof -
  have z: "w AND m = 0 \<longleftrightarrow> B \<inter> fbits i m = {}" using fbits_inject [of i "w AND m" 0] assms(3) by (simp add: fbits_and fbits_def [of _ 0])
  have f: "w AND m = m \<longleftrightarrow> fbits i m \<subseteq> B" using fbits_inject [of i "w AND m" m] assms(3) by (auto simp: fbits_and)
  have c: "unat (pa_popcount (w AND m)) = card (B \<inter> fbits i m)"
    by (simp add: unat_pa_popcount card_fbits [of i, symmetric] fbits_and assms(3))
  have "card (B \<inter> (R \<union> fbits i m)) = card (B \<inter> R) + card (B \<inter> fbits i m)"
    using assms(1,2) by (subst card_Un_disjoint [symmetric]) (auto simp: Int_Un_distrib)
  then show ?thesis using z f c by (auto simp: claim_note_def summary_claim_def)
qed

lemma atomic_or_quiet:
  assumes "bm_env s = []" "i < length (bm s)" "atomic_or i m s = (prev, s')"
  shows "bm_env s' = []" "length (bm s') = length (bm s)" "bits_of (bm s') = bits_of (bm s) \<union> fbits i m"
    "bits_of (bm s) \<inter> fbits i m' = fbits i prev \<inter> fbits i m'"
  using assms by (auto simp: atomic_or_def Let_def interfere_quiet bits_of_upd fbits_def bit_simps bits_of_field)

lemma claim_mid_across_quiet:
  assumes "bm_env s = []" "field + n \<le> length (bm s)" "finite R" "R \<subseteq> {..<64 * field}"
    "bits_of (bm s) = B \<union> R" "claim_mid_across n field (NOT 0) (summary_claim B R) s = (acc, f', s')"
  shows "bm_env s' = [] \<and> length (bm s') = length (bm s) \<and> f' = field + n \<and>
    acc = summary_claim B (R \<union> {64 * field..<64 * (field + n)}) \<and> bits_of (bm s') = B \<union> (R \<union> {64 * field..<64 * (field + n)})"
  using assms
proof (induction n arbitrary: field R s)
  case (Suc n)
  obtain prev s1 where c: "atomic_or field (NOT 0) s = (prev, s1)" by fastforce
  note A = atomic_or_quiet [OF Suc.prems(1) _ c]
  let ?F = "fbits field (NOT 0)"
  have F: "?F = {64 * field..<64 * (field + 1)}" by (rule fbits_full)
  have dis: "R \<inter> ?F = {}" using Suc.prems(4) unfolding F by auto
  have "B \<inter> ?F = fbits field prev \<inter> ?F"
    using A(4) [of "NOT 0"] Suc.prems(2,5) dis by (simp add: Int_Un_distrib2)
  then have acc: "claim_note prev (NOT 0) (summary_claim B R) = summary_claim B (R \<union> ?F)"
    using Suc.prems(3) dis by (intro claim_note_summary) auto
  have part: "R \<union> ?F \<union> {64 * (field + 1)..<64 * (field + 1 + n)} = R \<union> {64 * field..<64 * (field + Suc n)}"
    unfolding F by auto
  have "bm_env s' = [] \<and> length (bm s') = length (bm s1) \<and> f' = field + 1 + n \<and>
    acc = summary_claim B (R \<union> ?F \<union> {64 * (field + 1)..<64 * (field + 1 + n)}) \<and>
    bits_of (bm s') = B \<union> (R \<union> ?F \<union> {64 * (field + 1)..<64 * (field + 1 + n)})"
  proof (rule Suc.IH)
    show "R \<union> ?F \<subseteq> {..<64 * (field + 1)}" using Suc.prems(4) unfolding F by auto
    show "bits_of (bm s1) = B \<union> (R \<union> ?F)" using A(3) Suc.prems(2,5) by auto
    show "claim_mid_across n (field + 1) (NOT 0) (summary_claim B (R \<union> ?F)) s1 = (acc, f', s')"
      using Suc.prems(6) c acc by simp
  qed (use A Suc.prems in auto)
  then show ?case using A(2) Suc.prems(2) part by simp
qed simp

lemma claim_across_quiet:
  assumes "bm_env s = []" and "0 < count" and "b + count \<le> 64 * length (bm s)"
    and "pa_bitmap_claim_across count b s = (r, s')"
  shows "bm_env s' = [] \<and> length (bm s') = length (bm s) \<and> bits_of (bm s') = bits_of (bm s) \<union> {b..<b + count} \<and>
    r = summary_claim (bits_of (bm s)) {b..<b + count}"
proof -
  obtain mid pre midm post where m: "pa_bitmap_mask_across b count = (mid, pre, midm, post)" by (metis prod_cases4)
  let ?i = "b div 64" and ?B = "bits_of (bm s)"
  note M = mask_across_range [OF assms(2,3) m]
  let ?P = "fbits ?i pre" and ?M = "{64 * (?i + 1)..<64 * (?i + 1 + mid)}" and ?Q = "fbits (?i + 1 + mid) post"
  have dis: "?Q \<inter> (?P \<union> ?M) = {}" using M(5) by (auto simp: fbits_def)
  obtain p1 s1 where c1: "atomic_or ?i pre s = (p1, s1)" by fastforce
  have A1: "bm_env s1 = []" "length (bm s1) = length (bm s)" "bits_of (bm s1) = ?B \<union> ?P" "?B \<inter> ?P = fbits ?i p1 \<inter> ?P"
    using atomic_or_quiet [OF assms(1) _ c1] M(2) by simp_all
  have acc1: "claim_note p1 pre (True, False, 0) = summary_claim ?B ?P"
    using claim_note_summary [of "{}" ?i pre ?B p1] A1(4) by (simp add: summary_claim_def)
  obtain acc2 f2 s2 where c2: "claim_mid_across mid (?i + 1) midm (summary_claim ?B ?P) s1 = (acc2, f2, s2)" by (metis prod_cases3)
  have A2: "bm_env s2 = []" "length (bm s2) = length (bm s)" "f2 = ?i + 1 + mid"
    "acc2 = summary_claim ?B (?P \<union> ?M)" "bits_of (bm s2) = ?B \<union> (?P \<union> ?M)"
  proof -
    have "bm_env s2 = [] \<and> length (bm s2) = length (bm s1) \<and> f2 = ?i + 1 + mid \<and>
      acc2 = summary_claim ?B (?P \<union> ?M) \<and> bits_of (bm s2) = ?B \<union> (?P \<union> ?M)"
    proof (cases "mid = 0")
      case True
      then show ?thesis using c2 A1 by simp
    next
      case False
      have P: "?P \<subseteq> {..<64 * (?i + 1)}" using M(5) by auto
      have "claim_mid_across mid (?i + 1) (NOT 0) (summary_claim ?B ?P) s1 = (acc2, f2, s2)" using c2 M(4) False by simp
      from claim_mid_across_quiet [OF A1(1) _ finite_fbits P A1(3) this] show ?thesis using M(2) A1(2) by simp
    qed
    then show "bm_env s2 = []" "length (bm s2) = length (bm s)" "f2 = ?i + 1 + mid"
      "acc2 = summary_claim ?B (?P \<union> ?M)" "bits_of (bm s2) = ?B \<union> (?P \<union> ?M)" using A1(2) by simp_all
  qed
  have "r = summary_claim ?B (?P \<union> ?M \<union> ?Q) \<and> bits_of (bm s') = ?B \<union> (?P \<union> ?M \<union> ?Q) \<and>
    bm_env s' = [] \<and> length (bm s') = length (bm s)"
  proof (cases "post = 0")
    case True
    then have "?Q = {}" "acc2 = r" "s' = s2"
      using assms(4) m c1 c2 acc1 by (auto simp: pa_bitmap_claim_across_def Let_def pa_bitmap_index_field_def fbits_def)
    then show ?thesis using A2 by simp
  next
    case False
    obtain p3 s3 where c3: "atomic_or f2 post s2 = (p3, s3)" by fastforce
    have lt: "f2 < length (bm s2)" using A2 M(3) False by simp
    note A3 = atomic_or_quiet [OF A2(1) lt c3]
    have "?B \<inter> ?Q = fbits (?i + 1 + mid) p3 \<inter> ?Q"
      using A3(4) [of post] dis unfolding A2(3,5) by blast
    then have "claim_note p3 post acc2 = summary_claim ?B (?P \<union> ?M \<union> ?Q)"
      unfolding A2(4) using dis by (intro claim_note_summary) auto
    moreover have "claim_note p3 post acc2 = r" "s' = s3"
      using assms(4) m c1 c2 c3 acc1 False by (auto simp: pa_bitmap_claim_across_def Let_def pa_bitmap_index_field_def)
    moreover have "bits_of (bm s3) = ?B \<union> (?P \<union> ?M \<union> ?Q)" using A3(3) unfolding A2(3,5) by blast
    ultimately show ?thesis using A3(1,2) A2(2) by simp
  qed
  then show ?thesis unfolding M(1) [symmetric] by simp
qed

text \<open>C19: marking a range.  Run without interference, \<open>_pa_bitmap_claim_across\<close> sets exactly the bits
  of the range, also across fields, and its three results are exact: whether all bits were clear, whether any was
  clear, and how many were already set (the number used to adjust the committed statistics).\<close>
theorem bitmap_claim_across_summary:
  assumes "bm_env s = []" and "0 < count" and "b + count \<le> 64 * length (bm s)"
    and "pa_bitmap_claim_across count b s = ((all_zero, any_zero, one_count), s')"
  shows "bits_of (bm s') = bits_of (bm s) \<union> {b..<b + count} \<and>
    (all_zero \<longleftrightarrow> bits_of (bm s) \<inter> {b..<b + count} = {}) \<and>
    (any_zero \<longleftrightarrow> \<not> {b..<b + count} \<subseteq> bits_of (bm s)) \<and>
    one_count = card (bits_of (bm s) \<inter> {b..<b + count})"
  using claim_across_quiet [OF assms] by (simp add: summary_claim_def)

theorem bitmap_claim_across_summary_witness:
  "\<exists>s'. pa_bitmap_claim_across 70 1 \<lparr>bm = [0, 0], bm_others = [0, 0], bm_env = []\<rparr> = ((True, True, 0), s')
     \<and> bits_of (bm s') = {1..<71}"
proof -
  have run: "pa_bitmap_claim_across 70 1 \<lparr>bm = [0, 0], bm_others = [0, 0], bm_env = []\<rparr> =
    ((True, True, 0), \<lparr>bm = [0xFFFFFFFFFFFFFFFE, 0x7F], bm_others = [0, 0], bm_env = []\<rparr>)" by code_simp
  have "bits_of [0, 0 :: size_t] = {}" using bits_of_empty_iff [of "[0, 0]" 2] by (simp add: less_Suc_eq nth_Cons' eval_nat_numeral)
  then have "bits_of [0xFFFFFFFFFFFFFFFE, 0x7F :: size_t] = {1..<71}"
    using bitmap_claim_across_summary [OF _ _ _ run] by simp
  then show ?thesis using run by simp
qed

end
