(* ===== verification/Palloc_ArenaBits.thy ===== *)
theory Palloc_ArenaBits
  imports Palloc_Bitmap
begin

text \<open>
  The bitmaps of an arena when no other thread interferes: what each operation of
  \<open>src/bitmap.c\<close> does to the set of bits, and that it leaves the bitmap without interference.
\<close>

definition quiet :: "bitmap_state \<Rightarrow> bool" where
  "quiet s \<longleftrightarrow> bm_env s = [] \<and> length (bm_others s) = length (bm s) \<and> bits_of (bm_others s) = {}"

abbreviation bits :: "bitmap_state \<Rightarrow> nat set" where
  "bits s \<equiv> bits_of (bm s)"

definition still :: "bitmap_state \<Rightarrow> bitmap_state \<Rightarrow> bool" where
  "still s s' \<longleftrightarrow> bm_env s' = [] \<and> bm_others s' = bm_others s"

lemma still_trans: "still s s' \<Longrightarrow> still s' s'' \<Longrightarrow> still s s''"
  by (simp add: still_def)

lemma quiet_own: "quiet s \<Longrightarrow> own s = bits s" "quiet s \<Longrightarrow> bitmap_wf s" "quiet s \<Longrightarrow> bm_env s = []"
  by (auto simp: quiet_def own_def bitmap_wf_def)

lemma quiet_still: "quiet s \<Longrightarrow> still s s' \<Longrightarrow> length (bm s') = length (bm s) \<Longrightarrow> quiet s'"
  by (simp add: quiet_def still_def)

named_theorems stills

lemma atomic_still [stills]:
  assumes "bm_env s = []"
  shows "atomic_load i s = (v, s') \<Longrightarrow> s' = s \<and> v = bm s ! i" "atomic_and i m s = (v, s') \<Longrightarrow> still s s'"
    "atomic_or i m s = (v, s') \<Longrightarrow> still s s'" "atomic_cas i e n s = (ok, v, s') \<Longrightarrow> still s s'" "still s (atomic_store i m s)"
  using assms by (auto simp: atomic_load_def atomic_and_def atomic_or_def atomic_cas_def atomic_store_def Let_def interfere_quiet
      still_def split: if_splits)

lemma cas_claim_loop_still [stills]: "bm_env s = [] \<Longrightarrow> cas_claim_loop i m e s = (ok, s') \<Longrightarrow> still s s'"
proof (induction i m e s rule: cas_claim_loop.induct)
  case (1 i m e s)
  obtain o1 e1 s1 where c: "atomic_cas i e (e OR m) s = (o1, e1, s1)" by (metis prod_cases3)
  have st: "still s s1" using atomic_still(4) [OF 1(2) c] .
  then have "bm_env s1 = []" by (simp add: still_def)
  then show ?case
    using 1(1) [OF _ c [symmetric] refl] 1(2,3) c st cas_claim_loop.simps [of i m e s]
    by (auto simp: still_def split: if_splits)
qed

lemma cas_clear_loop_still [stills]: "bm_env s = [] \<Longrightarrow> still s (cas_clear_loop i m e s)"
proof (induction i m e s rule: cas_clear_loop.induct)
  case (1 i m e s)
  obtain o1 e1 s1 where c: "atomic_cas i e (e AND NOT m) s = (o1, e1, s1)" by (metis prod_cases3)
  have st: "still s s1" using atomic_still(4) [OF 1(2) c] .
  then have "bm_env s1 = []" by (simp add: still_def)
  then show ?case
    using 1(1) [OF c [symmetric] refl] 1(2) c st cas_clear_loop.simps [of i m e s]
    by (auto simp: still_def Let_def)
qed

lemma find_claim_loop_still [stills]: "bm_env s = [] \<Longrightarrow> find_claim_loop i count mp bitidx s = (r, s') \<Longrightarrow> still s s'"
proof (induction i count mp bitidx s rule: find_claim_loop.induct)
  case (1 i count mp bitidx s)
  let ?m = "push_bit bitidx (pa_bitmap_mask count 0)"
  obtain o1 e1 s1 where c: "atomic_cas i mp (mp OR ?m) s = (o1, e1, s1)" by (metis prod_cases3)
  have st: "still s s1" using atomic_still(4) [OF 1(3) c] .
  then have "bm_env s1 = []" by (simp add: still_def)
  then show ?case
    using 1(1) [OF _ refl refl _ c [symmetric] refl] 1(2) [OF _ refl refl _ refl] 1(3,4) c st find_claim_loop.simps [of i count mp bitidx s]
    by (auto simp: still_def Let_def split: if_splits)
qed

lemma try_find_claim_field_still [stills]: "bm_env s = [] \<Longrightarrow> pa_bitmap_try_find_claim_field i count s = (r, s') \<Longrightarrow> still s s'"
  using find_claim_loop_still [of s i count]
  by (simp add: pa_bitmap_try_find_claim_field_def atomic_load_def interfere_quiet Let_def still_def split: if_splits) blast?

lemma visit_fields_still:
  assumes "\<And>i s r s'. bm_env s = [] \<Longrightarrow> f i s = (r, s') \<Longrightarrow> still s s'"
  shows "bm_env s = [] \<Longrightarrow> visit_fields f n k i s = (r, s') \<Longrightarrow> still s s'"
proof (induction k arbitrary: i s)
  case (Suc k)
  let ?i = "if n \<le> i then 0 else i"
  obtain r1 s1 where f: "f ?i s = (r1, s1)" by (meson surj_pair)
  have st: "still s s1" using assms [OF Suc.prems(1) f] .
  then have "bm_env s1 = []" by (simp add: still_def)
  then show ?case using Suc.IH [of s1] Suc.prems f st by (cases r1) (auto simp: Let_def still_def)
qed (simp add: still_def)

lemma scan_ahead_still [stills]: "bm_env s = [] \<Longrightarrow> scan_ahead f found count m s = (r, s') \<Longrightarrow> s' = s"
proof (induction f found count m s rule: scan_ahead.induct)
  case (1 f found count m s)
  have l: "atomic_load (f + 1) s = (bm s ! (f + 1), s)" using 1(2) by (simp add: atomic_load_def interfere_quiet)
  show ?case
    using 1(1) [OF _ refl l [symmetric] refl refl] 1(2,3) l scan_ahead.simps [of f found count m s]
    by (auto simp: Let_def split: if_splits)
qed

lemma claim_mid_still [stills]: "bm_env s = [] \<Longrightarrow> claim_mid f g s = (r, s') \<Longrightarrow> still s s'"
proof (induction f g s rule: claim_mid.induct)
  case (1 f g s)
  obtain o1 e1 s1 where c: "atomic_cas f 0 (NOT 0) s = (o1, e1, s1)" by (metis prod_cases3)
  have st: "still s s1" using atomic_still(4) [OF 1(2) c] .
  then have "bm_env s1 = []" by (simp add: still_def)
  then show ?case
    using 1(1) [OF _ c [symmetric] refl] 1(2,3) c st claim_mid.simps [of f g s]
    by (auto simp: still_def split: if_splits)
qed

lemma rollback_still [stills]: "bm_env s = [] \<Longrightarrow> still s (rollback i f m s)"
proof (induction i f m s rule: rollback.induct)
  case (2 i f m s)
  have st: "still s (atomic_store f 0 s)" using atomic_still(5) [OF 2(2)] .
  then have "bm_env (atomic_store f 0 s) = []" by (simp add: still_def)
  moreover have "atomic_load f s = (bm s ! f, s)" using 2(2) by (simp add: atomic_load_def interfere_quiet)
  ultimately show ?case using 2(1) st cas_clear_loop_still [OF 2(2)] still_trans [OF st] 2(2) by (auto simp: still_def)
qed (simp add: still_def)

lemma still_env: "bm_env s = [] \<Longrightarrow> still s s' \<Longrightarrow> bm_env s' = []"
  by (simp add: still_def)

lemma still_refl: "bm_env s = [] \<Longrightarrow> still s s"
  by (simp add: still_def)

lemma claim_range_still [stills]:
  assumes "bm_env s = []" "claim_range i n f m s = (r, s')"
  shows "still s s'"
proof -
  let ?m = "pa_bitmap_mask n (64 - n)"
  obtain o1 s1 where c1: "cas_claim_loop i ?m (bm s ! i) s = (o1, s1)" by (meson surj_pair)
  have st1: "still s s1" by (rule cas_claim_loop_still [OF assms(1) c1])
  note e1 = still_env [OF assms(1) st1]
  obtain fl s2 where c2: "claim_mid (i + 1) f s1 = (fl, s2)" by (meson surj_pair)
  have st2: "still s s2" by (rule still_trans [OF st1 claim_mid_still [OF e1 c2]])
  note e2 = still_env [OF assms(1) st2]
  obtain o3 s3 where c3: "cas_claim_loop f m (bm s2 ! f) s2 = (o3, s3)" by (meson surj_pair)
  have st3: "still s s3" by (rule still_trans [OF st2 cas_claim_loop_still [OF e2 c3]])
  have R: "still s (rollback a b c s1)" "still s (rollback a b c s2)" "still s (rollback a b c s3)" for a b c
    using st1 st2 st3 rollback_still still_env [OF assms(1)] still_trans by metis+
  have l: "atomic_load i s = (bm s ! i, s)" "atomic_load f s2 = (bm s2 ! f, s2)"
    using assms(1) e2 by (simp_all add: atomic_load_def interfere_quiet)
  show ?thesis
    using assms(2) l c1 c2 c3 st3 R by (auto simp: claim_range_def Let_def split: if_splits option.splits)
qed

lemma claim_across_attempt_still [stills]:
  assumes "bm_env s = []" "claim_across_attempt n i count s = (r, s')"
  shows "still s s'"
proof -
  have l: "atomic_load i s = (bm s ! i, s)" using assms(1) by (simp add: atomic_load_def interfere_quiet)
  let ?n = "pa_clz (bm s ! i)"
  obtain r1 s1 where f: "pa_bitmap_try_find_claim_field i count s = (r1, s1)" by (meson surj_pair)
  obtain r2 s2 where a: "scan_ahead i ?n count 0 s = (r2, s2)" by (meson surj_pair)
  have st: "still s s1" "s2 = s" using try_find_claim_field_still [OF assms(1) f] scan_ahead_still [OF assms(1) a] .
  have R: "claim_range j k g m s = (r', s'') \<Longrightarrow> still s s''" for j k g m r' s'' by (rule claim_range_still [OF assms(1)])
  show ?thesis
    using assms(2) l f a st R still_refl [OF assms(1)]
    by (auto simp: claim_across_attempt_def Let_def split: if_splits option.splits prod.splits)
qed

lemma find_claim_field_across_still [stills]:
  "bm_env s = [] \<Longrightarrow> pa_bitmap_try_find_claim_field_across n i count retries s = (r, s') \<Longrightarrow> still s s'"
proof (induction n i count retries s rule: pa_bitmap_try_find_claim_field_across.induct)
  case (1 n i count retries s)
  obtain r1 s1 where c: "claim_across_attempt n i count s = (r1, s1)" by (meson surj_pair)
  have st: "still s s1" by (rule claim_across_attempt_still [OF 1(2) c])
  note e1 = still_env [OF 1(2) st]
  show ?case
  proof (cases "r1 = RolledBack \<and> retries \<le> 2")
    case True
    then have "pa_bitmap_try_find_claim_field_across n i count (retries + 1) s1 = (r, s')"
      using 1(3) c pa_bitmap_try_find_claim_field_across.simps [of n i count retries s] by (simp add: Let_def)
    then have "still s1 s'" using 1(1) [OF c [symmetric] refl] True e1 by blast
    then show ?thesis using still_trans [OF st] by blast
  next
    case False
    then show ?thesis using 1(3) c st pa_bitmap_try_find_claim_field_across.simps [of n i count retries s]
      by (cases r1) (auto simp: Let_def)
  qed
qed

lemma find_from_claim_across_still [stills]:
  assumes "bm_env s = []" "pa_bitmap_try_find_from_claim_across n i count s = (r, s')"
  shows "still s s'"
proof (cases "count \<le> 2")
  case True
  then have "visit_fields (\<lambda>idx. pa_bitmap_try_find_claim_field idx count) n n i s = (r, s')"
    using assms(2) by (simp add: pa_bitmap_try_find_from_claim_across_def pa_bitmap_try_find_from_claim_def)
  from visit_fields_still [where f = "\<lambda>idx. pa_bitmap_try_find_claim_field idx count", OF _ assms(1) this]
  show ?thesis using try_find_claim_field_still by blast
next
  case False
  then have "visit_fields (\<lambda>idx. pa_bitmap_try_find_claim_field_across n idx count 0) n n i s = (r, s')"
    using assms(2) by (simp add: pa_bitmap_try_find_from_claim_across_def)
  from visit_fields_still [where f = "\<lambda>idx. pa_bitmap_try_find_claim_field_across n idx count 0", OF _ assms(1) this]
  show ?thesis using find_claim_field_across_still by blast
qed

section \<open>The operations as set operations\<close>

lemma find_claim_bits:
  assumes "quiet s" "0 < length (bm s)" "0 < count" "count < 2 ^ 63"
    "pa_bitmap_try_find_from_claim_across (length (bm s)) i count s = (r, s')"
  shows "quiet s' \<and> length (bm s') = length (bm s) \<and>
    (case r of None \<Rightarrow> bits s' = bits s
     | Some b \<Rightarrow> b + count \<le> 64 * length (bm s) \<and> bits s' = bits s \<union> {b..<b + count} \<and> bits s \<inter> {b..<b + count} = {})"
proof -
  have C: "claim_ok count s r s'" by (rule find_from_claim_across_own [OF quiet_own(2) [OF assms(1)] assms(2-5)])
  have st: "still s s'" by (rule find_from_claim_across_still [OF quiet_own(3) [OF assms(1)] assms(5)])
  have q: "quiet s'" using C by (intro quiet_still [OF assms(1) st]) (simp add: claim_ok_def)
  show ?thesis using C q quiet_own(1) [OF q] quiet_own(1) [OF assms(1)] by (cases r) (auto simp: claim_ok_def)
qed

lemma bits_in_field: "i < length (bm s) \<Longrightarrow> bits s \<inter> fbits i w = fbits i (bm s ! i) \<inter> fbits i w"
  using bits_of_field [of i "bm s"] by (auto simp: fbits_def)

lemma atomic_and_quiet:
  assumes "bm_env s = []" "i < length (bm s)" "atomic_and i (NOT m) s = (prev, s')"
  shows "still s s'" "length (bm s') = length (bm s)" "bits s' = bits s - fbits i m"
    "prev AND m = m \<longleftrightarrow> fbits i m \<subseteq> bits s"
proof -
  have p: "prev = bm s ! i" and s': "s' = s\<lparr>bm := (bm s)[i := bm s ! i AND NOT m]\<rparr>"
    using assms(1,3) by (auto simp: atomic_and_def Let_def interfere_quiet)
  show "still s s'" by (rule atomic_still(2) [OF assms(1,3)])
  show "length (bm s') = length (bm s)" using s' by simp
  show "bits s' = bits s - fbits i m"
    using s' assms(2) by (auto simp: bits_of_upd fbits_def bit_simps bits_of_field)
  have "prev AND m = m \<longleftrightarrow> fbits i (prev AND m) = fbits i m" by (simp only: fbits_inject)
  also have "\<dots> \<longleftrightarrow> fbits i m \<subseteq> bits s" using bits_in_field [OF assms(2), of m] p by (auto simp: fbits_and)
  finally show "prev AND m = m \<longleftrightarrow> fbits i m \<subseteq> bits s" .
qed

lemma unclaim_mid_quiet:
  assumes "bm_env s = []" "field + n \<le> length (bm s)" "unclaim_mid n field (NOT 0) a s = (a', f', s')"
  shows "still s s' \<and> length (bm s') = length (bm s) \<and> f' = field + n \<and> bits s' = bits s - {64 * field..<64 * (field + n)} \<and>
    (a' \<longleftrightarrow> a \<and> {64 * field..<64 * (field + n)} \<subseteq> bits s)"
  using assms
proof (induction n arbitrary: field a s)
  case 0
  then show ?case by (simp add: still_def)
next
  case (Suc n)
  obtain prev s1 where c: "atomic_and field (NOT (NOT 0)) s = (prev, s1)" by fastforce
  note A = atomic_and_quiet [OF Suc.prems(1) _ c]
  let ?F = "fbits field (NOT 0)" and ?R = "{64 * (field + 1)..<64 * (field + 1 + n)}"
  have F: "?F = {64 * field..<64 * (field + 1)}" by (rule fbits_full)
  have lt: "field < length (bm s)" using Suc.prems(2) by simp
  note A = A [OF lt]
  have u: "unclaim_mid n (field + 1) (NOT 0) (if prev AND NOT 0 \<noteq> NOT 0 then False else a) s1 = (a', f', s')"
    using Suc.prems(3) c by simp
  have I: "still s1 s' \<and> length (bm s') = length (bm s1) \<and> f' = field + 1 + n \<and> bits s' = bits s1 - ?R \<and>
     (a' \<longleftrightarrow> (if prev AND NOT 0 \<noteq> NOT 0 then False else a) \<and> ?R \<subseteq> bits s1)"
    by (rule Suc.IH [OF still_env [OF Suc.prems(1) A(1)] _ u]) (use Suc.prems(2) A(2) in simp)
  have part: "{64 * field..<64 * (field + Suc n)} = ?F \<union> ?R" "?F \<inter> ?R = {}" unfolding F by auto
  have "?R \<subseteq> bits s1 \<longleftrightarrow> ?R \<subseteq> bits s" unfolding A(3) using part(2) by blast
  then show ?case unfolding part(1) using I still_trans [OF A(1)] A(2,3) A(4) by auto
qed

lemma unclaim_across_quiet:
  assumes "bm_env s = []" "0 < count" "b + count \<le> 64 * length (bm s)" "pa_bitmap_unclaim_across count b s = (r, s')"
  shows "still s s' \<and> length (bm s') = length (bm s) \<and> bits s' = bits s - {b..<b + count} \<and> (r \<longleftrightarrow> {b..<b + count} \<subseteq> bits s)"
proof -
  obtain mid pre midm post where m: "pa_bitmap_mask_across b count = (mid, pre, midm, post)" by (metis prod_cases4)
  let ?i = "b div 64"
  note M = mask_across_range [OF assms(2,3) m]
  let ?P = "fbits ?i pre" and ?M = "{64 * (?i + 1)..<64 * (?i + 1 + mid)}" and ?Q = "fbits (?i + 1 + mid) post"
  have dis: "?P \<inter> ?M = {}" "?P \<inter> ?Q = {}" "?M \<inter> ?Q = {}" using M(5) by (auto simp: fbits_def)
  obtain p1 s1 where c1: "atomic_and ?i (NOT pre) s = (p1, s1)" by fastforce
  have i: "?i < length (bm s)" using M(2) by simp
  note A1 = atomic_and_quiet [OF assms(1) i c1]
  obtain a2 f2 s2 where c2: "unclaim_mid mid (?i + 1) midm (p1 AND pre = pre) s1 = (a2, f2, s2)" by (metis prod_cases3)
  have A2: "still s1 s2 \<and> length (bm s2) = length (bm s1) \<and> f2 = ?i + 1 + mid \<and> bits s2 = bits s1 - ?M \<and>
     (a2 \<longleftrightarrow> p1 AND pre = pre \<and> ?M \<subseteq> bits s1)"
  proof (cases "mid = 0")
    case True
    then show ?thesis using c2 still_env [OF assms(1) A1(1)] by (simp add: still_def)
  next
    case False
    then have "unclaim_mid mid (?i + 1) (NOT 0) (p1 AND pre = pre) s1 = (a2, f2, s2)" using c2 M(4) by simp
    from unclaim_mid_quiet [OF still_env [OF assms(1) A1(1)] _ this] M(2) A1(2) show ?thesis by simp
  qed
  have a2: "a2 \<longleftrightarrow> ?P \<union> ?M \<subseteq> bits s" using A2 A1(3,4) dis by blast
  have b2: "bits s2 = bits s - (?P \<union> ?M)" using A2 A1(3) by blast
  have st: "still s s2" using A2 A1(1) still_trans by blast
  have "still s s' \<and> length (bm s') = length (bm s) \<and> bits s' = bits s - (?P \<union> ?M \<union> ?Q) \<and> (r \<longleftrightarrow> ?P \<union> ?M \<union> ?Q \<subseteq> bits s)"
  proof (cases "post = 0")
    case True
    then have "?Q = {}" "r = a2" "s' = s2"
      using assms(4) m c1 c2 by (auto simp: pa_bitmap_unclaim_across_def Let_def pa_bitmap_index_field_def fbits_def)
    then show ?thesis using a2 b2 st A2 A1(2) by simp
  next
    case False
    obtain p3 s3 where c3: "atomic_and f2 (NOT post) s2 = (p3, s3)" by fastforce
    have lt: "f2 < length (bm s2)" using A2 M(3) False A1(2) by simp
    note A3 = atomic_and_quiet [OF still_env [OF assms(1) st] lt c3]
    have "(r, s') = (if p3 AND post \<noteq> post then False else a2, s3)"
      using assms(4) [symmetric] m c1 c2 c3 False by (simp add: pa_bitmap_unclaim_across_def Let_def pa_bitmap_index_field_def)
    then have r: "r \<longleftrightarrow> p3 AND post = post \<and> a2" "s' = s3" by auto
    have f2: "f2 = ?i + 1 + mid" using A2 by blast
    have "p3 AND post = post \<longleftrightarrow> ?Q \<subseteq> bits s" using A3(4) dis unfolding f2 b2 by blast
    moreover have "bits s3 = bits s - (?P \<union> ?M \<union> ?Q)" using A3(3) unfolding f2 b2 by blast
    ultimately show ?thesis using r a2 still_trans [OF st A3(1)] A3(2) A2 A1(2) by auto
  qed
  then show ?thesis unfolding M(1) [symmetric] .
qed

definition summary_claimed :: "nat set \<Rightarrow> nat set \<Rightarrow> bit_summary" where
  "summary_claimed B R = (R \<subseteq> B, B \<inter> R \<noteq> {}, card (B \<inter> R))"

lemma claimed_note_summary:
  assumes "finite R" "R \<inter> fbits i m = {}" "B \<inter> fbits i m = fbits i w \<inter> fbits i m"
  shows "claimed_note w m (summary_claimed B R) = summary_claimed B (R \<union> fbits i m)"
proof -
  have z: "w AND m = 0 \<longleftrightarrow> B \<inter> fbits i m = {}" using fbits_inject [of i "w AND m" 0] assms(3) by (simp add: fbits_and fbits_def [of _ 0])
  have f: "w AND m = m \<longleftrightarrow> fbits i m \<subseteq> B" using fbits_inject [of i "w AND m" m] assms(3) by (auto simp: fbits_and)
  have c: "unat (pa_popcount (w AND m)) = card (B \<inter> fbits i m)"
    by (simp add: unat_pa_popcount card_fbits [of i, symmetric] fbits_and assms(3))
  have "card (B \<inter> (R \<union> fbits i m)) = card (B \<inter> R) + card (B \<inter> fbits i m)"
    using assms(1,2) by (subst card_Un_disjoint [symmetric]) (auto simp: Int_Un_distrib)
  then show ?thesis using z f c by (auto simp: claimed_note_def summary_claimed_def)
qed

lemma claimed_mid_across_quiet:
  assumes "bm_env s = []" "field + n \<le> length (bm s)" "finite R" "R \<subseteq> {..<64 * field}"
    "claimed_mid_across n field (NOT 0) (summary_claimed (bits s) R) s = (acc, f', s')"
  shows "s' = s \<and> f' = field + n \<and> acc = summary_claimed (bits s) (R \<union> {64 * field..<64 * (field + n)})"
  using assms
proof (induction n arbitrary: field R)
  case (Suc n)
  let ?F = "fbits field (NOT 0)"
  have l: "atomic_load field s = (bm s ! field, s)" using assms(1) by (simp add: atomic_load_def interfere_quiet)
  have F: "?F = {64 * field..<64 * (field + 1)}" by (rule fbits_full)
  have dis: "R \<inter> ?F = {}" using Suc.prems(4) unfolding F by auto
  have "bits s \<inter> ?F = fbits field (bm s ! field) \<inter> ?F" using Suc.prems(2) by (intro bits_in_field) simp
  then have acc: "claimed_note (bm s ! field) (NOT 0) (summary_claimed (bits s) R) = summary_claimed (bits s) (R \<union> ?F)"
    using Suc.prems(3) dis by (intro claimed_note_summary) auto
  have part: "R \<union> ?F \<union> {64 * (field + 1)..<64 * (field + 1 + n)} = R \<union> {64 * field..<64 * (field + Suc n)}"
    unfolding F by auto
  have "s' = s \<and> f' = field + 1 + n \<and> acc = summary_claimed (bits s) (R \<union> ?F \<union> {64 * (field + 1)..<64 * (field + 1 + n)})"
  proof (rule Suc.IH)
    show "R \<union> ?F \<subseteq> {..<64 * (field + 1)}" using Suc.prems(4) unfolding F by auto
    show "claimed_mid_across n (field + 1) (NOT 0) (summary_claimed (bits s) (R \<union> ?F)) s = (acc, f', s')"
      using Suc.prems(5) l acc by simp
  qed (use Suc.prems in auto)
  then show ?case using part by simp
qed auto

lemma is_claimed_across_quiet:
  assumes "bm_env s = []" "0 < count" "b + count \<le> 64 * length (bm s)" "pa_bitmap_is_claimedx_across count b s = (r, s')"
  shows "s' = s \<and> r = summary_claimed (bits s) {b..<b + count}"
proof -
  obtain mid pre midm post where m: "pa_bitmap_mask_across b count = (mid, pre, midm, post)" by (metis prod_cases4)
  let ?i = "b div 64" and ?B = "bits s"
  note M = mask_across_range [OF assms(2,3) m]
  let ?P = "fbits ?i pre" and ?M = "{64 * (?i + 1)..<64 * (?i + 1 + mid)}" and ?Q = "fbits (?i + 1 + mid) post"
  have dis: "?Q \<inter> (?P \<union> ?M) = {}" "(?P \<union> ?M) \<inter> ?Q = {}" using M(5) by (auto simp: fbits_def)
  have l: "atomic_load j s = (bm s ! j, s)" for j using assms(1) by (simp add: atomic_load_def interfere_quiet)
  have B: "?B \<inter> fbits j w = fbits j (bm s ! j) \<inter> fbits j w" if "j < length (bm s)" for j w
    by (rule bits_in_field [OF that])
  have acc1: "claimed_note (bm s ! ?i) pre (True, False, 0) = summary_claimed ?B ?P"
    using claimed_note_summary [of "{}" ?i pre ?B "bm s ! ?i"] B [of ?i pre] M(2) by (simp add: summary_claimed_def)
  obtain acc2 f2 s2 where c2: "claimed_mid_across mid (?i + 1) midm (summary_claimed ?B ?P) s = (acc2, f2, s2)" by (metis prod_cases3)
  have A2: "s2 = s \<and> f2 = ?i + 1 + mid \<and> acc2 = summary_claimed ?B (?P \<union> ?M)"
  proof (cases "mid = 0")
    case True
    then show ?thesis using c2 by auto
  next
    case False
    have P: "?P \<subseteq> {..<64 * (?i + 1)}" using M(5) by auto
    have "claimed_mid_across mid (?i + 1) (NOT 0) (summary_claimed ?B ?P) s = (acc2, f2, s2)" using c2 M(4) False by simp
    from claimed_mid_across_quiet [OF assms(1) _ finite_fbits P this] M(2) show ?thesis by simp
  qed
  have "s' = s \<and> r = summary_claimed ?B (?P \<union> ?M \<union> ?Q)"
  proof (cases "post = 0")
    case True
    then have "?Q = {}" by (simp add: fbits_def)
    then show ?thesis
      using assms(4) m l c2 acc1 A2 True by (auto simp: pa_bitmap_is_claimedx_across_def Let_def pa_bitmap_index_field_def)
  next
    case False
    have "claimed_note (bm s ! f2) post acc2 = summary_claimed ?B (?P \<union> ?M \<union> ?Q)"
      using A2 dis B [of f2 post] M(3) False by (auto intro!: claimed_note_summary)
    then show ?thesis
      using assms(4) m l c2 acc1 A2 False by (auto simp: pa_bitmap_is_claimedx_across_def Let_def pa_bitmap_index_field_def)
  qed
  then show ?thesis unfolding M(1) [symmetric] .
qed

lemma claim_mid_across_still [stills]: "bm_env s = [] \<Longrightarrow> claim_mid_across n f m acc s = (r, f', s') \<Longrightarrow> still s s'"
proof (induction n arbitrary: f acc s)
  case (Suc n)
  obtain prev s1 where c: "atomic_or f m s = (prev, s1)" by fastforce
  have st: "still s s1" by (rule atomic_still(3) [OF Suc.prems(1) c])
  then show ?case using Suc.IH [OF still_env [OF Suc.prems(1) st]] Suc.prems(2) c still_trans [OF st] by auto
qed (simp add: still_def)

lemma claim_across_others:
  assumes "bm_env s = []" "pa_bitmap_claim_across count b s = (r, s')"
  shows "bm_others s' = bm_others s"
proof -
  obtain mid pre midm post where m: "pa_bitmap_mask_across b count = (mid, pre, midm, post)" by (metis prod_cases4)
  obtain p1 s1 where c1: "atomic_or (b div 64) pre s = (p1, s1)" by fastforce
  have st1: "still s s1" by (rule atomic_still(3) [OF assms(1) c1])
  obtain acc2 f2 s2 where c2: "claim_mid_across mid (b div 64 + 1) midm (claim_note p1 pre (True, False, 0)) s1 = (acc2, f2, s2)" by (metis prod_cases3)
  have st2: "still s s2" by (rule still_trans [OF st1 claim_mid_across_still [OF still_env [OF assms(1) st1] c2]])
  obtain p3 s3 where c3: "atomic_or f2 post s2 = (p3, s3)" by fastforce
  have st3: "still s s3" by (rule still_trans [OF st2 atomic_still(3) [OF still_env [OF assms(1) st2] c3]])
  show ?thesis using assms(2) m c1 c2 c3 st2 st3
    by (auto simp: pa_bitmap_claim_across_def Let_def pa_bitmap_index_field_def still_def split: if_splits)
qed

lemma field_range:
  assumes "b mod 64 + count \<le> 64" "0 < count" "b + count \<le> 64 * n"
  shows "b div 64 < n" "fbits (b div 64) (pa_bitmap_mask count (b mod 64)) = {b..<b + count}"
proof -
  have "64 * (b div 64) + b mod 64 = b" by simp
  then show "fbits (b div 64) (pa_bitmap_mask count (b mod 64)) = {b..<b + count}"
    using fbits_mask [OF assms(1), of "b div 64"] by simp
  have "b < 64 * n" using assms(2,3) by simp
  then show "b div 64 < n" by (simp add: less_mult_imp_div_less mult.commute)
qed

lemma cas_claim_quiet:
  assumes "bm_env s = []" "i < length (bm s)" "cas_claim_loop i m (bm s ! i) s = (ok, s')"
  shows "length (bm s') = length (bm s) \<and> (ok \<longleftrightarrow> bits s \<inter> fbits i m = {}) \<and> bits s' = (if ok then bits s \<union> fbits i m else bits s)"
proof -
  have ok: "bm s ! i AND m = 0 \<longleftrightarrow> bits s \<inter> fbits i m = {}"
    using bits_in_field [OF assms(2), of m] fbits_inject [of i "bm s ! i AND m" 0] by (simp add: fbits_and fbits_def [of _ 0])
  have c: "atomic_cas i (bm s ! i) (bm s ! i OR m) s = (True, bm s ! i, s\<lparr>bm := (bm s)[i := bm s ! i OR m]\<rparr>)"
    using assms(1) by (simp add: atomic_cas_def interfere_quiet Let_def)
  have "(ok, s') = (if bm s ! i AND m \<noteq> 0 then (False, s) else (True, s\<lparr>bm := (bm s)[i := bm s ! i OR m]\<rparr>))"
    using assms(3) [symmetric] c cas_claim_loop.simps [of i m "bm s ! i" s] by simp
  moreover have "bits_of ((bm s)[i := bm s ! i OR m]) = bits s \<union> fbits i m"
    using assms(2) by (auto simp: bits_of_upd fbits_def bit_simps bits_of_field)
  ultimately show ?thesis using ok by (auto split: if_splits)
qed

lemma try_claim_quiet:
  assumes "quiet s" "b mod 64 + count \<le> 64" "0 < count" "b + count \<le> 64 * length (bm s)" "pa_bitmap_try_claim count b s = (ok, s')"
  shows "quiet s' \<and> length (bm s') = length (bm s) \<and> (ok \<longleftrightarrow> bits s \<inter> {b..<b + count} = {}) \<and>
    bits s' = (if ok then bits s \<union> {b..<b + count} else bits s)"
proof -
  note F = field_range [OF assms(2-4)]
  note e = quiet_own(3) [OF assms(1)]
  have "cas_claim_loop (b div 64) (pa_bitmap_mask count (b mod 64)) (bm s ! (b div 64)) s = (ok, s')"
    using assms(5) e by (simp add: pa_bitmap_try_claim_def atomic_load_def interfere_quiet Let_def
        pa_bitmap_index_field_def pa_bitmap_index_bit_in_field_def)
  from cas_claim_quiet [OF e F(1) this] cas_claim_loop_still [OF e this] show ?thesis
    unfolding F(2) using quiet_still [OF assms(1)] by blast
qed

lemma unclaim_quiet:
  assumes "quiet s" "b mod 64 + count \<le> 64" "0 < count" "b + count \<le> 64 * length (bm s)" "pa_bitmap_unclaim count b s = (r, s')"
  shows "quiet s' \<and> length (bm s') = length (bm s) \<and> bits s' = bits s - {b..<b + count} \<and> (r \<longleftrightarrow> {b..<b + count} \<subseteq> bits s)"
proof -
  note F = field_range [OF assms(2-4)]
  let ?m = "pa_bitmap_mask count (b mod 64)"
  obtain prev where c: "atomic_and (b div 64) (NOT ?m) s = (prev, s')" and r: "r = (prev AND ?m = ?m)"
    using assms(5) by (auto simp: pa_bitmap_unclaim_def Let_def pa_bitmap_index_field_def pa_bitmap_index_bit_in_field_def split: prod.splits)
  note A = atomic_and_quiet [OF quiet_own(3) [OF assms(1)] F(1) c]
  show ?thesis using A r quiet_still [OF assms(1) A(1,2)] unfolding F(2) by blast
qed

lemma claim_quiet:
  assumes "quiet s" "b mod 64 + count \<le> 64" "0 < count" "b + count \<le> 64 * length (bm s)" "pa_bitmap_claim count b s = (z, a, s')"
  shows "quiet s' \<and> length (bm s') = length (bm s) \<and> bits s' = bits s \<union> {b..<b + count}"
proof -
  note F = field_range [OF assms(2-4)]
  let ?m = "pa_bitmap_mask count (b mod 64)"
  obtain prev where c: "atomic_or (b div 64) ?m s = (prev, s')"
    using assms(5) by (auto simp: pa_bitmap_claim_def Let_def pa_bitmap_index_field_def pa_bitmap_index_bit_in_field_def split: prod.splits)
  note A = atomic_or_quiet [OF quiet_own(3) [OF assms(1)] F(1) c]
  show ?thesis using A quiet_still [OF assms(1) atomic_still(3) [OF quiet_own(3) [OF assms(1)] c]] unfolding F(2) by blast
qed

lemma unclaim_across_bits:
  assumes "quiet s" "0 < count" "b + count \<le> 64 * length (bm s)" "pa_bitmap_unclaim_across count b s = (r, s')"
  shows "quiet s'" "length (bm s') = length (bm s)" "bits s' = bits s - {b..<b + count}" "r \<longleftrightarrow> {b..<b + count} \<subseteq> bits s"
  using unclaim_across_quiet [OF quiet_own(3) [OF assms(1)] assms(2-4)] quiet_still [OF assms(1)] by blast+

lemma claim_across_bits:
  assumes "quiet s" "0 < count" "b + count \<le> 64 * length (bm s)" "pa_bitmap_claim_across count b s = (r, s')"
  shows "quiet s'" "length (bm s') = length (bm s)" "bits s' = bits s \<union> {b..<b + count}" "r = summary_claim (bits s) {b..<b + count}"
proof -
  note Q = claim_across_quiet [OF quiet_own(3) [OF assms(1)] assms(2-4)]
  show "length (bm s') = length (bm s)" "bits s' = bits s \<union> {b..<b + count}" "r = summary_claim (bits s) {b..<b + count}"
    using Q by blast+
  show "quiet s'" using Q assms(1) claim_across_others [OF quiet_own(3) [OF assms(1)] assms(4)] by (simp add: quiet_def)
qed

end
