(* ===== verification/Palloc_Os.thy ===== *)
theory Palloc_Os
  imports Palloc_Types Palloc_Arith
begin

text \<open>
  The operating-system layer (\<open>src/os.c\<close>): page-aligned commit, decommit, reset and purge, and
  aligned allocation with the fall-back that over-allocates and unmaps around the aligned part.  The primitives of the
  platform (\<open>_pa_prim_alloc\<close>, \<open>_pa_prim_free\<close>, \<open>_pa_prim_commit\<close> and so on, system calls in the end) are parameters that act on
  an abstract state of the address space; what they are relied on for is the predicate \<open>os_prim_ok\<close>.  Statistics
  and warnings are left out.
\<close>

section \<open>Configuration and primitives\<close>

record pa_os_mem_config =
  oc_page_size :: size_t
  oc_large_page_size :: size_t
  oc_virtual_address_bits :: nat
  oc_has_overcommit :: bool
  oc_has_partial_free :: bool
  oc_has_virtual_reserve :: bool
  oc_purge_delay :: int
  oc_purge_decommits :: bool
  oc_preloading :: bool

text \<open>A primitive returns an error number, zero on success, and its outputs.\<close>

record 'o pa_prim =
  prim_alloc :: "'o \<Rightarrow> uintptr_t \<Rightarrow> size_t \<Rightarrow> size_t \<Rightarrow> bool \<Rightarrow> bool \<Rightarrow> int \<times> bool \<times> bool \<times> uintptr_t \<times> 'o"
  prim_free :: "'o \<Rightarrow> uintptr_t \<Rightarrow> size_t \<Rightarrow> int \<times> 'o"
  prim_commit :: "'o \<Rightarrow> uintptr_t \<Rightarrow> size_t \<Rightarrow> int \<times> bool \<times> 'o"
  prim_decommit :: "'o \<Rightarrow> uintptr_t \<Rightarrow> size_t \<Rightarrow> int \<times> bool \<times> 'o"
  prim_reset :: "'o \<Rightarrow> uintptr_t \<Rightarrow> size_t \<Rightarrow> int \<times> 'o"
  prim_reuse :: "'o \<Rightarrow> uintptr_t \<Rightarrow> size_t \<Rightarrow> int \<times> 'o"
  prim_protect :: "'o \<Rightarrow> uintptr_t \<Rightarrow> size_t \<Rightarrow> bool \<Rightarrow> int \<times> 'o"
  prim_alloc_huge_os_pages :: "'o \<Rightarrow> uintptr_t \<Rightarrow> size_t \<Rightarrow> int \<Rightarrow> int \<times> bool \<times> uintptr_t \<times> 'o"
  prim_cfg :: pa_os_mem_config

definition pa_os_has_overcommit :: "'o pa_prim \<Rightarrow> bool" where
  "pa_os_has_overcommit pr = oc_has_overcommit (prim_cfg pr)"

definition pa_os_has_virtual_reserve :: "'o pa_prim \<Rightarrow> bool" where
  "pa_os_has_virtual_reserve pr = oc_has_virtual_reserve (prim_cfg pr)"

definition pa_os_page_size :: "'o pa_prim \<Rightarrow> size_t" where
  "pa_os_page_size pr = oc_page_size (prim_cfg pr)"

definition pa_os_large_page_size :: "'o pa_prim \<Rightarrow> size_t" where
  "pa_os_large_page_size pr =
     (if oc_large_page_size (prim_cfg pr) \<noteq> 0 then oc_large_page_size (prim_cfg pr) else pa_os_page_size pr)"

definition pa_os_canuse_large_page :: "'o pa_prim \<Rightarrow> size_t \<Rightarrow> size_t \<Rightarrow> bool" where
  "pa_os_canuse_large_page pr sz alignment \<longleftrightarrow>
     (let large = oc_large_page_size (prim_cfg pr) in large \<noteq> 0 \<and> sz mod large = 0 \<and> alignment mod large = 0)"

definition pa_os_good_alloc_size :: "'o pa_prim \<Rightarrow> size_t \<Rightarrow> size_t" where
  "pa_os_good_alloc_size pr sz =
     (let align_size = (if sz < 0x80000 then pa_os_page_size pr
                        else if sz < 0x200000 then 0x10000
                        else if sz < 0x800000 then 0x40000
                        else if sz < 0x2000000 then 0x100000
                        else 0x400000)
      in if SIZE_MAX - align_size \<le> sz then sz else pa_align_up sz align_size)"

section \<open>Memory ids\<close>

definition pa_memkind_is_os :: "pa_memkind \<Rightarrow> bool" where
  "pa_memkind_is_os k \<longleftrightarrow> k \<in> {PA_MEM_OS, PA_MEM_OS_HUGE, PA_MEM_OS_REMAP}"

definition pa_memid_create :: "pa_memkind \<Rightarrow> pa_memid" where
  "pa_memid_create memkind = \<lparr>mi_mem = Mem_os 0 0, mi_is_pinned = False, mi_initially_committed = False,
     mi_initially_zero = False, mi_memkind = memkind\<rparr>"

definition pa_memid_none :: pa_memid where
  "pa_memid_none = pa_memid_create PA_MEM_NONE"

definition pa_memid_create_os :: "uintptr_t \<Rightarrow> size_t \<Rightarrow> bool \<Rightarrow> bool \<Rightarrow> bool \<Rightarrow> pa_memid" where
  "pa_memid_create_os base sz committed is_zero is_large =
     (pa_memid_create PA_MEM_OS)\<lparr>mi_mem := Mem_os base sz, mi_initially_committed := committed,
        mi_initially_zero := is_zero, mi_is_pinned := is_large\<rparr>"

section \<open>Freeing\<close>

definition pa_os_prim_free :: "'o pa_prim \<Rightarrow> uintptr_t \<Rightarrow> size_t \<Rightarrow> 'o \<Rightarrow> 'o" where
  "pa_os_prim_free pr addr sz os = (if addr = 0 then os else let (err, os) = prim_free pr os addr sz in os)"

definition PA_HUGE_OS_PAGE_SIZE :: size_t where "PA_HUGE_OS_PAGE_SIZE = 0x40000000"

function pa_os_free_huge_os_pages :: "'o pa_prim \<Rightarrow> uintptr_t \<Rightarrow> size_t \<Rightarrow> 'o \<Rightarrow> 'o" where
  "pa_os_free_huge_os_pages pr p sz os =
     (if p = 0 \<or> sz = 0 then os
      else if PA_HUGE_OS_PAGE_SIZE \<le> sz
      then let os = pa_os_prim_free pr p PA_HUGE_OS_PAGE_SIZE os
           in pa_os_free_huge_os_pages pr (p + PA_HUGE_OS_PAGE_SIZE) (sz - PA_HUGE_OS_PAGE_SIZE) os
      else os)"
  by pat_completeness auto
termination
proof (relation "measure (\<lambda>(pr, p, sz, os). unat sz)", goal_cases)
  case (2 pr p sz os x)
  then show ?case by (simp add: PA_HUGE_OS_PAGE_SIZE_def word_le_nat_alt unat_sub)
qed simp

text \<open>The fields \<open>base\<close> and \<open>size\<close> of a memory id, whichever member of the union was written last.\<close>

definition mem_os_base :: "pa_memid \<Rightarrow> uintptr_t" where
  "mem_os_base memid = (case mi_mem memid of Mem_os base sz \<Rightarrow> base | Mem_arena index i e \<Rightarrow> of_nat index)"

definition mem_os_size :: "pa_memid \<Rightarrow> size_t" where
  "mem_os_size memid = (case mi_mem memid of Mem_os base sz \<Rightarrow> sz | Mem_arena index i e \<Rightarrow> 0)"

definition pa_os_free_ex :: "'o pa_prim \<Rightarrow> uintptr_t \<Rightarrow> size_t \<Rightarrow> bool \<Rightarrow> pa_memid \<Rightarrow> 'o \<Rightarrow> 'o" where
  "pa_os_free_ex pr addr sz still_committed memid os =
     (if pa_memkind_is_os (mi_memkind memid)
      then let csize = (if mem_os_size memid = 0 then pa_os_good_alloc_size pr sz else mem_os_size memid);
               (base, csize) =
                 (if mem_os_base memid \<noteq> addr
                  then (mem_os_base memid, if mem_os_size memid = 0 then csize + (addr - mem_os_base memid) else csize)
                  else (addr, csize))
           in if mi_memkind memid = PA_MEM_OS_HUGE then pa_os_free_huge_os_pages pr base csize os
              else pa_os_prim_free pr base csize os
      else os)"

definition pa_os_free :: "'o pa_prim \<Rightarrow> uintptr_t \<Rightarrow> size_t \<Rightarrow> pa_memid \<Rightarrow> 'o \<Rightarrow> 'o" where
  "pa_os_free pr p sz memid os = pa_os_free_ex pr p sz True memid os"

section \<open>Page-aligned areas, commit, decommit, reset\<close>

definition pa_os_page_align_areax :: "'o pa_prim \<Rightarrow> bool \<Rightarrow> uintptr_t \<Rightarrow> size_t \<Rightarrow> uintptr_t \<times> size_t" where
  "pa_os_page_align_areax pr conservative addr sz =
     (if sz = 0 \<or> addr = 0 then (0, 0)
      else let page = pa_os_page_size pr;
               start = (if conservative then pa_align_up addr page else pa_align_down addr page);
               stop = (if conservative then pa_align_down (addr + sz) page else pa_align_up (addr + sz) page);
               diff = stop - start
           in if diff <=s 0 then (0, 0) else (start, diff))"

definition pa_os_page_align_area_conservative :: "'o pa_prim \<Rightarrow> uintptr_t \<Rightarrow> size_t \<Rightarrow> uintptr_t \<times> size_t" where
  "pa_os_page_align_area_conservative pr addr sz = pa_os_page_align_areax pr True addr sz"

definition pa_os_commit_ex :: "'o pa_prim \<Rightarrow> uintptr_t \<Rightarrow> size_t \<Rightarrow> 'o \<Rightarrow> bool \<times> bool \<times> 'o" where
  "pa_os_commit_ex pr addr sz os =
     (let (start, csize) = pa_os_page_align_areax pr False addr sz
      in if csize = 0 then (True, False, os)
         else let (err, os_is_zero, os) = prim_commit pr os start csize
              in if err \<noteq> 0 then (False, False, os) else (True, os_is_zero, os))"

definition pa_os_commit :: "'o pa_prim \<Rightarrow> uintptr_t \<Rightarrow> size_t \<Rightarrow> 'o \<Rightarrow> bool \<times> bool \<times> 'o" where
  "pa_os_commit pr addr sz os = pa_os_commit_ex pr addr sz os"

text \<open>The result is success and \<open>needs_recommit\<close>, which keeps the value it had before when the area is empty.\<close>

definition pa_os_decommit_ex :: "'o pa_prim \<Rightarrow> uintptr_t \<Rightarrow> size_t \<Rightarrow> bool \<Rightarrow> 'o \<Rightarrow> bool \<times> bool \<times> 'o" where
  "pa_os_decommit_ex pr addr sz needs_recommit os =
     (let (start, csize) = pa_os_page_align_area_conservative pr addr sz
      in if csize = 0 then (True, needs_recommit, os)
         else let (err, needs_recommit, os) = prim_decommit pr os start csize
              in (err = 0, needs_recommit, os))"

definition pa_os_decommit :: "'o pa_prim \<Rightarrow> uintptr_t \<Rightarrow> size_t \<Rightarrow> 'o \<Rightarrow> bool \<times> 'o" where
  "pa_os_decommit pr addr sz os = (let (ok, needs_recommit, os) = pa_os_decommit_ex pr addr sz False os in (ok, os))"

definition pa_os_reset :: "'o pa_prim \<Rightarrow> uintptr_t \<Rightarrow> size_t \<Rightarrow> 'o \<Rightarrow> bool \<times> 'o" where
  "pa_os_reset pr addr sz os =
     (let (start, csize) = pa_os_page_align_area_conservative pr addr sz
      in if csize = 0 then (True, os)
         else let (err, os) = prim_reset pr os start csize in (err = 0, os))"

definition pa_os_reuse :: "'o pa_prim \<Rightarrow> uintptr_t \<Rightarrow> size_t \<Rightarrow> 'o \<Rightarrow> 'o" where
  "pa_os_reuse pr addr sz os =
     (let (start, csize) = pa_os_page_align_area_conservative pr addr sz
      in if csize = 0 then os else let (err, os) = prim_reuse pr os start csize in os)"

definition pa_os_purge_ex :: "'o pa_prim \<Rightarrow> uintptr_t \<Rightarrow> size_t \<Rightarrow> bool \<Rightarrow> 'o \<Rightarrow> bool \<times> 'o" where
  "pa_os_purge_ex pr p sz allow_reset os =
     (if oc_purge_delay (prim_cfg pr) < 0 then (False, os)
      else if oc_purge_decommits (prim_cfg pr) \<and> \<not> oc_preloading (prim_cfg pr)
      then let (ok, needs_recommit, os) = pa_os_decommit_ex pr p sz True os in (needs_recommit, os)
      else (False, if allow_reset then snd (pa_os_reset pr p sz os) else os))"

definition pa_os_purge :: "'o pa_prim \<Rightarrow> uintptr_t \<Rightarrow> size_t \<Rightarrow> 'o \<Rightarrow> bool \<times> 'o" where
  "pa_os_purge pr p sz os = pa_os_purge_ex pr p sz True os"

definition pa_os_protectx :: "'o pa_prim \<Rightarrow> uintptr_t \<Rightarrow> size_t \<Rightarrow> bool \<Rightarrow> 'o \<Rightarrow> bool \<times> 'o" where
  "pa_os_protectx pr addr sz protect os =
     (let (start, csize) = pa_os_page_align_area_conservative pr addr sz
      in if csize = 0 then (False, os)
         else let (err, os) = prim_protect pr os start csize protect in (err = 0, os))"

section \<open>Allocation\<close>

text \<open>The results: the address, whether it is in large pages, whether it is zero.\<close>

definition pa_os_prim_alloc_at ::
    "'o pa_prim \<Rightarrow> uintptr_t \<Rightarrow> size_t \<Rightarrow> size_t \<Rightarrow> bool \<Rightarrow> bool \<Rightarrow> bool \<Rightarrow> 'o \<Rightarrow> uintptr_t \<times> bool \<times> bool \<times> 'o" where
  "pa_os_prim_alloc_at pr hint_addr sz try_alignment commit allow_large is_large os =
     (if sz = 0 then (0, is_large, False, os)
      else let allow_large = (commit \<and> allow_large);
               try_alignment = (if try_alignment = 0 then 1 else try_alignment);
               (err, is_large, is_zero, p, os) = prim_alloc pr os hint_addr sz try_alignment commit allow_large
           in (p, is_large, is_zero, os))"

definition pa_os_prim_alloc ::
    "'o pa_prim \<Rightarrow> size_t \<Rightarrow> size_t \<Rightarrow> bool \<Rightarrow> bool \<Rightarrow> bool \<Rightarrow> 'o \<Rightarrow> uintptr_t \<times> bool \<times> bool \<times> 'o" where
  "pa_os_prim_alloc pr sz try_alignment commit allow_large is_large os =
     pa_os_prim_alloc_at pr 0 sz try_alignment commit allow_large is_large os"

text \<open>The aligned address and the base of the memory that has to be freed with it, or nothing.\<close>

definition pa_os_prim_alloc_aligned ::
    "'o pa_prim \<Rightarrow> size_t \<Rightarrow> size_t \<Rightarrow> bool \<Rightarrow> bool \<Rightarrow> 'o \<Rightarrow> (uintptr_t \<times> uintptr_t \<times> bool \<times> bool) option \<times> 'o" where
  "pa_os_prim_alloc_aligned pr sz alignment commit allow_large os =
     (let allow_large = (commit \<and> allow_large); page = pa_os_page_size pr
      in if \<not> (page \<le> alignment \<and> alignment AND (alignment - 1) = 0) then (None, os)
      else let sz = pa_align_up sz page;
               (p, is_large, is_zero, os) = pa_os_prim_alloc pr sz alignment commit allow_large False os
      in if p = 0 then (None, os)
      else if p mod alignment = 0 then (Some (p, p, is_large, is_zero), os)
      else let os = pa_os_prim_free pr p sz os
      in if SIZE_MAX - alignment \<le> sz then (None, os)
      else let over_size = sz + alignment
      in if \<not> oc_has_partial_free (prim_cfg pr)
      then let (base, is_large, is_zero, os) = pa_os_prim_alloc pr over_size 1 False False is_large os
           in if base = 0 then (None, os)
           else let p = pa_align_up base alignment
           in if commit
              then let (ok, z, os) = pa_os_commit pr p sz os
                   in if \<not> ok then (None, pa_os_prim_free pr base over_size os)
                      else (Some (p, base, is_large, is_zero), os)
              else (Some (p, base, is_large, is_zero), os)
      else let (p, is_large, is_zero, os) = pa_os_prim_alloc pr over_size 1 commit False is_large os
           in if p = 0 then (None, os)
           else let aligned_p = pa_align_up p alignment;
                    pre_size = aligned_p - p; mid_size = pa_align_up sz page;
                    post_size = over_size - pre_size - mid_size;
                    os = (if 0 < pre_size then pa_os_prim_free pr p pre_size os else os);
                    os = (if 0 < post_size then pa_os_prim_free pr (aligned_p + mid_size) post_size os else os)
                in (Some (aligned_p, aligned_p, is_large, is_zero), os))"

definition pa_os_alloc :: "'o pa_prim \<Rightarrow> size_t \<Rightarrow> 'o \<Rightarrow> (uintptr_t \<times> pa_memid) option \<times> 'o" where
  "pa_os_alloc pr sz os =
     (if sz = 0 then (None, os)
      else let sz = pa_os_good_alloc_size pr sz;
               (p, is_large, is_zero, os) = pa_os_prim_alloc pr sz 0 True False False os
           in if p = 0 then (None, os) else (Some (p, pa_memid_create_os p sz True is_zero is_large), os))"

definition pa_os_alloc_aligned ::
    "'o pa_prim \<Rightarrow> size_t \<Rightarrow> size_t \<Rightarrow> bool \<Rightarrow> bool \<Rightarrow> 'o \<Rightarrow> (uintptr_t \<times> pa_memid) option \<times> 'o" where
  "pa_os_alloc_aligned pr sz alignment commit allow_large os =
     (if sz = 0 then (None, os)
      else let sz = pa_os_good_alloc_size pr sz; alignment = pa_align_up alignment (pa_os_page_size pr);
               (r, os) = pa_os_prim_alloc_aligned pr sz alignment commit allow_large os
           in case r of None \<Rightarrow> (None, os)
              | Some (p, base, is_large, is_zero) \<Rightarrow>
                  (Some (p, (pa_memid_create_os p sz commit is_zero is_large)\<lparr>mi_mem := Mem_os base (sz + (p - base))\<rparr>), os))"

definition pa_os_ensure_zero :: "'o pa_prim \<Rightarrow> (uintptr_t \<times> pa_memid) option \<Rightarrow> size_t \<Rightarrow> 'o \<Rightarrow> (uintptr_t \<times> pa_memid) option \<times> 'o" where
  "pa_os_ensure_zero pr r sz os =
     (case r of None \<Rightarrow> (None, os)
      | Some (p, memid) \<Rightarrow>
          if sz = 0 then (Some (p, memid), os)
          else let (ok, memid, os) =
                 (if mi_initially_committed memid then (True, memid, os)
                  else let (ok, z, os) = pa_os_commit pr p sz os
                       in if ok then (True, memid\<lparr>mi_initially_committed := True\<rparr>, os)
                          else (False, memid, pa_os_free pr p sz memid os))
               in if \<not> ok then (None, os) else (Some (p, memid\<lparr>mi_initially_zero := True\<rparr>), os))"

definition pa_os_zalloc :: "'o pa_prim \<Rightarrow> size_t \<Rightarrow> 'o \<Rightarrow> (uintptr_t \<times> pa_memid) option \<times> 'o" where
  "pa_os_zalloc pr sz os = (let (r, os) = pa_os_alloc pr sz os in pa_os_ensure_zero pr r sz os)"

definition pa_os_alloc_aligned_at_offset ::
    "'o pa_prim \<Rightarrow> size_t \<Rightarrow> size_t \<Rightarrow> size_t \<Rightarrow> bool \<Rightarrow> bool \<Rightarrow> 'o \<Rightarrow> (uintptr_t \<times> pa_memid) option \<times> 'o" where
  "pa_os_alloc_aligned_at_offset pr sz alignment offset commit allow_large os =
     (if PA_SEGMENT_SIZE < offset then (None, os)
      else if offset = 0 then pa_os_alloc_aligned pr sz alignment commit allow_large os
      else let extra = pa_align_up offset alignment - offset; oversize = sz + extra;
               (r, os) = pa_os_alloc_aligned pr oversize alignment commit allow_large os
           in case r of None \<Rightarrow> (None, os)
              | Some (start, memid) \<Rightarrow>
                  let p = start + extra;
                      os = (if commit \<and> pa_os_page_size pr < extra then snd (pa_os_decommit pr start extra os) else os)
                  in (Some (p, memid), os))"

section \<open>What the primitives are relied on for\<close>

definition area :: "uintptr_t \<Rightarrow> size_t \<Rightarrow> nat set" where
  "area p sz = {unat p..<unat p + unat sz}"

text \<open>\<open>mapped\<close> are the addresses the process has mapped through the primitives, \<open>comm\<close> the committed ones.  A fresh
  allocation is page aligned, is not in the last 64 KiB of the address space, overlaps nothing that is mapped, and is committed when that
  was asked for or when large pages were used; freeing touches no address outside the range and unmaps all of it when it reports success (\<open>munmap\<close>
  may fail); a decommit touches no address outside its range, and none at all when it reports that no recommit is needed.  That unmapping never
  fails is the separate condition \<open>unmap_ok\<close>, which only the exactness statements need.\<close>

definition os_prim_ok :: "('o \<Rightarrow> nat set) \<Rightarrow> ('o \<Rightarrow> nat set) \<Rightarrow> 'o pa_prim \<Rightarrow> bool" where
  "os_prim_ok mapped comm pr \<longleftrightarrow>
     (\<exists>k. k \<le> 16 \<and> 3 \<le> k \<and> pa_os_page_size pr = 2 ^ k) \<and>
     (\<forall>os hint sz al c l. case prim_alloc pr os hint sz al c l of (err, lg, z, p, os') \<Rightarrow>
        comm os \<subseteq> comm os' \<and>
        (if p = 0 then mapped os' = mapped os
         else unat p + unat sz + 65536 \<le> 2 ^ 64 \<and> pa_os_page_size pr dvd p \<and> area p sz \<inter> mapped os = {} \<and>
           mapped os' = mapped os \<union> area p sz \<and> (c \<or> lg \<longrightarrow> area p sz \<subseteq> comm os'))) \<and>
     (\<forall>os p sz. case prim_free pr os p sz of (err, os') \<Rightarrow>
        mapped os - area p sz \<subseteq> mapped os' \<and> mapped os' \<subseteq> mapped os \<and> (err = 0 \<longrightarrow> mapped os' = mapped os - area p sz) \<and>
        comm os - area p sz \<subseteq> comm os') \<and>
     (\<forall>os p sz. case prim_commit pr os p sz of (err, z, os') \<Rightarrow>
        mapped os' = mapped os \<and> comm os \<subseteq> comm os' \<and> (err = 0 \<longrightarrow> area p sz \<subseteq> comm os')) \<and>
     (\<forall>os p sz. case prim_decommit pr os p sz of (err, needs_recommit, os') \<Rightarrow>
        mapped os' = mapped os \<and> comm os - area p sz \<subseteq> comm os' \<and> (\<not> needs_recommit \<longrightarrow> comm os \<subseteq> comm os')) \<and>
     (\<forall>os p sz. mapped (snd (prim_reset pr os p sz)) = mapped os \<and> comm os \<subseteq> comm (snd (prim_reset pr os p sz))) \<and>
     (\<forall>os p sz. mapped (snd (prim_reuse pr os p sz)) = mapped os \<and> comm os \<subseteq> comm (snd (prim_reuse pr os p sz)))"

definition unmap_ok :: "'o pa_prim \<Rightarrow> bool" where
  "unmap_ok pr \<longleftrightarrow> (\<forall>os p sz. fst (prim_free pr os p sz) = 0)"

lemma os_prim_okD:
  assumes "os_prim_ok mapped comm pr"
  shows "prim_free pr os p sz = (err, os') \<Longrightarrow> mapped os - area p sz \<subseteq> mapped os' \<and> mapped os' \<subseteq> mapped os \<and>
      (err = 0 \<longrightarrow> mapped os' = mapped os - area p sz) \<and> comm os - area p sz \<subseteq> comm os'"
    "prim_commit pr os p sz = (err, z, os') \<Longrightarrow> mapped os' = mapped os \<and> comm os \<subseteq> comm os' \<and> (err = 0 \<longrightarrow> area p sz \<subseteq> comm os')"
    "prim_decommit pr os p sz = (err, needs, os') \<Longrightarrow>
       mapped os' = mapped os \<and> comm os - area p sz \<subseteq> comm os' \<and> (\<not> needs \<longrightarrow> comm os \<subseteq> comm os')"
    "mapped (snd (prim_reset pr os p sz)) = mapped os \<and> comm os \<subseteq> comm (snd (prim_reset pr os p sz))"
    "mapped (snd (prim_reuse pr os p sz)) = mapped os \<and> comm os \<subseteq> comm (snd (prim_reuse pr os p sz))"
    "prim_alloc pr os hint sz al c l = (err, lg, z, p, os') \<Longrightarrow> comm os \<subseteq> comm os' \<and>
        (if p = 0 then mapped os' = mapped os
         else unat p + unat sz + 65536 \<le> 2 ^ 64 \<and> pa_os_page_size pr dvd p \<and> area p sz \<inter> mapped os = {} \<and>
           mapped os' = mapped os \<union> area p sz \<and> (c \<or> lg \<longrightarrow> area p sz \<subseteq> comm os'))"
proof -
  note X = assms [unfolded os_prim_ok_def, THEN conjunct2]
  note A = X [THEN conjunct1] and Y = X [THEN conjunct2]
  note F = Y [THEN conjunct1] and Z = Y [THEN conjunct2]
  note C = Z [THEN conjunct1] and W = Z [THEN conjunct2]
  note D = W [THEN conjunct1] and R = W [THEN conjunct2, THEN conjunct1] W [THEN conjunct2, THEN conjunct2]
  show "comm os \<subseteq> comm os' \<and>
        (if p = 0 then mapped os' = mapped os
         else unat p + unat sz + 65536 \<le> 2 ^ 64 \<and> pa_os_page_size pr dvd p \<and> area p sz \<inter> mapped os = {} \<and>
           mapped os' = mapped os \<union> area p sz \<and> (c \<or> lg \<longrightarrow> area p sz \<subseteq> comm os'))"
    if e: "prim_alloc pr os hint sz al c l = (err, lg, z, p, os')"
    using A [THEN spec [of _ os], THEN spec [of _ hint], THEN spec [of _ sz], THEN spec [of _ al], THEN spec [of _ c], THEN spec [of _ l]] unfolding e prod.case .
  show "mapped os - area p sz \<subseteq> mapped os' \<and> mapped os' \<subseteq> mapped os \<and>
      (err = 0 \<longrightarrow> mapped os' = mapped os - area p sz) \<and> comm os - area p sz \<subseteq> comm os'" if e: "prim_free pr os p sz = (err, os')"
    using F [THEN spec [of _ os], THEN spec [of _ p], THEN spec [of _ sz]] unfolding e prod.case .
  show "mapped os' = mapped os \<and> comm os \<subseteq> comm os' \<and> (err = 0 \<longrightarrow> area p sz \<subseteq> comm os')" if e: "prim_commit pr os p sz = (err, z, os')"
    using C [THEN spec [of _ os], THEN spec [of _ p], THEN spec [of _ sz]] unfolding e prod.case .
  show "mapped os' = mapped os \<and> comm os - area p sz \<subseteq> comm os' \<and> (\<not> needs \<longrightarrow> comm os \<subseteq> comm os')" if e: "prim_decommit pr os p sz = (err, needs, os')"
    using D [THEN spec [of _ os], THEN spec [of _ p], THEN spec [of _ sz]] unfolding e prod.case .
  show "mapped (snd (prim_reset pr os p sz)) = mapped os \<and> comm os \<subseteq> comm (snd (prim_reset pr os p sz))"
    "mapped (snd (prim_reuse pr os p sz)) = mapped os \<and> comm os \<subseteq> comm (snd (prim_reuse pr os p sz))"
    using R by blast+
qed

lemma page_size_pow2:
  assumes "os_prim_ok mapped comm pr"
  obtains k where "3 \<le> k" "k \<le> 16" "pa_os_page_size pr = 2 ^ k" "unat (pa_os_page_size pr) = 2 ^ k"
    "unat (pa_os_page_size pr) \<le> 65536" "pa_os_page_size pr \<noteq> 0"
proof -
  obtain k where k: "k \<le> 16" "3 \<le> k" "pa_os_page_size pr = 2 ^ k" using assms by (auto simp: os_prim_ok_def)
  have u: "unat (pa_os_page_size pr) = 2 ^ k" using k by simp
  moreover have "(2 :: nat) ^ k \<le> 2 ^ 16" using k(1) by (intro power_increasing) auto
  ultimately have "unat (pa_os_page_size pr) \<le> 65536" by simp
  moreover have "pa_os_page_size pr \<noteq> 0" using u by (auto simp: unat_eq_0)
  ultimately show ?thesis using that k u by blast
qed

section \<open>Page-aligned areas\<close>

lemma unat_pa_align_down: "alignment \<noteq> 0 \<Longrightarrow> unat (pa_align_down sz alignment) = unat sz div unat alignment * unat alignment"
proof -
  assume a: "alignment \<noteq> 0"
  show ?thesis
  proof (cases "alignment AND (alignment - 1) = 0")
    case True
    obtain k where k: "k < 64" "alignment - 1 = mask k" "unat alignment = 2 ^ k" using a True by (rule pow2_and_pred_mask) simp
    have "pa_align_down sz alignment = sz AND NOT (mask k)" using True k(2) by (simp add: pa_align_down_def Let_def)
    then show ?thesis by (simp add: unat_and_not_mask k(3))
  next
    case False
    have "unat sz div unat alignment * unat alignment \<le> unat sz" by simp
    then have "unat sz div unat alignment * unat alignment < 2 ^ 64" by (rule le_less_trans) (use unat_lt2p [of sz] in simp)
    then show ?thesis using False by (simp add: pa_align_down_def Let_def unat_mult_no_wrap unat_div)
  qed
qed

lemma round_bounds:
  fixes n P :: nat
  assumes "0 < P"
  shows "n \<le> (n + (P - 1)) div P * P" "(n + (P - 1)) div P * P < n + P" "n div P * P \<le> n" "n < n div P * P + P"
proof -
  have 1: "(n + (P - 1)) div P * P + (n + (P - 1)) mod P = n + (P - 1)" "(n + (P - 1)) mod P < P" using assms by simp_all
  show "n \<le> (n + (P - 1)) div P * P" "(n + (P - 1)) div P * P < n + P" using 1 assms by linarith+
  have 2: "n div P * P + n mod P = n" "n mod P < P" using assms by simp_all
  show "n div P * P \<le> n" "n < n div P * P + P" using 2 by linarith+
qed

lemma sint_diff:
  assumes "unat a < unat b + 2 ^ 63" "unat b < unat a + 2 ^ 63"
  shows "sint (a - b :: 64 word) = int (unat a) - int (unat b)"
proof -
  have i: "int (unat a) < int (unat b + 2 ^ 63)" "int (unat b) < int (unat a + 2 ^ 63)"
    using assms by (simp_all only: of_nat_less_iff)
  have "a - b = word_of_int (int (unat a) - int (unat b))" by simp
  then have "sint (a - b) = signed_take_bit 63 (int (unat a) - int (unat b))"
    by (simp only: sint_sbintrunc') simp
  also have "\<dots> = int (unat a) - int (unat b)" using i by (intro signed_take_bit_int_eq_self) simp_all
  finally show ?thesis .
qed

lemma page_align_area:
  assumes ok: "os_prim_ok mapped comm pr" and a: "addr \<noteq> 0" "sz \<noteq> 0" and fit: "unat addr + unat sz + 65536 \<le> 2 ^ 64" "unat sz < 2 ^ 62"
    and r: "pa_os_page_align_areax pr False addr sz = (start, csize)"
  shows "csize \<noteq> 0" "area addr sz \<subseteq> area start csize" "unat start \<le> unat addr" "unat start + unat csize < 2 ^ 64"
proof -
  obtain k where k: "unat (pa_os_page_size pr) = 2 ^ k" "unat (pa_os_page_size pr) \<le> 65536" "pa_os_page_size pr \<noteq> 0"
    using page_size_pow2 [OF ok] by metis
  let ?ps = "pa_os_page_size pr" and ?P = "unat (pa_os_page_size pr)"
  define up where "up = pa_align_up (addr + sz) ?ps"
  define dn where "dn = pa_align_down addr ?ps"
  have P: "0 < ?P" using k(1) by simp
  have e: "unat (addr + sz) = unat addr + unat sz" using fit by (intro unat_add_no_wrap) simp
  have up1: "unat up = (unat (addr + sz) + (?P - 1)) div ?P * ?P"
    unfolding up_def by (rule unat_pa_align_up [OF k(3)]) (use e fit k(2) P in linarith)
  have up: "unat (addr + sz) \<le> unat up" "unat up < unat (addr + sz) + ?P"
    unfolding up1 by (rule round_bounds [OF P])+
  have dn1: "unat dn = unat addr div ?P * ?P" unfolding dn_def by (rule unat_pa_align_down [OF k(3)])
  have dn: "unat dn \<le> unat addr" "unat addr < unat dn + ?P" unfolding dn1 by (rule round_bounds [OF P])+
  have szp: "0 < unat sz" using a(2) by (simp add: unat_gt_0)
  have lt: "unat dn < unat up" "unat up - unat dn < 2 ^ 62 + 2 * 65536" using up dn e szp fit(2) k(2) by linarith+
  have ud: "unat (up - dn) = unat up - unat dn" using lt(1) by (intro unat_sub) (simp add: word_le_nat_alt)
  have "sint (up - dn) = int (unat up) - int (unat dn)" by (rule sint_diff) (use lt in simp)+
  then have pos: "\<not> up - dn <=s 0" unfolding word_sle_eq signed_0 using lt(1) by linarith
  have res: "start = dn" "csize = up - dn"
    using r a pos unfolding pa_os_page_align_areax_def Let_def up_def [symmetric] dn_def [symmetric] by (auto simp: up_def dn_def)
  show "csize \<noteq> 0" using res(2) ud lt(1) by auto
  show "area addr sz \<subseteq> area start csize" unfolding res area_def ud using dn up e lt(1) by auto
  show "unat start \<le> unat addr" using res dn by simp
  show "unat start + unat csize < 2 ^ 64" unfolding res ud using lt(1) up e fit k(2) by linarith
qed

lemma page_align_area_conservative:
  assumes ok: "os_prim_ok mapped comm pr" and fit: "unat addr + unat sz + 65536 \<le> 2 ^ 64" "unat sz < 2 ^ 62"
    and r: "pa_os_page_align_area_conservative pr addr sz = (start, csize)"
  shows "area start csize \<subseteq> area addr sz"
proof (cases "sz = 0 \<or> addr = 0")
  case True
  then show ?thesis using r by (auto simp: pa_os_page_align_area_conservative_def pa_os_page_align_areax_def area_def)
next
  case False
  obtain k where k: "unat (pa_os_page_size pr) = 2 ^ k" "unat (pa_os_page_size pr) \<le> 65536" "pa_os_page_size pr \<noteq> 0"
    using page_size_pow2 [OF ok] by metis
  let ?ps = "pa_os_page_size pr" and ?P = "unat (pa_os_page_size pr)"
  define up where "up = pa_align_up addr ?ps"
  define dn where "dn = pa_align_down (addr + sz) ?ps"
  have P: "0 < ?P" using k(1) by simp
  have e: "unat (addr + sz) = unat addr + unat sz" using fit by (intro unat_add_no_wrap) simp
  have up1: "unat up = (unat addr + (?P - 1)) div ?P * ?P"
    unfolding up_def by (rule unat_pa_align_up [OF k(3)]) (use fit k(2) P in linarith)
  have up: "unat addr \<le> unat up" "unat up < unat addr + ?P"
    unfolding up1 by (rule round_bounds [OF P])+
  have dn1: "unat dn = unat (addr + sz) div ?P * ?P" unfolding dn_def by (rule unat_pa_align_down [OF k(3)])
  have dn: "unat dn \<le> unat addr + unat sz" "unat addr + unat sz < unat dn + ?P"
    unfolding dn1 e [symmetric] by (rule round_bounds [OF P])+
  have "sint (dn - up) = int (unat dn) - int (unat up)" by (rule sint_diff) (use up dn fit(2) k(2) in simp)+
  then have sle: "dn - up <=s 0 \<longleftrightarrow> unat dn \<le> unat up" unfolding word_sle_eq signed_0 by linarith
  have res: "(start, csize) = (if unat dn \<le> unat up then (0, 0) else (up, dn - up))"
    using r False sle unfolding pa_os_page_align_area_conservative_def pa_os_page_align_areax_def Let_def if_True
      up_def [symmetric] dn_def [symmetric] by simp
  show ?thesis
  proof (cases "unat dn \<le> unat up")
    case True
    then show ?thesis using res by (simp add: area_def)
  next
    case False
    then have "unat (dn - up) = unat dn - unat up" by (intro unat_sub) (simp add: word_le_nat_alt)
    then show ?thesis using False res up dn by (auto simp: area_def)
  qed
qed

section \<open>Commit and purge\<close>

lemma os_commit_sound:
  assumes ok: "os_prim_ok mapped comm pr" and a: "addr \<noteq> 0" and fit: "unat addr + unat sz + 65536 \<le> 2 ^ 64" "unat sz < 2 ^ 62"
    and r: "pa_os_commit_ex pr addr sz os = (res, z, os')"
  shows "mapped os' = mapped os" "comm os \<subseteq> comm os'" "res \<Longrightarrow> area addr sz \<subseteq> comm os'"
proof -
  obtain start csize where al: "pa_os_page_align_areax pr False addr sz = (start, csize)" by (meson surj_pair)
  obtain err z' os1 where c: "prim_commit pr os start csize = (err, z', os1)" by (metis prod_cases3)
  note P = os_prim_okD(2) [OF ok c]
  have E: "(res, z, os') = (if csize = 0 then (True, False, os) else if err \<noteq> 0 then (False, False, os1) else (True, z', os1))"
    using r [symmetric] al c by (simp add: pa_os_commit_ex_def)
  then show "mapped os' = mapped os" "comm os \<subseteq> comm os'" using P by (auto split: if_splits)
  show "area addr sz \<subseteq> comm os'" if res
  proof (cases "sz = 0")
    case False
    note A = page_align_area [OF ok a False fit al]
    show ?thesis using E that A(1,2) P by (auto split: if_splits)
  qed (simp add: area_def)
qed

lemma os_purge_sound:
  assumes ok: "os_prim_ok mapped comm pr" and fit: "unat addr + unat sz + 65536 \<le> 2 ^ 64" "unat sz < 2 ^ 62"
    and r: "pa_os_purge_ex pr addr sz allow_reset os = (needs, os')"
  shows "mapped os' = mapped os" "comm os - area addr sz \<subseteq> comm os'" "\<not> needs \<Longrightarrow> comm os \<subseteq> comm os'"
proof -
  obtain start csize where al: "pa_os_page_align_area_conservative pr addr sz = (start, csize)" by (meson surj_pair)
  have sub: "area start csize \<subseteq> area addr sz" by (rule page_align_area_conservative [OF ok fit al])
  obtain err nr os1 where d: "prim_decommit pr os start csize = (err, nr, os1)" by (metis prod_cases3)
  note D = os_prim_okD(3) [OF ok d]
  have reset: "snd (pa_os_reset pr addr sz os) = (if csize = 0 then os else snd (prim_reset pr os start csize))"
    using al by (simp add: pa_os_reset_def split: prod.splits)
  have dec: "pa_os_decommit_ex pr addr sz True os = (if csize = 0 then (True, True, os) else (err = 0, nr, os1))"
    using al d by (simp add: pa_os_decommit_ex_def)
  have R: "mapped (snd (pa_os_reset pr addr sz os)) = mapped os" "comm os \<subseteq> comm (snd (pa_os_reset pr addr sz os))"
    using os_prim_okD(4) [OF ok, of os start csize] unfolding reset by auto
  have E: "(needs, os') = (if oc_purge_delay (prim_cfg pr) < 0 then (False, os)
      else if oc_purge_decommits (prim_cfg pr) \<and> \<not> oc_preloading (prim_cfg pr)
      then (if csize = 0 then (True, os) else (nr, os1))
      else (False, if allow_reset then snd (pa_os_reset pr addr sz os) else os))"
    using r [symmetric] dec by (simp add: pa_os_purge_ex_def)
  show "mapped os' = mapped os" "comm os - area addr sz \<subseteq> comm os'" "\<not> needs \<Longrightarrow> comm os \<subseteq> comm os'"
    using E R D sub by (auto split: if_splits)
qed

section \<open>Allocation\<close>

lemma os_prim_free_area:
  assumes "os_prim_ok mapped comm pr" "p \<noteq> 0"
  shows "mapped os - area p sz \<subseteq> mapped (pa_os_prim_free pr p sz os)" "mapped (pa_os_prim_free pr p sz os) \<subseteq> mapped os"
    "unmap_ok pr \<Longrightarrow> mapped (pa_os_prim_free pr p sz os) = mapped os - area p sz"
    "comm os - area p sz \<subseteq> comm (pa_os_prim_free pr p sz os)"
proof -
  obtain err os' where f: "prim_free pr os p sz = (err, os')" by (meson surj_pair)
  then have e: "pa_os_prim_free pr p sz os = os'" using assms(2) by (simp add: pa_os_prim_free_def)
  note D = os_prim_okD(1) [OF assms(1) f]
  show "mapped os - area p sz \<subseteq> mapped (pa_os_prim_free pr p sz os)" "mapped (pa_os_prim_free pr p sz os) \<subseteq> mapped os"
    "comm os - area p sz \<subseteq> comm (pa_os_prim_free pr p sz os)" unfolding e using D by blast+
  show "mapped (pa_os_prim_free pr p sz os) = mapped os - area p sz" if "unmap_ok pr"
  proof -
    have "fst (prim_free pr os p sz) = 0" using that by (simp add: unmap_ok_def)
    then show ?thesis unfolding e using D f by simp
  qed
qed

lemma os_prim_alloc_area:
  assumes ok: "os_prim_ok mapped comm pr" and sz: "sz \<noteq> 0" and r: "pa_os_prim_alloc pr sz al c l lg os = (p, lg', z, os')"
  shows "comm os \<subseteq> comm os'" "p = 0 \<Longrightarrow> mapped os' = mapped os"
    "p \<noteq> 0 \<Longrightarrow> unat p + unat sz + 65536 \<le> 2 ^ 64 \<and> pa_os_page_size pr dvd p \<and> area p sz \<inter> mapped os = {} \<and>
       mapped os' = mapped os \<union> area p sz \<and> (c \<or> lg' \<longrightarrow> area p sz \<subseteq> comm os')"
proof -
  obtain err lg1 z1 p1 os1 where a: "prim_alloc pr os 0 sz (if al = 0 then 1 else al) c (c \<and> l) = (err, lg1, z1, p1, os1)"
    by (metis prod_cases5)
  have "(p, lg', z, os') = (p1, lg1, z1, os1)"
    using r [symmetric] a sz by (simp add: pa_os_prim_alloc_def pa_os_prim_alloc_at_def Let_def)
  then show "comm os \<subseteq> comm os'" "p = 0 \<Longrightarrow> mapped os' = mapped os"
    "p \<noteq> 0 \<Longrightarrow> unat p + unat sz + 65536 \<le> 2 ^ 64 \<and> pa_os_page_size pr dvd p \<and> area p sz \<inter> mapped os = {} \<and>
       mapped os' = mapped os \<union> area p sz \<and> (c \<or> lg' \<longrightarrow> area p sz \<subseteq> comm os')"
    using os_prim_okD(6) [OF ok a] by auto
qed

lemma unat_align_up_bounds:
  assumes "al \<noteq> 0" "unat x + unat al \<le> 2 ^ 64"
  shows "unat x \<le> unat (pa_align_up x al)" "unat (pa_align_up x al) < unat x + unat al" "unat al dvd unat (pa_align_up x al)"
proof -
  have P: "0 < unat al" using assms(1) by (simp add: unat_gt_0)
  have "unat (pa_align_up x al) = (unat x + (unat al - 1)) div unat al * unat al"
    by (rule unat_pa_align_up [OF assms(1)]) (use assms(2) P in linarith)
  then show "unat x \<le> unat (pa_align_up x al)" "unat (pa_align_up x al) < unat x + unat al" "unat al dvd unat (pa_align_up x al)"
    using round_bounds [OF P] by simp_all
qed

lemma good_alloc_size:
  assumes ok: "os_prim_ok mapped comm pr"
  shows "unat sz \<le> unat (pa_os_good_alloc_size pr sz)"
    "0x80000 \<le> unat sz \<Longrightarrow> 8 * (unat (pa_os_good_alloc_size pr sz) - unat sz) < unat sz"
    "unat sz < 2 ^ 62 \<Longrightarrow> unat (pa_os_page_size pr) dvd unat (pa_os_good_alloc_size pr sz) \<and> unat (pa_os_good_alloc_size pr sz) < 2 ^ 62 + 2 ^ 23"
proof -
  obtain k where k: "k \<le> 16" "pa_os_page_size pr = 2 ^ k" "unat (pa_os_page_size pr) = 2 ^ k" "unat (pa_os_page_size pr) \<le> 65536" "pa_os_page_size pr \<noteq> 0"
    using page_size_pow2 [OF ok] by metis
  define al where "al = (if sz < 0x80000 then pa_os_page_size pr else if sz < 0x200000 then 0x10000
      else if sz < 0x800000 then 0x40000 else if sz < 0x2000000 then 0x100000 else 0x400000)"
  have g: "pa_os_good_alloc_size pr sz = (if SIZE_MAX - al \<le> sz then sz else pa_align_up sz al)"
    by (simp only: pa_os_good_alloc_size_def Let_def al_def)
  have al: "al \<noteq> 0" "unat al \<le> 0x400000" using k by (auto simp: al_def)
  have "unat (SIZE_MAX - al) = 2 ^ 64 - 1 - unat al"
    using al(2) by (simp add: SIZE_MAX_def unat_sub word_le_nat_alt unat_max_word)
  then have lim: "SIZE_MAX - al \<le> sz \<longleftrightarrow> 2 ^ 64 - 1 - unat al \<le> unat sz" by (simp add: word_le_nat_alt)
  have B: "unat sz \<le> unat (pa_align_up sz al)" "unat (pa_align_up sz al) < unat sz + unat al" "unat al dvd unat (pa_align_up sz al)"
    if "\<not> SIZE_MAX - al \<le> sz"
    using unat_align_up_bounds [OF al(1), of sz] that lim by linarith+
  show "unat sz \<le> unat (pa_os_good_alloc_size pr sz)" using g B by auto
  have small: "8 * unat al \<le> unat sz" if "0x80000 \<le> unat sz"
    using that by (auto simp: al_def word_less_nat_alt)
  show "8 * (unat (pa_os_good_alloc_size pr sz) - unat sz) < unat sz" if "0x80000 \<le> unat sz"
    using g B small [OF that] that by (cases "SIZE_MAX - al \<le> sz") simp_all
  have dv: "unat (pa_os_page_size pr) dvd unat al"
  proof -
    have "(2::nat) ^ k dvd 2 ^ n" if "16 \<le> n" for n using k(1) that by (intro le_imp_power_dvd) simp
    from this [of 16] this [of 18] this [of 20] this [of 22] show ?thesis using k(3) by (auto simp: al_def)
  qed
  show "unat (pa_os_page_size pr) dvd unat (pa_os_good_alloc_size pr sz) \<and> unat (pa_os_good_alloc_size pr sz) < 2 ^ 62 + 2 ^ 23"
    if "unat sz < 2 ^ 62"
  proof -
    have "\<not> SIZE_MAX - al \<le> sz" unfolding lim using that al(2) by simp
    then show ?thesis using g B dv dvd_trans al(2) that by auto
  qed
qed

lemma align_up_multiple:
  assumes "al \<noteq> 0" "unat al dvd unat x" "unat x + unat al \<le> 2 ^ 64"
  shows "pa_align_up x al = x"
proof -
  note B = unat_align_up_bounds [OF assms(1,3)]
  obtain m n where m: "unat x = unat al * m" and n: "unat (pa_align_up x al) = unat al * n" using assms(2) B(3) by (auto elim!: dvdE)
  have P: "0 < unat al" using assms(1) by (simp add: unat_gt_0)
  have "unat al * m \<le> unat al * n" "unat al * n < unat al * (m + 1)" using B(1,2) unfolding m n by (simp_all add: add_mult_distrib2)
  then have "m \<le> n" "n < m + 1" using P unfolding nat_mult_le_cancel_disj nat_mult_less_cancel_disj by auto
  then show ?thesis using m n by (simp add: word_unat_eq_iff)
qed

lemma area_three:
  assumes "unat a + unat b + unat c = unat n" "unat p + unat n \<le> 2 ^ 64" "0 < unat c"
  shows "area p n = area p a \<union> area (p + a) b \<union> area (p + a + b) c" "unat (p + a) = unat p + unat a"
    "unat (p + a + b) = unat p + unat a + unat b"
proof -
  show 1: "unat (p + a) = unat p + unat a" using assms by (intro unat_add_no_wrap) simp
  show 2: "unat (p + a + b) = unat p + unat a + unat b" using assms 1 by (subst unat_add_no_wrap) simp_all
  show "area p n = area p a \<union> area (p + a) b \<union> area (p + a + b) c" unfolding area_def 1 2 using assms(1) by auto
qed

lemma prim_alloc_aligned_exact:
  assumes ok: "os_prim_ok mapped comm pr" and pf: "oc_has_partial_free (prim_cfg pr)"
    and al: "al AND (al - 1) = 0" "pa_os_page_size pr \<le> al" "unat al \<le> 2 ^ 62"
    and sz: "sz \<noteq> 0" "unat (pa_os_page_size pr) dvd unat sz" "unat sz < 2 ^ 62 + 2 ^ 23"
    and r: "pa_os_prim_alloc_aligned pr sz al c l os = (res, os')"
  shows "comm os \<inter> mapped os \<subseteq> comm os' \<and> mapped os \<subseteq> mapped os' \<and> (case res of None \<Rightarrow> unmap_ok pr \<longrightarrow> mapped os' = mapped os
    | Some (p, base, lg, z) \<Rightarrow> p \<noteq> 0 \<and> base = p \<and> p mod al = 0 \<and> unat p + unat sz + 65536 \<le> 2 ^ 64 \<and> area p sz \<inter> mapped os = {} \<and>
        area p sz \<subseteq> mapped os' \<and> (unmap_ok pr \<longrightarrow> mapped os' = mapped os \<union> area p sz) \<and> (c \<or> lg \<longrightarrow> area p sz \<subseteq> comm os'))"
proof -
  let ?ps = "pa_os_page_size pr"
  obtain k where k: "unat ?ps \<le> 65536" "?ps \<noteq> 0" using page_size_pow2 [OF ok] by metis
  have al0: "al \<noteq> 0" using al(2) k(2) by auto
  have szu: "pa_align_up sz ?ps = sz" by (rule align_up_multiple [OF k(2) sz(2)]) (use sz(3) k(1) in simp)
  obtain p1 lg1 z1 os1 where a1: "pa_os_prim_alloc pr sz al c (c \<and> l) False os = (p1, lg1, z1, os1)" by (metis prod_cases4)
  note A1 = os_prim_alloc_area [OF ok sz(1) a1]
  define os2 where "os2 = pa_os_prim_free pr p1 sz os1"
  define over where "over = sz + al"
  obtain p2 lg2 z2 os3 where a2: "pa_os_prim_alloc pr over 1 c False lg1 os2 = (p2, lg2, z2, os3)" by (metis prod_cases4)
  define q where "q = pa_align_up p2 al"
  define pre where "pre = q - p2"
  define post where "post = over - pre - sz"
  define os4 where "os4 = (if 0 < pre then pa_os_prim_free pr p2 pre os3 else os3)"
  define os5 where "os5 = (if 0 < post then pa_os_prim_free pr (q + sz) post os4 else os4)"
  have E: "(res, os') =
     (if p1 = 0 then (None, os1)
      else if p1 mod al = 0 then (Some (p1, p1, lg1, z1), os1)
      else if SIZE_MAX - al \<le> sz then (None, os2)
      else if p2 = 0 then (None, os3) else (Some (q, q, lg2, z2), os5))"
    unfolding r [symmetric] pa_os_prim_alloc_aligned_def Let_def szu a1 prod.case os2_def [symmetric] over_def [symmetric] a2
      q_def [symmetric] pre_def [symmetric] post_def [symmetric] os4_def [symmetric] os5_def [symmetric]
    using al(1,2) pf by simp
  have m2: "mapped os \<subseteq> mapped os2" "comm os \<inter> mapped os \<subseteq> comm os2" "unmap_ok pr \<Longrightarrow> mapped os2 = mapped os" if "p1 \<noteq> 0"
  proof -
    note F = os_prim_free_area [OF ok that, where sz = sz and os = os1] and A = A1(1) A1(3) [OF that]
    show "mapped os \<subseteq> mapped os2" "comm os \<inter> mapped os \<subseteq> comm os2" unfolding os2_def using F(1,4) A by blast+
    show "mapped os2 = mapped os" if u: "unmap_ok pr" unfolding os2_def F(3) [OF u] using A by blast
  qed
  have over: "unat over = unat sz + unat al" unfolding over_def using sz(3) al(3) by (intro unat_add_no_wrap) simp
  have over0: "over \<noteq> 0" using over sz(1) by (metis add_eq_0_iff_both_eq_0 unat_eq_0)
  note A2 = os_prim_alloc_area [OF ok over0 a2]
  have last: "q \<noteq> 0 \<and> q mod al = 0 \<and> unat q + unat sz + 65536 \<le> 2 ^ 64 \<and> area q sz \<inter> mapped os2 = {} \<and>
      mapped os2 \<union> area q sz \<subseteq> mapped os5 \<and> (unmap_ok pr \<longrightarrow> mapped os5 = mapped os2 \<union> area q sz) \<and>
      comm os2 \<inter> mapped os2 \<subseteq> comm os5 \<and> (c \<or> lg2 \<longrightarrow> area q sz \<subseteq> comm os5)" if p2: "p2 \<noteq> 0"
  proof -
    note B = A2(3) [OF p2]
    have qb: "unat p2 \<le> unat q" "unat q < unat p2 + unat al" "unat al dvd unat q"
      unfolding q_def using unat_align_up_bounds [OF al0, of p2] B over by linarith+
    have pre: "unat pre = unat q - unat p2" unfolding pre_def using qb(1) by (intro unat_sub) (simp add: word_le_nat_alt)
    have "unat (over - pre) = unat over - unat pre" using pre qb over by (intro unat_sub) (simp add: word_le_nat_alt)
    then have post: "unat post = unat al - unat pre" unfolding post_def
      using pre qb over by (subst unat_sub) (auto simp: word_le_nat_alt)
    have sum: "unat pre + unat sz + unat post = unat over" "0 < unat post" using post pre qb over by linarith+
    have qq: "p2 + pre = q" by (simp add: pre_def)
    have u3: "unat p2 + unat over \<le> 2 ^ 64" and u3': "unat p2 + unat over + 65536 \<le> 2 ^ 64" using B by (linarith, blast)
    note T = area_three [OF sum(1) u3 sum(2), unfolded qq]
    have q0: "q \<noteq> 0" "q + sz \<noteq> 0" using qb(1) p2 T(3) unat_gt_0 [of p2] by auto
    have dis: "area p2 pre \<inter> area q sz = {}" "area (q + sz) post \<inter> area q sz = {}" "area p2 pre \<inter> area (q + sz) post = {}"
      using T(2,3) by (auto simp: area_def)
    have m4: "mapped os3 - area p2 pre \<subseteq> mapped os4" "comm os3 - area p2 pre \<subseteq> comm os4" "unmap_ok pr \<Longrightarrow> mapped os4 = mapped os3 - area p2 pre"
      using os_prim_free_area [OF ok p2, where sz = pre and os = os3] by (auto simp: os4_def area_def word_neq_0_conv [symmetric] split: if_splits)
    have m5: "mapped os4 - area (q + sz) post \<subseteq> mapped os5" "comm os4 - area (q + sz) post \<subseteq> comm os5"
      "unmap_ok pr \<Longrightarrow> mapped os5 = mapped os4 - area (q + sz) post"
      using os_prim_free_area [OF ok q0(2), where sz = post and os = os4] by (auto simp: os5_def area_def word_neq_0_conv [symmetric] split: if_splits)
    have m3: "mapped os3 = mapped os2 \<union> area p2 over" "area p2 over \<inter> mapped os2 = {}" using B by blast+
    have "mapped os2 \<union> area q sz \<subseteq> mapped os5" "area q sz \<inter> mapped os2 = {}"
      using m3 m4(1) m5(1) dis unfolding T(1) by blast+
    moreover have "mapped os5 = mapped os2 \<union> area q sz" if u: "unmap_ok pr"
      unfolding m5(3) [OF u] m4(3) [OF u] m3(1) T(1) using m3(2) dis unfolding T(1) by blast
    moreover have "area p2 over \<inter> mapped os2 = {}" using B by blast
    then have "comm os2 \<inter> mapped os2 \<subseteq> comm os5" using A2(1) m4(2) m5(2) unfolding T(1) by blast
    moreover have "area q sz \<subseteq> comm os5" if "c \<or> lg2"
      using B that m4(2) m5(2) dis unfolding T(1) by blast
    moreover have "q mod al = 0" using qb(3) by (simp add: word_unat_eq_iff unat_mod)
    moreover have "unat q + unat sz + 65536 \<le> 2 ^ 64" using T(2) u3' sum by linarith
    ultimately show ?thesis using q0(1) by blast
  qed
  show ?thesis
  proof (cases "p1 = 0 \<or> p1 mod al = 0")
    case True
    then show ?thesis using E A1 by (auto split: if_splits)
  next
    case False
    then have "p1 \<noteq> 0" by simp
    note M = m2 [OF this]
    have "(res, os') = (if SIZE_MAX - al \<le> sz then (None, os2) else if p2 = 0 then (None, os3) else (Some (q, q, lg2, z2), os5))"
      using False E by simp
    then consider (big) "res = None" "os' = os2" | (none) "res = None" "os' = os3" "p2 = 0" | (over) "res = Some (q, q, lg2, z2)" "os' = os5" "p2 \<noteq> 0"
      by (auto split: if_splits)
    then show ?thesis
    proof cases
      case big
      then show ?thesis using M by simp
    next
      case none
      then show ?thesis using M A2(1) A2(2) [OF none(3)] by auto
    next
      case over
      note L = last [OF over(3)]
      have "area q sz \<inter> mapped os = {}" "mapped os \<subseteq> mapped os5" "area q sz \<subseteq> mapped os5" using L M(1) by blast+
      moreover have "comm os \<inter> mapped os \<subseteq> comm os5" using L M(1,2) by blast
      moreover have "mapped os5 = mapped os \<union> area q sz" if "unmap_ok pr" using L M(3) [OF that] that by blast
      ultimately show ?thesis using L over(1,2) by simp
    qed
  qed
qed

lemma os_decommit_sound:
  assumes ok: "os_prim_ok mapped comm pr" and fit: "unat addr + unat sz + 65536 \<le> 2 ^ 64" "unat sz < 2 ^ 62"
    and r: "pa_os_decommit pr addr sz os = (res, os')"
  shows "mapped os' = mapped os" "comm os - area addr sz \<subseteq> comm os'"
proof -
  obtain start csize where al: "pa_os_page_align_area_conservative pr addr sz = (start, csize)" by (meson surj_pair)
  have sub: "area start csize \<subseteq> area addr sz" by (rule page_align_area_conservative [OF ok fit al])
  obtain err nr os1 where d: "prim_decommit pr os start csize = (err, nr, os1)" by (metis prod_cases3)
  have "os' = (if csize = 0 then os else os1)"
    using r al d by (auto simp: pa_os_decommit_def pa_os_decommit_ex_def split: if_splits)
  then show "mapped os' = mapped os" "comm os - area addr sz \<subseteq> comm os'"
    using os_prim_okD(3) [OF ok d] sub by (auto split: if_splits)
qed

text \<open>What an allocation with its memory id is: \<open>extent\<close> is the range that the memory id stands for.\<close>

definition os_extent :: "pa_memid \<Rightarrow> nat set" where
  "os_extent memid = area (mem_os_base memid) (mem_os_size memid)"

definition os_memid_ok :: "pa_memid \<Rightarrow> bool" where
  "os_memid_ok memid \<longleftrightarrow> mi_memkind memid = PA_MEM_OS \<and> mem_os_base memid \<noteq> 0 \<and> mem_os_size memid \<noteq> 0 \<and>
     unat (mem_os_base memid) + unat (mem_os_size memid) + 65536 \<le> 2 ^ 64"

lemma os_free_extent:
  assumes ok: "os_prim_ok mapped comm pr" and m: "os_memid_ok memid"
  shows "mapped os - os_extent memid \<subseteq> mapped (pa_os_free_ex pr p sz c memid os)" "mapped (pa_os_free_ex pr p sz c memid os) \<subseteq> mapped os"
    "unmap_ok pr \<Longrightarrow> mapped (pa_os_free_ex pr p sz c memid os) = mapped os - os_extent memid"
    "comm os - os_extent memid \<subseteq> comm (pa_os_free_ex pr p sz c memid os)"
proof -
  have e: "pa_os_free_ex pr p sz c memid os = pa_os_prim_free pr (mem_os_base memid) (mem_os_size memid) os"
    using m by (auto simp: pa_os_free_ex_def os_memid_ok_def pa_memkind_is_os_def Let_def)
  have b: "mem_os_base memid \<noteq> 0" using m by (simp add: os_memid_ok_def)
  show "mapped os - os_extent memid \<subseteq> mapped (pa_os_free_ex pr p sz c memid os)" "mapped (pa_os_free_ex pr p sz c memid os) \<subseteq> mapped os"
    "unmap_ok pr \<Longrightarrow> mapped (pa_os_free_ex pr p sz c memid os) = mapped os - os_extent memid"
    "comm os - os_extent memid \<subseteq> comm (pa_os_free_ex pr p sz c memid os)"
    unfolding e os_extent_def by (rule os_prim_free_area [OF ok b], assumption?)+
qed

lemma os_alloc_aligned_spec:
  assumes "os_prim_ok mapped comm pr" "oc_has_partial_free (prim_cfg pr)" "pa_is_power_of_two alignment" "pa_os_page_size pr \<le> alignment"
    and "unat alignment \<le> 2 ^ 62" "0 < unat sz" "unat sz < 2 ^ 62"
    and "pa_os_alloc_aligned pr sz alignment commit allow_large os = (r, os')"
  shows "comm os \<inter> mapped os \<subseteq> comm os' \<and> mapped os \<subseteq> mapped os' \<and> (case r of None \<Rightarrow> unmap_ok pr \<longrightarrow> mapped os' = mapped os
    | Some (p, memid) \<Rightarrow> p mod alignment = 0 \<and> os_memid_ok memid \<and> mem_os_base memid = p \<and> unat sz \<le> unat (mem_os_size memid) \<and>
        mi_initially_committed memid = commit \<and>
        os_extent memid \<inter> mapped os = {} \<and> os_extent memid \<subseteq> mapped os' \<and> (unmap_ok pr \<longrightarrow> mapped os' = mapped os \<union> os_extent memid) \<and>
        (commit \<or> mi_is_pinned memid \<longrightarrow> os_extent memid \<subseteq> comm os'))"
proof -
  let ?ps = "pa_os_page_size pr" and ?g = "pa_os_good_alloc_size pr sz"
  obtain k where k: "unat ?ps = 2 ^ k" "k \<le> 16" "?ps = 2 ^ k" "?ps \<noteq> 0" using page_size_pow2 [OF assms(1)] by metis
  have pow: "alignment AND (alignment - 1) = 0" using assms(3) by (simp add: pa_is_power_of_two_def)
  have "alignment \<noteq> 0" using assms(4) k(4) by auto
  then obtain m where m: "unat alignment = 2 ^ m" using pow by (rule pow2_and_pred_mask)
  have "(2::nat) ^ k \<le> 2 ^ m" using assms(4) k(1) m by (simp add: word_le_nat_alt)
  then have "k \<le> m" by (rule power_le_imp_le_exp [rotated]) simp
  then have "unat ?ps dvd unat alignment" unfolding k(1) m by (rule le_imp_power_dvd)
  moreover have "unat alignment + unat ?ps \<le> 2 ^ 64"
  proof -
    have "(2::nat) ^ k \<le> 2 ^ 16" using k(2) by (intro power_increasing) auto
    then show ?thesis using assms(5) k(1) by simp
  qed
  ultimately have alu: "pa_align_up alignment ?ps = alignment" by (intro align_up_multiple [OF k(4)])
  note G = good_alloc_size [OF assms(1), of sz]
  have g0: "?g \<noteq> 0" using G(1) assms(6) by auto
  obtain r1 os1 where r1: "pa_os_prim_alloc_aligned pr ?g alignment commit allow_large os = (r1, os1)" by (meson surj_pair)
  have P: "comm os \<inter> mapped os \<subseteq> comm os1 \<and> mapped os \<subseteq> mapped os1 \<and> (case r1 of None \<Rightarrow> unmap_ok pr \<longrightarrow> mapped os1 = mapped os
    | Some (p, base, lg, z) \<Rightarrow> p \<noteq> 0 \<and> base = p \<and> p mod alignment = 0 \<and> unat p + unat ?g + 65536 \<le> 2 ^ 64 \<and> area p ?g \<inter> mapped os = {} \<and>
        area p ?g \<subseteq> mapped os1 \<and> (unmap_ok pr \<longrightarrow> mapped os1 = mapped os \<union> area p ?g) \<and> (commit \<or> lg \<longrightarrow> area p ?g \<subseteq> comm os1))"
    by (rule prim_alloc_aligned_exact [OF assms(1,2) pow assms(4,5) g0 _ _ r1]) (use G(3) assms(7) in auto)
  have E: "(r, os') = (case r1 of None \<Rightarrow> (None, os1)
      | Some (p, base, lg, z) \<Rightarrow> (Some (p, (pa_memid_create_os p ?g commit z lg)\<lparr>mi_mem := Mem_os base (?g + (p - base))\<rparr>), os1))"
    unfolding assms(8) [symmetric] pa_os_alloc_aligned_def Let_def alu r1 using assms(6) by (auto split: option.splits)
  show ?thesis
  proof (cases r1)
    case None
    then show ?thesis using E P by simp
  next
    case (Some x)
    obtain p base lg z where x: "x = (p, base, lg, z)" by (metis prod_cases4)
    have B: "p \<noteq> 0" "base = p" "p mod alignment = 0" "area p ?g \<inter> mapped os = {}" "area p ?g \<subseteq> mapped os1" "mapped os \<subseteq> mapped os1"
      "unmap_ok pr \<longrightarrow> mapped os1 = mapped os \<union> area p ?g"
      "commit \<or> lg \<longrightarrow> area p ?g \<subseteq> comm os1" "unat p + unat ?g + 65536 \<le> 2 ^ 64" "comm os \<inter> mapped os \<subseteq> comm os1" using P Some x by auto
    let ?memid = "(pa_memid_create_os p ?g commit z lg)\<lparr>mi_mem := Mem_os p ?g\<rparr>"
    have res: "r = Some (p, ?memid)" "os' = os1" using E Some x B(2) by auto
    have m: "mem_os_size ?memid = ?g" "mem_os_base ?memid = p" "mi_memkind ?memid = PA_MEM_OS" "mi_initially_committed ?memid = commit" "mi_is_pinned ?memid = lg"
      by (simp_all add: mem_os_size_def mem_os_base_def pa_memid_create_os_def pa_memid_create_def)
    have "os_memid_ok ?memid" "os_extent ?memid = area p ?g" unfolding os_memid_ok_def os_extent_def m using B g0 by auto
    then show ?thesis unfolding res option.case prod.case m using B G(1) by auto
  qed
qed

lemma os_zalloc_spec:
  assumes ok: "os_prim_ok mapped comm pr" and sz: "0 < unat sz" and r: "pa_os_zalloc pr sz os = (r, os')"
  shows "comm os \<inter> mapped os \<subseteq> comm os'" "mapped os \<subseteq> mapped os'" "r = None \<Longrightarrow> mapped os' = mapped os"
proof -
  let ?g = "pa_os_good_alloc_size pr sz"
  have g0: "?g \<noteq> 0" using good_alloc_size(1) [OF ok, of sz] sz by auto
  obtain p lg z os1 where a: "pa_os_prim_alloc pr ?g 0 True False False os = (p, lg, z, os1)" by (metis prod_cases4)
  have s0: "sz \<noteq> 0" using sz by auto
  have E: "r = None \<and> p = 0 \<or> r \<noteq> None \<and> p \<noteq> 0" "os' = os1"
    using r a s0 by (auto simp: pa_os_zalloc_def pa_os_alloc_def pa_os_ensure_zero_def Let_def pa_memid_create_os_def pa_memid_create_def split: if_splits)
  note A = os_prim_alloc_area [OF ok g0 a]
  show "comm os \<inter> mapped os \<subseteq> comm os'" "mapped os \<subseteq> mapped os'" "r = None \<Longrightarrow> mapped os' = mapped os"
    using A E by blast+
qed

lemma os_alloc_at_offset_spec:
  assumes ok: "os_prim_ok mapped comm pr" and pf: "oc_has_partial_free (prim_cfg pr)" "pa_is_power_of_two alignment" "pa_os_page_size pr \<le> alignment"
    and b: "unat alignment \<le> 2 ^ 60" "0 < unat sz" "unat sz < 2 ^ 60" "offset \<noteq> 0"
    and r: "pa_os_alloc_aligned_at_offset pr sz alignment offset commit allow_large os = (r, os')"
  shows "comm os \<inter> mapped os \<subseteq> comm os' \<and> mapped os \<subseteq> mapped os' \<and> (case r of None \<Rightarrow> unmap_ok pr \<longrightarrow> mapped os' = mapped os
    | Some (p, memid) \<Rightarrow> (p + offset) mod alignment = 0 \<and> os_memid_ok memid \<and> area p sz \<subseteq> os_extent memid \<and> mi_initially_committed memid = commit \<and>
        os_extent memid \<inter> mapped os = {} \<and> os_extent memid \<subseteq> mapped os' \<and> (unmap_ok pr \<longrightarrow> mapped os' = mapped os \<union> os_extent memid) \<and> (commit \<longrightarrow> area p sz \<subseteq> comm os'))"
proof (cases "PA_SEGMENT_SIZE < offset")
  case True
  then show ?thesis using r by (simp add: pa_os_alloc_aligned_at_offset_def)
next
  case False
  obtain k where k: "pa_os_page_size pr \<noteq> 0" using page_size_pow2 [OF ok] by metis
  have al0: "alignment \<noteq> 0" using pf(3) k by auto
  define extra where "extra = pa_align_up offset alignment - offset"
  define over where "over = sz + extra"
  have off: "unat offset \<le> 2 ^ 25" using False by (simp add: PA_SEGMENT_SIZE_def word_less_nat_alt)
  have "unat offset + unat alignment \<le> 2 ^ 64" using off b(1) by simp
  note U = unat_align_up_bounds [OF al0 this]
  have ex: "unat extra = unat (pa_align_up offset alignment) - unat offset" unfolding extra_def using U(1) by (intro unat_sub) (simp add: word_le_nat_alt)
  have exl: "unat extra < unat alignment" using ex U by linarith
  have ov: "unat over = unat sz + unat extra" unfolding over_def using b exl by (intro unat_add_no_wrap) simp
  have ovb: "0 < unat over" "unat over < 2 ^ 62" using ov b exl by simp_all
  obtain r1 os1 where a: "pa_os_alloc_aligned pr over alignment commit allow_large os = (r1, os1)" by (meson surj_pair)
  have "unat alignment \<le> 2 ^ 62" using b(1) by simp
  note S = os_alloc_aligned_spec [OF ok pf this ovb a]
  have E: "(r, os') = (case r1 of None \<Rightarrow> (None, os1) | Some (start, memid) \<Rightarrow>
      (Some (start + extra, memid), if commit \<and> pa_os_page_size pr < extra then snd (pa_os_decommit pr start extra os1) else os1))"
    unfolding r [symmetric] pa_os_alloc_aligned_at_offset_def Let_def extra_def [symmetric] over_def [symmetric] a prod.case
    using False b(4) by (simp split: option.split)
  show ?thesis
  proof (cases r1)
    case None
    then show ?thesis using E S by simp
  next
    case (Some x)
    obtain start memid where x: "x = (start, memid)" by (meson surj_pair)
    have A: "start mod alignment = 0" "os_memid_ok memid" "mem_os_base memid = start" "unat over \<le> unat (mem_os_size memid)"
      "mi_initially_committed memid = commit" "os_extent memid \<inter> mapped os = {}" "os_extent memid \<subseteq> mapped os1"
      "unmap_ok pr \<longrightarrow> mapped os1 = mapped os \<union> os_extent memid" "mapped os \<subseteq> mapped os1"
      "commit \<longrightarrow> os_extent memid \<subseteq> comm os1" "comm os \<inter> mapped os \<subseteq> comm os1" using S Some x by auto
    have e: "r = Some (start + extra, memid)"
      "os' = (if commit \<and> pa_os_page_size pr < extra then snd (pa_os_decommit pr start extra os1) else os1)" using E Some x by auto
    have fit: "unat start + unat (mem_os_size memid) + 65536 \<le> 2 ^ 64" using A(2,3) by (simp add: os_memid_ok_def)
    have p: "unat (start + extra) = unat start + unat extra" using fit A(4) ov by (intro unat_add_no_wrap) simp
    have sub: "area (start + extra) sz \<subseteq> os_extent memid" using A(4) ov p by (auto simp: os_extent_def area_def A(3))
    have dis: "area start extra \<inter> area (start + extra) sz = {}" using p by (auto simp: area_def)
    have pre: "area start extra \<subseteq> os_extent memid" using A(4) ov by (auto simp: os_extent_def area_def A(3))
    have D: "mapped os' = mapped os1" "comm os1 - area start extra \<subseteq> comm os'"
    proof -
      obtain rs os2 where d: "pa_os_decommit pr start extra os1 = (rs, os2)" by (meson surj_pair)
      have "unat start + unat extra + 65536 \<le> 2 ^ 64" using fit A(4) ov by linarith
      moreover have "unat extra < 2 ^ 62" using exl b(1) by simp
      ultimately have "unat start + unat extra + 65536 \<le> 2 ^ 64" "unat extra < 2 ^ 62" .
      note D = os_decommit_sound [OF ok this d]
      from D show "mapped os' = mapped os1" "comm os1 - area start extra \<subseteq> comm os'"
        unfolding e d by (auto split: if_splits)
    qed
    have "(start + extra + offset) mod alignment = 0"
    proof -
      have "start + extra + offset = start + pa_align_up offset alignment" by (simp add: extra_def)
      moreover obtain m where m: "unat alignment = 2 ^ m"
        using pf(2) al0 pow2_and_pred_mask by (auto simp: pa_is_power_of_two_def)
      then have "(2::nat) ^ m < 2 ^ 64" using unat_lt2p [of alignment] by simp
      then have "m < 64" by (rule power_less_imp_less_exp [rotated]) simp
      then have "(2::nat) ^ m dvd 2 ^ 64" by (intro le_imp_power_dvd) simp
      then have "unat (start + pa_align_up offset alignment) mod 2 ^ m = (unat start + unat (pa_align_up offset alignment)) mod 2 ^ m"
        unfolding unat_word_ariths by (simp add: mod_mod_cancel)
      moreover have "2 ^ m dvd unat start" using A(1) m by (simp add: word_unat_eq_iff unat_mod dvd_eq_mod_eq_0)
      ultimately show ?thesis using U(3) m by (simp add: word_unat_eq_iff unat_mod mod_eq_0_iff_dvd)
    qed
    moreover have "comm os \<inter> mapped os \<subseteq> comm os'" using A(6,11) D(2) pre by blast
    moreover have "commit \<longrightarrow> area (start + extra) sz \<subseteq> comm os'" using A(10) D(2) sub dis by blast
    ultimately show ?thesis unfolding e(1) option.case prod.case using A(2,5,6,7,8,9) D(1) sub by simp
  qed
qed

text \<open>C27: aligned allocation from the operating system, for an alignment that is a power of two of at least the page size and
  at most \<open>2 ^ 62\<close>, and a positive size below \<open>2 ^ 62\<close>, where ranges can be unmapped partially (\<open>has_partial_free\<close>).  Success
  gives an aligned range of at least the requested size that was not mapped before, committed when that was asked for; whatever was mapped stays
  mapped and what of it was committed stays committed, also when the code had to over-allocate and unmap around the range.  This holds whether
  the primitive's unmapping succeeds or fails.  When unmapping never fails the allocation is moreover exact:
  success maps nothing but the range, failure leaves the mapping as it was, and freeing the result with its memory id restores the mapping, without a leak.\<close>
theorem os_alloc_aligned_exact:
  assumes "os_prim_ok mapped comm pr" "oc_has_partial_free (prim_cfg pr)" "pa_is_power_of_two alignment" "pa_os_page_size pr \<le> alignment"
    and "unat alignment \<le> 2 ^ 62" "0 < unat sz" "unat sz < 2 ^ 62"
    and "pa_os_alloc_aligned pr sz alignment commit allow_large os = (r, os')"
  shows "mapped os \<subseteq> mapped os' \<and> comm os \<inter> mapped os \<subseteq> comm os' \<and> (case r of None \<Rightarrow> unmap_ok pr \<longrightarrow> mapped os' = mapped os
    | Some (p, memid) \<Rightarrow> p mod alignment = 0 \<and> unat sz \<le> unat (mem_os_size memid) \<and>
        area p (mem_os_size memid) \<inter> mapped os = {} \<and> area p (mem_os_size memid) \<subseteq> mapped os' \<and>
        (commit \<longrightarrow> area p (mem_os_size memid) \<subseteq> comm os') \<and>
        (unmap_ok pr \<longrightarrow> mapped os' = mapped os \<union> area p (mem_os_size memid) \<and> mapped (pa_os_free pr p sz memid os') = mapped os))"
proof -
  note S = os_alloc_aligned_spec [OF assms]
  show ?thesis
  proof (cases r)
    case None
    then show ?thesis using S by simp
  next
    case (Some x)
    obtain p memid where x: "x = (p, memid)" by (meson surj_pair)
    have m: "os_memid_ok memid" "mem_os_base memid = p" using S Some x by simp_all
    have F: "mapped (pa_os_free_ex pr p sz True memid os') = mapped os" if u: "unmap_ok pr"
      unfolding os_free_extent(3) [OF assms(1) m(1) u] using S u unfolding Some x option.case prod.case by blast
    show ?thesis using S F unfolding Some x option.case prod.case pa_os_free_def os_extent_def m(2) by simp
  qed
qed

definition demo_cfg :: pa_os_mem_config where
  "demo_cfg = \<lparr>oc_page_size = 0x1000, oc_large_page_size = 0, oc_virtual_address_bits = 48, oc_has_overcommit = True,
     oc_has_partial_free = True, oc_has_virtual_reserve = True, oc_purge_delay = 10, oc_purge_decommits = True, oc_preloading = False\<rparr>"

text \<open>A small address space: the state is the set of mapped addresses, all of them committed, and every allocation is at the same
  address, when that is free.\<close>

definition demo_os_prim :: "nat set pa_prim" where
  "demo_os_prim = \<lparr>prim_alloc = \<lambda>os hint sz al c l.
       if unat sz \<le> 2 ^ 63 \<and> area 0x10000 sz \<inter> os = {} then (0, False, True, 0x10000, os \<union> area 0x10000 sz) else (12, False, False, 0, os),
     prim_free = \<lambda>os p sz. (0, os - area p sz),
     prim_commit = \<lambda>os p sz. (if area p sz \<subseteq> os then 0 else 12, False, os),
     prim_decommit = \<lambda>os p sz. (0, False, os), prim_reset = \<lambda>os p sz. (0, os), prim_reuse = \<lambda>os p sz. (0, os),
     prim_protect = \<lambda>os p sz b. (0, os), prim_alloc_huge_os_pages = \<lambda>os p sz n. (12, False, 0, os), prim_cfg = demo_cfg\<rparr>"

lemma demo_os_prim_ok: "os_prim_ok (\<lambda>os. os) (\<lambda>os. os) demo_os_prim"
proof -
  have "pa_os_page_size demo_os_prim = 2 ^ 12" by (simp add: pa_os_page_size_def demo_os_prim_def demo_cfg_def)
  then have "\<exists>k\<le>16. 3 \<le> k \<and> pa_os_page_size demo_os_prim = 2 ^ k" by (intro exI [of _ 12]) simp
  moreover have "pa_os_page_size demo_os_prim dvd 0x10000"
    by (simp add: pa_os_page_size_def demo_os_prim_def demo_cfg_def dvd_def) (intro exI [of _ 16], simp)
  ultimately show ?thesis unfolding os_prim_ok_def by (auto simp: demo_os_prim_def)
qed

lemma demo_unmap_ok: "unmap_ok demo_os_prim"
  by (simp add: unmap_ok_def demo_os_prim_def)

lemma demo_os_prim_run:
  "\<exists>os'. pa_os_alloc_aligned demo_os_prim 0x1000 0x20000 True False {} =
     (Some (0x20000, (pa_memid_create_os 0x20000 0x1000 True True False)), os')"
  by (simp add: pa_os_alloc_aligned_def pa_os_good_alloc_size_def pa_os_prim_alloc_aligned_def pa_os_prim_alloc_def pa_os_prim_alloc_at_def
      pa_os_page_size_def demo_os_prim_def demo_cfg_def pa_align_up_def Let_def SIZE_MAX_def pa_os_prim_free_def area_def
      pa_memid_create_os_def pa_memid_create_def)

theorem os_alloc_aligned_exact_witness:
  "\<exists>memid os'. pa_os_alloc_aligned demo_os_prim 0x1000 0x20000 True False {} = (Some (0x20000, memid), os') \<and>
     os' = area 0x20000 (mem_os_size memid) \<and> pa_os_free demo_os_prim 0x20000 0x1000 memid os' = {}"
proof -
  obtain os' where r: "pa_os_alloc_aligned demo_os_prim 0x1000 0x20000 True False {} =
     (Some (0x20000, (pa_memid_create_os 0x20000 0x1000 True True False)), os')" using demo_os_prim_run by blast
  have c: "oc_has_partial_free (prim_cfg demo_os_prim)" "pa_is_power_of_two 0x20000" "pa_os_page_size demo_os_prim \<le> 0x20000"
    by (simp_all add: demo_os_prim_def demo_cfg_def pa_is_power_of_two_def pa_os_page_size_def)
  from os_alloc_aligned_exact [OF demo_os_prim_ok c _ _ _ r] demo_unmap_ok show ?thesis using r by auto
qed

section \<open>Hints, huge pages, NUMA nodes\<close>

text \<open>The next hint is kept in \<open>aligned_base\<close>; \<open>r\<close> is the random number of a re-initialisation.  Run without interference.\<close>

definition pa_os_get_aligned_hint :: "'o pa_prim \<Rightarrow> size_t \<Rightarrow> size_t \<Rightarrow> uintptr_t \<Rightarrow> uintptr_t \<Rightarrow> uintptr_t \<times> uintptr_t" where
  "pa_os_get_aligned_hint pr try_alignment sz r aligned_base =
     (if try_alignment \<le> 1 \<or> PA_SEGMENT_SIZE < try_alignment then (0, aligned_base)
      else if oc_virtual_address_bits (prim_cfg pr) < 46 then (0, aligned_base)
      else let sz = pa_align_up sz PA_SEGMENT_SIZE
      in if 0x40000000 < sz then (0, aligned_base)
      else let hint = aligned_base; aligned_base = aligned_base + sz;
               (hint, aligned_base) =
                 (if hint = 0 \<or> push_bit 40 30 < hint
                  then let init = push_bit 40 2 + (PA_SEGMENT_SIZE * (drop_bit 17 r AND 0xFFFFF)) mod push_bit 40 4
                       in (init, init + sz)
                  else (hint, aligned_base))
           in if hint mod try_alignment \<noteq> 0 then (0, aligned_base) else (hint, aligned_base))"

definition pa_os_claim_huge_pages :: "size_t \<Rightarrow> uintptr_t \<Rightarrow> uintptr_t \<Rightarrow> uintptr_t \<times> size_t \<times> uintptr_t" where
  "pa_os_claim_huge_pages pages r huge_start =
     (let sz = pages * PA_HUGE_OS_PAGE_SIZE;
          start = (if huge_start = 0 then push_bit 40 32 + PA_HUGE_OS_PAGE_SIZE * (drop_bit 17 r AND 0x0FFF) else huge_start)
      in (start, sz, start + sz))"

text \<open>The loop over the pages; \<open>elapsed n\<close> is the time that has passed when \<open>n\<close> pages are allocated.  The result is the number of pages
  and whether they are all zero.\<close>

function huge_pages_loop ::
    "'o pa_prim \<Rightarrow> int \<Rightarrow> int \<Rightarrow> (nat \<Rightarrow> int) \<Rightarrow> uintptr_t \<Rightarrow> nat \<Rightarrow> nat \<Rightarrow> bool \<Rightarrow> 'o \<Rightarrow> nat \<times> bool \<times> 'o" where
  "huge_pages_loop pr numa_node max_msecs elapsed start pages page all_zero os =
     (if page < pages
      then let addr = start + of_nat page * PA_HUGE_OS_PAGE_SIZE;
               (err, is_zero, p, os) = prim_alloc_huge_os_pages pr os addr PA_HUGE_OS_PAGE_SIZE numa_node;
               all_zero = (is_zero \<and> all_zero)
           in if err \<noteq> 0 then (page, all_zero, os)
              else if p \<noteq> addr then (page, all_zero, if p \<noteq> 0 then pa_os_prim_free pr p PA_HUGE_OS_PAGE_SIZE os else os)
              else let page = page + 1
              in if 0 < max_msecs
                 then let e = elapsed page; estimate = (e div int (page + 1)) * int pages;
                          e = (if 1 \<le> page \<and> 2 * max_msecs < estimate then max_msecs + 1 else e)
                      in if max_msecs < e then (page, all_zero, os)
                         else huge_pages_loop pr numa_node max_msecs elapsed start pages page all_zero os
                 else huge_pages_loop pr numa_node max_msecs elapsed start pages page all_zero os
      else (page, all_zero, os))"
  by pat_completeness auto
termination by (relation "measure (\<lambda>(pr, numa_node, max_msecs, elapsed, start, pages, page, all_zero, os). pages - page)") auto

declare huge_pages_loop.simps [simp del] pa_os_free_huge_os_pages.simps [simp del]

definition pa_os_alloc_huge_os_pages ::
    "'o pa_prim \<Rightarrow> size_t \<Rightarrow> int \<Rightarrow> int \<Rightarrow> (nat \<Rightarrow> int) \<Rightarrow> uintptr_t \<Rightarrow> uintptr_t \<Rightarrow> 'o \<Rightarrow>
     (uintptr_t \<times> pa_memid \<times> nat \<times> size_t) option \<times> uintptr_t \<times> 'o" where
  "pa_os_alloc_huge_os_pages pr pages numa_node max_msecs elapsed r huge_start os =
     (let (start, sz, huge_start) = pa_os_claim_huge_pages pages r huge_start
      in if start = 0 then (None, huge_start, os)
         else let (page, all_zero, os) = huge_pages_loop pr numa_node max_msecs elapsed start (unat pages) 0 True os
              in if page \<noteq> 0
                 then (Some (start, (pa_memid_create_os start sz True all_zero True)\<lparr>mi_memkind := PA_MEM_OS_HUGE\<rparr>, page,
                             of_nat page * PA_HUGE_OS_PAGE_SIZE), huge_start, os)
                 else (None, huge_start, os))"

text \<open>The memory id of a huge-page reservation records the size that was asked for, also when fewer pages could be allocated.\<close>

lemma huge_pages_memid_size:
  assumes "pa_os_alloc_huge_os_pages pr pages numa_node max_msecs elapsed r huge_start os = (Some (p, memid, page, psize), hs, os')"
  shows "mem_os_size memid = pages * PA_HUGE_OS_PAGE_SIZE" "psize = of_nat page * PA_HUGE_OS_PAGE_SIZE"
  using assms by (auto simp: pa_os_alloc_huge_os_pages_def pa_os_claim_huge_pages_def pa_memid_create_os_def Let_def mem_os_size_def split: prod.splits if_splits)

lemma huge_pages_loop_le: "page \<le> pages \<Longrightarrow> huge_pages_loop pr numa_node max_msecs elapsed start pages page z os = (n, z', os') \<Longrightarrow>
    page \<le> n \<and> n \<le> pages"
proof (induction pr numa_node max_msecs elapsed start pages page z os rule: huge_pages_loop.induct)
  case (1 pr numa_node max_msecs elapsed start pages page z os)
  let ?addr = "start + of_nat page * PA_HUGE_OS_PAGE_SIZE"
  obtain err iz p os1 where a: "prim_alloc_huge_os_pages pr os ?addr PA_HUGE_OS_PAGE_SIZE numa_node = (err, iz, p, os1)" by (metis prod_cases4)
  note S = huge_pages_loop.simps [of pr numa_node max_msecs elapsed start pages page z os]
  show ?case
  proof (cases "page < pages \<and> err = 0 \<and> p = ?addr \<and> huge_pages_loop pr numa_node max_msecs elapsed start pages (page + 1) (iz \<and> z) os1 = (n, z', os')")
    case True
    then have lt: "page < pages" and e: "err = 0" and p: "p = ?addr" by simp_all
    have "page + 1 \<le> n \<and> n \<le> pages"
    proof (cases "0 < max_msecs")
      case t: True
      show ?thesis
      proof (cases "max_msecs < (if 1 \<le> page + 1 \<and> 2 * max_msecs < elapsed (page + 1) div int (page + 1 + 1) * int pages then max_msecs + 1 else elapsed (page + 1))")
        case True
        then show ?thesis using "1.prems"(2) S a lt e p t by (auto simp: Let_def split: if_splits)
      next
        case False
        show ?thesis by (rule "1.IH"(1) [OF lt refl a [symmetric] refl refl refl]) (use e p t False True lt in \<open>auto simp: Let_def\<close>)
      qed
    next
      case False
      show ?thesis by (rule "1.IH"(2) [OF lt refl a [symmetric] refl refl refl]) (use e p False True lt in auto)
    qed
    then show ?thesis by simp
  next
    case False
    then show ?thesis using "1.prems" S a by (auto simp: Let_def split: if_splits)
  qed
qed

definition pa_os_numa_node_count :: "int \<Rightarrow> nat \<Rightarrow> nat \<Rightarrow> nat \<times> nat" where
  "pa_os_numa_node_count opt_use_numa_nodes detected numa_node_count =
     (if numa_node_count = 0
      then let count = (if 0 < opt_use_numa_nodes \<and> opt_use_numa_nodes < 2 ^ 31 - 1 then nat opt_use_numa_nodes
                        else if detected = 0 \<or> 2 ^ 31 - 1 < detected then 1 else detected)
           in (count, count)
      else (numa_node_count, numa_node_count))"

definition pa_os_numa_node_get :: "nat \<Rightarrow> nat \<Rightarrow> nat" where
  "pa_os_numa_node_get numa_count n =
     (if numa_count \<le> 1 then 0
      else let numa_node = (if n < 2 ^ 31 - 1 then n else 0)
           in if numa_count \<le> numa_node then numa_node mod numa_count else numa_node)"

lemma numa_node_in_range:
  assumes "pa_os_numa_node_count opt detected 0 = (count, c)"
  shows "0 < count" "pa_os_numa_node_get count n < count"
  using assms by (auto simp: pa_os_numa_node_count_def pa_os_numa_node_get_def Let_def split: if_splits)

end
