(* ===== verification/Palloc_VecArena.thy ===== *)
theory Palloc_VecArena
  imports Palloc_Arith
begin

text \<open>
  Bump arenas: the vector arena of \<open>src/palloc_vector.c\<close> and the single-threaded and shared arena of
  \<open>src/arena_pomai.c\<close>.  Both reserve address space once, commit it lazily in grains and hand out
  consecutive aligned blocks.  The primitives of the platform layer (\<open>_pa_prim_alloc\<close>,
  \<open>_pa_prim_commit\<close>, \<open>_pa_prim_decommit\<close>, \<open>_pa_prim_free\<close>) are parameters over an arbitrary
  state of the operating system; an error is a non-zero \<open>int\<close>, the null pointer is address 0.
\<close>

section \<open>The vector arena\<close>

record 'o prim_env =
  prim_alloc :: "'o \<Rightarrow> size_t \<Rightarrow> size_t \<Rightarrow> bool \<Rightarrow> int \<times> uintptr_t \<times> 'o"
  prim_commit :: "'o \<Rightarrow> uintptr_t \<Rightarrow> size_t \<Rightarrow> int \<times> 'o"
  prim_decommit :: "'o \<Rightarrow> uintptr_t \<Rightarrow> size_t \<Rightarrow> 'o"
  prim_free :: "'o \<Rightarrow> uintptr_t \<Rightarrow> size_t \<Rightarrow> 'o"
  os_page_size :: size_t
  has_virtual_reserve :: bool

record vec_arena =
  va_os_block :: uintptr_t
  va_os_block_size :: size_t
  va_base :: uintptr_t
  va_alignment :: size_t
  va_capacity :: size_t
  va_used :: size_t
  va_committed :: size_t
  va_commit_grain :: size_t
  va_max_size :: size_t
  va_use_os_reserve :: bool

definition PA_VEC_ALIGN_UP :: "size_t \<Rightarrow> size_t \<Rightarrow> size_t" where
  "PA_VEC_ALIGN_UP sz a = (sz + a - 1) AND NOT (a - 1)"

definition PA_VEC_COMMIT_GRAIN :: size_t where
  "PA_VEC_COMMIT_GRAIN = 2 * 1024 * 1024"

text \<open>Laying out the arena in the reserved block, and the eager first commit.\<close>

definition vec_arena_init ::
    "'o prim_env \<Rightarrow> 'o \<Rightarrow> uintptr_t \<Rightarrow> size_t \<Rightarrow> size_t \<Rightarrow> size_t \<Rightarrow> size_t \<Rightarrow> size_t \<Rightarrow> vec_arena \<times> 'o" where
  "vec_arena_init env os os_block os_block_size capacity extra alignment commit_grain =
     (let base = (if 0 < extra \<and> os_block AND (alignment - 1) \<noteq> 0 then pa_align_up os_block alignment else os_block);
          slop = base - os_block;
          actual_capacity = (if slop < os_block_size then os_block_size - slop else 0);
          final_capacity = (if actual_capacity < capacity then actual_capacity else capacity);
          can_reserve = has_virtual_reserve env;
          arena = \<lparr>va_os_block = os_block, va_os_block_size = os_block_size, va_base = base,
                   va_alignment = alignment, va_capacity = final_capacity, va_used = 0,
                   va_committed = (if can_reserve then 0 else final_capacity),
                   va_commit_grain = commit_grain, va_max_size = 0, va_use_os_reserve = can_reserve\<rparr>
      in if can_reserve \<and> 0 < final_capacity
         then let first = (if commit_grain < final_capacity then commit_grain else final_capacity);
                  (_, os) = prim_commit env os base first
              in (arena\<lparr>va_committed := first\<rparr>, os)
         else (arena, os))"

text \<open>Creation.  \<open>struct_ok\<close> tells whether the heap could allocate the arena structure itself.\<close>

definition pa_vec_arena_create_ex ::
    "'o prim_env \<Rightarrow> 'o \<Rightarrow> size_t \<Rightarrow> size_t \<Rightarrow> bool \<Rightarrow> vec_arena option \<times> 'o" where
  "pa_vec_arena_create_ex env os initial_size alignment struct_ok =
     (if initial_size = 0 \<or> alignment = 0 then (None, os)
      else if alignment AND (alignment - 1) \<noteq> 0 then (None, os)
      else let page_size = os_page_size env
      in if SIZE_MAX - page_size < initial_size then (None, os)
      else let capacity = PA_VEC_ALIGN_UP initial_size page_size
      in if page_size < alignment \<and> SIZE_MAX - capacity < alignment then (None, os)
      else let extra = (if page_size < alignment then alignment else 0)
      in if SIZE_MAX - capacity < extra then (None, os)
      else let os_block_size = capacity + extra
      in if \<not> struct_ok then (None, os)
      else let commit_grain = (if PA_VEC_COMMIT_GRAIN < page_size then page_size else PA_VEC_COMMIT_GRAIN);
               commit_grain = PA_VEC_ALIGN_UP commit_grain page_size;
               try_align = (if page_size < alignment then alignment else page_size);
               (err, os_block, os) = prim_alloc env os os_block_size try_align (\<not> has_virtual_reserve env)
      in if err \<noteq> 0 \<or> os_block = 0 then (None, os)
      else let (arena, os) = vec_arena_init env os os_block os_block_size capacity extra alignment commit_grain
      in (Some arena, os))"

text \<open>The lazy commit step that \<open>pa_vec_arena_alloc\<close> and \<open>pa_vec_arena_alloc_batch\<close> share.\<close>

definition vec_arena_commit_to :: "'o prim_env \<Rightarrow> vec_arena \<Rightarrow> 'o \<Rightarrow> size_t \<Rightarrow> bool \<times> vec_arena \<times> 'o" where
  "vec_arena_commit_to env arena os new_used =
     (if va_committed arena < new_used then
        let need = PA_VEC_ALIGN_UP new_used (va_commit_grain arena)
        in if need < new_used then (False, arena, os)
        else let need = (if va_capacity arena < need then va_capacity arena else need);
                 delta = need - va_committed arena
        in if 0 < delta then
             let (cerr, os) = prim_commit env os (va_base arena + va_committed arena) delta
             in if cerr \<noteq> 0 then (False, arena, os) else (True, arena\<lparr>va_committed := need\<rparr>, os)
           else (True, arena, os)
      else (True, arena, os))"

definition pa_vec_arena_alloc :: "'o prim_env \<Rightarrow> vec_arena \<Rightarrow> 'o \<Rightarrow> size_t \<Rightarrow> uintptr_t option \<times> vec_arena \<times> 'o" where
  "pa_vec_arena_alloc env arena os sz =
     (if sz = 0 then (None, arena, os)
      else let aligned_size = PA_VEC_ALIGN_UP sz (va_alignment arena)
      in if aligned_size < sz then (None, arena, os)
      else if SIZE_MAX - va_used arena < aligned_size then (None, arena, os)
      else let new_used = va_used arena + aligned_size
      in if va_capacity arena < new_used then (None, arena, os)
      else if va_max_size arena \<noteq> 0 \<and> va_max_size arena < new_used then (None, arena, os)
      else let (ok, arena, os) = vec_arena_commit_to env arena os new_used
      in if \<not> ok then (None, arena, os)
      else (Some (va_base arena + va_used arena), arena\<lparr>va_used := new_used\<rparr>, os))"

text \<open>Materialising the pointers of a batch: the unrolled scalar loop and the AVX2 kernel, which holds
  four 64-bit lanes per register.  Output is appended in index order.\<close>

text \<open>The counters are natural numbers: the output array has \<open>count\<close> pointers of 8 bytes in the address space, so \<open>count\<close> is below
  \<open>2 ^ 61\<close> and neither \<open>i + 4\<close> nor the other sums of the loops wrap.\<close>

function ptrs_tail :: "size_t \<Rightarrow> nat \<Rightarrow> nat \<Rightarrow> uintptr_t \<Rightarrow> uintptr_t list \<Rightarrow> uintptr_t list" where
  "ptrs_tail step count i cur out =
     (if i < count then ptrs_tail step count (i + 1) (cur + step) (out @ [cur]) else out)"
  by pat_completeness auto
termination by (relation "measure (\<lambda>(step, count, i, cur, out). count - i)") auto

function ptrs_scalar :: "size_t \<Rightarrow> nat \<Rightarrow> nat \<Rightarrow> uintptr_t \<Rightarrow> uintptr_t list \<Rightarrow> uintptr_t list" where
  "ptrs_scalar step count i cur out =
     (if i + 4 \<le> count
      then ptrs_scalar step count (i + 4) (cur + 4 * step) (out @ [cur, cur + step, cur + 2 * step, cur + 3 * step])
      else ptrs_tail step count i cur out)"
  by pat_completeness auto
termination by (relation "measure (\<lambda>(step, count, i, cur, out). count - i)") auto

function ptrs_simd1 :: "size_t \<Rightarrow> nat \<Rightarrow> nat \<Rightarrow> uintptr_t list \<Rightarrow> uintptr_t list \<Rightarrow> nat \<times> uintptr_t list" where
  "ptrs_simd1 adv lim i vcur out =
     (if i < lim then ptrs_simd1 adv lim (i + 4) (map (\<lambda>x. x + adv) vcur) (out @ vcur) else (i, out))"
  by pat_completeness auto
termination by (relation "measure (\<lambda>(adv, lim, i, vcur, out). lim - i)") auto

function ptrs_simd2 :: "size_t \<Rightarrow> nat \<Rightarrow> nat \<Rightarrow> uintptr_t list \<Rightarrow> uintptr_t list \<Rightarrow> nat \<times> uintptr_t list" where
  "ptrs_simd2 adv lim i vcur out =
     (if i + 8 \<le> lim
      then let vnext = map (\<lambda>x. x + adv) vcur
           in ptrs_simd2 adv lim (i + 8) (map (\<lambda>x. x + adv) vnext) (out @ vcur @ vnext)
      else ptrs_simd1 adv lim i vcur out)"
  by pat_completeness auto
termination by (relation "measure (\<lambda>(adv, lim, i, vcur, out). lim - i)") auto

definition pa_vec_materialize_ptrs_avx2 :: "uintptr_t \<Rightarrow> size_t \<Rightarrow> nat \<Rightarrow> uintptr_t list" where
  "pa_vec_materialize_ptrs_avx2 base step count =
     (let simd_limit = count - count mod 4;
          vcur = map ((+) base) [0, 1 * step, 2 * step, 3 * step];
          (i, out) = ptrs_simd2 (4 * step) simd_limit 0 vcur []
      in ptrs_tail step count i (base + of_nat i * step) out)"

definition pa_vec_materialize_ptrs :: "bool \<Rightarrow> uintptr_t \<Rightarrow> size_t \<Rightarrow> nat \<Rightarrow> uintptr_t list" where
  "pa_vec_materialize_ptrs has_avx2 base step count =
     (if count < 32 then ptrs_scalar step count 0 base []
      else if has_avx2 then pa_vec_materialize_ptrs_avx2 base step count
      else ptrs_scalar step count 0 base [])"

declare ptrs_tail.simps [simp del] ptrs_scalar.simps [simp del] ptrs_simd1.simps [simp del] ptrs_simd2.simps [simp del]

definition pa_vec_arena_alloc_batch ::
    "'o prim_env \<Rightarrow> bool \<Rightarrow> vec_arena \<Rightarrow> 'o \<Rightarrow> size_t \<Rightarrow> size_t \<Rightarrow> uintptr_t list \<times> vec_arena \<times> 'o" where
  "pa_vec_arena_alloc_batch env has_avx2 arena os count sz =
     (if count = 0 \<or> sz = 0 then ([], arena, os)
      else let aligned_size = PA_VEC_ALIGN_UP sz (va_alignment arena)
      in if aligned_size < sz then ([], arena, os)
      else let (ovf, total_bytes) = pa_count_size_overflow count aligned_size
      in if ovf then ([], arena, os)
      else if SIZE_MAX - va_used arena < total_bytes then ([], arena, os)
      else let new_used = va_used arena + total_bytes
      in if va_capacity arena < new_used then ([], arena, os)
      else if va_max_size arena \<noteq> 0 \<and> va_max_size arena < new_used then ([], arena, os)
      else let (ok, arena, os) = vec_arena_commit_to env arena os new_used
      in if \<not> ok then ([], arena, os)
      else (pa_vec_materialize_ptrs has_avx2 (va_base arena + va_used arena) aligned_size (unat count),
            arena\<lparr>va_used := new_used\<rparr>, os))"

definition pa_vec_arena_reset :: "'o prim_env \<Rightarrow> vec_arena \<Rightarrow> 'o \<Rightarrow> vec_arena \<times> 'o" where
  "pa_vec_arena_reset env arena os =
     (if 0 < va_committed arena \<and> va_use_os_reserve arena
      then (arena\<lparr>va_committed := 0, va_used := 0\<rparr>, prim_decommit env os (va_base arena) (va_committed arena))
      else (arena\<lparr>va_used := 0\<rparr>, os))"

definition pa_vec_arena_clear :: "vec_arena \<Rightarrow> vec_arena" where
  "pa_vec_arena_clear arena = arena\<lparr>va_used := 0\<rparr>"

definition pa_vec_arena_destroy :: "'o prim_env \<Rightarrow> vec_arena \<Rightarrow> 'o \<Rightarrow> 'o" where
  "pa_vec_arena_destroy env arena os =
     (if va_os_block arena \<noteq> 0 \<and> 0 < va_os_block_size arena
      then prim_free env os (va_os_block arena) (va_os_block_size arena) else os)"

definition pa_vec_arena_set_max_size :: "vec_arena \<Rightarrow> size_t \<Rightarrow> vec_arena" where
  "pa_vec_arena_set_max_size arena max_bytes = arena\<lparr>va_max_size := max_bytes\<rparr>"

section \<open>The pomai arena\<close>

text \<open>\<open>av_addr\<close> is the address of the structure, which lies at the start of the reservation.  In shared mode the
  atomic fields are authoritative; here they are the fields of the shared arena between two atomic steps.\<close>

record pomai_arena =
  av_addr :: uintptr_t
  av_offset_atomic :: uintptr_t
  av_offset_plain :: uintptr_t
  av_committed_atomic :: uintptr_t
  av_committed_plain :: size_t
  av_payload_start :: size_t
  av_payload_capacity :: size_t
  av_max_capacity_bytes :: size_t
  av_total_size :: size_t
  av_commit_grain :: size_t
  av_shared :: bool
  av_use_os_reserve :: bool

definition pa_arena_payload_start :: "'o prim_env \<Rightarrow> size_t" where
  "pa_arena_payload_start env =
     (let align = (if 64 < os_page_size env then os_page_size env else 64) in pa_align_up 88 align)"

definition pa_arena_hard_limit :: "pomai_arena \<Rightarrow> uintptr_t" where
  "pa_arena_hard_limit arena = av_payload_start arena + av_max_capacity_bytes arena"

definition p_arena_create_for_vector_ex :: "'o prim_env \<Rightarrow> 'o \<Rightarrow> size_t \<Rightarrow> bool \<Rightarrow> pomai_arena option \<times> 'o" where
  "p_arena_create_for_vector_ex env os capacity_bytes shared =
     (if capacity_bytes = 0 then (None, os)
      else let page_size = os_page_size env; payload_start = pa_arena_payload_start env
      in if SIZE_MAX - payload_start < capacity_bytes then (None, os)
      else let total_size = pa_align_up (payload_start + capacity_bytes) page_size;
               commit_grain = (if 0x200000 < page_size then page_size else 0x200000);
               commit_grain = pa_align_up commit_grain page_size;
               can_reserve = has_virtual_reserve env;
               (err, p, os) = prim_alloc env os total_size page_size (\<not> can_reserve)
      in if err \<noteq> 0 \<or> p = 0 then (None, os)
      else let (cerr, committed_size, os) =
             (if can_reserve
              then let first_commit_end = pa_align_up (payload_start + commit_grain) page_size;
                       first_commit_size = (if first_commit_end < total_size then first_commit_end else total_size);
                       (cerr, os) = prim_commit env os p first_commit_size
                   in (cerr, first_commit_size, os)
              else (0, total_size, os))
      in if cerr \<noteq> 0 then (None, prim_free env os p total_size)
      else (Some \<lparr>av_addr = p, av_offset_atomic = payload_start,
                  av_offset_plain = (if shared then 0 else payload_start),
                  av_committed_atomic = committed_size,
                  av_committed_plain = (if shared then 0 else committed_size),
                  av_payload_start = payload_start, av_payload_capacity = capacity_bytes,
                  av_max_capacity_bytes = capacity_bytes, av_total_size = total_size,
                  av_commit_grain = commit_grain, av_shared = shared, av_use_os_reserve = can_reserve\<rparr>, os))"

definition pa_arena_ensure_committed_single :: "'o prim_env \<Rightarrow> pomai_arena \<Rightarrow> 'o \<Rightarrow> size_t \<Rightarrow> bool \<times> pomai_arena \<times> 'o" where
  "pa_arena_ensure_committed_single env arena os need_committed =
     (let cur = av_committed_plain arena
      in if need_committed \<le> cur then (True, arena, os)
      else let new_committed = pa_align_up need_committed (av_commit_grain arena)
      in if new_committed < need_committed then (False, arena, os)
      else let new_committed = (if av_total_size arena < new_committed then av_total_size arena else new_committed);
               (err, os) = prim_commit env os (av_addr arena + cur) (new_committed - cur)
      in if err \<noteq> 0 then (False, arena, os) else (True, arena\<lparr>av_committed_plain := new_committed\<rparr>, os))"

text \<open>The checks at the entry of \<open>p_arena_alloc_vector\<close>: the aligned size, or nothing.\<close>

definition pomai_request :: "size_t \<Rightarrow> size_t \<Rightarrow> size_t option" where
  "pomai_request vector_dim element_size =
     (if element_size = 0 \<or> (0 < vector_dim \<and> SIZE_MAX div vector_dim < element_size) then None
      else let sz = vector_dim * element_size
      in if sz = 0 then None
      else let aligned_size = pa_align_up sz 64
      in if aligned_size < sz then None else Some aligned_size)"

text \<open>The single-threaded branch of \<open>p_arena_alloc_vector\<close>.\<close>

definition p_arena_alloc_vector_single ::
    "'o prim_env \<Rightarrow> pomai_arena \<Rightarrow> 'o \<Rightarrow> size_t \<Rightarrow> size_t \<Rightarrow> uintptr_t option \<times> pomai_arena \<times> 'o" where
  "p_arena_alloc_vector_single env arena os vector_dim element_size =
     (case pomai_request vector_dim element_size of
        None \<Rightarrow> (None, arena, os)
      | Some aligned_size \<Rightarrow>
          let hard_limit = pa_arena_hard_limit arena; cur = av_offset_plain arena
          in if hard_limit < aligned_size \<or> hard_limit - aligned_size < cur then (None, arena, os)
          else let new_offset = cur + aligned_size;
                   (ok, arena, os) = (if av_use_os_reserve arena
                                      then pa_arena_ensure_committed_single env arena os new_offset
                                      else (True, arena, os))
          in if \<not> ok then (None, arena, os)
             else (Some (av_addr arena + cur), arena\<lparr>av_offset_plain := new_offset\<rparr>, os))"

definition p_arena_reset :: "'o prim_env \<Rightarrow> pomai_arena \<Rightarrow> 'o \<Rightarrow> pomai_arena \<times> 'o" where
  "p_arena_reset env arena os =
     (let start = av_payload_start arena;
          arena = (if av_shared arena then arena\<lparr>av_offset_atomic := start\<rparr> else arena\<lparr>av_offset_plain := start\<rparr>)
      in if av_use_os_reserve arena
         then let committed = (if av_shared arena then av_committed_atomic arena else av_committed_plain arena);
                  os = (if start < committed then prim_decommit env os (av_addr arena + start) (committed - start) else os)
              in (if av_shared arena then arena\<lparr>av_committed_atomic := start\<rparr> else arena\<lparr>av_committed_plain := start\<rparr>, os)
         else (arena, os))"

definition p_arena_destroy :: "'o prim_env \<Rightarrow> pomai_arena \<Rightarrow> 'o \<Rightarrow> 'o" where
  "p_arena_destroy env arena os = prim_free env os (av_addr arena) (av_total_size arena)"

definition p_arena_alloc_single :: "'o prim_env \<Rightarrow> pomai_arena \<Rightarrow> 'o \<Rightarrow> size_t \<Rightarrow> uintptr_t option \<times> pomai_arena \<times> 'o" where
  "p_arena_alloc_single env arena os sz =
     (if sz = 0 then (None, arena, os) else p_arena_alloc_vector_single env arena os sz 1)"

section \<open>Pointer materialisation\<close>

definition ptr_seq :: "uintptr_t \<Rightarrow> size_t \<Rightarrow> nat \<Rightarrow> nat \<Rightarrow> uintptr_t list" where
  "ptr_seq base step i j = map (\<lambda>k. base + of_nat k * step) [i..<j]"

lemma ptr_seq_append: "i \<le> j \<Longrightarrow> j \<le> k \<Longrightarrow> ptr_seq base step i j @ ptr_seq base step j k = ptr_seq base step i k"
  using upt_add_eq_append [of i j "k - j"] by (simp add: ptr_seq_def)

lemma ptr_seq_4:
  "ptr_seq base step i (i + 4) = map ((+) (base + of_nat i * step)) [0, 1 * step, 2 * step, 3 * step]"
  by (simp add: ptr_seq_def upt_rec [of i] upt_rec [of "Suc i"] upt_rec [of "Suc (Suc i)"] upt_rec [of "Suc (Suc (Suc i))"]
      algebra_simps)

lemma ptr_seq_step: "map (\<lambda>x. x + 4 * step) (ptr_seq base step i (i + 4)) = ptr_seq base step (i + 4) (i + 4 + 4)"
  unfolding ptr_seq_4 by (simp add: algebra_simps)

lemma ptrs_tail_eq:
  "i \<le> count \<Longrightarrow> cur = base + of_nat i * step \<Longrightarrow> ptrs_tail step count i cur (ptr_seq base step 0 i) = ptr_seq base step 0 count"
proof (induction "count - i" arbitrary: i cur)
  case 0
  then show ?case by (simp add: ptrs_tail.simps)
next
  case (Suc n)
  have "ptr_seq base step 0 i @ [cur] = ptr_seq base step 0 (i + 1)"
    using ptr_seq_append [of 0 i "i + 1" base step] Suc.prems by (simp add: ptr_seq_def)
  then show ?case using Suc.hyps(1) [of "i + 1" "cur + step"] Suc.hyps(2) Suc.prems
    by (subst ptrs_tail.simps) (simp add: algebra_simps)
qed

lemma ptrs_scalar_eq:
  "i \<le> count \<Longrightarrow> cur = base + of_nat i * step \<Longrightarrow> ptrs_scalar step count i cur (ptr_seq base step 0 i) = ptr_seq base step 0 count"
proof (induction "count - i" arbitrary: i cur rule: less_induct)
  case less
  show ?case
  proof (cases "i + 4 \<le> count")
    case True
    have "ptr_seq base step 0 i @ [cur, cur + step, cur + 2 * step, cur + 3 * step] = ptr_seq base step 0 (i + 4)"
      using ptr_seq_append [of 0 i "i + 4" base step] ptr_seq_4 [of base step i] less.prems by simp
    then show ?thesis using less.hyps [of "i + 4" "cur + 4 * step"] less.prems True
      by (subst ptrs_scalar.simps) (simp add: algebra_simps)
  next
    case False
    then show ?thesis using ptrs_tail_eq less.prems by (subst ptrs_scalar.simps) simp
  qed
qed

lemma ptrs_simd1_eq:
  assumes "i \<le> lim" "4 dvd i" "4 dvd lim"
  shows "ptrs_simd1 (4 * step) lim i (ptr_seq base step i (i + 4)) (ptr_seq base step 0 i) = (lim, ptr_seq base step 0 lim)"
  using assms
proof (induction "lim - i" arbitrary: i rule: less_induct)
  case less
  show ?case
  proof (cases "i < lim")
    case True
    then have "i + 4 \<le> lim" using less.prems by presburger
    then show ?thesis using less.hyps [of "i + 4"] less.prems True ptr_seq_append [of 0 i "i + 4" base step]
      by (subst ptrs_simd1.simps) (simp add: ptr_seq_step)
  next
    case False
    then show ?thesis using less.prems by (subst ptrs_simd1.simps) simp
  qed
qed

lemma ptrs_simd2_eq:
  assumes "i \<le> lim" "4 dvd i" "4 dvd lim"
  shows "ptrs_simd2 (4 * step) lim i (ptr_seq base step i (i + 4)) (ptr_seq base step 0 i) = (lim, ptr_seq base step 0 lim)"
  using assms
proof (induction "lim - i" arbitrary: i rule: less_induct)
  case less
  show ?case
  proof (cases "i + 8 \<le> lim")
    case True
    have e: "i + 4 + 4 = i + 8" by simp
    have "ptr_seq base step 0 i @ ptr_seq base step i (i + 4) @ ptr_seq base step (i + 4) (i + 8) = ptr_seq base step 0 (i + 8)"
      using ptr_seq_append [of i "i + 4" "i + 8" base step] ptr_seq_append [of 0 i "i + 8" base step] by simp
    moreover have "4 dvd i + 8" using less.prems(2) by presburger
    ultimately show ?thesis using less.hyps [of "i + 8"] less.prems True ptr_seq_step [of step base i] ptr_seq_step [of step base "i + 4"]
      by (subst ptrs_simd2.simps) (simp add: Let_def e)
  next
    case False
    then show ?thesis using ptrs_simd1_eq less.prems by (subst ptrs_simd2.simps) simp
  qed
qed

lemma ptrs_scalar_seq: "ptrs_scalar step count 0 base [] = ptr_seq base step 0 count"
  using ptrs_scalar_eq [of 0 count base base step] by (simp add: ptr_seq_def)

lemma ptrs_avx2_seq: "pa_vec_materialize_ptrs_avx2 base step count = ptr_seq base step 0 count"
proof -
  have v: "map ((+) base) [0, 1 * step, 2 * step, 3 * step] = ptr_seq base step 0 (0 + 4)" by (subst ptr_seq_4) simp
  have "4 dvd count - count mod 4" by (simp add: dvd_minus_mod)
  then have "ptrs_simd2 (4 * step) (count - count mod 4) 0 (ptr_seq base step 0 (0 + 4)) [] =
      (count - count mod 4, ptr_seq base step 0 (count - count mod 4))"
    using ptrs_simd2_eq [of 0 "count - count mod 4" step base] by (simp add: ptr_seq_def)
  then show ?thesis
    using ptrs_tail_eq [of "count - count mod 4" count _ base step] unfolding pa_vec_materialize_ptrs_avx2_def v by simp
qed

lemma materialize_ptrs_eq: "pa_vec_materialize_ptrs has_avx2 base step count = ptr_seq base step 0 count"
  by (simp add: pa_vec_materialize_ptrs_def ptrs_scalar_seq ptrs_avx2_seq)

text \<open>C32: batch pointers.  The unrolled scalar loop and the AVX2 kernel with its dual-issue, single-step and tail
  loops both produce exactly the pointers \<open>base + k * step\<close> for \<open>k < count\<close>, in order, for every count, base and
  step, wrap-around included.\<close>
theorem vec_materialize_ptrs_equiv:
  "pa_vec_materialize_ptrs has_avx2 base step count = map (\<lambda>k. base + of_nat k * step) [0..<count] \<and>
   pa_vec_materialize_ptrs_avx2 base step count = ptrs_scalar step count 0 base []"
  by (simp add: materialize_ptrs_eq ptrs_avx2_seq ptrs_scalar_seq) (simp add: ptr_seq_def)

section \<open>The contract of a bump arena\<close>

text \<open>A sequence of requests served by an allocator: the blocks handed out, in order.\<close>

fun serve :: "('s \<Rightarrow> size_t \<Rightarrow> uintptr_t option \<times> 's) \<Rightarrow> 's \<Rightarrow> size_t list \<Rightarrow> (uintptr_t \<times> size_t) list \<times> 's" where
  "serve alloc s [] = ([], s)"
| "serve alloc s (sz # szs) =
     (let (r, s) = alloc s sz; (bs, s) = serve alloc s szs
      in (case r of Some p \<Rightarrow> (p, sz) # bs | None \<Rightarrow> bs, s))"

definition block :: "uintptr_t \<times> size_t \<Rightarrow> nat set" where
  "block b = {unat (fst b)..<unat (fst b) + unat (snd b)}"

text \<open>What a client relies on: each allocation lies between the old and the new bump position, inside the arena,
  aligned, and on usable (committed) memory, and usable memory stays usable.\<close>

locale bump_arena =
  fixes alloc :: "'s \<Rightarrow> size_t \<Rightarrow> uintptr_t option \<times> 's" and inv :: "'s \<Rightarrow> bool"
    and position limit align :: "'s \<Rightarrow> nat" and usable :: "'s \<Rightarrow> nat set"
  assumes alloc_Some: "inv s \<Longrightarrow> alloc s sz = (Some p, s') \<Longrightarrow>
      inv s' \<and> limit s' = limit s \<and> align s' = align s \<and> usable s \<subseteq> usable s' \<and>
      0 < unat sz \<and> position s \<le> unat p \<and> unat p + unat sz \<le> position s' \<and> position s' \<le> limit s \<and>
      align s dvd unat p \<and> {unat p..<unat p + unat sz} \<subseteq> usable s'"
    and alloc_None: "inv s \<Longrightarrow> alloc s sz = (None, s') \<Longrightarrow>
      inv s' \<and> limit s' = limit s \<and> align s' = align s \<and> usable s \<subseteq> usable s' \<and> position s' = position s"
begin

lemma serve_ok:
  "inv s \<Longrightarrow> serve alloc s szs = (bs, s') \<Longrightarrow>
     inv s' \<and> limit s' = limit s \<and> align s' = align s \<and> usable s \<subseteq> usable s' \<and> position s \<le> position s' \<and>
     (\<forall>(p, n) \<in> set bs. 0 < unat n \<and> position s \<le> unat p \<and> unat p + unat n \<le> position s' \<and>
        unat p + unat n \<le> limit s \<and> align s dvd unat p \<and> {unat p..<unat p + unat n} \<subseteq> usable s') \<and>
     sorted_wrt (\<lambda>(p, n) (q, m). unat p + unat n \<le> unat q) bs"
proof (induction szs arbitrary: s bs)
  case Nil
  then show ?case by simp
next
  case (Cons sz szs)
  obtain r s1 where a: "alloc s sz = (r, s1)" by fastforce
  obtain bs1 where rest: "serve alloc s1 szs = (bs1, s')" using Cons.prems(2) a by (auto split: prod.splits)
  show ?case
  proof (cases r)
    case None
    have "bs = bs1" using Cons.prems(2) a rest None by simp
    moreover have A: "inv s1 \<and> limit s1 = limit s \<and> align s1 = align s \<and> usable s \<subseteq> usable s1 \<and> position s1 = position s"
      using alloc_None Cons.prems(1) a None by blast
    ultimately show ?thesis using Cons.IH [OF _ rest] by fastforce
  next
    case (Some p)
    have bs: "bs = (p, sz) # bs1" using Cons.prems(2) a rest Some by simp
    have A: "inv s1 \<and> limit s1 = limit s \<and> align s1 = align s \<and> usable s \<subseteq> usable s1 \<and>
      0 < unat sz \<and> position s \<le> unat p \<and> unat p + unat sz \<le> position s1 \<and> position s1 \<le> limit s \<and>
      align s dvd unat p \<and> {unat p..<unat p + unat sz} \<subseteq> usable s1"
      using alloc_Some Cons.prems(1) a Some by blast
    note IH = Cons.IH [OF conjunct1 [OF A] rest]
    show ?thesis unfolding bs using A IH by (auto 0 3)
  qed
qed

lemma blocks_disjoint:
  assumes "inv s" "serve alloc s szs = (bs, s')" "i < j" "j < length bs"
  shows "block (bs ! i) \<inter> block (bs ! j) = {}"
  using serve_ok [OF assms(1,2)] assms(3,4) by (fastforce simp: sorted_wrt_iff_nth_less split_beta block_def)

lemma blocks_exclusive:
  assumes "inv s" "serve alloc s szs = (bs, s')" "lo \<le> position s" "limit s \<le> hi"
  shows "(\<forall>b \<in> set bs. 0 < snd b \<and> align s dvd unat (fst b) \<and> block b \<subseteq> usable s' \<and> block b \<subseteq> {lo..<hi}) \<and>
    (\<forall>i j. i < j \<and> j < length bs \<longrightarrow> block (bs ! i) \<inter> block (bs ! j) = {})"
proof -
  note S = serve_ok [OF assms(1,2)]
  have "0 < snd b \<and> align s dvd unat (fst b) \<and> block b \<subseteq> usable s' \<and> block b \<subseteq> {lo..<hi}" if "b \<in> set bs" for b
  proof -
    have "0 < unat (snd b) \<and> position s \<le> unat (fst b) \<and> unat (fst b) + unat (snd b) \<le> limit s \<and>
        align s dvd unat (fst b) \<and> block b \<subseteq> usable s'"
      using S that by (auto simp: split_beta block_def)
    then show ?thesis using assms(3,4) by (simp add: block_def subset_eq word_less_nat_alt)
  qed
  then show ?thesis using blocks_disjoint [OF assms(1,2)] by blast
qed

end

section \<open>Both arenas satisfy the contract\<close>

text \<open>What the arenas rely on in the platform layer: committing never takes memory away, and a commit that reports
  success makes the whole range accessible.  \<open>comm os\<close> is the set of accessible addresses.\<close>

definition prim_ok :: "('o \<Rightarrow> nat set) \<Rightarrow> 'o prim_env \<Rightarrow> bool" where
  "prim_ok comm env \<longleftrightarrow>
     (\<forall>os p n. comm os \<subseteq> comm (snd (prim_commit env os p n)) \<and>
        (fst (prim_commit env os p n) = 0 \<longrightarrow> {unat p..<unat p + unat n} \<subseteq> comm (snd (prim_commit env os p n))))"

lemma prim_okD:
  assumes "prim_ok comm env" "prim_commit env os p n = (err, os')"
  shows "comm os \<subseteq> comm os'" "err = 0 \<Longrightarrow> {unat p..<unat p + unat n} \<subseteq> comm os'"
  using assms(1) unfolding prim_ok_def using assms(2) by (metis fst_conv snd_conv)+

definition pow2 :: "size_t \<Rightarrow> bool" where
  "pow2 a \<longleftrightarrow> a \<noteq> 0 \<and> a AND (a - 1) = 0"

lemma vec_align_up_eq: "pow2 a \<Longrightarrow> PA_VEC_ALIGN_UP sz a = pa_align_up sz a"
  by (simp add: pow2_def PA_VEC_ALIGN_UP_def pa_align_up_def Let_def algebra_simps)

lemma align_up_pow2_cases:
  assumes "pow2 a"
  obtains (wrap) "pa_align_up sz a < sz" | (fits) "sz \<le> pa_align_up sz a" "unat a dvd unat (pa_align_up sz a)"
proof (cases "unat sz + (unat a - 1) < 2 ^ 64")
  case True
  then show ?thesis using pa_align_up_spec [of a sz] assms that(2) by (auto simp: pow2_def word_le_nat_alt)
next
  case False
  then have "pa_align_up sz a < sz"
    using pa_align_up_overflow_check [of a sz] assms by (simp add: pow2_def pa_is_power_of_two_def)
  then show ?thesis using that(1) by blast
qed

fun vec_inv :: "('o \<Rightarrow> nat set) \<Rightarrow> 'o prim_env \<Rightarrow> vec_arena \<times> 'o \<Rightarrow> bool" where
  "vec_inv comm env (a, os) \<longleftrightarrow>
     prim_ok comm env \<and> pow2 (va_alignment a) \<and> pow2 (va_commit_grain a) \<and>
     unat (va_alignment a) dvd unat (va_base a) \<and> unat (va_alignment a) dvd unat (va_used a) \<and>
     va_used a \<le> va_capacity a \<and> va_committed a \<le> va_capacity a \<and>
     unat (va_base a) + unat (va_capacity a) < 2 ^ 64 \<and>
     {unat (va_base a)..<unat (va_base a) + unat (va_committed a)} \<subseteq> comm os"

lemma vec_committed_ex: "\<exists>c. a = a\<lparr>va_committed := c\<rparr>"
  by (rule exI [of _ "va_committed a"]) simp

lemma vec_commit_to:
  assumes "vec_inv comm env (a, os)" "vec_arena_commit_to env a os nu = (ok, a', os')" "nu \<le> va_capacity a"
  shows "vec_inv comm env (a', os') \<and> (\<exists>c. a' = a\<lparr>va_committed := c\<rparr>) \<and> comm os \<subseteq> comm os' \<and> (ok \<longrightarrow> nu \<le> va_committed a')"
proof (cases "va_committed a < nu \<and> \<not> PA_VEC_ALIGN_UP nu (va_commit_grain a) < nu")
  case False
  then have "vec_arena_commit_to env a os nu = (\<not> va_committed a < nu, a, os)"
    by (auto simp: vec_arena_commit_to_def Let_def)
  moreover have "a = a\<lparr>va_committed := va_committed a\<rparr>" by simp
  ultimately show ?thesis using assms by (metis Pair_inject not_less order_refl)
next
  case True
  define need where "need = (if va_capacity a < PA_VEC_ALIGN_UP nu (va_commit_grain a) then va_capacity a else PA_VEC_ALIGN_UP nu (va_commit_grain a))"
  have n: "nu \<le> need" "need \<le> va_capacity a" "va_committed a < need"
    using True assms(3) by (auto simp: need_def)
  obtain e o1 where c: "prim_commit env os (va_base a + va_committed a) (need - va_committed a) = (e, o1)" by fastforce
  have eq: "vec_arena_commit_to env a os nu = (if e \<noteq> 0 then (False, a, o1) else (True, a\<lparr>va_committed := need\<rparr>, o1))"
    using True n(3) c by (simp add: vec_arena_commit_to_def Let_def need_def [symmetric] word_neq_0_conv [symmetric]) blast
  have ok: "prim_ok comm env" and ub: "unat (va_base a) + unat (va_capacity a) < 2 ^ 64"
    and cc: "va_committed a \<le> va_capacity a"
    and cm: "{unat (va_base a)..<unat (va_base a) + unat (va_committed a)} \<subseteq> comm os"
    using assms(1) by simp_all
  have sub: "unat (need - va_committed a) = unat need - unat (va_committed a)" using n(3) by (simp add: unat_sub)
  have add: "unat (va_base a + va_committed a) = unat (va_base a) + unat (va_committed a)"
    using ub cc by (intro unat_add_no_wrap) (simp add: word_le_nat_alt)
  have mono: "comm os \<subseteq> comm o1" using prim_okD(1) [OF ok c] .
  have "{unat (va_base a)..<unat (va_base a) + unat need} \<subseteq> comm o1" if "e = 0"
  proof -
    have "{unat (va_base a) + unat (va_committed a)..<unat (va_base a) + unat need} \<subseteq> comm o1"
      using prim_okD(2) [OF ok c that] n(3) by (simp add: sub add word_less_nat_alt)
    then show ?thesis using cm mono by (fastforce simp: subset_eq)
  qed
  then show ?thesis using assms(1,2) eq mono n cm vec_committed_ex by (auto split: if_splits)
qed

definition vec_refused :: "vec_arena \<Rightarrow> size_t \<Rightarrow> bool" where
  "vec_refused a sz \<longleftrightarrow> sz = 0 \<or> PA_VEC_ALIGN_UP sz (va_alignment a) < sz \<or>
     SIZE_MAX - va_used a < PA_VEC_ALIGN_UP sz (va_alignment a) \<or>
     va_capacity a < va_used a + PA_VEC_ALIGN_UP sz (va_alignment a) \<or>
     (va_max_size a \<noteq> 0 \<and> va_max_size a < va_used a + PA_VEC_ALIGN_UP sz (va_alignment a))"

lemma vec_alloc_eq:
  "pa_vec_arena_alloc env a os sz =
     (if vec_refused a sz then (None, a, os)
      else let nu = va_used a + PA_VEC_ALIGN_UP sz (va_alignment a); (ok, a1, o1) = vec_arena_commit_to env a os nu
           in if \<not> ok then (None, a1, o1) else (Some (va_base a1 + va_used a1), a1\<lparr>va_used := nu\<rparr>, o1))"
  unfolding pa_vec_arena_alloc_def vec_refused_def by (simp add: Let_def)

lemma vec_alloc_fails:
  assumes "vec_inv comm env (a, os)" "pa_vec_arena_alloc env a os sz = (None, a', os')"
  shows "vec_inv comm env (a', os') \<and> (\<exists>c. a' = a\<lparr>va_committed := c\<rparr>) \<and> comm os \<subseteq> comm os'"
proof (cases "vec_refused a sz")
  case True
  then have "(a', os') = (a, os)" using assms(2) by (simp add: vec_alloc_eq)
  moreover have "a = a\<lparr>va_committed := va_committed a\<rparr>" by simp
  ultimately show ?thesis using assms(1) by blast
next
  case False
  obtain ok a1 o1 where c: "vec_arena_commit_to env a os (va_used a + PA_VEC_ALIGN_UP sz (va_alignment a)) = (ok, a1, o1)"
    by (metis prod_cases3)
  have "(a', os') = (a1, o1)" using assms(2) False c by (simp add: vec_alloc_eq Let_def split: if_splits)
  then show ?thesis using vec_commit_to [OF assms(1) c] False by (simp add: vec_refused_def not_less)
qed

lemma vec_alloc_block:
  assumes "vec_inv comm env (a, os)" "pa_vec_arena_alloc env a os sz = (Some p, a', os')"
  shows "vec_inv comm env (a', os') \<and> comm os \<subseteq> comm os' \<and> sz \<noteq> 0 \<and> p = va_base a + va_used a \<and>
    (\<exists>c u. a' = a\<lparr>va_committed := c, va_used := u\<rparr> \<and> u \<le> c \<and> u \<le> va_capacity a \<and> unat (va_used a) + unat sz \<le> unat u \<and>
      (va_max_size a = 0 \<or> u \<le> va_max_size a))"
proof -
  define al where "al = PA_VEC_ALIGN_UP sz (va_alignment a)"
  define nu where "nu = va_used a + al"
  have "\<not> vec_refused a sz" using assms(2) by (auto simp: vec_alloc_eq)
  then have g: "sz \<noteq> 0 \<and> \<not> al < sz \<and> \<not> SIZE_MAX - va_used a < al \<and> \<not> va_capacity a < nu \<and> (va_max_size a = 0 \<or> nu \<le> va_max_size a)"
    unfolding al_def nu_def by (auto simp: vec_refused_def not_less)
  obtain ok a1 o1 where c: "vec_arena_commit_to env a os nu = (ok, a1, o1)" by (metis prod_cases3)
  note C = vec_commit_to [OF assms(1) c]
  have cap: "nu \<le> va_capacity a" using g by (simp add: not_less)
  obtain cc where a1: "a1 = a\<lparr>va_committed := cc\<rparr>" using C [OF cap] by blast
  have r: "ok" "a' = a1\<lparr>va_used := nu\<rparr>" "os' = o1" "p = va_base a + va_used a"
    using assms(2) c a1 unfolding vec_alloc_eq al_def [symmetric] nu_def [symmetric] by (simp_all add: Let_def split: if_splits)
  have "unat al \<le> unat (SIZE_MAX - va_used a)" using g by (simp add: word_le_nat_alt not_less)
  then have "unat (va_used a) + unat al < 2 ^ 64"
    using unat_lt2p [of "va_used a"] by (simp add: SIZE_MAX_def unat_sub word_le_nat_alt unsigned_minus_1_eq_mask mask_eq_exp_minus_1)
  then have nu: "unat nu = unat (va_used a) + unat al" unfolding nu_def by (intro unat_add_no_wrap) simp
  have p2: "pow2 (va_alignment a)" and d: "unat (va_alignment a) dvd unat (va_used a)" using assms(1) by simp_all
  have "unat (va_alignment a) dvd unat al"
    using align_up_pow2_cases [OF p2, of sz] g unfolding al_def vec_align_up_eq [OF p2] by fastforce
  then have "unat (va_alignment a) dvd unat nu" using d by (simp add: nu)
  then have "vec_inv comm env (a', os')" using C [OF cap] cap r(1) unfolding r(2,3) a1 by simp
  moreover have "unat sz \<le> unat al" using g by (simp add: word_le_nat_alt not_less)
  moreover have "a' = a\<lparr>va_committed := cc, va_used := nu\<rparr>" "nu \<le> cc" "comm os \<subseteq> comm os'"
    using r(1,2,3) C [OF cap] by (simp_all add: a1)
  moreover have "unat (va_used a) + unat sz \<le> unat nu" using nu \<open>unat sz \<le> unat al\<close> by simp
  ultimately show ?thesis using r(4) g cap by blast
qed

lemma pa_count_size_ok: "\<not> fst (pa_count_size_overflow count al) \<Longrightarrow> unat (snd (pa_count_size_overflow count al)) = unat count * unat al"
  using builtin_umull_overflow_value [of count al]
  by (auto simp: pa_count_size_overflow_def split: prod.splits if_splits)

interpretation vec: bump_arena "\<lambda>s sz. pa_vec_arena_alloc env (fst s) (snd s) sz" "vec_inv comm env"
    "\<lambda>(a, os). unat (va_base a) + unat (va_used a)" "\<lambda>(a, os). unat (va_base a) + unat (va_capacity a)"
    "\<lambda>(a, os). unat (va_alignment a)" "\<lambda>(a, os). comm os" for comm :: "'o \<Rightarrow> nat set" and env
proof (unfold_locales, goal_cases)
  case (1 s sz p s')
  obtain a os a' os' where s: "s = (a, os)" "s' = (a', os')" by (metis surj_pair)
  have V: "vec_inv comm env (a, os)" and r: "pa_vec_arena_alloc env a os sz = (Some p, a', os')" using 1 s by simp_all
  obtain c u where B: "vec_inv comm env (a', os')" "comm os \<subseteq> comm os'" "sz \<noteq> 0" "p = va_base a + va_used a"
    "a' = a\<lparr>va_committed := c, va_used := u\<rparr>" "u \<le> c" "u \<le> va_capacity a" "unat (va_used a) + unat sz \<le> unat u"
    using vec_alloc_block [OF V r] by blast
  have "unat p = unat (va_base a) + unat (va_used a)"
    using V unfolding B(4) by (intro unat_add_no_wrap) (auto simp: word_le_nat_alt)
  moreover have "{unat (va_base a)..<unat (va_base a) + unat c} \<subseteq> comm os'" using B(1,5) by simp
  moreover have "unat u \<le> unat c" "unat u \<le> unat (va_capacity a)" using B(6,7) by (simp_all add: word_le_nat_alt)
  moreover have "0 < unat sz" using B(3) by (simp add: unat_gt_0)
  ultimately show ?case using V B(1,2,5,8) unfolding s by (auto simp: subset_eq)
next
  case (2 s sz s')
  obtain a os a' os' where s: "s = (a, os)" "s' = (a', os')" by (metis surj_pair)
  have "pa_vec_arena_alloc env a os sz = (None, a', os')" "vec_inv comm env (a, os)" using 2 s by simp_all
  from vec_alloc_fails [OF this(2,1)] show ?case unfolding s by auto
qed

text \<open>The pomai arena in single-threaded mode.\<close>

fun pomai_inv :: "('o \<Rightarrow> nat set) \<Rightarrow> 'o prim_env \<Rightarrow> pomai_arena \<times> 'o \<Rightarrow> bool" where
  "pomai_inv comm env (a, os) \<longleftrightarrow>
     prim_ok comm env \<and> pow2 (av_commit_grain a) \<and> 64 dvd unat (av_addr a) \<and> 64 dvd unat (av_offset_plain a) \<and>
     unat (av_payload_start a) + unat (av_max_capacity_bytes a) \<le> unat (av_total_size a) \<and>
     unat (av_addr a) + unat (av_total_size a) < 2 ^ 64 \<and>
     unat (av_offset_plain a) \<le> unat (av_payload_start a) + unat (av_max_capacity_bytes a) \<and>
     av_committed_plain a \<le> av_total_size a \<and>
     {unat (av_addr a)..<unat (av_addr a) + unat (if av_use_os_reserve a then av_committed_plain a else av_total_size a)} \<subseteq> comm os"

lemma pomai_hard_limit: "pomai_inv comm env (a, os) \<Longrightarrow>
    unat (pa_arena_hard_limit a) = unat (av_payload_start a) + unat (av_max_capacity_bytes a)"
  unfolding pa_arena_hard_limit_def by (intro unat_add_no_wrap) auto

lemma pomai_committed_ex: "\<exists>c. a = a\<lparr>av_committed_plain := c\<rparr>"
  by (rule exI [of _ "av_committed_plain a"]) simp

lemma pomai_ensure_committed:
  assumes "pomai_inv comm env (a, os)" "av_use_os_reserve a" "need \<le> av_total_size a"
    and "pa_arena_ensure_committed_single env a os need = (ok, a', os')"
  shows "pomai_inv comm env (a', os') \<and> (\<exists>c. a' = a\<lparr>av_committed_plain := c\<rparr>) \<and> comm os \<subseteq> comm os' \<and>
    (ok \<longrightarrow> need \<le> av_committed_plain a')"
proof (cases "need \<le> av_committed_plain a \<or> pa_align_up need (av_commit_grain a) < need")
  case True
  then have "pa_arena_ensure_committed_single env a os need = (need \<le> av_committed_plain a, a, os)"
    by (auto simp: pa_arena_ensure_committed_single_def Let_def)
  then show ?thesis using assms pomai_committed_ex by (metis Pair_inject order_refl)
next
  case False
  define nc where "nc = (if av_total_size a < pa_align_up need (av_commit_grain a) then av_total_size a else pa_align_up need (av_commit_grain a))"
  have n: "need \<le> nc" "nc \<le> av_total_size a" "av_committed_plain a < nc" using False assms(3) by (auto simp: nc_def)
  obtain e o1 where c: "prim_commit env os (av_addr a + av_committed_plain a) (nc - av_committed_plain a) = (e, o1)" by fastforce
  have eq: "pa_arena_ensure_committed_single env a os need =
      (if e \<noteq> 0 then (False, a, o1) else (True, a\<lparr>av_committed_plain := nc\<rparr>, o1))"
    using False c by (simp add: pa_arena_ensure_committed_single_def Let_def nc_def [symmetric])
  have ok: "prim_ok comm env" and ub: "unat (av_addr a) + unat (av_total_size a) < 2 ^ 64" and cc: "av_committed_plain a \<le> av_total_size a"
    and cm: "{unat (av_addr a)..<unat (av_addr a) + unat (av_committed_plain a)} \<subseteq> comm os"
    using assms(1,2) by simp_all
  have sub: "unat (nc - av_committed_plain a) = unat nc - unat (av_committed_plain a)" using n(3) by (simp add: unat_sub)
  have add: "unat (av_addr a + av_committed_plain a) = unat (av_addr a) + unat (av_committed_plain a)"
    using ub cc by (intro unat_add_no_wrap) (simp add: word_le_nat_alt)
  have mono: "comm os \<subseteq> comm o1" using prim_okD(1) [OF ok c] .
  have "{unat (av_addr a)..<unat (av_addr a) + unat nc} \<subseteq> comm o1" if "e = 0"
  proof -
    have "{unat (av_addr a) + unat (av_committed_plain a)..<unat (av_addr a) + unat nc} \<subseteq> comm o1"
      using prim_okD(2) [OF ok c that] n(3) by (simp add: sub add word_less_nat_alt)
    then show ?thesis using cm mono by (fastforce simp: subset_eq)
  qed
  then show ?thesis using assms(1,2,4) eq mono n cm pomai_committed_ex by (auto split: if_splits)
qed

text \<open>The request size never overflows: it is the product rounded up to the vector alignment, or refused.\<close>

lemma pomai_request_exact:
  "pomai_request dim es =
     (if 0 < unat dim * unat es \<and> unat dim * unat es + 63 < 2 ^ 64
      then Some (of_nat ((unat dim * unat es + 63) div 64 * 64)) else None)"
proof -
  have mx: "unat SIZE_MAX = 2 ^ 64 - 1" by (simp add: SIZE_MAX_def)
  have ovf: "(0 < dim \<and> SIZE_MAX div dim < es) \<longleftrightarrow> 2 ^ 64 \<le> unat dim * unat es"
  proof (cases "dim = 0")
    case False
    then have "SIZE_MAX div dim < es \<longleftrightarrow> 2 ^ 64 - 1 < unat es * unat dim"
      using mul_overflow_iff [of "unat dim" "2 ^ 64 - 1" "unat es"] by (simp add: word_less_nat_alt unat_div mx unat_gt_0)
    then show ?thesis using False by (auto simp: ac_simps word_neq_0_conv [symmetric])
  qed simp
  show ?thesis
  proof (cases "unat dim * unat es < 2 ^ 64")
    case False
    then show ?thesis using ovf by (simp add: pomai_request_def)
  next
    case True
    have p: "unat (dim * es) = unat dim * unat es" using True by (intro unat_mult_no_wrap) simp
    have z: "dim * es = 0 \<longleftrightarrow> unat dim * unat es = 0" using p by (metis unat_eq_zero)
    have c: "pa_align_up (dim * es) 64 < dim * es \<longleftrightarrow> 2 ^ 64 \<le> unat dim * unat es + 63"
      using pa_align_up_overflow_check [of 64 "dim * es"] by (simp add: pa_is_power_of_two_def p)
    have v: "pa_align_up (dim * es) 64 = of_nat ((unat dim * unat es + 63) div 64 * 64)" if "unat dim * unat es + 63 < 2 ^ 64"
    proof -
      have "unat (pa_align_up (dim * es) 64) = (unat dim * unat es + 63) div 64 * 64"
        using unat_pa_align_up [of 64 "dim * es"] that p by simp
      then show ?thesis by (metis of_nat_unat ucast_id)
    qed
    show ?thesis using True ovf z c v by (auto simp: pomai_request_def Let_def)
  qed
qed

lemma pomai_request_Some:
  assumes "pomai_request dim es = Some al"
  shows "0 < unat dim * unat es" "unat dim * unat es \<le> unat al" "64 dvd unat al"
proof -
  let ?n = "unat dim * unat es"
  have n: "0 < ?n" "?n + 63 < 2 ^ 64" "al = of_nat ((?n + 63) div 64 * 64)"
    using assms unfolding pomai_request_exact by (auto split: if_splits)
  have "(?n + 63) div 64 * 64 \<le> ?n + 63" by (rule div_times_less_eq_dividend)
  then have "(?n + 63) div 64 * 64 < 2 ^ LENGTH(64)" using n(2) by simp
  then have u: "unat al = (?n + 63) div 64 * 64" unfolding n(3) by (simp only: unat_of_nat mod_less)
  show "0 < ?n" "64 dvd unat al" using n(1) u by simp_all
  show "?n \<le> unat al" unfolding u using nat_round_up_least(1) [of 64 ?n] by simp
qed

lemma pomai_alloc_eq:
  "p_arena_alloc_single env a os sz =
     (case if sz = 0 then None else pomai_request sz 1 of None \<Rightarrow> (None, a, os)
      | Some al \<Rightarrow> if pa_arena_hard_limit a < al \<or> pa_arena_hard_limit a - al < av_offset_plain a then (None, a, os)
          else let (ok, a1, o1) = (if av_use_os_reserve a
                 then pa_arena_ensure_committed_single env a os (av_offset_plain a + al) else (True, a, os))
               in if \<not> ok then (None, a1, o1)
                  else (Some (av_addr a1 + av_offset_plain a), a1\<lparr>av_offset_plain := av_offset_plain a + al\<rparr>, o1))"
  unfolding p_arena_alloc_single_def p_arena_alloc_vector_single_def by (simp add: Let_def split: option.split)

lemma pomai_alloc_ok:
  assumes inv: "pomai_inv comm env (a, os)" and r: "p_arena_alloc_single env a os sz = (r, a', os')"
  shows "pomai_inv comm env (a', os') \<and> comm os \<subseteq> comm os' \<and>
    (case r of None \<Rightarrow> (\<exists>c. a' = a\<lparr>av_committed_plain := c\<rparr>)
     | Some p \<Rightarrow> p = av_addr a + av_offset_plain a \<and> sz \<noteq> 0 \<and>
        (\<exists>c u. a' = a\<lparr>av_committed_plain := c, av_offset_plain := u\<rparr> \<and> unat (av_offset_plain a) + unat sz \<le> unat u \<and>
           (av_use_os_reserve a \<longrightarrow> u \<le> c)))"
proof (cases "if sz = 0 then None else pomai_request sz 1")
  case None
  then have "r = None" "a' = a" "os' = os" using r by (simp_all add: pomai_alloc_eq)
  then show ?thesis using inv pomai_committed_ex by auto
next
  case (Some al)
  then have sz: "sz \<noteq> 0" and rq: "pomai_request sz 1 = Some al" by (auto split: if_splits)
  have al: "unat sz \<le> unat al" "64 dvd unat al" using pomai_request_Some [OF rq] by simp_all
  define H where "H = unat (av_payload_start a) + unat (av_max_capacity_bytes a)"
  note hl = pomai_hard_limit [OF inv, folded H_def]
  show ?thesis
  proof (cases "pa_arena_hard_limit a < al \<or> pa_arena_hard_limit a - al < av_offset_plain a")
    case True
    then have "r = None" "a' = a" "os' = os" using r Some by (simp_all add: pomai_alloc_eq)
    then show ?thesis using inv pomai_committed_ex by auto
  next
    case False
    then have "unat al \<le> H" "unat (av_offset_plain a) \<le> H - unat al"
      using hl by (auto simp: word_less_nat_alt word_le_nat_alt not_less unat_sub)
    then have nb: "unat (av_offset_plain a) + unat al \<le> H" by simp
    have H: "H \<le> unat (av_total_size a)" "unat (av_total_size a) < 2 ^ 64" using inv unat_lt2p [of "av_total_size a"] by (simp_all add: H_def)
    define nu where "nu = av_offset_plain a + al"
    have nu: "unat nu = unat (av_offset_plain a) + unat al" unfolding nu_def using nb H by (intro unat_add_no_wrap) simp
    have nt: "nu \<le> av_total_size a" using nb H by (simp add: word_le_nat_alt nu)
    obtain ok a1 o1 where e: "(if av_use_os_reserve a then pa_arena_ensure_committed_single env a os nu else (True, a, os)) = (ok, a1, o1)"
      by (metis prod_cases3)
    have A: "pomai_inv comm env (a1, o1) \<and> (\<exists>c. a1 = a\<lparr>av_committed_plain := c\<rparr>) \<and> comm os \<subseteq> comm o1 \<and>
        (ok \<longrightarrow> av_use_os_reserve a \<longrightarrow> nu \<le> av_committed_plain a1)"
    proof (cases "av_use_os_reserve a")
      case True
      then show ?thesis using pomai_ensure_committed [OF inv True nt, of ok a1 o1] e by simp
    next
      case False
      then show ?thesis using inv e pomai_committed_ex by auto
    qed
    then obtain c where a1: "a1 = a\<lparr>av_committed_plain := c\<rparr>" by blast
    have R: "(r, a', os') = (if \<not> ok then (None, a1, o1) else (Some (av_addr a + av_offset_plain a), a1\<lparr>av_offset_plain := nu\<rparr>, o1))"
      using r Some False e [unfolded nu_def] by (cases ok) (simp_all add: pomai_alloc_eq Let_def a1 nu_def)
    show ?thesis
    proof (cases ok)
      case True
      have "64 dvd unat nu" using inv al(2) by (simp add: nu)
      then have "pomai_inv comm env (a', os')" using A R True nb by (cases "av_use_os_reserve a") (simp_all add: a1 nu H_def)
      moreover have "comm os \<subseteq> comm os'" "r = Some (av_addr a + av_offset_plain a)"
        "a' = a\<lparr>av_committed_plain := c, av_offset_plain := nu\<rparr>" "av_use_os_reserve a \<longrightarrow> nu \<le> c"
        using A R True by (simp_all add: a1)
      moreover have "unat (av_offset_plain a) + unat sz \<le> unat nu" using nu al(1) by simp
      ultimately show ?thesis using sz by auto
    next
      case False
      then show ?thesis using A R by simp
    qed
  qed
qed

interpretation pomai: bump_arena "\<lambda>s sz. p_arena_alloc_single env (fst s) (snd s) sz" "pomai_inv comm env"
    "\<lambda>(a, os). unat (av_addr a) + unat (av_offset_plain a)"
    "\<lambda>(a, os). unat (av_addr a) + (unat (av_payload_start a) + unat (av_max_capacity_bytes a))"
    "\<lambda>_. 64" "\<lambda>(a, os). comm os" for comm :: "'o \<Rightarrow> nat set" and env
proof (unfold_locales, goal_cases)
  case (1 s sz p s')
  obtain a os a' os' where s: "s = (a, os)" "s' = (a', os')" by (metis surj_pair)
  have V: "pomai_inv comm env (a, os)" and r: "p_arena_alloc_single env a os sz = (Some p, a', os')" using 1 s by simp_all
  obtain c u where B: "pomai_inv comm env (a', os')" "comm os \<subseteq> comm os'" "sz \<noteq> 0" "p = av_addr a + av_offset_plain a"
    "a' = a\<lparr>av_committed_plain := c, av_offset_plain := u\<rparr>" "unat (av_offset_plain a) + unat sz \<le> unat u"
    "av_use_os_reserve a \<longrightarrow> u \<le> c"
    using pomai_alloc_ok [OF V r] by auto
  have p: "unat p = unat (av_addr a) + unat (av_offset_plain a)"
    using V unfolding B(4) by (intro unat_add_no_wrap) auto
  have "{unat (av_addr a)..<unat (av_addr a) + unat u} \<subseteq> comm os'"
  proof (cases "av_use_os_reserve a")
    case True
    then have "{unat (av_addr a)..<unat (av_addr a) + unat c} \<subseteq> comm os'" "unat u \<le> unat c" using B(1,5,7) by (simp_all add: word_le_nat_alt)
    then show ?thesis by (auto simp: subset_eq)
  next
    case False
    then have "{unat (av_addr a)..<unat (av_addr a) + unat (av_total_size a)} \<subseteq> comm os'" "unat u \<le> unat (av_total_size a)"
      using B(1,5) by simp_all
    then show ?thesis by (auto simp: subset_eq)
  qed
  moreover have "0 < unat sz" using B(3) by (simp add: unat_gt_0)
  moreover have "64 dvd unat p" using V by (simp add: p)
  moreover have "unat u \<le> unat (av_payload_start a) + unat (av_max_capacity_bytes a)" using B(1,5) by simp
  ultimately show ?case using B(1,2,5,6) p unfolding s by (auto simp: subset_eq)
next
  case (2 s sz s')
  obtain a os a' os' where s: "s = (a, os)" "s' = (a', os')" by (metis surj_pair)
  have r: "p_arena_alloc_single env a os sz = (None, a', os')" and V: "pomai_inv comm env (a, os)" using 2 s by simp_all
  from pomai_alloc_ok [OF V r] show ?case unfolding s by auto
qed

section \<open>From creation to allocation\<close>

text \<open>The documented contract of the platform's allocation primitive: the page size is a power of two, a successful
  reservation of a non-empty range is page aligned (the requested alignment is only a hint), does not wrap around the
  address space, and is accessible when it was asked to be committed; an empty range is refused.\<close>

definition prim_alloc_ok :: "('o \<Rightarrow> nat set) \<Rightarrow> 'o prim_env \<Rightarrow> bool" where
  "prim_alloc_ok comm env \<longleftrightarrow> prim_ok comm env \<and> pow2 (os_page_size env) \<and> 64 \<le> os_page_size env \<and>
     (\<forall>os n al c e p os'. prim_alloc env os n al c = (e, p, os') \<longrightarrow> e = 0 \<longrightarrow> p \<noteq> 0 \<longrightarrow>
        0 < n \<and> unat (os_page_size env) dvd unat p \<and> unat p + unat n < 2 ^ 64 \<and>
        (c \<longrightarrow> {unat p..<unat p + unat n} \<subseteq> comm os'))"

lemma prim_alloc_okD:
  assumes "prim_alloc_ok comm env" "prim_alloc env os n al c = (e, p, os')" "e = 0" "p \<noteq> 0"
  shows "0 < n" "unat (os_page_size env) dvd unat p" "unat p + unat n < 2 ^ 64"
    "c \<Longrightarrow> {unat p..<unat p + unat n} \<subseteq> comm os'"
  using assms unfolding prim_alloc_ok_def by blast+

lemma pow2_dvd:
  assumes "pow2 a" "pow2 b" "a \<le> b"
  shows "unat a dvd unat b"
proof -
  obtain i where i: "unat a = 2 ^ i" using pow2_and_pred_mask [of a] assms(1) unfolding pow2_def by metis
  obtain j where j: "unat b = 2 ^ j" using pow2_and_pred_mask [of b] assms(2) unfolding pow2_def by metis
  have "(2::nat) ^ i \<le> 2 ^ j" using assms(3) i j by (simp add: word_le_nat_alt)
  then have "i \<le> j" using power_le_imp_le_exp [of 2 i j] by simp
  then show ?thesis unfolding i j by (rule le_imp_power_dvd)
qed

lemma unat_round_up_dvd:
  fixes s a :: nat
  assumes "0 < a" "a dvd s"
  shows "(s + (a - 1)) div a * a = s"
proof -
  obtain k where k: "s = a * k" using assms(2) by (rule dvdE)
  have "(a * k + (a - 1)) div a = k" using assms(1) by (subst div_mult_self4) simp_all
  then show ?thesis by (simp add: k)
qed

lemma pow2_half: "pow2 a \<Longrightarrow> unat a \<le> 2 ^ 63"
proof -
  assume "pow2 a"
  then obtain j where "j < LENGTH(64)" "unat a = 2 ^ j" using pow2_and_pred_mask [of a] unfolding pow2_def by metis
  then show ?thesis using power_increasing [of j 63 "2::nat"] by simp
qed

lemma pow2_max_grain:
  assumes "pow2 page"
  shows "pow2 (pa_align_up (if 0x200000 < page then page else 0x200000) page)"
proof -
  let ?g = "if 0x200000 < page then page else 0x200000"
  have g: "pow2 ?g" using assms by (simp add: pow2_def)
  have le: "page \<le> ?g" by (simp add: not_less)
  have "unat page \<le> 2 ^ 63" "unat ?g \<le> 2 ^ 63" using pow2_half assms g by blast+
  moreover have "0 < unat page" using assms by (simp add: pow2_def unat_gt_0)
  ultimately have "unat ?g + (unat page - 1) < 2 ^ 63 + 2 ^ 63" by linarith
  then have "unat ?g + (unat page - 1) < 2 ^ 64" by simp
  then have "unat (pa_align_up ?g page) = unat ?g"
    using unat_pa_align_up [of page ?g] unat_round_up_dvd [OF _ pow2_dvd [OF assms g le]] assms
    unfolding pow2_def unat_gt_0 by metis
  then have "pa_align_up ?g page = ?g" by (rule word_unat_eq_iff [THEN iffD2])
  then show ?thesis by (rule ssubst) (rule g)
qed

lemma pomai_create_inv:
  assumes ok: "prim_alloc_ok comm env" and r: "p_arena_create_for_vector_ex env os cap False = (Some a, os1)"
  shows "pomai_inv comm env (a, os1)"
proof -
  define page where "page = os_page_size env"
  define ps where "ps = pa_arena_payload_start env"
  define ts where "ts = pa_align_up (ps + cap) page"
  have pg: "pow2 page" "64 \<le> page" "prim_ok comm env" using ok by (simp_all add: prim_alloc_ok_def page_def)
  obtain e p o1 where al: "prim_alloc env os ts page (\<not> has_virtual_reserve env) = (e, p, o1)" by (metis prod_cases3)
  define fc where "fc = (if pa_align_up (ps + pa_align_up (if 0x200000 < page then page else 0x200000) page) page < ts
      then pa_align_up (ps + pa_align_up (if 0x200000 < page then page else 0x200000) page) page else ts)"
  obtain ce o2 where cm: "prim_commit env o1 p fc = (ce, o2)" by fastforce
  have g: "cap \<noteq> 0" "\<not> SIZE_MAX - ps < cap" "e = 0" "p \<noteq> 0" "has_virtual_reserve env \<Longrightarrow> ce = 0"
    and os1: "os1 = (if has_virtual_reserve env then o2 else o1)"
    and a: "a = \<lparr>av_addr = p, av_offset_atomic = ps, av_offset_plain = ps,
        av_committed_atomic = (if has_virtual_reserve env then fc else ts),
        av_committed_plain = (if has_virtual_reserve env then fc else ts),
        av_payload_start = ps, av_payload_capacity = cap, av_max_capacity_bytes = cap, av_total_size = ts,
        av_commit_grain = pa_align_up (if 0x200000 < page then page else 0x200000) page, av_shared = False,
        av_use_os_reserve = has_virtual_reserve env\<rparr>"
    using r al cm unfolding p_arena_create_for_vector_ex_def Let_def page_def [symmetric] ps_def [symmetric]
      ts_def [symmetric] fc_def [symmetric]
    by (simp_all split: if_splits)
  note A = prim_alloc_okD [OF ok al g(3,4), folded page_def]
  have "unat cap \<le> unat (SIZE_MAX - ps)" using g(2) by (simp add: word_le_nat_alt not_less)
  then have "unat ps + unat cap < 2 ^ 64"
    using unat_lt2p [of ps] by (simp add: SIZE_MAX_def unat_sub word_le_nat_alt unsigned_minus_1_eq_mask mask_eq_exp_minus_1)
  then have sum: "unat (ps + cap) = unat ps + unat cap" by (intro unat_add_no_wrap) simp
  have "\<not> ts < ps + cap" using pa_align_up_wrap [of page "ps + cap"] pa_align_up_overflow_check [of page "ps + cap"] A(1) pg(1)
    unfolding ts_def by (auto simp: pow2_def pa_is_power_of_two_def)
  then have tot: "unat ps + unat cap \<le> unat ts" by (simp add: word_le_nat_alt not_less sum)
  have "64 dvd unat page" using pow2_dvd [of 64 page] pg by (simp add: pow2_def)
  then have d: "64 dvd unat p" using A(2) dvd_trans by blast
  have mx: "(if 64 < page then page else 64) = page" using pg(2) by auto
  have ps64: "64 dvd unat ps"
  proof -
    have "unat (88 :: size_t) + (unat page - 1) < 2 ^ 64" using pow2_half [OF pg(1)] by simp
    then have "unat page dvd unat (pa_align_up 88 page)" using pa_align_up_spec [of page 88] pg(1) by (simp add: pow2_def)
    then have "unat page dvd unat ps" unfolding ps_def pa_arena_payload_start_def Let_def page_def [symmetric] mx .
    then show ?thesis using \<open>64 dvd unat page\<close> dvd_trans by blast
  qed
  have fct: "fc \<le> ts" unfolding fc_def by (rule if_split [THEN iffD2]) (simp add: less_imp_le)
  have "{unat p..<unat p + unat (if has_virtual_reserve env then fc else ts)} \<subseteq> comm os1"
    using prim_okD(2) [OF pg(3) cm] g(5) A(4) os1 by (cases "has_virtual_reserve env") simp_all
  then show ?thesis using pg(3) d ps64 tot A(3) fct pow2_max_grain [OF pg(1)]
    by (cases "has_virtual_reserve env") (simp_all add: a)
qed

lemma pomai_create_offset:
  assumes ok: "prim_alloc_ok comm env" and r: "p_arena_create_for_vector_ex env os cap False = (Some a, os1)"
  shows "88 \<le> unat (av_payload_start a) \<and> unat (os_page_size env) dvd unat (av_payload_start a) \<and>
    av_offset_plain a = av_payload_start a"
proof -
  define page where "page = os_page_size env"
  have pg: "pow2 page" "64 \<le> page" using ok by (simp_all add: prim_alloc_ok_def page_def)
  have p: "av_offset_plain a = pa_arena_payload_start env" "av_payload_start a = pa_arena_payload_start env"
    using r unfolding p_arena_create_for_vector_ex_def Let_def by (auto split: if_splits prod.splits)
  have m: "(if 64 < page then page else 64) = page" using pg(2) by auto
  have "88 \<le> unat (pa_align_up 88 page) \<and> unat page dvd unat (pa_align_up 88 page)"
    using pa_align_up_spec [of page 88] pow2_half [OF pg(1)] pg(1) by (simp add: pow2_def)
  then show ?thesis unfolding p pa_arena_payload_start_def Let_def page_def [symmetric] m by simp
qed

text \<open>Creation of a vector arena records its first slab as committed without looking at the result of the commit.
  \<open>first_commit_ok\<close> names that trust for one created arena: the memory it records as committed is accessible.  It says
  nothing of later commits.\<close>

definition first_commit_ok :: "('o \<Rightarrow> nat set) \<Rightarrow> vec_arena \<Rightarrow> 'o \<Rightarrow> bool" where
  "first_commit_ok comm a os \<longleftrightarrow>
     (va_use_os_reserve a \<longrightarrow> {unat (va_base a)..<unat (va_base a) + unat (va_committed a)} \<subseteq> comm os)"

lemma pow2_and_eq_0:
  assumes "pow2 a"
  shows "w AND (a - 1) = 0 \<longleftrightarrow> unat a dvd unat w"
proof -
  obtain k where k: "a - 1 = mask k" "unat a = 2 ^ k" using pow2_and_pred_mask [of a] assms unfolding pow2_def by metis
  have "unat (take_bit k w) = take_bit k (unat w)" by (rule unsigned_take_bit_eq)
  then have "unat (take_bit k w) = unat w mod 2 ^ k" by (simp only: take_bit_nat_eq_self_iff take_bit_eq_mod [of k "unat w"])
  then have "take_bit k w = 0 \<longleftrightarrow> unat w mod 2 ^ k = 0" by (metis unat_eq_zero)
  then show ?thesis by (simp only: k take_bit_eq_mask [symmetric] dvd_eq_mod_eq_0)
qed

lemma vec_create_base:
  assumes "pow2 al" "unat blk + unat extra < 2 ^ 64" "pow2 page" "unat page dvd unat blk"
    and extra: "extra = (if page < al then al else 0)"
    and base: "base = (if 0 < extra \<and> blk AND (al - 1) \<noteq> 0 then pa_align_up blk al else blk)"
  shows "unat al dvd unat base \<and> unat blk \<le> unat base \<and> unat base \<le> unat blk + unat extra"
proof (cases "page < al \<and> \<not> unat al dvd unat blk")
  case True
  then have b: "base = pa_align_up blk al" and e: "extra = al"
    using assms(1) by (simp_all add: base extra pow2_and_eq_0 pow2_def word_neq_0_conv [symmetric])
  have nw: "al \<noteq> 0" "unat blk + (unat al - 1) < 2 ^ 64" using assms(1,2) e by (auto simp: pow2_def)
  have "unat (pa_align_up blk al) < unat blk + unat al"
    unfolding unat_pa_align_up [OF nw] using nw(1) by (intro nat_round_up_least) (simp add: unat_gt_0)
  then show ?thesis using pa_align_up_spec [OF nw] unfolding b e by simp
next
  case False
  then have "unat al dvd unat blk" using pow2_dvd [OF assms(1,3)] assms(4) dvd_trans by (metis not_less)
  then show ?thesis by (simp add: base pow2_and_eq_0 [OF assms(1)])
qed

lemma vec_init_inv:
  assumes pok: "prim_ok comm env" and fok: "first_commit_ok comm a os1"
    and al: "pow2 al" "pow2 cg" "pow2 page" "unat page dvd unat blk" "extra = (if page < al then al else 0)"
    and obs: "unat obs = unat cap + unat extra" "unat blk + unat obs < 2 ^ 64" "0 < unat cap"
    and cm: "\<not> has_virtual_reserve env \<Longrightarrow> {unat blk..<unat blk + unat obs} \<subseteq> comm os"
    and r: "vec_arena_init env os blk obs cap extra al cg = (a, os1)"
  shows "vec_inv comm env (a, os1) \<and> va_used a = 0 \<and> va_alignment a = al \<and> va_capacity a = cap \<and> va_os_block a = blk \<and>
    va_os_block_size a = obs \<and> unat blk \<le> unat (va_base a) \<and> unat (va_base a) + unat cap \<le> unat blk + unat obs"
proof -
  define base where "base = (if 0 < extra \<and> blk AND (al - 1) \<noteq> 0 then pa_align_up blk al else blk)"
  have "unat blk + unat extra < 2 ^ 64" using obs by simp
  note B = vec_create_base [OF al(1) this al(3,4,5) base_def]
  have sl: "unat (base - blk) = unat base - unat blk" using B by (simp add: unat_sub word_le_nat_alt)
  have act: "base - blk < obs" "\<not> obs - (base - blk) < cap"
    using B obs by (auto simp: word_less_nat_alt sl unat_sub word_le_nat_alt)
  have fc: "(if (if base - blk < obs then obs - (base - blk) else 0) < cap then (if base - blk < obs then obs - (base - blk) else 0) else cap) = cap"
    using act by simp
  have cap0: "0 < cap" using obs(3) by (simp add: word_less_nat_alt)
  define fst1 where "fst1 = (if cg < cap then cg else cap)"
  obtain ce o2 where c: "prim_commit env os base fst1 = (ce, o2)" by fastforce
  have ar: "(a, os1) = (\<lparr>va_os_block = blk, va_os_block_size = obs, va_base = base, va_alignment = al, va_capacity = cap,
        va_used = 0, va_committed = (if has_virtual_reserve env then fst1 else cap), va_commit_grain = cg, va_max_size = 0,
        va_use_os_reserve = has_virtual_reserve env\<rparr>, if has_virtual_reserve env then o2 else os)"
    using r c cap0 unfolding vec_arena_init_def Let_def base_def [symmetric] fc fst1_def [symmetric]
    by (cases "has_virtual_reserve env") simp_all

  have fle: "fst1 \<le> cap" by (simp add: fst1_def less_imp_le)
  have "{unat base..<unat base + unat (if has_virtual_reserve env then fst1 else cap)} \<subseteq> comm os1"
  proof (cases "has_virtual_reserve env")
    case True
    then show ?thesis using fok ar by (simp add: first_commit_ok_def)
  next
    case False
    then show ?thesis using cm ar B obs by (fastforce simp: subset_eq)
  qed
  then show ?thesis using ar pok al B obs fle by (cases "has_virtual_reserve env") simp_all
qed

lemma vec_create_inv:
  assumes ok: "prim_alloc_ok comm env" and fok: "first_commit_ok comm a os1"
    and r: "pa_vec_arena_create_ex env os isz al True = (Some a, os1)"
  shows "vec_inv comm env (a, os1) \<and> va_used a = 0 \<and> va_alignment a = al \<and> isz \<le> va_capacity a \<and>
    unat (va_os_block a) \<le> unat (va_base a) \<and>
    unat (va_base a) + unat (va_capacity a) \<le> unat (va_os_block a) + unat (va_os_block_size a)"
proof -
  define page where "page = os_page_size env"
  define cap where "cap = PA_VEC_ALIGN_UP isz page"
  define extra where "extra = (if page < al then al else 0)"
  define obs where "obs = cap + extra"
  define cg where "cg = PA_VEC_ALIGN_UP (if PA_VEC_COMMIT_GRAIN < page then page else PA_VEC_COMMIT_GRAIN) page"
  have pg: "pow2 page" "prim_ok comm env" using ok by (simp_all add: prim_alloc_ok_def page_def)
  obtain e blk o1 where pa: "prim_alloc env os obs (if page < al then al else page) (\<not> has_virtual_reserve env) = (e, blk, o1)"
    by (metis prod_cases3)
  have g: "isz \<noteq> 0" "pow2 al" "\<not> SIZE_MAX - page < isz" "\<not> SIZE_MAX - cap < extra" "e = 0" "blk \<noteq> 0"
    "vec_arena_init env o1 blk obs cap extra al cg = (a, os1)"
    using r pa unfolding pa_vec_arena_create_ex_def Let_def page_def [symmetric] cap_def [symmetric]
      extra_def [symmetric] obs_def [symmetric] cg_def [symmetric]
    by (simp_all add: pow2_def split: if_splits prod.splits)
  have "PA_VEC_COMMIT_GRAIN = 0x200000" by (simp add: PA_VEC_COMMIT_GRAIN_def)
  then have cg: "pow2 cg" using pow2_max_grain [OF pg(1)] unfolding cg_def vec_align_up_eq [OF pg(1)] by (simp only:)
  have mx: "unat SIZE_MAX = 2 ^ 64 - 1" by (simp add: SIZE_MAX_def)
  have sm: "unat (SIZE_MAX - w) = 2 ^ 64 - 1 - unat w" for w :: size_t
    using unat_lt2p [of w] by (subst unat_sub) (simp_all add: mx word_le_nat_alt)
  have "unat isz + (unat page - 1) < 2 ^ 64" using g(3) pow2_half [OF pg(1)] by (simp add: sm word_less_nat_alt not_less)
  then have cap: "unat isz \<le> unat cap"
    using pa_align_up_spec [of page isz] pg(1) vec_align_up_eq [OF pg(1)] by (simp add: cap_def pow2_def)
  have "unat cap + unat extra < 2 ^ 64" using g(4) unat_lt2p [of cap] by (simp add: sm word_less_nat_alt not_less)
  then have ob: "unat obs = unat cap + unat extra" unfolding obs_def by (intro unat_add_no_wrap) simp
  have c0: "0 < unat cap" using cap g(1) by (metis gr_zeroI le_zero_eq unat_eq_zero)
  note A = prim_alloc_okD [OF ok pa g(5,6), folded page_def]
  show ?thesis using vec_init_inv [OF pg(2) fok g(2) cg pg(1) A(2) extra_def ob A(3) c0 A(4) g(7)] cap
    by (clarsimp simp: word_le_nat_alt)
qed

section \<open>What a client gets\<close>

text \<open>A platform for the witnesses: reservations at one fixed address, below a size limit, of which only the first four
  megabytes and one page can be committed; the state is the end of the accessible memory.\<close>

definition demo_prim :: "int prim_env" where
  "demo_prim = \<lparr>prim_alloc = (\<lambda>os n al c. if n = 0 \<or> 0x40000000 < n then (12, 0, os)
                                 else (0, 0x100000, if c then max os (0x100000 + uint n) else os)),
    prim_commit = (\<lambda>os p n. if 0x501000 < uint p + uint n then (12, os) else (0, max os (uint p + uint n))),
    prim_decommit = (\<lambda>os p n. os),
    prim_free = (\<lambda>os p n. os), os_page_size = 4096, has_virtual_reserve = True\<rparr>"

abbreviation demo_comm :: "int \<Rightarrow> nat set" where
  "demo_comm os \<equiv> {k. int k < os}"

lemma int_less_uint: "k < unat p + unat n \<Longrightarrow> int k < uint p + uint n"
  by (metis of_nat_add of_nat_less_iff uint_nat)

lemma demo_prim_ok: "prim_alloc_ok demo_comm demo_prim"
proof -
  have "{unat p..<unat p + unat n} \<subseteq> demo_comm (max os (uint p + uint n))" for os p n
    using int_less_uint [of _ p n] by (simp add: subset_eq less_max_iff_disj)
  then have p: "prim_ok demo_comm demo_prim"
    unfolding prim_ok_def by (simp add: demo_prim_def) (auto simp: less_max_iff_disj)
  have pg: "os_page_size demo_prim = 4096" by (simp add: demo_prim_def)
  have a: "0 < n \<and> unat (4096 :: size_t) dvd unat p \<and> unat p + unat n < 2 ^ 64 \<and> (c \<longrightarrow> {unat p..<unat p + unat n} \<subseteq> demo_comm os')"
    if "prim_alloc demo_prim os n al c = (e, p, os')" "e = 0" for os n al c e p os'
  proof -
    have n: "n \<noteq> 0" "\<not> 0x40000000 < n" and p: "p = 0x100000" and os: "os' = (if c then max os (0x100000 + uint n) else os)"
      using that by (simp_all add: demo_prim_def split: if_splits)
    have "unat n \<le> 0x40000000" using n(2) by (simp add: word_less_nat_alt not_less)
    then have "unat p + unat n < 2 ^ 64" by (simp add: p)
    moreover have "0 < n" using n(1) by (simp add: word_neq_0_conv)
    moreover have "unat (4096 :: size_t) dvd unat p" by (simp add: p)
    moreover have "int k < uint p + uint n" if "k < unat p + unat n" for k using that by (rule int_less_uint)
    then have "c \<longrightarrow> {unat p..<unat p + unat n} \<subseteq> demo_comm os'" by (simp add: os p subset_eq less_max_iff_disj)
    ultimately show ?thesis by blast
  qed
  show "prim_alloc_ok demo_comm demo_prim"
    unfolding prim_alloc_ok_def pg using p a by (simp add: pow2_def)
qed

text \<open>C22: the blocks of a vector arena.  After a successful creation, every sequence of allocations gets blocks that
  are aligned to the requested alignment, lie inside the block reserved from the operating system, are accessible
  memory, and never overlap: refused requests, lazy commits that fail and wrap-around of sizes included.  The platform
  must report commits truthfully, and the slab that creation records as committed, without looking at the result of that
  one commit, must be accessible.\<close>
theorem vec_arena_blocks_exclusive:
  assumes "prim_alloc_ok comm env" "first_commit_ok comm a os1"
    and "pa_vec_arena_create_ex env os isz al True = (Some a, os1)"
    and "serve (\<lambda>s sz. pa_vec_arena_alloc env (fst s) (snd s) sz) (a, os1) szs = (bs, (a', os'))"
  shows "(\<forall>b \<in> set bs. 0 < snd b \<and> unat al dvd unat (fst b) \<and> block b \<subseteq> comm os' \<and>
      block b \<subseteq> {unat (va_os_block a)..<unat (va_os_block a) + unat (va_os_block_size a)}) \<and>
    (\<forall>i j. i < j \<and> j < length bs \<longrightarrow> block (bs ! i) \<inter> block (bs ! j) = {})"
proof -
  note I = vec_create_inv [OF assms(1-3)]
  show ?thesis
    using vec.blocks_exclusive [OF conjunct1 [OF I] assms(4), of "unat (va_os_block a)"
        "unat (va_os_block a) + unat (va_os_block_size a)"] I by simp
qed

definition demo_vec :: "vec_arena \<times> int" where
  "demo_vec = (let (a, os) = pa_vec_arena_create_ex demo_prim 0 0x500000 64 True in (the a, os))"

definition demo_vec_serve :: "(uintptr_t \<times> size_t) list \<times> vec_arena \<times> int" where
  "demo_vec_serve = serve (\<lambda>s sz. pa_vec_arena_alloc demo_prim (fst s) (snd s) sz) demo_vec [0x180000, 0x200000, 0x170000, 4000]"

lemma demo_vec_values:
  "fst (pa_vec_arena_create_ex demo_prim 0 0x500000 64 True) \<noteq> None"
  "va_base (fst demo_vec) = 0x100000" "va_committed (fst demo_vec) = 0x200000" "snd demo_vec = 0x300000"
  "fst demo_vec_serve = [(0x100000, 0x180000), (0x280000, 0x200000), (0x480000, 4000)]" "snd (snd demo_vec_serve) = 0x500000"
  by code_simp+

lemma demo_first_commit: "first_commit_ok demo_comm (fst demo_vec) (snd demo_vec)"
  by (simp add: first_commit_ok_def demo_vec_values(2-4) subset_eq)

text \<open>The second block needs a lazy commit; the request for \<open>0x170000\<close> bytes fits the reservation but its commit is
  refused.\<close>

theorem vec_arena_blocks_exclusive_witness:
  "block (0x280000, 0x200000) \<subseteq> demo_comm 0x500000 \<and> block (0x480000, 4000) \<subseteq> demo_comm 0x500000 \<and>
   block (0x100000, 0x180000) \<inter> block (0x280000, 0x200000) = {}"
proof -
  have c: "pa_vec_arena_create_ex demo_prim 0 0x500000 64 True = (Some (fst demo_vec), snd demo_vec)"
    using demo_vec_values(1) by (auto simp: demo_vec_def split: prod.split)
  obtain bs a' os' where r: "demo_vec_serve = (bs, (a', os'))" by (metis prod_cases3)
  then have s: "serve (\<lambda>s sz. pa_vec_arena_alloc demo_prim (fst s) (snd s) sz) (fst demo_vec, snd demo_vec)
        [0x180000, 0x200000, 0x170000, 4000] =
      (bs, (a', os'))" by (simp add: demo_vec_serve_def)
  have bs: "bs = [(0x100000, 0x180000), (0x280000, 0x200000), (0x480000, 4000)]" "os' = 0x500000"
    using demo_vec_values(5,6) unfolding r by simp_all
  show ?thesis
    using vec_arena_blocks_exclusive [OF demo_prim_ok demo_first_commit c s, THEN conjunct1]
      vec_arena_blocks_exclusive [OF demo_prim_ok demo_first_commit c s, THEN conjunct2, rule_format, of 0 1] by (simp add: bs)
qed

text \<open>C23: the blocks of a single-threaded pomai arena.  After a successful creation, every sequence of allocations
  gets 64-byte aligned blocks of accessible memory inside the reservation, beyond the pages that hold the arena's own
  header (of 88 bytes), and no two of them overlap, whatever requests are refused and whatever commits fail in between.
  The payload starts on a page boundary, so a reset, which decommits from there on, leaves the header alone.\<close>
theorem pomai_arena_blocks_exclusive:
  assumes "prim_alloc_ok comm env"
    and "p_arena_create_for_vector_ex env os cap False = (Some a, os1)"
    and "serve (\<lambda>s sz. p_arena_alloc_single env (fst s) (snd s) sz) (a, os1) szs = (bs, (a', os'))"
  shows "88 \<le> unat (av_payload_start a) \<and> unat (os_page_size env) dvd unat (av_payload_start a) \<and>
    (\<forall>b \<in> set bs. 0 < snd b \<and> 64 dvd unat (fst b) \<and> block b \<subseteq> comm os' \<and>
      block b \<subseteq> {unat (av_addr a) + unat (av_payload_start a)..<unat (av_addr a) + unat (av_total_size a)}) \<and>
    (\<forall>i j. i < j \<and> j < length bs \<longrightarrow> block (bs ! i) \<inter> block (bs ! j) = {})"
proof -
  note I = pomai_create_inv [OF assms(1,2)]
  note O = pomai_create_offset [OF assms(1,2)]
  then show ?thesis
    using pomai.blocks_exclusive [OF I assms(3), of "unat (av_addr a) + unat (av_payload_start a)"
        "unat (av_addr a) + unat (av_total_size a)"] I by simp
qed

definition demo_pomai :: "pomai_arena \<times> int" where
  "demo_pomai = (let (a, os) = p_arena_create_for_vector_ex demo_prim 0 0x300000 False in (the a, os))"

definition demo_pomai_serve :: "(uintptr_t \<times> size_t) list \<times> pomai_arena \<times> int" where
  "demo_pomai_serve = serve (\<lambda>s sz. p_arena_alloc_single demo_prim (fst s) (snd s) sz) demo_pomai [100, 0x400000, 0x250000]"

lemma demo_pomai_values:
  "fst (p_arena_create_for_vector_ex demo_prim 0 0x300000 False) \<noteq> None"
  "fst demo_pomai_serve = [(0x101000, 100), (0x101080, 0x250000)]" "snd (snd demo_pomai_serve) = 0x401000"
  by code_simp+

theorem pomai_arena_blocks_exclusive_witness:
  "block (0x101080, 0x250000) \<subseteq> demo_comm 0x401000 \<and> block (0x101000, 100) \<inter> block (0x101080, 0x250000) = {}"
proof -
  have c: "p_arena_create_for_vector_ex demo_prim 0 0x300000 False = (Some (fst demo_pomai), snd demo_pomai)"
    using demo_pomai_values(1) by (auto simp: demo_pomai_def split: prod.split)
  obtain bs a' os' where r: "demo_pomai_serve = (bs, (a', os'))" by (metis prod_cases3)
  then have s: "serve (\<lambda>s sz. p_arena_alloc_single demo_prim (fst s) (snd s) sz) (fst demo_pomai, snd demo_pomai) [100, 0x400000, 0x250000] =
      (bs, (a', os'))" by (simp add: demo_pomai_serve_def)
  have bs: "bs = [(0x101000, 100), (0x101080, 0x250000)]" "os' = 0x401000" using demo_pomai_values(2,3) unfolding r by simp_all
  show ?thesis
    using pomai_arena_blocks_exclusive [OF demo_prim_ok c s, THEN conjunct2, THEN conjunct2, THEN conjunct1]
      pomai_arena_blocks_exclusive [OF demo_prim_ok c s, THEN conjunct2, THEN conjunct2, THEN conjunct2, rule_format, of 0 1]
    by (simp add: bs)
qed

section \<open>Batches\<close>

text \<open>A batch is all or nothing.\<close>

lemma vec_batch_ok:
  assumes inv: "vec_inv comm env (a, os)"
    and r: "pa_vec_arena_alloc_batch env avx a os count sz = (ps, a', os')" and ne: "ps \<noteq> []"
  shows "\<exists>al c u. a' = a\<lparr>va_committed := c, va_used := u\<rparr> \<and> vec_inv comm env (a', os') \<and>
    ps = ptr_seq (va_base a + va_used a) al 0 (unat count) \<and> unat sz \<le> unat al \<and> 0 < unat sz \<and> unat (va_alignment a) dvd unat al \<and>
    unat u = unat (va_used a) + unat count * unat al \<and> u \<le> c"
proof -
  define al where "al = PA_VEC_ALIGN_UP sz (va_alignment a)"
  define tb where "tb = snd (pa_count_size_overflow count al)"
  define nu where "nu = va_used a + tb"
  obtain ok a1 o1 where c: "vec_arena_commit_to env a os nu = (ok, a1, o1)" by (metis prod_cases3)
  have g: "count \<noteq> 0 \<and> sz \<noteq> 0 \<and> \<not> al < sz \<and> \<not> fst (pa_count_size_overflow count al) \<and> \<not> SIZE_MAX - va_used a < tb \<and>
      \<not> va_capacity a < nu \<and> ok \<and> ps = pa_vec_materialize_ptrs avx (va_base a1 + va_used a1) al (unat count) \<and>
      a' = a1\<lparr>va_used := nu\<rparr> \<and> os' = o1"
    using r ne c unfolding pa_vec_arena_alloc_batch_def Let_def al_def [symmetric]
    by (auto simp: tb_def nu_def split: if_splits prod.splits)
  have tb: "unat tb = unat count * unat al"
    using pa_count_size_ok [of count al] g by (simp add: tb_def)
  have "unat tb \<le> unat (SIZE_MAX - va_used a)" using g by (simp add: word_le_nat_alt not_less)
  then have "unat (va_used a) + unat tb < 2 ^ 64"
    using unat_lt2p [of "va_used a"] by (simp add: SIZE_MAX_def unat_sub word_le_nat_alt unsigned_minus_1_eq_mask mask_eq_exp_minus_1)
  then have nu: "unat nu = unat (va_used a) + unat tb" unfolding nu_def by (intro unat_add_no_wrap) simp
  have cap: "nu \<le> va_capacity a" using g by (simp add: not_less)
  note C = vec_commit_to [OF inv c cap]
  obtain cc where a1: "a1 = a\<lparr>va_committed := cc\<rparr>" using C by blast
  have p2: "pow2 (va_alignment a)" and d: "unat (va_alignment a) dvd unat (va_used a)" using inv by simp_all
  have ald: "unat (va_alignment a) dvd unat al"
    using align_up_pow2_cases [OF p2, of sz] g unfolding al_def vec_align_up_eq [OF p2] by fastforce
  then have "unat (va_alignment a) dvd unat nu" using d by (simp add: nu tb)
  moreover have "vec_inv comm env (a1, o1)" "nu \<le> cc" using C g by (simp_all add: a1)
  ultimately have "vec_inv comm env (a', os')" using g cap by (simp add: a1)
  moreover have "a' = a\<lparr>va_committed := cc, va_used := nu\<rparr>" "ps = ptr_seq (va_base a + va_used a) al 0 (unat count)"
    using g by (simp_all add: a1 materialize_ptrs_eq)
  moreover have "unat sz \<le> unat al" "0 < unat sz" using g by (simp_all add: word_le_nat_alt not_less unat_gt_0)
  ultimately show ?thesis using nu tb ald \<open>nu \<le> cc\<close> by metis
qed

lemma vec_inv_base: "vec_inv comm env (a, os) \<Longrightarrow> u \<le> va_capacity a \<Longrightarrow> unat (va_base a) + unat u < 2 ^ 64"
  by (simp add: word_le_nat_alt)

text \<open>C24: a batch is all or nothing.  On an arena satisfying the invariant, a batch request either returns no pointer,
  or exactly \<open>count\<close> pointers to aligned blocks of at least the requested size that are accessible, lie between the old
  and the new bump position (so beyond everything handed out before), and do not overlap; the AVX2 path included.\<close>
theorem vec_arena_batch_blocks:
  assumes inv: "vec_inv comm env (a, os)"
    and r: "pa_vec_arena_alloc_batch env avx a os count sz = (ps, a', os')"
  shows "ps = [] \<or> (length ps = unat count \<and> vec_inv comm env (a', os') \<and>
    (\<forall>i < length ps. unat (va_alignment a) dvd unat (ps ! i) \<and> block (ps ! i, sz) \<subseteq> comm os' \<and>
       block (ps ! i, sz) \<subseteq> {unat (va_base a) + unat (va_used a)..<unat (va_base a) + unat (va_used a')} \<and>
       (\<forall>j < i. block (ps ! i, sz) \<inter> block (ps ! j, sz) = {})))"
proof (cases "ps = []")
  case False
  obtain al c u where B: "a' = a\<lparr>va_committed := c, va_used := u\<rparr>" "vec_inv comm env (a', os')"
    "ps = ptr_seq (va_base a + va_used a) al 0 (unat count)" "unat sz \<le> unat al" "0 < unat sz"
    "unat (va_alignment a) dvd unat al" "unat u = unat (va_used a) + unat count * unat al" "u \<le> c"
    using vec_batch_ok [OF inv r False] by blast
  have n: "length ps = unat count" by (simp add: B(3) ptr_seq_def)
  have bu: "unat (va_base a) + unat u < 2 ^ 64" using vec_inv_base [OF B(2), of u] B(1,2) by simp
  have p: "unat (ps ! i) = unat (va_base a) + unat (va_used a) + i * unat al" and q: "(i + 1) * unat al \<le> unat count * unat al"
    if "i < unat count" for i
  proof -
    show q: "(i + 1) * unat al \<le> unat count * unat al" using that by (intro mult_le_mono1) simp
    have i: "unat (of_nat i :: size_t) = i" using that unat_lt2p [of count] by (simp add: unat_of_nat)
    have m: "unat (of_nat i * al) = i * unat al" using q bu B(7) by (subst unat_mult_no_wrap) (simp_all add: i)
    have bs: "unat (va_base a + va_used a) = unat (va_base a) + unat (va_used a)" using bu B(7) by (intro unat_add_no_wrap) simp
    have "ps ! i = va_base a + va_used a + of_nat i * al" using that by (simp add: B(3) ptr_seq_def)
    then show "unat (ps ! i) = unat (va_base a) + unat (va_used a) + i * unat al"
      using q bu B(7) by (simp add: unat_add_no_wrap [of "va_base a + va_used a"] m bs)
  qed
  have cm: "{unat (va_base a)..<unat (va_base a) + unat u} \<subseteq> comm os'"
    using B(1,2,8) by (auto simp: word_le_nat_alt subset_eq)
  have d: "unat (va_alignment a) dvd unat (va_base a) + unat (va_used a)" using inv by simp
  have rng: "block (ps ! i, sz) \<subseteq> {unat (va_base a) + unat (va_used a)..<unat (va_base a) + unat u}"
    if "i < unat count" for i
    using p [OF that] q [OF that] B(4,7) by (simp add: block_def subset_eq)
  have dj: "block (ps ! i, sz) \<inter> block (ps ! j, sz) = {}" if "i < unat count" "j < i" for i j
  proof -
    have "(j + 1) * unat al \<le> i * unat al" using that(2) by (intro mult_le_mono1) simp
    moreover have "j < unat count" using that by simp
    ultimately have "unat (ps ! j) + unat sz \<le> unat (ps ! i)" using p that(1) B(4) by simp
    then show ?thesis by (auto simp: block_def)
  qed
  have "unat (va_alignment a) dvd unat (ps ! i)" if "i < unat count" for i
    using p [OF that] d B(6) by simp
  moreover have "block (ps ! i, sz) \<subseteq> comm os'" if "i < unat count" for i
    using rng [OF that] cm by (fastforce simp: subset_eq)
  ultimately show ?thesis using n B(1,2) rng dj by simp
qed simp

definition demo_batch :: "uintptr_t list \<times> vec_arena \<times> int" where
  "demo_batch = pa_vec_arena_alloc_batch demo_prim True (fst demo_vec) (snd demo_vec) 3 100"

lemma demo_batch_values: "fst demo_batch = [0x100000, 0x100080, 0x100100]"
proof -
  have c: "vec_arena_commit_to demo_prim (fst demo_vec) (snd demo_vec) 384 = (True, fst demo_vec, snd demo_vec)" by code_simp
  have v: "va_base (fst demo_vec) = 0x100000" "va_used (fst demo_vec) = 0" "va_alignment (fst demo_vec) = 64"
    "va_capacity (fst demo_vec) = 0x500000" "va_max_size (fst demo_vec) = 0" by code_simp+
  have m: "PA_VEC_ALIGN_UP 100 64 = 128" "pa_count_size_overflow 3 128 = (False, 384)"
    by (simp_all add: PA_VEC_ALIGN_UP_def pa_count_size_overflow_def builtin_umull_overflow_def)
  have s: "ptr_seq 0x100000 128 0 3 = [0x100000, 0x100080, 0x100100]" by (simp add: ptr_seq_def upt_rec)
  show ?thesis
    by (simp add: demo_batch_def pa_vec_arena_alloc_batch_def v m c Let_def materialize_ptrs_eq s SIZE_MAX_def split_beta)
qed

theorem vec_arena_batch_blocks_witness:
  "block (0x100100, 100) \<inter> block (0x100080, 100) = {} \<and> unat (va_alignment (fst demo_vec)) dvd unat (0x100080 :: uintptr_t)"
proof -
  have "pa_vec_arena_create_ex demo_prim 0 0x500000 64 True = (Some (fst demo_vec), snd demo_vec)"
    using demo_vec_values(1) by (auto simp: demo_vec_def split: prod.split)
  then have i: "vec_inv demo_comm demo_prim (fst demo_vec, snd demo_vec)" using vec_create_inv [OF demo_prim_ok demo_first_commit] by blast
  obtain ps a' os' where r: "demo_batch = (ps, (a', os'))" by (metis prod_cases3)
  have ps: "ps = [0x100000, 0x100080, 0x100100]" using demo_batch_values unfolding r by simp
  have P: "\<forall>i < length ps. unat (va_alignment (fst demo_vec)) dvd unat (ps ! i) \<and> (\<forall>j < i. block (ps ! i, 100) \<inter> block (ps ! j, 100) = {})"
    using vec_arena_batch_blocks [OF i r [unfolded demo_batch_def]] ps by simp
  then have "\<And>i j. i < length ps \<Longrightarrow> j < i \<Longrightarrow> block (ps ! i, 100) \<inter> block (ps ! j, 100) = {}"
    "\<And>i. i < length ps \<Longrightarrow> unat (va_alignment (fst demo_vec)) dvd unat (ps ! i)" by blast+
  from this(1) [of 2 1] this(2) [of 1] show ?thesis by (simp add: ps)
qed

end
