(* ===== verification/Palloc_DLL.thy ===== *)
theory Palloc_DLL
  imports Main
begin

text \<open>
  Doubly linked lists with a pointer to the first and the last element, as the page queues
  (\<open>src/page-queue.c\<close>) and the span queues (\<open>src/segment.c\<close>) use them: the links are fields of the
  elements, the null pointer is \<open>None\<close>.  The interface is a store with a next and a previous field; the
  lemmas say what unlinking and linking do to the list of elements.
\<close>

section \<open>Well-linked lists\<close>

definition first_of :: "'a list \<Rightarrow> 'a option" where
  "first_of xs = (case xs of [] \<Rightarrow> None | x # _ \<Rightarrow> Some x)"

definition last_of :: "'a list \<Rightarrow> 'a option" where
  "last_of xs = (if xs = [] then None else Some (last xs))"

lemma first_of_simps [simp]: "first_of [] = None" "first_of (x # xs) = Some x"
  by (simp_all add: first_of_def)

lemma last_of_simps [simp]: "last_of [] = None" "last_of (xs @ [x]) = Some x" "last_of [x] = Some x"
  "last_of (xs @ y # ys) = last_of (y # ys)"
  by (simp_all add: last_of_def)

lemma last_of_Cons: "last_of (x # xs) = (if xs = [] then Some x else last_of xs)"
  by (simp add: last_of_def)

lemma first_of_append: "first_of (xs @ ys) = (if xs = [] then first_of ys else first_of xs)"
  by (cases xs) simp_all

lemma last_of_append: "last_of (xs @ ys) = (if ys = [] then last_of xs else last_of ys)"
  by (simp add: last_of_def)

lemma first_of_mem: "first_of xs = Some x \<Longrightarrow> x \<in> set xs"
  by (cases xs) auto

lemma last_of_mem: "last_of xs = Some x \<Longrightarrow> x \<in> set xs"
  by (auto simp: last_of_def split: if_splits)

lemma first_of_eq_None [simp]: "first_of xs = None \<longleftrightarrow> xs = []"
  by (cases xs) simp_all

lemma last_of_eq_None [simp]: "last_of xs = None \<longleftrightarrow> xs = []"
  by (simp add: last_of_def)

text \<open>\<open>links nxt prv p xs q\<close>: the elements of \<open>xs\<close> are linked in this order, with \<open>p\<close> before and \<open>q\<close> after them.\<close>

fun links :: "('a \<Rightarrow> 'a option) \<Rightarrow> ('a \<Rightarrow> 'a option) \<Rightarrow> 'a option \<Rightarrow> 'a list \<Rightarrow> 'a option \<Rightarrow> bool" where
  "links nxt prv p [] q \<longleftrightarrow> True"
| "links nxt prv p (x # xs) q \<longleftrightarrow>
     prv x = p \<and> nxt x = (if xs = [] then q else first_of xs) \<and> links nxt prv (Some x) xs q"

lemma links_append:
  "links nxt prv p (xs @ ys) q \<longleftrightarrow>
     links nxt prv p xs (if ys = [] then q else first_of ys) \<and> links nxt prv (if xs = [] then p else last_of xs) ys q"
  by (induction xs arbitrary: p) (auto simp: first_of_append last_of_Cons)

lemma links_frame:
  "x \<notin> set xs \<Longrightarrow> links (nxt(x := v)) prv p xs q = links nxt prv p xs q"
  "x \<notin> set xs \<Longrightarrow> links nxt (prv(x := v)) p xs q = links nxt prv p xs q"
  by (induction xs arbitrary: p) auto

lemma links_set_after:
  "distinct xs \<Longrightarrow> xs \<noteq> [] \<Longrightarrow> links nxt prv p xs q \<Longrightarrow> links (nxt(last xs := q')) prv p xs q'"
  by (induction xs arbitrary: p) (auto simp: links_frame)

lemma links_set_before:
  "distinct xs \<Longrightarrow> links nxt prv p xs q \<Longrightarrow> first_of xs = Some x \<Longrightarrow> links nxt (prv(x := p')) p' xs q"
  by (cases xs) (auto simp: links_frame)

lemma links_cong:
  "(\<And>x. x \<in> set xs \<Longrightarrow> nxt x = nxt' x \<and> prv x = prv' x) \<Longrightarrow> links nxt prv p xs q = links nxt' prv' p xs q"
  by (induction xs arbitrary: p) auto

section \<open>A store of linked elements\<close>

locale dll_store =
  fixes nxt prv :: "'s \<Rightarrow> 'a \<Rightarrow> 'a option" and set_nxt set_prv :: "'a \<Rightarrow> 'a option \<Rightarrow> 's \<Rightarrow> 's"
  assumes nxt_set_nxt [simp]: "nxt (set_nxt x v s) = (nxt s)(x := v)"
    and prv_set_nxt [simp]: "prv (set_nxt x v s) = prv s"
    and nxt_set_prv [simp]: "nxt (set_prv x v s) = nxt s"
    and prv_set_prv [simp]: "prv (set_prv x v s) = (prv s)(x := v)"
begin

definition dll :: "'s \<Rightarrow> 'a option \<Rightarrow> 'a option \<Rightarrow> 'a list \<Rightarrow> bool" where
  "dll s f l xs \<longleftrightarrow> distinct xs \<and> f = first_of xs \<and> l = last_of xs \<and> links (nxt s) (prv s) None xs None"

lemma dll_frame:
  "x \<notin> set xs \<Longrightarrow> dll (set_nxt x v s) f l xs = dll s f l xs"
  "x \<notin> set xs \<Longrightarrow> dll (set_prv x v s) f l xs = dll s f l xs"
  by (simp_all add: dll_def links_frame)

lemma dll_cong: "nxt s = nxt s' \<Longrightarrow> prv s = prv s' \<Longrightarrow> dll s f l xs = dll s' f l xs"
  by (simp add: dll_def)

lemma dll_cong_on:
  "(\<And>x. x \<in> set xs \<Longrightarrow> nxt s x = nxt s' x \<and> prv s x = prv s' x) \<Longrightarrow> dll s f l xs = dll s' f l xs"
  using links_cong [of xs "nxt s" "nxt s'" "prv s" "prv s'"] by (simp add: dll_def)

lemma dll_empty: "dll s None l xs \<longleftrightarrow> xs = [] \<and> l = None" "dll s f None xs \<longleftrightarrow> xs = [] \<and> f = None"
  by (auto simp: dll_def dest: sym)

lemma dll_neighbours:
  assumes "dll s f l (ys @ x # zs)"
  shows "nxt s x = first_of zs" "prv s x = last_of ys"
  using assms by (auto simp: dll_def links_append split: if_splits)

lemma dll_ends: "dll s f l xs \<Longrightarrow> f = first_of xs" "dll s f l xs \<Longrightarrow> l = last_of xs" "dll s f l xs \<Longrightarrow> distinct xs"
  by (simp_all add: dll_def)

text \<open>Unlinking an element as the source does it; the element itself is not changed yet.\<close>

definition unlink :: "'a \<Rightarrow> 's \<Rightarrow> 's" where
  "unlink x s =
     (let s = (case prv s x of None \<Rightarrow> s | Some p \<Rightarrow> set_nxt p (nxt s x) s)
      in case nxt s x of None \<Rightarrow> s | Some n \<Rightarrow> set_prv n (prv s x) s)"

lemma unlink_fields:
  assumes "dll s f l (ys @ x # zs)"
  shows "nxt (unlink x s) = (if ys = [] then nxt s else (nxt s)(last ys := first_of zs))"
    "prv (unlink x s) = (if zs = [] then prv s else (prv s)(hd zs := last_of ys))"
proof -
  note n = dll_neighbours [OF assms]
  have d: "distinct (ys @ x # zs)" using assms by (simp add: dll_def)
  have xn: "x \<noteq> last ys" if "ys \<noteq> []" using d that by (metis disjoint_iff distinct_append last_in_set list.set_intros(1))
  show "nxt (unlink x s) = (if ys = [] then nxt s else (nxt s)(last ys := first_of zs))"
    "prv (unlink x s) = (if zs = [] then prv s else (prv s)(hd zs := last_of ys))"
    using n xn by (auto simp: unlink_def Let_def last_of_def first_of_def split: list.splits)
qed

lemma unlink_dll:
  assumes "dll s f l (ys @ x # zs)"
  shows "dll (unlink x s) (if ys = [] then first_of zs else f) (if zs = [] then last_of ys else l) (ys @ zs)"
proof -
  note n = dll_neighbours [OF assms]
  have d: "distinct (ys @ x # zs)" and L: "links (nxt s) (prv s) None (ys @ x # zs) None"
    using assms by (simp_all add: dll_def)
  have L1: "links (nxt s) (prv s) None ys (Some x)" and L2: "links (nxt s) (prv s) (Some x) zs None"
    using L by (simp_all add: links_append)
  define N where "N = nxt (unlink x s)"
  define P where "P = prv (unlink x s)"
  have N: "N = (if ys = [] then nxt s else (nxt s)(last ys := first_of zs))"
    and P: "P = (if zs = [] then prv s else (prv s)(hd zs := last_of ys))"
    unfolding N_def P_def by (rule unlink_fields [OF assms])+
  have ly: "ys \<noteq> [] \<Longrightarrow> last ys \<notin> set zs" and hz: "zs \<noteq> [] \<Longrightarrow> hd zs \<notin> set ys" using d by (auto simp: disjoint_iff)
  have A: "links N P None ys (first_of zs)"
  proof (cases "ys = []")
    case False
    have "links ((nxt s)(last ys := first_of zs)) (prv s) None ys (first_of zs)"
      by (rule links_set_after [OF _ False L1]) (use d in simp)
    then show ?thesis using False hz by (cases "zs = []") (simp_all add: N P links_frame)
  qed simp
  have B: "links N P (last_of ys) zs None"
  proof (cases "zs = []")
    case False
    then have "links (nxt s) ((prv s)(hd zs := last_of ys)) (last_of ys) zs None"
      by (intro links_set_before [OF _ L2]) (use d in \<open>auto simp: first_of_def split: list.splits\<close>)
    then show ?thesis using False ly by (cases "ys = []") (simp_all add: N P links_frame)
  qed simp
  have "links N P None (ys @ zs) None"
    using A B by (cases "zs = []"; cases "ys = []") (simp_all add: links_append)
  moreover have "first_of (ys @ zs) = (if ys = [] then first_of zs else f)" "last_of (ys @ zs) = (if zs = [] then last_of ys else l)"
    using assms by (auto simp: dll_def first_of_append last_of_append last_of_Cons)
  ultimately show ?thesis using d by (simp add: dll_def N_def P_def)
qed

text \<open>Linking at the front and at the end.\<close>

lemma push_front_dll:
  assumes "dll s f l xs" "x \<notin> set xs"
  shows "dll ((case f of None \<Rightarrow> id | Some y \<Rightarrow> set_prv y (Some x)) (set_prv x None (set_nxt x f s)))
    (Some x) (case f of None \<Rightarrow> Some x | Some _ \<Rightarrow> l) (x # xs)"
proof (cases xs)
  case Nil
  then show ?thesis using assms by (simp add: dll_def)
next
  case (Cons y ys)
  have f: "f = Some y" using assms Cons by (simp add: dll_def)
  have "links (nxt s) ((prv s)(y := Some x)) (Some x) xs None"
    using assms(1) Cons by (intro links_set_before [where p = None]) (simp_all add: dll_def)
  then show ?thesis using assms f Cons by (auto simp: dll_def links_frame last_of_Cons fun_upd_twist)
qed

lemma push_back_dll:
  assumes "dll s f l xs" "x \<notin> set xs"
  shows "dll ((case l of None \<Rightarrow> id | Some y \<Rightarrow> set_nxt y (Some x)) (set_nxt x None (set_prv x l s)))
    (case l of None \<Rightarrow> Some x | Some _ \<Rightarrow> f) (Some x) (xs @ [x])"
proof (cases "xs = []")
  case True
  then show ?thesis using assms by (simp add: dll_def)
next
  case False
  have l: "l = Some (last xs)" using assms False by (simp add: dll_def last_of_def)
  have d: "distinct xs" "x \<noteq> last xs" using assms False by (auto simp: dll_def)
  have "links ((nxt s)(last xs := Some x)) (prv s) None xs (Some x)"
    using assms(1) False d by (intro links_set_after [where q = None]) (simp_all add: dll_def)
  then have "links ((nxt s)(x := None, last xs := Some x)) ((prv s)(x := Some (last xs))) None xs (Some x)"
    using assms(2) d(2) by (simp add: links_frame fun_upd_twist [of x "last xs"])
  then show ?thesis using assms l False d(2) by (simp add: dll_def links_append first_of_append last_of_def)
qed

text \<open>Linking after the first element.\<close>

lemma push_second_dll:
  assumes "dll s f l (y # ys)" "x \<notin> set (y # ys)"
  shows "dll ((case first_of ys of None \<Rightarrow> id | Some z \<Rightarrow> set_prv z (Some x))
      (set_nxt y (Some x) (set_nxt x (first_of ys) (set_prv x (Some y) s))))
    (Some y) (case first_of ys of None \<Rightarrow> Some x | Some _ \<Rightarrow> l) (y # x # ys)"
proof -
  have L: "prv s y = None" "links (nxt s) (prv s) (Some y) ys None" using assms(1) by (auto simp: dll_def)
  show ?thesis
  proof (cases ys)
    case Nil
    then show ?thesis using assms L by (auto simp: dll_def last_of_Cons)
  next
    case (Cons z zs)
    have "links (nxt s) ((prv s)(z := Some x)) (Some x) ys None"
      using assms(1) Cons by (intro links_set_before [OF _ L(2)]) (simp_all add: dll_def)
    then show ?thesis using assms L Cons by (auto simp: dll_def links_frame last_of_Cons)
  qed
qed

text \<open>Appending a whole list.\<close>

lemma append_dll:
  assumes "dll s f l xs" "dll s f' l' ys" "xs \<noteq> []" "ys \<noteq> []" "set xs \<inter> set ys = {}"
  shows "dll (set_prv (the f') l (set_nxt (the l) f' s)) f l' (xs @ ys)"
proof -
  have l: "l = Some (last xs)" "f' = Some (hd ys)" "the l = last xs" "the f' = hd ys"
    using assms by (auto simp: dll_def last_of_def first_of_def split: list.splits)
  have "links ((nxt s)(last xs := Some (hd ys))) (prv s) None xs (Some (hd ys))"
    using assms(1,3) by (intro links_set_after [where q = None]) (simp_all add: dll_def)
  moreover have "hd ys \<notin> set xs" "last xs \<notin> set ys" using assms(3-5) by (auto simp: disjoint_iff)
  moreover have "links (nxt s) ((prv s)(hd ys := Some (last xs))) (Some (last xs)) ys None"
    using assms(2,4) by (intro links_set_before [where p = None]) (auto simp: dll_def first_of_def split: list.splits)
  ultimately have "links ((nxt s)(last xs := Some (hd ys))) ((prv s)(hd ys := Some (last xs))) None (xs @ ys) None"
    using assms(3,4) by (auto simp: links_append links_frame last_of_def first_of_def split: list.splits)
  then show ?thesis using assms l by (simp add: dll_def first_of_append last_of_append)
qed

end

end
