(* ===== verification/Palloc_FreeList.thy ===== *)
theory Palloc_FreeList
  imports Palloc_Types "HOL-Library.Multiset"
begin

text \<open>
  The free lists of a page (\<open>src/page.c\<close>, \<open>src/alloc.c\<close>, \<open>src/free.c\<close> and the accessors of
  \<open>include/palloc/internal.h\<close>).  Free blocks are linked through their first word; the memory of
  these words is a function from block addresses to words, and the null pointer is address 0.  In the
  modelled configuration the list entries are not encoded.
\<close>

section \<open>Blocks and the thread-free word\<close>

type_synonym blocks = "uintptr_t \<Rightarrow> uintptr_t"

definition pa_block_next :: "blocks \<Rightarrow> uintptr_t \<Rightarrow> uintptr_t" where
  "pa_block_next m block = m block"

definition pa_block_set_next :: "blocks \<Rightarrow> uintptr_t \<Rightarrow> uintptr_t \<Rightarrow> blocks" where
  "pa_block_set_next m block nxt = m(block := nxt)"

text \<open>The lowest two bits of the thread-free word hold the delayed flag.\<close>

fun delayed_code :: "pa_delayed \<Rightarrow> uintptr_t" where
  "delayed_code PA_USE_DELAYED_FREE = 0"
| "delayed_code PA_DELAYED_FREEING = 1"
| "delayed_code PA_NO_DELAYED_FREE = 2"
| "delayed_code PA_NEVER_DELAYED_FREE = 3"

definition delayed_of :: "uintptr_t \<Rightarrow> pa_delayed" where
  "delayed_of w = (if w = 0 then PA_USE_DELAYED_FREE else if w = 1 then PA_DELAYED_FREEING
     else if w = 2 then PA_NO_DELAYED_FREE else PA_NEVER_DELAYED_FREE)"

definition pa_tf_block :: "uintptr_t \<Rightarrow> uintptr_t" where
  "pa_tf_block tf = tf AND NOT 3"

definition pa_tf_delayed :: "uintptr_t \<Rightarrow> pa_delayed" where
  "pa_tf_delayed tf = delayed_of (tf AND 3)"

definition pa_tf_make :: "uintptr_t \<Rightarrow> pa_delayed \<Rightarrow> uintptr_t" where
  "pa_tf_make block delayed = block OR delayed_code delayed"

definition pa_tf_set_delayed :: "uintptr_t \<Rightarrow> pa_delayed \<Rightarrow> uintptr_t" where
  "pa_tf_set_delayed tf delayed = pa_tf_make (pa_tf_block tf) delayed"

definition pa_tf_set_block :: "uintptr_t \<Rightarrow> uintptr_t \<Rightarrow> uintptr_t" where
  "pa_tf_set_block tf block = pa_tf_make block (pa_tf_delayed tf)"

definition pa_page_thread_free :: "pa_page \<Rightarrow> uintptr_t" where
  "pa_page_thread_free page = pg_xthread_free page AND NOT 3"

definition pa_page_thread_free_flag :: "pa_page \<Rightarrow> pa_delayed" where
  "pa_page_thread_free_flag page = delayed_of (pg_xthread_free page AND 3)"

section \<open>Page predicates\<close>

definition pa_page_all_free :: "pa_page \<Rightarrow> bool" where
  "pa_page_all_free page \<longleftrightarrow> pg_used page = 0"

definition pa_page_has_any_available :: "pa_page \<Rightarrow> bool" where
  "pa_page_has_any_available page \<longleftrightarrow> pg_used page < pg_reserved page \<or> pa_page_thread_free page \<noteq> 0"

definition pa_page_immediate_available :: "pa_page \<Rightarrow> bool" where
  "pa_page_immediate_available page \<longleftrightarrow> pg_free page \<noteq> 0"

definition pa_page_is_mostly_used :: "pa_page option \<Rightarrow> bool" where
  "pa_page_is_mostly_used p = (case p of None \<Rightarrow> True
     | Some page \<Rightarrow> int (pg_reserved page) - int (pg_used page) \<le> int (pg_reserved page div 8))"

definition pa_page_is_expandable :: "pa_page \<Rightarrow> bool" where
  "pa_page_is_expandable page \<longleftrightarrow> pg_capacity page < pg_reserved page"

section \<open>Building the free list\<close>

definition pa_page_block_at :: "uintptr_t \<Rightarrow> size_t \<Rightarrow> nat \<Rightarrow> uintptr_t" where
  "pa_page_block_at page_start block_size i = page_start + of_nat i * block_size"

text \<open>The linking loop compares addresses, so it is a partial function: when \<open>last + bsize\<close> wraps around it would
  not stop.\<close>

partial_function (option) link_blocks :: "blocks \<Rightarrow> size_t \<Rightarrow> uintptr_t \<Rightarrow> uintptr_t \<Rightarrow> blocks option" where
  "link_blocks m bsize block lst =
     (if block \<le> lst
      then let next_block = block + bsize in link_blocks (pa_block_set_next m block next_block) bsize next_block lst
      else Some m)"

definition pa_page_free_list_extend :: "blocks \<Rightarrow> pa_page \<Rightarrow> size_t \<Rightarrow> nat \<Rightarrow> (blocks \<times> pa_page) option" where
  "pa_page_free_list_extend m page bsize ext =
     (let page_area = pg_page_start page;
          start = pa_page_block_at page_area bsize (pg_capacity page);
          lst = pa_page_block_at page_area bsize (pg_capacity page + ext - 1)
      in case link_blocks m bsize start lst of None \<Rightarrow> None
         | Some m \<Rightarrow> Some (pa_block_set_next m lst (pg_free page), page\<lparr>pg_free := start\<rparr>))"

definition PA_MIN_EXTEND :: nat where "PA_MIN_EXTEND = 4"

definition PA_MAX_EXTEND_SIZE :: nat where "PA_MAX_EXTEND_SIZE = 4 * 1024"

text \<open>How many blocks an extension adds.\<close>

definition page_extend_count :: "pa_page \<Rightarrow> nat" where
  "page_extend_count page =
     (let bsize = unat (pg_block_size page);
          ext = pg_reserved page - pg_capacity page;
          max_extend = (if PA_MAX_EXTEND_SIZE \<le> bsize then PA_MIN_EXTEND else PA_MAX_EXTEND_SIZE div bsize);
          max_extend = (if max_extend < PA_MIN_EXTEND then PA_MIN_EXTEND else max_extend)
      in if max_extend < ext then max_extend else ext)"

definition pa_page_extend_free :: "blocks \<Rightarrow> pa_page \<Rightarrow> (blocks \<times> pa_page) option" where
  "pa_page_extend_free m page =
     (if pg_free page \<noteq> 0 then Some (m, page)
      else if pg_reserved page \<le> pg_capacity page then Some (m, page)
      else let ext = page_extend_count page
      in case pa_page_free_list_extend m page (pg_block_size page) ext of None \<Rightarrow> None
         | Some (m, page) \<Rightarrow> Some (m, page\<lparr>pg_capacity := (pg_capacity page + ext mod 2 ^ 16) mod 2 ^ 16\<rparr>))"

section \<open>Collecting freed blocks\<close>

datatype pa_error = EFAULT | EINVAL | ENOMEM | EOVERFLOW | EAGAIN

text \<open>Walking to the tail of a list taken from the thread-free word, counting at most \<open>max_count + 1\<close> blocks.\<close>

function count_tail :: "blocks \<Rightarrow> nat \<Rightarrow> nat \<Rightarrow> uintptr_t \<Rightarrow> nat \<times> uintptr_t" where
  "count_tail m max_count cnt tail =
     (let nxt = pa_block_next m tail
      in if nxt \<noteq> 0 \<and> cnt \<le> max_count then count_tail m max_count (cnt + 1) nxt else (cnt, tail))"
  by pat_completeness auto
termination by (relation "measure (\<lambda>(m, max_count, cnt, tail). max_count + 1 - cnt)") auto

text \<open>The exchange of the thread-free word is one atomic step; a failed compare-and-swap only repeats the loop with the
  value found, so the function is given the page at the successful one.\<close>

definition pa_page_thread_free_collect :: "blocks \<Rightarrow> pa_page \<Rightarrow> blocks \<times> pa_page \<times> pa_error option" where
  "pa_page_thread_free_collect m page =
     (let tfree = pg_xthread_free page;
          head = pa_tf_block tfree;
          page = page\<lparr>pg_xthread_free := pa_tf_set_block tfree 0\<rparr>
      in if head = 0 then (m, page, None)
      else let max_count = pg_capacity page; (cnt, tail) = count_tail m max_count 1 head
      in if max_count < cnt then (m, page, Some EFAULT)
      else (pa_block_set_next m tail (pg_local_free page),
            page\<lparr>pg_local_free := head, pg_used := (pg_used page + 2 ^ 16 - cnt mod 2 ^ 16) mod 2 ^ 16\<rparr>, None))"

partial_function (option) find_tail :: "blocks \<Rightarrow> uintptr_t \<Rightarrow> uintptr_t option" where
  "find_tail m tail = (let nxt = pa_block_next m tail in if nxt \<noteq> 0 then find_tail m nxt else Some tail)"

definition pa_page_free_collect :: "blocks \<Rightarrow> pa_page \<Rightarrow> bool \<Rightarrow> (blocks \<times> pa_page \<times> pa_error option) option" where
  "pa_page_free_collect m page force =
     (let (m, page, err) = (if force \<or> pa_page_thread_free page \<noteq> 0 then pa_page_thread_free_collect m page else (m, page, None))
      in if pg_local_free page \<noteq> 0 then
           if pg_free page = 0
           then Some (m, page\<lparr>pg_free := pg_local_free page, pg_local_free := 0, pg_free_is_zero := False\<rparr>, err)
           else if force
           then case find_tail m (pg_local_free page) of None \<Rightarrow> None
                | Some tail \<Rightarrow> Some (pa_block_set_next m tail (pg_free page),
                    page\<lparr>pg_free := pg_local_free page, pg_local_free := 0, pg_free_is_zero := False\<rparr>, err)
           else Some (m, page, err)
         else Some (m, page, err))"

section \<open>Allocating and freeing in a page\<close>

text \<open>The fast path pops the first free block; without one the generic path is taken (\<open>None\<close>).\<close>

definition pa_page_malloc :: "blocks \<Rightarrow> pa_page \<Rightarrow> (uintptr_t \<times> pa_page) option" where
  "pa_page_malloc m page =
     (let block = pg_free page
      in if block = 0 then None
         else Some (block, page\<lparr>pg_free := pa_block_next m block, pg_used := (pg_used page + 1) mod 2 ^ 16\<rparr>))"

text \<open>The page part of a thread-local free: the block goes to the local free list.\<close>

definition page_local_free :: "blocks \<Rightarrow> pa_page \<Rightarrow> uintptr_t \<Rightarrow> blocks \<times> pa_page" where
  "page_local_free m page block =
     (pa_block_set_next m block (pg_local_free page),
      page\<lparr>pg_local_free := block, pg_used := (pg_used page + 2 ^ 16 - 1) mod 2 ^ 16\<rparr>)"

definition pa_page_ptr_unalign :: "pa_page \<Rightarrow> uintptr_t \<Rightarrow> uintptr_t" where
  "pa_page_ptr_unalign page p =
     (let diff = p - pg_page_start page;
          adjust = (if pg_block_size_shift page \<noteq> 0
                    then diff AND (push_bit (pg_block_size_shift page) 1 - 1)
                    else diff mod pg_block_size page)
      in p - adjust)"

section \<open>The thread-free word\<close>

lemma delayed_of_code [simp]: "delayed_of (delayed_code d) = d"
  by (cases d) (simp_all add: delayed_of_def)

lemma not3: "NOT 3 = (- 4 :: uintptr_t)"
  by simp

lemma delayed_code_bits [simp]: "delayed_code d AND 3 = delayed_code d" "delayed_code d AND - 4 = 0"
  by (cases d; simp)+

lemma aligned_and_not3 [simp]: "b AND 3 = 0 \<Longrightarrow> b AND - 4 = (b :: uintptr_t)"
proof -
  assume a: "b AND 3 = 0"
  have "b = (b AND 3) OR (b AND NOT 3)" by (simp only: bit.conj_disj_distrib [symmetric] bit.disj_cancel_right and.right_neutral)
  then show ?thesis using a by (simp only: not3 or.left_neutral) 
qed

lemma and_not3_aligned [simp]: "(b AND - 4) AND 3 = (0 :: uintptr_t)"
proof -
  have "(b AND NOT 3) AND 3 = (0 :: uintptr_t)" by (simp only: and.assoc bit.conj_cancel_left and_zero_eq)
  then show ?thesis by (simp only: not3)
qed

lemma delayed_code_of: "delayed_code (delayed_of (w AND 3)) = w AND 3"
proof -
  have "w AND 3 = take_bit 2 w" by (simp add: take_bit_eq_mask mask_eq_exp_minus_1)
  also have "\<dots> = w mod 4" by (simp add: take_bit_eq_mod)
  finally have "unat (w AND 3) < 4" using mod_less_divisor [of 4 "unat w"] by (simp add: unat_mod)
  then have "w AND 3 \<in> {0, 1, 2, 3}" by (auto simp: word_unat_eq_iff)
  then show ?thesis by (auto simp: delayed_of_def)
qed

lemma tf_block_make [simp]: "b AND 3 = 0 \<Longrightarrow> pa_tf_block (pa_tf_make b d) = b"
  by (simp add: pa_tf_block_def pa_tf_make_def bit.conj_disj_distrib2 aligned_and_not3)

lemma tf_delayed_make [simp]: "b AND 3 = 0 \<Longrightarrow> pa_tf_delayed (pa_tf_make b d) = d"
  by (simp add: pa_tf_delayed_def pa_tf_make_def bit.conj_disj_distrib2)

lemma tf_make_parts: "pa_tf_make (pa_tf_block tf) (pa_tf_delayed tf) = tf"
  unfolding pa_tf_make_def pa_tf_block_def pa_tf_delayed_def delayed_code_of
  by (simp add: bit.conj_disj_distrib [symmetric])

section \<open>Lists of blocks\<close>

fun blist :: "blocks \<Rightarrow> uintptr_t \<Rightarrow> uintptr_t list \<Rightarrow> bool" where
  "blist m p [] \<longleftrightarrow> p = 0"
| "blist m p (b # bs) \<longleftrightarrow> p = b \<and> b \<noteq> 0 \<and> blist m (m b) bs"

lemma blist_0 [simp]: "blist m 0 bs \<longleftrightarrow> bs = []"
  by (cases bs) auto

lemma blist_nonzero: "p \<noteq> 0 \<Longrightarrow> blist m p bs \<Longrightarrow> \<exists>bs'. bs = p # bs' \<and> blist m (m p) bs'"
  by (cases bs) auto

lemma blist_frame [simp]: "b \<notin> set bs \<Longrightarrow> blist (m(b := x)) p bs = blist m p bs"
  by (induction bs arbitrary: p) auto

lemma blist_append: "blist m p (xs @ [b]) \<Longrightarrow> distinct (xs @ [b]) \<Longrightarrow> b \<notin> set ys \<Longrightarrow> set xs \<inter> set ys = {} \<Longrightarrow>
    blist m q ys \<Longrightarrow> blist (m(b := q)) p (xs @ b # ys)"
  by (induction xs arbitrary: p) auto

lemma count_tail_list:
  "blist m (m b) bs \<Longrightarrow> cnt + length bs \<le> mc + 1 \<Longrightarrow> count_tail m mc cnt b = (cnt + length bs, List.last (b # bs))"
proof (induction bs arbitrary: b cnt)
  case Nil
  then show ?case by (subst count_tail.simps) (simp add: pa_block_next_def)
next
  case (Cons c cs)
  have "m b = c" "c \<noteq> 0" using Cons.prems by simp_all
  then have "count_tail m mc cnt b = count_tail m mc (cnt + 1) c"
    using Cons.prems by (subst count_tail.simps) (simp add: pa_block_next_def Let_def)
  also have "\<dots> = (cnt + 1 + length cs, List.last (c # cs))" using Cons.prems by (intro Cons.IH) simp_all
  finally show ?case by simp
qed

lemma find_tail_list: "blist m (m b) bs \<Longrightarrow> find_tail m b = Some (List.last (b # bs))"
proof (induction bs arbitrary: b)
  case Nil
  then show ?case by (subst find_tail.simps) (simp add: pa_block_next_def)
next
  case (Cons c cs)
  then show ?case by (subst find_tail.simps) (auto simp: pa_block_next_def Let_def)
qed

section \<open>The page invariant\<close>

text \<open>A block of the page, and the multiset of all blocks below the capacity.\<close>

abbreviation block_addr :: "pa_page \<Rightarrow> nat \<Rightarrow> uintptr_t" where
  "block_addr page i \<equiv> pa_page_block_at (pg_page_start page) (pg_block_size page) i"

definition page_blocks :: "pa_page \<Rightarrow> uintptr_t multiset" where
  "page_blocks page = mset (map (block_addr page) [0..<pg_capacity page])"

text \<open>The geometry of an initialised page: the blocks are word aligned, not at address 0, and the block area ends below
  the end of the address space.\<close>

definition page_geom :: "pa_page \<Rightarrow> bool" where
  "page_geom page \<longleftrightarrow> pg_page_start page AND 3 = 0 \<and> pg_block_size page AND 3 = 0 \<and> 0 < pg_page_start page \<and>
     0 < pg_block_size page \<and> pg_reserved page < 2 ^ 16 \<and> pg_capacity page \<le> pg_reserved page \<and>
     unat (pg_page_start page) + (pg_reserved page + 1) * unat (pg_block_size page) < 2 ^ 64"

text \<open>The page invariant: every block below the capacity is in exactly one of the three free lists or live (handed out),
  and \<open>used\<close> counts the blocks that are live or in the thread-free list.\<close>

definition page_inv :: "blocks \<Rightarrow> pa_page \<Rightarrow> uintptr_t list \<Rightarrow> uintptr_t list \<Rightarrow> uintptr_t list \<Rightarrow> uintptr_t multiset \<Rightarrow> bool" where
  "page_inv m page fl ll xl live \<longleftrightarrow> page_geom page \<and>
     blist m (pg_free page) fl \<and> blist m (pg_local_free page) ll \<and> blist m (pa_tf_block (pg_xthread_free page)) xl \<and>
     mset fl + mset ll + mset xl + live = page_blocks page \<and> pg_used page = length xl + size live"

lemma block_addr_unat:
  assumes "page_geom page" "i \<le> pg_reserved page"
  shows "unat (block_addr page i) = unat (pg_page_start page) + i * unat (pg_block_size page)"
proof -
  have r: "pg_reserved page < 2 ^ 16" "unat (pg_page_start page) + (pg_reserved page + 1) * unat (pg_block_size page) < 2 ^ 64"
    using assms(1) by (simp_all add: page_geom_def)
  have "i * unat (pg_block_size page) \<le> (pg_reserved page + 1) * unat (pg_block_size page)"
    using assms(2) by (intro mult_le_mono1) simp
  then have le: "unat (pg_page_start page) + i * unat (pg_block_size page) < 2 ^ LENGTH(64)" using r(2) by simp
  have i: "unat (of_nat i :: size_t) = i" using assms(2) r(1) by (simp add: unat_of_nat)
  then have "unat (of_nat i * pg_block_size page) = i * unat (pg_block_size page)" using le by (subst unat_mult_no_wrap) simp_all
  then show ?thesis unfolding pa_page_block_at_def using le by (subst unat_add_no_wrap) simp_all
qed

lemma block_addr_inject:
  assumes "page_geom page" "i \<le> pg_reserved page" "j \<le> pg_reserved page"
  shows "block_addr page i = block_addr page j \<longleftrightarrow> i = j"
proof
  assume "block_addr page i = block_addr page j"
  then have "unat (block_addr page i) = unat (block_addr page j)" by simp
  then show "i = j" using block_addr_unat [OF assms(1,2)] block_addr_unat [OF assms(1,3)] assms(1)
    by (auto simp: page_geom_def word_less_nat_alt)
qed simp

lemma block_addr_nonzero: "page_geom page \<Longrightarrow> i \<le> pg_reserved page \<Longrightarrow> block_addr page i \<noteq> 0"
  using block_addr_unat [of page i] by (auto simp: page_geom_def word_less_nat_alt)

lemma distinct_blocks: "page_geom page \<Longrightarrow> n \<le> pg_reserved page \<Longrightarrow> distinct (map (block_addr page) [0..<n])"
  by (auto simp: distinct_map inj_on_def block_addr_inject)

lemma page_inv_distinct:
  assumes "page_inv m page fl ll xl live"
  shows "distinct (fl @ ll @ xl)" "b \<in># live \<Longrightarrow> b \<notin> set fl \<union> set ll \<union> set xl" "count live b \<le> 1"
proof -
  have g: "page_geom page" and p: "mset fl + mset ll + mset xl + live = page_blocks page"
    using assms by (simp_all add: page_inv_def)
  have "distinct (map (block_addr page) [0..<pg_capacity page])" using g by (intro distinct_blocks) (simp_all add: page_geom_def)
  then have c: "count (page_blocks page) x \<le> 1" for x
    unfolding page_blocks_def by (metis count_mset_0_iff distinct_count_atmost_1 le_numeral_extra(4) zero_le_one le_refl)
  have s: "count (mset fl) x + count (mset ll) x + count (mset xl) x + count live x \<le> 1" for x
    using c [of x] unfolding p [symmetric] by simp
  have "count (mset (fl @ ll @ xl)) x \<le> 1" for x using s [of x] by simp
  then show "distinct (fl @ ll @ xl)" by (metis distinct_count_atmost_1 count_greater_zero_iff count_eq_zero_iff le_antisym less_one not_le set_mset_mset)
  show "count live b \<le> 1" using s [of b] by simp
  show "b \<notin> set fl \<union> set ll \<union> set xl" if "b \<in># live"
  proof -
    have "0 < count live b" using that by simp
    then have "count (mset fl) b = 0 \<and> count (mset ll) b = 0 \<and> count (mset xl) b = 0" using s [of b] by linarith
    then show ?thesis unfolding count_eq_zero_iff by simp
  qed
qed

lemma page_inv_block:
  assumes "page_inv m page fl ll xl live" "b \<in> set fl \<union> set ll \<union> set xl \<union> set_mset live"
  shows "\<exists>i < pg_capacity page. b = block_addr page i"
proof -
  have "mset fl + mset ll + mset xl + live = page_blocks page" using assms(1) by (simp add: page_inv_def)
  from arg_cong [OF this, of set_mset] have "b \<in># page_blocks page" using assms(2) by auto
  then show ?thesis by (auto simp: page_blocks_def)
qed

section \<open>Every operation keeps the invariant\<close>

lemma page_inv_capacity: "page_inv m page fl ll xl live \<Longrightarrow> length fl + length ll + length xl + size live = pg_capacity page"
proof -
  assume "page_inv m page fl ll xl live"
  then have "mset fl + mset ll + mset xl + live = page_blocks page" by (simp add: page_inv_def)
  from arg_cong [OF this, of size] show ?thesis by (simp add: page_blocks_def)
qed

lemma page_inv_used: "page_inv m page fl ll xl live \<Longrightarrow> pg_used page \<le> pg_capacity page \<and> pg_capacity page < 2 ^ 16"
  using page_inv_capacity [of m page fl ll xl live] by (simp add: page_inv_def page_geom_def)

lemma page_geom_update [simp]:
  "page_geom (page\<lparr>pg_free := a\<rparr>) = page_geom page" "page_geom (page\<lparr>pg_local_free := a\<rparr>) = page_geom page"
  "page_geom (page\<lparr>pg_xthread_free := a\<rparr>) = page_geom page" "page_geom (page\<lparr>pg_used := n\<rparr>) = page_geom page"
  "page_geom (page\<lparr>pg_free_is_zero := z\<rparr>) = page_geom page"
  by (simp_all add: page_geom_def)

lemma page_blocks_update [simp]:
  "page_blocks (page\<lparr>pg_free := a\<rparr>) = page_blocks page" "page_blocks (page\<lparr>pg_local_free := a\<rparr>) = page_blocks page"
  "page_blocks (page\<lparr>pg_xthread_free := a\<rparr>) = page_blocks page" "page_blocks (page\<lparr>pg_used := n\<rparr>) = page_blocks page"
  "page_blocks (page\<lparr>pg_free_is_zero := z\<rparr>) = page_blocks page"
  by (simp_all add: page_blocks_def)

lemma page_malloc_inv:
  assumes "page_inv m page fl ll xl live" "pa_page_malloc m page = Some (b, page')"
  shows "\<exists>fl'. fl = b # fl' \<and> page_inv m page' fl' ll xl (add_mset b live)"
proof -
  have b: "b = pg_free page" "b \<noteq> 0"
    and p: "page' = page\<lparr>pg_free := m b, pg_used := (pg_used page + 1) mod 2 ^ 16\<rparr>"
    using assms(2) by (auto simp: pa_page_malloc_def Let_def pa_block_next_def split: if_splits)
  obtain fl' where fl: "fl = b # fl'" "blist m (m b) fl'"
    using assms(1) b blist_nonzero [of "pg_free page" m fl] by (auto simp: page_inv_def)
  have "pg_used page + 1 < 2 ^ 16" using page_inv_capacity [OF assms(1)] page_inv_used [OF assms(1)] assms(1) fl(1)
    by (simp add: page_inv_def)
  then have "page_inv m page' fl' ll xl (add_mset b live)" using assms(1) fl by (simp add: page_inv_def p)
  then show ?thesis using fl(1) by blast
qed

lemma page_local_free_inv:
  assumes "page_inv m page fl ll xl live" "b \<in># live" "page_local_free m page b = (m', page')"
  shows "page_inv m' page' fl (b # ll) xl (live - {#b#})"
proof -
  have nin: "b \<notin> set fl" "b \<notin> set ll" "b \<notin> set xl" using page_inv_distinct(2) [OF assms(1,2)] by simp_all
  obtain i where i: "i < pg_capacity page" "b = block_addr page i" using page_inv_block [OF assms(1), of b] assms(2) by auto
  have g: "page_geom page" using assms(1) by (simp add: page_inv_def)
  have b0: "b \<noteq> 0" unfolding i(2) using g i(1) by (intro block_addr_nonzero) (simp_all add: page_geom_def)
  obtain l where l: "live = add_mset b l" using assms(2) by (metis insert_DiffM)
  have u: "(65535 + pg_used page) mod 65536 = length xl + size l"
    using assms(1) page_inv_used [OF assms(1)] l by (simp add: page_inv_def)
  have "m' = m(b := pg_local_free page)" "page' = page\<lparr>pg_local_free := b, pg_used := length xl + size l\<rparr>"
    using assms(3) u by (auto simp: page_local_free_def pa_block_set_next_def)
  then show ?thesis using assms(1) nin b0 by (simp add: page_inv_def l)
qed

lemma page_thread_free_collect_inv:
  assumes "page_inv m page fl ll xl live" "pa_page_thread_free_collect m page = (m', page', err)"
  shows "err = None \<and> page_inv m' page' fl (xl @ ll) [] live \<and> pg_free page' = pg_free page \<and>
    pa_page_thread_free_flag page' = pa_page_thread_free_flag page"
proof (cases xl)
  case Nil
  then have h: "pa_tf_block (pg_xthread_free page) = 0" using assms(1) by (simp add: page_inv_def)
  then have "pa_tf_set_block (pg_xthread_free page) 0 = pg_xthread_free page"
    using tf_make_parts [of "pg_xthread_free page"] by (simp add: pa_tf_set_block_def)
  then have "m' = m" "page' = page" "err = None" using assms(2) h by (simp_all add: pa_page_thread_free_collect_def Let_def)
  then show ?thesis using assms(1) Nil by simp
next
  case (Cons h xs)
  define t where "t = List.last (h # xs)"
  define xf where "xf = pa_tf_set_block (pg_xthread_free page) 0"
  have bl: "pa_tf_block (pg_xthread_free page) = h" "h \<noteq> 0" "blist m (m h) xs" "blist m h (h # xs)"
    using assms(1) Cons by (simp_all add: page_inv_def)
  have cap: "length fl + length ll + length xl + size live = pg_capacity page" by (rule page_inv_capacity [OF assms(1)])
  have ct: "count_tail m (pg_capacity page) 1 h = (length xl, t)"
    unfolding t_def using count_tail_list [OF bl(3), of 1 "pg_capacity page"] cap Cons by simp
  have u: "pg_used page = length xl + size live" "pg_capacity page < 2 ^ 16"
    using assms(1) page_inv_used [OF assms(1)] by (simp_all add: page_inv_def)
  have u': "(pg_used page + 65536 - length xl mod 65536) mod 65536 = size live" using u cap by simp
  have eq: "m' = m(t := pg_local_free page)" "page' = page\<lparr>pg_xthread_free := xf, pg_local_free := h, pg_used := size live\<rparr>" "err = None"
    using assms(2) bl(1,2) ct cap u' by (simp_all add: pa_page_thread_free_collect_def Let_def pa_block_set_next_def xf_def)
  have d: "distinct (fl @ ll @ xl)" by (rule page_inv_distinct(1) [OF assms(1)])
  obtain ys where split: "xl = ys @ [t]" unfolding t_def Cons by (metis append_butlast_last_id list.distinct(1))
  have tfl: "t \<notin> set fl" "t \<notin> set ll" "set ys \<inter> set ll = {}" and dx: "distinct (ys @ [t])" using d unfolding split by auto
  have bx: "blist m h (ys @ [t])" using bl(4) by (simp only: Cons [symmetric] split)
  have lb: "blist m (pg_local_free page) ll" using assms(1) by (simp add: page_inv_def)
  have "blist m' h (xl @ ll)"
    using blist_append [OF bx dx tfl(2,3) lb] by (simp add: eq(1) split)
  moreover have "blist m' (pg_free page) fl" using assms(1) tfl by (simp add: page_inv_def eq)
  moreover have "pa_tf_block xf = 0" by (simp add: xf_def pa_tf_set_block_def)
  moreover have "pa_page_thread_free_flag page' = pa_page_thread_free_flag page"
    by (simp add: eq xf_def pa_tf_set_block_def pa_page_thread_free_flag_def pa_tf_delayed_def [symmetric])
  ultimately show ?thesis using assms(1) by (simp add: page_inv_def eq union_ac)
qed

text \<open>Collecting leaves the thread-free list empty and never overlooks a free block: a page without an available block
  afterwards really has none.\<close>

lemma page_free_collect_inv:
  assumes "page_inv m page fl ll xl live"
  shows "\<exists>m' page' fl' ll'. pa_page_free_collect m page force = Some (m', page', None) \<and> page_inv m' page' fl' ll' [] live \<and>
    (force \<or> fl' = [] \<longrightarrow> ll' = []) \<and> pa_page_thread_free_flag page' = pa_page_thread_free_flag page"
proof -
  obtain m1 page1 err1 where c: "(if force \<or> pa_page_thread_free page \<noteq> 0 then pa_page_thread_free_collect m page else (m, page, None)) =
      (m1, page1, err1)" by (metis prod_cases3)
  have I: "err1 = None \<and> page_inv m1 page1 fl (xl @ ll) [] live \<and> pa_page_thread_free_flag page1 = pa_page_thread_free_flag page"
  proof (cases "force \<or> pa_page_thread_free page \<noteq> 0")
    case True
    then show ?thesis using page_thread_free_collect_inv [OF assms] c by simp
  next
    case False
    then have "xl = []" using assms by (simp add: page_inv_def pa_page_thread_free_def pa_tf_block_def)
    then show ?thesis using False c assms by simp
  qed
  have e: "err1 = None" and inv: "page_inv m1 page1 fl (xl @ ll) [] live"
    and tf: "pa_page_thread_free_flag page1 = pa_page_thread_free_flag page" using I by simp_all
  define ll1 where "ll1 = xl @ ll"
  have bl: "blist m1 (pg_free page1) fl" "blist m1 (pg_local_free page1) ll1" using inv by (simp_all add: page_inv_def ll1_def)
  define P where "P = page1\<lparr>pg_free := pg_local_free page1, pg_local_free := 0, pg_free_is_zero := False\<rparr>"
  have tfP: "pa_page_thread_free_flag P = pa_page_thread_free_flag page" using tf by (simp add: P_def pa_page_thread_free_flag_def)
  consider (none) "pg_local_free page1 = 0" | (usual) "pg_local_free page1 \<noteq> 0" "pg_free page1 = 0"
    | (append) "pg_local_free page1 \<noteq> 0" "pg_free page1 \<noteq> 0" force | (keep) "pg_local_free page1 \<noteq> 0" "pg_free page1 \<noteq> 0" "\<not> force"
    by blast
  then show ?thesis
  proof cases
    case none
    then have "pa_page_free_collect m page force = Some (m1, page1, None)" using c e by (simp add: pa_page_free_collect_def)
    moreover have "ll1 = []" using none bl(2) by simp
    ultimately show ?thesis using inv tf ll1_def by auto
  next
    case usual
    then have "pa_page_free_collect m page force = Some (m1, P, None)" using c e by (simp add: pa_page_free_collect_def P_def)
    moreover have "fl = []" using usual bl(1) by simp
    moreover have "page_inv m1 P ll1 [] [] live" using inv \<open>fl = []\<close> by (simp add: page_inv_def P_def ll1_def)
    ultimately show ?thesis using tfP by blast
  next
    case keep
    then have "pa_page_free_collect m page force = Some (m1, page1, None)" using c e by (simp add: pa_page_free_collect_def)
    moreover have "fl \<noteq> []" using keep bl(1) by (cases fl) auto
    ultimately show ?thesis using inv tf keep by auto
  next
    case append
    obtain h xs where l: "ll1 = h # xs" "h = pg_local_free page1" using append(1) bl(2) by (cases ll1) auto
    define t where "t = List.last ll1"
    have ft: "find_tail m1 (pg_local_free page1) = Some t"
      using find_tail_list [of m1 h xs] bl(2) l by (simp add: t_def)
    have r: "pa_page_free_collect m page force = Some (m1(t := pg_free page1), P, None)"
      using append c e ft by (simp add: pa_page_free_collect_def P_def pa_block_set_next_def)
    obtain ys where split: "ll1 = ys @ [t]" unfolding t_def l(1) by (metis append_butlast_last_id list.distinct(1))
    have "distinct (fl @ ll1)" using page_inv_distinct(1) [OF inv] by (simp add: ll1_def)
    then have d: "distinct (ys @ [t])" "t \<notin> set fl" "set ys \<inter> set fl = {}" unfolding split by auto
    have "blist (m1(t := pg_free page1)) (pg_local_free page1) (ll1 @ fl)"
      using blist_append [OF bl(2) [unfolded split] d bl(1)] by (simp add: split)
    then have "page_inv (m1(t := pg_free page1)) P (ll1 @ fl) [] [] live" using inv by (simp add: page_inv_def P_def ll1_def union_ac)
    then show ?thesis using r tfP by blast
  qed
qed

section \<open>Extending a page\<close>

lemma link_blocks_chain:
  assumes "page_geom page" "j < pg_reserved page" "i \<le> j + 1"
  shows "\<exists>m'. link_blocks m (pg_block_size page) (block_addr page i) (block_addr page j) = Some m' \<and>
     (\<forall>a. a \<notin> block_addr page ` {i..j} \<longrightarrow> m' a = m a) \<and> (\<forall>k \<in> {i..j}. m' (block_addr page k) = block_addr page (k + 1))"
  using assms(3)
proof (induction "j + 1 - i" arbitrary: i m)
  case 0
  then have "i = j + 1" by simp
  moreover have "\<not> block_addr page (j + 1) \<le> block_addr page j"
    using block_addr_unat [OF assms(1), of j] block_addr_unat [OF assms(1), of "j + 1"] assms(1,2)
    by (simp add: word_le_nat_alt page_geom_def word_less_nat_alt)
  ultimately show ?case by (subst link_blocks.simps) simp
next
  case (Suc n)
  then have ij: "i \<le> j" by simp
  have le: "block_addr page i \<le> block_addr page j"
    using block_addr_unat [OF assms(1), of j] block_addr_unat [OF assms(1), of i] ij assms(2) by (simp add: word_le_nat_alt)
  have nx: "block_addr page i + pg_block_size page = block_addr page (i + 1)"
    by (simp add: pa_page_block_at_def algebra_simps)
  obtain m' where m': "link_blocks (m(block_addr page i := block_addr page (i + 1))) (pg_block_size page) (block_addr page (i + 1)) (block_addr page j) = Some m'"
    "\<forall>a. a \<notin> block_addr page ` {i + 1..j} \<longrightarrow> m' a = (m(block_addr page i := block_addr page (i + 1))) a"
    "\<forall>k \<in> {i + 1..j}. m' (block_addr page k) = block_addr page (k + 1)"
    using Suc.hyps(1) [of "i + 1"] Suc.hyps(2) ij by force
  have r: "link_blocks m (pg_block_size page) (block_addr page i) (block_addr page j) = Some m'"
    using m'(1) le by (subst link_blocks.simps) (simp add: nx pa_block_set_next_def)
  have ni: "block_addr page i \<notin> block_addr page ` {i + 1..j}" using assms(1,2) ij by (auto simp: block_addr_inject)
  have "{i..j} = insert i {i + 1..j}" using ij by auto
  then show ?case using r m'(2,3) ni by auto
qed

lemma blist_chain:
  assumes "page_geom page" "j < pg_reserved page" "i \<le> j" "\<forall>k \<in> {i..<j}. m (block_addr page k) = block_addr page (k + 1)"
    and "m (block_addr page j) = 0"
  shows "blist m (block_addr page i) (map (block_addr page) [i..<j + 1])"
  using assms(3,4)
proof (induction "j - i" arbitrary: i)
  case 0
  then show ?case using assms(1,2,5) by (simp add: block_addr_nonzero)
next
  case (Suc n)
  then have ij: "i < j" by simp
  have "m (block_addr page i) = block_addr page (i + 1)" using Suc.prems ij by simp
  moreover have "blist m (block_addr page (i + 1)) (map (block_addr page) [i + 1..<j + 1])"
    using Suc.hyps(1) [of "i + 1"] Suc.hyps(2) Suc.prems ij by simp
  moreover have "[i..<j + 1] = i # [i + 1..<j + 1]" using ij by (simp add: upt_conv_Cons)
  ultimately show ?case using assms(1,2) ij by (simp add: block_addr_nonzero)
qed

lemma page_extend_count_bounds:
  "pg_capacity page < pg_reserved page \<Longrightarrow> 0 < page_extend_count page \<and> pg_capacity page + page_extend_count page \<le> pg_reserved page"
  unfolding page_extend_count_def PA_MIN_EXTEND_def Let_def by auto

lemma page_extend_free_inv:
  assumes inv: "page_inv m page fl [] xl live"
  shows "\<exists>m' page' fl'. pa_page_extend_free m page = Some (m', page') \<and> page_inv m' page' fl' [] xl live \<and>
    (pg_capacity page < pg_reserved page \<longrightarrow> fl' \<noteq> [])"
proof (cases "pg_free page \<noteq> 0 \<or> pg_reserved page \<le> pg_capacity page")
  case True
  then have "pa_page_extend_free m page = Some (m, page)" by (auto simp: pa_page_extend_free_def)
  moreover have "pg_free page \<noteq> 0 \<Longrightarrow> fl \<noteq> []" using inv by (auto simp: page_inv_def)
  ultimately show ?thesis using inv True by auto
next
  case False
  define c where "c = pg_capacity page"
  define e where "e = page_extend_count page"
  define j where "j = c + e - 1"
  have g: "page_geom page" using inv by (simp add: page_inv_def)
  have fl: "fl = []" using inv False by (simp add: page_inv_def)
  have e: "0 < e" "c + e \<le> pg_reserved page" using page_extend_count_bounds [of page] False by (simp_all add: c_def e_def)
  have j: "j < pg_reserved page" "c \<le> j" "j + 1 = c + e" using e by (simp_all add: j_def)
  obtain m1 where m1: "link_blocks m (pg_block_size page) (block_addr page c) (block_addr page j) = Some m1"
    "\<forall>a. a \<notin> block_addr page ` {c..j} \<longrightarrow> m1 a = m a" "\<forall>k \<in> {c..j}. m1 (block_addr page k) = block_addr page (k + 1)"
    using link_blocks_chain [OF g j(1) trans_le_add1 [OF j(2)], of m] by blast
  define m2 where "m2 = m1(block_addr page j := 0)"
  have r16: "pg_reserved page < 65536" using g by (simp add: page_geom_def)
  have ce: "(c + e mod 65536) mod 65536 = c + e" using e r16 by simp
  define page2 where "page2 = page\<lparr>pg_free := block_addr page c, pg_capacity := c + e\<rparr>"
  have r: "pa_page_extend_free m page = Some (m2, page2)"
    using False m1(1) ce j_def by (simp add: pa_page_extend_free_def pa_page_free_list_extend_def c_def [symmetric] e_def [symmetric]
        Let_def m2_def page2_def pa_block_set_next_def)
  define nl where "nl = map (block_addr page) [c..<c + e]"
  have nj: "block_addr page k \<noteq> block_addr page j" if "k \<in> {c..<j}" for k using that g j(1) by (auto simp: block_addr_inject)
  have "blist m2 (block_addr page c) nl"
    unfolding nl_def j(3) [symmetric] by (rule blist_chain [OF g j(1,2)]) (use m1(3) nj in \<open>auto simp: m2_def\<close>)
  moreover have old: "m2 b = m b" if bx: "b \<in> set xl" for b
  proof -
    obtain k where k: "k < c" "b = block_addr page k" using page_inv_block [OF inv, of b] bx by (auto simp: c_def)
    then have "b \<notin> block_addr page ` {c..j}" using g j by (auto simp: block_addr_inject)
    then show ?thesis using m1(2) j(2) by (auto simp: m2_def)
  qed
  moreover have "blist m2 p xl = blist m p xl" for p using old by (induction xl arbitrary: p) auto
  moreover have "page_blocks page2 = page_blocks page + mset nl"
  proof -
    have "[0..<c + e] = [0..<c] @ [c..<c + e]" by (rule upt_add_eq_append) simp
    then show ?thesis unfolding page_blocks_def nl_def page2_def c_def [symmetric] by simp
  qed
  moreover have "page_geom page2" using g e by (simp add: page_geom_def page2_def)
  ultimately have "page_inv m2 page2 nl [] xl live" using inv fl by (simp add: page_inv_def page2_def union_ac)
  moreover have "nl \<noteq> []" using e(1) by (simp add: nl_def)
  ultimately show ?thesis using r by blast
qed

section \<open>Histories of a page\<close>

text \<open>Every operation the owner and other threads perform on a page, with the ghost multiset of live blocks: the blocks
  handed out and not freed.  A remote free pushes the block on the thread-free list in one successful compare-and-swap;
  the flag is switched by the delayed-free protocol.\<close>

definition thread_free_push :: "blocks \<Rightarrow> pa_page \<Rightarrow> uintptr_t \<Rightarrow> blocks \<times> pa_page" where
  "thread_free_push m page block =
     (let tfree = pg_xthread_free page
      in (pa_block_set_next m block (pa_tf_block tfree), page\<lparr>pg_xthread_free := pa_tf_set_block tfree block\<rparr>))"

inductive page_history :: "blocks \<Rightarrow> pa_page \<Rightarrow> uintptr_t multiset \<Rightarrow> bool" where
  fresh: "page_geom page \<Longrightarrow> pg_capacity page = 0 \<Longrightarrow> pg_free page = 0 \<Longrightarrow> pg_local_free page = 0 \<Longrightarrow>
    pa_tf_block (pg_xthread_free page) = 0 \<Longrightarrow> pg_used page = 0 \<Longrightarrow> page_history m page {#}"
| malloc: "page_history m page live \<Longrightarrow> pa_page_malloc m page = Some (b, page') \<Longrightarrow> page_history m page' (add_mset b live)"
| local_free: "page_history m page live \<Longrightarrow> b \<in># live \<Longrightarrow> page_local_free m page b = (m', page') \<Longrightarrow>
    page_history m' page' (live - {#b#})"
| remote_free: "page_history m page live \<Longrightarrow> b \<in># live \<Longrightarrow> thread_free_push m page b = (m', page') \<Longrightarrow>
    page_history m' page' (live - {#b#})"
| collect: "page_history m page live \<Longrightarrow> pa_page_free_collect m page force = Some (m', page', err) \<Longrightarrow>
    page_history m' page' live"
| extend: "page_history m page live \<Longrightarrow> pg_local_free page = 0 \<Longrightarrow> pa_page_extend_free m page = Some (m', page') \<Longrightarrow>
    page_history m' page' live"
| set_delayed: "page_history m page live \<Longrightarrow>
    page_history m (page\<lparr>pg_xthread_free := pa_tf_set_delayed (pg_xthread_free page) d\<rparr>) live"
| client_write: "page_history m page live \<Longrightarrow> b \<in># live \<Longrightarrow> page_history (m(b := x)) page live"

lemma unat_and_3: "unat (w AND 3 :: uintptr_t) = unat w mod 4"
  using unat_and_mask [of w 2] by (simp add: mask_eq_exp_minus_1)

lemma block_addr_aligned: "page_inv m page fl ll xl live \<Longrightarrow> b \<in># live \<Longrightarrow> b AND 3 = 0"
proof -
  assume inv: "page_inv m page fl ll xl live" and b: "b \<in># live"
  obtain i where i: "i < pg_capacity page" "b = block_addr page i" using page_inv_block [OF inv, of b] b by auto
  have g: "page_geom page" using inv by (simp add: page_inv_def)
  have d: "4 dvd unat (pg_page_start page)" "4 dvd unat (pg_block_size page)"
    using g unat_and_3 [of "pg_page_start page"] unat_and_3 [of "pg_block_size page"]
    by (simp_all add: page_geom_def dvd_eq_mod_eq_0)
  have "unat b = unat (pg_page_start page) + i * unat (pg_block_size page)"
    unfolding i(2) by (rule block_addr_unat [OF g]) (use i(1) g in \<open>simp add: page_geom_def\<close>)
  then have "unat (b AND 3) = 0" using d by (simp add: unat_and_3)
  then show "b AND 3 = 0" by (simp add: unat_eq_zero)
qed

lemma thread_free_push_inv:
  assumes "page_inv m page fl ll xl live" "b \<in># live" "thread_free_push m page b = (m', page')"
  shows "page_inv m' page' fl ll (b # xl) (live - {#b#})"
proof -
  have nin: "b \<notin> set fl" "b \<notin> set ll" "b \<notin> set xl" using page_inv_distinct(2) [OF assms(1,2)] by simp_all
  obtain i where i: "i < pg_capacity page" "b = block_addr page i" using page_inv_block [OF assms(1), of b] assms(2) by auto
  have "page_geom page" using assms(1) by (simp add: page_inv_def)
  then have b0: "b \<noteq> 0" unfolding i(2) using i(1) by (intro block_addr_nonzero) (simp_all add: page_geom_def)
  obtain l where l: "live = add_mset b l" using assms(2) by (metis insert_DiffM)
  have "pa_tf_block (pa_tf_set_block (pg_xthread_free page) b) = b"
    using block_addr_aligned [OF assms(1,2)] by (simp add: pa_tf_set_block_def)
  then show ?thesis using assms(1,3) nin b0
    by (auto simp: page_inv_def thread_free_push_def Let_def pa_block_set_next_def l)
qed

lemma page_history_inv: "page_history m page live \<Longrightarrow> \<exists>fl ll xl. page_inv m page fl ll xl live"
proof (induction rule: page_history.induct)
  case (fresh page m)
  then have "page_inv m page [] [] [] {#}" by (simp add: page_inv_def page_blocks_def)
  then show ?case by blast
next
  case (malloc m page live b page')
  then show ?case using page_malloc_inv by blast
next
  case (local_free m page live b m' page')
  then show ?case using page_local_free_inv by blast
next
  case (remote_free m page live b m' page')
  then show ?case using thread_free_push_inv by blast
next
  case (collect m page live force m' page' err)
  then show ?case using page_free_collect_inv by (metis option.inject prod.inject)
next
  case (extend m page live m' page')
  then obtain fl ll xl where inv: "page_inv m page fl ll xl live" by blast
  then have "ll = []" using extend.hyps(2) by (simp add: page_inv_def)
  then show ?case using page_extend_free_inv inv extend.hyps(3) by (metis option.inject prod.inject)
next
  case (set_delayed m page live d)
  then obtain fl ll xl where inv: "page_inv m page fl ll xl live" by blast
  have "pa_tf_block (pa_tf_set_delayed (pg_xthread_free page) d) = pa_tf_block (pg_xthread_free page)"
    unfolding pa_tf_set_delayed_def by (rule tf_block_make) (simp add: pa_tf_block_def)
  then show ?case using inv by (auto simp: page_inv_def)
next
  case (client_write m page live b x)
  then obtain fl ll xl where inv: "page_inv m page fl ll xl live" by blast
  then have "b \<notin> set fl" "b \<notin> set ll" "b \<notin> set xl" using page_inv_distinct(2) [OF inv client_write.hyps(2)] by simp_all
  then have "page_inv (m(b := x)) page fl ll xl live" using inv by (simp add: page_inv_def)
  then show ?case by blast
qed

section \<open>What the page promises\<close>

definition block_range :: "pa_page \<Rightarrow> uintptr_t \<Rightarrow> nat set" where
  "block_range page b = {unat b..<unat b + unat (pg_block_size page)}"

lemma block_range_disjoint_less:
  assumes "page_geom page" "i < j" "j < pg_reserved page"
  shows "block_range page (block_addr page i) \<inter> block_range page (block_addr page j) = {}"
proof -
  have "(i + 1) * unat (pg_block_size page) \<le> j * unat (pg_block_size page)" using assms(2) by (intro mult_le_mono1) simp
  then have "unat (block_addr page i) + unat (pg_block_size page) \<le> unat (block_addr page j)"
    using block_addr_unat [OF assms(1), of i] block_addr_unat [OF assms(1), of j] assms(2,3) by simp
  then show ?thesis by (auto simp: block_range_def)
qed

lemma block_range_disjoint:
  assumes "page_geom page" "i < pg_reserved page" "j < pg_reserved page" "i \<noteq> j"
  shows "block_range page (block_addr page i) \<inter> block_range page (block_addr page j) = {}"
  using block_range_disjoint_less [OF assms(1)] assms(2-4) by (metis Int_commute linorder_neqE_nat)

lemma block_range_inside:
  assumes "page_geom page" "i < pg_reserved page"
  shows "block_range page (block_addr page i) \<subseteq>
    {unat (pg_page_start page)..<unat (pg_page_start page) + pg_reserved page * unat (pg_block_size page)}"
proof -
  have "(i + 1) * unat (pg_block_size page) \<le> pg_reserved page * unat (pg_block_size page)"
    using assms(2) by (intro mult_le_mono1) simp
  then show ?thesis using block_addr_unat [OF assms(1), of i] assms(2) by (auto simp: block_range_def)
qed

lemma page_inv_ranges:
  assumes inv: "page_inv m page fl ll xl live" and b: "b \<in># live" "c \<in># live"
  shows "block_range page b \<subseteq> {unat (pg_page_start page)..<unat (pg_page_start page) + pg_reserved page * unat (pg_block_size page)}"
    and "b \<noteq> c \<Longrightarrow> block_range page b \<inter> block_range page c = {}"
proof -
  have g: "page_geom page" "pg_capacity page \<le> pg_reserved page" using inv by (simp_all add: page_inv_def page_geom_def)
  obtain i j where ij: "i < pg_capacity page" "b = block_addr page i" "j < pg_capacity page" "c = block_addr page j"
    using page_inv_block [OF inv, of b] page_inv_block [OF inv, of c] b by auto
  show "block_range page b \<subseteq> {unat (pg_page_start page)..<unat (pg_page_start page) + pg_reserved page * unat (pg_block_size page)}"
    unfolding ij(2) using g ij(1) by (intro block_range_inside) simp_all
  show "b \<noteq> c \<Longrightarrow> block_range page b \<inter> block_range page c = {}"
    using block_range_disjoint [OF g(1), of i j] ij g(2) by auto
qed

text \<open>C6: no block is handed out twice.  In every history of allocations, local and remote frees, collections,
  extensions, flag changes and client writes on a page, an allocation returns a block that is not live, lies in the
  block area of the page, and overlaps no live block.\<close>
theorem page_malloc_exclusive:
  assumes "page_history m page live" "pa_page_malloc m page = Some (b, page')"
  shows "b \<notin># live \<and>
    block_range page b \<subseteq> {unat (pg_page_start page)..<unat (pg_page_start page) + pg_reserved page * unat (pg_block_size page)} \<and>
    (\<forall>c \<in># live. block_range page b \<inter> block_range page c = {})"
proof -
  obtain fl ll xl where inv: "page_inv m page fl ll xl live" using page_history_inv [OF assms(1)] by blast
  obtain fl' where inv': "page_inv m page' fl' ll xl (add_mset b live)" using page_malloc_inv [OF inv assms(2)] by blast
  have nb: "b \<notin># live" using page_inv_distinct(3) [OF inv', of b] by (simp add: count_eq_zero_iff)
  have same: "pg_page_start page' = pg_page_start page" "pg_block_size page' = pg_block_size page" "pg_reserved page' = pg_reserved page"
    "block_range page' = block_range page"
    using assms(2) by (auto simp: pa_page_malloc_def Let_def block_range_def split: if_splits)
  have "block_range page b \<inter> block_range page c = {}" if "c \<in># live" for c
    using page_inv_ranges(2) [OF inv', of b c] that nb unfolding same by auto
  then show ?thesis using page_inv_ranges(1) [OF inv', of b b] nb unfolding same by simp
qed

text \<open>A page of three 64-byte blocks for the witnesses.\<close>

definition demo_page :: pa_page where
  "demo_page = \<lparr>pg_slice_count = 1, pg_slice_offset = 0, pg_is_committed = True, pg_is_huge = False, pg_is_zero_init = False,
     pg_retire_expire = 0, pg_capacity = 0, pg_used = 0, pg_in_full = False, pg_has_aligned = False, pg_free_is_zero = False,
     pg_block_size_shift = 6, pg_free = 0, pg_local_free = 0, pg_xthread_free = 0, pg_block_size = 64, pg_reserved = 3,
     pg_heap_tag = 0, pg_page_start = 0x2000000, pg_xheap = 0, pg_next = None, pg_prev = None\<rparr>"

definition demo_extended :: "blocks \<times> pa_page" where
  "demo_extended = ((\<lambda>_. 0)(0x2000000 := 0x2000040, 0x2000040 := 0x2000080, 0x2000080 := 0),
     demo_page\<lparr>pg_free := 0x2000000, pg_capacity := 3\<rparr>)"

lemma demo_extend: "pa_page_extend_free (\<lambda>_. 0) demo_page = Some demo_extended"
  by (simp add: pa_page_extend_free_def pa_page_free_list_extend_def page_extend_count_def demo_page_def Let_def
      PA_MIN_EXTEND_def PA_MAX_EXTEND_SIZE_def pa_page_block_at_def link_blocks.simps pa_block_set_next_def demo_extended_def)

lemma demo_history: "page_history (fst demo_extended) (snd demo_extended) {#}"
proof -
  have "page_history (\<lambda>_. 0) demo_page {#}"
    by (rule page_history.fresh) (simp_all add: demo_page_def page_geom_def pa_tf_block_def)
  then show ?thesis using page_history.extend [of "\<lambda>_. 0" demo_page "{#}" "fst demo_extended" "snd demo_extended"] demo_extend
    by (simp add: demo_page_def)
qed

definition demo_malloc1 :: pa_page where "demo_malloc1 = snd (the (pa_page_malloc (fst demo_extended) (snd demo_extended)))"

lemma demo_malloc_values:
  "pa_page_malloc (fst demo_extended) (snd demo_extended) = Some (0x2000000, demo_malloc1)"
  "pa_page_malloc (fst demo_extended) demo_malloc1 = Some (0x2000040, snd (the (pa_page_malloc (fst demo_extended) demo_malloc1)))"
  by (simp_all add: demo_malloc1_def pa_page_malloc_def demo_extended_def pa_block_next_def)

theorem page_malloc_exclusive_witness:
  "block_range demo_malloc1 0x2000040 \<inter> block_range demo_malloc1 0x2000000 = {} \<and> (0x2000040 :: uintptr_t) \<noteq> 0x2000000"
  using page_malloc_exclusive [OF page_history.malloc [OF demo_history demo_malloc_values(1)] demo_malloc_values(2)] by simp

text \<open>C8: collecting finds every freed block.  In every history of a page, collecting returns (the list walks end and
  the corruption check never fires), leaves nothing in the thread-free list, makes \<open>used\<close> exactly the number of live
  blocks, so that the page counts as all free exactly when no block is live, and a page without an immediately available
  block afterwards has all of its blocks live.\<close>
theorem page_collect_complete:
  assumes "page_history m page live"
  shows "\<exists>m' page'. pa_page_free_collect m page force = Some (m', page', None) \<and> pa_page_thread_free page' = 0 \<and>
    pg_used page' = size live \<and> (pa_page_all_free page' \<longleftrightarrow> live = {#}) \<and>
    (\<not> pa_page_immediate_available page' \<longrightarrow> live = page_blocks page')"
proof -
  obtain fl ll xl where inv: "page_inv m page fl ll xl live" using page_history_inv [OF assms(1)] by blast
  obtain m' page' fl' ll' where c: "pa_page_free_collect m page force = Some (m', page', None)"
    and inv': "page_inv m' page' fl' ll' [] live" and e: "fl' = [] \<longrightarrow> ll' = []"
    using page_free_collect_inv [OF inv, of force] by blast
  have "pa_page_thread_free page' = 0" "pg_used page' = size live"
    using inv' by (simp_all add: page_inv_def pa_page_thread_free_def pa_tf_block_def)
  moreover have "live = page_blocks page'" if "\<not> pa_page_immediate_available page'"
    using inv' e that by (auto simp: page_inv_def pa_page_immediate_available_def)
  ultimately show ?thesis using c by (auto simp: pa_page_all_free_def)
qed

theorem page_collect_complete_witness:
  "\<exists>m' page'. pa_page_free_collect (fst demo_extended) (snd demo_extended) True = Some (m', page', None) \<and> pg_used page' = 0"
  using page_collect_complete [OF demo_history, of True] by auto

text \<open>C10: extending a page ends and makes blocks available.  In every history of a page whose local free list is empty
  and whose capacity is below its reserve, extending returns, at least one block is immediately available afterwards, the
  capacity does not exceed the reserve, and a next allocation succeeds.  When the free list is empty the capacity grows; when it is not, extending returns
  at once and leaves the page and its memory as they were.\<close>
theorem page_extend_available:
  assumes "page_history m page live" "pg_local_free page = 0" "pg_capacity page < pg_reserved page"
  shows "\<exists>m' page'. pa_page_extend_free m page = Some (m', page') \<and> pa_page_immediate_available page' \<and>
    pg_capacity page' \<le> pg_reserved page' \<and> (pg_free page = 0 \<longrightarrow> pg_capacity page < pg_capacity page') \<and>
    (pg_free page \<noteq> 0 \<longrightarrow> m' = m \<and> page' = page) \<and> pa_page_malloc m' page' \<noteq> None"
proof -
  obtain fl ll xl where inv0: "page_inv m page fl ll xl live" using page_history_inv [OF assms(1)] by blast
  then have "ll = []" using assms(2) by (simp add: page_inv_def)
  then have inv: "page_inv m page fl [] xl live" using inv0 by simp
  obtain m' page' fl' where r: "pa_page_extend_free m page = Some (m', page')" and inv': "page_inv m' page' fl' [] xl live" and ne: "fl' \<noteq> []"
    using page_extend_free_inv [OF inv] assms(3) by blast
  have f: "pg_free page' \<noteq> 0" using inv' ne by (cases fl') (auto simp: page_inv_def)
  have cap: "length fl + length xl + size live = pg_capacity page" "length fl' + length xl + size live = pg_capacity page'"
    using page_inv_capacity [OF inv] page_inv_capacity [OF inv'] by simp_all
  have "pg_free page = 0 \<longrightarrow> pg_capacity page < pg_capacity page'"
  proof
    assume "pg_free page = 0"
    then have "length fl = 0" using inv by (simp add: page_inv_def)
    moreover have "0 < length fl'" using ne by simp
    ultimately show "pg_capacity page < pg_capacity page'" using cap by linarith
  qed
  moreover have "pg_capacity page' \<le> pg_reserved page'" using inv' by (simp add: page_inv_def page_geom_def)
  moreover have "m' = m \<and> page' = page" if f: "pg_free page \<noteq> 0"
  proof -
    have "pa_page_extend_free m page = Some (m, page)" unfolding pa_page_extend_free_def if_P [OF f] by (rule refl)
    then show ?thesis using r by simp
  qed
  ultimately show ?thesis using r f by (auto simp: pa_page_immediate_available_def pa_page_malloc_def Let_def)
qed

theorem page_extend_available_witness:
  "\<exists>m' page'. pa_page_extend_free (\<lambda>_. 0) demo_page = Some (m', page') \<and> pa_page_malloc m' page' \<noteq> None"
proof -
  have "page_history (\<lambda>_. 0) demo_page {#}"
    by (rule page_history.fresh) (simp_all add: demo_page_def page_geom_def pa_tf_block_def)
  then show ?thesis using page_extend_available [of "\<lambda>_. 0" demo_page "{#}"] by (auto simp: demo_page_def)
qed

section \<open>Interior pointers\<close>

text \<open>C25: interior pointers find their block.  For every pointer into a block of a page, the unaligned block that
  \<open>free\<close> computes is the start of that block, on the mask path for power-of-two block sizes and on the modulo path
  for the others.\<close>
theorem page_ptr_unalign_block:
  assumes "page_geom page" "i < pg_reserved page" "off < pg_block_size page"
    and "pg_block_size_shift page \<noteq> 0 \<Longrightarrow> pg_block_size_shift page < 64 \<and> pg_block_size page = 2 ^ pg_block_size_shift page"
  shows "pa_page_ptr_unalign page (pa_page_block_at (pg_page_start page) (pg_block_size page) i + off) =
    pa_page_block_at (pg_page_start page) (pg_block_size page) i"
proof -
  let ?bs = "unat (pg_block_size page)" and ?d = "of_nat i * pg_block_size page + off"
  have diff: "block_addr page i + off - pg_page_start page = ?d" by (simp add: pa_page_block_at_def)
  have bnd: "unat (pg_page_start page) + (pg_reserved page + 1) * ?bs < 2 ^ 64" "pg_reserved page < 2 ^ 16"
    using assms(1) by (simp_all add: page_geom_def)
  have o: "unat off < ?bs" using assms(3) by (simp add: word_less_nat_alt)
  have "(i + 1) * ?bs \<le> (pg_reserved page + 1) * ?bs" using assms(2) by (intro mult_le_mono1) simp
  then have "i * ?bs + ?bs \<le> (pg_reserved page + 1) * ?bs" unfolding add_mult_distrib [of i 1 ?bs] by simp
  then have lim: "i * ?bs + ?bs < 2 ^ 64" using bnd(1) by linarith
  have i: "unat (of_nat i :: size_t) = i" using assms(2) bnd(2) by (simp add: unat_of_nat)
  have m: "unat (of_nat i * pg_block_size page) = i * ?bs" using lim by (subst unat_mult_no_wrap) (simp_all add: i)
  have d: "unat ?d = i * ?bs + unat off" using lim o by (subst unat_add_no_wrap) (simp_all add: m)
  have "(if pg_block_size_shift page \<noteq> 0 then ?d AND (push_bit (pg_block_size_shift page) 1 - 1) else ?d mod pg_block_size page) = off"
  proof (cases "pg_block_size_shift page = 0")
    case True
    have "unat (?d mod pg_block_size page) = unat off" using o by (simp add: unat_mod d)
    then show ?thesis using True by (simp add: word_unat_eq_iff)
  next
    case False
    let ?s = "pg_block_size_shift page"
    have s: "?s < 64" "?bs = 2 ^ ?s" using assms(4) False by simp_all
    have "push_bit ?s 1 - 1 = (mask ?s :: size_t)" by (simp add: push_bit_eq_mult mask_eq_exp_minus_1)
    moreover have "unat (?d AND mask ?s) = unat off" unfolding unat_and_mask d using o s(2) by simp
    then have "?d AND mask ?s = off" by (simp only: word_unat_eq_iff)
    ultimately show ?thesis using False by (simp only: if_True not_False_eq_True)
  qed
  then show ?thesis unfolding pa_page_ptr_unalign_def diff Let_def by simp
qed

theorem page_ptr_unalign_block_witness:
  "pa_page_ptr_unalign demo_page (0x2000040 + 17) = 0x2000040"
  using page_ptr_unalign_block [of demo_page 1 17] by (simp add: demo_page_def page_geom_def pa_page_block_at_def)

end
