(* ===== verification/Palloc_PageQueue.thy ===== *)
theory Palloc_PageQueue
  imports Palloc_DLL Palloc_FreeList
begin

text \<open>
  The page queues of a heap (\<open>src/page-queue.c\<close>).  A heap is a record; the page structures, which
  live in their segments, are a store from slice references to pages that the operations update.  A
  queue is named by its index in \<open>heap->pages\<close>.  The entries of \<open>pages_free_direct\<close> are optional
  references, \<open>None\<close> standing for the statically allocated empty page.
\<close>

section \<open>Heaps and queues\<close>

record pa_page_queue =
  pq_first :: "slice_ref option"
  pq_last :: "slice_ref option"
  pq_block_size :: size_t

record pa_heap =
  hp_store :: "slice_ref \<Rightarrow> pa_page"
  hp_addr :: uintptr_t
  hp_thread_delayed_free :: uintptr_t
  hp_page_count :: size_t
  hp_page_retired_min :: nat
  hp_page_retired_max :: nat
  hp_generic_count :: int
  hp_generic_collect_count :: int
  hp_no_reclaim :: bool
  hp_tag :: nat
  hp_max_size :: size_t
  hp_used_bytes :: size_t
  hp_pages_free_direct :: "nat \<Rightarrow> slice_ref option"
  hp_pages :: "nat \<Rightarrow> pa_page_queue"
  hp_cache_head :: "nat \<Rightarrow> uintptr_t"
  hp_cache_count :: "nat \<Rightarrow> nat"

definition pa_page_queue_is_huge :: "pa_page_queue \<Rightarrow> bool" where
  "pa_page_queue_is_huge pq \<longleftrightarrow> pq_block_size pq = of_nat (PA_MEDIUM_OBJ_SIZE_MAX + 8)"

definition pa_page_queue_is_full :: "pa_page_queue \<Rightarrow> bool" where
  "pa_page_queue_is_full pq \<longleftrightarrow> pq_block_size pq = of_nat (PA_MEDIUM_OBJ_SIZE_MAX + 2 * 8)"

definition pa_page_queue_is_special :: "pa_page_queue \<Rightarrow> bool" where
  "pa_page_queue_is_special pq \<longleftrightarrow> of_nat PA_MEDIUM_OBJ_SIZE_MAX < pq_block_size pq"

definition pa_page_is_large_or_huge :: "pa_page \<Rightarrow> bool" where
  "pa_page_is_large_or_huge page \<longleftrightarrow> of_nat PA_MEDIUM_OBJ_SIZE_MAX < pg_block_size page \<or> pg_is_huge page"

definition pa_page_bin :: "pa_page \<Rightarrow> nat" where
  "pa_page_bin page =
     (if pg_in_full page then PA_BIN_FULL else if pg_is_huge page then PA_BIN_HUGE else pa_bin (pg_block_size page))"

definition pa_page_stats_bin :: "pa_page \<Rightarrow> nat" where
  "pa_page_stats_bin page = (if pg_is_huge page then PA_BIN_HUGE else pa_bin (pg_block_size page))"

definition pa_heap_page_queue_of :: "pa_heap \<Rightarrow> slice_ref \<Rightarrow> nat" where
  "pa_heap_page_queue_of heap page = pa_page_bin (hp_store heap page)"

section \<open>The direct table\<close>

text \<open>Skipping the previous queues of the same bin.\<close>

fun skip_same_bin :: "(nat \<Rightarrow> size_t) \<Rightarrow> nat \<Rightarrow> nat \<Rightarrow> nat" where
  "skip_same_bin bsize bin 0 = 0"
| "skip_same_bin bsize bin (Suc prev) =
     (if bin = pa_bin (bsize (Suc prev)) then skip_same_bin bsize bin prev else Suc prev)"

definition pa_heap_queue_first_update :: "pa_heap \<Rightarrow> nat \<Rightarrow> pa_heap" where
  "pa_heap_queue_first_update heap pq =
     (let sz = pq_block_size (hp_pages heap pq)
      in if of_nat PA_SMALL_SIZE_MAX < sz then heap
      else let page = pq_first (hp_pages heap pq);
               idx = unat (pa_wsize_from_size sz);
               pages_free = hp_pages_free_direct heap
      in if pages_free idx = page then heap
      else let start = (if idx \<le> 1 then 0
                        else let prev = skip_same_bin (\<lambda>i. pq_block_size (hp_pages heap i)) (pa_bin sz) (pq - 1);
                                 start = 1 + unat (pa_wsize_from_size (pq_block_size (hp_pages heap prev)))
                             in if idx < start then idx else start)
      in heap\<lparr>hp_pages_free_direct := (\<lambda>i. if start \<le> i \<and> i \<le> idx then page else pages_free i)\<rparr>)"

section \<open>Queue operations\<close>

definition set_next :: "slice_ref \<Rightarrow> slice_ref option \<Rightarrow> (slice_ref \<Rightarrow> pa_page) \<Rightarrow> slice_ref \<Rightarrow> pa_page" where
  "set_next page v store = store(page := (store page)\<lparr>pg_next := v\<rparr>)"

definition set_prev :: "slice_ref \<Rightarrow> slice_ref option \<Rightarrow> (slice_ref \<Rightarrow> pa_page) \<Rightarrow> slice_ref \<Rightarrow> pa_page" where
  "set_prev page v store = store(page := (store page)\<lparr>pg_prev := v\<rparr>)"

definition set_in_full :: "slice_ref \<Rightarrow> bool \<Rightarrow> (slice_ref \<Rightarrow> pa_page) \<Rightarrow> slice_ref \<Rightarrow> pa_page" where
  "set_in_full page v store = store(page := (store page)\<lparr>pg_in_full := v\<rparr>)"

text \<open>Unlinking a page from the queue it is in, as \<open>pa_page_queue_remove\<close> and
  \<open>pa_page_queue_enqueue_from_ex\<close> do it.\<close>

definition page_queue_unlink :: "pa_heap \<Rightarrow> nat \<Rightarrow> slice_ref \<Rightarrow> pa_heap" where
  "page_queue_unlink heap queue page =
     (let store = hp_store heap;
          store = (case pg_prev (store page) of None \<Rightarrow> store | Some p \<Rightarrow> set_next p (pg_next (store page)) store);
          store = (case pg_next (store page) of None \<Rightarrow> store | Some n \<Rightarrow> set_prev n (pg_prev (store page)) store);
          q = hp_pages heap queue;
          q = (if Some page = pq_last q then q\<lparr>pq_last := pg_prev (store page)\<rparr> else q)
      in if Some page = pq_first q
         then pa_heap_queue_first_update
                (heap\<lparr>hp_store := store, hp_pages := (hp_pages heap)(queue := q\<lparr>pq_first := pg_next (store page)\<rparr>)\<rparr>) queue
         else heap\<lparr>hp_store := store, hp_pages := (hp_pages heap)(queue := q)\<rparr>)"

definition pa_page_queue_remove :: "pa_heap \<Rightarrow> nat \<Rightarrow> slice_ref \<Rightarrow> pa_heap" where
  "pa_page_queue_remove heap queue page =
     (let heap = page_queue_unlink heap queue page;
          store = hp_store heap
      in heap\<lparr>hp_page_count := hp_page_count heap - 1,
              hp_store := set_in_full page False (set_prev page None (set_next page None store))\<rparr>)"

definition pa_page_queue_push :: "pa_heap \<Rightarrow> nat \<Rightarrow> slice_ref \<Rightarrow> pa_heap" where
  "pa_page_queue_push heap queue page =
     (let q = hp_pages heap queue;
          store = set_in_full page (pa_page_queue_is_full q) (hp_store heap);
          store = set_prev page None (set_next page (pq_first q) store);
          (store, q) = (case pq_first q of
              Some f \<Rightarrow> (set_prev f (Some page) store, q\<lparr>pq_first := Some page\<rparr>)
            | None \<Rightarrow> (store, q\<lparr>pq_first := Some page, pq_last := Some page\<rparr>));
          heap = pa_heap_queue_first_update (heap\<lparr>hp_store := store, hp_pages := (hp_pages heap)(queue := q)\<rparr>) queue
      in heap\<lparr>hp_page_count := hp_page_count heap + 1\<rparr>)"

definition pa_page_queue_move_to_front :: "pa_heap \<Rightarrow> nat \<Rightarrow> slice_ref \<Rightarrow> pa_heap" where
  "pa_page_queue_move_to_front heap queue page =
     (if pq_first (hp_pages heap queue) = Some page then heap
      else pa_page_queue_push (pa_page_queue_remove heap queue page) queue page)"

definition page_queue_insert :: "pa_heap \<Rightarrow> nat \<Rightarrow> bool \<Rightarrow> slice_ref \<Rightarrow> pa_heap" where
  "page_queue_insert heap to enqueue_at_end page =
     (let q = hp_pages heap to; store = hp_store heap
      in if enqueue_at_end then
           let store = set_next page None (set_prev page (pq_last q) store)
           in (case pq_last q of
                 Some l \<Rightarrow> heap\<lparr>hp_store := set_next l (Some page) store, hp_pages := (hp_pages heap)(to := q\<lparr>pq_last := Some page\<rparr>)\<rparr>
               | None \<Rightarrow> pa_heap_queue_first_update
                   (heap\<lparr>hp_store := store, hp_pages := (hp_pages heap)(to := q\<lparr>pq_first := Some page, pq_last := Some page\<rparr>)\<rparr>) to)
         else (case pq_first q of
             Some f \<Rightarrow>
               let nxt = pg_next (store f);
                   store = set_next f (Some page) (set_next page nxt (set_prev page (Some f) store))
               in (case nxt of
                     Some n \<Rightarrow> heap\<lparr>hp_store := set_prev n (Some page) store\<rparr>
                   | None \<Rightarrow> heap\<lparr>hp_store := store, hp_pages := (hp_pages heap)(to := q\<lparr>pq_last := Some page\<rparr>)\<rparr>)
           | None \<Rightarrow> pa_heap_queue_first_update
               (heap\<lparr>hp_store := set_next page None (set_prev page None store),
                     hp_pages := (hp_pages heap)(to := q\<lparr>pq_first := Some page, pq_last := Some page\<rparr>)\<rparr>) to))"

definition pa_page_queue_enqueue_from_ex :: "pa_heap \<Rightarrow> nat \<Rightarrow> nat \<Rightarrow> bool \<Rightarrow> slice_ref \<Rightarrow> pa_heap" where
  "pa_page_queue_enqueue_from_ex heap to from_queue enqueue_at_end page =
     (let heap = page_queue_unlink heap from_queue page;
          heap = page_queue_insert heap to enqueue_at_end page
      in heap\<lparr>hp_store := set_in_full page (pa_page_queue_is_full (hp_pages heap to)) (hp_store heap)\<rparr>)"

definition pa_page_queue_enqueue_from :: "pa_heap \<Rightarrow> nat \<Rightarrow> nat \<Rightarrow> slice_ref \<Rightarrow> pa_heap" where
  "pa_page_queue_enqueue_from heap to from_queue page = pa_page_queue_enqueue_from_ex heap to from_queue True page"

definition pa_page_queue_enqueue_from_full :: "pa_heap \<Rightarrow> nat \<Rightarrow> nat \<Rightarrow> slice_ref \<Rightarrow> pa_heap" where
  "pa_page_queue_enqueue_from_full heap to from_queue page = pa_page_queue_enqueue_from_ex heap to from_queue True page"

section \<open>The direct table follows the queues\<close>

text \<open>The block sizes of the queues never change.\<close>

definition queue_sizes_ok :: "pa_heap \<Rightarrow> bool" where
  "queue_sizes_ok heap \<longleftrightarrow> (\<forall>b \<le> PA_BIN_FULL. pq_block_size (hp_pages heap b) = of_nat (pa_bin_size b))"

text \<open>Every small word size finds the first page of its queue in the direct table.\<close>

definition direct_ok :: "pa_heap \<Rightarrow> bool" where
  "direct_ok heap \<longleftrightarrow> (\<forall>w \<le> 128. hp_pages_free_direct heap w = pq_first (hp_pages heap (wbin w)))"

abbreviation W :: "nat \<Rightarrow> nat" where
  "W b \<equiv> page_queue_wsizes ! b"

lemma page_queue_wsizes_sorted: "sorted (take 73 page_queue_wsizes)"
  by (simp add: page_queue_wsizes_def bin_consts)

lemma length_page_queue_wsizes: "length page_queue_wsizes = 75"
  by (simp add: page_queue_wsizes_def)

lemma W_mono: "a \<le> b \<Longrightarrow> b \<le> 72 \<Longrightarrow> W a \<le> W b"
  using sorted_nth_mono [OF page_queue_wsizes_sorted, of a b] by (simp add: length_page_queue_wsizes)

lemma W_special: "W 73 = 8193" "W 74 = 8194"
  by (simp_all add: page_queue_wsizes_def bin_consts)

lemma W_0: "W 0 = 1" "W 72 = 524288"
  by (simp_all add: page_queue_wsizes_def)

lemma W_pos: "b \<le> 74 \<Longrightarrow> 1 \<le> W b"
proof (cases "b \<le> 72")
  case True
  then show ?thesis using W_mono [of 0 b] by (simp only: W_0)
next
  case False
  assume "b \<le> 74"
  then have "b = 73 \<or> b = 74" using False by auto
  then show ?thesis using W_special by auto
qed

lemma W_max: "b \<le> 74 \<Longrightarrow> W b \<le> 524288"
proof (cases "b \<le> 72")
  case True
  then show ?thesis using W_mono [of b 72] by (simp only: W_0)
next
  case False
  assume "b \<le> 74"
  then have "b = 73 \<or> b = 74" using False by auto
  then show ?thesis using W_special by auto
qed

lemma unat_bin_size: "b \<le> 74 \<Longrightarrow> unat (of_nat (pa_bin_size b) :: size_t) = W b * 8"
  using W_max [of b] by (simp add: pa_bin_size_def unat_of_nat del: of_nat_mult)

lemma wsize_of_bin_size: "b \<le> 74 \<Longrightarrow> unat (pa_wsize_from_size (of_nat (pa_bin_size b))) = W b"
  using W_max [of b] unat_bin_size [of b] by (subst unat_pa_wsize) (simp_all add: wsize_nat_def)

lemma pa_bin_of_bin_size: "b \<le> 74 \<Longrightarrow> pa_bin (of_nat (pa_bin_size b)) = wbin (W b)"
  using W_max [of b] unat_bin_size [of b] by (subst pa_bin_eq_wbin) (simp_all add: wsize_nat_def)

text \<open>The word sizes of a bin form an interval that ends at the block size of its queue and starts after that of the last
  queue of a smaller bin.\<close>

lemma skip_same_bin_spec:
  assumes "prev < b" "b \<le> 74" "2 \<le> wbin (W b)" "\<forall>i \<le> 74. bs i = of_nat (pa_bin_size i)" "\<forall>c. prev < c \<and> c < b \<longrightarrow> wbin (W c) = wbin (W b)"
  shows "\<exists>p. skip_same_bin bs (wbin (W b)) prev = p \<and> p < b \<and> wbin (W p) \<noteq> wbin (W b) \<and>
    (\<forall>c. p < c \<and> c < b \<longrightarrow> wbin (W c) = wbin (W b))"
  using assms(1,5)
proof (induction prev)
  case 0
  have "wbin (W 0) = 1" by (simp only: W_0) (simp add: wbin_def)
  then show ?case using 0 assms(3) by auto
next
  case (Suc prev)
  have e: "pa_bin (bs (Suc prev)) = wbin (W (Suc prev))" using Suc.prems(1) assms(2,4) by (simp add: pa_bin_of_bin_size)
  show ?case
  proof (cases "wbin (W b) = wbin (W (Suc prev))")
    case True
    have "\<forall>c. prev < c \<and> c < b \<longrightarrow> wbin (W c) = wbin (W b)"
    proof (intro allI impI)
      fix c assume c: "prev < c \<and> c < b"
      show "wbin (W c) = wbin (W b)"
      proof (cases "c = Suc prev")
        case False
        then have "Suc prev < c \<and> c < b" using c by simp
        then show ?thesis using Suc.prems(2) by blast
      qed (use True in simp)
    qed
    moreover have "skip_same_bin bs (wbin (W b)) (Suc prev) = skip_same_bin bs (wbin (W b)) prev"
      unfolding skip_same_bin.simps e using True by (rule if_P)
    ultimately show ?thesis using Suc.IH Suc.prems(1) by (metis Suc_lessD)
  next
    case False
    then have "skip_same_bin bs (wbin (W b)) (Suc prev) = Suc prev" unfolding skip_same_bin.simps e by (rule if_not_P)
    then show ?thesis using Suc.prems False by metis
  qed
qed

lemma bin_interval:
  assumes "w0 \<le> 8192" "b = wbin w0" "p < b" "wbin (W p) \<noteq> b" "\<forall>c. p < c \<and> c < b \<longrightarrow> wbin (W c) = b" "w \<le> 8192"
  shows "wbin w = b \<longleftrightarrow> W p < w \<and> w \<le> W b"
proof -
  have b: "b \<le> 48" "wbin (W b) = b" using wbin_le [OF assms(1)] wbin_table [OF assms(1)] assms(2) by simp_all
  have w: "w \<le> W (wbin w)" "wbin w \<le> 48" using wbin_fits [OF assms(6)] wbin_le [OF assms(6)] by simp_all
  have pb: "wbin (W p) < b"
    using wbin_mono [OF W_mono [of p b]] assms(3,4) b by simp
  show ?thesis
  proof
    assume wb: "wbin w = b"
    have "W p < w" using wbin_mono [of w "W p"] pb wb by (metis not_le)
    then show "W p < w \<and> w \<le> W b" using w(1) wb by simp
  next
    assume r: "W p < w \<and> w \<le> W b"
    have le: "wbin w \<le> b" using wbin_mono [of w "W b"] r b(2) by simp
    show "wbin w = b"
    proof (rule ccontr)
      assume "wbin w \<noteq> b"
      then have lt: "wbin w < b" using le by simp
      have "p < wbin w"
      proof (rule ccontr)
        assume "\<not> p < wbin w"
        then have "W (wbin w) \<le> W p" using assms(3) b(1) by (intro W_mono) simp_all
        then show False using w(1) r by simp
      qed
      then have "wbin (W (wbin w)) = b" using assms(5) lt by simp
      then show False using wbin_table [OF assms(6)] lt by simp
    qed
  qed
qed

definition direct_uniform :: "pa_heap \<Rightarrow> bool" where
  "direct_uniform heap \<longleftrightarrow> (\<forall>w \<le> 128. hp_pages_free_direct heap w = hp_pages_free_direct heap (W (wbin w)))"

lemma wbin_128: "wbin 128 = 24" "W 24 = 128"
  using wbin_eqI [of 6 3 128] by (simp_all add: page_queue_wsizes_def)

lemma W_wbin_128: "w \<le> 128 \<Longrightarrow> W (wbin w) \<le> 128"
proof -
  assume "w \<le> 128"
  then have "wbin w \<le> 24" using wbin_mono [of w 128] by (simp only: wbin_128)
  then have "W (wbin w) \<le> W 24" by (intro W_mono) simp_all
  then show ?thesis by (simp only: wbin_128)
qed

lemma direct_ok_uniform: "direct_ok heap \<Longrightarrow> direct_uniform heap"
proof -
  assume d: "direct_ok heap"
  have "hp_pages_free_direct heap w = hp_pages_free_direct heap (W (wbin w))" if "w \<le> 128" for w
  proof -
    have "wbin (W (wbin w)) = wbin w" using that by (intro wbin_table) simp
    then show ?thesis using d that W_wbin_128 [OF that] by (simp add: direct_ok_def)
  qed
  then show ?thesis by (simp add: direct_uniform_def)
qed

lemma first_update_direct:
  assumes sz: "queue_sizes_ok heap" and uni: "direct_uniform heap" and b: "w0 \<le> 8192" "b = wbin w0"
  shows "\<exists>d. pa_heap_queue_first_update heap b = heap\<lparr>hp_pages_free_direct := d\<rparr> \<and>
    (\<forall>w \<le> 128. d w = (if wbin w = b then pq_first (hp_pages heap b) else hp_pages_free_direct heap w))"
proof -
  have b48: "1 \<le> b" "b \<le> 48" "wbin (W b) = b" using wbin_le [OF b(1)] wbin_table [OF b(1)] b(2) by simp_all
  have bs: "pq_block_size (hp_pages heap i) = of_nat (pa_bin_size i)" if "i \<le> 74" for i
    using sz that by (simp add: queue_sizes_ok_def bin_consts)
  have small: "of_nat PA_SMALL_SIZE_MAX < pq_block_size (hp_pages heap b) \<longleftrightarrow> 128 < W b"
    using bs [of b] b48(2) unat_bin_size [of b] by (simp add: word_less_nat_alt bin_consts)
  define page where "page = pq_first (hp_pages heap b)"
  define d where "d = hp_pages_free_direct heap"
  have idx: "unat (pa_wsize_from_size (pq_block_size (hp_pages heap b))) = W b" using bs [of b] b48(2) wsize_of_bin_size by simp
  consider (large) "128 < W b" | (set) "W b \<le> 128" "d (W b) = page" | (one) "W b \<le> 1" "d (W b) \<noteq> page"
    | (range) "W b \<le> 128" "1 < W b" "d (W b) \<noteq> page" by linarith
  then show ?thesis
  proof cases
    case large
    then have "pa_heap_queue_first_update heap b = heap\<lparr>hp_pages_free_direct := d\<rparr>"
      using small by (simp add: pa_heap_queue_first_update_def d_def)
    moreover have "wbin w \<noteq> b" if "w \<le> 128" for w using W_wbin_128 [OF that] large by auto
    ultimately show ?thesis by (intro exI [of _ d]) (auto simp: d_def)
  next
    case set
    then have "pa_heap_queue_first_update heap b = heap\<lparr>hp_pages_free_direct := d\<rparr>"
      using small idx by (simp add: pa_heap_queue_first_update_def d_def page_def)
    moreover have "d w = page" if "w \<le> 128" "wbin w = b" for w using uni that set by (auto simp: direct_uniform_def d_def)
    ultimately show ?thesis by (intro exI [of _ d]) (auto simp: d_def page_def)
  next
    case one
    have W1: "W b = 1" using one(1) W_pos [of b] b48(2) by simp
    then have "b = 1" using b48(3) by (simp add: wbin_def)
    have "wbin w = b \<longleftrightarrow> w \<le> 1" if "w \<le> 128" for w
      using wbin_mono [of 2 w] \<open>b = 1\<close> by (cases "w \<le> 1") (auto simp: wbin_def)
    moreover have "pa_heap_queue_first_update heap b = heap\<lparr>hp_pages_free_direct := (\<lambda>i. if i \<le> 1 then page else d i)\<rparr>"
      using small one unfolding pa_heap_queue_first_update_def Let_def idx W1 d_def [symmetric] page_def [symmetric] by simp
    ultimately show ?thesis by (auto simp: d_def page_def)
  next
    case range
    have two: "2 \<le> wbin (W b)" using wbin_mono [of 2 "W b"] range(2) by (simp add: wbin_def)
    define bsf where "bsf = (\<lambda>i. pq_block_size (hp_pages heap i))"
    obtain p where p: "skip_same_bin bsf (wbin (W b)) (b - 1) = p" "p < b" "wbin (W p) \<noteq> wbin (W b)"
      "\<forall>c. p < c \<and> c < b \<longrightarrow> wbin (W c) = wbin (W b)"
    proof -
      have "\<forall>i \<le> 74. bsf i = of_nat (pa_bin_size i)" using bs by (simp add: bsf_def)
      moreover have "\<forall>c. b - 1 < c \<and> c < b \<longrightarrow> wbin (W c) = wbin (W b)" by auto
      ultimately show ?thesis using skip_same_bin_spec [of "b - 1" b bsf] b48 two that by force
    qed
    have iv: "wbin w = b \<longleftrightarrow> W p < w \<and> w \<le> W b" if "w \<le> 128" for w
      using bin_interval [OF b p(2), of w] p(3,4) b48(3) that by simp
    have start: "(if W b < 1 + W p then W b else 1 + W p) = 1 + W p"
      using iv [of "W b"] range(1) b48(3) by simp
    have "pa_heap_queue_first_update heap b = heap\<lparr>hp_pages_free_direct := (\<lambda>i. if 1 + W p \<le> i \<and> i \<le> W b then page else d i)\<rparr>"
    proof -
      have pb: "pa_bin (pq_block_size (hp_pages heap b)) = wbin (W b)" using bs [of b] b48(2) by (simp add: pa_bin_of_bin_size)
      have wp: "unat (pa_wsize_from_size (pq_block_size (hp_pages heap p))) = W p"
        using bs [of p] p(2) b48(2) wsize_of_bin_size [of p] by simp
      show ?thesis unfolding pa_heap_queue_first_update_def Let_def idx pb bsf_def [symmetric] p(1) wp start d_def [symmetric] page_def [symmetric]
        using small range by simp
    qed
    then show ?thesis using iv by (auto simp: d_def page_def)
  qed
qed

section \<open>The queues as lists\<close>

abbreviation get_next :: "(slice_ref \<Rightarrow> pa_page) \<Rightarrow> slice_ref \<Rightarrow> slice_ref option" where
  "get_next s r \<equiv> pg_next (s r)"

abbreviation get_prev :: "(slice_ref \<Rightarrow> pa_page) \<Rightarrow> slice_ref \<Rightarrow> slice_ref option" where
  "get_prev s r \<equiv> pg_prev (s r)"

interpretation pages: dll_store get_next get_prev set_next set_prev
  by unfold_locales (auto simp: set_next_def set_prev_def fun_eq_iff)

text \<open>The abstract view of a heap: a list of pages for every queue.\<close>

definition queues_inv :: "pa_heap \<Rightarrow> (nat \<Rightarrow> slice_ref list) \<Rightarrow> bool" where
  "queues_inv heap qs \<longleftrightarrow>
     (\<forall>b \<le> PA_BIN_FULL. pages.dll (hp_store heap) (pq_first (hp_pages heap b)) (pq_last (hp_pages heap b)) (qs b)) \<and>
     (\<forall>b \<le> PA_BIN_FULL. \<forall>c \<le> PA_BIN_FULL. b \<noteq> c \<longrightarrow> set (qs b) \<inter> set (qs c) = {}) \<and>
     queue_sizes_ok heap \<and> direct_ok heap"

lemma queues_invD:
  assumes "queues_inv heap qs" "b \<le> PA_BIN_FULL"
  shows "pages.dll (hp_store heap) (pq_first (hp_pages heap b)) (pq_last (hp_pages heap b)) (qs b)"
    "pq_first (hp_pages heap b) = first_of (qs b)" "pq_last (hp_pages heap b) = last_of (qs b)" "distinct (qs b)"
  using assms by (auto simp: queues_inv_def dest: pages.dll_ends)

text \<open>Changing one queue and the links of the pages in it.\<close>

lemma queues_inv_change:
  assumes inv: "queues_inv heap qs" and b: "b \<le> PA_BIN_FULL"
    and dll: "pages.dll store (pq_first q) (pq_last q) xs"
    and frame: "\<And>r. r \<notin> set (qs b) \<union> set xs \<Longrightarrow> store r = hp_store heap r"
    and fresh: "set xs \<subseteq> set (qs b) \<union> R" "\<And>c. c \<le> PA_BIN_FULL \<Longrightarrow> c \<noteq> b \<Longrightarrow> set (qs c) \<inter> R = {}"
    and sz: "pq_block_size q = pq_block_size (hp_pages heap b)"
    and h: "hp_store heap' = store" "hp_pages heap' = (hp_pages heap)(b := q)"
    and d: "\<And>w. w \<le> 128 \<Longrightarrow> hp_pages_free_direct heap' w = (if wbin w = b then pq_first q else hp_pages_free_direct heap w)"
  shows "queues_inv heap' (qs(b := xs))"
proof -
  have dj: "set (qs c) \<inter> (set (qs b) \<union> set xs) = {}" if "c \<le> PA_BIN_FULL" "c \<noteq> b" for c
  proof -
    have "set (qs c) \<inter> set (qs b) = {}" using inv b that unfolding queues_inv_def by blast
    moreover have "set (qs c) \<inter> R = {}" using fresh(2) that by blast
    ultimately show ?thesis using fresh(1) by blast
  qed
  have "pages.dll store (pq_first (hp_pages heap c)) (pq_last (hp_pages heap c)) (qs c)" if "c \<le> PA_BIN_FULL" "c \<noteq> b" for c
  proof -
    have same: "store r = hp_store heap r" if "r \<in> set (qs c)" for r
      using frame dj [OF \<open>c \<le> PA_BIN_FULL\<close> \<open>c \<noteq> b\<close>] that by blast
    then show ?thesis using queues_invD(1) [OF inv that(1)]
      pages.dll_cong_on [of "qs c" store "hp_store heap"] by simp
  qed
  moreover have "direct_ok heap'" using inv d h by (auto simp: queues_inv_def direct_ok_def)
  moreover have "queue_sizes_ok heap'" using inv sz h by (auto simp: queues_inv_def queue_sizes_ok_def)
  ultimately show ?thesis using inv dll h dj b unfolding queues_inv_def by (auto simp: Int_commute)
qed

text \<open>The queues in use: those of a size class, the huge queue and the full queue.\<close>

definition reach_bin :: "nat \<Rightarrow> bool" where
  "reach_bin b \<longleftrightarrow> (\<exists>w \<le> 8192. b = wbin w) \<or> b = PA_BIN_HUGE \<or> b = PA_BIN_FULL"

lemma reach_bin_le: "reach_bin b \<Longrightarrow> b \<le> PA_BIN_FULL"
  using wbin_le by (fastforce simp: reach_bin_def bin_consts)

lemma reach_page_bin: "reach_bin (pa_page_bin page)" if "unat (pg_block_size page) + 8 < 2 ^ 64"
proof -
  have "reach_bin (wbin w)" for w
    using wbin_def [of w] by (cases "w \<le> 8192") (auto simp: reach_bin_def bin_consts)
  then show ?thesis using pa_bin_eq_wbin [OF that] by (simp add: pa_page_bin_def reach_bin_def)
qed

lemma first_update_spec:
  assumes sz: "queue_sizes_ok heap" and uni: "direct_uniform heap" and b: "reach_bin b"
  shows "\<exists>d. pa_heap_queue_first_update heap b = heap\<lparr>hp_pages_free_direct := d\<rparr> \<and>
    (\<forall>w \<le> 128. d w = (if wbin w = b then pq_first (hp_pages heap b) else hp_pages_free_direct heap w))"
proof (cases "\<exists>w \<le> 8192. b = wbin w")
  case True
  then show ?thesis using first_update_direct [OF sz uni] by blast
next
  case False
  then have b': "b = 73 \<or> b = 74" using b unfolding reach_bin_def bin_consts by auto
  have "of_nat PA_SMALL_SIZE_MAX < pq_block_size (hp_pages heap b)"
    using sz b' W_special unat_bin_size [of b] by (auto simp: queue_sizes_ok_def word_less_nat_alt bin_consts)
  then have "pa_heap_queue_first_update heap b = heap\<lparr>hp_pages_free_direct := hp_pages_free_direct heap\<rparr>"
    by (simp add: pa_heap_queue_first_update_def)
  moreover have "wbin w \<noteq> b" if "w \<le> 128" for w
  proof -
    have "w \<le> 8192" using that by simp
    then show ?thesis using False by blast
  qed
  ultimately show ?thesis by (intro exI [of _ "hp_pages_free_direct heap"]) simp
qed

lemma wbin_not_special: "w \<le> 8192 \<Longrightarrow> W (wbin w) \<le> 8192"
proof -
  assume "w \<le> 8192"
  then have "W (wbin w) \<le> W 48" using wbin_le by (intro W_mono) auto
  then show ?thesis by (simp add: page_queue_wsizes_def)
qed

lemma queue_is_full_iff:
  assumes "queue_sizes_ok heap" "reach_bin b"
  shows "pa_page_queue_is_full (hp_pages heap b) \<longleftrightarrow> b = PA_BIN_FULL"
proof -
  have le: "b \<le> 74" using reach_bin_le [OF assms(2)] by (simp add: bin_consts)
  then have bs: "unat (pq_block_size (hp_pages heap b)) = W b * 8"
    using assms(1) unat_bin_size [of b] by (simp add: queue_sizes_ok_def bin_consts)
  have "pa_page_queue_is_full (hp_pages heap b) \<longleftrightarrow> W b = 8194"
    by (simp add: pa_page_queue_is_full_def word_unat_eq_iff bs bin_consts)
  also have "\<dots> \<longleftrightarrow> b = 74"
  proof
    assume e: "W b = 8194"
    have "b \<noteq> wbin w" if "w \<le> 8192" for w using wbin_not_special [OF that] e by auto
    then have "b = 73 \<or> b = 74" using assms(2) unfolding reach_bin_def bin_consts by auto
    then show "b = 74" using e W_special by auto
  qed (simp add: W_special)
  finally show ?thesis by (simp add: bin_consts)
qed

definition page_core :: "pa_page \<Rightarrow> pa_page" where
  "page_core page = page\<lparr>pg_next := None, pg_prev := None\<rparr>"

lemma page_core_set [simp]:
  "page_core (set_next x v s r) = page_core (s r)" "page_core (set_prev x v s r) = page_core (s r)"
  by (simp_all add: page_core_def set_next_def set_prev_def)

lemma page_core_in_full [simp]:
  "page_core (set_in_full x v s r) = (if r = x then (page_core (s r))\<lparr>pg_in_full := v\<rparr> else page_core (s r))"
  by (simp add: page_core_def set_in_full_def)

lemma page_queue_unlink_spec:
  assumes inv: "queues_inv heap qs" and b: "reach_bin b" and qs: "qs b = ys @ r # zs"
  shows "\<exists>d s q. page_queue_unlink heap b r = heap\<lparr>hp_store := s, hp_pages := (hp_pages heap)(b := q), hp_pages_free_direct := d\<rparr> \<and>
    queues_inv (page_queue_unlink heap b r) (qs(b := ys @ zs)) \<and> pq_block_size q = pq_block_size (hp_pages heap b) \<and>
    (\<forall>x. page_core (s x) = page_core (hp_store heap x)) \<and> (\<forall>x. x \<notin> set (qs b) \<longrightarrow> s x = hp_store heap x)"
proof -
  have bf: "b \<le> PA_BIN_FULL" by (rule reach_bin_le [OF b])
  define q0 where "q0 = hp_pages heap b"
  note D = queues_invD [OF inv bf, folded q0_def]
  define s where "s = pages.unlink r (hp_store heap)"
  note nb = pages.dll_neighbours [OF D(1) [unfolded qs]]
  note U = pages.unlink_dll [OF D(1) [unfolded qs]]
  have d: "distinct (ys @ r # zs)" using D(4) qs by simp
  have sr: "pg_next (s r) = first_of zs" "pg_prev (s r) = last_of ys"
  proof -
    have f: "get_next s = (if ys = [] then get_next (hp_store heap) else (get_next (hp_store heap))(last ys := first_of zs))"
      "get_prev s = (if zs = [] then get_prev (hp_store heap) else (get_prev (hp_store heap))(hd zs := last_of ys))"
      unfolding s_def by (rule pages.unlink_fields [OF D(1) [unfolded qs]])+
    have "ys \<noteq> [] \<Longrightarrow> r \<noteq> last ys" "zs \<noteq> [] \<Longrightarrow> r \<noteq> hd zs" using d by auto
    then show "pg_next (s r) = first_of zs" "pg_prev (s r) = last_of ys"
      using nb fun_cong [OF f(1), of r] fun_cong [OF f(2), of r] by (auto split: if_splits)
  qed
  define q where "q = q0\<lparr>pq_last := (if zs = [] then last_of ys else pq_last q0), pq_first := (if ys = [] then first_of zs else pq_first q0)\<rparr>"
  define h1 where "h1 = heap\<lparr>hp_store := s, hp_pages := (hp_pages heap)(b := q)\<rparr>"
  have lst: "Some r = pq_last q0 \<longleftrightarrow> zs = []" and frst: "Some r = pq_first q0 \<longleftrightarrow> ys = []"
    using D(2,3) d by (auto simp: qs last_of_append last_of_Cons first_of_append dest: first_of_mem [OF sym] last_of_mem [OF sym] split: if_splits)
  have un: "page_queue_unlink heap b r = (if ys = [] then pa_heap_queue_first_update h1 b else h1)"
    unfolding page_queue_unlink_def Let_def pages.unlink_def [unfolded Let_def, symmetric] s_def [symmetric] q0_def [symmetric] lst sr
    using frst by (cases "ys = []"; cases "zs = []") (simp_all add: h1_def q_def)
  have szs: "queue_sizes_ok heap" and dok: "direct_ok heap" using inv by (simp_all add: queues_inv_def)
  have sz1: "queue_sizes_ok h1" using szs by (auto simp: h1_def queue_sizes_ok_def q_def q0_def)
  have uni1: "direct_uniform h1" using direct_ok_uniform [OF dok] by (simp add: direct_uniform_def h1_def)
  obtain e where e: "page_queue_unlink heap b r = h1\<lparr>hp_pages_free_direct := e\<rparr>"
    "\<And>w. w \<le> 128 \<Longrightarrow> e w = (if wbin w = b then pq_first q else hp_pages_free_direct heap w)"
  proof (cases "ys = []")
    case True
    then show ?thesis using first_update_spec [OF sz1 uni1 b] un that by (auto simp: h1_def)
  next
    case False
    then have "page_queue_unlink heap b r = h1\<lparr>hp_pages_free_direct := hp_pages_free_direct heap\<rparr>" using un by (simp add: h1_def)
    then show ?thesis using that dok False by (auto simp: direct_ok_def q_def q0_def)
  qed
  have fr: "s x = hp_store heap x" if "x \<notin> set (qs b)" for x
  proof -
    have "x \<noteq> p" if "last_of ys = Some p" for p using \<open>x \<notin> set (qs b)\<close> last_of_mem [OF that] qs by auto
    moreover have "x \<noteq> p" if "first_of zs = Some p" for p using \<open>x \<notin> set (qs b)\<close> first_of_mem [OF that] qs by auto
    ultimately show ?thesis using nb unfolding s_def pages.unlink_def Let_def
      by (auto simp: set_next_def set_prev_def split: option.splits)
  qed
  have core: "page_core (s x) = page_core (hp_store heap x)" for x
    unfolding s_def pages.unlink_def Let_def by (auto split: option.splits)
  have "queues_inv (page_queue_unlink heap b r) (qs(b := ys @ zs))"
    by (rule queues_inv_change [OF inv bf, where store = s and q = q and R = "{}"])
       (use U e fr qs in \<open>auto simp: h1_def q_def q0_def s_def\<close>)
  moreover have "page_queue_unlink heap b r = heap\<lparr>hp_store := s, hp_pages := (hp_pages heap)(b := q), hp_pages_free_direct := e\<rparr>"
    using e(1) by (simp add: h1_def)
  moreover have "pq_block_size q = pq_block_size (hp_pages heap b)" by (simp add: q_def q0_def)
  ultimately show ?thesis using core fr by blast
qed

text \<open>Every operation is the list operation it stands for.\<close>

definition page_linked :: "pa_heap \<Rightarrow> (nat \<Rightarrow> slice_ref list) \<Rightarrow> slice_ref \<Rightarrow> bool" where
  "page_linked heap qs r \<longleftrightarrow> (\<exists>b \<le> PA_BIN_FULL. r \<in> set (qs b))"

lemma queues_inv_store:
  assumes "queues_inv heap qs" "\<forall>x. get_next s x = get_next (hp_store heap) x" "\<forall>x. get_prev s x = get_prev (hp_store heap) x"
  shows "queues_inv (heap\<lparr>hp_store := s\<rparr>) qs"
proof -
  have "get_next s = get_next (hp_store heap)" "get_prev s = get_prev (hp_store heap)" using assms(2,3) by auto
  then have "pages.dll s f l xs = pages.dll (hp_store heap) f l xs" for f l xs by (rule pages.dll_cong)
  then show ?thesis using assms(1) by (simp add: queues_inv_def queue_sizes_ok_def direct_ok_def)
qed

lemma queues_inv_unlinked:
  assumes "queues_inv heap qs" "\<not> page_linked heap qs r"
  shows "queues_inv (heap\<lparr>hp_store := set_next r v (hp_store heap)\<rparr>) qs" "queues_inv (heap\<lparr>hp_store := set_prev r v (hp_store heap)\<rparr>) qs"
proof -
  have "pages.dll (set_next r v (hp_store heap)) f l (qs b) = pages.dll (hp_store heap) f l (qs b)"
    "pages.dll (set_prev r v (hp_store heap)) f l (qs b) = pages.dll (hp_store heap) f l (qs b)" if "b \<le> PA_BIN_FULL" for f l b
    using assms(2) that by (auto simp: page_linked_def pages.dll_frame)
  then show "queues_inv (heap\<lparr>hp_store := set_next r v (hp_store heap)\<rparr>) qs" "queues_inv (heap\<lparr>hp_store := set_prev r v (hp_store heap)\<rparr>) qs"
    using assms(1) by (simp_all add: queues_inv_def queue_sizes_ok_def direct_ok_def)
qed

lemma queues_inv_count: "queues_inv (heap\<lparr>hp_page_count := n\<rparr>) qs = queues_inv heap qs"
  by (simp add: queues_inv_def queue_sizes_ok_def direct_ok_def)

lemma not_linked_removed:
  assumes "queues_inv heap qs" "b \<le> PA_BIN_FULL" "qs b = ys @ r # zs"
  shows "\<not> page_linked heap' (qs(b := ys @ zs)) r"
proof -
  have "distinct (ys @ r # zs)" using queues_invD(4) [OF assms(1,2)] assms(3) by simp
  moreover have "r \<notin> set (qs c)" if "c \<le> PA_BIN_FULL" "c \<noteq> b" for c
  proof -
    have "set (qs c) \<inter> set (qs b) = {}" using assms(1,2) that unfolding queues_inv_def by blast
    then show ?thesis using assms(3) by auto
  qed
  ultimately show ?thesis by (auto simp: page_linked_def)
qed

lemma page_queue_remove_spec:
  assumes inv: "queues_inv heap qs" and b: "reach_bin b" and qs: "qs b = ys @ r # zs"
  shows "queues_inv (pa_page_queue_remove heap b r) (qs(b := ys @ zs)) \<and>
    hp_page_count (pa_page_queue_remove heap b r) = hp_page_count heap - 1 \<and>
    \<not> pg_in_full (hp_store (pa_page_queue_remove heap b r) r) \<and>
    (\<forall>x. page_core (hp_store (pa_page_queue_remove heap b r) x) =
       (if x = r then page_core (hp_store heap x)\<lparr>pg_in_full := False\<rparr> else page_core (hp_store heap x))) \<and>
    pq_block_size (hp_pages (pa_page_queue_remove heap b r) c) = pq_block_size (hp_pages heap c)"
proof -
  obtain d s q where U: "page_queue_unlink heap b r = heap\<lparr>hp_store := s, hp_pages := (hp_pages heap)(b := q), hp_pages_free_direct := d\<rparr>"
    "queues_inv (page_queue_unlink heap b r) (qs(b := ys @ zs))" "pq_block_size q = pq_block_size (hp_pages heap b)"
    "\<forall>x. page_core (s x) = page_core (hp_store heap x)"
    using page_queue_unlink_spec [OF inv b qs] by blast
  define h1 where "h1 = page_queue_unlink heap b r"
  have s1: "hp_store h1 = s" by (simp add: h1_def U(1))
  have nl: "\<not> page_linked h (qs(b := ys @ zs)) r" for h by (rule not_linked_removed [OF inv reach_bin_le [OF b] qs])
  define h2 where "h2 = h1\<lparr>hp_store := set_next r None s\<rparr>"
  have I2: "queues_inv h2 (qs(b := ys @ zs))" using queues_inv_unlinked(1) [OF U(2) [folded h1_def] nl] by (simp add: h2_def s1)
  define h3 where "h3 = h2\<lparr>hp_store := set_prev r None (set_next r None s)\<rparr>"
  have I3: "queues_inv h3 (qs(b := ys @ zs))" using queues_inv_unlinked(2) [OF I2 nl] by (simp add: h3_def h2_def)
  define h4 where "h4 = h3\<lparr>hp_store := set_in_full r False (set_prev r None (set_next r None s))\<rparr>"
  have I4: "queues_inv h4 (qs(b := ys @ zs))"
    unfolding h4_def by (rule queues_inv_store [OF I3]) (simp_all add: h3_def set_in_full_def)
  have r: "pa_page_queue_remove heap b r = h4\<lparr>hp_page_count := hp_page_count heap - 1\<rparr>"
    by (simp add: pa_page_queue_remove_def Let_def h1_def [symmetric] s1 h4_def h3_def h2_def) (simp add: h1_def U(1))
  have "queues_inv (pa_page_queue_remove heap b r) (qs(b := ys @ zs))" unfolding r using I4 by (simp add: queues_inv_count)
  moreover have "hp_pages h4 = (hp_pages heap)(b := q)" by (simp add: h4_def h3_def h2_def h1_def U(1))
  moreover have "page_core (hp_store h4 x) = (if x = r then page_core (hp_store heap x)\<lparr>pg_in_full := False\<rparr> else page_core (hp_store heap x))" for x
    using U(4) [rule_format, of x] by (cases "x = r") (simp_all add: h4_def)
  moreover have "\<not> pg_in_full (hp_store h4 r)" by (simp add: h4_def set_in_full_def)
  ultimately show ?thesis using U(3) by (simp add: r)
qed

lemma page_queue_push_spec:
  assumes inv: "queues_inv heap qs" and b: "reach_bin b" and nl: "\<not> page_linked heap qs r"
  shows "queues_inv (pa_page_queue_push heap b r) (qs(b := r # qs b)) \<and>
    hp_page_count (pa_page_queue_push heap b r) = hp_page_count heap + 1 \<and>
    (pg_in_full (hp_store (pa_page_queue_push heap b r) r) \<longleftrightarrow> b = PA_BIN_FULL)"
proof -
  have bf: "b \<le> PA_BIN_FULL" by (rule reach_bin_le [OF b])
  define q0 where "q0 = hp_pages heap b"
  define s0 where "s0 = set_in_full r (pa_page_queue_is_full q0) (hp_store heap)"
  have I0: "queues_inv (heap\<lparr>hp_store := s0\<rparr>) qs" by (rule queues_inv_store [OF inv]) (simp_all add: s0_def set_in_full_def)
  note D = queues_invD [OF I0 bf, simplified, folded q0_def]
  have rn: "r \<notin> set (qs b)" using nl bf by (auto simp: page_linked_def)
  note P = pages.push_front_dll [OF D(1) rn]
  define s where "s = (case pq_first q0 of None \<Rightarrow> id | Some y \<Rightarrow> set_prev y (Some r)) (set_prev r None (set_next r (pq_first q0) s0))"
  define q where "q = q0\<lparr>pq_first := Some r, pq_last := (case pq_first q0 of None \<Rightarrow> Some r | Some _ \<Rightarrow> pq_last q0)\<rparr>"
  define h1 where "h1 = heap\<lparr>hp_store := s, hp_pages := (hp_pages heap)(b := q)\<rparr>"
  have p: "pa_page_queue_push heap b r = (pa_heap_queue_first_update h1 b)\<lparr>hp_page_count := hp_page_count (pa_heap_queue_first_update h1 b) + 1\<rparr>"
    unfolding pa_page_queue_push_def Let_def q0_def [symmetric] s0_def [symmetric]
    by (cases "pq_first q0") (simp_all add: h1_def s_def q_def)
  have szs: "queue_sizes_ok heap" and dok: "direct_ok heap" using inv by (simp_all add: queues_inv_def)
  have sz1: "queue_sizes_ok h1" using szs by (auto simp: h1_def queue_sizes_ok_def q_def q0_def)
  have uni1: "direct_uniform h1" using direct_ok_uniform [OF dok] by (simp add: direct_uniform_def h1_def)
  obtain d where d: "pa_heap_queue_first_update h1 b = h1\<lparr>hp_pages_free_direct := d\<rparr>"
    "\<And>w. w \<le> 128 \<Longrightarrow> d w = (if wbin w = b then pq_first q else hp_pages_free_direct heap w)"
    using first_update_spec [OF sz1 uni1 b] by (auto simp: h1_def)
  have fr: "s x = hp_store heap x" if "x \<notin> set (qs b) \<union> set (r # qs b)" for x
  proof -
    have "x \<noteq> r" "pq_first q0 = Some y \<Longrightarrow> x \<noteq> y" for y
      using that D(2) first_of_mem [of "qs b" y] by auto
    then show ?thesis by (cases "pq_first q0") (simp_all add: s_def s0_def set_next_def set_prev_def set_in_full_def)
  qed
  have "queues_inv (pa_page_queue_push heap b r) (qs(b := r # qs b))"
    by (rule queues_inv_change [OF inv bf, where store = s and q = q and R = "{r}"])
       (use P d fr nl in \<open>auto simp: p h1_def q_def q0_def s_def page_linked_def\<close>)
  moreover have "pg_in_full (s r) = pa_page_queue_is_full q0"
    by (cases "pq_first q0") (simp_all add: s_def s0_def set_next_def set_prev_def set_in_full_def)
  moreover have "pa_page_queue_is_full q0 \<longleftrightarrow> b = PA_BIN_FULL" by (rule queue_is_full_iff [OF szs b, folded q0_def])
  ultimately show ?thesis unfolding p d(1) by (simp add: h1_def)
qed

lemma page_queue_enqueue_spec:
  assumes inv: "queues_inv heap qs" and b: "reach_bin b" "reach_bin c" "b \<noteq> c" and qs: "qs b = ys @ r # zs"
  shows "queues_inv (pa_page_queue_enqueue_from_ex heap c b at_end r)
      (qs(b := ys @ zs, c := (if at_end \<or> qs c = [] then qs c @ [r] else hd (qs c) # r # List.tl (qs c)))) \<and>
    hp_page_count (pa_page_queue_enqueue_from_ex heap c b at_end r) = hp_page_count heap \<and>
    (pg_in_full (hp_store (pa_page_queue_enqueue_from_ex heap c b at_end r) r) \<longleftrightarrow> c = PA_BIN_FULL)"
proof -
  have cf: "c \<le> PA_BIN_FULL" by (rule reach_bin_le [OF b(2)])
  obtain d s1 q1 where U: "page_queue_unlink heap b r = heap\<lparr>hp_store := s1, hp_pages := (hp_pages heap)(b := q1), hp_pages_free_direct := d\<rparr>"
    "queues_inv (page_queue_unlink heap b r) (qs(b := ys @ zs))" "pq_block_size q1 = pq_block_size (hp_pages heap b)"
    using page_queue_unlink_spec [OF inv b(1) qs] by blast
  define h where "h = page_queue_unlink heap b r"
  define ps where "ps = qs(b := ys @ zs)"
  have I: "queues_inv h ps" using U(2) by (simp add: h_def ps_def)
  have nl: "\<not> page_linked h ps r" unfolding ps_def by (rule not_linked_removed [OF inv reach_bin_le [OF b(1)] qs])
  define q where "q = hp_pages h c"
  define s0 where "s0 = hp_store h"
  note D = queues_invD [OF I cf, folded q_def s0_def]
  have rn: "r \<notin> set (ps c)" using nl cf by (auto simp: page_linked_def)
  have psc: "ps c = qs c" using b(3) by (simp add: ps_def)
  have szs: "queue_sizes_ok h" and dok: "direct_ok h" using I by (simp_all add: queues_inv_def)
  have dir: "hp_pages_free_direct h w = pq_first q" if "w \<le> 128" "wbin w = c" for w
    using dok that by (auto simp: direct_ok_def q_def)
  text \<open>Whatever list results, the heap after the insertion satisfies the invariant for it.\<close>
  have fin: "\<exists>d. page_queue_insert h c at_end r = h\<lparr>hp_store := s, hp_pages := (hp_pages h)(c := q'), hp_pages_free_direct := d\<rparr> \<and>
      queues_inv (page_queue_insert h c at_end r) (ps(c := xs))"
    if dl: "pages.dll s (pq_first q') (pq_last q') xs" and fr: "\<And>x. x \<notin> set (ps c) \<union> set xs \<Longrightarrow> s x = s0 x"
      and sub: "set xs \<subseteq> set (ps c) \<union> {r}" and sz: "pq_block_size q' = pq_block_size q"
      and ins: "page_queue_insert h c at_end r = pa_heap_queue_first_update (h\<lparr>hp_store := s, hp_pages := (hp_pages h)(c := q')\<rparr>) c \<or>
        (page_queue_insert h c at_end r = h\<lparr>hp_store := s, hp_pages := (hp_pages h)(c := q')\<rparr> \<and> pq_first q' = pq_first q)"
    for s q' xs
  proof -
    define h1 where "h1 = h\<lparr>hp_store := s, hp_pages := (hp_pages h)(c := q')\<rparr>"
    have sz1: "queue_sizes_ok h1" using szs sz by (auto simp: h1_def queue_sizes_ok_def q_def)
    have uni1: "direct_uniform h1" using direct_ok_uniform [OF dok] by (simp add: direct_uniform_def h1_def)
    obtain e where e: "page_queue_insert h c at_end r = h1\<lparr>hp_pages_free_direct := e\<rparr>"
      "\<And>w. w \<le> 128 \<Longrightarrow> e w = (if wbin w = c then pq_first q' else hp_pages_free_direct h w)"
    proof (cases "page_queue_insert h c at_end r = pa_heap_queue_first_update h1 c")
      case True
      then show ?thesis using first_update_spec [OF sz1 uni1 b(2)] that by (auto simp: h1_def)
    next
      case False
      then have "page_queue_insert h c at_end r = h1\<lparr>hp_pages_free_direct := hp_pages_free_direct h\<rparr>" "pq_first q' = pq_first q"
        using ins by (auto simp: h1_def)
      then show ?thesis using that dir by auto
    qed
    have "queues_inv (page_queue_insert h c at_end r) (ps(c := xs))"
      by (rule queues_inv_change [OF I cf dl, where R = "{r}"])
         (use fr sub sz e nl in \<open>auto simp: h1_def q_def s0_def page_linked_def\<close>)
    then show ?thesis using e(1) by (auto simp: h1_def)
  qed
  have "\<exists>d s q'. page_queue_insert h c at_end r = h\<lparr>hp_store := s, hp_pages := (hp_pages h)(c := q'), hp_pages_free_direct := d\<rparr> \<and>
      pq_block_size q' = pq_block_size q \<and>
      queues_inv (page_queue_insert h c at_end r) (ps(c := (if at_end \<or> ps c = [] then ps c @ [r] else hd (ps c) # r # List.tl (ps c))))"
  proof (cases "at_end \<or> ps c = []")
    case True
    define q' where "q' = q\<lparr>pq_last := Some r, pq_first := (case pq_last q of None \<Rightarrow> Some r | Some _ \<Rightarrow> pq_first q)\<rparr>"
    define s where "s = (case pq_last q of None \<Rightarrow> id | Some y \<Rightarrow> set_next y (Some r)) (set_next r None (set_prev r (pq_last q) s0))"
    have "\<exists>d. page_queue_insert h c at_end r = h\<lparr>hp_store := s, hp_pages := (hp_pages h)(c := q'), hp_pages_free_direct := d\<rparr> \<and>
        queues_inv (page_queue_insert h c at_end r) (ps(c := ps c @ [r]))"
    proof (rule fin)
      show "pages.dll s (pq_first q') (pq_last q') (ps c @ [r])"
        using pages.push_back_dll [OF D(1) rn] by (simp add: s_def q'_def)
      show "s x = s0 x" if "x \<notin> set (ps c) \<union> set (ps c @ [r])" for x
      proof -
        have "x \<noteq> r" "pq_last q = Some y \<Longrightarrow> x \<noteq> y" for y using that D(3) last_of_mem [of "ps c" y] by auto
        then show ?thesis by (cases "pq_last q") (simp_all add: s_def set_next_def set_prev_def)
      qed
      show "page_queue_insert h c at_end r = pa_heap_queue_first_update (h\<lparr>hp_store := s, hp_pages := (hp_pages h)(c := q')\<rparr>) c \<or>
        (page_queue_insert h c at_end r = h\<lparr>hp_store := s, hp_pages := (hp_pages h)(c := q')\<rparr> \<and> pq_first q' = pq_first q)"
      proof (cases "pq_last q")
        case None
        then have "pq_first q = None" using D(2,3) by simp
        moreover have "q' = q\<lparr>pq_first := Some r, pq_last := Some r\<rparr>"
          by (rule pa_page_queue.equality) (simp_all add: q'_def None)
        ultimately show ?thesis using None
          by (intro disjI1) (simp add: page_queue_insert_def Let_def q_def [symmetric] s0_def [symmetric] s_def)
      next
        case (Some l)
        then have "pq_first q \<noteq> None" "at_end" using True D(2,3) by auto
        then show ?thesis using Some
          by (intro disjI2) (simp add: page_queue_insert_def Let_def q_def [symmetric] s0_def [symmetric] s_def q'_def)
      qed
    qed (simp_all add: q'_def)
    then obtain d where d: "page_queue_insert h c at_end r = h\<lparr>hp_store := s, hp_pages := (hp_pages h)(c := q'), hp_pages_free_direct := d\<rparr>"
        "queues_inv (page_queue_insert h c at_end r) (ps(c := ps c @ [r]))" by blast
    show ?thesis using True d(2) by (intro exI [of _ d] exI [of _ s] exI [of _ q'] conjI, intro d(1)) (simp_all add: q'_def)
  next
    case False
    then obtain y ws where yw: "ps c = y # ws" by (cases "ps c") auto
    have fq: "pq_first q = Some y" "pg_next (s0 y) = first_of ws"
      using D(1,2) yw pages.dll_neighbours(1) [of s0 "pq_first q" "pq_last q" "[]" y ws] by simp_all
    define q' where "q' = (case first_of ws of None \<Rightarrow> q\<lparr>pq_last := Some r\<rparr> | Some _ \<Rightarrow> q)"
    define s where "s = (case first_of ws of None \<Rightarrow> id | Some z \<Rightarrow> set_prev z (Some r))
      (set_next y (Some r) (set_next r (first_of ws) (set_prev r (Some y) s0)))"
    have "\<exists>d. page_queue_insert h c at_end r = h\<lparr>hp_store := s, hp_pages := (hp_pages h)(c := q'), hp_pages_free_direct := d\<rparr> \<and>
        queues_inv (page_queue_insert h c at_end r) (ps(c := y # r # ws))"
    proof (rule fin)
      show "pages.dll s (pq_first q') (pq_last q') (y # r # ws)"
        using pages.push_second_dll [OF D(1) [unfolded yw fq(1)]] rn yw fq(1) by (cases ws) (simp_all add: s_def q'_def)
      show "s x = s0 x" if "x \<notin> set (ps c) \<union> set (y # r # ws)" for x
      proof -
        have "x \<noteq> r" "x \<noteq> y" "first_of ws = Some z \<Longrightarrow> x \<noteq> z" for z using that first_of_mem [of ws z] by auto
        then show ?thesis by (cases "first_of ws") (simp_all add: s_def set_next_def set_prev_def)
      qed
      show "page_queue_insert h c at_end r = pa_heap_queue_first_update (h\<lparr>hp_store := s, hp_pages := (hp_pages h)(c := q')\<rparr>) c \<or>
        (page_queue_insert h c at_end r = h\<lparr>hp_store := s, hp_pages := (hp_pages h)(c := q')\<rparr> \<and> pq_first q' = pq_first q)"
        using False fq unfolding page_queue_insert_def Let_def q_def [symmetric] s0_def [symmetric]
        by (cases "first_of ws") (simp_all add: s_def q'_def fun_upd_idem q_def)
    qed (use yw in \<open>auto simp: q'_def split: option.splits\<close>)
    then obtain d where d: "page_queue_insert h c at_end r = h\<lparr>hp_store := s, hp_pages := (hp_pages h)(c := q'), hp_pages_free_direct := d\<rparr>"
        "queues_inv (page_queue_insert h c at_end r) (ps(c := y # r # ws))" by blast
    show ?thesis using False yw d(2) by (intro exI [of _ d] exI [of _ s] exI [of _ q'] conjI, intro d(1)) (simp_all add: q'_def split: option.split)
  qed
  then obtain e s q' where R: "page_queue_insert h c at_end r = h\<lparr>hp_store := s, hp_pages := (hp_pages h)(c := q'), hp_pages_free_direct := e\<rparr>"
    "pq_block_size q' = pq_block_size q"
    "queues_inv (page_queue_insert h c at_end r) (ps(c := (if at_end \<or> ps c = [] then ps c @ [r] else hd (ps c) # r # List.tl (ps c))))"
    by blast
  define h2 where "h2 = page_queue_insert h c at_end r"
  have full: "pa_page_queue_is_full (hp_pages h2 c) \<longleftrightarrow> c = PA_BIN_FULL"
    using R(3) b(2) by (intro queue_is_full_iff) (simp_all add: queues_inv_def h2_def)
  have ex: "pa_page_queue_enqueue_from_ex heap c b at_end r =
      h2\<lparr>hp_store := set_in_full r (pa_page_queue_is_full (hp_pages h2 c)) (hp_store h2)\<rparr>"
    by (simp add: pa_page_queue_enqueue_from_ex_def h_def [symmetric] h2_def Let_def)
  have "queues_inv (pa_page_queue_enqueue_from_ex heap c b at_end r)
      (ps(c := (if at_end \<or> ps c = [] then ps c @ [r] else hd (ps c) # r # List.tl (ps c))))"
    unfolding ex by (rule queues_inv_store [OF R(3) [folded h2_def]]) (simp_all add: set_in_full_def)
  moreover have "hp_page_count h2 = hp_page_count heap" unfolding h2_def R(1) by (simp add: h_def U(1))
  moreover have "ps(c := xs) = qs(b := ys @ zs, c := xs)" for xs by (simp add: ps_def)
  ultimately show ?thesis using full b(3) unfolding psc by (simp add: ex set_in_full_def)
qed

lemma page_queue_move_to_front_spec:
  assumes inv: "queues_inv heap qs" and b: "reach_bin b" and r: "r \<in> set (qs b)"
  shows "queues_inv (pa_page_queue_move_to_front heap b r) (qs(b := r # remove1 r (qs b)))"
proof -
  obtain ys zs where qs: "qs b = ys @ r # zs" using r by (auto dest: split_list)
  have bf: "b \<le> PA_BIN_FULL" by (rule reach_bin_le [OF b])
  note D = queues_invD [OF inv bf]
  have rm: "remove1 r (qs b) = ys @ zs" using D(4) by (simp add: qs remove1_append)
  show ?thesis
  proof (cases "pq_first (hp_pages heap b) = Some r")
    case True
    then have "ys = []" using D(2,4) by (cases ys) (auto simp: qs)
    then have "qs(b := r # remove1 r (qs b)) = qs" using rm qs by (simp add: fun_upd_idem)
    then show ?thesis using inv True by (simp add: pa_page_queue_move_to_front_def)
  next
    case False
    note R = page_queue_remove_spec [OF inv b qs, THEN conjunct1]
    have "queues_inv (pa_page_queue_push (pa_page_queue_remove heap b r) b r) ((qs(b := ys @ zs))(b := r # (qs(b := ys @ zs)) b))"
      by (rule page_queue_push_spec [OF R b not_linked_removed [OF inv bf qs], THEN conjunct1])
    then show ?thesis using False by (simp add: pa_page_queue_move_to_front_def rm)
  qed
qed

section \<open>Sequences of queue operations\<close>

text \<open>The heap every new heap is a copy of: its queues are empty, and all small sizes start at the empty page.\<close>

definition page_queues_empty :: "nat \<Rightarrow> pa_page_queue" where
  "page_queues_empty b = \<lparr>pq_first = None, pq_last = None, pq_block_size = of_nat (pa_bin_size b)\<rparr>"

definition pa_heap_empty :: "(slice_ref \<Rightarrow> pa_page) \<Rightarrow> uintptr_t \<Rightarrow> pa_heap" where
  "pa_heap_empty store addr =
     \<lparr>hp_store = store, hp_addr = addr, hp_thread_delayed_free = 0, hp_page_count = 0,
      hp_page_retired_min = PA_BIN_FULL, hp_page_retired_max = 0, hp_generic_count = 0, hp_generic_collect_count = 0,
      hp_no_reclaim = False, hp_tag = 0, hp_max_size = 0, hp_used_bytes = 0, hp_pages_free_direct = (\<lambda>_. None),
      hp_pages = page_queues_empty, hp_cache_head = (\<lambda>_. 0), hp_cache_count = (\<lambda>_. 0)\<rparr>"

lemma queues_inv_empty: "queues_inv (pa_heap_empty store addr) (\<lambda>_. [])"
  by (simp add: queues_inv_def pa_heap_empty_def page_queues_empty_def queue_sizes_ok_def direct_ok_def pages.dll_empty)

datatype queue_op =
    Push nat slice_ref
  | Remove nat slice_ref
  | MoveToFront nat slice_ref
  | EnqueueFrom nat nat bool slice_ref

fun queue_op_heap :: "queue_op \<Rightarrow> pa_heap \<Rightarrow> pa_heap" where
  "queue_op_heap (Push b r) heap = pa_page_queue_push heap b r"
| "queue_op_heap (Remove b r) heap = pa_page_queue_remove heap b r"
| "queue_op_heap (MoveToFront b r) heap = pa_page_queue_move_to_front heap b r"
| "queue_op_heap (EnqueueFrom to b at_end r) heap = pa_page_queue_enqueue_from_ex heap to b at_end r"

text \<open>The abstract operations work on one list of pages for every queue.\<close>

fun queue_op_lists :: "queue_op \<Rightarrow> (nat \<Rightarrow> slice_ref list) \<Rightarrow> nat \<Rightarrow> slice_ref list" where
  "queue_op_lists (Push b r) qs = qs(b := r # qs b)"
| "queue_op_lists (Remove b r) qs = qs(b := remove1 r (qs b))"
| "queue_op_lists (MoveToFront b r) qs = qs(b := r # remove1 r (qs b))"
| "queue_op_lists (EnqueueFrom to b at_end r) qs =
     qs(b := remove1 r (qs b), to := (if at_end \<or> qs to = [] then qs to @ [r] else hd (qs to) # r # List.tl (qs to)))"

fun queue_op_ok :: "(nat \<Rightarrow> slice_ref list) \<Rightarrow> queue_op \<Rightarrow> bool" where
  "queue_op_ok qs (Push b r) \<longleftrightarrow> reach_bin b \<and> (\<forall>c \<le> PA_BIN_FULL. r \<notin> set (qs c))"
| "queue_op_ok qs (Remove b r) \<longleftrightarrow> reach_bin b \<and> r \<in> set (qs b)"
| "queue_op_ok qs (MoveToFront b r) \<longleftrightarrow> reach_bin b \<and> r \<in> set (qs b)"
| "queue_op_ok qs (EnqueueFrom to b at_end r) \<longleftrightarrow> reach_bin to \<and> reach_bin b \<and> to \<noteq> b \<and> r \<in> set (qs b)"

fun queue_ops_ok :: "(nat \<Rightarrow> slice_ref list) \<Rightarrow> queue_op list \<Rightarrow> bool" where
  "queue_ops_ok qs [] \<longleftrightarrow> True"
| "queue_ops_ok qs (x # xs) \<longleftrightarrow> queue_op_ok qs x \<and> queue_ops_ok (queue_op_lists x qs) xs"

lemma queue_op_refines:
  assumes inv: "queues_inv heap qs" and ok: "queue_op_ok qs x"
  shows "queues_inv (queue_op_heap x heap) (queue_op_lists x qs)"
proof (cases x)
  case (Push b r)
  then show ?thesis using page_queue_push_spec [OF inv, of b r] ok by (simp add: page_linked_def)
next
  case (Remove b r)
  then obtain ys zs where qs: "qs b = ys @ r # zs" using ok by (auto dest: split_list)
  moreover have "remove1 r (qs b) = ys @ zs"
    using queues_invD(4) [OF inv reach_bin_le, of b] ok Remove qs by (simp add: remove1_append)
  ultimately show ?thesis using page_queue_remove_spec [OF inv _ qs] ok Remove by simp
next
  case (MoveToFront b r)
  then show ?thesis using page_queue_move_to_front_spec [OF inv] ok by simp
next
  case (EnqueueFrom to b at_end r)
  then obtain ys zs where qs: "qs b = ys @ r # zs" using ok by (auto dest: split_list)
  moreover have "remove1 r (qs b) = ys @ zs"
    using queues_invD(4) [OF inv reach_bin_le, of b] ok EnqueueFrom qs by (simp add: remove1_append)
  moreover have "queues_inv (pa_page_queue_enqueue_from_ex heap to b at_end r)
      (qs(b := ys @ zs, to := (if at_end \<or> qs to = [] then qs to @ [r] else hd (qs to) # r # List.tl (qs to))))"
    by (rule page_queue_enqueue_spec [OF inv _ _ _ qs, THEN conjunct1]) (use ok EnqueueFrom in auto)
  ultimately show ?thesis using EnqueueFrom by simp
qed

lemma queue_ops_refine:
  "queues_inv heap qs \<Longrightarrow> queue_ops_ok qs xs \<Longrightarrow> queues_inv (fold queue_op_heap xs heap) (fold queue_op_lists xs qs)"
  by (induction xs arbitrary: heap qs) (simp_all add: queue_op_refines)

text \<open>C12: the page queues of a heap.  Run any sequence of pushes, removals, moves to the front
  and transfers between queues on a new heap, each on a page that is in the queue it is taken from: the linked
  structures then hold exactly the lists that the same sequence gives on plain lists, no page is in two queues,
  and the direct table, which a small allocation reads instead of searching, gives for every word size the first page of the
  queue of its size class.\<close>
theorem page_queues_refine_lists:
  assumes "queue_ops_ok (\<lambda>_. []) xs"
    and "heap = fold queue_op_heap xs (pa_heap_empty store addr)" and "qs = fold queue_op_lists xs (\<lambda>_. [])"
  shows "(\<forall>b \<le> PA_BIN_FULL. pages.dll (hp_store heap) (pq_first (hp_pages heap b)) (pq_last (hp_pages heap b)) (qs b)) \<and>
    (\<forall>b \<le> PA_BIN_FULL. \<forall>c \<le> PA_BIN_FULL. b \<noteq> c \<longrightarrow> set (qs b) \<inter> set (qs c) = {}) \<and>
    (\<forall>w \<le> 128. hp_pages_free_direct heap w = first_of (qs (pa_bin (of_nat (w * 8)))))"
proof -
  have inv: "queues_inv heap qs" unfolding assms(2,3) by (rule queue_ops_refine [OF queues_inv_empty assms(1)])
  have "hp_pages_free_direct heap w = first_of (qs (pa_bin (of_nat (w * 8))))" if "w \<le> 128" for w
  proof -
    have "unat (of_nat (w * 8) :: size_t) = w * 8" using that by (simp add: unat_of_nat del: of_nat_mult)
    then have "pa_bin (of_nat (w * 8)) = wbin w" using that by (subst pa_bin_eq_wbin) (simp_all add: wsize_nat_def del: of_nat_mult)
    moreover have "wbin w \<le> PA_BIN_FULL" using wbin_le [of w] that by (simp add: bin_consts)
    ultimately show ?thesis using inv queues_invD(2) [OF inv, of "wbin w"] that by (simp add: queues_inv_def direct_ok_def)
  qed
  then show ?thesis using inv unfolding queues_inv_def by blast
qed

text \<open>Two pages of the class of 64-byte blocks and one of 80-byte blocks; the second fills up and comes back.\<close>

definition demo_ops :: "queue_op list" where
  "demo_ops = [Push 8 (0x2000000, 1), Push 8 (0x2000000, 2), Push 9 (0x2000000, 3), EnqueueFrom 74 8 True (0x2000000, 2),
     EnqueueFrom 8 74 True (0x2000000, 2), MoveToFront 8 (0x2000000, 2), Remove 8 (0x2000000, 1)]"

lemma demo_reach: "reach_bin 8" "reach_bin 9" "reach_bin 74"
proof -
  have "wbin 8 = 8" "wbin 9 = 9" using wbin_eqI [of 3 0 9] by (simp_all add: wbin_def)
  moreover have "8 \<le> (8192::nat)" "9 \<le> (8192::nat)" by simp_all
  ultimately show "reach_bin 8" "reach_bin 9" by (metis reach_bin_def)+
  show "reach_bin 74" by (simp add: reach_bin_def bin_consts)
qed

lemma demo_ops_ok: "queue_ops_ok (\<lambda>_. []) demo_ops"
  by (simp add: demo_ops_def demo_reach)

theorem page_queues_refine_lists_witness:
  "hp_pages_free_direct (fold queue_op_heap demo_ops (pa_heap_empty (\<lambda>_. demo_page) 0)) 8 = Some (0x2000000, 2)"
proof -
  have "pa_bin (of_nat (8 * 8)) = 8" by code_simp
  then show ?thesis
    using page_queues_refine_lists [OF demo_ops_ok refl refl, THEN conjunct2, THEN conjunct2, rule_format, of 8 "\<lambda>_. demo_page" 0]
    by (simp add: demo_ops_def)
qed

end
