(* ===== verification/Palloc_ThreadFree.thy ===== *)
theory Palloc_ThreadFree
  imports Palloc_FreeList
begin

text \<open>
  Frees by other threads (\<open>src/free.c\<close>, \<open>src/page.c\<close>).  A thread that does not own a page pushes
  the block on the page's thread-free list, or, for the first such free after the owner asked for it, on the delayed-free list
  of the owning heap.  Every function here performs one atomic access to shared memory; a step of the system is
  one such access by one of the threads, so the theorems hold for every interleaving.  A compare-and-swap
  may fail spuriously, as a weak one is allowed to.
\<close>

section \<open>Shared state and program points\<close>

text \<open>\<open>mt_delayed\<close> is the field \<open>thread_delayed_free\<close> of the heap at an address.\<close>

record mt_state =
  mt_mem :: blocks
  mt_page :: "slice_ref \<Rightarrow> pa_page"
  mt_delayed :: "uintptr_t \<Rightarrow> uintptr_t"

abbreviation xfree :: "mt_state \<Rightarrow> slice_ref \<Rightarrow> uintptr_t" where
  "xfree s p \<equiv> pg_xthread_free (mt_page s p)"

abbreviation flag :: "mt_state \<Rightarrow> slice_ref \<Rightarrow> pa_delayed" where
  "flag s p \<equiv> pa_tf_delayed (xfree s p)"

definition set_xfree :: "slice_ref \<Rightarrow> uintptr_t \<Rightarrow> mt_state \<Rightarrow> mt_state" where
  "set_xfree p v s = s\<lparr>mt_page := (mt_page s)(p := (mt_page s p)\<lparr>pg_xthread_free := v\<rparr>)\<rparr>"

text \<open>Where a freeing thread is, with its local variables.\<close>

datatype free_pc =
    Fr_idle
  | Fr_loop uintptr_t uintptr_t
  | Fr_cas uintptr_t uintptr_t
  | Fr_heap uintptr_t
  | Fr_dload uintptr_t uintptr_t
  | Fr_dloop uintptr_t uintptr_t uintptr_t
  | Fr_dcas uintptr_t uintptr_t uintptr_t
  | Fr_reset uintptr_t
  | Fr_rcas uintptr_t uintptr_t

fun free_block_delayed_mt :: "(uintptr_t \<Rightarrow> slice_ref) \<Rightarrow> bool \<Rightarrow> free_pc \<Rightarrow> mt_state \<Rightarrow> free_pc \<times> mt_state" where
  "free_block_delayed_mt ptr_page spurious Fr_idle s = (Fr_idle, s)"
| "free_block_delayed_mt ptr_page spurious (Fr_loop block tfree) s =
     (Fr_cas block tfree,
      if pa_tf_delayed tfree = PA_USE_DELAYED_FREE then s
      else s\<lparr>mt_mem := pa_block_set_next (mt_mem s) block (pa_tf_block tfree)\<rparr>)"
| "free_block_delayed_mt ptr_page spurious (Fr_cas block tfree) s =
     (let page = ptr_page block;
          use_delayed = (pa_tf_delayed tfree = PA_USE_DELAYED_FREE);
          tfreex = (if use_delayed then pa_tf_set_delayed tfree PA_DELAYED_FREEING else pa_tf_set_block tfree block)
      in if spurious \<or> xfree s page \<noteq> tfree then (Fr_loop block (xfree s page), s)
         else (if use_delayed then Fr_heap block else Fr_idle, set_xfree page tfreex s))"
| "free_block_delayed_mt ptr_page spurious (Fr_heap block) s =
     (let heap = pg_xheap (mt_page s (ptr_page block))
      in (if heap \<noteq> 0 then Fr_dload block heap else Fr_reset block, s))"
| "free_block_delayed_mt ptr_page spurious (Fr_dload block heap) s = (Fr_dloop block heap (mt_delayed s heap), s)"
| "free_block_delayed_mt ptr_page spurious (Fr_dloop block heap dfree) s =
     (Fr_dcas block heap dfree, s\<lparr>mt_mem := pa_block_set_next (mt_mem s) block dfree\<rparr>)"
| "free_block_delayed_mt ptr_page spurious (Fr_dcas block heap dfree) s =
     (if spurious \<or> mt_delayed s heap \<noteq> dfree then (Fr_dloop block heap (mt_delayed s heap), s)
      else (Fr_reset block, s\<lparr>mt_delayed := (mt_delayed s)(heap := block)\<rparr>))"
| "free_block_delayed_mt ptr_page spurious (Fr_reset block) s = (Fr_rcas block (xfree s (ptr_page block)), s)"
| "free_block_delayed_mt ptr_page spurious (Fr_rcas block tfree) s =
     (let page = ptr_page block
      in if spurious \<or> xfree s page \<noteq> tfree then (Fr_rcas block (xfree s page), s)
         else (Fr_idle, set_xfree page (pa_tf_set_delayed tfree PA_NO_DELAYED_FREE) s))"

text \<open>The owner changes the delayed flag of a page; it gives up after a number of loads that see another thread in the
  middle of a delayed free.\<close>

datatype use_pc = Us_load nat | Us_cas nat uintptr_t | Us_result bool

fun page_try_use_delayed_free :: "bool \<Rightarrow> slice_ref \<Rightarrow> pa_delayed \<Rightarrow> bool \<Rightarrow> use_pc \<Rightarrow> mt_state \<Rightarrow> use_pc \<times> mt_state" where
  "page_try_use_delayed_free spurious page delay override_never (Us_load yield_count) s =
     (let tfree = xfree s page; old_delay = pa_tf_delayed tfree
      in if old_delay = PA_DELAYED_FREEING then
           (if 4 \<le> yield_count then Us_result False else Us_load (yield_count + 1), s)
         else if delay = old_delay then (Us_result True, s)
         else if \<not> override_never \<and> old_delay = PA_NEVER_DELAYED_FREE then (Us_result True, s)
         else (Us_cas yield_count tfree, s))"
| "page_try_use_delayed_free spurious page delay override_never (Us_cas yield_count tfree) s =
     (if spurious \<or> xfree s page \<noteq> tfree then (Us_load yield_count, s)
      else (Us_result True, set_xfree page (pa_tf_set_delayed tfree delay) s))"
| "page_try_use_delayed_free spurious page delay override_never (Us_result r) s = (Us_result r, s)"

text \<open>Where the owner is.  In \<open>Ow_free block next all_freed u\<close> and the points after it, \<open>block\<close> is the block
  being freed and \<open>next\<close> the rest of the list that was taken over.\<close>

datatype owner_pc =
    Ow_idle
  | Ow_use slice_ref pa_delayed bool use_pc
  | Ow_take uintptr_t
  | Ow_next uintptr_t bool
  | Ow_free uintptr_t uintptr_t bool use_pc
  | Ow_collect uintptr_t uintptr_t bool
  | Ow_local uintptr_t uintptr_t bool
  | Ow_reload uintptr_t uintptr_t
  | Ow_rset uintptr_t uintptr_t uintptr_t
  | Ow_rcas uintptr_t uintptr_t uintptr_t
  | Ow_done bool

text \<open>\<open>_pa_page_use_delayed_free\<close> repeats the attempt until it succeeds.\<close>

fun page_use_delayed_free :: "bool \<Rightarrow> slice_ref \<Rightarrow> pa_delayed \<Rightarrow> bool \<Rightarrow> use_pc \<Rightarrow> mt_state \<Rightarrow> owner_pc \<times> mt_state" where
  "page_use_delayed_free spurious p delay ov (Us_result r) s = (if r then Ow_idle else Ow_use p delay ov (Us_load 0), s)"
| "page_use_delayed_free spurious p delay ov u s =
     (let (u, s) = page_try_use_delayed_free spurious p delay ov u s in (Ow_use p delay ov u, s))"

text \<open>The three parts of \<open>_pa_free_delayed_block\<close>: set the flag, collect, free the block locally.\<close>

fun free_delayed_block :: "(uintptr_t \<Rightarrow> slice_ref) \<Rightarrow> bool \<Rightarrow> owner_pc \<Rightarrow> mt_state \<Rightarrow> owner_pc \<times> mt_state" where
  "free_delayed_block ptr_page spurious (Ow_free block nxt all_freed (Us_result r)) s =
     (if r then Ow_collect block nxt all_freed else Ow_reload block nxt, s)"
| "free_delayed_block ptr_page spurious (Ow_free block nxt all_freed u) s =
     (let (u, s) = page_try_use_delayed_free spurious (ptr_page block) PA_USE_DELAYED_FREE False u s
      in (Ow_free block nxt all_freed u, s))"
| "free_delayed_block ptr_page spurious (Ow_collect block nxt all_freed) s =
     (let p = ptr_page block
      in case pa_page_free_collect (mt_mem s) (mt_page s p) False of
           None \<Rightarrow> (Ow_collect block nxt all_freed, s)
         | Some (m, page, err) \<Rightarrow> (Ow_local block nxt all_freed, s\<lparr>mt_mem := m, mt_page := (mt_page s)(p := page)\<rparr>))"
| "free_delayed_block ptr_page spurious (Ow_local block nxt all_freed) s =
     (let p = ptr_page block; (m, page) = page_local_free (mt_mem s) (mt_page s p) block
      in (Ow_next nxt all_freed, s\<lparr>mt_mem := m, mt_page := (mt_page s)(p := page)\<rparr>))"
| "free_delayed_block ptr_page spurious pc s = (pc, s)"

text \<open>\<open>_pa_heap_delayed_free_partial\<close> takes over
  the list of the heap and frees its blocks, putting those back whose page is in use by a freeing thread.\<close>

fun heap_delayed_free_partial :: "uintptr_t \<Rightarrow> bool \<Rightarrow> owner_pc \<Rightarrow> mt_state \<Rightarrow> owner_pc \<times> mt_state" where
  "heap_delayed_free_partial heap spurious (Ow_take block) s =
     (if block = 0 then (Ow_next 0 True, s)
      else if spurious \<or> mt_delayed s heap \<noteq> block then (Ow_take (mt_delayed s heap), s)
      else (Ow_next block True, s\<lparr>mt_delayed := (mt_delayed s)(heap := 0)\<rparr>))"
| "heap_delayed_free_partial heap spurious (Ow_next block all_freed) s =
     (if block = 0 then (Ow_done all_freed, s)
      else (Ow_free block (pa_block_next (mt_mem s) block) all_freed (Us_load 0), s))"
| "heap_delayed_free_partial heap spurious (Ow_reload block nxt) s = (Ow_rset block nxt (mt_delayed s heap), s)"
| "heap_delayed_free_partial heap spurious (Ow_rset block nxt dfree) s =
     (Ow_rcas block nxt dfree, s\<lparr>mt_mem := pa_block_set_next (mt_mem s) block dfree\<rparr>)"
| "heap_delayed_free_partial heap spurious (Ow_rcas block nxt dfree) s =
     (if spurious \<or> mt_delayed s heap \<noteq> dfree then (Ow_rset block nxt (mt_delayed s heap), s)
      else (Ow_next nxt False, s\<lparr>mt_delayed := (mt_delayed s)(heap := block)\<rparr>))"
| "heap_delayed_free_partial heap spurious (Ow_done all_freed) s = (Ow_idle, s)"
| "heap_delayed_free_partial heap spurious pc s = (pc, s)"

fun owner_step :: "(uintptr_t \<Rightarrow> slice_ref) \<Rightarrow> uintptr_t \<Rightarrow> bool \<Rightarrow> owner_pc \<Rightarrow> mt_state \<Rightarrow> owner_pc \<times> mt_state" where
  "owner_step ptr_page heap spurious (Ow_use p delay ov u) s = page_use_delayed_free spurious p delay ov u s"
| "owner_step ptr_page heap spurious (Ow_free block nxt all_freed u) s =
     free_delayed_block ptr_page spurious (Ow_free block nxt all_freed u) s"
| "owner_step ptr_page heap spurious (Ow_collect block nxt all_freed) s =
     free_delayed_block ptr_page spurious (Ow_collect block nxt all_freed) s"
| "owner_step ptr_page heap spurious (Ow_local block nxt all_freed) s =
     free_delayed_block ptr_page spurious (Ow_local block nxt all_freed) s"
| "owner_step ptr_page heap spurious pc s = heap_delayed_free_partial heap spurious pc s"

section \<open>The system\<close>

text \<open>The shared state, the freeing threads, the owner, and the blocks that the program holds.\<close>

record mt_sys =
  sy_state :: mt_state
  sy_threads :: "free_pc list"
  sy_owner :: owner_pc
  sy_client :: "uintptr_t multiset"

abbreviation set_page :: "slice_ref \<Rightarrow> blocks \<Rightarrow> pa_page \<Rightarrow> mt_state \<Rightarrow> mt_state" where
  "set_page p m page s \<equiv> s\<lparr>mt_mem := m, mt_page := (mt_page s)(p := page)\<rparr>"

text \<open>One step: a thread starts to free a block of the program or moves on; the owner moves on, starts to
  process its delayed list, asks for a flag, allocates, frees, collects or extends a page, disowns a
  page whose flag is never-delayed, or takes such a page in again; or the program writes into a block it holds.\<close>

inductive mt_step :: "(uintptr_t \<Rightarrow> slice_ref) \<Rightarrow> slice_ref set \<Rightarrow> uintptr_t \<Rightarrow> mt_sys \<Rightarrow> mt_sys \<Rightarrow> bool"
  for ptr_page P heap where
  start: "t < length (sy_threads s) \<Longrightarrow> sy_threads s ! t = Fr_idle \<Longrightarrow> b \<in># sy_client s \<Longrightarrow>
    mt_step ptr_page P heap s (s\<lparr>sy_threads := (sy_threads s)[t := Fr_loop b (xfree (sy_state s) (ptr_page b))],
      sy_client := sy_client s - {#b#}\<rparr>)"
| thread: "t < length (sy_threads s) \<Longrightarrow> free_block_delayed_mt ptr_page spurious (sy_threads s ! t) (sy_state s) = (pc, st) \<Longrightarrow>
    mt_step ptr_page P heap s (s\<lparr>sy_state := st, sy_threads := (sy_threads s)[t := pc]\<rparr>)"
| owner: "owner_step ptr_page heap spurious (sy_owner s) (sy_state s) = (pc, st) \<Longrightarrow>
    mt_step ptr_page P heap s (s\<lparr>sy_state := st, sy_owner := pc\<rparr>)"
| partial: "sy_owner s = Ow_idle \<Longrightarrow> mt_step ptr_page P heap s (s\<lparr>sy_owner := Ow_take (mt_delayed (sy_state s) heap)\<rparr>)"
| use_delayed: "sy_owner s = Ow_idle \<Longrightarrow> p \<in> P \<Longrightarrow> delay = PA_USE_DELAYED_FREE \<or> delay = PA_NEVER_DELAYED_FREE \<Longrightarrow>
    \<not> ov \<or> delay = PA_USE_DELAYED_FREE \<and> pg_xheap (mt_page (sy_state s) p) = heap \<Longrightarrow>
    mt_step ptr_page P heap s (s\<lparr>sy_owner := Ow_use p delay ov (Us_load 0)\<rparr>)"
| malloc: "sy_owner s = Ow_idle \<Longrightarrow> p \<in> P \<Longrightarrow> pa_page_malloc (mt_mem (sy_state s)) (mt_page (sy_state s) p) = Some (b, page) \<Longrightarrow>
    mt_step ptr_page P heap s (s\<lparr>sy_state := set_page p (mt_mem (sy_state s)) page (sy_state s), sy_client := add_mset b (sy_client s)\<rparr>)"
| local_free: "sy_owner s = Ow_idle \<Longrightarrow> b \<in># sy_client s \<Longrightarrow>
    page_local_free (mt_mem (sy_state s)) (mt_page (sy_state s) (ptr_page b)) b = (m, page) \<Longrightarrow>
    mt_step ptr_page P heap s (s\<lparr>sy_state := set_page (ptr_page b) m page (sy_state s), sy_client := sy_client s - {#b#}\<rparr>)"
| collect: "sy_owner s = Ow_idle \<Longrightarrow> p \<in> P \<Longrightarrow>
    pa_page_free_collect (mt_mem (sy_state s)) (mt_page (sy_state s) p) force = Some (m, page, err) \<Longrightarrow>
    mt_step ptr_page P heap s (s\<lparr>sy_state := set_page p m page (sy_state s)\<rparr>)"
| extend: "sy_owner s = Ow_idle \<Longrightarrow> p \<in> P \<Longrightarrow> pg_local_free (mt_page (sy_state s) p) = 0 \<Longrightarrow>
    pa_page_extend_free (mt_mem (sy_state s)) (mt_page (sy_state s) p) = Some (m, page) \<Longrightarrow>
    mt_step ptr_page P heap s (s\<lparr>sy_state := set_page p m page (sy_state s)\<rparr>)"
| set_heap: "sy_owner s = Ow_idle \<Longrightarrow> p \<in> P \<Longrightarrow> flag (sy_state s) p = PA_NEVER_DELAYED_FREE \<Longrightarrow> h = 0 \<or> h = heap \<Longrightarrow>
    mt_step ptr_page P heap s
      (s\<lparr>sy_state := set_page p (mt_mem (sy_state s)) ((mt_page (sy_state s) p)\<lparr>pg_xheap := h\<rparr>) (sy_state s)\<rparr>)"
| client_write: "b \<in># sy_client s \<Longrightarrow>
    mt_step ptr_page P heap s (s\<lparr>sy_state := (sy_state s)\<lparr>mt_mem := (mt_mem (sy_state s))(b := x)\<rparr>\<rparr>)"

section \<open>Many pages in one memory\<close>

text \<open>Operations on a page write only to its own free blocks and keep its geometry.\<close>

definition page_area :: "pa_page \<Rightarrow> uintptr_t set" where
  "page_area page = block_addr page ` {..<pg_reserved page}"

definition same_geom :: "pa_page \<Rightarrow> pa_page \<Rightarrow> bool" where
  "same_geom page page' \<longleftrightarrow> pg_page_start page' = pg_page_start page \<and> pg_block_size page' = pg_block_size page \<and>
     pg_reserved page' = pg_reserved page \<and> pg_xheap page' = pg_xheap page \<and>
     pa_tf_delayed (pg_xthread_free page') = pa_tf_delayed (pg_xthread_free page)"

definition keeps_outside :: "pa_page \<Rightarrow> uintptr_t multiset \<Rightarrow> blocks \<Rightarrow> blocks \<Rightarrow> bool" where
  "keeps_outside page live m m' \<longleftrightarrow> (\<forall>a. a \<notin> page_area page \<or> a \<in># live \<longrightarrow> m' a = m a)"

lemma page_inv_area:
  assumes "page_inv m page fl ll xl live" "b \<in> set fl \<union> set ll \<union> set xl \<union> set_mset live"
  shows "b \<in> page_area page"
proof -
  have "pg_capacity page \<le> pg_reserved page" using assms(1) by (simp add: page_inv_def page_geom_def)
  then show ?thesis using page_inv_block [OF assms] by (auto simp: page_area_def)
qed

lemma tf_set_block_delayed [simp]: "b AND 3 = 0 \<Longrightarrow> pa_tf_delayed (pa_tf_set_block tf b) = pa_tf_delayed tf"
  by (simp add: pa_tf_set_block_def)

lemma tf_block_aligned [simp]: "pa_tf_block tf AND 3 = 0"
  by (simp add: pa_tf_block_def)

lemma tf_set_delayed [simp]: "pa_tf_delayed (pa_tf_set_delayed tf d) = d" "pa_tf_block (pa_tf_set_delayed tf d) = pa_tf_block tf"
  by (simp_all add: pa_tf_set_delayed_def)

lemma thread_free_collect_frame:
  assumes inv: "page_inv m page fl ll xl live" and c: "pa_page_thread_free_collect m page = (m', page', err)"
  shows "same_geom page page' \<and> keeps_outside page live m m'"
proof (cases "pa_tf_block (pg_xthread_free page) = 0")
  case True
  then show ?thesis using c by (auto simp: pa_page_thread_free_collect_def Let_def same_geom_def keeps_outside_def)
next
  case False
  then obtain h xs where xl: "xl = h # xs" "pa_tf_block (pg_xthread_free page) = h" "blist m (m h) xs"
    using inv blist_nonzero [of "pa_tf_block (pg_xthread_free page)" m xl] by (auto simp: page_inv_def)
  have len: "1 + length xs \<le> pg_capacity page" using page_inv_capacity [OF inv] xl by simp
  then have len1: "1 + length xs \<le> pg_capacity page + 1" by simp
  have ct: "count_tail m (pg_capacity page) 1 h = (1 + length xs, List.last (h # xs))" by (rule count_tail_list [OF xl(3) len1])
  have "List.last (h # xs) \<in> set xl" using xl(1) by (metis last_in_set list.distinct(1))
  then have "List.last (h # xs) \<in> page_area page" "List.last (h # xs) \<notin># live"
    using page_inv_area [OF inv] page_inv_distinct(2) [OF inv] by blast+
  moreover have "m' = m(List.last (h # xs) := pg_local_free page) \<and> same_geom page page'"
  proof -
    have "pa_page_thread_free_collect m page = (m(List.last (h # xs) := pg_local_free page),
        page\<lparr>pg_xthread_free := pa_tf_set_block (pg_xthread_free page) 0, pg_local_free := h,
          pg_used := (pg_used page + 2 ^ 16 - (1 + length xs) mod 2 ^ 16) mod 2 ^ 16\<rparr>, None)"
      using False len unfolding pa_page_thread_free_collect_def Let_def xl(2)
      by (simp add: ct [unfolded One_nat_def] pa_block_set_next_def del: List.last.simps count_tail.simps)
    then show ?thesis using c by (auto simp: same_geom_def simp del: List.last.simps)
  qed
  ultimately show ?thesis by (auto simp: keeps_outside_def simp del: List.last.simps)
qed

lemma same_geom_trans: "same_geom a b \<Longrightarrow> same_geom b c \<Longrightarrow> same_geom a c"
  by (simp add: same_geom_def)

lemma same_geom_area: "same_geom a b \<Longrightarrow> page_area b = page_area a"
  by (simp add: same_geom_def page_area_def)

lemma free_collect_frame:
  assumes inv: "page_inv m page fl ll xl live" and c: "pa_page_free_collect m page force = Some (m', page', err)"
  shows "same_geom page page' \<and> keeps_outside page live m m'"
proof -
  obtain m1 page1 err1 where s: "(if force \<or> pa_page_thread_free page \<noteq> 0 then pa_page_thread_free_collect m page else (m, page, None)) =
      (m1, page1, err1)" by (metis prod_cases3)
  have one: "same_geom page page1 \<and> keeps_outside page live m m1 \<and> (\<exists>ll1 xl1. page_inv m1 page1 fl ll1 xl1 live)"
  proof (cases "force \<or> pa_page_thread_free page \<noteq> 0")
    case True
    then have e: "pa_page_thread_free_collect m page = (m1, page1, err1)" using s by simp
    show ?thesis using thread_free_collect_frame [OF inv e] page_thread_free_collect_inv [OF inv e] by blast
  next
    case False
    then show ?thesis using s inv by (auto simp: same_geom_def keeps_outside_def)
  qed
  then obtain ll1 xl1 where inv1: "page_inv m1 page1 fl ll1 xl1 live" by blast
  have ls: "blist m1 (pg_local_free page1) ll1" using inv1 by (simp add: page_inv_def)
  have tail: "tl' \<in> page_area page1 \<and> tl' \<notin># live" if ft: "find_tail m1 (pg_local_free page1) = Some tl'" "pg_local_free page1 \<noteq> 0" for tl'
  proof -
    obtain bs where bs: "ll1 = pg_local_free page1 # bs" "blist m1 (m1 (pg_local_free page1)) bs"
      using blist_nonzero [OF ft(2) ls] by blast
    then have "tl' = List.last ll1" using find_tail_list [OF bs(2)] ft(1) by simp
    then have "tl' \<in> set ll1" using bs(1) by (metis last_in_set list.distinct(1))
    then show ?thesis using page_inv_area [OF inv1, of tl'] page_inv_distinct(2) [OF inv1, of tl'] by blast
  qed
  have two: "same_geom page1 page' \<and> keeps_outside page1 live m1 m'"
    using c [unfolded pa_page_free_collect_def s] tail
    by (auto simp: same_geom_def keeps_outside_def pa_block_set_next_def split: if_splits option.splits)
  have "page_area page1 = page_area page" using one same_geom_area by blast
  then show ?thesis using one two same_geom_trans by (auto simp: keeps_outside_def)
qed

lemma extend_frame:
  assumes inv: "page_inv m page fl ll xl live" and c: "pa_page_extend_free m page = Some (m', page')"
  shows "same_geom page page' \<and> keeps_outside page live m m'"
proof (cases "pg_free page \<noteq> 0 \<or> pg_reserved page \<le> pg_capacity page")
  case True
  have g: "page_geom page" using inv by (simp add: page_inv_def)
  from True have "pa_page_extend_free m page = Some (m, page)" by (auto simp: pa_page_extend_free_def)
  then show ?thesis using c by (simp add: same_geom_def keeps_outside_def)
next
  case False
  have g: "page_geom page" using inv by (simp add: page_inv_def)
  define n where "n = page_extend_count page"
  have n: "0 < n" "pg_capacity page + n \<le> pg_reserved page" using page_extend_count_bounds [of page] False by (simp_all add: n_def)
  define j where "j = pg_capacity page + n - 1"
  have j: "j < pg_reserved page" "pg_capacity page \<le> j" using n by (simp_all add: j_def)
  obtain m1 where m1: "link_blocks m (pg_block_size page) (block_addr page (pg_capacity page)) (block_addr page j) = Some m1"
    "\<forall>a. a \<notin> block_addr page ` {pg_capacity page..j} \<longrightarrow> m1 a = m a"
    using link_blocks_chain [OF g j(1), of "pg_capacity page" m] j(2) by auto
  have "pa_page_free_list_extend m page (pg_block_size page) n =
      Some (m1(block_addr page j := pg_free page), page\<lparr>pg_free := block_addr page (pg_capacity page)\<rparr>)"
    unfolding pa_page_free_list_extend_def Let_def j_def [symmetric] using m1(1) by (simp add: pa_block_set_next_def)
  then have e: "m' = m1(block_addr page j := pg_free page)" "same_geom page page'"
    using c False by (auto simp: pa_page_extend_free_def n_def [symmetric] same_geom_def)
  have "block_addr page ` {pg_capacity page..j} \<subseteq> page_area page" using j(1) by (auto simp: page_area_def)
  moreover have "block_addr page k \<notin># live" if "pg_capacity page \<le> k" "k \<le> j" for k
  proof
    assume "block_addr page k \<in># live"
    then obtain i where "i < pg_capacity page" "block_addr page k = block_addr page i" using page_inv_block [OF inv] by blast
    then show False using block_addr_inject [OF g, of k i] that j by simp
  qed
  ultimately have A: "a \<notin> block_addr page ` {pg_capacity page..j}" if "a \<notin> page_area page \<or> a \<in># live" for a using that by auto
  have "m' a = m a" if "a \<notin> page_area page \<or> a \<in># live" for a
    using A [OF that] e(1) m1(2) j(2) by (metis atLeastAtMost_iff fun_upd_other image_eqI order_refl)
  then show ?thesis using e(2) by (simp add: keeps_outside_def)
qed

text \<open>The blocks of the pages \<open>P\<close>, found by \<open>ptr_page\<close>; \<open>live\<close> are the blocks outside the free lists of the pages.\<close>

definition page_live :: "(uintptr_t \<Rightarrow> slice_ref) \<Rightarrow> slice_ref \<Rightarrow> uintptr_t multiset \<Rightarrow> uintptr_t multiset" where
  "page_live ptr_page p live = filter_mset (\<lambda>b. ptr_page b = p) live"

lemma page_live_simps [simp]:
  "page_live ptr_page p {#} = {#}" "page_live ptr_page p (live + live') = page_live ptr_page p live + page_live ptr_page p live'"
  "page_live ptr_page p (add_mset b live) = (if ptr_page b = p then add_mset b (page_live ptr_page p live) else page_live ptr_page p live)"
  by (simp_all add: page_live_def)

definition pages_ok :: "(uintptr_t \<Rightarrow> slice_ref) \<Rightarrow> slice_ref set \<Rightarrow> blocks \<Rightarrow> (slice_ref \<Rightarrow> pa_page) \<Rightarrow> uintptr_t multiset \<Rightarrow> bool" where
  "pages_ok ptr_page P m pg live \<longleftrightarrow>
     (\<forall>p \<in> P. (\<exists>fl ll xl. page_inv m (pg p) fl ll xl (page_live ptr_page p live)) \<and>
        (\<forall>a \<in> page_area (pg p). ptr_page a = p)) \<and>
     (\<forall>b \<in># live. ptr_page b \<in> P)"

lemma pages_okD:
  assumes "pages_ok ptr_page P m pg live" "p \<in> P"
  obtains fl ll xl where "page_inv m (pg p) fl ll xl (page_live ptr_page p live)"
  using assms unfolding pages_ok_def by blast

lemma page_inv_frame:
  assumes "page_inv m page fl ll xl live" "\<forall>a \<in> page_area page. m' a = m a"
  shows "page_inv m' page fl ll xl live"
proof -
  have "blist m' q bs = blist m q bs" if "set bs \<subseteq> page_area page" for q bs
    using that assms(2) by (induction bs arbitrary: q) auto
  moreover have "set fl \<subseteq> page_area page" "set ll \<subseteq> page_area page" "set xl \<subseteq> page_area page"
    using page_inv_area [OF assms(1)] by auto
  ultimately show ?thesis using assms(1) by (simp add: page_inv_def)
qed

text \<open>A change to one page.\<close>

lemma pages_ok_change:
  assumes ok: "pages_ok ptr_page P m pg live" and p: "p \<in> P"
    and inv: "page_inv m' page fl ll xl (page_live ptr_page p live')"
    and area: "page_area page = page_area (pg p)" and outside: "keeps_outside (pg p) L m m'"
    and rest: "\<And>q. q \<in> P \<Longrightarrow> q \<noteq> p \<Longrightarrow> page_live ptr_page q live' = page_live ptr_page q live"
    and dom: "\<And>b. b \<in># live' \<Longrightarrow> ptr_page b \<in> P"
  shows "pages_ok ptr_page P m' (pg(p := page)) live'"
  unfolding pages_ok_def
proof (intro conjI ballI)
  fix q assume q: "q \<in> P"
  show "\<exists>fl ll xl. page_inv m' ((pg(p := page)) q) fl ll xl (page_live ptr_page q live')"
  proof (cases "q = p")
    case True
    then show ?thesis using inv by auto
  next
    case False
    obtain fl ll xl where I: "page_inv m (pg q) fl ll xl (page_live ptr_page q live)" by (rule pages_okD [OF ok q])
    have "\<forall>a \<in> page_area (pg q). m' a = m a"
    proof
      fix a assume "a \<in> page_area (pg q)"
      then have "ptr_page a = q" using ok q by (simp add: pages_ok_def)
      moreover have "ptr_page a = p" if "a \<in> page_area (pg p)" using that ok p by (simp add: pages_ok_def)
      ultimately have "a \<notin> page_area (pg p)" using False by blast
      then show "m' a = m a" using outside by (simp add: keeps_outside_def)
    qed
    then show ?thesis using page_inv_frame [OF I, of m'] False rest [OF q False] by auto
  qed
  fix a assume "a \<in> page_area ((pg(p := page)) q)"
  then show "ptr_page a = q" using ok p q area unfolding pages_ok_def by (cases "q = p") auto
qed (use dom in simp)

text \<open>A write into a live block, and blocks that only change hands.\<close>

lemma pages_ok_write:
  assumes ok: "pages_ok ptr_page P m pg live" and b: "b \<in># live"
  shows "pages_ok ptr_page P (m(b := x)) pg live"
proof -
  have p: "ptr_page b \<in> P" using ok b by (simp add: pages_ok_def)
  obtain fl ll xl where I: "page_inv m (pg (ptr_page b)) fl ll xl (page_live ptr_page (ptr_page b) live)" by (rule pages_okD [OF ok p])
  have bl: "b \<in># page_live ptr_page (ptr_page b) live" using b by (simp add: page_live_def)
  then have "b \<notin> set fl" "b \<notin> set ll" "b \<notin> set xl" using page_inv_distinct(2) [OF I bl] by simp_all
  then have "page_inv (m(b := x)) (pg (ptr_page b)) fl ll xl (page_live ptr_page (ptr_page b) live)" using I by (simp add: page_inv_def)
  moreover have "b \<in> page_area (pg (ptr_page b))" using page_inv_area [OF I] bl by blast
  ultimately have "pages_ok ptr_page P (m(b := x)) (pg(ptr_page b := pg (ptr_page b))) live"
    using ok by (intro pages_ok_change [OF ok p, where L = "{#}"]) (auto simp: keeps_outside_def pages_ok_def)
  then show ?thesis by simp
qed

lemma pages_ok_live:
  assumes "pages_ok ptr_page P m pg live" "b \<in># live"
  shows "ptr_page b \<in> P" "b \<noteq> 0" "b AND 3 = 0" "count live b = 1"
proof -
  show p: "ptr_page b \<in> P" using assms by (simp add: pages_ok_def)
  obtain fl ll xl where I: "page_inv m (pg (ptr_page b)) fl ll xl (page_live ptr_page (ptr_page b) live)" by (rule pages_okD [OF assms(1) p])
  have bl: "b \<in># page_live ptr_page (ptr_page b) live" using assms(2) by (simp add: page_live_def)
  obtain i where i: "i < pg_capacity (pg (ptr_page b))" "b = block_addr (pg (ptr_page b)) i" using page_inv_block [OF I, of b] bl by auto
  have g: "page_geom (pg (ptr_page b))" using I by (simp add: page_inv_def)
  show "b \<noteq> 0" using block_addr_nonzero [OF g, of i] g i by (simp add: page_geom_def)
  show "b AND 3 = 0" by (rule block_addr_aligned [OF I bl])
  have "count (page_live ptr_page (ptr_page b) live) b \<le> 1" by (rule page_inv_distinct(3) [OF I])
  moreover have "count (page_live ptr_page (ptr_page b) live) b = count live b" by (simp add: page_live_def)
  moreover have "0 < count live b" using assms(2) unfolding count_greater_zero_iff .
  ultimately show "count live b = 1" by linarith
qed

lemma pages_ok_keeps:
  assumes "pages_ok ptr_page P m pg live" "p \<in> P" "keeps_outside (pg p) (page_live ptr_page p live') m m'" "a \<in># live'"
  shows "m' a = m a"
proof (cases "ptr_page a = p")
  case True
  then have "a \<in># page_live ptr_page p live'" using assms(4) by (simp add: page_live_def)
  then show ?thesis using assms(3) by (simp add: keeps_outside_def)
next
  case False
  then have "a \<notin> page_area (pg p)" using assms(1,2) by (auto simp: pages_ok_def)
  then show ?thesis using assms(3) by (simp add: keeps_outside_def)
qed

section \<open>The invariant of the system\<close>

text \<open>The block a freeing thread still holds, and the page it has put into the state of being freed into.\<close>

fun free_held :: "free_pc \<Rightarrow> uintptr_t multiset" where
  "free_held (Fr_loop b tf) = {#b#}"
| "free_held (Fr_cas b tf) = {#b#}"
| "free_held (Fr_heap b) = {#b#}"
| "free_held (Fr_dload b h) = {#b#}"
| "free_held (Fr_dloop b h d) = {#b#}"
| "free_held (Fr_dcas b h d) = {#b#}"
| "free_held pc = {#}"

fun free_page :: "(uintptr_t \<Rightarrow> slice_ref) \<Rightarrow> free_pc \<Rightarrow> slice_ref multiset" where
  "free_page ptr_page (Fr_heap b) = {#ptr_page b#}"
| "free_page ptr_page (Fr_dload b h) = {#ptr_page b#}"
| "free_page ptr_page (Fr_dloop b h d) = {#ptr_page b#}"
| "free_page ptr_page (Fr_dcas b h d) = {#ptr_page b#}"
| "free_page ptr_page (Fr_reset b) = {#ptr_page b#}"
| "free_page ptr_page (Fr_rcas b tf) = {#ptr_page b#}"
| "free_page ptr_page pc = {#}"

text \<open>What holds at a program point: the link of the block is the value the next exchange compares with, the heap
  is the owning one, and after the block was posted the owner still has to look at the page (\<open>pend\<close>).\<close>

fun thread_ok :: "(uintptr_t \<Rightarrow> slice_ref) \<Rightarrow> slice_ref set \<Rightarrow> uintptr_t \<Rightarrow> slice_ref set \<Rightarrow> blocks \<Rightarrow> free_pc \<Rightarrow> bool" where
  "thread_ok ptr_page P heap pend m (Fr_cas b tf) \<longleftrightarrow> (pa_tf_delayed tf \<noteq> PA_USE_DELAYED_FREE \<longrightarrow> m b = pa_tf_block tf)"
| "thread_ok ptr_page P heap pend m (Fr_dload b h) \<longleftrightarrow> h = heap"
| "thread_ok ptr_page P heap pend m (Fr_dloop b h d) \<longleftrightarrow> h = heap"
| "thread_ok ptr_page P heap pend m (Fr_dcas b h d) \<longleftrightarrow> h = heap \<and> m b = d"
| "thread_ok ptr_page P heap pend m (Fr_reset b) \<longleftrightarrow> ptr_page b \<in> P \<and> ptr_page b \<in> pend"
| "thread_ok ptr_page P heap pend m (Fr_rcas b tf) \<longleftrightarrow> ptr_page b \<in> P \<and> ptr_page b \<in> pend"
| "thread_ok ptr_page P heap pend m pc \<longleftrightarrow> True"

text \<open>The block the owner is working on, the rest of its list, and whether it has already set the flag for this block.\<close>

fun owner_block :: "owner_pc \<Rightarrow> uintptr_t list" where
  "owner_block (Ow_free b n a u) = [b]"
| "owner_block (Ow_collect b n a) = [b]"
| "owner_block (Ow_local b n a) = [b]"
| "owner_block (Ow_reload b n) = [b]"
| "owner_block (Ow_rset b n d) = [b]"
| "owner_block (Ow_rcas b n d) = [b]"
| "owner_block pc = []"

fun owner_rest :: "owner_pc \<Rightarrow> uintptr_t" where
  "owner_rest (Ow_next n a) = n"
| "owner_rest (Ow_free b n a u) = n"
| "owner_rest (Ow_collect b n a) = n"
| "owner_rest (Ow_local b n a) = n"
| "owner_rest (Ow_reload b n) = n"
| "owner_rest (Ow_rset b n d) = n"
| "owner_rest (Ow_rcas b n d) = n"
| "owner_rest pc = 0"

fun owner_settled :: "owner_pc \<Rightarrow> bool" where
  "owner_settled (Ow_free b n a (Us_result r)) \<longleftrightarrow> r"
| "owner_settled (Ow_collect b n a) \<longleftrightarrow> True"
| "owner_settled (Ow_local b n a) \<longleftrightarrow> True"
| "owner_settled pc \<longleftrightarrow> False"

fun use_ok :: "bool \<Rightarrow> use_pc \<Rightarrow> bool" where
  "use_ok ov (Us_cas n tf) \<longleftrightarrow> pa_tf_delayed tf \<noteq> PA_DELAYED_FREEING \<and> (ov \<or> pa_tf_delayed tf \<noteq> PA_NEVER_DELAYED_FREE)"
| "use_ok ov u \<longleftrightarrow> True"

fun owner_ok :: "slice_ref set \<Rightarrow> uintptr_t \<Rightarrow> mt_state \<Rightarrow> owner_pc \<Rightarrow> bool" where
  "owner_ok P heap s (Ow_use p delay ov u) \<longleftrightarrow> p \<in> P \<and> (delay = PA_USE_DELAYED_FREE \<or> delay = PA_NEVER_DELAYED_FREE) \<and>
     (ov \<longrightarrow> delay = PA_USE_DELAYED_FREE \<and> pg_xheap (mt_page s p) = heap) \<and> use_ok ov u"
| "owner_ok P heap s (Ow_free b n a u) \<longleftrightarrow> use_ok False u"
| "owner_ok P heap s (Ow_rcas b n d) \<longleftrightarrow> mt_mem s b = d"
| "owner_ok P heap s pc \<longleftrightarrow> True"

text \<open>\<open>ds\<close> is the delayed-free list of the heap and \<open>ts\<close> the rest of the list the owner took over.  All blocks that are
  in no free list of their page:\<close>

definition mt_blocks :: "mt_sys \<Rightarrow> uintptr_t list \<Rightarrow> uintptr_t list \<Rightarrow> uintptr_t multiset" where
  "mt_blocks s ds ts = sy_client s + sum_list (map free_held (sy_threads s)) + mset ds + mset ts + mset (owner_block (sy_owner s))"

text \<open>The pages that the owner still has to look at.\<close>

definition mt_pending :: "(uintptr_t \<Rightarrow> slice_ref) \<Rightarrow> owner_pc \<Rightarrow> uintptr_t list \<Rightarrow> uintptr_t list \<Rightarrow> slice_ref set" where
  "mt_pending ptr_page ow ds ts = ptr_page ` (set ds \<union> set ts \<union> (if owner_settled ow then {} else set (owner_block ow)))"

definition flags_ok :: "(uintptr_t \<Rightarrow> slice_ref) \<Rightarrow> slice_ref set \<Rightarrow> uintptr_t \<Rightarrow> slice_ref set \<Rightarrow> mt_state \<Rightarrow> free_pc list \<Rightarrow> bool" where
  "flags_ok ptr_page P heap pend st rs \<longleftrightarrow> (\<forall>p \<in> P.
     count (sum_list (map (free_page ptr_page) rs)) p = (if flag st p = PA_DELAYED_FREEING then 1 else 0) \<and>
     (flag st p = PA_NO_DELAYED_FREE \<longrightarrow> p \<in> pend) \<and>
     (flag st p \<noteq> PA_NEVER_DELAYED_FREE \<longrightarrow> pg_xheap (mt_page st p) = heap))"

definition mt_inv :: "(uintptr_t \<Rightarrow> slice_ref) \<Rightarrow> slice_ref set \<Rightarrow> uintptr_t \<Rightarrow> mt_sys \<Rightarrow> uintptr_t list \<Rightarrow> uintptr_t list \<Rightarrow> bool" where
  "mt_inv ptr_page P heap s ds ts \<longleftrightarrow> heap \<noteq> 0 \<and>
     blist (mt_mem (sy_state s)) (mt_delayed (sy_state s) heap) ds \<and> blist (mt_mem (sy_state s)) (owner_rest (sy_owner s)) ts \<and>
     pages_ok ptr_page P (mt_mem (sy_state s)) (mt_page (sy_state s)) (mt_blocks s ds ts) \<and>
     (\<forall>t < length (sy_threads s). thread_ok ptr_page P heap (mt_pending ptr_page (sy_owner s) ds ts) (mt_mem (sy_state s)) (sy_threads s ! t)) \<and>
     flags_ok ptr_page P heap (mt_pending ptr_page (sy_owner s) ds ts) (sy_state s) (sy_threads s) \<and>
     owner_ok P heap (sy_state s) (sy_owner s)"

lemma sum_list_swap:
  "t < length xs \<Longrightarrow> sum_list (map f (xs[t := y])) + f (xs ! t) = sum_list (map f xs) + (f y :: 'b multiset)"
proof (induction xs arbitrary: t)
  case (Cons x xs)
  then show ?case by (cases t) (auto simp: ac_simps)
qed simp

lemma sum_list_same: "t < length xs \<Longrightarrow> f y = f (xs ! t) \<Longrightarrow> sum_list (map f (xs[t := y])) = (sum_list (map f xs) :: 'b multiset)"
  using sum_list_swap [of t xs f y] by simp

lemma sum_list_member: "t < length xs \<Longrightarrow> b \<in># f (xs ! t) \<Longrightarrow> b \<in># (sum_list (map f xs) :: 'b multiset)"
  by (induction xs arbitrary: t) (auto simp: nth_Cons split: nat.splits)

lemma sum_list_twice:
  assumes "t < length xs" "t' < length xs" "t \<noteq> t'" "b \<in># free_held (xs ! t)" "b \<in># free_held (xs ! t')"
  shows "1 < count (sum_list (map free_held xs)) b"
proof -
  have "sum_list (map free_held xs) = sum_list (map free_held (xs[t := Fr_idle])) + free_held (xs ! t)"
    using sum_list_swap [OF assms(1), of free_held Fr_idle] by simp
  moreover have "b \<in># sum_list (map free_held (xs[t := Fr_idle]))"
    using assms by (intro sum_list_member [of t']) simp_all
  ultimately have "count (sum_list (map free_held xs)) b = count (sum_list (map free_held (xs[t := Fr_idle]))) b + count (free_held (xs ! t)) b"
    "0 < count (sum_list (map free_held (xs[t := Fr_idle]))) b" "0 < count (free_held (xs ! t)) b"
    using assms(4) by simp_all
  then show ?thesis by linarith
qed

lemma thread_ok_mem:
  "thread_ok ptr_page P heap pend m pc \<Longrightarrow> pend \<subseteq> pend' \<Longrightarrow> (\<And>b. b \<in># free_held pc \<Longrightarrow> m' b = m b) \<Longrightarrow>
   thread_ok ptr_page P heap pend' m' pc"
  by (cases pc) auto

text \<open>Every block is in one place only.\<close>

lemma count_blocks:
  assumes "pages_ok ptr_page P m pg (mt_blocks s ds ts)"
  shows "count (sy_client s) b + count (sum_list (map free_held (sy_threads s))) b + count (mset ds) b + count (mset ts) b +
    count (mset (owner_block (sy_owner s))) b \<le> 1"
proof (cases "b \<in># mt_blocks s ds ts")
  case True
  then show ?thesis using pages_ok_live(4) [OF assms True] by (simp add: mt_blocks_def)
next
  case False
  then have "count (mt_blocks s ds ts) b = 0" unfolding not_in_iff .
  then show ?thesis unfolding mt_blocks_def count_union by linarith
qed

lemma thread_only:
  assumes ok: "pages_ok ptr_page P m pg (mt_blocks s ds ts)" and t: "t < length (sy_threads s)" and b: "b \<in># free_held (sy_threads s ! t)"
  shows "b \<notin># sy_client s" "b \<notin> set ds" "b \<notin> set ts" "b \<notin> set (owner_block (sy_owner s))"
    "\<And>t'. t' < length (sy_threads s) \<Longrightarrow> t' \<noteq> t \<Longrightarrow> b \<notin># free_held (sy_threads s ! t')" "b \<in># mt_blocks s ds ts"
proof -
  have m: "b \<in># sum_list (map free_held (sy_threads s))" using t b by (rule sum_list_member)
  then show "b \<in># mt_blocks s ds ts" by (simp add: mt_blocks_def)
  have c: "0 < count (sum_list (map free_held (sy_threads s))) b" using m unfolding count_greater_zero_iff .
  note C = count_blocks [OF ok, of b]
  show "b \<notin># sy_client s" "b \<notin> set ds" "b \<notin> set ts" "b \<notin> set (owner_block (sy_owner s))"
    using C c by (auto simp: not_in_iff [of b] count_mset_0_iff [symmetric] simp del: count_mset_0_iff count_greater_zero_iff)
  show "b \<notin># free_held (sy_threads s ! t')" if "t' < length (sy_threads s)" "t' \<noteq> t" for t'
    using sum_list_twice [OF t that(1), of b] b that(2) C by (auto simp del: count_greater_zero_iff)
qed

lemma client_only:
  assumes ok: "pages_ok ptr_page P m pg (mt_blocks s ds ts)" and b: "b \<in># sy_client s"
  shows "b \<notin> set ds" "b \<notin> set ts" "b \<notin> set (owner_block (sy_owner s))" "t < length (sy_threads s) \<Longrightarrow> b \<notin># free_held (sy_threads s ! t)"
    "b \<in># mt_blocks s ds ts"
proof -
  show "b \<in># mt_blocks s ds ts" using b by (simp add: mt_blocks_def)
  have c: "0 < count (sy_client s) b" using b unfolding count_greater_zero_iff .
  note C = count_blocks [OF ok, of b]
  show "b \<notin> set ds" "b \<notin> set ts" "b \<notin> set (owner_block (sy_owner s))"
    using C c by (auto simp: count_mset_0_iff [symmetric] simp del: count_mset_0_iff count_greater_zero_iff)
  show "t < length (sy_threads s) \<Longrightarrow> b \<notin># free_held (sy_threads s ! t)" using thread_only(1) [OF ok] b by blast
qed

lemma owner_only:
  assumes ok: "pages_ok ptr_page P m pg (mt_blocks s ds ts)" and b: "b \<in> set (owner_block (sy_owner s))"
  shows "b \<notin> set ds" "b \<notin> set ts" "b \<notin># sy_client s" "t < length (sy_threads s) \<Longrightarrow> b \<notin># free_held (sy_threads s ! t)"
    "b \<in># mt_blocks s ds ts"
proof -
  show "b \<in># mt_blocks s ds ts" using b by (simp add: mt_blocks_def)
  have c: "0 < count (mset (owner_block (sy_owner s))) b" using b unfolding count_greater_zero_iff by simp
  note C = count_blocks [OF ok, of b]
  show "b \<notin> set ds" "b \<notin> set ts" 
    using C c by (auto simp: count_mset_0_iff [symmetric] simp del: count_mset_0_iff count_greater_zero_iff)
  show "b \<notin># sy_client s" using client_only(3) [OF ok] b by blast
  show "t < length (sy_threads s) \<Longrightarrow> b \<notin># free_held (sy_threads s ! t)" using thread_only(4) [OF ok] b by blast
qed

section \<open>Steps of freeing threads\<close>

text \<open>A thread moves on and writes at most to its own block.\<close>

lemma thread_local_step:
  assumes inv: "mt_inv ptr_page P heap s ds ts" and t: "t < length (sy_threads s)"
    and mem: "\<And>a. a \<notin># free_held (sy_threads s ! t) \<Longrightarrow> m' a = mt_mem (sy_state s) a"
    and pc: "free_held pc = free_held (sy_threads s ! t)" "free_page ptr_page pc = free_page ptr_page (sy_threads s ! t)"
      "thread_ok ptr_page P heap (mt_pending ptr_page (sy_owner s) ds ts) m' pc"
  shows "mt_inv ptr_page P heap (s\<lparr>sy_state := (sy_state s)\<lparr>mt_mem := m'\<rparr>, sy_threads := (sy_threads s)[t := pc]\<rparr>) ds ts"
proof -
  have ok: "pages_ok ptr_page P (mt_mem (sy_state s)) (mt_page (sy_state s)) (mt_blocks s ds ts)" using inv by (simp add: mt_inv_def)
  note only = thread_only [OF ok t]
  have m': "m' = mt_mem (sy_state s) \<or> (\<exists>b x. b \<in># free_held (sy_threads s ! t) \<and> m' = (mt_mem (sy_state s))(b := x))"
  proof (cases "free_held (sy_threads s ! t) = {#}")
    case True
    then show ?thesis using mem by auto
  next
    case False
    then obtain b where b: "free_held (sy_threads s ! t) = {#b#}" by (cases "sy_threads s ! t") auto
    then have "m' = (mt_mem (sy_state s))(b := m' b)" using mem by auto
    then show ?thesis using b by (metis multi_member_last)
  qed
  have bl: "blist m' q bs = blist (mt_mem (sy_state s)) q bs" if "set bs \<subseteq> set ds \<union> set ts" for q bs
  proof -
    have "b \<notin> set bs" if "b \<in># free_held (sy_threads s ! t)" for b
      using only(2,3) [OF that] \<open>set bs \<subseteq> set ds \<union> set ts\<close> by blast
    then show ?thesis using m' by auto
  qed
  have "pages_ok ptr_page P m' (mt_page (sy_state s)) (mt_blocks s ds ts)" using m' pages_ok_write [OF ok] only(6) ok by auto
  moreover have "mt_blocks (s\<lparr>sy_state := st, sy_threads := (sy_threads s)[t := pc]\<rparr>) ds ts = mt_blocks s ds ts" for st
    using sum_list_same [OF t pc(1)] by (simp add: mt_blocks_def)
  moreover have "thread_ok ptr_page P heap (mt_pending ptr_page (sy_owner s) ds ts) m' ((sy_threads s)[t := pc] ! t')"
    if "t' < length (sy_threads s)" for t'
  proof (cases "t' = t")
    case True
    then show ?thesis using pc(3) t by simp
  next
    case False
    have "thread_ok ptr_page P heap (mt_pending ptr_page (sy_owner s) ds ts) (mt_mem (sy_state s)) (sy_threads s ! t')"
      using inv that by (simp add: mt_inv_def)
    then have "thread_ok ptr_page P heap (mt_pending ptr_page (sy_owner s) ds ts) m' (sy_threads s ! t')"
      by (rule thread_ok_mem) (use mem only(5) [OF _ that False] in blast)+
    then show ?thesis using False by simp
  qed
  moreover have "flags_ok ptr_page P heap (mt_pending ptr_page (sy_owner s) ds ts) ((sy_state s)\<lparr>mt_mem := m'\<rparr>) ((sy_threads s)[t := pc])"
    using inv sum_list_same [OF t pc(2)] by (simp add: mt_inv_def flags_ok_def)
  moreover have "owner_ok P heap ((sy_state s)\<lparr>mt_mem := m'\<rparr>) (sy_owner s)"
  proof -
    have "b \<in> set (owner_block (sy_owner s)) \<Longrightarrow> m' b = mt_mem (sy_state s) b" for b using mem only(4) by blast
    moreover have "owner_ok P heap (sy_state s) (sy_owner s)" using inv by (simp add: mt_inv_def)
    ultimately show ?thesis by (cases "sy_owner s") simp_all
  qed
  ultimately show ?thesis using inv bl by (simp add: mt_inv_def)
qed

lemma pages_ok_field:
  assumes ok: "pages_ok ptr_page P m pg live" and p: "p \<in> P"
    and page: "page = (pg p)\<lparr>pg_xthread_free := v, pg_xheap := h\<rparr>" "pa_tf_block v = pa_tf_block (pg_xthread_free (pg p))"
  shows "pages_ok ptr_page P m (pg(p := page)) live"
proof -
  obtain fl ll xl where I: "page_inv m (pg p) fl ll xl (page_live ptr_page p live)" by (rule pages_okD [OF ok p])
  have "page_inv m page fl ll xl (page_live ptr_page p live)"
    using I page by (simp add: page_inv_def page_geom_def page_blocks_def)
  then show ?thesis
    by (rule pages_ok_change [OF ok p, where L = "{#}"])
       (use ok page(1) in \<open>simp_all add: keeps_outside_def pages_ok_def page_area_def\<close>)
qed

lemma pages_ok_xfree:
  assumes "pages_ok ptr_page P (mt_mem st) (mt_page st) live" "p \<in> P" "pa_tf_block v = pa_tf_block (xfree st p)"
  shows "pages_ok ptr_page P (mt_mem (set_xfree p v st)) (mt_page (set_xfree p v st)) live"
  using pages_ok_field [OF assms(1,2) _ assms(3), of _ "pg_xheap (mt_page st p)"] by (simp add: set_xfree_def)

lemma set_xfree_simps [simp]:
  "mt_mem (set_xfree p v st) = mt_mem st" "mt_delayed (set_xfree p v st) = mt_delayed st"
  "xfree (set_xfree p v st) q = (if q = p then v else xfree st q)"
  "pg_xheap (mt_page (set_xfree p v st) q) = pg_xheap (mt_page st q)"
  by (simp_all add: set_xfree_def)

lemma owner_ok_xfree [simp]: "owner_ok P heap (set_xfree p v st) pc = owner_ok P heap st pc"
  by (cases pc) simp_all

text \<open>A thread changes the flag of a page.\<close>

lemma thread_flag_step:
  assumes inv: "mt_inv ptr_page P heap s ds ts" and t: "t < length (sy_threads s)" and p: "p \<in> P"
    and pc: "free_held pc = free_held (sy_threads s ! t)"
      "thread_ok ptr_page P heap (mt_pending ptr_page (sy_owner s) ds ts) (mt_mem (sy_state s)) pc"
    and fl: "flags_ok ptr_page P heap (mt_pending ptr_page (sy_owner s) ds ts)
      (set_xfree p (pa_tf_set_delayed (xfree (sy_state s) p) d) (sy_state s)) ((sy_threads s)[t := pc])"
  shows "mt_inv ptr_page P heap (s\<lparr>sy_state := set_xfree p (pa_tf_set_delayed (xfree (sy_state s) p) d) (sy_state s),
    sy_threads := (sy_threads s)[t := pc]\<rparr>) ds ts"
proof -
  have "pages_ok ptr_page P (mt_mem (sy_state s)) (mt_page (sy_state s)) (mt_blocks s ds ts)" using inv by (simp add: mt_inv_def)
  note ok = pages_ok_xfree [OF this p, of "pa_tf_set_delayed (xfree (sy_state s) p) d"]
  have "mt_blocks (s\<lparr>sy_state := st, sy_threads := (sy_threads s)[t := pc]\<rparr>) ds ts = mt_blocks s ds ts" for st
    using sum_list_same [OF t pc(1)] by (simp add: mt_blocks_def)
  moreover have "thread_ok ptr_page P heap (mt_pending ptr_page (sy_owner s) ds ts) (mt_mem (sy_state s)) ((sy_threads s)[t := pc] ! t')"
    if "t' < length (sy_threads s)" for t' using inv that pc(2) by (cases "t' = t") (simp_all add: mt_inv_def)
  ultimately show ?thesis using inv ok fl by (simp add: mt_inv_def)
qed

lemma count_free_page:
  assumes "t < length rs" "free_page ptr_page (rs ! t) = {#}" "free_page ptr_page pc = {#p#}"
  shows "sum_list (map (free_page ptr_page) (rs[t := pc])) = add_mset p (sum_list (map (free_page ptr_page) rs))"
  using sum_list_swap [OF assms(1), of "free_page ptr_page" pc] assms by simp

lemma freeing_page:
  assumes inv: "mt_inv ptr_page P heap s ds ts" and t: "t < length (sy_threads s)" and p: "p \<in># free_page ptr_page (sy_threads s ! t)"
  shows "p \<in> P" "flag (sy_state s) p = PA_DELAYED_FREEING" "pg_xheap (mt_page (sy_state s) p) = heap"
proof -
  have ok: "pages_ok ptr_page P (mt_mem (sy_state s)) (mt_page (sy_state s)) (mt_blocks s ds ts)"
    and th: "thread_ok ptr_page P heap (mt_pending ptr_page (sy_owner s) ds ts) (mt_mem (sy_state s)) (sy_threads s ! t)"
    and fl: "flags_ok ptr_page P heap (mt_pending ptr_page (sy_owner s) ds ts) (sy_state s) (sy_threads s)"
    using inv t by (simp_all add: mt_inv_def)
  show P: "p \<in> P"
    using p th pages_ok_live(1) [OF ok thread_only(6) [OF ok t]] by (cases "sy_threads s ! t") auto
  have "p \<in># sum_list (map (free_page ptr_page) (sy_threads s))" using t p by (rule sum_list_member)
  then have "0 < count (sum_list (map (free_page ptr_page) (sy_threads s))) p" unfolding count_greater_zero_iff .
  then show "flag (sy_state s) p = PA_DELAYED_FREEING" using fl P by (auto simp: flags_ok_def simp del: count_greater_zero_iff split: if_splits)
  then show "pg_xheap (mt_page (sy_state s) p) = heap" using fl P by (simp add: flags_ok_def)
qed

text \<open>The successful exchanges of \<open>pa_free_block_delayed_mt\<close>.\<close>

lemma thread_push_step:
  assumes inv: "mt_inv ptr_page P heap s ds ts" and t: "t < length (sy_threads s)"
    and pc: "sy_threads s ! t = Fr_cas b tf" "xfree (sy_state s) (ptr_page b) = tf" "pa_tf_delayed tf \<noteq> PA_USE_DELAYED_FREE"
  shows "mt_inv ptr_page P heap (s\<lparr>sy_state := set_xfree (ptr_page b) (pa_tf_set_block tf b) (sy_state s),
    sy_threads := (sy_threads s)[t := Fr_idle]\<rparr>) ds ts"
proof -
  define p where "p = ptr_page b"
  define m where "m = mt_mem (sy_state s)"
  have ok: "pages_ok ptr_page P m (mt_page (sy_state s)) (mt_blocks s ds ts)" using inv by (simp add: mt_inv_def m_def)
  have b: "b \<in># mt_blocks s ds ts" using thread_only(6) [OF ok t, of b] pc(1) by simp
  note bl = pages_ok_live [OF ok b]
  have p: "p \<in> P" using bl(1) by (simp add: p_def)
  have mb: "m b = pa_tf_block tf" using inv t pc by (auto simp: mt_inv_def m_def dest: spec [of _ t])
  obtain fl ll xl where I: "page_inv m (mt_page (sy_state s) p) fl ll xl (page_live ptr_page p (mt_blocks s ds ts))"
    by (rule pages_okD [OF ok p])
  have push: "thread_free_push m (mt_page (sy_state s) p) b = (m, (mt_page (sy_state s) p)\<lparr>pg_xthread_free := pa_tf_set_block tf b\<rparr>)"
    using pc(2) mb by (simp add: thread_free_push_def Let_def pa_block_set_next_def p_def fun_upd_idem)
  have "b \<in># page_live ptr_page p (mt_blocks s ds ts)" using b by (simp add: page_live_def p_def)
  note I' = thread_free_push_inv [OF I this push]
  define L where "L = mt_blocks s ds ts - {#b#}"
  have Lb: "mt_blocks s ds ts = add_mset b L" using b by (simp add: L_def)
  have rest: "mt_blocks (s\<lparr>sy_state := st, sy_threads := (sy_threads s)[t := Fr_idle]\<rparr>) ds ts = L" for st
  proof -
    have "sum_list (map free_held (sy_threads s)) = add_mset b (sum_list (map free_held ((sy_threads s)[t := Fr_idle])))"
      using sum_list_swap [OF t, of free_held Fr_idle] pc(1) by simp
    then show ?thesis by (simp add: L_def mt_blocks_def)
  qed
  have ok': "pages_ok ptr_page P m ((mt_page (sy_state s))(p := (mt_page (sy_state s) p)\<lparr>pg_xthread_free := pa_tf_set_block tf b\<rparr>)) L"
  proof (rule pages_ok_change [OF ok p, where L = "{#}"])
    show "page_inv m ((mt_page (sy_state s) p)\<lparr>pg_xthread_free := pa_tf_set_block tf b\<rparr>) fl ll (b # xl) (page_live ptr_page p L)"
      using I' by (simp add: Lb p_def)
    show "\<And>b'. b' \<in># L \<Longrightarrow> ptr_page b' \<in> P" using ok Lb by (simp add: pages_ok_def)
  qed (simp_all add: Lb page_area_def keeps_outside_def p_def)
  have flag: "flags_ok ptr_page P heap (mt_pending ptr_page (sy_owner s) ds ts) (set_xfree p (pa_tf_set_block tf b) (sy_state s)) ((sy_threads s)[t := Fr_idle])"
    using inv sum_list_same [OF t, of "free_page ptr_page" Fr_idle] pc bl(3) by (simp add: mt_inv_def flags_ok_def p_def)
  have "thread_ok ptr_page P heap (mt_pending ptr_page (sy_owner s) ds ts) m ((sy_threads s)[t := Fr_idle] ! t')"
    if "t' < length (sy_threads s)" for t' using inv that by (cases "t' = t") (simp_all add: mt_inv_def m_def)
  moreover have "pages_ok ptr_page P m (mt_page (set_xfree p (pa_tf_set_block tf b) (sy_state s))) L"
    using ok' by (simp add: set_xfree_def)
  ultimately show ?thesis using inv flag rest by (simp add: mt_inv_def p_def [symmetric] m_def)
qed

lemma thread_post_step:
  assumes inv: "mt_inv ptr_page P heap s ds ts" and t: "t < length (sy_threads s)"
    and pc: "sy_threads s ! t = Fr_dcas b heap d" "mt_delayed (sy_state s) heap = d"
  shows "mt_inv ptr_page P heap (s\<lparr>sy_state := (sy_state s)\<lparr>mt_delayed := (mt_delayed (sy_state s))(heap := b)\<rparr>,
    sy_threads := (sy_threads s)[t := Fr_reset b]\<rparr>) (b # ds) ts"
proof -
  have ok: "pages_ok ptr_page P (mt_mem (sy_state s)) (mt_page (sy_state s)) (mt_blocks s ds ts)" using inv by (simp add: mt_inv_def)
  have b: "b \<in># mt_blocks s ds ts" using thread_only(6) [OF ok t, of b] pc(1) by simp
  note bl = pages_ok_live [OF ok b]
  have th: "\<And>t'. t' < length (sy_threads s) \<Longrightarrow>
      thread_ok ptr_page P heap (mt_pending ptr_page (sy_owner s) ds ts) (mt_mem (sy_state s)) (sy_threads s ! t')" using inv by (simp add: mt_inv_def)
  have mb: "mt_mem (sy_state s) b = d" using th [OF t] pc(1) by simp
  have same: "mt_blocks (s\<lparr>sy_state := st, sy_threads := (sy_threads s)[t := Fr_reset b]\<rparr>) (b # ds) ts = mt_blocks s ds ts" for st
    using sum_list_swap [OF t, of free_held "Fr_reset b"] pc(1) by (simp add: mt_blocks_def)
  have pend: "mt_pending ptr_page (sy_owner s) (b # ds) ts = insert (ptr_page b) (mt_pending ptr_page (sy_owner s) ds ts)"
    by (simp add: mt_pending_def)
  have "thread_ok ptr_page P heap (mt_pending ptr_page (sy_owner s) (b # ds) ts) (mt_mem (sy_state s)) ((sy_threads s)[t := Fr_reset b] ! t')"
    if "t' < length (sy_threads s)" for t'
  proof (cases "t' = t")
    case True
    then show ?thesis using t bl(1) by (simp add: pend)
  next
    case False
    then show ?thesis using thread_ok_mem [OF th [OF that], of _ "mt_mem (sy_state s)"] by (simp add: pend subset_insertI)
  qed
  moreover have "flags_ok ptr_page P heap (mt_pending ptr_page (sy_owner s) (b # ds) ts)
      ((sy_state s)\<lparr>mt_delayed := (mt_delayed (sy_state s))(heap := b)\<rparr>) ((sy_threads s)[t := Fr_reset b])"
    using inv sum_list_same [OF t, of "free_page ptr_page" "Fr_reset b"] pc(1) by (simp add: mt_inv_def flags_ok_def pend)
  moreover have "owner_ok P heap ((sy_state s)\<lparr>mt_delayed := (mt_delayed (sy_state s))(heap := b)\<rparr>) (sy_owner s)"
    using inv by (cases "sy_owner s") (simp_all add: mt_inv_def)
  ultimately show ?thesis using inv same mb pc(2) bl(2) by (simp add: mt_inv_def)
qed

lemma thread_step_inv:
  assumes inv: "mt_inv ptr_page P heap s ds ts" and t: "t < length (sy_threads s)"
    and step: "free_block_delayed_mt ptr_page spurious (sy_threads s ! t) (sy_state s) = (pc, st)"
  shows "\<exists>ds'. mt_inv ptr_page P heap (s\<lparr>sy_state := st, sy_threads := (sy_threads s)[t := pc]\<rparr>) ds' ts \<and>
    set ds' \<subseteq> set ds \<union> {b. flag (sy_state s) (ptr_page b) = PA_DELAYED_FREEING}"
proof -
  have same: "\<exists>ds'. mt_inv ptr_page P heap (s\<lparr>sy_state := st, sy_threads := (sy_threads s)[t := pc]\<rparr>) ds' ts \<and>
    set ds' \<subseteq> set ds \<union> {b. flag (sy_state s) (ptr_page b) = PA_DELAYED_FREEING}"
    if "st = (sy_state s)\<lparr>mt_mem := m'\<rparr>" "\<And>a. a \<notin># free_held (sy_threads s ! t) \<Longrightarrow> m' a = mt_mem (sy_state s) a"
      "free_held pc = free_held (sy_threads s ! t)" "free_page ptr_page pc = free_page ptr_page (sy_threads s ! t)"
      "thread_ok ptr_page P heap (mt_pending ptr_page (sy_owner s) ds ts) m' pc" for m'
    using thread_local_step [OF inv t that(2-5)] that(1) by blast
  have keep: "\<exists>ds'. mt_inv ptr_page P heap (s\<lparr>sy_state := st, sy_threads := (sy_threads s)[t := pc]\<rparr>) ds' ts \<and>
    set ds' \<subseteq> set ds \<union> {b. flag (sy_state s) (ptr_page b) = PA_DELAYED_FREEING}"
    if "st = sy_state s" "free_held pc = free_held (sy_threads s ! t)" "free_page ptr_page pc = free_page ptr_page (sy_threads s ! t)"
      "thread_ok ptr_page P heap (mt_pending ptr_page (sy_owner s) ds ts) (mt_mem (sy_state s)) pc"
    by (rule same [where m' = "mt_mem (sy_state s)"]) (use that in simp_all)
  have th: "thread_ok ptr_page P heap (mt_pending ptr_page (sy_owner s) ds ts) (mt_mem (sy_state s)) (sy_threads s ! t)"
    and fl: "flags_ok ptr_page P heap (mt_pending ptr_page (sy_owner s) ds ts) (sy_state s) (sy_threads s)"
    and ok: "pages_ok ptr_page P (mt_mem (sy_state s)) (mt_page (sy_state s)) (mt_blocks s ds ts)"
    using inv t by (simp_all add: mt_inv_def)
  show ?thesis
  proof (cases "sy_threads s ! t")
    case Fr_idle
    then show ?thesis using step inv by (intro keep) auto
  next
    case (Fr_loop b tf)
    then show ?thesis using step
      by (intro same [where m' = "mt_mem st"]) (auto simp: pa_block_set_next_def split: if_splits)
  next
    case (Fr_cas b tf)
    show ?thesis
    proof (cases "spurious \<or> xfree (sy_state s) (ptr_page b) \<noteq> tf")
      case True
      then show ?thesis using step Fr_cas by (intro keep) auto
    next
      case False
      show ?thesis
      proof (cases "pa_tf_delayed tf = PA_USE_DELAYED_FREE")
        case True
        have e: "pc = Fr_heap b" "st = set_xfree (ptr_page b) (pa_tf_set_delayed tf PA_DELAYED_FREEING) (sy_state s)"
          using step Fr_cas False True by simp_all
        have P: "ptr_page b \<in> P" using pages_ok_live(1) [OF ok thread_only(6) [OF ok t, of b]] Fr_cas by simp
        have "sum_list (map (free_page ptr_page) ((sy_threads s)[t := Fr_heap b])) =
            add_mset (ptr_page b) (sum_list (map (free_page ptr_page) (sy_threads s)))"
          by (rule count_free_page [OF t]) (simp_all add: Fr_cas)
        then have "flags_ok ptr_page P heap (mt_pending ptr_page (sy_owner s) ds ts)
            (set_xfree (ptr_page b) (pa_tf_set_delayed (xfree (sy_state s) (ptr_page b)) PA_DELAYED_FREEING) (sy_state s)) ((sy_threads s)[t := Fr_heap b])"
          using fl P False True by (auto simp: flags_ok_def)
        from thread_flag_step [OF inv t P _ _ this] show ?thesis using e False Fr_cas by auto
      next
        case f: False
        then show ?thesis using thread_push_step [OF inv t Fr_cas _ f] step Fr_cas False by auto
      qed
    qed
  next
    case (Fr_heap b)
    have "pg_xheap (mt_page (sy_state s) (ptr_page b)) = heap" using freeing_page(3) [OF inv t, of "ptr_page b"] Fr_heap by simp
    moreover have "heap \<noteq> 0" using inv by (simp add: mt_inv_def)
    ultimately show ?thesis using step Fr_heap by (intro keep) auto
  next
    case (Fr_dload b h)
    then show ?thesis using step th by (intro keep) auto
  next
    case (Fr_dloop b h d)
    then show ?thesis using step th
      by (intro same [where m' = "mt_mem st"]) (auto simp: pa_block_set_next_def)
  next
    case (Fr_dcas b h d)
    show ?thesis
    proof (cases "spurious \<or> mt_delayed (sy_state s) h \<noteq> d")
      case True
      then show ?thesis using step Fr_dcas th by (intro keep) auto
    next
      case False
      then show ?thesis using thread_post_step [OF inv t, of b d] step Fr_dcas th freeing_page(2) [OF inv t, of "ptr_page b"]
        by (intro exI [of _ "b # ds"]) auto
    qed
  next
    case (Fr_reset b)
    then show ?thesis using step th by (intro keep) auto
  next
    case (Fr_rcas b tf)
    show ?thesis
    proof (cases "spurious \<or> xfree (sy_state s) (ptr_page b) \<noteq> tf")
      case True
      then show ?thesis using step Fr_rcas th by (intro keep) auto
    next
      case False
      have e: "pc = Fr_idle" "st = set_xfree (ptr_page b) (pa_tf_set_delayed tf PA_NO_DELAYED_FREE) (sy_state s)"
        using step Fr_rcas False by simp_all
      have P: "ptr_page b \<in> P" "ptr_page b \<in> mt_pending ptr_page (sy_owner s) ds ts" using th Fr_rcas by simp_all
      have fr: "flag (sy_state s) (ptr_page b) = PA_DELAYED_FREEING" "pg_xheap (mt_page (sy_state s) (ptr_page b)) = heap"
        using freeing_page(2,3) [OF inv t, of "ptr_page b"] Fr_rcas by simp_all
      have sum: "sum_list (map (free_page ptr_page) (sy_threads s)) =
          add_mset (ptr_page b) (sum_list (map (free_page ptr_page) ((sy_threads s)[t := Fr_idle])))"
        using sum_list_swap [OF t, of "free_page ptr_page" Fr_idle] Fr_rcas by simp
      have "flags_ok ptr_page P heap (mt_pending ptr_page (sy_owner s) ds ts)
          (set_xfree (ptr_page b) (pa_tf_set_delayed (xfree (sy_state s) (ptr_page b)) PA_NO_DELAYED_FREE) (sy_state s)) ((sy_threads s)[t := Fr_idle])"
        unfolding flags_ok_def
      proof (rule ballI)
        fix p assume p: "p \<in> P"
        note F = fl [unfolded flags_ok_def sum, rule_format, OF p]
        show "count (sum_list (map (free_page ptr_page) ((sy_threads s)[t := Fr_idle]))) p =
            (if flag (set_xfree (ptr_page b) (pa_tf_set_delayed (xfree (sy_state s) (ptr_page b)) PA_NO_DELAYED_FREE) (sy_state s)) p =
              PA_DELAYED_FREEING then 1 else 0) \<and>
          (flag (set_xfree (ptr_page b) (pa_tf_set_delayed (xfree (sy_state s) (ptr_page b)) PA_NO_DELAYED_FREE) (sy_state s)) p =
              PA_NO_DELAYED_FREE \<longrightarrow> p \<in> mt_pending ptr_page (sy_owner s) ds ts) \<and>
          (flag (set_xfree (ptr_page b) (pa_tf_set_delayed (xfree (sy_state s) (ptr_page b)) PA_NO_DELAYED_FREE) (sy_state s)) p \<noteq>
              PA_NEVER_DELAYED_FREE \<longrightarrow>
            pg_xheap (mt_page (set_xfree (ptr_page b) (pa_tf_set_delayed (xfree (sy_state s) (ptr_page b)) PA_NO_DELAYED_FREE) (sy_state s)) p) = heap)"
          using F P fr by (cases "p = ptr_page b") simp_all
      qed
      from thread_flag_step [OF inv t P(1) _ _ this] show ?thesis using e False Fr_rcas by auto
    qed
  qed
qed

section \<open>Steps of the owner\<close>

lemma owner_stepI:
  assumes inv: "mt_inv ptr_page P heap s ds ts"
    and lists: "blist (mt_mem st) (mt_delayed st heap) ds'" "blist (mt_mem st) (owner_rest pc) ts'"
    and pages: "pages_ok ptr_page P (mt_mem st) (mt_page st) (mt_blocks (s\<lparr>sy_state := st, sy_owner := pc, sy_client := cl\<rparr>) ds' ts')"
    and held: "\<And>t b. t < length (sy_threads s) \<Longrightarrow> b \<in># free_held (sy_threads s ! t) \<Longrightarrow> mt_mem st b = mt_mem (sy_state s) b"
    and pend: "\<And>p. p \<in> P \<Longrightarrow> flag (sy_state s) p = PA_DELAYED_FREEING \<Longrightarrow> p \<in> mt_pending ptr_page (sy_owner s) ds ts \<Longrightarrow>
        p \<in> mt_pending ptr_page pc ds' ts'"
    and flags: "\<And>p. p \<in> P \<Longrightarrow> (flag st p = PA_DELAYED_FREEING \<longleftrightarrow> flag (sy_state s) p = PA_DELAYED_FREEING) \<and>
        (flag st p = PA_NO_DELAYED_FREE \<longrightarrow> p \<in> mt_pending ptr_page pc ds' ts') \<and>
        (flag st p \<noteq> PA_NEVER_DELAYED_FREE \<longrightarrow> pg_xheap (mt_page st p) = heap)"
    and owner: "owner_ok P heap st pc"
  shows "mt_inv ptr_page P heap (s\<lparr>sy_state := st, sy_owner := pc, sy_client := cl\<rparr>) ds' ts'"
proof -
  have "thread_ok ptr_page P heap (mt_pending ptr_page pc ds' ts') (mt_mem st) (sy_threads s ! t)" if t: "t < length (sy_threads s)" for t
  proof -
    have th: "thread_ok ptr_page P heap (mt_pending ptr_page (sy_owner s) ds ts) (mt_mem (sy_state s)) (sy_threads s ! t)"
      using inv t by (simp add: mt_inv_def)
    have "p \<in> mt_pending ptr_page pc ds' ts'" if "p \<in># free_page ptr_page (sy_threads s ! t)" "p \<in> mt_pending ptr_page (sy_owner s) ds ts" for p
      using pend freeing_page [OF inv t that(1)] that(2) by blast
    then show ?thesis using th held [OF t] by (cases "sy_threads s ! t") auto
  qed
  moreover have "flags_ok ptr_page P heap (mt_pending ptr_page pc ds' ts') st (sy_threads s)"
    using inv flags by (auto simp: mt_inv_def flags_ok_def)
  ultimately show ?thesis using inv lists pages owner by (simp add: mt_inv_def)
qed

text \<open>The owner only moves on.\<close>

lemma owner_keep:
  assumes inv: "mt_inv ptr_page P heap s ds ts"
    and "owner_block pc = owner_block (sy_owner s)" "owner_rest pc = owner_rest (sy_owner s)" "owner_settled pc = owner_settled (sy_owner s)"
    and "owner_ok P heap (sy_state s) pc"
  shows "mt_inv ptr_page P heap (s\<lparr>sy_state := sy_state s, sy_owner := pc\<rparr>) ds ts"
proof -
  have "mt_pending ptr_page pc ds ts = mt_pending ptr_page (sy_owner s) ds ts" using assms by (simp add: mt_pending_def)
  then have "mt_inv ptr_page P heap (s\<lparr>sy_state := sy_state s, sy_owner := pc, sy_client := sy_client s\<rparr>) ds ts"
    by (intro owner_stepI [OF inv]) (use assms in \<open>auto simp: mt_inv_def flags_ok_def mt_blocks_def\<close>)
  then show ?thesis by simp
qed

text \<open>The owner sets a flag, or finds it set; it may then be done with the block it works on.\<close>

lemma owner_flag_step:
  assumes inv: "mt_inv ptr_page P heap s ds ts" and p: "p \<in> P" "flag (sy_state s) p \<noteq> PA_DELAYED_FREEING"
      "flag (sy_state s) p \<noteq> PA_NEVER_DELAYED_FREE \<or> d = PA_NEVER_DELAYED_FREE \<or> pg_xheap (mt_page (sy_state s) p) = heap"
      "d = PA_USE_DELAYED_FREE \<or> d = PA_NEVER_DELAYED_FREE"
    and pc: "owner_block pc = owner_block (sy_owner s)" "owner_rest pc = owner_rest (sy_owner s)"
      "\<And>q. q \<in> mt_pending ptr_page (sy_owner s) ds ts \<Longrightarrow> q \<noteq> p \<Longrightarrow> q \<in> mt_pending ptr_page pc ds ts"
      "owner_ok P heap (sy_state s) pc"
  shows "mt_inv ptr_page P heap (s\<lparr>sy_state := set_xfree p (pa_tf_set_delayed (xfree (sy_state s) p) d) (sy_state s), sy_owner := pc\<rparr>) ds ts"
proof -
  have "pages_ok ptr_page P (mt_mem (sy_state s)) (mt_page (sy_state s)) (mt_blocks s ds ts)" using inv by (simp add: mt_inv_def)
  note ok = pages_ok_xfree [OF this p(1), of "pa_tf_set_delayed (xfree (sy_state s) p) d"]
  have F: "(flag (sy_state s) q = PA_NO_DELAYED_FREE \<longrightarrow> q \<in> mt_pending ptr_page (sy_owner s) ds ts) \<and>
      (flag (sy_state s) q \<noteq> PA_NEVER_DELAYED_FREE \<longrightarrow> pg_xheap (mt_page (sy_state s) q) = heap)" if "q \<in> P" for q
    using inv that by (simp add: mt_inv_def flags_ok_def)
  have "mt_inv ptr_page P heap (s\<lparr>sy_state := set_xfree p (pa_tf_set_delayed (xfree (sy_state s) p) d) (sy_state s), sy_owner := pc,
      sy_client := sy_client s\<rparr>) ds ts"
  proof (rule owner_stepI [OF inv])
    show "\<And>q. q \<in> P \<Longrightarrow> flag (sy_state s) q = PA_DELAYED_FREEING \<Longrightarrow> q \<in> mt_pending ptr_page (sy_owner s) ds ts \<Longrightarrow>
        q \<in> mt_pending ptr_page pc ds ts" using pc(3) p(2) by metis
    show "\<And>q. q \<in> P \<Longrightarrow> (flag (set_xfree p (pa_tf_set_delayed (xfree (sy_state s) p) d) (sy_state s)) q = PA_DELAYED_FREEING \<longleftrightarrow>
          flag (sy_state s) q = PA_DELAYED_FREEING) \<and>
        (flag (set_xfree p (pa_tf_set_delayed (xfree (sy_state s) p) d) (sy_state s)) q = PA_NO_DELAYED_FREE \<longrightarrow> q \<in> mt_pending ptr_page pc ds ts) \<and>
        (flag (set_xfree p (pa_tf_set_delayed (xfree (sy_state s) p) d) (sy_state s)) q \<noteq> PA_NEVER_DELAYED_FREE \<longrightarrow>
          pg_xheap (mt_page (set_xfree p (pa_tf_set_delayed (xfree (sy_state s) p) d) (sy_state s)) q) = heap)"
      using F pc(3) p by auto
  qed (use inv ok pc in \<open>simp_all add: mt_inv_def mt_blocks_def\<close>)
  then show ?thesis by simp
qed

text \<open>The owner operates on one page.\<close>

lemma owner_page_step:
  assumes inv: "mt_inv ptr_page P heap s ds ts" and p: "p \<in> P"
    and page: "page_inv m page fl ll xl (page_live ptr_page p L)" "same_geom (mt_page (sy_state s) p) page"
      "keeps_outside (mt_page (sy_state s) p) (page_live ptr_page p L) m0 m" "m0 = mt_mem (sy_state s)"
    and L: "L = mt_blocks (s\<lparr>sy_owner := pc, sy_client := cl\<rparr>) ds ts"
      "\<And>q. q \<noteq> p \<Longrightarrow> page_live ptr_page q L = page_live ptr_page q (mt_blocks s ds ts)" "\<And>b. b \<in># L \<Longrightarrow> ptr_page b \<in> P"
    and pc: "owner_rest pc = owner_rest (sy_owner s)" "mt_pending ptr_page (sy_owner s) ds ts \<subseteq> mt_pending ptr_page pc ds ts"
      "case pc of Ow_use p delay ov u \<Rightarrow> False | Ow_rcas b n d \<Rightarrow> False | Ow_free b n a u \<Rightarrow> False | _ \<Rightarrow> True"
  shows "mt_inv ptr_page P heap (s\<lparr>sy_state := set_page p m page (sy_state s), sy_owner := pc, sy_client := cl\<rparr>) ds ts"
proof -
  define st where "st = set_page p m page (sy_state s)"
  have ok: "pages_ok ptr_page P m0 (mt_page (sy_state s)) (mt_blocks s ds ts)" using inv page(4) by (simp add: mt_inv_def)
  have same: "m a = m0 a" if "a \<in># L" for a by (rule pages_ok_keeps [OF ok p page(3) that])
  have bl: "blist m q bs = blist m0 q bs" if "set bs \<subseteq> set_mset L" for q bs
    using that same by (induction bs arbitrary: q) auto
  have sub: "set ds \<subseteq> set_mset L" "set ts \<subseteq> set_mset L" by (auto simp: L(1) mt_blocks_def)
  have held: "m b = m0 b" if "t < length (sy_threads s)" "b \<in># free_held (sy_threads s ! t)" for t b
  proof (rule same)
    have "b \<in># sum_list (map free_held (sy_threads s))" using that by (rule sum_list_member)
    then show "b \<in># L" by (simp add: L(1) mt_blocks_def)
  qed
  have "pages_ok ptr_page P m (mt_page st) L"
    unfolding st_def using pages_ok_change [OF ok p page(1) _ page(3)] same_geom_area [OF page(2)] L(2,3) by simp
  moreover have "flag st q = flag (sy_state s) q" "pg_xheap (mt_page st q) = pg_xheap (mt_page (sy_state s) q)" for q
    using page(2) by (simp_all add: st_def same_geom_def)
  moreover have "owner_ok P heap st pc" using pc(3) by (cases pc) simp_all
  ultimately show ?thesis
    unfolding st_def [symmetric]
    by (intro owner_stepI [OF inv])
       (use inv bl [OF sub(1)] bl [OF sub(2)] held pc L(1) page(4) in \<open>auto simp: mt_inv_def flags_ok_def st_def mt_blocks_def\<close>)
qed

lemma set_xfree_same: "set_xfree p (pa_tf_set_delayed (xfree s p) (flag s p)) s = s"
  using tf_make_parts [of "xfree s p"] by (simp add: set_xfree_def pa_tf_set_delayed_def)

text \<open>An attempt of \<open>_pa_page_try_use_delayed_free\<close> for the owner point \<open>mk u\<close>.\<close>

lemma try_use_step:
  assumes inv: "mt_inv ptr_page P heap s ds ts" and ow: "sy_owner s = mk u" and p: "p \<in> P"
    and d: "d = PA_USE_DELAYED_FREE \<or> d = PA_NEVER_DELAYED_FREE" "ov \<longrightarrow> pg_xheap (mt_page (sy_state s) p) = heap"
    and u: "use_ok ov u" "u \<noteq> Us_result False" "u \<noteq> Us_result True"
    and mk: "\<And>v w. owner_block (mk v) = owner_block (mk w)" "\<And>v w. owner_rest (mk v) = owner_rest (mk w)"
      "\<And>v. v \<noteq> Us_result True \<Longrightarrow> \<not> owner_settled (mk v)" "\<And>q v. q \<in> mt_pending ptr_page (mk v) ds ts \<Longrightarrow> q \<noteq> p \<Longrightarrow>
        q \<in> mt_pending ptr_page (mk (Us_result True)) ds ts" "\<And>v. use_ok ov v \<Longrightarrow> owner_ok P heap (sy_state s) (mk v)"
    and step: "page_try_use_delayed_free spurious p d ov u (sy_state s) = (u', st)"
  shows "mt_inv ptr_page P heap (s\<lparr>sy_state := st, sy_owner := mk u'\<rparr>) ds ts"
proof -
  have keep: ?thesis if "st = sy_state s" "u' \<noteq> Us_result True" "use_ok ov u'"
    unfolding that(1) by (rule owner_keep [OF inv]) (use mk(1,2) [of u' u] mk(3) [of u'] mk(3) [of u] mk(5) [of u'] that(2,3) ow u(2,3) in simp_all)
  have flag: ?thesis if "u' = Us_result True" "flag (sy_state s) p \<noteq> PA_DELAYED_FREEING"
      "flag (sy_state s) p \<noteq> PA_NEVER_DELAYED_FREE \<or> e = PA_NEVER_DELAYED_FREE \<or> pg_xheap (mt_page (sy_state s) p) = heap"
      "e = PA_USE_DELAYED_FREE \<or> e = PA_NEVER_DELAYED_FREE"
      "st = set_xfree p (pa_tf_set_delayed (xfree (sy_state s) p) e) (sy_state s)" for e
    unfolding that(1,5) by (rule owner_flag_step [OF inv p that(2-4)]) (use mk(1) [of "Us_result True" u] mk(2) [of "Us_result True" u] mk(4) [of _ u] mk(5) [of "Us_result True"] ow in simp_all)
  show ?thesis
  proof (cases u)
    case (Us_load n)
    define old where "old = flag (sy_state s) p"
    show ?thesis
    proof (cases "old = PA_DELAYED_FREEING")
      case True
      then show ?thesis using step Us_load by (intro keep) (auto simp: Let_def old_def split: if_splits)
    next
      case f: False
      show ?thesis
      proof (cases "d = old \<or> \<not> ov \<and> old = PA_NEVER_DELAYED_FREE")
        case True
        then have "u' = Us_result True" "st = sy_state s" using step Us_load f by (auto simp: Let_def old_def split: if_splits)
        then show ?thesis using True d f set_xfree_same [of p "sy_state s"] inv p by (intro flag [of old]) (auto simp: old_def mt_inv_def flags_ok_def)
      next
        case False
        then show ?thesis using step Us_load f by (intro keep) (auto simp: Let_def old_def split: if_splits)
      qed
    qed
  next
    case (Us_cas n tf)
    show ?thesis
    proof (cases "spurious \<or> xfree (sy_state s) p \<noteq> tf")
      case True
      then show ?thesis using step Us_cas by (intro keep) auto
    next
      case False
      then show ?thesis using step Us_cas d u(1) by (intro flag [of d]) auto
    qed
  next
    case (Us_result r)
    then show ?thesis using u(2,3) by (cases r) simp_all
  qed
qed

lemma owner_block_page:
  assumes "mt_inv ptr_page P heap s ds ts" "b \<in> set (owner_block (sy_owner s))"
  shows "ptr_page b \<in> P" "b \<noteq> 0" "b \<notin> set ds" "b \<notin> set ts" "\<And>t. t < length (sy_threads s) \<Longrightarrow> b \<notin># free_held (sy_threads s ! t)"
    "b \<in># mt_blocks s ds ts"
proof -
  have ok: "pages_ok ptr_page P (mt_mem (sy_state s)) (mt_page (sy_state s)) (mt_blocks s ds ts)" using assms(1) by (simp add: mt_inv_def)
  note O = owner_only [OF ok assms(2)]
  show "b \<in># mt_blocks s ds ts" by (rule O(5))
  show "ptr_page b \<in> P" "b \<noteq> 0" using pages_ok_live(1,2) [OF ok O(5)] by auto
  show "b \<notin> set ds" "b \<notin> set ts" by (rule O(1), rule O(2))
  show "\<And>t. t < length (sy_threads s) \<Longrightarrow> b \<notin># free_held (sy_threads s ! t)" by (rule O(4))
qed

text \<open>Taking over the list, taking its first block, and putting a block back.\<close>

lemma owner_list_steps:
  assumes inv: "mt_inv ptr_page P heap s ds ts"
  shows "sy_owner s = Ow_take b \<Longrightarrow> mt_delayed (sy_state s) heap = b \<Longrightarrow>
      mt_inv ptr_page P heap (s\<lparr>sy_state := (sy_state s)\<lparr>mt_delayed := (mt_delayed (sy_state s))(heap := 0)\<rparr>, sy_owner := Ow_next b True\<rparr>) [] ds"
    and "sy_owner s = Ow_next b a \<Longrightarrow> b \<noteq> 0 \<Longrightarrow> \<exists>ts'. ts = b # ts' \<and>
      mt_inv ptr_page P heap (s\<lparr>sy_state := sy_state s, sy_owner := Ow_free b (mt_mem (sy_state s) b) a (Us_load 0)\<rparr>) ds ts'"
    and "sy_owner s = Ow_rset b n d \<Longrightarrow> mt_inv ptr_page P heap
      (s\<lparr>sy_state := (sy_state s)\<lparr>mt_mem := (mt_mem (sy_state s))(b := d)\<rparr>, sy_owner := Ow_rcas b n d\<rparr>) ds ts"
    and "sy_owner s = Ow_rcas b n d \<Longrightarrow> mt_delayed (sy_state s) heap = d \<Longrightarrow> mt_inv ptr_page P heap
      (s\<lparr>sy_state := (sy_state s)\<lparr>mt_delayed := (mt_delayed (sy_state s))(heap := b)\<rparr>, sy_owner := Ow_next n False\<rparr>) (b # ds) ts"
proof -
  have cl: "s\<lparr>sy_state := st, sy_owner := pc\<rparr> = s\<lparr>sy_state := st, sy_owner := pc, sy_client := sy_client s\<rparr>" for st pc by simp
  have step: "mt_inv ptr_page P heap (s\<lparr>sy_state := st, sy_owner := pc, sy_client := sy_client s\<rparr>) ds ts \<Longrightarrow>
      mt_inv ptr_page P heap (s\<lparr>sy_state := st, sy_owner := pc\<rparr>) ds ts" for st pc ds ts by (simp only: cl [symmetric])
  note I = inv [unfolded mt_inv_def flags_ok_def]
  show "mt_inv ptr_page P heap (s\<lparr>sy_state := (sy_state s)\<lparr>mt_delayed := (mt_delayed (sy_state s))(heap := 0)\<rparr>, sy_owner := Ow_next b True\<rparr>) [] ds"
    if "sy_owner s = Ow_take b" "mt_delayed (sy_state s) heap = b"
    by (rule step, rule owner_stepI [OF inv]) (use I that in \<open>auto simp: mt_blocks_def mt_pending_def\<close>)
  show "\<exists>ts'. ts = b # ts' \<and>
      mt_inv ptr_page P heap (s\<lparr>sy_state := sy_state s, sy_owner := Ow_free b (mt_mem (sy_state s) b) a (Us_load 0)\<rparr>) ds ts'"
    if ow: "sy_owner s = Ow_next b a" "b \<noteq> 0"
  proof -
    have "blist (mt_mem (sy_state s)) b ts" using I ow(1) by simp
    then obtain ts' where ts: "ts = b # ts'" "blist (mt_mem (sy_state s)) (mt_mem (sy_state s) b) ts'"
      using blist_nonzero [OF ow(2)] by blast
    have "mt_inv ptr_page P heap (s\<lparr>sy_state := sy_state s, sy_owner := Ow_free b (mt_mem (sy_state s) b) a (Us_load 0)\<rparr>) ds ts'"
      by (rule step, rule owner_stepI [OF inv]) (use I ow ts in \<open>auto simp: mt_blocks_def mt_pending_def\<close>)
    then show ?thesis using ts(1) by blast
  qed
  show "mt_inv ptr_page P heap (s\<lparr>sy_state := (sy_state s)\<lparr>mt_mem := (mt_mem (sy_state s))(b := d)\<rparr>, sy_owner := Ow_rcas b n d\<rparr>) ds ts"
    if ow: "sy_owner s = Ow_rset b n d"
  proof -
    have b: "b \<in> set (owner_block (sy_owner s))" using ow by simp
    note O = owner_block_page [OF inv b]
    have "pages_ok ptr_page P ((mt_mem (sy_state s))(b := d)) (mt_page (sy_state s)) (mt_blocks s ds ts)"
      using pages_ok_write [OF _ O(6)] I by blast
    then show ?thesis 
      by (intro step owner_stepI [OF inv]) (use I O ow in \<open>auto simp: mt_blocks_def mt_pending_def\<close>)
  qed
  show "mt_inv ptr_page P heap (s\<lparr>sy_state := (sy_state s)\<lparr>mt_delayed := (mt_delayed (sy_state s))(heap := b)\<rparr>, sy_owner := Ow_next n False\<rparr>) (b # ds) ts"
    if ow: "sy_owner s = Ow_rcas b n d" "mt_delayed (sy_state s) heap = d"
  proof -
    have "b \<noteq> 0" using owner_block_page(2) [OF inv, of b] ow by simp
    then show ?thesis 
      by (intro step owner_stepI [OF inv]) (use I ow in \<open>auto simp: mt_blocks_def mt_pending_def\<close>)
  qed
qed

text \<open>Operations of the owner on a page, in the middle of a delayed free or on behalf of the program.\<close>

lemma page_op_inv:
  assumes inv: "mt_inv ptr_page P heap s ds ts" and p: "p \<in> P"
    and op: "(\<exists>force err. pa_page_free_collect (mt_mem (sy_state s)) (mt_page (sy_state s) p) force = Some (m, page, err)) \<or>
      (pg_local_free (mt_page (sy_state s) p) = 0 \<and> pa_page_extend_free (mt_mem (sy_state s)) (mt_page (sy_state s) p) = Some (m, page))"
    and pc: "owner_block pc = owner_block (sy_owner s)" "owner_rest pc = owner_rest (sy_owner s)"
      "owner_settled pc = owner_settled (sy_owner s)"
      "case pc of Ow_use p delay ov u \<Rightarrow> False | Ow_rcas b n d \<Rightarrow> False | Ow_free b n a u \<Rightarrow> False | _ \<Rightarrow> True"
  shows "mt_inv ptr_page P heap (s\<lparr>sy_state := set_page p m page (sy_state s), sy_owner := pc\<rparr>) ds ts"
proof -
  have ok: "pages_ok ptr_page P (mt_mem (sy_state s)) (mt_page (sy_state s)) (mt_blocks s ds ts)" using inv by (simp add: mt_inv_def)
  obtain fl ll xl where I: "page_inv (mt_mem (sy_state s)) (mt_page (sy_state s) p) fl ll xl (page_live ptr_page p (mt_blocks s ds ts))"
    by (rule pages_okD [OF ok p])
  have "(\<exists>fl ll xl. page_inv m page fl ll xl (page_live ptr_page p (mt_blocks s ds ts))) \<and> same_geom (mt_page (sy_state s) p) page \<and>
      keeps_outside (mt_page (sy_state s) p) (page_live ptr_page p (mt_blocks s ds ts)) (mt_mem (sy_state s)) m"
    using op
  proof (elim disjE exE conjE)
    fix force err assume c: "pa_page_free_collect (mt_mem (sy_state s)) (mt_page (sy_state s) p) force = Some (m, page, err)"
    show ?thesis using page_free_collect_inv [OF I, of force] free_collect_frame [OF I c] c by fastforce
  next
    assume z: "pg_local_free (mt_page (sy_state s) p) = 0"
      and c: "pa_page_extend_free (mt_mem (sy_state s)) (mt_page (sy_state s) p) = Some (m, page)"
    have ll: "ll = []" using I z by (simp add: page_inv_def)
    show ?thesis using page_extend_free_inv [OF I [unfolded ll]] extend_frame [OF I c] c by fastforce
  qed
  then obtain fl ll xl where R: "page_inv m page fl ll xl (page_live ptr_page p (mt_blocks s ds ts))"
    "same_geom (mt_page (sy_state s) p) page"
    "keeps_outside (mt_page (sy_state s) p) (page_live ptr_page p (mt_blocks s ds ts)) (mt_mem (sy_state s)) m" by blast
  have "mt_inv ptr_page P heap (s\<lparr>sy_state := set_page p m page (sy_state s), sy_owner := pc, sy_client := sy_client s\<rparr>) ds ts"
    by (rule owner_page_step [OF inv p R refl])
       (use pc ok in \<open>auto simp: mt_blocks_def mt_pending_def pages_ok_def\<close>)
  then show ?thesis by simp
qed

lemma local_free_inv:
  assumes inv: "mt_inv ptr_page P heap s ds ts" and L: "mt_blocks s ds ts = add_mset b L"
    and free: "page_local_free (mt_mem (sy_state s)) (mt_page (sy_state s) (ptr_page b)) b = (m, page)"
    and pc: "L = mt_blocks (s\<lparr>sy_owner := pc, sy_client := cl\<rparr>) ds ts" "owner_rest pc = owner_rest (sy_owner s)"
      "mt_pending ptr_page (sy_owner s) ds ts \<subseteq> mt_pending ptr_page pc ds ts"
      "case pc of Ow_use p delay ov u \<Rightarrow> False | Ow_rcas b n d \<Rightarrow> False | Ow_free b n a u \<Rightarrow> False | _ \<Rightarrow> True"
  shows "mt_inv ptr_page P heap (s\<lparr>sy_state := set_page (ptr_page b) m page (sy_state s), sy_owner := pc, sy_client := cl\<rparr>) ds ts"
proof -
  have ok: "pages_ok ptr_page P (mt_mem (sy_state s)) (mt_page (sy_state s)) (mt_blocks s ds ts)" using inv by (simp add: mt_inv_def)
  have b: "b \<in># mt_blocks s ds ts" by (simp add: L)
  have p: "ptr_page b \<in> P" by (rule pages_ok_live(1) [OF ok b])
  obtain fl ll xl where I: "page_inv (mt_mem (sy_state s)) (mt_page (sy_state s) (ptr_page b)) fl ll xl (page_live ptr_page (ptr_page b) (mt_blocks s ds ts))"
    by (rule pages_okD [OF ok p])
  have R: "page_inv m page fl (b # ll) xl (page_live ptr_page (ptr_page b) L)"
    using page_local_free_inv [OF I _ free] by (simp add: L)
  have e: "m = (mt_mem (sy_state s))(b := pg_local_free (mt_page (sy_state s) (ptr_page b)))" "same_geom (mt_page (sy_state s) (ptr_page b)) page"
    using free by (auto simp: page_local_free_def pa_block_set_next_def same_geom_def)
  have "b \<in> page_area (mt_page (sy_state s) (ptr_page b))" using page_inv_area [OF I, of b] by (simp add: L)
  moreover have "b \<notin># L" using pages_ok_live(4) [OF ok b] by (simp add: L not_in_iff)
  then have "b \<notin># page_live ptr_page (ptr_page b) L" by (simp add: page_live_def)
  ultimately have "keeps_outside (mt_page (sy_state s) (ptr_page b)) (page_live ptr_page (ptr_page b) L) (mt_mem (sy_state s)) m"
    using e(1) by (auto simp: keeps_outside_def)
  then show ?thesis
    by (rule owner_page_step [OF inv p R e(2) _ refl pc(1) _ _ pc(2-4)])
       (use ok in \<open>simp_all add: L pages_ok_def\<close>)
qed

text \<open>What a step of the owner adds to the delayed list: a block that is put back.  A successful exchange of the head empties it.\<close>

definition delayed_kept :: "owner_pc \<Rightarrow> owner_pc \<Rightarrow> uintptr_t list \<Rightarrow> uintptr_t list \<Rightarrow> bool" where
  "delayed_kept ow pc ds ds' \<longleftrightarrow> set ds' \<subseteq> set ds \<union> (case ow of Ow_rcas b n d \<Rightarrow> {b} | _ \<Rightarrow> {}) \<and>
     (\<forall>b. ow = Ow_take b \<and> b \<noteq> 0 \<and> pc = Ow_next b True \<longrightarrow> ds' = [])"

lemma owner_step_inv:
  assumes inv: "mt_inv ptr_page P heap s ds ts"
    and step: "owner_step ptr_page heap spurious (sy_owner s) (sy_state s) = (pc, st)"
  shows "\<exists>ds' ts'. mt_inv ptr_page P heap (s\<lparr>sy_state := st, sy_owner := pc\<rparr>) ds' ts' \<and> delayed_kept (sy_owner s) pc ds ds'"
proof -
  have keep: "\<exists>ds' ts'. mt_inv ptr_page P heap (s\<lparr>sy_state := st, sy_owner := pc\<rparr>) ds' ts' \<and> delayed_kept (sy_owner s) pc ds ds'"
    if "st = sy_state s" "owner_block pc = owner_block (sy_owner s)" "owner_rest pc = owner_rest (sy_owner s)"
      "owner_settled pc = owner_settled (sy_owner s)" "owner_ok P heap (sy_state s) pc" "\<And>b. b \<noteq> 0 \<Longrightarrow> pc \<noteq> Ow_next b True"
    using owner_keep [OF inv that(2-5)] that(1,6) by (auto simp: delayed_kept_def)
  have ok: "owner_ok P heap (sy_state s) (sy_owner s)" using inv by (simp add: mt_inv_def)
  note L = owner_list_steps [OF inv]
  show ?thesis
  proof (cases "sy_owner s")
    case (Ow_use p d ov u)
    show ?thesis
    proof (cases "\<exists>r. u = Us_result r")
      case True
      then show ?thesis using step Ow_use ok by (intro keep) (auto split: if_splits)
    next
      case False
      obtain u' where u': "page_try_use_delayed_free spurious p d ov u (sy_state s) = (u', st)" "pc = Ow_use p d ov u'"
        using step Ow_use False by (cases u) (auto split: prod.splits)
      have "mt_inv ptr_page P heap (s\<lparr>sy_state := st, sy_owner := Ow_use p d ov u'\<rparr>) ds ts"
        by (rule try_use_step [where mk = "Ow_use p d ov", OF inv Ow_use _ _ _ _ _ _ _ _ _ _ _ u'(1)])
           (use ok Ow_use False in \<open>auto simp: mt_pending_def\<close>)
      then show ?thesis using u'(2) Ow_use by (auto simp: delayed_kept_def)
    qed
  next
    case (Ow_take b)
    show ?thesis
    proof (cases "b = 0 \<or> spurious \<or> mt_delayed (sy_state s) heap \<noteq> b")
      case True
      then show ?thesis using step Ow_take by (intro keep) (auto split: if_splits)
    next
      case False
      then have "pc = Ow_next b True" "st = (sy_state s)\<lparr>mt_delayed := (mt_delayed (sy_state s))(heap := 0)\<rparr>" "mt_delayed (sy_state s) heap = b"
        using step Ow_take by auto
      then show ?thesis using L(1) [OF Ow_take] by (auto simp: delayed_kept_def)
    qed
  next
    case (Ow_next b a)
    show ?thesis
    proof (cases "b = 0")
      case True
      then show ?thesis using step Ow_next by (intro keep) auto
    next
      case False
      then show ?thesis using step Ow_next L(2) [OF Ow_next] by (auto simp: pa_block_next_def delayed_kept_def)
    qed
  next
    case (Ow_free b n a u)
    show ?thesis
    proof (cases "\<exists>r. u = Us_result r")
      case True
      then show ?thesis using step Ow_free ok by (intro keep) (auto split: if_splits)
    next
      case False
      obtain u' where u': "page_try_use_delayed_free spurious (ptr_page b) PA_USE_DELAYED_FREE False u (sy_state s) = (u', st)"
        "pc = Ow_free b n a u'" using step Ow_free False by (cases u) (auto split: prod.splits)
      have "\<not> owner_settled (Ow_free b n a v)" if "v \<noteq> Us_result True" for v
        using that by (cases v) auto
      moreover have "ptr_page b \<in> P" using owner_block_page(1) [OF inv, of b] Ow_free by simp
      ultimately have "mt_inv ptr_page P heap (s\<lparr>sy_state := st, sy_owner := Ow_free b n a u'\<rparr>) ds ts"
        by (intro try_use_step [where mk = "Ow_free b n a", OF inv Ow_free _ _ _ _ _ _ _ _ _ _ _ u'(1)])
           (use ok Ow_free False in \<open>auto simp: mt_pending_def split: if_splits\<close>)
      then show ?thesis using u'(2) Ow_free by (auto simp: delayed_kept_def)
    qed
  next
    case (Ow_collect b n a)
    have p: "ptr_page b \<in> P" using owner_block_page(1) [OF inv, of b] Ow_collect by simp
    show ?thesis
    proof (cases "pa_page_free_collect (mt_mem (sy_state s)) (mt_page (sy_state s) (ptr_page b)) False")
      case None
      then show ?thesis using step Ow_collect ok by (intro keep) auto
    next
      case (Some r)
      obtain m page err where r: "r = (m, page, err)" by (cases r)
      have "mt_inv ptr_page P heap (s\<lparr>sy_state := set_page (ptr_page b) m page (sy_state s), sy_owner := Ow_local b n a\<rparr>) ds ts"
        by (rule page_op_inv [OF inv p]) (use Some r Ow_collect in auto)
      then show ?thesis using step Ow_collect Some r by (auto simp: delayed_kept_def)
    qed
  next
    case (Ow_local b n a)
    obtain m page where f: "page_local_free (mt_mem (sy_state s)) (mt_page (sy_state s) (ptr_page b)) b = (m, page)" by fastforce
    have "mt_inv ptr_page P heap (s\<lparr>sy_state := set_page (ptr_page b) m page (sy_state s), sy_owner := Ow_next n a, sy_client := sy_client s\<rparr>) ds ts"
      by (rule local_free_inv [OF inv _ f]) (use Ow_local in \<open>auto simp: mt_blocks_def mt_pending_def\<close>)
    then show ?thesis using step Ow_local f by (auto simp: delayed_kept_def)
  next
    case (Ow_rset b n d)
    then show ?thesis using step L(3) by (auto simp: pa_block_set_next_def delayed_kept_def)
  next
    case (Ow_rcas b n d)
    show ?thesis
    proof (cases "spurious \<or> mt_delayed (sy_state s) heap \<noteq> d")
      case True
      then show ?thesis using step Ow_rcas by (intro keep) (auto split: if_splits)
    next
      case False
      then have "pc = Ow_next n False" "st = (sy_state s)\<lparr>mt_delayed := (mt_delayed (sy_state s))(heap := b)\<rparr>" "mt_delayed (sy_state s) heap = d"
        using step Ow_rcas by auto
      then show ?thesis using L(4) [OF Ow_rcas] Ow_rcas by (intro exI [of _ "b # ds"] exI [of _ ts]) (auto simp: delayed_kept_def)
    qed
  next
    case Ow_idle
    then show ?thesis using step by (intro keep) auto
  next
    case (Ow_reload b n)
    then show ?thesis using step by (intro keep) auto
  next
    case (Ow_done a)
    then show ?thesis using step by (intro keep) auto
  qed
qed

section \<open>Every interleaving\<close>

text \<open>At the start the pages are empty, nothing is being freed and delayed frees are in use.\<close>

definition mt_init :: "(uintptr_t \<Rightarrow> slice_ref) \<Rightarrow> slice_ref set \<Rightarrow> uintptr_t \<Rightarrow> mt_sys \<Rightarrow> bool" where
  "mt_init ptr_page P heap s \<longleftrightarrow> heap \<noteq> 0 \<and> mt_delayed (sy_state s) heap = 0 \<and> sy_owner s = Ow_idle \<and> sy_client s = {#} \<and>
     (\<forall>pc \<in> set (sy_threads s). pc = Fr_idle) \<and>
     (\<forall>p \<in> P. page_geom (mt_page (sy_state s) p) \<and> pg_capacity (mt_page (sy_state s) p) = 0 \<and> pg_used (mt_page (sy_state s) p) = 0 \<and>
        pg_free (mt_page (sy_state s) p) = 0 \<and> pg_local_free (mt_page (sy_state s) p) = 0 \<and> xfree (sy_state s) p = 0 \<and>
        pg_xheap (mt_page (sy_state s) p) = heap \<and> (\<forall>a \<in> page_area (mt_page (sy_state s) p). ptr_page a = p))"

inductive mt_reach :: "(uintptr_t \<Rightarrow> slice_ref) \<Rightarrow> slice_ref set \<Rightarrow> uintptr_t \<Rightarrow> mt_sys \<Rightarrow> bool"
  for ptr_page P heap where
  init: "mt_init ptr_page P heap s \<Longrightarrow> mt_reach ptr_page P heap s"
| step: "mt_reach ptr_page P heap s \<Longrightarrow> mt_step ptr_page P heap s s' \<Longrightarrow> mt_reach ptr_page P heap s'"

lemma sum_list_idle: "\<forall>pc \<in> set rs. f pc = {#} \<Longrightarrow> sum_list (map f rs) = {#}"
  by (induction rs) auto

lemma mt_init_inv: "mt_init ptr_page P heap s \<Longrightarrow> mt_inv ptr_page P heap s [] []"
proof -
  assume i: "mt_init ptr_page P heap s"
  have z: "sum_list (map free_held (sy_threads s)) = {#}" "sum_list (map (free_page ptr_page) (sy_threads s)) = {#}"
    by (rule sum_list_idle, use i in \<open>auto simp: mt_init_def\<close>)+
  have idle: "\<And>t. t < length (sy_threads s) \<Longrightarrow> sy_threads s ! t = Fr_idle" using i by (auto simp: mt_init_def)
  have I: "\<exists>fl ll xl. page_inv (mt_mem (sy_state s)) (mt_page (sy_state s) p) fl ll xl {#}" if "p \<in> P" for p
    using i that by (intro exI [of _ "[]"]) (simp add: mt_init_def page_inv_def page_blocks_def pa_tf_block_def)
  then have "pages_ok ptr_page P (mt_mem (sy_state s)) (mt_page (sy_state s)) (mt_blocks s [] [])"
    using i z by (auto simp: mt_init_def pages_ok_def mt_blocks_def)
  moreover have "pa_tf_delayed 0 = PA_USE_DELAYED_FREE" by (simp add: pa_tf_delayed_def delayed_of_def)
  then have "flags_ok ptr_page P heap (mt_pending ptr_page (sy_owner s) [] []) (sy_state s) (sy_threads s)"
    using i z by (simp add: flags_ok_def mt_init_def)
  moreover have "\<forall>t < length (sy_threads s). thread_ok ptr_page P heap (mt_pending ptr_page (sy_owner s) [] []) (mt_mem (sy_state s)) (sy_threads s ! t)"
    using idle by simp
  moreover have "heap \<noteq> 0" "mt_delayed (sy_state s) heap = 0" "sy_owner s = Ow_idle" using i by (simp_all add: mt_init_def)
  ultimately show ?thesis unfolding mt_inv_def by (metis blist.simps(1) owner_rest.simps(8) owner_ok.simps(4))
qed

text \<open>Every step keeps the invariant.  Blocks join the delayed list only from a page that is being freed into, or
  when the owner puts one back.\<close>

lemma owner_same:
  "sy_owner s = pc \<Longrightarrow> s\<lparr>sy_state := st, sy_owner := pc, sy_client := cl\<rparr> = s\<lparr>sy_state := st, sy_client := cl\<rparr>"
  "sy_owner s = pc \<Longrightarrow> s\<lparr>sy_state := st, sy_owner := pc\<rparr> = s\<lparr>sy_state := st\<rparr>"
  by (rule mt_sys.equality; simp)+

lemma mt_step_inv:
  assumes inv: "mt_inv ptr_page P heap s ds ts" and step: "mt_step ptr_page P heap s s'"
  shows "\<exists>ds' ts'. mt_inv ptr_page P heap s' ds' ts' \<and>
    set ds' \<subseteq> set ds \<union> {b. flag (sy_state s) (ptr_page b) = PA_DELAYED_FREEING} \<union> (case sy_owner s of Ow_rcas b n d \<Rightarrow> {b} | _ \<Rightarrow> {}) \<and>
    (\<forall>b. sy_owner s = Ow_take b \<and> b \<noteq> 0 \<and> sy_owner s' = Ow_next b True \<longrightarrow> ds' = [])"
  using step
proof cases
  case (start t b)
  have ok: "pages_ok ptr_page P (mt_mem (sy_state s)) (mt_page (sy_state s)) (mt_blocks s ds ts)" using inv by (simp add: mt_inv_def)
  define pc where "pc = Fr_loop b (xfree (sy_state s) (ptr_page b))"
  have "sum_list (map free_held ((sy_threads s)[t := pc])) = add_mset b (sum_list (map free_held (sy_threads s)))"
    using sum_list_swap [OF start(2), of free_held pc] start(3) by (simp add: pc_def)
  then have blocks: "mt_blocks s' ds ts = mt_blocks s ds ts"
    using start(1,4) by (simp add: mt_blocks_def pc_def [symmetric] insert_DiffM)
  have "thread_ok ptr_page P heap (mt_pending ptr_page (sy_owner s) ds ts) (mt_mem (sy_state s)) ((sy_threads s)[t := pc] ! t')"
    if "t' < length (sy_threads s)" for t' using inv that by (cases "t' = t") (simp_all add: mt_inv_def pc_def)
  moreover have "flags_ok ptr_page P heap (mt_pending ptr_page (sy_owner s) ds ts) (sy_state s) ((sy_threads s)[t := pc])"
    using inv sum_list_same [OF start(2), of "free_page ptr_page" pc] start(3) by (simp add: mt_inv_def flags_ok_def pc_def)
  ultimately have "mt_inv ptr_page P heap s' ds ts" using inv blocks start(1) by (simp add: mt_inv_def pc_def [symmetric])
  then show ?thesis using start(1) by auto
next
  case (thread t spurious pc st)
  then show ?thesis using thread_step_inv [OF inv thread(2,3)] by auto
next
  case (owner spurious pc st)
  then show ?thesis using owner_step_inv [OF inv owner(2)] unfolding delayed_kept_def by fastforce
next
  case partial
  then show ?thesis using owner_keep [OF inv, of "Ow_take (mt_delayed (sy_state s) heap)"] by auto
next
  case (use_delayed p delay ov)
  then show ?thesis using owner_keep [OF inv, of "Ow_use p delay ov (Us_load 0)"] by auto
next
  case (malloc p b page)
  have ok: "pages_ok ptr_page P (mt_mem (sy_state s)) (mt_page (sy_state s)) (mt_blocks s ds ts)" using inv by (simp add: mt_inv_def)
  obtain fl ll xl where I: "page_inv (mt_mem (sy_state s)) (mt_page (sy_state s) p) fl ll xl (page_live ptr_page p (mt_blocks s ds ts))"
    by (rule pages_okD [OF ok malloc(3)])
  obtain fl' where fl': "fl = b # fl'" "page_inv (mt_mem (sy_state s)) page fl' ll xl (add_mset b (page_live ptr_page p (mt_blocks s ds ts)))"
    using page_malloc_inv [OF I malloc(4)] by blast
  have "b \<in> page_area (mt_page (sy_state s) p)" using page_inv_area [OF I, of b] fl'(1) by simp
  then have pb: "ptr_page b = p" using ok malloc(3) by (simp add: pages_ok_def)
  have geom: "same_geom (mt_page (sy_state s) p) page"
    using malloc(4) by (auto simp: pa_page_malloc_def Let_def same_geom_def split: if_splits)
  define L where "L = add_mset b (mt_blocks s ds ts)"
  have "page_inv (mt_mem (sy_state s)) page fl' ll xl (page_live ptr_page p L)" using fl'(2) pb by (simp add: L_def)
  then have "mt_inv ptr_page P heap (s\<lparr>sy_state := set_page p (mt_mem (sy_state s)) page (sy_state s), sy_owner := Ow_idle,
      sy_client := add_mset b (sy_client s)\<rparr>) ds ts"
    by (rule owner_page_step [OF inv malloc(3) _ geom _ refl])
       (use malloc ok pb in \<open>auto simp: keeps_outside_def L_def mt_blocks_def pages_ok_def mt_pending_def\<close>)
  then show ?thesis unfolding malloc(1) owner_same [OF malloc(2)] using malloc(2) by auto
next
  case (local_free b m page)
  have "mt_inv ptr_page P heap (s\<lparr>sy_state := set_page (ptr_page b) m page (sy_state s), sy_owner := Ow_idle, sy_client := sy_client s - {#b#}\<rparr>) ds ts"
    by (rule local_free_inv [OF inv _ local_free(4) refl]) (use local_free in \<open>auto simp: mt_blocks_def mt_pending_def insert_DiffM\<close>)
  then show ?thesis unfolding local_free(1) owner_same [OF local_free(2)] using local_free(2) by auto
next
  case (collect p force m page err)
  have "mt_inv ptr_page P heap (s\<lparr>sy_state := set_page p m page (sy_state s), sy_owner := Ow_idle\<rparr>) ds ts"
    by (rule page_op_inv [OF inv collect(3)]) (use collect in auto)
  then show ?thesis unfolding collect(1) owner_same [OF collect(2)] using collect(2) by auto
next
  case (extend p m page)
  have "mt_inv ptr_page P heap (s\<lparr>sy_state := set_page p m page (sy_state s), sy_owner := Ow_idle\<rparr>) ds ts"
    by (rule page_op_inv [OF inv extend(3)]) (use extend in auto)
  then show ?thesis unfolding extend(1) owner_same [OF extend(2)] using extend(2) by auto
next
  case (set_heap p h)
  have ok: "pages_ok ptr_page P (mt_mem (sy_state s)) (mt_page (sy_state s)) (mt_blocks s ds ts)" using inv by (simp add: mt_inv_def)
  define st where "st = set_page p (mt_mem (sy_state s)) ((mt_page (sy_state s) p)\<lparr>pg_xheap := h\<rparr>) (sy_state s)"
  have "pages_ok ptr_page P (mt_mem (sy_state s)) ((mt_page (sy_state s))(p := (mt_page (sy_state s) p)\<lparr>pg_xheap := h\<rparr>)) (mt_blocks s ds ts)"
    by (rule pages_ok_field [OF ok set_heap(3), where v = "xfree (sy_state s) p" and h = h]) simp_all
  then have "mt_inv ptr_page P heap (s\<lparr>sy_state := st, sy_owner := Ow_idle, sy_client := sy_client s\<rparr>) ds ts"
    by (intro owner_stepI [OF inv])
       (use inv set_heap in \<open>auto simp: mt_inv_def flags_ok_def st_def mt_blocks_def mt_pending_def\<close>)
  then have "mt_inv ptr_page P heap (s\<lparr>sy_state := st\<rparr>) ds ts" using owner_same(2) [OF set_heap(2)] by simp
  then show ?thesis using set_heap(1,2) by (auto simp: st_def)
next
  case (client_write b x)
  have ok: "pages_ok ptr_page P (mt_mem (sy_state s)) (mt_page (sy_state s)) (mt_blocks s ds ts)" using inv by (simp add: mt_inv_def)
  note C = client_only [OF ok client_write(2)]
  have "b \<noteq> c" if "c \<in> set (owner_block (sy_owner s))" for c using C(3) that by auto
  then have ow: "owner_ok P heap ((sy_state s)\<lparr>mt_mem := (mt_mem (sy_state s))(b := x)\<rparr>) (sy_owner s)"
    using inv by (cases "sy_owner s") (auto simp: mt_inv_def)
  have "mt_inv ptr_page P heap (s\<lparr>sy_state := (sy_state s)\<lparr>mt_mem := (mt_mem (sy_state s))(b := x)\<rparr>, sy_owner := sy_owner s,
      sy_client := sy_client s\<rparr>) ds ts"
    by (rule owner_stepI [OF inv])
       (use inv C(1,2,4) ow pages_ok_write [OF ok C(5)] in \<open>auto simp: mt_inv_def flags_ok_def mt_blocks_def\<close>)
  then show ?thesis using client_write(1) by auto
qed

lemma mt_reach_inv: "mt_reach ptr_page P heap s \<Longrightarrow> \<exists>ds ts. mt_inv ptr_page P heap s ds ts"
proof (induction rule: mt_reach.induct)
  case (init s)
  then show ?case using mt_init_inv by blast
next
  case (step s s')
  then obtain ds ts where "mt_inv ptr_page P heap s ds ts" by blast
  from mt_step_inv [OF this step.hyps(2)] show ?case by (elim exE conjE) (intro exI)
qed

section \<open>What the protocol promises\<close>

text \<open>C1: no interleaving loses or duplicates a block.  However the steps of the owner and of the
  freeing threads interleave, and whichever exchanges fail, every block of a page is in exactly one place: in one of the three free lists of
  its page, in the delayed-free list of the heap, in the rest of the list the owner took over, in the hands of the
  owner or of one freeing thread, or held by the program.\<close>
theorem concurrent_free_partition:
  assumes "mt_reach ptr_page P heap s"
  shows "\<exists>ds ts. blist (mt_mem (sy_state s)) (mt_delayed (sy_state s) heap) ds \<and> blist (mt_mem (sy_state s)) (owner_rest (sy_owner s)) ts \<and>
    (\<forall>p \<in> P. \<exists>fl ll xl.
       blist (mt_mem (sy_state s)) (pg_free (mt_page (sy_state s) p)) fl \<and>
       blist (mt_mem (sy_state s)) (pg_local_free (mt_page (sy_state s) p)) ll \<and>
       blist (mt_mem (sy_state s)) (pa_tf_block (xfree (sy_state s) p)) xl \<and>
       mset fl + mset ll + mset xl + page_live ptr_page p (sy_client s + sum_list (map free_held (sy_threads s)) + mset ds + mset ts +
         mset (owner_block (sy_owner s))) = page_blocks (mt_page (sy_state s) p))"
proof -
  obtain ds ts where inv: "mt_inv ptr_page P heap s ds ts" using mt_reach_inv [OF assms] by blast
  have P: "\<exists>fl ll xl.
       blist (mt_mem (sy_state s)) (pg_free (mt_page (sy_state s) p)) fl \<and>
       blist (mt_mem (sy_state s)) (pg_local_free (mt_page (sy_state s) p)) ll \<and>
       blist (mt_mem (sy_state s)) (pa_tf_block (xfree (sy_state s) p)) xl \<and>
       mset fl + mset ll + mset xl + page_live ptr_page p (mt_blocks s ds ts) = page_blocks (mt_page (sy_state s) p)" if p: "p \<in> P" for p
  proof -
    have "pages_ok ptr_page P (mt_mem (sy_state s)) (mt_page (sy_state s)) (mt_blocks s ds ts)" using inv by (simp add: mt_inv_def)
    then obtain fl ll xl where "page_inv (mt_mem (sy_state s)) (mt_page (sy_state s) p) fl ll xl (page_live ptr_page p (mt_blocks s ds ts))"
      using p by (rule pages_okD)
    then show ?thesis by (intro exI [of _ fl] exI [of _ ll] exI [of _ xl]) (simp add: page_inv_def)
  qed
  have "blist (mt_mem (sy_state s)) (mt_delayed (sy_state s) heap) ds" "blist (mt_mem (sy_state s)) (owner_rest (sy_owner s)) ts"
    using inv by (simp_all add: mt_inv_def)
  then show ?thesis using P [unfolded mt_blocks_def] by metis
qed

text \<open>C3: a page that only other threads free into is not forgotten.  As long as a page has the flag
  that sends further frees to its own list, some block of the page is in the delayed-free list of the heap, or in the list the
  owner is processing and the owner has yet to set the flag back for it; so the owner will come to collect the page.\<close>
theorem no_delayed_pending:
  assumes "mt_reach ptr_page P heap s" and "p \<in> P" and "flag (sy_state s) p = PA_NO_DELAYED_FREE"
  shows "\<exists>ds ts. blist (mt_mem (sy_state s)) (mt_delayed (sy_state s) heap) ds \<and> blist (mt_mem (sy_state s)) (owner_rest (sy_owner s)) ts \<and>
    (\<exists>b \<in> set ds \<union> set ts \<union> (if owner_settled (sy_owner s) then {} else set (owner_block (sy_owner s))). ptr_page b = p)"
proof -
  obtain ds ts where inv: "mt_inv ptr_page P heap s ds ts" using mt_reach_inv [OF assms(1)] by blast
  then have "p \<in> mt_pending ptr_page (sy_owner s) ds ts" using assms(2,3) by (simp add: mt_inv_def flags_ok_def)
  then have "\<exists>b \<in> set ds \<union> set ts \<union> (if owner_settled (sy_owner s) then {} else set (owner_block (sy_owner s))). ptr_page b = p"
    unfolding mt_pending_def by blast
  moreover have "blist (mt_mem (sy_state s)) (mt_delayed (sy_state s) heap) ds" "blist (mt_mem (sy_state s)) (owner_rest (sy_owner s)) ts"
    using inv by (simp_all add: mt_inv_def)
  ultimately show ?thesis by blast
qed

text \<open>C5: other threads touch a heap only under the protection of the freeing flag.  A thread between its two
  flag changes works on a page whose flag is delayed-freeing, which the owner waits for, and the heap it reads from the page is
  the owning one; no second thread is there for the same page; and once a page is marked never-delayed
  no thread is there at all, so the owner may take the page away from the heap.\<close>
theorem heap_access_protected:
  assumes "mt_reach ptr_page P heap s" and "t < length (sy_threads s)" and "p \<in># free_page ptr_page (sy_threads s ! t)"
  shows "p \<in> P \<and> flag (sy_state s) p = PA_DELAYED_FREEING \<and> pg_xheap (mt_page (sy_state s) p) = heap \<and> heap \<noteq> 0 \<and>
    (\<forall>t' < length (sy_threads s). t' \<noteq> t \<longrightarrow> p \<notin># free_page ptr_page (sy_threads s ! t'))"
proof -
  obtain ds ts where inv: "mt_inv ptr_page P heap s ds ts" using mt_reach_inv [OF assms(1)] by blast
  note F = freeing_page [OF inv assms(2,3)]
  have "count (sum_list (map (free_page ptr_page) (sy_threads s))) p = 1" using inv F(1,2) by (simp add: mt_inv_def flags_ok_def)
  moreover have "sum_list (map (free_page ptr_page) (sy_threads s)) =
      sum_list (map (free_page ptr_page) ((sy_threads s)[t := Fr_idle])) + free_page ptr_page (sy_threads s ! t)"
    using sum_list_swap [OF assms(2), of "free_page ptr_page" Fr_idle] by simp
  moreover have "0 < count (free_page ptr_page (sy_threads s ! t)) p" using assms(3) unfolding count_greater_zero_iff .
  ultimately have z: "count (sum_list (map (free_page ptr_page) ((sy_threads s)[t := Fr_idle]))) p = 0" by (simp del: count_greater_zero_iff)
  have "p \<notin># free_page ptr_page (sy_threads s ! t')" if "t' < length (sy_threads s)" "t' \<noteq> t" for t'
    using sum_list_member [of t' "(sy_threads s)[t := Fr_idle]" p "free_page ptr_page"] that z by (auto simp: count_eq_zero_iff)
  then show ?thesis using F inv by (simp add: mt_inv_def)
qed

text \<open>One call of \<open>_pa_heap_delayed_free_partial\<close>, from its first load to its end, among steps of other threads.\<close>

inductive mt_partial :: "(uintptr_t \<Rightarrow> slice_ref) \<Rightarrow> slice_ref set \<Rightarrow> uintptr_t \<Rightarrow> mt_sys \<Rightarrow> mt_sys \<Rightarrow> bool"
  for ptr_page P heap s where
  enter: "sy_owner s = Ow_idle \<Longrightarrow> mt_partial ptr_page P heap s (s\<lparr>sy_owner := Ow_take (mt_delayed (sy_state s) heap)\<rparr>)"
| more: "mt_partial ptr_page P heap s s' \<Longrightarrow> \<not> (\<exists>a. sy_owner s' = Ow_done a) \<Longrightarrow> mt_step ptr_page P heap s' s'' \<Longrightarrow>
    mt_partial ptr_page P heap s s''"

text \<open>Between the first load and the end of the call the owner neither works for the program nor changes other flags, and
  the blocks of a never-delayed page only leave the delayed list.\<close>

fun partial_pc :: "owner_pc \<Rightarrow> bool" where
  "partial_pc Ow_idle \<longleftrightarrow> False"
| "partial_pc (Ow_use p d ov u) \<longleftrightarrow> False"
| "partial_pc pc \<longleftrightarrow> True"

fun puts_back :: "owner_pc \<Rightarrow> uintptr_t list" where
  "puts_back (Ow_free b n a (Us_result r)) = (if r then [] else [b])"
| "puts_back (Ow_reload b n) = [b]"
| "puts_back (Ow_rset b n d) = [b]"
| "puts_back (Ow_rcas b n d) = [b]"
| "puts_back pc = []"

definition drained :: "(uintptr_t \<Rightarrow> slice_ref) \<Rightarrow> slice_ref \<Rightarrow> mt_sys \<Rightarrow> uintptr_t list \<Rightarrow> bool" where
  "drained ptr_page p s ds \<longleftrightarrow> flag (sy_state s) p = PA_NEVER_DELAYED_FREE \<and> partial_pc (sy_owner s) \<and>
     (\<forall>b \<in> set (puts_back (sy_owner s)). ptr_page b \<noteq> p) \<and>
     ((\<exists>b. sy_owner s = Ow_take b \<and> b \<noteq> 0) \<or> (\<forall>b \<in> set ds. ptr_page b \<noteq> p))"

lemma try_use_never:
  assumes "page_try_use_delayed_free spurious q PA_USE_DELAYED_FREE False u st = (u', st')" "flag st p = PA_NEVER_DELAYED_FREE" "use_ok False u"
  shows "flag st' p = PA_NEVER_DELAYED_FREE \<and> (q = p \<longrightarrow> u' = Us_result False \<longrightarrow> u = Us_result False)"
  using assms by (cases u) (auto simp: Let_def split: if_splits)

lemma thread_flag_never:
  assumes inv: "mt_inv ptr_page P heap s ds ts" and t: "t < length (sy_threads s)" and p: "p \<in> P" "flag (sy_state s) p = PA_NEVER_DELAYED_FREE"
    and step: "free_block_delayed_mt ptr_page spurious (sy_threads s ! t) (sy_state s) = (pc, st)"
  shows "flag st p = PA_NEVER_DELAYED_FREE"
proof -
  have ok: "pages_ok ptr_page P (mt_mem (sy_state s)) (mt_page (sy_state s)) (mt_blocks s ds ts)" using inv by (simp add: mt_inv_def)
  have al: "b AND 3 = 0" if "b \<in># free_held (sy_threads s ! t)" for b by (rule pages_ok_live(3) [OF ok thread_only(6) [OF ok t that]])
  have fr: "ptr_page b \<noteq> p" if "sy_threads s ! t = Fr_rcas b tf" for b tf
    using freeing_page(2) [OF inv t, of "ptr_page b"] p(2) that by auto
  show ?thesis
    using step p(2) al fr by (cases "sy_threads s ! t") (auto simp: Let_def split: if_splits)
qed

lemma collect_flag: "mt_inv ptr_page P heap s ds ts \<Longrightarrow> p \<in> P \<Longrightarrow>
    pa_page_free_collect (mt_mem (sy_state s)) (mt_page (sy_state s) p) force = Some (m, page, err) \<Longrightarrow>
    pa_tf_delayed (pg_xthread_free page) = flag (sy_state s) p"
proof -
  assume inv: "mt_inv ptr_page P heap s ds ts" and p: "p \<in> P"
    and c: "pa_page_free_collect (mt_mem (sy_state s)) (mt_page (sy_state s) p) force = Some (m, page, err)"
  have ok: "pages_ok ptr_page P (mt_mem (sy_state s)) (mt_page (sy_state s)) (mt_blocks s ds ts)" using inv by (simp add: mt_inv_def)
  obtain fl ll xl where I: "page_inv (mt_mem (sy_state s)) (mt_page (sy_state s) p) fl ll xl (page_live ptr_page p (mt_blocks s ds ts))"
    by (rule pages_okD [OF ok p])
  show ?thesis using free_collect_frame [OF I c] by (simp add: same_geom_def)
qed

lemma owner_flag_never:
  assumes inv: "mt_inv ptr_page P heap s ds ts" and p: "flag (sy_state s) p = PA_NEVER_DELAYED_FREE"
    and pc: "partial_pc (sy_owner s)" "\<forall>b \<in> set (puts_back (sy_owner s)). ptr_page b \<noteq> p" "\<not> (\<exists>a. sy_owner s = Ow_done a)"
    and step: "owner_step ptr_page heap spurious (sy_owner s) (sy_state s) = (pc, st)"
  shows "flag st p = PA_NEVER_DELAYED_FREE \<and> partial_pc pc \<and> (\<forall>b \<in> set (puts_back pc). ptr_page b \<noteq> p)"
proof (cases "sy_owner s")
  case (Ow_free b n a u)
  show ?thesis
  proof (cases "\<exists>r. u = Us_result r")
    case True
    then show ?thesis using step Ow_free p pc by (auto split: if_splits)
  next
    case False
    obtain u' where u': "page_try_use_delayed_free spurious (ptr_page b) PA_USE_DELAYED_FREE False u (sy_state s) = (u', st)"
      "pc = Ow_free b n a u'" using step Ow_free False by (cases u) (auto split: prod.splits)
    have "use_ok False u" using inv Ow_free by (simp add: mt_inv_def)
    from try_use_never [OF u'(1) p this] show ?thesis using u'(2) False by (cases u') auto
  qed
next
  case (Ow_collect b n a)
  have bp: "ptr_page b \<in> P" using owner_block_page(1) [OF inv, of b] Ow_collect by simp
  show ?thesis
  proof (cases "pa_page_free_collect (mt_mem (sy_state s)) (mt_page (sy_state s) (ptr_page b)) False")
    case None
    then have "pc = Ow_collect b n a" "st = sy_state s" using step Ow_collect by simp_all
    then show ?thesis using p by simp
  next
    case (Some r)
    obtain m page err where r: "r = (m, page, err)" by (cases r)
    then have "pa_tf_delayed (pg_xthread_free page) = flag (sy_state s) (ptr_page b)" using collect_flag [OF inv bp] Some by blast
    then show ?thesis using step Ow_collect p Some r by auto
  qed
next
  case (Ow_local b n a)
  then show ?thesis using step p by (auto simp: page_local_free_def Let_def)
qed (use step p pc in \<open>auto split: if_splits\<close>)

lemma drained_step:
  assumes inv: "mt_inv ptr_page P heap s ds ts" and p: "p \<in> P" and d: "drained ptr_page p s ds"
    and nd: "\<not> (\<exists>a. sy_owner s = Ow_done a)" and step: "mt_step ptr_page P heap s s'"
  shows "\<exists>ds' ts'. mt_inv ptr_page P heap s' ds' ts' \<and> drained ptr_page p s' ds'"
proof -
  obtain ds' ts' where inv': "mt_inv ptr_page P heap s' ds' ts'"
    and sub: "set ds' \<subseteq> set ds \<union> {b. flag (sy_state s) (ptr_page b) = PA_DELAYED_FREEING} \<union> (case sy_owner s of Ow_rcas b n d \<Rightarrow> {b} | _ \<Rightarrow> {})"
    and tk: "\<forall>b. sy_owner s = Ow_take b \<and> b \<noteq> 0 \<and> sy_owner s' = Ow_next b True \<longrightarrow> ds' = []"
    using mt_step_inv [OF inv step] by (elim exE conjE) (rule that)
  have never: "flag (sy_state s) p = PA_NEVER_DELAYED_FREE" and pc: "partial_pc (sy_owner s)"
    and pb: "\<forall>b \<in> set (puts_back (sy_owner s)). ptr_page b \<noteq> p" using d by (simp_all add: drained_def)
  have nb: "ptr_page b \<noteq> p" if "b \<in> (case sy_owner s of Ow_rcas b n d \<Rightarrow> {b} | _ \<Rightarrow> {})" for b
    using that pb by (cases "sy_owner s") auto
  have keep: "\<forall>b \<in> set ds'. ptr_page b \<noteq> p" if a: "\<forall>b \<in> set ds. ptr_page b \<noteq> p"
  proof
    fix b assume "b \<in> set ds'"
    then consider "b \<in> set ds" | "flag (sy_state s) (ptr_page b) = PA_DELAYED_FREEING" | "b \<in> (case sy_owner s of Ow_rcas b n d \<Rightarrow> {b} | _ \<Rightarrow> {})"
      using sub by blast
    then show "ptr_page b \<noteq> p" using a never nb by cases auto
  qed
  have "flag (sy_state s') p = PA_NEVER_DELAYED_FREE \<and> partial_pc (sy_owner s') \<and> (\<forall>b \<in> set (puts_back (sy_owner s')). ptr_page b \<noteq> p) \<and>
      (sy_owner s' = sy_owner s \<or> (\<exists>spurious st. owner_step ptr_page heap spurious (sy_owner s) (sy_state s) = (sy_owner s', st) \<and> sy_state s' = st))"
    using step
  proof cases
    case (thread t spurious pc st)
    then show ?thesis using thread_flag_never [OF inv thread(2) p never thread(3)] pc pb by simp
  next
    case (owner spurious pc' st)
    then show ?thesis using owner_flag_never [OF inv never pc pb nd owner(2)] by auto
  next
    case (start t b)
    then show ?thesis using never pc pb by simp
  next
    case (client_write b x)
    then show ?thesis using never pc pb by simp
  qed (use pc in simp_all)
  then have N: "flag (sy_state s') p = PA_NEVER_DELAYED_FREE" "partial_pc (sy_owner s')" "\<forall>b \<in> set (puts_back (sy_owner s')). ptr_page b \<noteq> p"
    and ow: "sy_owner s' = sy_owner s \<or> (\<exists>spurious st. owner_step ptr_page heap spurious (sy_owner s) (sy_state s) = (sy_owner s', st) \<and> sy_state s' = st)"
    by blast+
  have "(\<exists>b. sy_owner s' = Ow_take b \<and> b \<noteq> 0) \<or> (\<forall>b \<in> set ds'. ptr_page b \<noteq> p)"
  proof (cases "\<exists>b. sy_owner s = Ow_take b \<and> b \<noteq> 0")
    case False
    then show ?thesis using d keep by (auto simp: drained_def)
  next
    case True
    then obtain b where b: "sy_owner s = Ow_take b" "b \<noteq> 0" by blast
    have bl: "blist (mt_mem (sy_state s')) (mt_delayed (sy_state s') heap) ds'" using inv' by (simp add: mt_inv_def)
    show ?thesis using ow
    proof (elim disjE exE conjE)
      fix spurious st assume o: "owner_step ptr_page heap spurious (sy_owner s) (sy_state s) = (sy_owner s', st)" "sy_state s' = st"
      show ?thesis
      proof (cases "spurious \<or> mt_delayed (sy_state s) heap \<noteq> b")
        case True
        then have "sy_owner s' = Ow_take (mt_delayed (sy_state s) heap)" "sy_state s' = sy_state s" using o b by auto
        then show ?thesis using bl by (cases "mt_delayed (sy_state s) heap = 0") auto
      next
        case False
        then have "sy_owner s' = Ow_next b True" using o b by auto
        then show ?thesis using tk b by simp
      qed
    qed (use b in simp)
  qed
  then show ?thesis using inv' N by (auto simp: drained_def)
qed

lemma partial_drains:
  "mt_partial ptr_page P heap s s' \<Longrightarrow> \<exists>ds ts. mt_inv ptr_page P heap s ds ts \<Longrightarrow> p \<in> P \<Longrightarrow> flag (sy_state s) p = PA_NEVER_DELAYED_FREE \<Longrightarrow>
   \<exists>ds ts. mt_inv ptr_page P heap s' ds ts \<and> drained ptr_page p s' ds"
proof (induction rule: mt_partial.induct)
  case enter
  then obtain ds ts where inv: "mt_inv ptr_page P heap s ds ts" by blast
  define s' where "s' = s\<lparr>sy_owner := Ow_take (mt_delayed (sy_state s) heap)\<rparr>"
  have "mt_inv ptr_page P heap s' ds ts" using owner_keep [OF inv, of "Ow_take (mt_delayed (sy_state s) heap)"] enter(1) by (simp add: s'_def)
  moreover have "ds = []" if "mt_delayed (sy_state s) heap = 0" using inv that by (simp add: mt_inv_def)
  ultimately show ?case using enter(4) unfolding s'_def [symmetric]
    by (intro exI [of _ ds] exI [of _ ts]) (auto simp: drained_def s'_def)
next
  case (more s' s'')
  then show ?case using drained_step by meson
qed

text \<open>C7: taking a page away from its heap.  Once a page is marked never-delayed, one complete call of
  the delayed-free processing, with any steps of other threads in between, leaves no block of the page in the delayed-free list of
  the heap or in the owner's hands, and the page is still marked; so a page that is abandoned after such a call is not referenced by the heap.\<close>
theorem never_delayed_drains:
  assumes "mt_reach ptr_page P heap s" and "p \<in> P" and "flag (sy_state s) p = PA_NEVER_DELAYED_FREE"
    and "mt_partial ptr_page P heap s s'" and "sy_owner s' = Ow_done a"
  shows "flag (sy_state s') p = PA_NEVER_DELAYED_FREE \<and>
    (\<exists>ds. blist (mt_mem (sy_state s')) (mt_delayed (sy_state s') heap) ds \<and> (\<forall>b \<in> set ds. ptr_page b \<noteq> p)) \<and>
    (\<forall>t < length (sy_threads s'). p \<notin># free_page ptr_page (sy_threads s' ! t))"
proof -
  obtain ds ts where inv: "mt_inv ptr_page P heap s' ds ts" and d: "drained ptr_page p s' ds"
    using partial_drains [OF assms(4) mt_reach_inv [OF assms(1)] assms(2,3)] by blast
  have "p \<notin># free_page ptr_page (sy_threads s' ! t)" if "t < length (sy_threads s')" for t
    using freeing_page(2) [OF inv that, of p] d by (auto simp: drained_def)
  then show ?thesis using inv d assms(5) by (auto simp: drained_def mt_inv_def)
qed

section \<open>A run with one page and one freeing thread\<close>

text \<open>Running a thread or the owner without failing exchanges.\<close>

fun run_thread :: "(uintptr_t \<Rightarrow> slice_ref) \<Rightarrow> nat \<Rightarrow> mt_sys \<Rightarrow> mt_sys" where
  "run_thread ptr_page 0 s = s"
| "run_thread ptr_page (Suc n) s =
     (let (pc, st) = free_block_delayed_mt ptr_page False (sy_threads s ! 0) (sy_state s)
      in run_thread ptr_page n (s\<lparr>sy_state := st, sy_threads := (sy_threads s)[0 := pc]\<rparr>))"

fun run_owner :: "(uintptr_t \<Rightarrow> slice_ref) \<Rightarrow> uintptr_t \<Rightarrow> nat \<Rightarrow> mt_sys \<Rightarrow> mt_sys" where
  "run_owner ptr_page heap 0 s = s"
| "run_owner ptr_page heap (Suc n) s =
     (let (pc, st) = owner_step ptr_page heap False (sy_owner s) (sy_state s)
      in run_owner ptr_page heap n (s\<lparr>sy_state := st, sy_owner := pc\<rparr>))"

lemma run_thread_reach: "mt_reach ptr_page P heap s \<Longrightarrow> 0 < length (sy_threads s) \<Longrightarrow> mt_reach ptr_page P heap (run_thread ptr_page n s)"
proof (induction n arbitrary: s)
  case (Suc n)
  obtain pc st where e: "free_block_delayed_mt ptr_page False (sy_threads s ! 0) (sy_state s) = (pc, st)" by fastforce
  from mt_reach.step [OF Suc.prems(1) mt_step.thread [OF Suc.prems(2) e]] Suc.IH Suc.prems(2) show ?case by (simp add: e)
qed simp

lemma run_owner_reach: "mt_reach ptr_page P heap s \<Longrightarrow> mt_reach ptr_page P heap (run_owner ptr_page heap n s)"
proof (induction n arbitrary: s)
  case (Suc n)
  obtain pc st where e: "owner_step ptr_page heap False (sy_owner s) (sy_state s) = (pc, st)" by fastforce
  from mt_reach.step [OF Suc.prems(1) mt_step.owner [OF e]] Suc.IH show ?case by (simp add: e)
qed simp

definition demo_pp :: "uintptr_t \<Rightarrow> slice_ref" where "demo_pp b = (0x2000000, 1)"

abbreviation demo_p :: slice_ref where "demo_p \<equiv> (0x2000000, 1)"

definition demo_start :: mt_sys where
  "demo_start = \<lparr>sy_state = \<lparr>mt_mem = (\<lambda>_. 0), mt_page = (\<lambda>_. demo_page\<lparr>pg_xheap := 0x5000\<rparr>), mt_delayed = (\<lambda>_. 0)\<rparr>,
     sy_threads = [Fr_idle], sy_owner = Ow_idle, sy_client = {#}\<rparr>"

lemma demo_start_reach: "mt_reach demo_pp {demo_p} 0x5000 demo_start"
  by (rule mt_reach.init) (simp add: mt_init_def demo_start_def demo_page_def page_geom_def demo_pp_def)

text \<open>The page is extended, a block is allocated, and the thread starts to free it.\<close>

text \<open>The page is extended, a block is allocated, and the thread starts to free it.\<close>

definition demo_mem :: blocks where
  "demo_mem = (\<lambda>_. 0)(0x2000000 := 0x2000040, 0x2000040 := 0x2000080, 0x2000080 := 0)"

definition demo_ext :: pa_page where
  "demo_ext = demo_page\<lparr>pg_free := 0x2000000, pg_capacity := 3, pg_xheap := 0x5000\<rparr>"

definition demo_alloc :: pa_page where
  "demo_alloc = demo_ext\<lparr>pg_free := 0x2000040, pg_used := 1\<rparr>"

definition demo_held :: mt_sys where
  "demo_held = demo_start\<lparr>sy_state := \<lparr>mt_mem = demo_mem, mt_page = (\<lambda>_. demo_page\<lparr>pg_xheap := 0x5000\<rparr>)(demo_p := demo_alloc),
     mt_delayed = (\<lambda>_. 0)\<rparr>, sy_threads := [Fr_loop 0x2000000 0]\<rparr>"

lemma demo_held_reach: "mt_reach demo_pp {demo_p} 0x5000 demo_held"
proof -
  have e: "pa_page_extend_free (\<lambda>_. 0) (demo_page\<lparr>pg_xheap := 0x5000\<rparr>) = Some (demo_mem, demo_ext)"
    by (simp add: pa_page_extend_free_def pa_page_free_list_extend_def page_extend_count_def demo_page_def Let_def
        PA_MIN_EXTEND_def PA_MAX_EXTEND_SIZE_def pa_page_block_at_def link_blocks.simps pa_block_set_next_def demo_mem_def demo_ext_def)
  have a: "pa_page_malloc demo_mem demo_ext = Some (0x2000000, demo_alloc)"
    by (simp add: pa_page_malloc_def demo_ext_def demo_mem_def demo_alloc_def pa_block_next_def demo_page_def)
  define s1 where "s1 = demo_start\<lparr>sy_state := set_page demo_p demo_mem demo_ext (sy_state demo_start)\<rparr>"
  have r1: "mt_reach demo_pp {demo_p} 0x5000 s1"
    unfolding s1_def by (rule mt_reach.step [OF demo_start_reach], rule mt_step.extend) (simp_all add: demo_start_def e, simp add: demo_page_def)
  define s2 where "s2 = s1\<lparr>sy_state := set_page demo_p (mt_mem (sy_state s1)) demo_alloc (sy_state s1), sy_client := add_mset 0x2000000 (sy_client s1)\<rparr>"
  have r2: "mt_reach demo_pp {demo_p} 0x5000 s2"
    unfolding s2_def by (rule mt_reach.step [OF r1], rule mt_step.malloc) (simp_all add: s1_def demo_start_def a)
  have "mt_step demo_pp {demo_p} 0x5000 s2 (s2\<lparr>sy_threads := (sy_threads s2)[0 := Fr_loop 0x2000000 (xfree (sy_state s2) (demo_pp 0x2000000))],
      sy_client := sy_client s2 - {#0x2000000#}\<rparr>)"
    by (rule mt_step.start) (simp_all add: s2_def s1_def demo_start_def)
  moreover have "s2\<lparr>sy_threads := (sy_threads s2)[0 := Fr_loop 0x2000000 (xfree (sy_state s2) (demo_pp 0x2000000))],
      sy_client := sy_client s2 - {#0x2000000#}\<rparr> = demo_held"
    by (simp add: s2_def s1_def demo_start_def demo_held_def demo_pp_def demo_alloc_def demo_ext_def demo_page_def)
  ultimately show ?thesis using mt_reach.step [OF r2] by simp
qed

lemmas demo_evals = demo_held_def demo_start_def demo_pp_def demo_alloc_def demo_ext_def demo_page_def demo_mem_def
  pa_block_set_next_def pa_block_next_def set_xfree_def

text \<open>After four steps the thread is about to post the block, after eight it is done.\<close>

definition demo_posting :: mt_sys where "demo_posting = run_thread demo_pp 4 demo_held"
definition demo_posted :: mt_sys where "demo_posted = run_thread demo_pp 8 demo_held"

lemma demo_lengths: "0 < length (sy_threads demo_held)"
  by (simp add: demo_held_def)

lemma demo_posting_reach: "mt_reach demo_pp {demo_p} 0x5000 demo_posting" "mt_reach demo_pp {demo_p} 0x5000 demo_posted"
  unfolding demo_posting_def demo_posted_def by (rule run_thread_reach [OF demo_held_reach demo_lengths])+

lemma demo_posting_values: "sy_threads demo_posting = [Fr_dloop 0x2000000 0x5000 0]" "sy_owner demo_posting = Ow_idle"
  "sy_client demo_posting = {#}"
  unfolding demo_posting_def by code_simp+

lemma demo_posted_values: "flag (sy_state demo_posted) demo_p = PA_NO_DELAYED_FREE" "sy_owner demo_posted = Ow_idle"
  "mt_delayed (sy_state demo_posted) 0x5000 = 0x2000000" "sy_threads demo_posted = [Fr_idle]"
  "mt_mem (sy_state demo_posted) 0x2000000 = 0" "sy_client demo_posted = {#}"
  unfolding demo_posted_def by code_simp+

theorem concurrent_free_partition_witness:
  "\<exists>ds fl ll xl. blist (mt_mem (sy_state demo_posted)) 0x2000000 ds \<and>
     mset fl + mset ll + mset xl + page_live demo_pp demo_p (mset ds) = page_blocks (mt_page (sy_state demo_posted) demo_p)"
proof -
  obtain ds ts where b: "blist (mt_mem (sy_state demo_posted)) (mt_delayed (sy_state demo_posted) 0x5000) ds"
      "blist (mt_mem (sy_state demo_posted)) (owner_rest (sy_owner demo_posted)) ts"
    and "\<exists>fl ll xl. mset fl + mset ll + mset xl + page_live demo_pp demo_p (sy_client demo_posted + sum_list (map free_held (sy_threads demo_posted)) +
       mset ds + mset ts + mset (owner_block (sy_owner demo_posted))) = page_blocks (mt_page (sy_state demo_posted) demo_p)"
    using concurrent_free_partition [OF demo_posting_reach(2)] by blast
  then show ?thesis by (auto simp: demo_posted_values)
qed

theorem no_delayed_pending_witness:
  "\<exists>ds. blist (mt_mem (sy_state demo_posted)) 0x2000000 ds \<and> ds \<noteq> []"
  using no_delayed_pending [OF demo_posting_reach(2) _ demo_posted_values(1)] by (auto simp: demo_posted_values)

theorem heap_access_protected_witness:
  "flag (sy_state demo_posting) demo_p = PA_DELAYED_FREEING \<and> pg_xheap (mt_page (sy_state demo_posting) demo_p) = 0x5000"
  using heap_access_protected [OF demo_posting_reach(1), of 0 demo_p] by (simp add: demo_posting_values demo_pp_def)

text \<open>The owner marks the page as never-delayed while the thread has just read the old flag.  During the owner's call the
  exchange of the thread fails, and it then pushes the block on the list of the page.\<close>

definition demo_marked :: mt_sys where
  "demo_marked = run_owner demo_pp 0x5000 3 (demo_held\<lparr>sy_owner := Ow_use demo_p PA_NEVER_DELAYED_FREE False (Us_load 0)\<rparr>)"

definition demo_drained :: mt_sys where
  "demo_drained = run_owner demo_pp 0x5000 2 (run_thread demo_pp 4 (demo_marked\<lparr>sy_owner := Ow_take 0\<rparr>))"

lemma demo_marked_reach: "mt_reach demo_pp {demo_p} 0x5000 demo_marked"
  unfolding demo_marked_def
  by (rule run_owner_reach, rule mt_reach.step [OF demo_held_reach], rule mt_step.use_delayed) (simp_all add: demo_held_def demo_start_def)

lemma demo_marked_values: "flag (sy_state demo_marked) demo_p = PA_NEVER_DELAYED_FREE" "sy_owner demo_marked = Ow_idle"
  "mt_delayed (sy_state demo_marked) 0x5000 = 0" "length (sy_threads demo_marked) = 1"
  unfolding demo_marked_def by code_simp+

text \<open>Running a thread or the owner in the middle of a call.\<close>

lemma run_thread_partial:
  "mt_partial ptr_page P heap s s' \<Longrightarrow> 0 < length (sy_threads s') \<Longrightarrow> \<not> (\<exists>a. sy_owner s' = Ow_done a) \<Longrightarrow>
   mt_partial ptr_page P heap s (run_thread ptr_page n s')"
proof (induction n arbitrary: s')
  case (Suc n)
  obtain pc st where e: "free_block_delayed_mt ptr_page False (sy_threads s' ! 0) (sy_state s') = (pc, st)" by fastforce
  from mt_partial.more [OF Suc.prems(1,3) mt_step.thread [OF Suc.prems(2) e]] Suc.IH Suc.prems(2,3) show ?case by (simp add: e)
qed simp

lemma run_owner_partial:
  "mt_partial ptr_page P heap s s' \<Longrightarrow> \<forall>i < n. \<not> (\<exists>a. sy_owner (run_owner ptr_page heap i s') = Ow_done a) \<Longrightarrow>
   mt_partial ptr_page P heap s (run_owner ptr_page heap n s')"
proof (induction n arbitrary: s')
  case (Suc n)
  obtain pc st where e: "owner_step ptr_page heap False (sy_owner s') (sy_state s') = (pc, st)" by fastforce
  define s'' where "s'' = s'\<lparr>sy_state := st, sy_owner := pc\<rparr>"
  have run: "run_owner ptr_page heap (Suc i) s' = run_owner ptr_page heap i s''" for i by (simp add: e s''_def)
  have "\<not> (\<exists>a. sy_owner s' = Ow_done a)" using Suc.prems(2) [rule_format, of 0] by simp
  then have "mt_partial ptr_page P heap s s''"
    unfolding s''_def by (rule mt_partial.more [OF Suc.prems(1) _ mt_step.owner [OF e]])
  moreover have "\<not> (\<exists>a. sy_owner (run_owner ptr_page heap i s'') = Ow_done a)" if "i < n" for i
    using Suc.prems(2) [rule_format, of "Suc i"] that unfolding run by simp
  ultimately show ?case unfolding run by (intro Suc.IH) blast+
qed simp

lemma demo_drained_values: "sy_owner demo_drained = Ow_done True" "sy_threads demo_drained = [Fr_idle]"
  "xfree (sy_state demo_drained) demo_p = 0x2000003"
  unfolding demo_drained_def demo_marked_def by code_simp+

lemma demo_middle_owner: "sy_owner (run_thread demo_pp 4 (demo_marked\<lparr>sy_owner := Ow_take 0\<rparr>)) = Ow_take 0"
  "sy_owner (run_owner demo_pp 0x5000 1 (run_thread demo_pp 4 (demo_marked\<lparr>sy_owner := Ow_take 0\<rparr>))) = Ow_next 0 True"
  unfolding demo_marked_def by code_simp+

theorem never_delayed_drains_witness:
  "flag (sy_state demo_drained) demo_p = PA_NEVER_DELAYED_FREE \<and> xfree (sy_state demo_drained) demo_p = 0x2000003"
proof -
  have "mt_partial demo_pp {demo_p} 0x5000 demo_marked (demo_marked\<lparr>sy_owner := Ow_take 0\<rparr>)"
    using mt_partial.enter [OF demo_marked_values(2), where ptr_page = demo_pp and P = "{demo_p}" and heap = "0x5000"]
    by (simp add: demo_marked_values(3))
  then have "mt_partial demo_pp {demo_p} 0x5000 demo_marked (run_thread demo_pp 4 (demo_marked\<lparr>sy_owner := Ow_take 0\<rparr>))"
    by (rule run_thread_partial) (simp_all add: demo_marked_values(4))
  then have "mt_partial demo_pp {demo_p} 0x5000 demo_marked demo_drained"
    unfolding demo_drained_def
  proof (rule run_owner_partial, intro allI impI)
    fix i :: nat assume "i < 2"
    then consider "i = 0" | "i = 1" by linarith
    then show "\<not> (\<exists>a. sy_owner (run_owner demo_pp 0x5000 i (run_thread demo_pp 4 (demo_marked\<lparr>sy_owner := Ow_take 0\<rparr>))) = Ow_done a)"
      using demo_middle_owner by cases simp_all
  qed
  then show ?thesis
    using never_delayed_drains [OF demo_marked_reach _ demo_marked_values(1) _ demo_drained_values(1)] demo_drained_values(3) by simp
qed

end
