(* ===== verification/Palloc_Spans.thy ===== *)
theory Palloc_Spans
  imports Palloc_PageQueue Palloc_SegCommit
begin

text \<open>
  The spans of slices a segment is divided into (\<open>src/segment.c\<close>): the queues of free spans, splitting
  and coalescing, allocating a page from a free span and giving it back.  The state of a thread holds the
  slices of all segments (a store indexed by slc references, as for the page queues), the segment
  structures by address, the span queues and the state of the operating system layer, which is
  threaded through as in \<open>Palloc_SegCommit\<close>.  What the arena layer answers is a record of parameters.
  Counts and offsets of slices are 32-bit in the source: they are natural numbers reduced modulo \<open>2 ^ 32\<close>
  where the source casts.
\<close>

section \<open>The state\<close>

record pa_span_queue =
  sq_first :: "slice_ref option"
  sq_last :: "slice_ref option"
  sq_slice_count :: nat

record 'o pa_segments_tld =
  tl_slices :: "slice_ref \<Rightarrow> pa_page"
  tl_segs :: "uintptr_t \<Rightarrow> pa_segment"
  tl_spans :: "nat \<Rightarrow> pa_span_queue"
  tl_count :: size_t
  tl_peak_count :: size_t
  tl_current_size :: size_t
  tl_peak_size :: size_t
  tl_reclaim_count :: size_t
  tl_os :: 'o

abbreviation sizeof_slice :: nat where
  "sizeof_slice \<equiv> 96"

abbreviation u32 :: "nat \<Rightarrow> nat" where
  "u32 n \<equiv> n mod 2 ^ 32"

definition set_slice :: "slice_ref \<Rightarrow> (pa_page \<Rightarrow> pa_page) \<Rightarrow> 'o pa_segments_tld \<Rightarrow> 'o pa_segments_tld" where
  "set_slice p f st = st\<lparr>tl_slices := (tl_slices st)(p := f (tl_slices st p))\<rparr>"

definition set_seg :: "pa_segment \<Rightarrow> 'o pa_segments_tld \<Rightarrow> 'o pa_segments_tld" where
  "set_seg seg st = st\<lparr>tl_segs := (tl_segs st)(sg_addr seg := seg)\<rparr>"

text \<open>The slice \<open>k\<close> places after a slc.\<close>

definition slice_plus :: "slice_ref \<Rightarrow> nat \<Rightarrow> slice_ref" where
  "slice_plus s k = (fst s, snd s + k)"

definition pa_slice_start :: "slice_ref \<Rightarrow> uintptr_t" where
  "pa_slice_start s = fst s + of_nat (snd s) * PA_SEGMENT_SLICE_SIZE"

definition pa_slice_first :: "(slice_ref \<Rightarrow> pa_page) \<Rightarrow> slice_ref \<Rightarrow> slice_ref" where
  "pa_slice_first slices s = (fst s, snd s - pg_slice_offset (slices s) div sizeof_slice)"

section \<open>Span queues\<close>

definition pa_span_queue_push :: "nat \<Rightarrow> slice_ref \<Rightarrow> 'o pa_segments_tld \<Rightarrow> 'o pa_segments_tld" where
  "pa_span_queue_push sq slc st =
     (let q = tl_spans st sq;
          slices = set_prev slc None (tl_slices st);
          slices = set_next slc (sq_first q) slices;
          (slices, q) = (case pg_next (slices slc) of
              Some n \<Rightarrow> (set_prev n (Some slc) slices, q\<lparr>sq_first := Some slc\<rparr>)
            | None \<Rightarrow> (slices, q\<lparr>sq_first := Some slc, sq_last := Some slc\<rparr>))
      in set_slice slc (\<lambda>s. s\<lparr>pg_block_size := 0\<rparr>)
           (st\<lparr>tl_slices := slices, tl_spans := (tl_spans st)(sq := q)\<rparr>))"

definition pa_span_queue_for :: "nat \<Rightarrow> nat" where
  "pa_span_queue_for slice_count = pa_slice_bin slice_count"

definition pa_span_queue_delete :: "nat \<Rightarrow> slice_ref \<Rightarrow> 'o pa_segments_tld \<Rightarrow> 'o pa_segments_tld" where
  "pa_span_queue_delete sq slc st =
     (let q = tl_spans st sq; slices = tl_slices st;
          slices = (case pg_prev (slices slc) of None \<Rightarrow> slices | Some p \<Rightarrow> set_next p (pg_next (slices slc)) slices);
          q = (if Some slc = sq_first q then q\<lparr>sq_first := pg_next (slices slc)\<rparr> else q);
          slices = (case pg_next (slices slc) of None \<Rightarrow> slices | Some n \<Rightarrow> set_prev n (pg_prev (slices slc)) slices);
          q = (if Some slc = sq_last q then q\<lparr>sq_last := pg_prev (slices slc)\<rparr> else q);
          slices = set_next slc None (set_prev slc None slices)
      in set_slice slc (\<lambda>s. s\<lparr>pg_block_size := 1\<rparr>)
           (st\<lparr>tl_slices := slices, tl_spans := (tl_spans st)(sq := q)\<rparr>))"

definition pa_slice_is_used :: "pa_page \<Rightarrow> bool" where
  "pa_slice_is_used s \<longleftrightarrow> 0 < pg_block_size s"

section \<open>Sizes and places of pages\<close>

definition pa_segment_page_start_from_slice :: "pa_page \<Rightarrow> slice_ref \<Rightarrow> size_t \<Rightarrow> uintptr_t \<times> size_t" where
  "pa_segment_page_start_from_slice s slc block_size =
     (let psize = of_nat (pg_slice_count s) * PA_SEGMENT_SLICE_SIZE;
          pstart = fst slc + of_nat (snd slc) * PA_SEGMENT_SLICE_SIZE;
          start_offset = (if 0 < block_size \<and> block_size \<le> 0x10000
             then let adjust = block_size - pstart mod block_size
                  in if adjust < block_size \<and> block_size + adjust \<le> psize then adjust else 0
             else 0);
          start_offset = (if 8 \<le> block_size
             then (if block_size \<le> 64 then start_offset + 3 * block_size
                   else if block_size \<le> 512 then start_offset + block_size else start_offset)
             else start_offset);
          start_offset = pa_align_up start_offset 16
      in (pstart + start_offset, psize - start_offset))"

definition pa_segment_page_start :: "(slice_ref \<Rightarrow> pa_page) \<Rightarrow> slice_ref \<Rightarrow> uintptr_t \<times> size_t" where
  "pa_segment_page_start slices page =
     pa_segment_page_start_from_slice (slices page) page (pg_block_size (slices page))"

text \<open>The size of the segment structure is a parameter; \<open>PA_SECURE\<close> is 0, so there are no guard pages.\<close>

definition pa_segment_calculate_slices :: "size_t \<Rightarrow> size_t \<Rightarrow> size_t \<Rightarrow> nat \<times> nat" where
  "pa_segment_calculate_slices os_page_size sizeof_segment required =
     (let isize = pa_align_up sizeof_segment os_page_size;
          isize = pa_align_up (isize + 0) PA_SEGMENT_SLICE_SIZE;
          info_slices = unat (isize div PA_SEGMENT_SLICE_SIZE);
          segment_size = (if required = 0 then PA_SEGMENT_SIZE
                          else pa_align_up (required + isize + 0) PA_SEGMENT_SLICE_SIZE)
      in (unat (segment_size div PA_SEGMENT_SLICE_SIZE), info_slices))"

text \<open>The page that contains an address: the slice of the address, and from there back to the first slice of its span.\<close>

definition pa_ptr_segment :: "uintptr_t \<Rightarrow> uintptr_t option" where
  "pa_ptr_segment p =
     (let segment = (p - 1) AND NOT (PA_SEGMENT_SIZE - 1)
      in if segment <=s 0 then None else Some segment)"

definition pa_segment_page_of :: "(slice_ref \<Rightarrow> pa_page) \<Rightarrow> uintptr_t \<Rightarrow> uintptr_t \<Rightarrow> slice_ref" where
  "pa_segment_page_of slices segment p =
     (let idx = unat (drop_bit 16 (p - segment))
      in pa_slice_first slices (segment, idx))"

section \<open>Freeing spans\<close>

definition pa_segment_is_abandoned :: "pa_segment \<Rightarrow> bool" where
  "pa_segment_is_abandoned seg \<longleftrightarrow> sg_thread_id seg = 0"

definition pa_segment_span_free ::
    "'o os_env \<Rightarrow> uintptr_t \<Rightarrow> nat \<Rightarrow> nat \<Rightarrow> bool \<Rightarrow> 'o pa_segments_tld \<Rightarrow> 'o pa_segments_tld" where
  "pa_segment_span_free env segment slice_index slice_count allow_purge st =
     (let seg = tl_segs st segment;
          sq = (if sg_kind seg = PA_SEGMENT_HUGE \<or> pa_segment_is_abandoned seg then None
                else Some (pa_span_queue_for slice_count));
          slice_count = (if slice_count = 0 then 1 else slice_count);
          slc = (segment, slice_index);
          st = set_slice slc (\<lambda>s. s\<lparr>pg_slice_count := u32 slice_count, pg_slice_offset := 0\<rparr>) st;
          st = (if 1 < slice_count
                then let l = slice_index + slice_count - 1;
                         l = (if sg_slice_entries seg < l then sg_slice_entries seg else l)
                     in set_slice (segment, l) (\<lambda>s. s\<lparr>pg_slice_count := 0,
                          pg_slice_offset := u32 (sizeof_slice * (slice_count - 1)), pg_block_size := 0\<rparr>) st
                else st);
          st = (if allow_purge
                then let (seg, os) = pa_segment_schedule_purge env seg (tl_os st) (pa_slice_start slc)
                                       (of_nat slice_count * PA_SEGMENT_SLICE_SIZE)
                     in (set_seg seg st)\<lparr>tl_os := os\<rparr>
                else st)
      in case sq of Some b \<Rightarrow> pa_span_queue_push b slc st
         | None \<Rightarrow> set_slice slc (\<lambda>s. s\<lparr>pg_block_size := 0\<rparr>) st)"

definition pa_segment_span_remove_from_queue :: "slice_ref \<Rightarrow> 'o pa_segments_tld \<Rightarrow> 'o pa_segments_tld" where
  "pa_segment_span_remove_from_queue slc st =
     pa_span_queue_delete (pa_span_queue_for (pg_slice_count (tl_slices st slc))) slc st"

text \<open>Coalescing with the following span, with the preceding one, and both.\<close>

definition coalesce_next :: "slice_ref \<Rightarrow> 'o pa_segments_tld \<Rightarrow> nat \<times> 'o pa_segments_tld" where
  "coalesce_next slc st =
     (let seg = tl_segs st (fst slc);
          slice_count = pg_slice_count (tl_slices st slc);
          nxt = slice_plus slc slice_count
      in if snd nxt < sg_slice_entries seg \<and> pg_block_size (tl_slices st nxt) = 0
         then (slice_count + pg_slice_count (tl_slices st nxt),
               if \<not> pa_segment_is_abandoned seg then pa_segment_span_remove_from_queue nxt st else st)
         else (slice_count, st))"

definition coalesce_prev :: "slice_ref \<Rightarrow> nat \<Rightarrow> 'o pa_segments_tld \<Rightarrow> slice_ref \<times> nat \<times> 'o pa_segments_tld" where
  "coalesce_prev slc slice_count st =
     (let seg = tl_segs st (fst slc)
      in if 0 < snd slc
         then let prv = pa_slice_first (tl_slices st) (fst slc, snd slc - 1)
              in if pg_block_size (tl_slices st prv) = 0
                 then let slice_count = slice_count + pg_slice_count (tl_slices st prv);
                          st = set_slice slc (\<lambda>s. s\<lparr>pg_slice_count := 0,
                                 pg_slice_offset := u32 (sizeof_slice * (snd slc - snd prv))\<rparr>) st;
                          st = (if \<not> pa_segment_is_abandoned seg then pa_segment_span_remove_from_queue prv st else st)
                      in (prv, slice_count, st)
                 else (slc, slice_count, st)
         else (slc, slice_count, st))"

definition pa_segment_span_free_coalesce ::
    "'o os_env \<Rightarrow> slice_ref \<Rightarrow> 'o pa_segments_tld \<Rightarrow> slice_ref \<times> 'o pa_segments_tld" where
  "pa_segment_span_free_coalesce env slc st =
     (if sg_kind (tl_segs st (fst slc)) = PA_SEGMENT_HUGE
      then (slc, set_slice slc (\<lambda>s. s\<lparr>pg_block_size := 0\<rparr>) st)
      else let (slice_count, st) = coalesce_next slc st;
               (slc, slice_count, st) = coalesce_prev slc slice_count st
           in (slc, pa_segment_span_free env (fst slc) (snd slc) slice_count True st))"

section \<open>Allocating spans\<close>

text \<open>The back offsets of the slices after the first one.\<close>

definition set_back_offsets :: "slice_ref \<Rightarrow> nat \<Rightarrow> 'o pa_segments_tld \<Rightarrow> 'o pa_segments_tld" where
  "set_back_offsets slc extra st =
     fold (\<lambda>i. set_slice (slice_plus slc i) (\<lambda>s. s\<lparr>pg_slice_offset := u32 (sizeof_slice * i),
        pg_slice_count := 0, pg_block_size := 1\<rparr>)) [1..<Suc extra] st"

definition PA_MAX_SLICE_OFFSET_COUNT :: nat where "PA_MAX_SLICE_OFFSET_COUNT = 255"

definition pa_segment_span_allocate ::
    "'o os_env \<Rightarrow> uintptr_t \<Rightarrow> nat \<Rightarrow> nat \<Rightarrow> 'o pa_segments_tld \<Rightarrow> slice_ref option \<times> 'o pa_segments_tld" where
  "pa_segment_span_allocate env segment slice_index slice_count st =
     (let seg = tl_segs st segment;
          slc = (segment, slice_index);
          (ok, committed_is_zero, seg, os) = pa_segment_ensure_committed env seg (tl_os st)
             (fst (pa_segment_page_start_from_slice (tl_slices st slc) slc 0)) (of_nat slice_count * PA_SEGMENT_SLICE_SIZE);
          st = (set_seg seg st)\<lparr>tl_os := os\<rparr>
      in if \<not> ok then (None, st)
      else let
          st = set_slice slc (\<lambda>s. s\<lparr>pg_slice_offset := 0, pg_slice_count := u32 slice_count,
                 pg_block_size := of_nat slice_count * PA_SEGMENT_SLICE_SIZE\<rparr>) st;
          extra = slice_count - 1;
          extra = (if PA_MAX_SLICE_OFFSET_COUNT < extra then PA_MAX_SLICE_OFFSET_COUNT else extra);
          extra = (if sg_slice_entries seg \<le> slice_index + extra then sg_slice_entries seg - slice_index - 1 else extra);
          st = set_back_offsets slc extra st;
          l = slice_index + slice_count - 1;
          l = (if sg_slice_entries seg < l then sg_slice_entries seg else l);
          st = (if slice_index < l
                then set_slice (segment, l) (\<lambda>s. s\<lparr>pg_slice_offset := u32 (sizeof_slice * (l - slice_index)),
                       pg_slice_count := 0, pg_block_size := 1\<rparr>) st
                else st);
          st = set_slice slc (\<lambda>s. s\<lparr>pg_is_committed := True,
                 pg_is_zero_init := sg_free_is_zero seg \<or> committed_is_zero,
                 pg_is_huge := (sg_kind seg = PA_SEGMENT_HUGE)\<rparr>) st;
          st = set_seg (seg\<lparr>sg_used := sg_used seg + 1\<rparr>) st
      in (Some slc, st))"

definition pa_segment_slice_split ::
    "'o os_env \<Rightarrow> slice_ref \<Rightarrow> nat \<Rightarrow> 'o pa_segments_tld \<Rightarrow> 'o pa_segments_tld" where
  "pa_segment_slice_split env slc slice_count st =
     (if pg_slice_count (tl_slices st slc) \<le> slice_count then st
      else let next_index = snd slc + slice_count;
               next_count = pg_slice_count (tl_slices st slc) - slice_count;
               st = pa_segment_span_free env (fst slc) next_index next_count False st
           in set_slice slc (\<lambda>s. s\<lparr>pg_slice_count := u32 slice_count\<rparr>) st)"

text \<open>Extending a page in place by the span that follows it.\<close>

definition extend_offsets :: "slice_ref \<Rightarrow> nat \<Rightarrow> nat \<Rightarrow> 'o pa_segments_tld \<Rightarrow> 'o pa_segments_tld" where
  "extend_offsets slc current_count take_count st =
     fold (\<lambda>i. set_slice (slice_plus slc (current_count + i)) (\<lambda>s. s\<lparr>
        pg_slice_offset := u32 ((current_count + i) * sizeof_slice), pg_slice_count := 0, pg_block_size := 1\<rparr>))
       [0..<take_count] st"

definition pa_segment_try_extend_span ::
    "'o os_env \<Rightarrow> slice_ref \<Rightarrow> nat \<Rightarrow> 'o pa_segments_tld \<Rightarrow> bool \<times> 'o pa_segments_tld" where
  "pa_segment_try_extend_span env page need_slices st =
     (let segment = fst page; slice_index = snd page;
          seg = tl_segs st segment;
          current_count = pg_slice_count (tl_slices st page)
      in if sg_slice_entries seg < slice_index + current_count + need_slices then (False, st)
      else let next_slice = slice_plus page current_count; n = tl_slices st next_slice
      in if pg_block_size n \<noteq> 0 then (False, st)
      else if pg_slice_count n = 0 \<or> pg_slice_count n < need_slices then (False, st)
      else let st = pa_segment_span_remove_from_queue next_slice st;
               tail_count = pg_slice_count (tl_slices st next_slice) - need_slices;
               st = (if 0 < tail_count
                     then pa_segment_span_free env segment (slice_index + current_count + need_slices) tail_count False st
                     else st);
               (ok, z, seg, os) = pa_segment_ensure_committed env (tl_segs st segment) (tl_os st)
                  (segment + of_nat (slice_index + current_count) * PA_SEGMENT_SLICE_SIZE)
                  (of_nat need_slices * PA_SEGMENT_SLICE_SIZE);
               st = (set_seg seg st)\<lparr>tl_os := os\<rparr>
      in if \<not> ok then (False, st)
      else let st = extend_offsets page current_count need_slices st;
               new_last = slice_index + current_count + need_slices - 1;
               st = (if new_last \<le> sg_slice_entries seg
                     then set_slice (segment, new_last) (\<lambda>s. s\<lparr>
                            pg_slice_offset := u32 ((current_count + need_slices - 1) * sizeof_slice)\<rparr>) st
                     else st)
      in (True, set_slice page (\<lambda>s. s\<lparr>pg_slice_count := u32 (current_count + need_slices),
             pg_block_size := of_nat (current_count + need_slices) * PA_SEGMENT_SLICE_SIZE\<rparr>) st))"

section \<open>Searching for a span\<close>

definition pa_arena_id_is_suitable :: "int \<Rightarrow> bool \<Rightarrow> int \<Rightarrow> bool" where
  "pa_arena_id_is_suitable arena_id arena_is_exclusive req_arena_id \<longleftrightarrow>
     (\<not> arena_is_exclusive \<and> req_arena_id = 0) \<or> arena_id = req_arena_id"

definition pa_arena_memid_is_suitable :: "pa_memid \<Rightarrow> int \<Rightarrow> bool" where
  "pa_arena_memid_is_suitable memid request_arena_id =
     (case mi_mem memid of
        Mem_arena index i excl \<Rightarrow>
          (if mi_memkind memid = PA_MEM_ARENA then pa_arena_id_is_suitable i excl request_arena_id
           else pa_arena_id_is_suitable 0 False request_arena_id)
      | Mem_os base sz \<Rightarrow> pa_arena_id_is_suitable 0 False request_arena_id)"

text \<open>Walking a queue from a slice on; the value is \<open>None\<close> when the walk does not end (a cyclic list).\<close>

partial_function (option) span_search :: "(slice_ref \<Rightarrow> bool) \<Rightarrow> (slice_ref \<Rightarrow> pa_page) \<Rightarrow> slice_ref option \<Rightarrow> slice_ref option option" where
  "span_search ok slices s = (case s of None \<Rightarrow> Some None
     | Some slc \<Rightarrow> if ok slc then Some (Some slc) else span_search ok slices (pg_next (slices slc)))"

fun spans_search :: "(slice_ref \<Rightarrow> bool) \<Rightarrow> 'o pa_segments_tld \<Rightarrow> nat list \<Rightarrow> (nat \<times> slice_ref) option option" where
  "spans_search ok st [] = Some None"
| "spans_search ok st (sq # sqs) = (case span_search ok (tl_slices st) (sq_first (tl_spans st sq)) of
       None \<Rightarrow> None
     | Some None \<Rightarrow> spans_search ok st sqs
     | Some (Some slc) \<Rightarrow> Some (Some (sq, slc)))"

definition pa_segments_page_find_and_allocate ::
    "'o os_env \<Rightarrow> nat \<Rightarrow> int \<Rightarrow> 'o pa_segments_tld \<Rightarrow> (slice_ref option \<times> 'o pa_segments_tld) option" where
  "pa_segments_page_find_and_allocate env slice_count req_arena_id st =
     (let sq = pa_span_queue_for slice_count;
          slice_count = (if slice_count = 0 then 1 else slice_count);
          ok = (\<lambda>s. slice_count \<le> pg_slice_count (tl_slices st s) \<and>
                    pa_arena_memid_is_suitable (sg_memid (tl_segs st (fst s))) req_arena_id)
      in case spans_search ok st [sq..<Suc PA_SEGMENT_BIN_MAX] of
           None \<Rightarrow> None
         | Some None \<Rightarrow> Some (None, st)
         | Some (Some (sq, slc)) \<Rightarrow>
             let st = pa_span_queue_delete sq slc st;
                 st = (if slice_count < pg_slice_count (tl_slices st slc)
                       then pa_segment_slice_split env slc slice_count st else st);
                 (page, st) = pa_segment_span_allocate env (fst slc) (snd slc) (pg_slice_count (tl_slices st slc)) st
             in case page of Some page \<Rightarrow> Some (Some page, st)
                | None \<Rightarrow> Some (None, snd (pa_segment_span_free_coalesce env slc st)))"

section \<open>Segments as lists of spans\<close>

text \<open>The abstract view of a segment is the list of its spans, each with its first slice, its number of slices
  and what it is used for; a span is \<open>STaken\<close> while an operation has taken it off its queue and not
  yet made a page of it or put it back.\<close>

datatype span_state = SFree | STaken | SUsed

type_synonym span = "nat \<times> nat \<times> span_state"

fun spans_from :: "nat \<Rightarrow> span list \<Rightarrow> nat \<Rightarrow> bool" where
  "spans_from i [] n \<longleftrightarrow> i = n"
| "spans_from i ((k, c, s) # ts) n \<longleftrightarrow> k = i \<and> 0 < c \<and> spans_from (i + c) ts n"

lemma spans_from_append: "spans_from i (xs @ ys) n \<longleftrightarrow> (\<exists>m. spans_from i xs m \<and> spans_from m ys n)"
  by (induction xs arbitrary: i) auto

lemma spans_from_le: "spans_from i ts n \<Longrightarrow> i \<le> n"
  by (induction ts arbitrary: i) force+

lemma spans_from_range: "spans_from i ts n \<Longrightarrow> (k, c, s) \<in> set ts \<Longrightarrow> i \<le> k \<and> 0 < c \<and> k + c \<le> n"
  by (induction ts arbitrary: i) (fastforce dest: spans_from_le)+

lemma spans_from_unique:
  "spans_from i ts n \<Longrightarrow> (k, c, s) \<in> set ts \<Longrightarrow> (k', c', s') \<in> set ts \<Longrightarrow> k' < k + c \<Longrightarrow> k < k' + c' \<Longrightarrow> (k, c, s) = (k', c', s')"
proof (induction ts arbitrary: i)
  case (Cons t ts)
  obtain k0 c0 s0 where t: "t = (k0, c0, s0)" by (cases t) auto
  have r: "spans_from (i + c0) ts n" "k0 = i" using Cons.prems(1) t by auto
  note ranges = spans_from_range [OF r(1)]
  show ?case using Cons.IH [OF r(1)] Cons.prems(2-5) t r(2) ranges [of k c s] ranges [of k' c' s'] by auto
qed simp

text \<open>What the slices of a span hold.  The first slice has the count, offset 0 and a block size that is 0 exactly
  when the span is free; the last slice of a span (for coalescing) and the first slices of a page (for finding the page of an
  inner pointer) hold the distance to the first one.\<close>

definition span_ok :: "(slice_ref \<Rightarrow> pa_page) \<Rightarrow> uintptr_t \<Rightarrow> span \<Rightarrow> bool" where
  "span_ok slices a = (\<lambda>(i, c, s). s \<noteq> STaken \<longrightarrow>
     pg_slice_count (slices (a, i)) = c \<and> pg_slice_offset (slices (a, i)) = 0 \<and>
     (pg_block_size (slices (a, i)) = 0 \<longleftrightarrow> s = SFree) \<and>
     (\<forall>j. 0 < j \<and> j < c \<and> (j = c - 1 \<or> s = SUsed \<and> j \<le> PA_MAX_SLICE_OFFSET_COUNT) \<longrightarrow>
        pg_slice_offset (slices (a, i + j)) = sizeof_slice * j))"

lemma page_core_fields:
  assumes "page_core p = page_core p'"
  shows "pg_slice_count p = pg_slice_count p'" "pg_slice_offset p = pg_slice_offset p'" "pg_block_size p = pg_block_size p'"
  using assms by (cases p; cases p'; simp add: page_core_def)+

lemma span_ok_cong:
  assumes "\<And>k. i \<le> k \<Longrightarrow> k < i + c \<Longrightarrow> page_core (slices' (a, k)) = page_core (slices (a, k))" "0 < c"
  shows "span_ok slices' a (i, c, s) = span_ok slices a (i, c, s)"
proof -
  have "page_core (slices' (a, i)) = page_core (slices (a, i))" using assms(1) [of i] assms(2) by simp
  moreover have "pg_slice_offset (slices' (a, i + j)) = pg_slice_offset (slices (a, i + j))" if "j < c" for j
    using page_core_fields(2) [OF assms(1) [of "i + j"]] that by simp
  ultimately show ?thesis by (auto simp: span_ok_def dest: page_core_fields)
qed

text \<open>The slices of a page are committed and not scheduled for purging.\<close>

definition span_live :: "pa_segment \<Rightarrow> span \<Rightarrow> bool" where
  "span_live seg = (\<lambda>(i, c, s). s = SUsed \<longrightarrow>
     {i..<i + c} \<subseteq> bits_of (sg_commit_mask seg) - bits_of (sg_purge_mask seg))"

text \<open>A normal segment that this thread owns.\<close>

definition seg_owned :: "('o \<Rightarrow> nat set) \<Rightarrow> uintptr_t \<Rightarrow> pa_segment \<Rightarrow> 'o \<Rightarrow> bool" where
  "seg_owned comm a seg os \<longleftrightarrow> seg_inv comm seg os \<and> sg_addr seg = a \<and> sg_thread_id seg \<noteq> 0 \<and>
     sg_slice_entries seg \<le> 512 \<and> unat a mod 0x2000000 = 0"

definition span_repr :: "('o \<Rightarrow> nat set) \<Rightarrow> 'o pa_segments_tld \<Rightarrow> (uintptr_t \<Rightarrow> span list option) \<Rightarrow>
    (nat \<Rightarrow> slice_ref list) \<Rightarrow> bool" where
  "span_repr comm st T Q \<longleftrightarrow>
     (\<forall>a ts. T a = Some ts \<longrightarrow> seg_owned comm a (tl_segs st a) (tl_os st) \<and>
        spans_from 0 ts (sg_slice_entries (tl_segs st a)) \<and>
        (\<forall>t \<in> set ts. span_ok (tl_slices st) a t \<and> span_live (tl_segs st a) t)) \<and>
     (\<forall>b \<le> PA_SEGMENT_BIN_MAX. pages.dll (tl_slices st) (sq_first (tl_spans st b)) (sq_last (tl_spans st b)) (Q b) \<and>
        set (Q b) = {(a, i). \<exists>ts c. T a = Some ts \<and> (i, c, SFree) \<in> set ts \<and> pa_slice_bin c = b})"

lemma span_reprD:
  assumes "span_repr comm st T Q" "T a = Some ts"
  shows "seg_owned comm a (tl_segs st a) (tl_os st)" "spans_from 0 ts (sg_slice_entries (tl_segs st a))"
    "t \<in> set ts \<Longrightarrow> span_ok (tl_slices st) a t" "t \<in> set ts \<Longrightarrow> span_live (tl_segs st a) t"
  using assms by (auto simp: span_repr_def)

lemma span_repr_queue:
  assumes "span_repr comm st T Q" "b \<le> PA_SEGMENT_BIN_MAX"
  shows "pages.dll (tl_slices st) (sq_first (tl_spans st b)) (sq_last (tl_spans st b)) (Q b)"
    "(a, i) \<in> set (Q b) \<longleftrightarrow> (\<exists>ts c. T a = Some ts \<and> (i, c, SFree) \<in> set ts \<and> pa_slice_bin c = b)"
  using assms by (auto simp: span_repr_def)

lemma span_bounds:
  assumes "span_repr comm st T Q" "T a = Some ts" "(i, c, s) \<in> set ts"
  shows "0 < c" "i + c \<le> sg_slice_entries (tl_segs st a)" "i + c \<le> 512" "pa_slice_bin c \<le> PA_SEGMENT_BIN_MAX"
proof -
  show c: "0 < c" "i + c \<le> sg_slice_entries (tl_segs st a)"
    using spans_from_range [OF span_reprD(2) [OF assms(1,2)] assms(3)] by simp_all
  then show "i + c \<le> 512" using span_reprD(1) [OF assms(1,2)] by (simp add: seg_owned_def)
  then show "pa_slice_bin c \<le> PA_SEGMENT_BIN_MAX"
    using pa_slice_bin_range [of c] by (simp add: PA_SLICES_PER_SEGMENT_def PA_SEGMENT_BIN_MAX_def)
qed

text \<open>Two live segments do not share addresses, so what happens to the memory of one leaves the other alone.\<close>

lemma segs_apart:
  assumes "unat a mod 0x2000000 = 0" "unat (a' :: uintptr_t) mod 0x2000000 = 0" "a \<noteq> a'" "unat a \<le> b" "b < unat a + 0x2000000" "unat a' \<le> b"
  shows "unat a' + 0x2000000 \<le> b"
proof (rule ccontr)
  assume "\<not> unat a' + 0x2000000 \<le> b"
  obtain q q' where q: "unat a = 0x2000000 * q" "unat a' = 0x2000000 * q'" using assms(1,2) by (meson mod_0_imp_dvd dvdE)
  have "b div 0x2000000 = q" "b div 0x2000000 = q'"
    using assms(4-6) q \<open>\<not> unat a' + 0x2000000 \<le> b\<close> by (auto intro!: div_nat_eqI)
  then have "unat a = unat a'" using q by simp
  then show False using assms(3) by (simp add: word_unat_eq_iff)
qed

definition seg_bytes :: "uintptr_t \<Rightarrow> nat set" where
  "seg_bytes a = {unat a..<unat a + 0x2000000}"

lemma seg_owned_other:
  assumes "seg_owned comm a seg os" "unat a' mod 0x2000000 = 0" "a \<noteq> a'" "comm os - seg_bytes a' \<subseteq> comm os'"
  shows "seg_owned comm a seg os'"
proof -
  have bits: "bits_of (sg_commit_mask seg) \<subseteq> {..<512}"
    using assms(1) bits_of_bound [of _ "sg_commit_mask seg"]
    by (auto simp: seg_owned_def seg_inv_def seg_masks_def cm.paired_def cm_inv_def FIELDS_8)
  have "b \<in> comm os'" if b: "unat a \<le> b" "slice_of seg b \<in> bits_of (sg_commit_mask seg)" for b
  proof -
    have "b \<in> comm os" using assms(1) b by (auto simp: seg_owned_def seg_inv_def commit_sound_def)
    moreover have "b \<notin> seg_bytes a'"
    proof
      assume "b \<in> seg_bytes a'"
      then have "unat a + 0x2000000 \<le> b"
        using segs_apart [of a' a b] assms(1-3) b(1) by (simp add: seg_bytes_def seg_owned_def)
      moreover have "(b - unat a) div 65536 < 512"
        using b(2) bits assms(1) by (auto simp: slice_of_def seg_owned_def)
      then have "b - unat a < 512 * 65536" by (subst (asm) div_less_iff_less_mult) simp_all
      ultimately show False by simp
    qed
    ultimately show ?thesis using assms(4) by blast
  qed
  then show ?thesis using assms(1) by (auto simp: seg_owned_def seg_inv_def commit_sound_def)
qed

lemma spans_from_det: "spans_from i ts n \<Longrightarrow> spans_from i ts n' \<Longrightarrow> n = n'"
  by (induction ts arbitrary: i) auto

lemma spans_from_middle:
  assumes "spans_from 0 (xs @ mid @ ys) n" "spans_from i mid j" "mid \<noteq> []"
  shows "spans_from 0 xs i" "spans_from j ys n"
proof -
  obtain m m' where m: "spans_from 0 xs m" "spans_from m mid m'" "spans_from m' ys n"
    using assms(1) unfolding spans_from_append by blast
  have "m = i" using m(2) assms(2,3) by (cases mid) auto
  then have "m' = j" using m(2) assms(2) spans_from_det by blast
  then show "spans_from 0 xs i" "spans_from j ys n" using m \<open>m = i\<close> by auto
qed

text \<open>Replacing a range of spans of one segment, none of which is free, by other spans that are not free: the queues stay as
  they are.\<close>

lemma span_repr_replace:
  assumes inv: "span_repr comm st T Q" and T: "T a = Some (xs @ mid @ ys)"
    and mid: "spans_from i mid j" "spans_from i mid' j" and ne: "mid \<noteq> []"
    and nofree: "\<And>k c. (k, c, SFree) \<notin> set mid \<union> set mid'"
    and frame: "\<And>p. p \<notin> {a} \<times> {i..<j} \<Longrightarrow> tl_slices st' p = tl_slices st p"
    and spans: "tl_spans st' = tl_spans st"
    and segs: "\<And>a'. a' \<noteq> a \<Longrightarrow> tl_segs st' a' = tl_segs st a'"
    and own: "seg_owned comm a (tl_segs st' a) (tl_os st')" "sg_slice_entries (tl_segs st' a) = sg_slice_entries (tl_segs st a)"
    and os: "comm (tl_os st) - seg_bytes a \<subseteq> comm (tl_os st')"
    and ok: "\<forall>t \<in> set mid'. span_ok (tl_slices st') a t \<and> span_live (tl_segs st' a) t"
    and live: "\<forall>t \<in> set xs \<union> set ys. span_live (tl_segs st a) t \<longrightarrow> span_live (tl_segs st' a) t"
  shows "span_repr comm st' (T(a \<mapsto> xs @ mid' @ ys)) Q"
proof -
  note D = span_reprD [OF inv]
  have ch: "spans_from 0 xs i" "spans_from j ys (sg_slice_entries (tl_segs st a))"
    using spans_from_middle [OF D(2) [OF T] mid(1) ne] .
  have chain: "spans_from 0 (xs @ mid' @ ys) (sg_slice_entries (tl_segs st' a))"
    unfolding spans_from_append own(2) using ch mid(2) by blast
  have outer: "span_ok (tl_slices st') a t \<and> span_live (tl_segs st' a) t" if t: "t \<in> set xs \<union> set ys" for t
  proof -
    obtain k c s where ks: "t = (k, c, s)" by (cases t) auto
    have r: "0 < c" "k + c \<le> i \<or> j \<le> k"
      using t ks spans_from_range [OF ch(1), of k c s] spans_from_range [OF ch(2), of k c s] by auto
    have "span_ok (tl_slices st') a t = span_ok (tl_slices st) a t" unfolding ks
      by (rule span_ok_cong) (use r frame in auto)
    then show ?thesis using D(3,4) [OF T, of t] t live by auto
  qed
  have seg: "seg_owned comm a' (tl_segs st' a') (tl_os st') \<and>
        spans_from 0 ts (sg_slice_entries (tl_segs st' a')) \<and>
        (\<forall>t \<in> set ts. span_ok (tl_slices st') a' t \<and> span_live (tl_segs st' a') t)"
    if ts: "(T(a \<mapsto> xs @ mid' @ ys)) a' = Some ts" for a' ts
  proof (cases "a' = a")
    case True
    then have "ts = xs @ mid' @ ys" using ts by simp
    then show ?thesis using True own(1) chain outer ok by auto
  next
    case False
    then have T': "T a' = Some ts" using ts by simp
    have "seg_owned comm a' (tl_segs st a') (tl_os st')"
      by (rule seg_owned_other [OF D(1) [OF T'] _ False os]) (use D(1) [OF T] in \<open>simp add: seg_owned_def\<close>)
    moreover have "span_ok (tl_slices st') a' t" if t: "t \<in> set ts" for t
    proof -
      obtain k c s where ks: "t = (k, c, s)" by (cases t) auto
      have "span_ok (tl_slices st') a' t = span_ok (tl_slices st) a' t" unfolding ks
        by (rule span_ok_cong) (use frame False span_bounds(1) [OF inv T'] t ks in auto)
      then show ?thesis using D(3) [OF T' t] by simp
    qed
    ultimately show ?thesis using segs [OF False] D(2) [OF T'] D(4) [OF T'] by simp
  qed
  have free: "(k, c, SFree) \<in> set (xs @ mid' @ ys) \<longleftrightarrow> (k, c, SFree) \<in> set (xs @ mid @ ys)" for k c
    using nofree by auto
  have queue: "pages.dll (tl_slices st') (sq_first (tl_spans st' b)) (sq_last (tl_spans st' b)) (Q b) \<and>
        set (Q b) = {(a', k). \<exists>ts c. (T(a \<mapsto> xs @ mid' @ ys)) a' = Some ts \<and> (k, c, SFree) \<in> set ts \<and> pa_slice_bin c = b}"
    if b: "b \<le> PA_SEGMENT_BIN_MAX" for b
  proof
    note q = span_repr_queue [OF inv b]
    have "p \<notin> {a} \<times> {i..<j}" if p: "p \<in> set (Q b)" for p
    proof
      assume "p \<in> {a} \<times> {i..<j}"
      then obtain k where k: "p = (a, k)" "i \<le> k" "k < j" by auto
      then obtain c where c: "(k, c, SFree) \<in> set (xs @ mid @ ys)" using p q(2) [of a k] T by auto
      then have "(k, c, SFree) \<in> set xs \<union> set ys" using nofree by auto
      then show False
        using spans_from_range [OF ch(1), of k c SFree] spans_from_range [OF ch(2), of k c SFree] k by auto
    qed
    then show "pages.dll (tl_slices st') (sq_first (tl_spans st' b)) (sq_last (tl_spans st' b)) (Q b)"
      using q(1) pages.dll_cong_on [of "Q b" "tl_slices st'" "tl_slices st"] frame spans by simp
    show "set (Q b) = {(a', k). \<exists>ts c. (T(a \<mapsto> xs @ mid' @ ys)) a' = Some ts \<and> (k, c, SFree) \<in> set ts \<and> pa_slice_bin c = b}"
    proof -
      have "(a', k) \<in> set (Q b) \<longleftrightarrow> (a', k) \<in> {(a', k). \<exists>ts c. (T(a \<mapsto> xs @ mid' @ ys)) a' = Some ts \<and> (k, c, SFree) \<in> set ts \<and> pa_slice_bin c = b}"
        for a' k using q(2) [of a' k] free T by (cases "a' = a") auto
      then show ?thesis by (simp only: set_eq_iff split_paired_All) blast
    qed
  qed
  show ?thesis unfolding span_repr_def using seg queue by blast
qed

text \<open>Taking a free span off its queue, and putting one on it.\<close>

lemma span_delete_frame:
  "tl_segs (pa_span_queue_delete b x st) = tl_segs st" "tl_os (pa_span_queue_delete b x st) = tl_os st"
  "tl_slices (pa_span_queue_delete b x st) =
     (set_next x None (set_prev x None (pages.unlink x (tl_slices st))))(x := (set_next x None (set_prev x None (pages.unlink x (tl_slices st))) x)\<lparr>pg_block_size := 1\<rparr>)"
  "b' \<noteq> b \<Longrightarrow> tl_spans (pa_span_queue_delete b x st) b' = tl_spans st b'"
  by (simp_all add: pa_span_queue_delete_def pages.unlink_def set_slice_def Let_def)

lemma page_core_unlink: "page_core (pages.unlink x s p) = page_core (s p)"
  by (simp add: pages.unlink_def Let_def split: option.splits)

lemma page_core_bs: "page_core (p\<lparr>pg_block_size := v\<rparr>) = (page_core p)\<lparr>pg_block_size := v\<rparr>"
  by (simp add: page_core_def)

lemma span_delete_core:
  "page_core (tl_slices (pa_span_queue_delete b x st) p) =
     (if p = x then (page_core (tl_slices st p))\<lparr>pg_block_size := 1\<rparr> else page_core (tl_slices st p))"
  by (simp add: span_delete_frame page_core_unlink page_core_bs)

lemma span_delete_queue:
  assumes "pages.dll (tl_slices st) (sq_first (tl_spans st b)) (sq_last (tl_spans st b)) (us @ x # vs)"
  shows "pages.dll (tl_slices (pa_span_queue_delete b x st)) (sq_first (tl_spans (pa_span_queue_delete b x st) b))
    (sq_last (tl_spans (pa_span_queue_delete b x st) b)) (us @ vs)"
proof -
  note n = pages.dll_neighbours [OF assms]
  note e = pages.dll_ends [OF assms]
  have x: "x \<notin> set (us @ vs)" using e(3) by auto
  let ?s = "pages.unlink x (tl_slices st)"
  have F: "sq_first (tl_spans (pa_span_queue_delete b x st) b) = (if us = [] then first_of vs else sq_first (tl_spans st b))"
  proof (cases us)
    case Nil
    then show ?thesis using n e by (simp add: pa_span_queue_delete_def set_slice_def Let_def)
  next
    case (Cons u us')
    then have "Some x \<noteq> sq_first (tl_spans st b)" using e by auto
    then show ?thesis using Cons by (simp add: pa_span_queue_delete_def set_slice_def Let_def)
  qed
  have px: "pg_prev (set_next p v s x) = pg_prev (s x)" for p v s by (simp add: set_next_def)
  have L: "sq_last (tl_spans (pa_span_queue_delete b x st) b) = (if vs = [] then last_of us else sq_last (tl_spans st b))"
  proof (cases "vs = []")
    case True
    then have "sq_last (tl_spans st b) = Some x" using e by simp
    moreover have "pg_next ((case pg_prev (tl_slices st x) of None \<Rightarrow> tl_slices st | Some p \<Rightarrow> set_next p (pg_next (tl_slices st x)) (tl_slices st)) x) = None"
      using n True by (auto simp: set_next_def split: option.splits)
    ultimately show ?thesis using n True by (simp add: pa_span_queue_delete_def set_slice_def Let_def px split: option.splits)
  next
    case False
    then have "sq_last (tl_spans st b) = Some (last vs)" "x \<noteq> last vs" using e x by (auto simp: last_of_def)
    then show ?thesis using False by (auto simp add: pa_span_queue_delete_def set_slice_def Let_def)
  qed
  have "pages.dll ?s (sq_first (tl_spans (pa_span_queue_delete b x st) b)) (sq_last (tl_spans (pa_span_queue_delete b x st) b)) (us @ vs)"
    unfolding F L by (rule pages.unlink_dll [OF assms])
  then have "pages.dll (set_next x None (set_prev x None ?s)) (sq_first (tl_spans (pa_span_queue_delete b x st) b))
      (sq_last (tl_spans (pa_span_queue_delete b x st) b)) (us @ vs)"
    using x by (simp add: pages.dll_frame)
  then show ?thesis using x
    by (subst pages.dll_cong_on [where s' = "set_next x None (set_prev x None ?s)"]) (auto simp: span_delete_frame)
qed

lemma dll_other:
  assumes "pages.dll s f l xs" "\<And>x. x \<in> set xs \<Longrightarrow> s' x = s x"
  shows "pages.dll s' f l xs"
  using assms pages.dll_cong_on [of xs s' s] by simp

lemma unlink_outside:
  assumes "pages.dll s f l (us @ x # vs)" "p \<notin> set (us @ x # vs)"
  shows "pages.unlink x s p = s p"
proof -
  note n = pages.dll_neighbours [OF assms(1)]
  have p: "pg_prev (s x) \<noteq> Some p" "pg_next (s x) \<noteq> Some p"
    using assms(2) n by (auto dest: first_of_mem last_of_mem)
  define s' where "s' = (case pg_prev (s x) of None \<Rightarrow> s | Some q \<Rightarrow> set_next q (pg_next (s x)) s)"
  have "s' p = s p" using p(1) by (auto simp: s'_def set_next_def split: option.splits)
  moreover have "pg_next (s' x) \<noteq> Some p" using p by (auto simp: s'_def set_next_def split: option.splits)
  moreover have "pages.unlink x s = (case pg_next (s' x) of None \<Rightarrow> s' | Some q \<Rightarrow> set_prev q (pg_prev (s' x)) s')"
    unfolding pages.unlink_def Let_def s'_def ..
  ultimately show ?thesis by (auto simp: set_prev_def split: option.splits)
qed

lemma spans_from_distinct: "spans_from i ts n \<Longrightarrow> distinct (map fst ts)"
proof (induction ts arbitrary: i)
  case (Cons t ts)
  obtain k c s where t: "t = (k, c, s)" by (cases t) auto
  have r: "spans_from (k + c) ts n" "0 < c" using Cons.prems t by auto
  have "k \<notin> fst ` set ts"
  proof
    assume "k \<in> fst ` set ts"
    then obtain c' s' where "(k, c', s') \<in> set ts" by force
    then show False using spans_from_range [OF r(1)] r(2) by fastforce
  qed
  then show ?case using Cons.IH [OF r(1)] t by simp
qed simp

lemma span_queues_disjoint:
  assumes inv: "span_repr comm st T Q" and "b \<le> PA_SEGMENT_BIN_MAX" "b' \<le> PA_SEGMENT_BIN_MAX" "b \<noteq> b'"
  shows "set (Q b) \<inter> set (Q b') = {}"
proof (rule ccontr)
  assume "set (Q b) \<inter> set (Q b') \<noteq> {}"
  then obtain a i where p: "(a, i) \<in> set (Q b)" "(a, i) \<in> set (Q b')" by auto
  then obtain ts c c' where c: "T a = Some ts" "(i, c, SFree) \<in> set ts" "pa_slice_bin c = b" "(i, c', SFree) \<in> set ts" "pa_slice_bin c' = b'"
    using span_repr_queue(2) [OF inv assms(2), of a i] span_repr_queue(2) [OF inv assms(3), of a i] by auto
  then have "c = c'"
    using spans_from_unique [OF span_reprD(2) [OF inv c(1)] c(2,4)]
      span_bounds(1) [OF inv c(1,2)] span_bounds(1) [OF inv c(1,4)] by simp
  then show False using c assms(4) by simp
qed

lemma spans_from_state: "spans_from i (xs @ (k, c, s) # ys) n = spans_from i (xs @ (k, c, s') # ys) n"
  by (simp add: spans_from_append)

lemma span_repr_flip:
  assumes inv: "span_repr comm st T Q" and T: "T a = Some (xs @ (i, c, s) # ys)"
    and core: "\<And>p. p \<noteq> (a, i) \<Longrightarrow> page_core (tl_slices st' p) = page_core (tl_slices st p)"
    and ok: "span_ok (tl_slices st') a (i, c, s')"
    and same: "tl_segs st' = tl_segs st" "tl_os st' = tl_os st" and s': "s' \<noteq> SUsed"
    and dll: "\<And>b. b \<le> PA_SEGMENT_BIN_MAX \<Longrightarrow> pages.dll (tl_slices st') (sq_first (tl_spans st' b)) (sq_last (tl_spans st' b)) (Q' b)"
    and queue: "\<And>b. b \<le> PA_SEGMENT_BIN_MAX \<Longrightarrow>
      set (Q' b) = set (Q b) - {(a, i)} \<union> (if s' = SFree \<and> b = pa_slice_bin c then {(a, i)} else {})"
  shows "span_repr comm st' (T(a \<mapsto> xs @ (i, c, s') # ys)) Q'"
proof -
  note D = span_reprD [OF inv]
  have c: "0 < c" using span_bounds(1) [OF inv T, of i c s] by simp
  have uniq: "(k, c', u) = (i, c, s)" if "(k, c', u) \<in> set (xs @ (i, c, s) # ys)" "k \<le> i" "i < k + c'" for k c' u
    using spans_from_unique [OF D(2) [OF T] that(1), of i c s] c that by simp
  have others: "(k, c', u) \<noteq> (i, c, s)" if "(k, c', u) \<in> set xs \<union> set ys" for k c' u
  proof -
    have "distinct (map fst (xs @ (i, c, s) # ys))"
      using D(2) [OF T] by (rule spans_from_distinct)
    then show ?thesis using that by force
  qed
  have outer: "span_ok (tl_slices st') a t" if t: "t \<in> set xs \<union> set ys" for t
  proof -
    obtain k c' u where ks: "t = (k, c', u)" by (cases t) auto
    have m: "(k, c', u) \<in> set (xs @ (i, c, s) # ys)" using t ks by auto
    have "\<not> (k \<le> i \<and> i < k + c')" using uniq [OF m] others t ks by blast
    then have "span_ok (tl_slices st') a t = span_ok (tl_slices st) a t" unfolding ks
      using span_bounds(1) [OF inv T m] core by (intro span_ok_cong) auto
    then show ?thesis using D(3) [OF T, of t] t by auto
  qed
  have seg: "seg_owned comm a' (tl_segs st' a') (tl_os st') \<and>
        spans_from 0 ts (sg_slice_entries (tl_segs st' a')) \<and>
        (\<forall>t \<in> set ts. span_ok (tl_slices st') a' t \<and> span_live (tl_segs st' a') t)"
    if ts: "(T(a \<mapsto> xs @ (i, c, s') # ys)) a' = Some ts" for a' ts
  proof (cases "a' = a")
    case True
    then have "ts = xs @ (i, c, s') # ys" using ts by simp
    moreover have "span_live (tl_segs st a) (i, c, s')" using s' by (simp add: span_live_def)
    moreover have "spans_from 0 (xs @ (i, c, s') # ys) (sg_slice_entries (tl_segs st a))"
      using D(2) [OF T] same by (simp add: spans_from_append)
    ultimately show ?thesis using True D(1,4) [OF T] outer ok same by auto
  next
    case False
    then have T': "T a' = Some ts" using ts by simp
    have "span_ok (tl_slices st') a' t" if t: "t \<in> set ts" for t
    proof -
      obtain k c' u where ks: "t = (k, c', u)" by (cases t) auto
      have "span_ok (tl_slices st') a' t = span_ok (tl_slices st) a' t" unfolding ks
        by (rule span_ok_cong) (use core False span_bounds(1) [OF inv T'] t ks in auto)
      then show ?thesis using D(3) [OF T' t] by simp
    qed
    then show ?thesis using same D(1,2) [OF T'] D(4) [OF T'] by simp
  qed
  have set_Q: "set (Q' b) = {(a', k). \<exists>ts c'. (T(a \<mapsto> xs @ (i, c, s') # ys)) a' = Some ts \<and> (k, c', SFree) \<in> set ts \<and> pa_slice_bin c' = b}"
    if b: "b \<le> PA_SEGMENT_BIN_MAX" for b
  proof -
    have mem: "(k, c', SFree) \<in> set (xs @ (i, c, s') # ys) \<longleftrightarrow>
        (k, c', SFree) \<in> set (xs @ (i, c, s) # ys) \<and> k \<noteq> i \<or> (k = i \<and> c' = c \<and> s' = SFree)" for k c'
    proof -
      have "k \<noteq> i" if "(k, c', SFree) \<in> set xs \<union> set ys"
      proof
        assume "k = i"
        moreover have m: "(k, c', SFree) \<in> set (xs @ (i, c, s) # ys)" using that by auto
        ultimately have "(k, c', SFree) = (i, c, s)" using uniq [OF m] span_bounds(1) [OF inv T m] by simp
        then show False using others [OF that] by simp
      qed
      then show ?thesis by auto
    qed
    have "(a', k) \<in> set (Q' b) \<longleftrightarrow> (a', k) \<in> {(a', k). \<exists>ts c'. (T(a \<mapsto> xs @ (i, c, s') # ys)) a' = Some ts \<and> (k, c', SFree) \<in> set ts \<and> pa_slice_bin c' = b}"
      for a' k
    proof (cases "a' = a")
      case True
      have "(a, k) \<in> set (Q b) \<longleftrightarrow> (\<exists>c'. (k, c', SFree) \<in> set (xs @ (i, c, s) # ys) \<and> pa_slice_bin c' = b)"
        using span_repr_queue(2) [OF inv b, of a k] T by simp
      then show ?thesis using True mem unfolding queue [OF b] by auto
    next
      case False
      then show ?thesis using span_repr_queue(2) [OF inv b, of a' k] unfolding queue [OF b] by auto
    qed
    then show ?thesis by (simp only: set_eq_iff split_paired_All) blast
  qed
  show ?thesis unfolding span_repr_def using seg dll set_Q by blast
qed

lemma span_repr_delete:
  assumes inv: "span_repr comm st T Q" and T: "T a = Some (xs @ (i, c, SFree) # ys)" and b: "b = pa_slice_bin c"
  shows "span_repr comm (pa_span_queue_delete b (a, i) st) (T(a \<mapsto> xs @ (i, c, STaken) # ys)) (Q(b := remove1 (a, i) (Q b)))"
proof -
  note D = span_reprD [OF inv]
  let ?st = "pa_span_queue_delete b (a, i) st"
  have b35: "b \<le> PA_SEGMENT_BIN_MAX" using span_bounds(4) [OF inv T, of i c SFree] b by simp
  note q = span_repr_queue [OF inv]
  have "(a, i) \<in> set (Q b)" using q(2) [OF b35] T b by auto
  then obtain us vs where Q: "Q b = us @ (a, i) # vs" by (meson split_list)
  have qb: "pages.dll (tl_slices st) (sq_first (tl_spans st b)) (sq_last (tl_spans st b)) (us @ (a, i) # vs)"
    using q(1) [OF b35] Q by simp
  have d: "distinct (us @ (a, i) # vs)" using pages.dll_ends(3) [OF qb] .
  have rem: "remove1 (a, i) (Q b) = us @ vs" using Q d by (simp add: remove1_append)
  have dj: "set (Q b') \<inter> set (Q b) = {}" if "b' \<le> PA_SEGMENT_BIN_MAX" "b' \<noteq> b" for b'
    using span_queues_disjoint [OF inv that(1) b35 that(2)] .
  show ?thesis
  proof (rule span_repr_flip [OF inv T])
    show "span_ok (tl_slices ?st) a (i, c, STaken)" by (simp add: span_ok_def)
  next
    fix b' assume b': "b' \<le> PA_SEGMENT_BIN_MAX"
    show "pages.dll (tl_slices ?st) (sq_first (tl_spans ?st b')) (sq_last (tl_spans ?st b')) ((Q(b := remove1 (a, i) (Q b))) b')"
    proof (cases "b' = b")
      case True
      then show ?thesis using span_delete_queue [OF qb] rem by simp
    next
      case False
      have "tl_slices ?st p = tl_slices st p" if "p \<in> set (Q b')" for p
      proof -
        have "p \<notin> set (us @ (a, i) # vs)" using dj [OF b' False] that Q by auto
        then show ?thesis using unlink_outside [OF qb, of p] by (auto simp: span_delete_frame set_next_def set_prev_def)
      qed
      then have "pages.dll (tl_slices ?st) (sq_first (tl_spans st b')) (sq_last (tl_spans st b')) (Q b')"
        using dll_other [OF q(1) [OF b']] by blast
      then show ?thesis using False by (simp add: span_delete_frame)
    qed
    show "set ((Q(b := remove1 (a, i) (Q b))) b') = set (Q b') - {(a, i)} \<union> (if STaken = SFree \<and> b' = pa_slice_bin c then {(a, i)} else {})"
      using rem Q d dj [OF b'] by (cases "b' = b") auto
  qed (simp_all add: span_delete_frame span_delete_frame page_core_unlink)
qed

text \<open>The converse: a span that has been taken off (or is about to be freed) goes to the front of the queue for its size.\<close>

lemma span_push_frame:
  "tl_segs (pa_span_queue_push b x st) = tl_segs st" "tl_os (pa_span_queue_push b x st) = tl_os st"
  "b' \<noteq> b \<Longrightarrow> tl_spans (pa_span_queue_push b x st) b' = tl_spans st b'"
  by (simp_all add: pa_span_queue_push_def set_slice_def Let_def split: option.splits)

lemma set_next_prev: "set_next x v (set_prev x w s) = set_prev x w (set_next x v s)"
proof (rule ext)
  show "set_next x v (set_prev x w s) p = set_prev x w (set_next x v s) p" for p
    by (rule pa_page.equality) (simp_all add: set_next_def set_prev_def)
qed

lemma span_push_slices:
  "tl_slices (pa_span_queue_push b x st) =
     (let s = (case sq_first (tl_spans st b) of None \<Rightarrow> id | Some y \<Rightarrow> set_prev y (Some x))
        (set_prev x None (set_next x (sq_first (tl_spans st b)) (tl_slices st))) in s(x := (s x)\<lparr>pg_block_size := 0\<rparr>))"
  unfolding pa_span_queue_push_def Let_def set_next_prev
  by (simp add: set_slice_def Let_def set_next_def set_prev_def split: option.splits)

lemma span_push_core:
  "page_core (tl_slices (pa_span_queue_push b x st) p) =
     (if p = x then (page_core (tl_slices st p))\<lparr>pg_block_size := 0\<rparr> else page_core (tl_slices st p))"
  by (simp add: span_push_slices Let_def page_core_bs split: option.splits)

lemma span_push_queue:
  assumes "pages.dll (tl_slices st) (sq_first (tl_spans st b)) (sq_last (tl_spans st b)) us" "x \<notin> set us"
  shows "pages.dll (tl_slices (pa_span_queue_push b x st)) (sq_first (tl_spans (pa_span_queue_push b x st) b))
    (sq_last (tl_spans (pa_span_queue_push b x st) b)) (x # us)"
proof -
  have f: "sq_first (tl_spans (pa_span_queue_push b x st) b) = Some x"
    "sq_last (tl_spans (pa_span_queue_push b x st) b) =
       (case sq_first (tl_spans st b) of None \<Rightarrow> Some x | Some _ \<Rightarrow> sq_last (tl_spans st b))"
    by (simp_all add: pa_span_queue_push_def set_slice_def Let_def set_next_def split: option.splits)
  show ?thesis unfolding f
    by (rule pages.dll_cong_on [THEN iffD1, OF _ pages.push_front_dll [OF assms]]) (simp add: span_push_slices Let_def)
qed

lemma span_repr_push:
  assumes inv: "span_repr comm st T Q" and T: "T a = Some (xs @ (i, c, STaken) # ys)" and b: "b = pa_slice_bin c"
    and h: "pg_slice_count (tl_slices st (a, i)) = c" "pg_slice_offset (tl_slices st (a, i)) = 0"
    and l: "1 < c \<Longrightarrow> pg_slice_offset (tl_slices st (a, i + (c - 1))) = sizeof_slice * (c - 1)"
  shows "span_repr comm (pa_span_queue_push b (a, i) st) (T(a \<mapsto> xs @ (i, c, SFree) # ys)) (Q(b := (a, i) # Q b))"
proof -
  note D = span_reprD [OF inv]
  let ?st = "pa_span_queue_push b (a, i) st"
  have b35: "b \<le> PA_SEGMENT_BIN_MAX" using span_bounds(4) [OF inv T, of i c STaken] b by simp
  note q = span_repr_queue [OF inv]
  have new: "(a, i) \<notin> set (Q b')" if b': "b' \<le> PA_SEGMENT_BIN_MAX" for b'
  proof
    assume "(a, i) \<in> set (Q b')"
    then obtain c' where "(i, c', SFree) \<in> set (xs @ (i, c, STaken) # ys)" using q(2) [OF b'] T by auto
    from spans_from_unique [OF D(2) [OF T] this, of i c STaken] span_bounds(1) [OF inv T this]
      span_bounds(1) [OF inv T, of i c STaken] show False by simp
  qed
  have frame: "tl_slices ?st p = tl_slices st p" if "p \<noteq> (a, i)" "p \<notin> set (Q b)" for p
    using that pages.dll_ends(1) [OF q(1) [OF b35]]
    by (auto simp: span_push_slices Let_def set_next_def set_prev_def dest: first_of_mem split: option.splits)
  show ?thesis
  proof (rule span_repr_flip [OF inv T])
    have o: "pg_slice_offset (tl_slices ?st (a, i + j)) = pg_slice_offset (tl_slices st (a, i + j))" if "0 < j" for j
      by (rule page_core_fields(2)) (use that in \<open>simp add: span_push_core\<close>)
    show "span_ok (tl_slices ?st) a (i, c, SFree)"
      using D(3) [OF T, of "(i, c, STaken)"] page_core_fields [OF span_push_core [of b "(a, i)" st "(a, i)", simplified, folded page_core_bs]]
        h l o [of "c - 1"] by (auto simp: span_ok_def)
  next
    fix b' assume b': "b' \<le> PA_SEGMENT_BIN_MAX"
    show "pages.dll (tl_slices ?st) (sq_first (tl_spans ?st b')) (sq_last (tl_spans ?st b')) ((Q(b := (a, i) # Q b)) b')"
    proof (cases "b' = b")
      case True
      then show ?thesis using span_push_queue [OF q(1) [OF b35] new [OF b35]] by simp
    next
      case False
      have "tl_slices ?st p = tl_slices st p" if "p \<in> set (Q b')" for p
        using frame [of p] span_queues_disjoint [OF inv b' b35 False] new [OF b'] that by auto
      then have "pages.dll (tl_slices ?st) (sq_first (tl_spans st b')) (sq_last (tl_spans st b')) (Q b')"
        using dll_other [OF q(1) [OF b']] by blast
      then show ?thesis using False by (simp add: span_push_frame)
    qed
    show "set ((Q(b := (a, i) # Q b)) b') = set (Q b') - {(a, i)} \<union> (if SFree = SFree \<and> b' = pa_slice_bin c then {(a, i)} else {})"
      using new [OF b'] b by auto
  qed (simp_all add: span_push_frame span_push_core)
qed

section \<open>Committing and purging the memory of a span\<close>

lemma seg_ownedD:
  assumes "seg_owned comm a seg os"
  shows "sg_addr seg = a" "seg_inv comm seg os" "sg_kind seg = PA_SEGMENT_NORMAL" "sg_thread_id seg \<noteq> 0"
    "sg_slice_entries seg \<le> 512" "unat a + 0x2000000 < 2 ^ 64" "sg_segment_slices seg = 512"
    "bits_of (sg_commit_mask seg) \<subseteq> {..<512}" "bits_of (sg_purge_mask seg) \<subseteq> {..<512}"
  using assms bits_of_bound [of _ "sg_commit_mask seg"] bits_of_bound [of _ "sg_purge_mask seg"]
  by (auto simp: seg_owned_def seg_inv_def seg_shape_def seg_masks_def cm.paired_def cm_inv_def)

lemma seg_owned_frame:
  assumes "seg_owned comm a seg os" "same_frame seg seg'" "seg_inv comm seg' os'"
  shows "seg_owned comm a seg' os'"
  using assms same_frame_fields [OF assms(2)] by (simp add: seg_owned_def)

lemma span_range:
  assumes "seg_owned comm a seg os" "i + c \<le> 512"
  shows "unat (pa_slice_start (a, i)) = unat a + i * 65536" "unat (of_nat c * PA_SEGMENT_SLICE_SIZE) = c * 65536"
    "in_segment seg (pa_slice_start (a, i)) (of_nat c * PA_SEGMENT_SLICE_SIZE)"
proof -
  show c: "unat (of_nat c * PA_SEGMENT_SLICE_SIZE) = c * 65536" using assms(2) by (intro unat_slices) simp
  have "unat (of_nat i * PA_SEGMENT_SLICE_SIZE) = i * 65536" using assms(2) by (intro unat_slices) simp
  then show i: "unat (pa_slice_start (a, i)) = unat a + i * 65536"
    using assms(2) seg_ownedD(6) [OF assms(1)] by (simp add: pa_slice_start_def unat_add_no_wrap)
  have "i * 65536 + c * 65536 \<le> 512 * 65536" using mult_le_mono1 [OF assms(2), of 65536] by (simp only: add_mult_distrib)
  then show "in_segment seg (pa_slice_start (a, i)) (of_nat c * PA_SEGMENT_SLICE_SIZE)"
    using seg_ownedD(1,7) [OF assms(1)] by (simp add: in_segment_def i c)
qed

lemma covered_span: "covered True (i * 65536) (c * 65536) \<subseteq> {i..<i + c}"
proof -
  have "(i * 65536 + 65535) div 65536 = i" by (rule div_nat_eqI) simp_all
  moreover have "(i * 65536 + c * 65536) div 65536 = i + c" by (rule div_nat_eqI) simp_all
  ultimately show ?thesis by (simp add: covered_def)
qed

lemma slice_bytes:
  assumes "sg_addr seg = a" "unat a \<le> b" "slice_of seg b < 512"
  shows "b \<in> seg_bytes a"
proof -
  have "(b - unat a) div 65536 < 512" using assms(1,3) by (simp add: slice_of_def)
  then have "b - unat a < 512 * 65536" by (subst (asm) div_less_iff_less_mult) simp_all
  then show ?thesis using assms(2) by (simp add: seg_bytes_def)
qed

lemma span_live_keep:
  assumes "masks_keep D seg seg'" "span_live seg (k, c, s)" "D \<subseteq> bits_of (sg_purge_mask seg) \<union> E" "{k..<k + c} \<inter> E = {}"
  shows "span_live seg' (k, c, s)"
proof -
  have "{k..<k + c} \<inter> D = {}" if "s = SUsed" using assms(2-4) that by (auto simp: span_live_def)
  then show ?thesis using assms(1,2) by (fastforce simp: span_live_def masks_keep_def)
qed

text \<open>Scheduling the memory of a span for purging does not affect the other spans.\<close>

lemma schedule_purge_span:
  assumes ok: "os_ok comm env" and own: "seg_owned comm a seg os" and r: "i + c \<le> 512"
    and p: "pa_segment_schedule_purge env seg os (pa_slice_start (a, i)) (of_nat c * PA_SEGMENT_SLICE_SIZE) = (seg', os')"
  shows "seg_owned comm a seg' os'" "same_frame seg seg'" "comm os - seg_bytes a \<subseteq> comm os'"
    "span_live seg (k, n, s) \<Longrightarrow> {k..<k + n} \<inter> {i..<i + c} = {} \<Longrightarrow> span_live seg' (k, n, s)"
proof -
  note o = seg_ownedD [OF own] and s = span_range [OF own r]
  note S = segment_schedule_purge_inv [OF ok o(2) s(3) p]
  let ?D = "bits_of (sg_purge_mask seg) \<union> covered True (unat (pa_slice_start (a, i)) - unat (sg_addr seg)) (unat (of_nat c * PA_SEGMENT_SLICE_SIZE))"
  have D: "?D \<subseteq> bits_of (sg_purge_mask seg) \<union> {i..<i + c}" using covered_span [of i c] s(1,2) o(1) by auto
  show "seg_owned comm a seg' os'" "same_frame seg seg'" using seg_owned_frame [OF own S(2,1)] S(2) by simp_all
  have "b \<in> seg_bytes a" if "unat a \<le> b" "slice_of seg b \<in> ?D" for b
  proof (rule slice_bytes [OF o(1) that(1)])
    show "slice_of seg b < 512" using that(2) D o(9) r by fastforce
  qed
  then show "comm os - seg_bytes a \<subseteq> comm os'" using S(3) o(1) by blast
  show "span_live seg' (k, n, s)" if "span_live seg (k, n, s)" "{k..<k + n} \<inter> {i..<i + c} = {}"
    by (rule span_live_keep [OF S(4) that(1) D that(2)])
qed

lemma ensure_committed_span:
  assumes ok: "os_ok comm env" and own: "seg_owned comm a seg os" and r: "i + c \<le> 512"
    and p: "pa_segment_ensure_committed env seg os (pa_slice_start (a, i)) (of_nat c * PA_SEGMENT_SLICE_SIZE) = (res, z, seg', os')"
  shows "seg_owned comm a seg' os'" "same_frame seg seg'" "comm os - seg_bytes a \<subseteq> comm os'"
    "span_live seg t \<Longrightarrow> span_live seg' t" "res \<Longrightarrow> span_live seg' (i, c, s)"
proof -
  note o = seg_ownedD [OF own] and s = span_range [OF own r]
  note S = segment_ensure_committed_inv [OF ok o(2) s(3) p]
  show "seg_owned comm a seg' os'" "same_frame seg seg'" using seg_owned_frame [OF own S(2,1)] S(2) by simp_all
  show "comm os - seg_bytes a \<subseteq> comm os'" using S(3) by blast
  show "span_live seg' t" if "span_live seg t"
    by (cases t) (use span_live_keep [OF S(4), of _ _ _ "{}"] that in auto)
  have "k \<in> bits_of (sg_commit_mask seg') - bits_of (sg_purge_mask seg')" if res and k: "k \<in> {i..<i + c}" for k
  proof -
    have "slice_of seg (unat a + k * 65536) = k" using o(1) by (simp add: slice_of_def)
    moreover have "k * 65536 < (i + c) * 65536" using k by (intro mult_less_mono1) simp_all
    then have "k * 65536 < i * 65536 + c * 65536" by (simp only: add_mult_distrib)
    ultimately show ?thesis using S(5) [of "unat a + k * 65536"] \<open>res\<close> k s(1,2) by simp
  qed
  then show "span_live seg' (i, c, s)" if res using that by (auto simp: span_live_def)
qed

lemma try_purge_span:
  assumes ok: "os_ok comm env" and own: "seg_owned comm a seg os"
    and p: "pa_segment_try_purge env seg os force = (seg', os')"
  shows "seg_owned comm a seg' os'" "same_frame seg seg'" "comm os - seg_bytes a \<subseteq> comm os'"
    "span_live seg t \<Longrightarrow> span_live seg' t"
proof -
  note o = seg_ownedD [OF own]
  note S = segment_try_purge_inv [OF ok o(2) p]
  show "seg_owned comm a seg' os'" "same_frame seg seg'" using seg_owned_frame [OF own S(2,1)] S(2) by simp_all
  have "b \<in> seg_bytes a" if "unat a \<le> b" "slice_of seg b \<in> bits_of (sg_purge_mask seg)" for b
    by (rule slice_bytes [OF o(1) that(1)]) (use that(2) o(9) in blast)
  then show "comm os - seg_bytes a \<subseteq> comm os'" using S(3) o(1) by blast
  show "span_live seg' t" if "span_live seg t"
    by (cases t) (use span_live_keep [OF S(5), of _ _ _ "{}"] that in auto)
qed

end
