(* ===== verification/Palloc_SpanOps.thy ===== *)
theory Palloc_SpanOps
  imports Palloc_Spans
begin

text \<open>
  What the span operations of \<open>Palloc_Spans\<close> do to the list of spans of a segment: each lemma says which spans
  are replaced by which, and that everything else is as before.  The theorems at the end are about whole
  histories of page allocations and frees.
\<close>

section \<open>Updating the store\<close>

lemma set_slice_simps [simp]:
  "tl_slices (set_slice p f st) = (tl_slices st)(p := f (tl_slices st p))" "tl_segs (set_slice p f st) = tl_segs st"
  "tl_spans (set_slice p f st) = tl_spans st" "tl_os (set_slice p f st) = tl_os st"
  by (simp_all add: set_slice_def)

lemma set_seg_simps [simp]:
  "tl_slices (set_seg seg st) = tl_slices st" "tl_segs (set_seg seg st) = (tl_segs st)(sg_addr seg := seg)"
  "tl_spans (set_seg seg st) = tl_spans st" "tl_os (set_seg seg st) = tl_os st"
  by (simp_all add: set_seg_def)

lemma slice_plus_simps [simp]: "slice_plus (a, i) k = (a, i + k)"
  by (simp add: slice_plus_def)

text \<open>A span whose content does not matter may be cut into others or put together from others.\<close>

lemma span_repr_taken:
  assumes inv: "span_repr comm st T Q" and T: "T a = Some (xs @ mid @ ys)"
    and mid: "spans_from i mid j" "mid \<noteq> []" "spans_from i mid' j"
    and taken: "\<And>k c s. (k, c, s) \<in> set mid' \<Longrightarrow> s = STaken" and nofree: "\<And>k c. (k, c, SFree) \<notin> set mid"
    and frame: "\<And>p. p \<notin> {a} \<times> {i..<j} \<Longrightarrow> tl_slices st' p = tl_slices st p"
    and same: "tl_spans st' = tl_spans st" "tl_segs st' = tl_segs st" "tl_os st' = tl_os st"
  shows "span_repr comm st' (T(a \<mapsto> xs @ mid' @ ys)) Q"
proof (rule span_repr_replace [OF inv T mid(1,3,2)])
  show "(k, c, SFree) \<notin> set mid \<union> set mid'" for k c using nofree taken by fastforce
  show "seg_owned comm a (tl_segs st' a) (tl_os st')" using span_reprD(1) [OF inv T] same by simp
  show "\<forall>t \<in> set mid'. span_ok (tl_slices st') a t \<and> span_live (tl_segs st' a) t"
    using taken by (fastforce simp: span_ok_def span_live_def)
qed (use frame same in auto)

section \<open>Freeing a span\<close>

definition only_seg :: "uintptr_t \<Rightarrow> 'o pa_segments_tld \<Rightarrow> 'o pa_segments_tld \<Rightarrow> bool" where
  "only_seg a st st' \<longleftrightarrow> same_frame (tl_segs st a) (tl_segs st' a) \<and> (\<forall>a'. a' \<noteq> a \<longrightarrow> tl_segs st' a' = tl_segs st a')"

lemma only_seg_refl [simp]: "only_seg a st st"
  by (simp add: only_seg_def)

lemma only_seg_trans: "only_seg a st st' \<Longrightarrow> only_seg a st' st'' \<Longrightarrow> only_seg a st st''"
  by (auto simp: only_seg_def intro: same_frame_trans)

lemma only_seg_same: "tl_segs st' = tl_segs st \<Longrightarrow> only_seg a st st'"
  by (simp add: only_seg_def)

lemma purge_span_repr:
  assumes ok: "os_ok comm env" and inv: "span_repr comm st T Q" and T: "T a = Some (xs @ (i, c, STaken) # ys)"
    and p: "pa_segment_schedule_purge env (tl_segs st a) (tl_os st) (pa_slice_start (a, i)) (of_nat c * PA_SEGMENT_SLICE_SIZE) = (seg', os')"
  shows "span_repr comm ((set_seg seg' st)\<lparr>tl_os := os'\<rparr>) T Q" "only_seg a st (set_seg seg' st)" "sg_addr seg' = a"
proof -
  note D = span_reprD [OF inv T]
  have r: "i + c \<le> 512" using span_bounds(3) [OF inv T, of i c STaken] by simp
  note P = schedule_purge_span [OF ok D(1) r p]
  show a: "sg_addr seg' = a" using seg_ownedD(1) [OF P(1)] .
  show "only_seg a st (set_seg seg' st)" using P(2) a by (simp add: only_seg_def)
  have apart: "{k..<k + n} \<inter> {i..<i + c} = {}" if "(k, n, s) \<in> set xs \<union> set ys" for k n s
  proof (rule ccontr)
    assume "{k..<k + n} \<inter> {i..<i + c} \<noteq> {}"
    then have "k < i + c" "i < k + n" by auto
    moreover have m: "(k, n, s) \<in> set (xs @ (i, c, STaken) # ys)" using that by auto
    ultimately have "(i, c, STaken) = (k, n, s)" using spans_from_unique [OF D(2), of i c STaken k n s] by simp
    moreover have "distinct (map fst (xs @ (i, c, STaken) # ys))" by (rule spans_from_distinct [OF D(2)])
    ultimately show False using that by force
  qed
  have "span_repr comm ((set_seg seg' st)\<lparr>tl_os := os'\<rparr>) (T(a \<mapsto> xs @ [(i, c, STaken)] @ ys)) Q"
  proof (rule span_repr_replace [OF inv _ _ _ _ , of a xs "[(i, c, STaken)]" ys i "i + c"])
    show "spans_from i [(i, c, STaken)] (i + c)" "spans_from i [(i, c, STaken)] (i + c)"
      using span_bounds(1) [OF inv T, of i c STaken] by simp_all
    show "\<forall>t \<in> set xs \<union> set ys. span_live (tl_segs st a) t \<longrightarrow> span_live (tl_segs ((set_seg seg' st)\<lparr>tl_os := os'\<rparr>) a) t"
    proof (intro ballI impI)
      fix t assume t: "t \<in> set xs \<union> set ys" "span_live (tl_segs st a) t"
      obtain k n s where "t = (k, n, s)" by (cases t) auto
      then show "span_live (tl_segs ((set_seg seg' st)\<lparr>tl_os := os'\<rparr>) a) t" using P(4) [of k n s] apart [of k n s] t a by simp
    qed
  qed (use T P(1,3) same_frame_fields [OF P(2)] a in \<open>auto simp: span_ok_def span_live_def\<close>)
  then show "span_repr comm ((set_seg seg' st)\<lparr>tl_os := os'\<rparr>) T Q" using T by (simp add: fun_upd_idem)
qed

lemma span_free_repr:
  assumes ok: "os_ok comm env" and inv: "span_repr comm st T Q" and T: "T a = Some (xs @ (i, c, STaken) # ys)"
  shows "\<exists>Q'. span_repr comm (pa_segment_span_free env a i c purge st) (T(a \<mapsto> xs @ (i, c, SFree) # ys)) Q'"
    "only_seg a st (pa_segment_span_free env a i c purge st)"
    "\<And>p. p \<noteq> (a, i) \<Longrightarrow> p \<noteq> (a, i + (c - 1)) \<Longrightarrow> page_core (tl_slices (pa_segment_span_free env a i c purge st) p) = page_core (tl_slices st p)"
proof -
  note D = span_reprD [OF inv T]
  note o = seg_ownedD [OF D(1)]
  have c: "0 < c" "i + c \<le> 512" "i + c \<le> sg_slice_entries (tl_segs st a)" using span_bounds [OF inv T, of i c STaken] by simp_all
  define st1 where "st1 = (if 1 < c then set_slice (a, i + c - 1) (\<lambda>s. s\<lparr>pg_slice_count := 0,
      pg_slice_offset := sizeof_slice * (c - 1), pg_block_size := 0\<rparr>) else id)
    (set_slice (a, i) (\<lambda>s. s\<lparr>pg_slice_count := c, pg_slice_offset := 0\<rparr>) st)"
  have st1: "tl_segs st1 = tl_segs st" "tl_os st1 = tl_os st" "tl_spans st1 = tl_spans st" by (simp_all add: st1_def)
  have sl1: "p \<noteq> (a, i) \<Longrightarrow> p \<noteq> (a, i + (c - 1)) \<Longrightarrow> tl_slices st1 p = tl_slices st p" for p
    using c by (auto simp: st1_def)
  have h1: "pg_slice_count (tl_slices st1 (a, i)) = c" "pg_slice_offset (tl_slices st1 (a, i)) = 0"
    "1 < c \<Longrightarrow> pg_slice_offset (tl_slices st1 (a, i + (c - 1))) = sizeof_slice * (c - 1)"
    using c by (auto simp: st1_def)
  have inv1: "span_repr comm st1 T Q"
  proof -
    have "span_repr comm st1 (T(a \<mapsto> xs @ [(i, c, STaken)] @ ys)) Q"
    proof (rule span_repr_taken [OF inv, of a xs "[(i, c, STaken)]" ys i "i + c"])
      fix p assume "p \<notin> {a} \<times> {i..<i + c}"
      then have "p \<noteq> (a, i)" "p \<noteq> (a, i + (c - 1))" using c(1) by auto
      then show "tl_slices st1 p = tl_slices st p" by (rule sl1)
    qed (use T c st1 in auto)
    then show ?thesis using T by (simp add: fun_upd_idem)
  qed
  obtain seg' os' where p: "pa_segment_schedule_purge env (tl_segs st1 a) (tl_os st1) (pa_slice_start (a, i)) (of_nat c * PA_SEGMENT_SLICE_SIZE) = (seg', os')"
    by (meson surj_pair)
  define st2 where "st2 = (if purge then (set_seg seg' st1)\<lparr>tl_os := os'\<rparr> else st1)"
  note P = purge_span_repr [OF ok inv1 T p]
  have inv2: "span_repr comm st2 T Q" using inv1 P(1) by (simp add: st2_def)
  have sl2: "tl_slices st2 = tl_slices st1" by (simp add: st2_def)
  have small: "u32 c = c" "u32 (sizeof_slice * (c - 1)) = sizeof_slice * (c - 1)" using c by simp_all
  have E: "pa_segment_span_free env a i c purge st = pa_span_queue_push (pa_slice_bin c) (a, i) st2"
  proof -
    have "\<not> sg_slice_entries (tl_segs st a) < i + c - 1" using c by simp
    then show ?thesis using c o p st1 small
      by (simp add: pa_segment_span_free_def Let_def pa_segment_is_abandoned_def pa_span_queue_for_def st2_def st1_def split: if_splits)
  qed
  show "\<exists>Q'. span_repr comm (pa_segment_span_free env a i c purge st) (T(a \<mapsto> xs @ (i, c, SFree) # ys)) Q'"
    unfolding E by (rule exI, rule span_repr_push [OF inv2 T refl]) (use h1 in \<open>simp_all add: sl2\<close>)
  show "only_seg a st (pa_segment_span_free env a i c purge st)"
    unfolding E using P(2) st1 by (auto simp: only_seg_def span_push_frame st2_def)
  show "page_core (tl_slices (pa_segment_span_free env a i c purge st) p) = page_core (tl_slices st p)"
    if "p \<noteq> (a, i)" "p \<noteq> (a, i + (c - 1))" for p
    unfolding E using that sl1 sl2 by (simp add: span_push_core)
qed

section \<open>Splitting a span\<close>

lemma slice_split_repr:
  assumes ok: "os_ok comm env" and inv: "span_repr comm st T Q" and T: "T a = Some (xs @ (i, c, STaken) # ys)"
    and cnt: "pg_slice_count (tl_slices st (a, i)) = c" and n: "0 < n" "n < c"
  shows "\<exists>Q'. span_repr comm (pa_segment_slice_split env (a, i) n st) (T(a \<mapsto> xs @ (i, n, STaken) # (i + n, c - n, SFree) # ys)) Q'"
    "only_seg a st (pa_segment_slice_split env (a, i) n st)"
    "pg_slice_count (tl_slices (pa_segment_slice_split env (a, i) n st) (a, i)) = n"
proof -
  have c: "i + c \<le> 512" using span_bounds(3) [OF inv T, of i c STaken] by simp
  let ?T = "T(a \<mapsto> xs @ [(i, n, STaken), (i + n, c - n, STaken)] @ ys)"
  have inv1: "span_repr comm st ?T Q"
    by (rule span_repr_taken [OF inv, of a xs "[(i, c, STaken)]" ys i "i + c"]) (use T n in auto)
  define st1 where "st1 = pa_segment_span_free env a (i + n) (c - n) False st"
  have "?T a = Some ((xs @ [(i, n, STaken)]) @ (i + n, c - n, STaken) # ys)" by simp
  note F = span_free_repr [OF ok inv1 this, where purge = False, folded st1_def]
  obtain Q' where Q': "span_repr comm st1 (?T(a \<mapsto> (xs @ [(i, n, STaken)]) @ (i + n, c - n, SFree) # ys)) Q'" using F(1) by blast
  have E: "pa_segment_slice_split env (a, i) n st = set_slice (a, i) (\<lambda>s. s\<lparr>pg_slice_count := n\<rparr>) st1"
    using cnt n c by (simp add: pa_segment_slice_split_def st1_def Let_def)
  let ?T' = "T(a \<mapsto> xs @ (i, n, STaken) # (i + n, c - n, SFree) # ys)"
  have "span_repr comm st1 ?T' Q'" using Q' by simp
  then have "span_repr comm (set_slice (a, i) (\<lambda>s. s\<lparr>pg_slice_count := n\<rparr>) st1)
      (?T'(a \<mapsto> xs @ [(i, n, STaken)] @ (i + n, c - n, SFree) # ys)) Q'"
    by (rule span_repr_taken [of _ _ _ _ _ _ "[(i, n, STaken)]" _ i "i + n"]) (use n in auto)
  then show "\<exists>Q'. span_repr comm (pa_segment_slice_split env (a, i) n st) ?T' Q'" unfolding E by (auto simp: fun_upd_idem)
  show "only_seg a st (pa_segment_slice_split env (a, i) n st)" unfolding E using F(2) by (simp add: only_seg_def)
  show "pg_slice_count (tl_slices (pa_segment_slice_split env (a, i) n st) (a, i)) = n" unfolding E by simp
qed

section \<open>Making a page of a span\<close>

lemma back_offsets_frame:
  "tl_segs (set_back_offsets x e st) = tl_segs st" "tl_os (set_back_offsets x e st) = tl_os st"
  "tl_spans (set_back_offsets x e st) = tl_spans st"
  by (induction e) (simp_all add: set_back_offsets_def)

lemma back_offsets_slices:
  "tl_slices (set_back_offsets (a, i) e st) (a', k) =
     (if a' = a \<and> i < k \<and> k \<le> i + e
      then (tl_slices st (a, k))\<lparr>pg_slice_offset := u32 (sizeof_slice * (k - i)), pg_slice_count := 0, pg_block_size := 1\<rparr>
      else tl_slices st (a', k))"
proof (induction e)
  case (Suc e)
  have "set_back_offsets (a, i) (Suc e) st = set_slice (a, i + Suc e) (\<lambda>s. s\<lparr>pg_slice_offset := u32 (sizeof_slice * Suc e),
      pg_slice_count := 0, pg_block_size := 1\<rparr>) (set_back_offsets (a, i) e st)"
    by (simp add: set_back_offsets_def)
  then have S: "tl_slices (set_back_offsets (a, i) (Suc e) st) = (tl_slices (set_back_offsets (a, i) e st))((a, i + Suc e) :=
      (tl_slices (set_back_offsets (a, i) e st) (a, i + Suc e))\<lparr>pg_slice_offset := u32 (sizeof_slice * Suc e), pg_slice_count := 0, pg_block_size := 1\<rparr>)"
    by simp
  show ?case
  proof (cases "a' = a \<and> k = i + Suc e")
    case True
    then show ?thesis unfolding S using Suc by simp
  next
    case False
    then have ne: "(a', k) \<noteq> (a, i + Suc e)" by simp
    have eq: "(a' = a \<and> i < k \<and> k \<le> i + Suc e) = (a' = a \<and> i < k \<and> k \<le> i + e)"
      using False by (metis add_Suc_right le_Suc_eq)
    show ?thesis unfolding S eq fun_upd_other [OF ne] by (rule Suc)
  qed
next
  case 0
  have none: "\<not> (a' = a \<and> i < k \<and> k \<le> i + 0)" by linarith
  show ?case unfolding if_not_P [OF none] by (simp add: set_back_offsets_def)
qed

text \<open>The slices of the page, as the code leaves them.\<close>

lemma page_start_at_slice: "fst (pa_segment_page_start_from_slice s x 0) = pa_slice_start x"
  by (simp add: pa_segment_page_start_from_slice_def pa_slice_start_def pa_align_up_def Let_def)

lemma span_allocate_cases:
  assumes r: "pa_segment_ensure_committed env (tl_segs st a) (tl_os st) (pa_slice_start (a, i)) (of_nat c * PA_SEGMENT_SLICE_SIZE)
      = (res, z, seg, os)"
    and c: "0 < c" "i + c \<le> sg_slice_entries seg" "i + c \<le> 512" and a: "sg_addr seg = a"
  shows "\<not> res \<Longrightarrow> pa_segment_span_allocate env a i c st = (None, (set_seg seg st)\<lparr>tl_os := os\<rparr>)"
    "res \<Longrightarrow> \<exists>st'. pa_segment_span_allocate env a i c st = (Some (a, i), st') \<and> tl_os st' = os \<and> tl_spans st' = tl_spans st \<and>
       tl_segs st' = (tl_segs st)(a := seg\<lparr>sg_used := sg_used seg + 1\<rparr>) \<and>
       (\<forall>p. p \<notin> {a} \<times> {i..<i + c} \<longrightarrow> tl_slices st' p = tl_slices st p) \<and> span_ok (tl_slices st') a (i, c, SUsed) \<and>
       pg_block_size (tl_slices st' (a, i)) = of_nat c * PA_SEGMENT_SLICE_SIZE"
proof -
  note r' = r [folded page_start_at_slice [of "tl_slices st (a, i)"]]
  show "pa_segment_span_allocate env a i c st = (None, (set_seg seg st)\<lparr>tl_os := os\<rparr>)" if "\<not> res"
    using r' that by (simp add: pa_segment_span_allocate_def Let_def)
  show "\<exists>st'. pa_segment_span_allocate env a i c st = (Some (a, i), st') \<and> tl_os st' = os \<and> tl_spans st' = tl_spans st \<and>
       tl_segs st' = (tl_segs st)(a := seg\<lparr>sg_used := sg_used seg + 1\<rparr>) \<and>
       (\<forall>p. p \<notin> {a} \<times> {i..<i + c} \<longrightarrow> tl_slices st' p = tl_slices st p) \<and> span_ok (tl_slices st') a (i, c, SUsed) \<and>
       pg_block_size (tl_slices st' (a, i)) = of_nat c * PA_SEGMENT_SLICE_SIZE" if res
  proof -
    define e where "e = (if PA_MAX_SLICE_OFFSET_COUNT < c - 1 then PA_MAX_SLICE_OFFSET_COUNT else c - 1)"
    have "e \<le> c - 1" by (simp add: e_def)
    then have e: "e \<le> c - 1" "e < c" using c(1) by simp_all
    have e': "(if sg_slice_entries seg \<le> i + e then sg_slice_entries seg - i - 1 else e) = e" using e c by auto
    have l: "(if sg_slice_entries seg < i + c - 1 then sg_slice_entries seg else i + c - 1) = i + (c - 1)" using c by simp
    let ?s0 = "set_slice (a, i) (\<lambda>s. s\<lparr>pg_slice_offset := 0, pg_slice_count := c, pg_block_size := of_nat c * PA_SEGMENT_SLICE_SIZE\<rparr>)
       ((set_seg seg st)\<lparr>tl_os := os\<rparr>)"
    let ?s1 = "set_back_offsets (a, i) e ?s0"
    let ?s2 = "if i < i + (c - 1) then set_slice (a, i + (c - 1)) (\<lambda>s. s\<lparr>pg_slice_offset := sizeof_slice * (c - 1),
       pg_slice_count := 0, pg_block_size := 1\<rparr>) ?s1 else ?s1"
    let ?s3 = "set_slice (a, i) (\<lambda>s. s\<lparr>pg_is_committed := True, pg_is_zero_init := sg_free_is_zero seg \<or> z,
       pg_is_huge := (sg_kind seg = PA_SEGMENT_HUGE)\<rparr>) ?s2"
    let ?s4 = "set_seg (seg\<lparr>sg_used := sg_used seg + 1\<rparr>) ?s3"
    have small: "u32 c = c" "u32 (sizeof_slice * (i + (c - 1) - i)) = sizeof_slice * (c - 1)" using c by simp_all
    have E: "pa_segment_span_allocate env a i c st = (Some (a, i), ?s4)"
      unfolding pa_segment_span_allocate_def Let_def r' prod.case e_def [symmetric] e' l small using that by simp
    have bs: "(of_nat c * PA_SEGMENT_SLICE_SIZE :: size_t) \<noteq> 0"
    proof -
      have "unat (of_nat c * PA_SEGMENT_SLICE_SIZE :: size_t) = c * 65536" using c by (intro unat_slices) simp
      then show ?thesis using c by auto
    qed
    have first: "tl_slices ?s4 (a, i) = (tl_slices st (a, i))\<lparr>pg_slice_offset := 0, pg_slice_count := c,
        pg_block_size := of_nat c * PA_SEGMENT_SLICE_SIZE, pg_is_committed := True,
        pg_is_zero_init := sg_free_is_zero seg \<or> z, pg_is_huge := (sg_kind seg = PA_SEGMENT_HUGE)\<rparr>"
      by (simp add: back_offsets_slices)
    have off: "pg_slice_offset (tl_slices ?s4 (a, i + j)) = sizeof_slice * j" if "0 < j" "j < c" "j = c - 1 \<or> j \<le> PA_MAX_SLICE_OFFSET_COUNT" for j
    proof (cases "j = c - 1")
      case True
      then have "(i < i + (c - 1)) = True" using that by simp
      then show ?thesis using that True by (simp only: if_True) simp
    next
      case False
      then have "j \<le> e" using that by (auto simp: e_def)
      moreover obtain l where "c = Suc l" using c(1) by (cases c) auto
      ultimately show ?thesis using that False c by (simp add: back_offsets_slices)
    qed
    have frame: "\<forall>p. p \<notin> {a} \<times> {i..<i + c} \<longrightarrow> tl_slices ?s4 p = tl_slices st p"
    proof (intro allI impI)
      fix p assume that: "p \<notin> {a} \<times> {i..<i + c}"
      obtain a' k where "p = (a', k)" by (cases p) auto
      then show "tl_slices ?s4 p = tl_slices st p" using that e c by (auto simp: back_offsets_slices)
    qed
    have ok: "span_ok (tl_slices ?s4) a (i, c, SUsed)" unfolding span_ok_def prod.case
      using first off bs by simp
    have segs: "tl_segs ?s4 = (tl_segs st)(a := seg\<lparr>sg_used := sg_used seg + 1\<rparr>)" using a by (simp add: back_offsets_frame)
    have os: "tl_os ?s4 = os" "tl_spans ?s4 = tl_spans st" by (simp_all add: back_offsets_frame)
    have "pg_block_size (tl_slices ?s4 (a, i)) = of_nat c * PA_SEGMENT_SLICE_SIZE" unfolding first by simp
    then show ?thesis unfolding E using os segs frame ok by (intro exI [of _ ?s4] conjI refl)
  qed
qed

lemma seg_owned_used: "seg_owned comm a (seg\<lparr>sg_used := n\<rparr>) os = seg_owned comm a seg os"
  by (simp add: seg_owned_def seg_inv_def seg_shape_def seg_masks_def commit_sound_def slice_of_def)

lemma span_live_used [simp]: "span_live (seg\<lparr>sg_used := n\<rparr>) t = span_live seg t"
  by (simp add: span_live_def)

lemma ensure_committed_fails:
  assumes "pa_segment_ensure_committed env seg os p sz = (False, z, seg', os')"
  shows "\<exists>start f z. os_commit env os start f = (False, z, os')"
proof -
  obtain start f m where m: "pa_segment_commit_mask seg False p sz = (start, f, m)" by (metis prod_cases3)
  have "pa_segment_commit env seg os p sz = (False, z, seg', os')"
    using assms by (auto simp: pa_segment_ensure_committed_def split: if_splits)
  from this m show ?thesis by (cases rule: segment_commit_cases) auto
qed

text \<open>Committing the slices of a span fails.\<close>

definition span_commit_fails :: "'o os_env \<Rightarrow> 'o pa_segments_tld \<Rightarrow> uintptr_t \<Rightarrow> nat \<Rightarrow> nat \<Rightarrow> bool" where
  "span_commit_fails env st a i n \<longleftrightarrow>
     \<not> fst (pa_segment_ensure_committed env (tl_segs st a) (tl_os st) (pa_slice_start (a, i)) (of_nat n * PA_SEGMENT_SLICE_SIZE))"

lemma span_commit_fails_os:
  assumes "span_commit_fails env st a i n"
  shows "\<exists>start f z os'. os_commit env (tl_os st) start f = (False, z, os')"
proof -
  obtain z seg os where "pa_segment_ensure_committed env (tl_segs st a) (tl_os st) (pa_slice_start (a, i))
      (of_nat n * PA_SEGMENT_SLICE_SIZE) = (False, z, seg, os)"
    using assms unfolding span_commit_fails_def by (metis (full_types) fst_conv prod_cases4)
  from ensure_committed_fails [OF this] show ?thesis by blast
qed

text \<open>The commit that fails is the one of the span's own slices.\<close>

lemma span_commit_fails_at:
  assumes own: "seg_owned comm a (tl_segs st a) (tl_os st)" and c: "0 < c" "i + c \<le> 512" and fails: "span_commit_fails env st a i c"
  shows "\<exists>start f z os'. os_commit env (tl_os st) start f = (False, z, os') \<and> unat start = unat a + i * 65536 \<and> unat f = c * 65536"
proof -
  let ?seg = "tl_segs st a" and ?sz = "of_nat c * PA_SEGMENT_SLICE_SIZE :: size_t"
  note o = seg_ownedD [OF own] and s = span_range [OF own c(2)]
  have shape: "seg_shape ?seg" using o(2) by (simp add: seg_inv_def)
  have ofs: "unat (pa_slice_start (a, i)) - unat a = i * 65536" using s(1) by simp
  have fe: "first_slice False (i * 65536) = i" "end_slice False (i * 65536 + unat ?sz) = i + c" using s(2)
    by (simp_all add: first_slice_def end_slice_def)
  have "?sz \<noteq> 0" using s(2) c(1) by (metis mult_is_0 not_gr_zero unat_0 zero_neq_numeral)
  then obtain start f where m: "unat start = unat a + i * 65536" "unat f = c * 65536"
    "pa_segment_commit_mask ?seg False (pa_slice_start (a, i)) ?sz = (start, f, pa_commit_mask_create i c)"
    using segment_commit_mask_cases [OF shape s(3), of False, unfolded o(1) ofs fe] c(1) that by (auto split: if_splits)
  obtain z seg' os' where e: "pa_segment_ensure_committed env ?seg (tl_os st) (pa_slice_start (a, i)) ?sz = (False, z, seg', os')"
    using fails unfolding span_commit_fails_def by (metis (full_types) fst_conv prod_cases4)
  then have "pa_segment_commit env ?seg (tl_os st) (pa_slice_start (a, i)) ?sz = (False, z, seg', os')"
    by (auto simp: pa_segment_ensure_committed_def split: if_splits)
  from this m(3) have "\<exists>z. os_commit env (tl_os st) start f = (False, z, os')" by (cases rule: segment_commit_cases) auto
  then show ?thesis using m(1,2) by blast
qed

lemma span_commit_fails_cong:
  assumes "tl_segs st' = tl_segs st" "tl_os st' = tl_os st"
  shows "span_commit_fails env st' = span_commit_fails env st"
  using assms by (simp add: span_commit_fails_def fun_eq_iff)

text \<open>Without the permission to purge, freeing a span touches neither the segments nor the memory.\<close>

lemma span_free_quiet:
  "tl_segs (pa_segment_span_free env a i c False st) = tl_segs st" "tl_os (pa_segment_span_free env a i c False st) = tl_os st"
  by (simp_all add: pa_segment_span_free_def Let_def span_push_frame split: option.split)

lemma slice_split_quiet:
  "tl_segs (pa_segment_slice_split env x n st) = tl_segs st" "tl_os (pa_segment_slice_split env x n st) = tl_os st"
  by (simp_all add: pa_segment_slice_split_def Let_def span_free_quiet)

text \<open>Committing slices that the commit mask has already succeeds without asking the system.\<close>

lemma ensure_committed_there:
  assumes own: "seg_owned comm a seg os" and c: "i + c \<le> 512"
    and there: "{i..<i + c} \<subseteq> bits_of (sg_commit_mask seg)"
  shows "fst (pa_segment_ensure_committed env seg os (pa_slice_start (a, i)) (of_nat c * PA_SEGMENT_SLICE_SIZE))"
proof (rule ccontr)
  let ?sz = "of_nat c * PA_SEGMENT_SLICE_SIZE :: size_t"
  assume n: "\<not> fst (pa_segment_ensure_committed env seg os (pa_slice_start (a, i)) ?sz)"
  note o = seg_ownedD [OF own] and s = span_range [OF own c]
  obtain start f m where m: "pa_segment_commit_mask seg False (pa_slice_start (a, i)) ?sz = (start, f, m)" by (metis prod_cases3)
  have shape: "seg_shape seg" and cmi: "cm_inv (sg_commit_mask seg)"
    using o(2) by (simp_all add: seg_inv_def seg_masks_def cm.paired_def)
  note spec = segment_commit_mask_spec [OF shape s(3) m]
  have "unat (pa_slice_start (a, i)) - unat (sg_addr seg) = i * 65536" "unat ?sz = c * 65536" using s(1,2) o(1) by simp_all
  moreover have "(i * 65536 + c * 65536 + 65535) div 65536 = i + c" by simp
  ultimately have "bits_of m \<subseteq> {i..<i + c}" unfolding spec(2) by (auto simp: covered_def)
  then have "pa_commit_mask_all_set (sg_commit_mask seg) m" using there by (subst cm_all_set [OF cmi spec(1)]) blast
  then have "fst (pa_segment_commit env seg os (pa_slice_start (a, i)) ?sz)"
    by (simp add: pa_segment_commit_def m Let_def)
  then show False using n by (simp add: pa_segment_ensure_committed_def split: if_splits)
qed

lemma span_allocate_repr:
  assumes ok: "os_ok comm env" and inv: "span_repr comm st T Q" and T: "T a = Some (xs @ (i, c, STaken) # ys)"
    and r: "pa_segment_span_allocate env a i c st = (page, st')"
  shows "page = None \<Longrightarrow> span_repr comm st' T Q \<and> only_seg a st st' \<and> tl_slices st' = tl_slices st \<and> span_commit_fails env st a i c"
    "page \<noteq> None \<Longrightarrow> page = Some (a, i) \<and> span_repr comm st' (T(a \<mapsto> xs @ (i, c, SUsed) # ys)) Q \<and>
       (\<exists>seg. same_frame (tl_segs st a) seg \<and> tl_segs st' = (tl_segs st)(a := seg\<lparr>sg_used := sg_used seg + 1\<rparr>)) \<and>
       pg_block_size (tl_slices st' (a, i)) = of_nat c * PA_SEGMENT_SLICE_SIZE"
proof -
  note D = span_reprD [OF inv T]
  have c: "0 < c" "i + c \<le> 512" "i + c \<le> sg_slice_entries (tl_segs st a)" using span_bounds [OF inv T, of i c STaken] by simp_all
  obtain res z seg os where e: "pa_segment_ensure_committed env (tl_segs st a) (tl_os st) (pa_slice_start (a, i))
      (of_nat c * PA_SEGMENT_SLICE_SIZE) = (res, z, seg, os)" by (metis prod_cases4)
  note P = ensure_committed_span [OF ok D(1) c(2) e]
  note sf = same_frame_fields [OF P(2)]
  have a: "sg_addr seg = a" using seg_ownedD(1) [OF P(1)] .
  have c3: "i + c \<le> sg_slice_entries seg" using c(3) sf by simp
  note C = span_allocate_cases [OF e c(1) c3 c(2) a]
  have rng: "spans_from i [(i, c, s)] (i + c)" for s using c(1) by simp
  show "span_repr comm st' T Q \<and> only_seg a st st' \<and> tl_slices st' = tl_slices st \<and> span_commit_fails env st a i c" if "page = None"
  proof -
    have "\<not> res" using C(2) r that by auto
    then have E: "st' = (set_seg seg st)\<lparr>tl_os := os\<rparr>" using C(1) r by simp
    have "span_repr comm st' (T(a \<mapsto> xs @ [(i, c, STaken)] @ ys)) Q"
      by (rule span_repr_replace [OF inv _ rng rng])
        (use T P(1,3,4) a sf in \<open>auto simp: E span_ok_def span_live_def\<close>)
    moreover have "span_commit_fails env st a i c" using e \<open>\<not> res\<close> by (simp add: span_commit_fails_def)
    ultimately show ?thesis using T P(2) a by (simp add: fun_upd_idem E only_seg_def)
  qed
  show "page = Some (a, i) \<and> span_repr comm st' (T(a \<mapsto> xs @ (i, c, SUsed) # ys)) Q \<and>
       (\<exists>seg. same_frame (tl_segs st a) seg \<and> tl_segs st' = (tl_segs st)(a := seg\<lparr>sg_used := sg_used seg + 1\<rparr>)) \<and>
       pg_block_size (tl_slices st' (a, i)) = of_nat c * PA_SEGMENT_SLICE_SIZE" if "page \<noteq> None"
  proof -
    have res using C(1) r that by auto
    obtain st'' where S: "pa_segment_span_allocate env a i c st = (Some (a, i), st'')" "tl_os st'' = os" "tl_spans st'' = tl_spans st"
      "tl_segs st'' = (tl_segs st)(a := seg\<lparr>sg_used := sg_used seg + 1\<rparr>)"
      "\<forall>p. p \<notin> {a} \<times> {i..<i + c} \<longrightarrow> tl_slices st'' p = tl_slices st p" "span_ok (tl_slices st'') a (i, c, SUsed)"
      "pg_block_size (tl_slices st'' (a, i)) = of_nat c * PA_SEGMENT_SLICE_SIZE" using C(2) [OF \<open>res\<close>] by blast
    have "st'' = st'" "page = Some (a, i)" using S(1) r by simp_all
    then have fr: "\<And>p. p \<notin> {a} \<times> {i..<i + c} \<Longrightarrow> tl_slices st' p = tl_slices st p" using S(5) by blast
    from \<open>st'' = st'\<close> \<open>page = Some (a, i)\<close> have E: "page = Some (a, i)" "tl_os st' = os" "tl_spans st' = tl_spans st"
      "tl_segs st' = (tl_segs st)(a := seg\<lparr>sg_used := sg_used seg + 1\<rparr>)" "span_ok (tl_slices st') a (i, c, SUsed)"
      "pg_block_size (tl_slices st' (a, i)) = of_nat c * PA_SEGMENT_SLICE_SIZE" using S by simp_all
    have "span_repr comm st' (T(a \<mapsto> xs @ [(i, c, SUsed)] @ ys)) Q"
    proof (rule span_repr_replace [OF inv _ rng rng])
      show "\<forall>t \<in> set [(i, c, SUsed)]. span_ok (tl_slices st') a t \<and> span_live (tl_segs st' a) t"
        using E P(5) [OF \<open>res\<close>, of SUsed] by simp
      show "\<forall>t \<in> set xs \<union> set ys. span_live (tl_segs st a) t \<longrightarrow> span_live (tl_segs st' a) t"
        using E P(4) by simp
    qed (use T fr E P(1,3) sf in \<open>auto simp: seg_owned_used\<close>)
    then show ?thesis using E P(2) by auto
  qed
qed

section \<open>Coalescing\<close>

text \<open>Merging a span of \<open>c\<close> slices at \<open>i\<close> with its free neighbours.\<close>

fun merge_next :: "nat \<Rightarrow> span list \<Rightarrow> nat \<times> span list" where
  "merge_next c ((k, c', SFree) # ys) = (c + c', ys)"
| "merge_next c ys = (c, ys)"

definition merge_prev :: "span list \<Rightarrow> nat \<Rightarrow> nat \<Rightarrow> span list \<times> nat \<times> nat" where
  "merge_prev xs i c = (case rev xs of (k, c', SFree) # zs \<Rightarrow> (rev zs, k, c + c') | _ \<Rightarrow> (xs, i, c))"

definition merge_spans :: "span list \<Rightarrow> nat \<Rightarrow> nat \<Rightarrow> span list \<Rightarrow> span list" where
  "merge_spans xs i c ys =
     (let (c, ys) = merge_next c ys; (xs, i, c) = merge_prev xs i c in xs @ (i, c, SFree) # ys)"

abbreviation is_free :: "span \<Rightarrow> bool" where
  "is_free t \<equiv> snd (snd t) = SFree"

abbreviation not_taken :: "span list \<Rightarrow> bool" where
  "not_taken ts \<equiv> \<forall>t \<in> set ts. snd (snd t) \<noteq> STaken"

lemma merge_next_cases:
  obtains (Free) k c' zs where "ys = (k, c', SFree) # zs" "merge_next c ys = (c + c', zs)"
    | (Keep) "merge_next c ys = (c, ys)" "ys \<noteq> [] \<Longrightarrow> \<not> is_free (hd ys)"
  by (cases "(c, ys)" rule: merge_next.cases) auto

lemma merge_prev_cases:
  obtains (Free) k c' zs where "xs = zs @ [(k, c', SFree)]" "merge_prev xs i c = (zs, k, c + c')"
    | (Keep) "merge_prev xs i c = (xs, i, c)" "xs \<noteq> [] \<Longrightarrow> \<not> is_free (last xs)"
proof (cases "rev xs")
  case (Cons t zs)
  then have xs: "xs = rev zs @ [t]" by (metis rev_rev_ident rev.simps(2))
  obtain k c' s where t: "t = (k, c', s)" by (cases t) auto
  show ?thesis using Cons xs t Free Keep by (cases s) (auto simp: merge_prev_def)
qed (auto simp: merge_prev_def intro: Keep)

lemma span_repr_slice:
  assumes inv: "span_repr comm st T Q" and T: "T a = Some ts" and t: "(k, c, s) \<in> set ts" and s: "s \<noteq> STaken"
  shows "pg_slice_count (tl_slices st (a, k)) = c" "pg_block_size (tl_slices st (a, k)) = 0 \<longleftrightarrow> s = SFree"
    "pa_slice_first (tl_slices st) (a, k + c - 1) = (a, k)"
proof -
  have o: "span_ok (tl_slices st) a (k, c, s)" by (rule span_reprD(3) [OF inv T t])
  then show "pg_slice_count (tl_slices st (a, k)) = c" "pg_block_size (tl_slices st (a, k)) = 0 \<longleftrightarrow> s = SFree"
    using s by (simp_all add: span_ok_def)
  have c: "0 < c" using span_bounds(1) [OF inv T t] .
  have "pg_slice_offset (tl_slices st (a, k + (c - 1))) = sizeof_slice * (c - 1)"
  proof -
    obtain l where l: "c = Suc l" using c by (cases c) auto
    then show ?thesis using o s by (cases "l = 0") (simp_all add: span_ok_def)
  qed
  then show "pa_slice_first (tl_slices st) (a, k + c - 1) = (a, k)" using c by (simp add: pa_slice_first_def)
qed

lemma coalesce_next_repr:
  assumes inv: "span_repr comm st T Q" and T: "T a = Some (xs @ (i, c, STaken) # ys)" and nt: "not_taken ys"
    and cnt: "pg_slice_count (tl_slices st (a, i)) = c"
    and r: "coalesce_next (a, i) st = (c', st')" and m: "merge_next c ys = (c'', ys')"
  shows "c' = c'' \<and> (\<exists>Q'. span_repr comm st' (T(a \<mapsto> xs @ (i, c', STaken) # ys')) Q') \<and> tl_segs st' = tl_segs st"
proof -
  note D = span_reprD [OF inv T] and o = seg_ownedD [OF span_reprD(1) [OF inv T]]
  have ch: "spans_from 0 xs i" "spans_from (i + c) ys (sg_slice_entries (tl_segs st a))"
    by (rule spans_from_middle [of xs "[(i, c, STaken)]"]; use D(2) span_bounds(1) [OF inv T, of i c STaken] in simp)+
  show ?thesis
  proof (cases ys)
    case Nil
    then show ?thesis using r m ch cnt inv T by (auto simp: coalesce_next_def Let_def fun_upd_idem)
  next
    case (Cons t zs)
    obtain n s where t: "t = (i + c, n, s)" using ch(2) Cons by (cases t) auto
    have mem: "(i + c, n, s) \<in> set (xs @ (i, c, STaken) # ys)" using Cons t by simp
    have s: "s \<noteq> STaken" using nt Cons t by auto
    note N = span_repr_slice [OF inv T mem s]
    have lt: "i + c < sg_slice_entries (tl_segs st a)" using span_bounds(1,2) [OF inv T mem] by simp
    show ?thesis
    proof (cases "s = SFree")
      case False
      then show ?thesis using r m N cnt inv T Cons t s
        by (cases s) (auto simp: coalesce_next_def Let_def fun_upd_idem)
    next
      case True
      have R: "c' = c + n" "st' = pa_span_queue_delete (pa_slice_bin n) (a, i + c) st" "c'' = c + n" "ys' = zs"
        using r m N lt cnt True Cons t o(4)
        by (auto simp: coalesce_next_def Let_def pa_segment_is_abandoned_def pa_segment_span_remove_from_queue_def pa_span_queue_for_def)
      have "T a = Some ((xs @ [(i, c, STaken)]) @ (i + c, n, SFree) # zs)" using T Cons t True by simp
      from span_repr_delete [OF inv this refl]
      have "span_repr comm st' (T(a \<mapsto> xs @ [(i, c, STaken), (i + c, n, STaken)] @ zs)) (Q(pa_slice_bin n := remove1 (a, i + c) (Q (pa_slice_bin n))))"
        unfolding R by simp
      then have "span_repr comm st' ((T(a \<mapsto> xs @ [(i, c, STaken), (i + c, n, STaken)] @ zs))(a \<mapsto> xs @ [(i, c + n, STaken)] @ zs))
          (Q(pa_slice_bin n := remove1 (a, i + c) (Q (pa_slice_bin n))))"
        by (rule span_repr_taken [of _ _ _ _ _ _ "[(i, c, STaken), (i + c, n, STaken)]" _ i "i + c + n"])
          (use span_bounds(1) [OF inv T mem] span_bounds(1) [OF inv T, of i c STaken] in auto)
      then show ?thesis using R by (auto simp: span_delete_frame)
    qed
  qed
qed

lemma coalesce_prev_repr:
  assumes inv: "span_repr comm st T Q" and T: "T a = Some (xs @ (i, c, STaken) # ys)" and nt: "not_taken xs"
    and r: "coalesce_prev (a, i) c st = (x', c', st')" and m: "merge_prev xs i c = (xs', i', c'')"
  shows "x' = (a, i') \<and> c' = c'' \<and> (\<exists>Q'. span_repr comm st' (T(a \<mapsto> xs' @ (i', c', STaken) # ys)) Q') \<and> tl_segs st' = tl_segs st"
proof -
  note D = span_reprD [OF inv T] and o = seg_ownedD [OF span_reprD(1) [OF inv T]]
  have c: "0 < c" "i + c \<le> 512" using span_bounds [OF inv T, of i c STaken] by simp_all
  have ch: "spans_from 0 xs i" by (rule spans_from_middle [of xs "[(i, c, STaken)]"]; use D(2) c in simp)
  show ?thesis
  proof (cases xs rule: rev_cases)
    case Nil
    then show ?thesis using r m ch inv T by (auto simp: coalesce_prev_def merge_prev_def Let_def fun_upd_idem)
  next
    case (snoc zs t)
    obtain k n s where t: "t = (k, n, s)" by (cases t) auto
    have i: "i = k + n" "0 < n" using ch snoc t by (auto simp: spans_from_append)
    have mem: "(k, n, s) \<in> set (xs @ (i, c, STaken) # ys)" using snoc t by simp
    have s: "s \<noteq> STaken" using nt snoc t by auto
    note N = span_repr_slice [OF inv T mem s]
    have fst: "pa_slice_first (tl_slices st) (a, i - 1) = (a, k)" using N(3) i by simp
    show ?thesis
    proof (cases "s = SFree")
      case False
      then show ?thesis using r m N fst i inv T snoc t s
        by (cases s) (auto simp: coalesce_prev_def merge_prev_def Let_def fun_upd_idem)
    next
      case True
      let ?st1 = "set_slice (a, i) (\<lambda>s. s\<lparr>pg_slice_count := 0, pg_slice_offset := u32 (sizeof_slice * (i - k))\<rparr>) st"
      have kn: "pg_slice_count (tl_slices ?st1 (a, k)) = n" using N(1) i by simp
      have R: "x' = (a, k)" "c' = c + n" "st' = pa_span_queue_delete (pa_slice_bin n) (a, k) ?st1" "c'' = c + n" "xs' = zs" "i' = k"
        using r m N fst i True snoc t o(4) kn
        by (auto simp: coalesce_prev_def merge_prev_def Let_def pa_segment_is_abandoned_def pa_segment_span_remove_from_queue_def pa_span_queue_for_def)
      have "span_repr comm ?st1 (T(a \<mapsto> xs @ [(i, c, STaken)] @ ys)) Q"
        by (rule span_repr_taken [OF inv, of a xs "[(i, c, STaken)]" ys i "i + c"]) (use T c in auto)
      then have inv1: "span_repr comm ?st1 T Q" using T by (simp add: fun_upd_idem)
      have "T a = Some (zs @ (k, n, SFree) # (i, c, STaken) # ys)" using T snoc t True by simp
      from span_repr_delete [OF inv1 this refl]
      have "span_repr comm st' (T(a \<mapsto> zs @ [(k, n, STaken), (i, c, STaken)] @ ys)) (Q(pa_slice_bin n := remove1 (a, k) (Q (pa_slice_bin n))))"
        unfolding R by simp
      then have "span_repr comm st' ((T(a \<mapsto> zs @ [(k, n, STaken), (i, c, STaken)] @ ys))(a \<mapsto> zs @ [(k, c + n, STaken)] @ ys))
          (Q(pa_slice_bin n := remove1 (a, k) (Q (pa_slice_bin n))))"
        by (rule span_repr_taken [of _ _ _ _ _ _ "[(k, n, STaken), (i, c, STaken)]" _ k "k + n + c"]) (use c i in auto)
      then show ?thesis using R by (auto simp: span_delete_frame)
    qed
  qed
qed

lemma free_coalesce_repr:
  assumes ok: "os_ok comm env" and inv: "span_repr comm st T Q" and T: "T a = Some (xs @ (i, c, STaken) # ys)"
    and nt: "not_taken xs" "not_taken ys" and cnt: "pg_slice_count (tl_slices st (a, i)) = c"
    and r: "pa_segment_span_free_coalesce env (a, i) st = (x', st')"
  shows "(\<exists>Q'. span_repr comm st' (T(a \<mapsto> merge_spans xs i c ys)) Q') \<and> only_seg a st st'"
proof -
  have k: "sg_kind (tl_segs st a) \<noteq> PA_SEGMENT_HUGE" using seg_ownedD(3) [OF span_reprD(1) [OF inv T]] by simp
  obtain c1 st1 where n: "coalesce_next (a, i) st = (c1, st1)" by (meson surj_pair)
  obtain c1' ys' where mn: "merge_next c ys = (c1', ys')" by (meson surj_pair)
  from coalesce_next_repr [OF inv T nt(2) cnt n mn] obtain Q1
    where c1: "c1' = c1" and inv1: "span_repr comm st1 (T(a \<mapsto> xs @ (i, c1, STaken) # ys')) Q1" and s1: "tl_segs st1 = tl_segs st" by blast
  obtain x2 c2 st2 where p: "coalesce_prev (a, i) c1 st1 = (x2, c2, st2)" by (metis prod_cases3)
  obtain xs' i2 c2' where mp: "merge_prev xs i c1 = (xs', i2, c2')" by (metis prod_cases3)
  have "(T(a \<mapsto> xs @ (i, c1, STaken) # ys')) a = Some (xs @ (i, c1, STaken) # ys')" by simp
  from coalesce_prev_repr [OF inv1 this nt(1) p mp, unfolded fun_upd_upd] obtain Q2
    where x2: "x2 = (a, i2)" "c2' = c2" and inv2: "span_repr comm st2 (T(a \<mapsto> xs' @ (i2, c2, STaken) # ys')) Q2"
      and s2: "tl_segs st2 = tl_segs st1" by blast
  have st': "st' = pa_segment_span_free env a i2 c2 True st2" using r k n p x2 by (simp add: pa_segment_span_free_coalesce_def)
  have "(T(a \<mapsto> xs' @ (i2, c2, STaken) # ys')) a = Some (xs' @ (i2, c2, STaken) # ys')" by simp
  note F = span_free_repr [OF ok inv2 this, where purge = True, folded st']
  have "merge_spans xs i c ys = xs' @ (i2, c2, SFree) # ys'" using mn mp c1 x2 by (simp add: merge_spans_def)
  moreover have "only_seg a st st'" using F(2) s1 s2 by (simp add: only_seg_def)
  ultimately show ?thesis using F(1) [unfolded fun_upd_upd] by simp
qed

text \<open>After merging, no two neighbouring spans are free.\<close>

abbreviation apart_free :: "span list \<Rightarrow> bool" where
  "apart_free ts \<equiv> successively (\<lambda>s t. \<not> (is_free s \<and> is_free t)) ts"

lemma merge_apart:
  assumes "apart_free (xs @ (i, c, s) # ys)"
  shows "apart_free (merge_spans xs i c ys)"
proof -
  have A: "apart_free xs" "apart_free ys" using assms by (auto simp: successively_append_iff successively_Cons)
  show ?thesis
    using assms A
    by (rule_tac merge_next_cases [of ys c]; rule_tac merge_prev_cases [of xs i "fst (merge_next c ys)"])
      (auto simp: merge_spans_def successively_append_iff successively_Cons)
qed

section \<open>Searching the queues\<close>

lemma span_search_links:
  "links (get_next s) prv p xs None \<Longrightarrow> span_search ok s (first_of xs) = Some (find ok xs)"
proof (induction xs arbitrary: p)
  case (Cons x xs)
  have n: "pg_next (s x) = first_of xs" using Cons.prems by auto
  show ?case using Cons.IH [of "Some x"] Cons.prems n by (subst span_search.simps) simp
qed (subst span_search.simps, simp)

lemma spans_search_spec:
  assumes inv: "span_repr comm st T Q" and bs: "\<forall>b \<in> set bs. b \<le> PA_SEGMENT_BIN_MAX"
  shows "spans_search ok st bs = Some None \<and> (\<forall>b \<in> set bs. \<forall>x \<in> set (Q b). \<not> ok x) \<or>
    (\<exists>b x. spans_search ok st bs = Some (Some (b, x)) \<and> b \<in> set bs \<and> x \<in> set (Q b) \<and> ok x)"
  using bs
proof (induction bs)
  case (Cons b bs)
  have "pages.dll (tl_slices st) (sq_first (tl_spans st b)) (sq_last (tl_spans st b)) (Q b)"
    using span_repr_queue(1) [OF inv] Cons.prems by simp
  then have s: "span_search ok (tl_slices st) (sq_first (tl_spans st b)) = Some (find ok (Q b))"
    unfolding pages.dll_def using span_search_links by metis
  show ?case
  proof (cases "find ok (Q b)")
    case None
    then have "\<forall>x \<in> set (Q b). \<not> ok x" unfolding find_None_iff by blast
    moreover have "spans_search ok st (b # bs) = spans_search ok st bs" using s None by simp
    ultimately show ?thesis using Cons by auto
  next
    case (Some x)
    then have "x \<in> set (Q b)" "ok x" by (auto simp: find_Some_iff)
    then show ?thesis using s Some by simp
  qed
qed simp

section \<open>The invariant\<close>

text \<open>Between operations no span is taken, no two neighbours are free, the first span holds the segment structure and
  \<open>used\<close> counts the pages.\<close>

definition spans_good :: "nat \<Rightarrow> span list \<Rightarrow> bool" where
  "spans_good used ts \<longleftrightarrow> not_taken ts \<and> apart_free ts \<and> (\<exists>c ts'. ts = (0, c, SUsed) # ts') \<and>
     length (filter (\<lambda>t. snd (snd t) = SUsed) ts) = used + 1"

definition span_inv :: "('o \<Rightarrow> nat set) \<Rightarrow> 'o pa_segments_tld \<Rightarrow> (uintptr_t \<Rightarrow> span list option) \<Rightarrow>
    (nat \<Rightarrow> slice_ref list) \<Rightarrow> bool" where
  "span_inv comm st T Q \<longleftrightarrow> span_repr comm st T Q \<and> (\<forall>a ts. T a = Some ts \<longrightarrow> spans_good (sg_used (tl_segs st a)) ts)"

lemma spans_good_cut:
  assumes "spans_good u (xs @ (i, c, SFree) # ys)" "n < c"
  shows "spans_good (u + 1) (xs @ (i, n, SUsed) # (i + n, c - n, SFree) # ys)"
    "spans_good (u + 1) (xs @ (i, c, SUsed) # ys)"
  using assms by (cases xs; auto simp: spans_good_def successively_append_iff successively_Cons)+

lemma merge_restores:
  assumes "apart_free (xs @ (i, c, SFree) # ys)" "n \<le> c"
  shows "merge_spans xs i n (if n < c then (i + n, c - n, SFree) # ys else ys) = xs @ (i, c, SFree) # ys"
proof -
  have P: "merge_prev xs i m = (xs, i, m)" for m
    by (rule merge_prev_cases [of xs i m]) (use assms in \<open>auto simp: successively_append_iff\<close>)
  have N: "merge_next m ys = (m, ys)" for m
    by (rule merge_next_cases [of ys m]) (use assms in \<open>auto simp: successively_append_iff successively_Cons\<close>)
  show ?thesis using assms P N by (auto simp: merge_spans_def)
qed

lemma only_seg_fields:
  assumes "only_seg a st st'"
  shows "sg_used (tl_segs st' a') = sg_used (tl_segs st a')" "sg_memid (tl_segs st' a') = sg_memid (tl_segs st a')"
    "sg_abandoned (tl_segs st' a') = sg_abandoned (tl_segs st a')" "sg_dont_free (tl_segs st' a') = sg_dont_free (tl_segs st a')"
  using assms same_frame_fields [of "tl_segs st a" "tl_segs st' a"] by (cases "a' = a"; simp add: only_seg_def)+

lemma find_and_allocate_spec:
  assumes ok: "os_ok comm env" and inv: "span_inv comm st T Q" and n: "0 < n" "n \<le> 512"
  shows "\<exists>r st' Q'. pa_segments_page_find_and_allocate env n req st = Some (r, st') \<and>
    (case r of
       Some (a, i) \<Rightarrow> \<exists>xs ys c. T a = Some (xs @ (i, c, SFree) # ys) \<and> n \<le> c \<and>
         pa_arena_memid_is_suitable (sg_memid (tl_segs st a)) req \<and>
         pg_block_size (tl_slices st' (a, i)) = of_nat n * PA_SEGMENT_SLICE_SIZE \<and>
         span_inv comm st' (T(a \<mapsto> xs @ (i, n, SUsed) # (if n < c then (i + n, c - n, SFree) # ys else ys))) Q'
     | None \<Rightarrow> span_inv comm st' T Q' \<and>
         (st' = st \<and> (\<forall>a ts i c. T a = Some ts \<and> (i, c, SFree) \<in> set ts \<and> n \<le> c \<longrightarrow>
            \<not> pa_arena_memid_is_suitable (sg_memid (tl_segs st a)) req) \<or>
          (\<exists>a ts i c. T a = Some ts \<and> (i, c, SFree) \<in> set ts \<and> n \<le> c \<and>
            pa_arena_memid_is_suitable (sg_memid (tl_segs st a)) req \<and> span_commit_fails env st a i n)))"
proof -
  have repr: "span_repr comm st T Q" and good: "\<And>a ts. T a = Some ts \<Longrightarrow> spans_good (sg_used (tl_segs st a)) ts"
    using inv by (auto simp: span_inv_def)
  define ok' where "ok' = (\<lambda>s. n \<le> pg_slice_count (tl_slices st s) \<and> pa_arena_memid_is_suitable (sg_memid (tl_segs st (fst s))) req)"
  let ?bs = "[pa_slice_bin n..<Suc PA_SEGMENT_BIN_MAX]"
  have bs: "\<forall>b \<in> set ?bs. b \<le> PA_SEGMENT_BIN_MAX" by auto
  consider (none) "spans_search ok' st ?bs = Some None" "\<forall>b \<in> set ?bs. \<forall>x \<in> set (Q b). \<not> ok' x"
    | (found) b x where "spans_search ok' st ?bs = Some (Some (b, x))" "b \<in> set ?bs" "x \<in> set (Q b)" "ok' x"
    using spans_search_spec [OF repr bs, of ok'] by blast
  then show ?thesis
  proof cases
    case none
    have "pa_segments_page_find_and_allocate env n req st = Some (None, st)"
      using none(1) n unfolding ok'_def by (simp add: pa_segments_page_find_and_allocate_def pa_span_queue_for_def Let_def)
    moreover have "\<not> pa_arena_memid_is_suitable (sg_memid (tl_segs st a)) req"
      if "T a = Some ts" "(i, c, SFree) \<in> set ts" "n \<le> c" for a ts i c
    proof -
      note b = span_bounds [OF repr that(1,2)]
      have "pa_slice_bin n \<le> pa_slice_bin c" using pa_slice_bin_mono [OF that(3)] b(3) by (simp add: PA_SLICES_PER_SEGMENT_def)
      then have "\<not> ok' (a, i)" using none(2) that b(4) span_repr_queue(2) [OF repr b(4), of a i] by auto
      then show ?thesis using span_repr_slice(1) [OF repr that(1,2)] that(3) by (simp add: ok'_def)
    qed
    ultimately show ?thesis using inv by (intro exI [of _ None] exI [of _ st] exI [of _ Q]) auto
  next
    case found
    have b35: "b \<le> PA_SEGMENT_BIN_MAX" using found(2) by auto
    obtain a i where x: "x = (a, i)" by (cases x) auto
    obtain ts c where ts: "T a = Some ts" "(i, c, SFree) \<in> set ts" "pa_slice_bin c = b"
      using span_repr_queue(2) [OF repr b35, of a i] found(3) x by auto
    obtain xs ys where sp: "ts = xs @ (i, c, SFree) # ys" using split_list [OF ts(2)] by blast
    have T: "T a = Some (xs @ (i, c, SFree) # ys)" using ts sp by simp
    note g = good [OF T]
    have nt: "not_taken xs" "not_taken ys" "apart_free (xs @ (i, c, SFree) # ys)" using g by (auto simp: spans_good_def)
    have cnt: "pg_slice_count (tl_slices st (a, i)) = c" using span_repr_slice(1) [OF repr ts(1,2)] by simp
    have nc: "n \<le> c" "pa_arena_memid_is_suitable (sg_memid (tl_segs st a)) req" using found(4) x cnt by (simp_all add: ok'_def)
    define st1 where "st1 = pa_span_queue_delete b (a, i) st"
    have inv1: "span_repr comm st1 (T(a \<mapsto> xs @ (i, c, STaken) # ys)) (Q(b := remove1 (a, i) (Q b)))"
      unfolding st1_def by (rule span_repr_delete [OF repr T ts(3) [symmetric]])
    have cnt1: "pg_slice_count (tl_slices st1 (a, i)) = c"
      using page_core_fields(1) [of "tl_slices st1 (a, i)" "(tl_slices st (a, i))\<lparr>pg_block_size := 1\<rparr>"] cnt
      by (simp add: st1_def span_delete_core page_core_bs)
    define st2 where "st2 = (if n < c then pa_segment_slice_split env (a, i) n st1 else st1)"
    define ys' where "ys' = (if n < c then (i + n, c - n, SFree) # ys else ys)"
    have quiet: "tl_segs st2 = tl_segs st" "tl_os st2 = tl_os st"
      by (simp_all add: st2_def st1_def slice_split_quiet span_delete_frame)
    have "\<exists>Q'. span_repr comm st2 (T(a \<mapsto> xs @ (i, n, STaken) # ys')) Q' \<and> only_seg a st st2 \<and> pg_slice_count (tl_slices st2 (a, i)) = n"
    proof (cases "n < c")
      case True
      have "(T(a \<mapsto> xs @ (i, c, STaken) # ys)) a = Some (xs @ (i, c, STaken) # ys)" by simp
      from slice_split_repr [OF ok inv1 this cnt1 n(1) True, unfolded fun_upd_upd] True show ?thesis
        by (auto simp: st2_def ys'_def st1_def span_delete_frame only_seg_def)
    next
      case False
      then show ?thesis using inv1 cnt1 nc by (auto simp: st2_def ys'_def st1_def span_delete_frame only_seg_def)
    qed
    then obtain Q2 where inv2: "span_repr comm st2 (T(a \<mapsto> xs @ (i, n, STaken) # ys')) Q2" and os2: "only_seg a st st2"
      and cnt2: "pg_slice_count (tl_slices st2 (a, i)) = n" by blast
    obtain page st3 where al: "pa_segment_span_allocate env a i n st2 = (page, st3)" by (meson surj_pair)
    have T2: "(T(a \<mapsto> xs @ (i, n, STaken) # ys')) a = Some (xs @ (i, n, STaken) # ys')" by simp
    note A = span_allocate_repr [OF ok inv2 T2 al, unfolded fun_upd_upd]
    have E: "pa_segments_page_find_and_allocate env n req st = Some (case page of Some page \<Rightarrow> (Some page, st3)
        | None \<Rightarrow> (None, snd (pa_segment_span_free_coalesce env (a, i) st3)))"
    proof -
      have n': "(if n = 0 then 1 else n) = n" using n by simp
      show ?thesis
        unfolding pa_segments_page_find_and_allocate_def pa_span_queue_for_def Let_def n' found(1) [unfolded ok'_def] option.case
          prod.case x fst_conv snd_conv st1_def [symmetric] cnt1 st2_def [symmetric] cnt2 al
        by (simp split: option.split)
    qed
    show ?thesis
    proof (cases page)
      case None
      have inv3: "span_repr comm st3 (T(a \<mapsto> xs @ (i, n, STaken) # ys')) Q2" "only_seg a st2 st3" "tl_slices st3 = tl_slices st2"
        using A(1) [OF None] by blast+
      obtain x4 st4 where co: "pa_segment_span_free_coalesce env (a, i) st3 = (x4, st4)" by (meson surj_pair)
      have nt': "not_taken ys'" using nt(2) by (simp add: ys'_def)
      have "pg_slice_count (tl_slices st3 (a, i)) = n" using cnt2 inv3(3) by simp
      from free_coalesce_repr [OF ok inv3(1) T2 nt(1) nt' this co, unfolded fun_upd_upd] obtain Q4
        where inv4: "span_repr comm st4 (T(a \<mapsto> merge_spans xs i n ys')) Q4" and os4: "only_seg a st3 st4" by blast
      have "merge_spans xs i n ys' = xs @ (i, c, SFree) # ys" unfolding ys'_def by (rule merge_restores [OF nt(3) nc(1)])
      then have r4: "span_repr comm st4 T Q4" using inv4 T by (simp add: fun_upd_idem)
      have "only_seg a st st4" using os2 inv3(2) os4 only_seg_trans by blast
      then have "span_inv comm st4 T Q4" using r4 good by (simp add: span_inv_def only_seg_fields)
      moreover have "span_commit_fails env st a i n" using A(1) [OF None] span_commit_fails_cong [OF quiet] by simp
      then have "\<exists>a ts i c. T a = Some ts \<and> (i, c, SFree) \<in> set ts \<and> n \<le> c \<and>
            pa_arena_memid_is_suitable (sg_memid (tl_segs st a)) req \<and> span_commit_fails env st a i n" using ts nc by blast
      ultimately show ?thesis using E None co by (intro exI [of _ None] exI [of _ st4] exI [of _ Q4]) simp
    next
      case (Some p)
      have A': "page = Some (a, i)" "span_repr comm st3 (T(a \<mapsto> xs @ (i, n, SUsed) # ys')) Q2"
        "pg_block_size (tl_slices st3 (a, i)) = of_nat n * PA_SEGMENT_SLICE_SIZE" using A(2) Some by simp_all
      obtain seg where seg: "same_frame (tl_segs st2 a) seg" "tl_segs st3 = (tl_segs st2)(a := seg\<lparr>sg_used := sg_used seg + 1\<rparr>)"
        using A(2) Some by auto
      have u: "sg_used (tl_segs st3 a) = sg_used (tl_segs st a) + 1" "\<And>a'. a' \<noteq> a \<Longrightarrow> sg_used (tl_segs st3 a') = sg_used (tl_segs st a')"
        using seg same_frame_fields [OF seg(1)] only_seg_fields(1) [OF os2] by simp_all
      have "spans_good (sg_used (tl_segs st a) + 1) (xs @ (i, n, SUsed) # ys')"
        using spans_good_cut(1) [OF g, of n] spans_good_cut(2) [OF g, of 0] nc span_bounds(1) [OF repr ts(1,2)]
        by (cases "n < c") (auto simp: ys'_def)
      then have "span_inv comm st3 (T(a \<mapsto> xs @ (i, n, SUsed) # ys')) Q2" using A'(2) u good by (simp add: span_inv_def)
      then have "\<exists>xs ys c. T a = Some (xs @ (i, c, SFree) # ys) \<and> n \<le> c \<and>
         pa_arena_memid_is_suitable (sg_memid (tl_segs st a)) req \<and>
         pg_block_size (tl_slices st3 (a, i)) = of_nat n * PA_SEGMENT_SLICE_SIZE \<and>
         span_inv comm st3 (T(a \<mapsto> xs @ (i, n, SUsed) # (if n < c then (i + n, c - n, SFree) # ys else ys))) Q2"
        using A'(3) T nc unfolding ys'_def by (intro exI [of _ xs] exI [of _ ys] exI [of _ c]) (intro conjI)
      then show ?thesis using E A'(1)
        by (intro exI [of _ "Some (a, i)"] exI [of _ st3] exI [of _ Q2]) simp
    qed
  qed
qed

end
