(* ===== verification/Palloc_Segments.thy ===== *)
theory Palloc_Segments
  imports Palloc_SpanOps
begin

text \<open>
  Allocating and freeing segments, giving pages back to their segment, and abandoning segments
  (\<open>src/segment.c\<close>, from \<open>pa_segment_os_alloc\<close> on).  What the arena layer answers, the thread and the options are a
  record of parameters.  Statistics and the subprocess are left out, and so is reclaiming
  abandoned segments, which needs the heap of the reclaiming thread.  The theorems at the end are about the
  histories of segment and page operations of one thread.
\<close>

section \<open>Allocating a segment\<close>

record 'o arena_env =
  ar_alloc :: "'o \<Rightarrow> size_t \<Rightarrow> size_t \<Rightarrow> size_t \<Rightarrow> bool \<Rightarrow> bool \<Rightarrow> int \<Rightarrow> (uintptr_t \<times> pa_memid) option \<times> 'o"
  ar_free :: "'o \<Rightarrow> uintptr_t \<Rightarrow> size_t \<Rightarrow> size_t \<Rightarrow> pa_memid \<Rightarrow> 'o"
  ar_reset :: "'o \<Rightarrow> uintptr_t \<Rightarrow> size_t \<Rightarrow> 'o"
  ar_mark_abandoned :: "'o \<Rightarrow> uintptr_t \<Rightarrow> 'o"
  ar_os_page_size :: size_t
  ar_sizeof_segment :: size_t
  ar_thread_id :: nat
  ar_thread_count :: nat
  opt_eager_commit :: bool
  opt_eager_commit_delay :: size_t
  opt_page_reset :: bool
  opt_abandoned_page_purge :: bool

definition pa_segments_track_size :: "int \<Rightarrow> 'o pa_segments_tld \<Rightarrow> 'o pa_segments_tld" where
  "pa_segments_track_size segment_size st =
     (let count = tl_count st + (if 0 \<le> segment_size then 1 else -1);
          current = tl_current_size st + of_int segment_size
      in st\<lparr>tl_count := count,
            tl_peak_count := (if tl_peak_count st < count then count else tl_peak_count st),
            tl_current_size := current,
            tl_peak_size := (if tl_peak_size st < current then current else tl_peak_size st)\<rparr>)"

text \<open>Slices and segment fields filled with zero bytes.\<close>

definition zero_slice :: pa_page where
  "zero_slice = \<lparr>pg_slice_count = 0, pg_slice_offset = 0, pg_is_committed = False, pg_is_huge = False,
     pg_is_zero_init = False, pg_retire_expire = 0, pg_capacity = 0, pg_used = 0, pg_in_full = False,
     pg_has_aligned = False, pg_free_is_zero = False, pg_block_size_shift = 0, pg_free = 0, pg_local_free = 0,
     pg_xthread_free = 0, pg_block_size = 0, pg_reserved = 0, pg_heap_tag = 0, pg_page_start = 0, pg_xheap = 0,
     pg_next = None, pg_prev = None\<rparr>"

definition zero_segment_info :: "uintptr_t \<Rightarrow> nat \<Rightarrow> 'o pa_segments_tld \<Rightarrow> 'o pa_segments_tld" where
  "zero_segment_info a segment_slices st =
     (set_seg ((tl_segs st a)\<lparr>sg_addr := a, sg_was_reclaimed := False, sg_dont_free := False, sg_free_is_zero := False,
        sg_abandoned := 0, sg_abandoned_visits := 0, sg_used := 0, sg_segment_slices := 0,
        sg_segment_info_slices := 0, sg_kind := PA_SEGMENT_NORMAL, sg_slice_entries := 0, sg_thread_id := 0\<rparr>) st)
     \<lparr>tl_slices := (\<lambda>(b, i). if b = a \<and> i \<le> segment_slices then zero_slice else tl_slices st (b, i))\<rparr>"

text \<open>Memory that the arena layer reports as initially zero is modelled by zeroing it here.\<close>

definition pa_segment_os_alloc ::
    "'o os_env \<Rightarrow> 'o arena_env \<Rightarrow> size_t \<Rightarrow> size_t \<Rightarrow> bool \<Rightarrow> int \<Rightarrow> nat \<Rightarrow> nat \<Rightarrow> bool \<Rightarrow> 'o pa_segments_tld \<Rightarrow>
     (uintptr_t \<times> nat \<times> nat) option \<times> 'o pa_segments_tld" where
  "pa_segment_os_alloc env ar required page_alignment eager_delayed req_arena_id segment_slices info_slices commit st =
     (let allow_large = \<not> eager_delayed;
          (alignment, align_offset, segment_slices, info_slices) =
            (if 0 < page_alignment
             then let info_size = of_nat info_slices * PA_SEGMENT_SLICE_SIZE;
                      align_offset = pa_align_up info_size PA_SEGMENT_SIZE;
                      extra = align_offset - info_size;
                      (n, info) = pa_segment_calculate_slices (ar_os_page_size ar) (ar_sizeof_segment ar) (required + extra)
                  in (page_alignment, align_offset, n, info)
             else (PA_SEGMENT_SIZE, 0, segment_slices, info_slices));
          segment_size = of_nat segment_slices * PA_SEGMENT_SLICE_SIZE;
          (r, os) = ar_alloc ar (tl_os st) segment_size alignment align_offset commit allow_large req_arena_id;
          st = st\<lparr>tl_os := os\<rparr>
      in case r of None \<Rightarrow> (None, st)
         | Some (a, memid) \<Rightarrow>
             let (ok, commit_mask, os) =
                   (if mi_initially_committed memid then (True, pa_commit_mask_create_full, tl_os st)
                    else let needed = unat (pa_divide_up (of_nat info_slices * PA_SEGMENT_SLICE_SIZE) PA_COMMIT_SIZE);
                             (ok, z, os) = os_commit env (tl_os st) a (of_nat needed * PA_COMMIT_SIZE)
                         in (ok, pa_commit_mask_create 0 needed, os))
             in if \<not> ok then (None, st\<lparr>tl_os := ar_free ar os a segment_size 0 memid\<rparr>)
                else let st = st\<lparr>tl_os := os\<rparr>;
                         st = (if mi_initially_zero memid then zero_segment_info a segment_slices st else st);
                         seg = (tl_segs st a)\<lparr>sg_addr := a, sg_memid := memid,
                           sg_allow_decommit := \<not> mi_is_pinned memid,
                           sg_allow_purge := \<not> mi_is_pinned memid \<and> 0 \<le> opt_purge_delay env,
                           sg_segment_size := segment_size, sg_commit_mask := commit_mask, sg_purge_expire := 0,
                           sg_free_is_zero := mi_initially_zero memid, sg_purge_mask := pa_commit_mask_create_empty\<rparr>
                     in (Some (a, segment_slices, info_slices),
                         pa_segments_track_size (sint segment_size) (set_seg seg st)))"

definition pa_segment_alloc ::
    "'o os_env \<Rightarrow> 'o arena_env \<Rightarrow> size_t \<Rightarrow> size_t \<Rightarrow> int \<Rightarrow> 'o pa_segments_tld \<Rightarrow>
     (uintptr_t \<times> slice_ref option) option \<times> 'o pa_segments_tld" where
  "pa_segment_alloc env ar required page_alignment req_arena_id st =
     (let (segment_slices, info_slices) = pa_segment_calculate_slices (ar_os_page_size ar) (ar_sizeof_segment ar) required;
          eager_delay = (1 < ar_thread_count ar \<and> tl_peak_count st < opt_eager_commit_delay ar);
          eager = (\<not> eager_delay \<and> opt_eager_commit ar);
          commit = (eager \<or> 0 < required);
          (r, st) = pa_segment_os_alloc env ar required page_alignment eager_delay req_arena_id segment_slices info_slices commit st
      in case r of None \<Rightarrow> (None, st)
         | Some (a, segment_slices, info_slices) \<Rightarrow>
             let st = (if \<not> mi_initially_zero (sg_memid (tl_segs st a)) then zero_segment_info a segment_slices st else st);
                 slice_entries = (if PA_SLICES_PER_SEGMENT < segment_slices then PA_SLICES_PER_SEGMENT else segment_slices);
                 st = set_seg ((tl_segs st a)\<lparr>sg_segment_slices := segment_slices, sg_segment_info_slices := info_slices,
                        sg_thread_id := ar_thread_id ar, sg_slice_entries := slice_entries,
                        sg_kind := (if required = 0 then PA_SEGMENT_NORMAL else PA_SEGMENT_HUGE),
                        sg_purge_delay_ms := opt_purge_delay env\<rparr>) st;
                 (page0, st) = pa_segment_span_allocate env a 0 info_slices st
             in if page0 = None then (None, st)
                else let st = set_seg ((tl_segs st a)\<lparr>sg_used := 0\<rparr>) st
                     in if required = 0
                        then (Some (a, None), pa_segment_span_free env a info_slices (slice_entries - info_slices) False st)
                        else let (huge_page, st) = pa_segment_span_allocate env a info_slices (segment_slices - info_slices - 0) st
                             in (Some (a, huge_page), st))"

section \<open>Freeing a segment\<close>

definition pa_segment_os_free :: "'o arena_env \<Rightarrow> uintptr_t \<Rightarrow> 'o pa_segments_tld \<Rightarrow> 'o pa_segments_tld" where
  "pa_segment_os_free ar a st =
     (let st = set_seg ((tl_segs st a)\<lparr>sg_thread_id := 0\<rparr>) st;
          st = pa_segments_track_size (- sint (pa_segment_size (tl_segs st a))) st;
          st = (if sg_was_reclaimed (tl_segs st a)
                then (set_seg ((tl_segs st a)\<lparr>sg_was_reclaimed := False\<rparr>) st)\<lparr>tl_reclaim_count := tl_reclaim_count st - 1\<rparr>
                else st);
          size = pa_segment_size (tl_segs st a);
          csize = pa_commit_mask_committed_size (sg_commit_mask (tl_segs st a)) size
      in st\<lparr>tl_os := ar_free ar (tl_os st) a size csize (sg_memid (tl_segs st a))\<rparr>)"

text \<open>The loops over all spans of a segment: from a slice on, the body is done for the slice and the walk goes on \<open>slice_count\<close>
  further, up to the end.\<close>

partial_function (option) slices_walk ::
    "(slice_ref \<Rightarrow> 'o pa_segments_tld \<Rightarrow> 'o pa_segments_tld) \<Rightarrow> nat \<Rightarrow> slice_ref \<Rightarrow> 'o pa_segments_tld \<Rightarrow> 'o pa_segments_tld option" where
  "slices_walk body entries slc st =
     (if snd slc < entries
      then let st = body slc st in slices_walk body entries (slice_plus slc (pg_slice_count (tl_slices st slc))) st
      else Some st)"

definition pa_segment_free :: "'o arena_env \<Rightarrow> uintptr_t \<Rightarrow> 'o pa_segments_tld \<Rightarrow> 'o pa_segments_tld option" where
  "pa_segment_free ar a st =
     (if sg_dont_free (tl_segs st a) then Some st
      else case slices_walk (\<lambda>slc st.
               if pg_block_size (tl_slices st slc) = 0 \<and> sg_kind (tl_segs st a) \<noteq> PA_SEGMENT_HUGE
               then pa_segment_span_remove_from_queue slc st else st) (sg_slice_entries (tl_segs st a)) (a, 0) st of
             None \<Rightarrow> None
           | Some st \<Rightarrow> Some (pa_segment_os_free ar a st))"

section \<open>Abandoning a segment\<close>

definition pa_segment_abandon :: "'o os_env \<Rightarrow> 'o arena_env \<Rightarrow> uintptr_t \<Rightarrow> 'o pa_segments_tld \<Rightarrow> 'o pa_segments_tld option" where
  "pa_segment_abandon env ar a st =
     (case slices_walk (\<lambda>slc st.
            if pg_block_size (tl_slices st slc) = 0
            then set_slice slc (\<lambda>s. s\<lparr>pg_block_size := 0\<rparr>) (pa_segment_span_remove_from_queue slc st) else st)
          (sg_slice_entries (tl_segs st a)) (a, 0) st of
        None \<Rightarrow> None
      | Some st \<Rightarrow>
          let force_purge = (mi_memkind (sg_memid (tl_segs st a)) \<noteq> PA_MEM_ARENA \<or> opt_abandoned_page_purge ar);
              (seg, os) = pa_segment_try_purge env (tl_segs st a) (tl_os st) force_purge;
              st = (set_seg seg st)\<lparr>tl_os := os\<rparr>;
              st = pa_segments_track_size (- sint (pa_segment_size (tl_segs st a))) st;
              st = set_seg ((tl_segs st a)\<lparr>sg_thread_id := 0, sg_abandoned_visits := 1\<rparr>) st;
              st = (if sg_was_reclaimed (tl_segs st a)
                    then (set_seg ((tl_segs st a)\<lparr>sg_was_reclaimed := False\<rparr>) st)\<lparr>tl_reclaim_count := tl_reclaim_count st - 1\<rparr>
                    else st)
          in Some (st\<lparr>tl_os := ar_mark_abandoned ar (tl_os st) a\<rparr>))"

definition pa_segment_page_abandon :: "'o os_env \<Rightarrow> 'o arena_env \<Rightarrow> slice_ref \<Rightarrow> 'o pa_segments_tld \<Rightarrow> 'o pa_segments_tld option" where
  "pa_segment_page_abandon env ar page st =
     (let a = fst page;
          st = set_seg ((tl_segs st a)\<lparr>sg_abandoned := sg_abandoned (tl_segs st a) + 1\<rparr>) st
      in if sg_used (tl_segs st a) = sg_abandoned (tl_segs st a) then pa_segment_abandon env ar a st else Some st)"

section \<open>Freeing a page\<close>

definition clear_page :: "pa_page \<Rightarrow> pa_page" where
  "clear_page page = zero_slice\<lparr>pg_slice_count := pg_slice_count page, pg_slice_offset := pg_slice_offset page,
     pg_is_committed := pg_is_committed page, pg_is_huge := pg_is_huge page, pg_retire_expire := pg_retire_expire page,
     pg_heap_tag := pg_heap_tag page, pg_block_size := 1\<rparr>"

definition pa_segment_page_clear ::
    "'o os_env \<Rightarrow> 'o arena_env \<Rightarrow> slice_ref \<Rightarrow> 'o pa_segments_tld \<Rightarrow> slice_ref \<times> 'o pa_segments_tld" where
  "pa_segment_page_clear env ar page st =
     (let a = fst page;
          st = (if sg_allow_decommit (tl_segs st a) \<and> opt_page_reset ar
                then let (start, psize) = pa_segment_page_start (tl_slices st) page
                     in st\<lparr>tl_os := ar_reset ar (tl_os st) start psize\<rparr>
                else st);
          st = set_slice page clear_page st;
          (slc, st) = pa_segment_span_free_coalesce env page st;
          st = set_seg ((tl_segs st a)\<lparr>sg_used := sg_used (tl_segs st a) - 1, sg_free_is_zero := False\<rparr>) st
      in (slc, st))"

definition pa_segment_page_free :: "'o os_env \<Rightarrow> 'o arena_env \<Rightarrow> slice_ref \<Rightarrow> 'o pa_segments_tld \<Rightarrow> 'o pa_segments_tld option" where
  "pa_segment_page_free env ar page st =
     (let a = fst page;
          st = snd (pa_segment_page_clear env ar page st)
      in if sg_used (tl_segs st a) = 0 then pa_segment_free ar a st
         else if sg_used (tl_segs st a) = sg_abandoned (tl_segs st a) then pa_segment_abandon env ar a st
         else let (seg, os) = pa_segment_try_purge env (tl_segs st a) (tl_os st) False
              in Some ((set_seg seg st)\<lparr>tl_os := os\<rparr>))"

section \<open>Huge pages\<close>

definition pa_segment_huge_page_alloc ::
    "'o os_env \<Rightarrow> 'o arena_env \<Rightarrow> bool \<Rightarrow> size_t \<Rightarrow> size_t \<Rightarrow> int \<Rightarrow> 'o pa_segments_tld \<Rightarrow> slice_ref option \<times> 'o pa_segments_tld" where
  "pa_segment_huge_page_alloc env ar huge_page_abandon sz page_alignment req_arena_id st =
     (let (r, st) = pa_segment_alloc env ar sz page_alignment req_arena_id st
      in case r of Some (a, Some page) \<Rightarrow>
             let st = (if huge_page_abandon then set_seg ((tl_segs st a)\<lparr>sg_thread_id := 0\<rparr>) st else st);
                 (start, psize) = pa_segment_page_start (tl_slices st) page;
                 st = set_slice page (\<lambda>s. s\<lparr>pg_block_size := psize\<rparr>) st;
                 st = (if 0 < page_alignment \<and> sg_allow_decommit (tl_segs st a)
                       then let aligned_p = pa_align_up start page_alignment;
                                decommit_start = start + 8;
                                decommit_size = aligned_p - decommit_start
                            in st\<lparr>tl_os := ar_reset ar (tl_os st) decommit_start decommit_size\<rparr>
                       else st)
             in (Some page, st)
         | _ \<Rightarrow> (None, st))"

section \<open>Contracts of the arena layer\<close>

text \<open>What the segment code relies on: an allocation is aligned, inside the address space and committed when it is reported so; only the
  memory that is given back loses its commit.  \<open>comm\<close> is the set of committed bytes, as for \<open>os_ok\<close>.\<close>

definition arena_ok :: "('o \<Rightarrow> nat set) \<Rightarrow> 'o arena_env \<Rightarrow> bool" where
  "arena_ok comm ar \<longleftrightarrow>
     (\<forall>os sz al ofs c l req r os'. ar_alloc ar os sz al ofs c l req = (r, os') \<longrightarrow> comm os \<subseteq> comm os' \<and>
        (case r of None \<Rightarrow> True | Some (a, memid) \<Rightarrow>
           (ofs = 0 \<longrightarrow> unat a mod unat al = 0) \<and> unat a + unat sz < 2 ^ 64 \<and>
           (mi_initially_committed memid \<longrightarrow> {unat a..<unat a + unat sz} \<subseteq> comm os'))) \<and>
     (\<forall>os a sz csz memid. comm os - {unat a..<unat a + unat sz} \<subseteq> comm (ar_free ar os a sz csz memid)) \<and>
     (\<forall>os a sz. comm os \<subseteq> comm (ar_reset ar os a sz)) \<and>
     (\<forall>os a. comm os \<subseteq> comm (ar_mark_abandoned ar os a)) \<and>
     ar_thread_id ar \<noteq> 0 \<and>
     (let info = snd (pa_segment_calculate_slices (ar_os_page_size ar) (ar_sizeof_segment ar) 0) in 0 < info \<and> info < 512)"

lemma arena_okD:
  assumes "arena_ok comm ar"
  shows "comm os - {unat a..<unat a + unat sz} \<subseteq> comm (ar_free ar os a sz csz memid)"
    "comm os \<subseteq> comm (ar_reset ar os a sz)" "comm os \<subseteq> comm (ar_mark_abandoned ar os a)" "ar_thread_id ar \<noteq> 0"
    "pa_segment_calculate_slices (ar_os_page_size ar) (ar_sizeof_segment ar) 0 = (n, info) \<Longrightarrow> 0 < info \<and> info < 512"
    "ar_alloc ar os sz al ofs c l req = (r, os') \<Longrightarrow> comm os \<subseteq> comm os'"
    "ar_alloc ar os sz al 0 c l req = (Some (b, memid), os') \<Longrightarrow> unat b mod unat al = 0 \<and> unat b + unat sz < 2 ^ 64 \<and>
       (mi_initially_committed memid \<longrightarrow> {unat b..<unat b + unat sz} \<subseteq> comm os')"
  using assms by (auto simp: arena_ok_def Let_def split: option.splits)

definition arena_fresh :: "'o arena_env \<Rightarrow> uintptr_t set \<Rightarrow> 'o \<Rightarrow> bool" where
  "arena_fresh ar S os \<longleftrightarrow>
     (\<forall>sz al ofs c l req a memid os'. ar_alloc ar os sz al ofs c l req = (Some (a, memid), os') \<longrightarrow> a \<notin> S)"

section \<open>Adding and dropping segments\<close>

lemma span_repr_os:
  assumes "span_repr comm st T Q" "comm (tl_os st) \<subseteq> comm os"
  shows "span_repr comm (st\<lparr>tl_os := os\<rparr>) T Q"
proof -
  have "seg_owned comm a seg os" if "seg_owned comm a seg (tl_os st)" for a seg
    using that assms(2) by (auto simp: seg_owned_def seg_inv_def commit_sound_def)
  then show ?thesis using assms(1) by (simp add: span_repr_def)
qed

lemma span_repr_cong:
  assumes "tl_slices st' = tl_slices st" "tl_segs st' = tl_segs st" "tl_spans st' = tl_spans st" "tl_os st' = tl_os st"
  shows "span_repr comm st' T Q = span_repr comm st T Q"
  by (simp add: span_repr_def assms)

lemma track_size_simps [simp]:
  "tl_slices (pa_segments_track_size n st) = tl_slices st" "tl_segs (pa_segments_track_size n st) = tl_segs st"
  "tl_spans (pa_segments_track_size n st) = tl_spans st" "tl_os (pa_segments_track_size n st) = tl_os st"
  by (simp_all add: pa_segments_track_size_def Let_def)

lemma span_repr_drop:
  assumes inv: "span_repr comm st T Q" and T: "T a = Some ts" and nofree: "\<And>k c. (k, c, SFree) \<notin> set ts"
    and same: "tl_slices st' = tl_slices st" "tl_spans st' = tl_spans st" "\<And>a'. a' \<noteq> a \<Longrightarrow> tl_segs st' a' = tl_segs st a'"
    and os: "comm (tl_os st) - seg_bytes a \<subseteq> comm (tl_os st')"
  shows "span_repr comm st' (T(a := None)) Q"
proof -
  note D = span_reprD [OF inv]
  have al: "unat a mod 0x2000000 = 0" using D(1) [OF T] by (simp add: seg_owned_def)
  have "seg_owned comm a' (tl_segs st' a') (tl_os st')" if "a' \<noteq> a" "T a' = Some ts'" for a' ts'
    using seg_owned_other [OF D(1) [OF that(2)] al that(1) os] same(3) [OF that(1)] by simp
  moreover have "(\<exists>ts c. (T(a := None)) a' = Some ts \<and> (i, c, SFree) \<in> set ts \<and> pa_slice_bin c = b) \<longleftrightarrow>
      (\<exists>ts c. T a' = Some ts \<and> (i, c, SFree) \<in> set ts \<and> pa_slice_bin c = b)" for a' i b
    using T nofree by auto
  ultimately show ?thesis using inv same unfolding span_repr_def by (auto split: if_splits)
qed

lemma span_repr_add:
  assumes inv: "span_repr comm st T Q" and T: "T a = None" and n: "0 < n"
    and slices: "\<And>p. fst p \<noteq> a \<Longrightarrow> tl_slices st' p = tl_slices st p"
    and spans: "tl_spans st' = tl_spans st" and segs: "\<And>a'. a' \<noteq> a \<Longrightarrow> tl_segs st' a' = tl_segs st a'"
    and own: "seg_owned comm a (tl_segs st' a) (tl_os st')" "sg_slice_entries (tl_segs st' a) = n"
    and os: "comm (tl_os st) \<subseteq> comm (tl_os st')"
  shows "span_repr comm st' (T(a \<mapsto> [(0, n, STaken)])) Q"
proof -
  note D = span_reprD [OF inv]
  have ne: "a' \<noteq> a" if "T a' = Some ts" for a' ts using T that by auto
  have "seg_owned comm a' (tl_segs st' a') (tl_os st') \<and> spans_from 0 ts (sg_slice_entries (tl_segs st' a')) \<and>
      (\<forall>t \<in> set ts. span_ok (tl_slices st') a' t \<and> span_live (tl_segs st' a') t)" if t: "T a' = Some ts" for a' ts
  proof -
    have "seg_owned comm a' (tl_segs st a') (tl_os st')"
      using D(1) [OF t] os by (auto simp: seg_owned_def seg_inv_def commit_sound_def)
    moreover have "span_ok (tl_slices st') a' u" if u: "u \<in> set ts" for u
    proof -
      obtain k c s where ks: "u = (k, c, s)" by (cases u) auto
      have "span_ok (tl_slices st') a' u = span_ok (tl_slices st) a' u" unfolding ks
        by (rule span_ok_cong) (use slices ne [OF t] span_bounds(1) [OF inv t] u ks in auto)
      then show ?thesis using D(3) [OF t u] by simp
    qed
    ultimately show ?thesis using segs [OF ne [OF t]] D(2) [OF t] D(4) [OF t] by simp
  qed
  moreover have "pages.dll (tl_slices st') (sq_first (tl_spans st' b)) (sq_last (tl_spans st' b)) (Q b)"
    if b: "b \<le> PA_SEGMENT_BIN_MAX" for b
  proof -
    have "tl_slices st' p = tl_slices st p" if p: "p \<in> set (Q b)" for p
    proof -
      obtain a' i where "p = (a', i)" by (cases p) auto
      then show ?thesis using slices [of p] ne span_repr_queue(2) [OF inv b, of a' i] p by auto
    qed
    then show ?thesis using dll_other [OF span_repr_queue(1) [OF inv b]] spans by metis
  qed
  moreover have "(\<exists>ts c. (T(a \<mapsto> [(0, n, STaken)])) a' = Some ts \<and> (i, c, SFree) \<in> set ts \<and> pa_slice_bin c = b) \<longleftrightarrow>
      (\<exists>ts c. T a' = Some ts \<and> (i, c, SFree) \<in> set ts \<and> pa_slice_bin c = b)" for a' i b
    using T by auto
  ultimately show ?thesis using inv own n unfolding span_repr_def
    by (auto simp: span_ok_def span_live_def split: if_splits)
qed

section \<open>Walking over the spans of a segment\<close>

definition taken_span :: "span \<Rightarrow> span" where
  "taken_span = (\<lambda>(k, c, s). (k, c, if s = SFree then STaken else s))"

lemma walk_spans:
  assumes inv: "span_repr comm st T Q" and T: "T a = Some (xs @ ys)" and nt: "not_taken ys" and xs: "spans_from 0 xs i"
    and e: "e = sg_slice_entries (tl_segs st a)"
    and used: "\<And>st slc. pg_block_size (tl_slices st slc) \<noteq> 0 \<Longrightarrow> body slc st = st"
    and free: "\<And>st T Q xs k c ys. span_repr comm st T Q \<Longrightarrow> T a = Some (xs @ (k, c, SFree) # ys) \<Longrightarrow>
       (\<exists>Q'. span_repr comm (body (a, k) st) (T(a \<mapsto> xs @ (k, c, STaken) # ys)) Q') \<and>
       tl_segs (body (a, k) st) = tl_segs st \<and> tl_os (body (a, k) st) = tl_os st \<and>
       pg_slice_count (tl_slices (body (a, k) st) (a, k)) = c"
  shows "\<exists>st' Q'. slices_walk body e (a, i) st = Some st' \<and> span_repr comm st' (T(a \<mapsto> xs @ map taken_span ys)) Q' \<and>
     tl_segs st' = tl_segs st \<and> tl_os st' = tl_os st"
  using inv T nt xs e
proof (induction ys arbitrary: xs i st T Q)
  case Nil
  then have "i = e" using span_reprD(2) [OF Nil.prems(1,2)] spans_from_det by auto
  then have "slices_walk body e (a, i) st = Some st" by (subst slices_walk.simps) simp
  then show ?case using Nil by (auto simp: fun_upd_idem)
next
  case (Cons t ys)
  have ch: "spans_from 0 (xs @ t # ys) e" using span_reprD(2) [OF Cons.prems(1,2)] Cons.prems(5) by simp
  obtain c s where t: "t = (i, c, s)"
    using ch Cons.prems(4) spans_from_det unfolding spans_from_append by (cases t) (metis spans_from.simps(2))
  have mem: "(i, c, s) \<in> set (xs @ t # ys)" using t by simp
  note b = span_bounds [OF Cons.prems(1,2) mem]
  have s: "s \<noteq> STaken" using Cons.prems(3) t by simp
  note S = span_repr_slice [OF Cons.prems(1,2) mem s]
  define t' where "t' = taken_span t"
  have "(\<exists>Q'. span_repr comm (body (a, i) st) (T(a \<mapsto> xs @ t' # ys)) Q') \<and> tl_segs (body (a, i) st) = tl_segs st \<and>
      tl_os (body (a, i) st) = tl_os st \<and> pg_slice_count (tl_slices (body (a, i) st) (a, i)) = c"
  proof (cases "s = SFree")
    case True
    then show ?thesis using free [OF Cons.prems(1), of xs i c ys] Cons.prems(2) t by (simp add: t'_def taken_span_def)
  next
    case False
    then have "body (a, i) st = st" using used S(2) by simp
    then show ?thesis using Cons.prems(1,2) S(1) False t by (auto simp: t'_def taken_span_def fun_upd_idem)
  qed
  then obtain Q1 where st1: "span_repr comm (body (a, i) st) (T(a \<mapsto> xs @ t' # ys)) Q1" "tl_segs (body (a, i) st) = tl_segs st"
    "tl_os (body (a, i) st) = tl_os st" "pg_slice_count (tl_slices (body (a, i) st) (a, i)) = c" by blast
  have T1: "(T(a \<mapsto> xs @ t' # ys)) a = Some ((xs @ [t']) @ ys)" by simp
  have x1: "spans_from 0 (xs @ [t']) (i + c)"
    using Cons.prems(4) t b(1) by (auto simp: spans_from_append t'_def taken_span_def)
  have "\<exists>st' Q'. slices_walk body e (a, i + c) (body (a, i) st) = Some st' \<and>
      span_repr comm st' (T(a \<mapsto> xs @ t' # ys, a \<mapsto> (xs @ [t']) @ map taken_span ys)) Q' \<and>
      tl_segs st' = tl_segs (body (a, i) st) \<and> tl_os st' = tl_os (body (a, i) st)"
    by (rule Cons.IH [OF st1(1) T1 _ x1]) (use Cons.prems(3,5) st1(2) in simp_all)
  then obtain st' Q' where w: "slices_walk body e (a, i + c) (body (a, i) st) = Some st'"
      "span_repr comm st' (T(a \<mapsto> xs @ t' # ys, a \<mapsto> (xs @ [t']) @ map taken_span ys)) Q'"
      "tl_segs st' = tl_segs (body (a, i) st)" "tl_os st' = tl_os (body (a, i) st)"
    by blast
  have "(xs @ [t']) @ map taken_span ys = xs @ map taken_span (t # ys)" by (simp add: t'_def)
  with w(2) have "span_repr comm st' (T(a \<mapsto> xs @ map taken_span (t # ys))) Q'" by (simp only: fun_upd_upd)
  moreover have "slices_walk body e (a, i) st = slices_walk body e (a, i + c) (body (a, i) st)"
    using b(1,2) Cons.prems(5) st1(4) by (subst slices_walk.simps) (simp add: Let_def)
  then have "slices_walk body e (a, i) st = Some st'" using w(1) by simp
  moreover have "tl_segs st' = tl_segs st" "tl_os st' = tl_os st" using w(3,4) st1(2,3) by simp_all
  ultimately show ?case by blast
qed

lemma remove_from_queue_repr:
  assumes inv: "span_repr comm st T Q" and T: "T a = Some (xs @ (k, c, SFree) # ys)"
  shows "(\<exists>Q'. span_repr comm (pa_segment_span_remove_from_queue (a, k) st) (T(a \<mapsto> xs @ (k, c, STaken) # ys)) Q') \<and>
    tl_segs (pa_segment_span_remove_from_queue (a, k) st) = tl_segs st \<and>
    tl_os (pa_segment_span_remove_from_queue (a, k) st) = tl_os st \<and>
    pg_slice_count (tl_slices (pa_segment_span_remove_from_queue (a, k) st) (a, k)) = c"
proof -
  have cnt: "pg_slice_count (tl_slices st (a, k)) = c" using span_repr_slice(1) [OF inv T, of k c SFree] by simp
  have "page_core (tl_slices (pa_span_queue_delete (pa_slice_bin c) (a, k) st) (a, k)) =
      page_core ((tl_slices st (a, k))\<lparr>pg_block_size := 1\<rparr>)"
    by (simp add: span_delete_core page_core_bs)
  from page_core_fields(1) [OF this] show ?thesis
    using span_repr_delete [OF inv T refl] cnt
    by (auto simp: pa_segment_span_remove_from_queue_def pa_span_queue_for_def span_delete_frame(1,2))
qed

lemma remove_and_mark_repr:
  assumes inv: "span_repr comm st T Q" and T: "T a = Some (xs @ (k, c, SFree) # ys)"
  defines "st' \<equiv> set_slice (a, k) (\<lambda>s. s\<lparr>pg_block_size := 0\<rparr>) (pa_segment_span_remove_from_queue (a, k) st)"
  shows "(\<exists>Q'. span_repr comm st' (T(a \<mapsto> xs @ (k, c, STaken) # ys)) Q') \<and>
    tl_segs st' = tl_segs st \<and> tl_os st' = tl_os st \<and> pg_slice_count (tl_slices st' (a, k)) = c"
proof -
  note R = remove_from_queue_repr [OF inv T]
  let ?T = "T(a \<mapsto> xs @ (k, c, STaken) # ys)"
  obtain Q' where Q': "span_repr comm (pa_segment_span_remove_from_queue (a, k) st) ?T Q'" using R by blast
  have c: "0 < c" using span_bounds(1) [OF inv T, of k c SFree] by simp
  have "span_repr comm st' (?T(a \<mapsto> xs @ [(k, c, STaken)] @ ys)) Q'"
    by (rule span_repr_taken [OF Q', of a xs "[(k, c, STaken)]" ys k "k + c"]) (use c in \<open>auto simp: st'_def\<close>)
  then have "span_repr comm st' ?T Q'" by (simp only: fun_upd_upd append.simps)
  moreover have "tl_segs st' = tl_segs st" "tl_os st' = tl_os st" "pg_slice_count (tl_slices st' (a, k)) = c"
    using R by (simp_all add: st'_def)
  ultimately show ?thesis by blast
qed

lemma taken_nofree: "(k, c, SFree) \<notin> set (map taken_span ts)"
  by (auto simp: taken_span_def split: if_splits)

lemma unat_segment_size:
  assumes "seg_owned comm a seg os"
  shows "unat (pa_segment_size seg) = 0x2000000"
  using seg_ownedD(7) [OF assms] unat_slices [of 512] by (simp add: pa_segment_size_def)

lemma span_inv_drop:
  assumes "span_repr comm st (T(a := None)) Q" "\<And>a' ts. T a' = Some ts \<Longrightarrow> a' \<noteq> a \<Longrightarrow> spans_good (sg_used (tl_segs st a')) ts"
  shows "span_inv comm st (T(a := None)) Q"
  using assms by (auto simp: span_inv_def split: if_splits)

lemma segment_free_inv:
  assumes ar: "arena_ok comm ar" and inv: "span_inv comm st T Q" and T: "T a = Some ts" and df: "\<not> sg_dont_free (tl_segs st a)"
  shows "\<exists>st' Q'. pa_segment_free ar a st = Some st' \<and> span_inv comm st' (T(a := None)) Q' \<and> sg_thread_id (tl_segs st' a) = 0"
proof -
  have repr: "span_repr comm st T Q" and good: "\<And>a ts. T a = Some ts \<Longrightarrow> spans_good (sg_used (tl_segs st a)) ts"
    using inv by (auto simp: span_inv_def)
  have kind: "sg_kind (tl_segs st a) \<noteq> PA_SEGMENT_HUGE" "sg_addr (tl_segs st a) = a"
    using seg_ownedD(1,3) [OF span_reprD(1) [OF repr T]] by simp_all
  let ?body = "\<lambda>slc st'. if pg_block_size (tl_slices st' slc) = 0 \<and> sg_kind (tl_segs st' a) \<noteq> PA_SEGMENT_HUGE
               then pa_segment_span_remove_from_queue slc st' else st'"
  have "\<exists>st1 Q1. slices_walk ?body (sg_slice_entries (tl_segs st a)) (a, 0) st = Some st1 \<and>
      span_repr comm st1 (T(a \<mapsto> [] @ map taken_span ts)) Q1 \<and> tl_segs st1 = tl_segs st \<and> tl_os st1 = tl_os st"
  proof (rule walk_spans [OF repr _ _ _ refl])
    show "not_taken ts" using good [OF T] by (simp add: spans_good_def)
    fix st T Q xs k c ys assume r: "span_repr comm st T Q" and T: "T a = Some (xs @ (k, c, SFree) # ys)"
    have "?body (a, k) st = pa_segment_span_remove_from_queue (a, k) st"
      using span_repr_slice(2) [OF r T, of k c SFree] seg_ownedD(3) [OF span_reprD(1) [OF r T]] by simp
    then show "(\<exists>Q'. span_repr comm (?body (a, k) st) (T(a \<mapsto> xs @ (k, c, STaken) # ys)) Q') \<and>
       tl_segs (?body (a, k) st) = tl_segs st \<and> tl_os (?body (a, k) st) = tl_os st \<and>
       pg_slice_count (tl_slices (?body (a, k) st) (a, k)) = c" using remove_from_queue_repr [OF r T] by simp
  qed (use T in simp_all)
  then obtain st1 Q1 where w: "slices_walk ?body (sg_slice_entries (tl_segs st a)) (a, 0) st = Some st1"
    and r1: "span_repr comm st1 (T(a \<mapsto> map taken_span ts)) Q1" and s1: "tl_segs st1 = tl_segs st" "tl_os st1 = tl_os st" by auto
  define st2 where "st2 = pa_segment_os_free ar a st1"
  have E: "pa_segment_free ar a st = Some st2" using df w by (simp add: pa_segment_free_def st2_def)
  have f2: "tl_slices st2 = tl_slices st1" "tl_spans st2 = tl_spans st1" "\<And>a'. a' \<noteq> a \<Longrightarrow> tl_segs st2 a' = tl_segs st1 a'"
    "sg_thread_id (tl_segs st2 a) = 0"
    "\<exists>csz m. tl_os st2 = ar_free ar (tl_os st1) a (pa_segment_size (tl_segs st1 a)) csz m"
    using kind s1 by (auto simp: st2_def pa_segment_os_free_def Let_def pa_segment_size_def)
  have T1: "(T(a \<mapsto> map taken_span ts)) a = Some (map taken_span ts)" by simp
  have "comm (tl_os st1) - seg_bytes a \<subseteq> comm (tl_os st2)"
    using f2(5) arena_okD(1) [OF ar, of "tl_os st1" a "pa_segment_size (tl_segs st1 a)"]
      unat_segment_size [OF span_reprD(1) [OF r1 T1]] unfolding seg_bytes_def by metis
  then have "span_repr comm st2 ((T(a \<mapsto> map taken_span ts))(a := None)) Q1"
    using span_repr_drop [OF r1 T1 taken_nofree, of st2] f2 by blast
  then have "span_repr comm st2 (T(a := None)) Q1" by simp
  then have "span_inv comm st2 (T(a := None)) Q1" by (rule span_inv_drop) (use good f2 s1 in simp)
  then show ?thesis using E f2(4) by blast
qed

lemma segment_abandon_inv:
  assumes ok: "os_ok comm env" and ar: "arena_ok comm ar" and repr: "span_repr comm st T Q" and T: "T a = Some ts" and nt: "not_taken ts"
    and good: "\<And>a' ts. T a' = Some ts \<Longrightarrow> a' \<noteq> a \<Longrightarrow> spans_good (sg_used (tl_segs st a')) ts"
  shows "\<exists>st' Q'. pa_segment_abandon env ar a st = Some st' \<and> span_inv comm st' (T(a := None)) Q' \<and> sg_thread_id (tl_segs st' a) = 0"
proof -
  let ?body = "\<lambda>slc st. if pg_block_size (tl_slices st slc) = 0
            then set_slice slc (\<lambda>s. s\<lparr>pg_block_size := 0\<rparr>) (pa_segment_span_remove_from_queue slc st) else st"
  have "\<exists>st1 Q1. slices_walk ?body (sg_slice_entries (tl_segs st a)) (a, 0) st = Some st1 \<and>
      span_repr comm st1 (T(a \<mapsto> [] @ map taken_span ts)) Q1 \<and> tl_segs st1 = tl_segs st \<and> tl_os st1 = tl_os st"
  proof (rule walk_spans [OF repr _ nt _ refl])
    fix st T Q xs k c ys assume r: "span_repr comm st T Q" and T: "T a = Some (xs @ (k, c, SFree) # ys)"
    have "?body (a, k) st = set_slice (a, k) (\<lambda>s. s\<lparr>pg_block_size := 0\<rparr>) (pa_segment_span_remove_from_queue (a, k) st)"
      using span_repr_slice(2) [OF r T, of k c SFree] by simp
    then show "(\<exists>Q'. span_repr comm (?body (a, k) st) (T(a \<mapsto> xs @ (k, c, STaken) # ys)) Q') \<and>
       tl_segs (?body (a, k) st) = tl_segs st \<and> tl_os (?body (a, k) st) = tl_os st \<and>
       pg_slice_count (tl_slices (?body (a, k) st) (a, k)) = c" using remove_and_mark_repr [OF r T] by presburger
  qed (use T in simp_all)
  then obtain st1 Q1 where w: "slices_walk ?body (sg_slice_entries (tl_segs st a)) (a, 0) st = Some st1"
    and r1: "span_repr comm st1 (T(a \<mapsto> map taken_span ts)) Q1" and s1: "tl_segs st1 = tl_segs st" "tl_os st1 = tl_os st" by auto
  have T1: "(T(a \<mapsto> map taken_span ts)) a = Some (map taken_span ts)" by simp
  note own = span_reprD(1) [OF r1 T1]
  obtain seg os where p: "pa_segment_try_purge env (tl_segs st1 a) (tl_os st1)
      (mi_memkind (sg_memid (tl_segs st1 a)) \<noteq> PA_MEM_ARENA \<or> opt_abandoned_page_purge ar) = (seg, os)" by (meson surj_pair)
  note P = try_purge_span [OF ok own p]
  have a: "sg_addr seg = a" using seg_ownedD(1) [OF P(1)] .
  obtain st2 where E: "pa_segment_abandon env ar a st = Some st2" and f2: "tl_slices st2 = tl_slices st1" "tl_spans st2 = tl_spans st1"
    "\<And>a'. a' \<noteq> a \<Longrightarrow> tl_segs st2 a' = tl_segs st1 a'" "sg_thread_id (tl_segs st2 a) = 0" "tl_os st2 = ar_mark_abandoned ar os a"
  proof
    show "pa_segment_abandon env ar a st = Some (the (pa_segment_abandon env ar a st))"
      by (simp add: pa_segment_abandon_def w p [simplified] Let_def)
  qed (use a in \<open>auto simp: pa_segment_abandon_def w p [simplified] Let_def\<close>)
  have "comm os \<subseteq> comm (ar_mark_abandoned ar os a)" by (rule arena_okD(3) [OF ar])
  then have "comm (tl_os st1) - seg_bytes a \<subseteq> comm (tl_os st2)" using P(3) f2(5) by auto
  then have "span_repr comm st2 ((T(a \<mapsto> map taken_span ts))(a := None)) Q1"
    using span_repr_drop [OF r1 T1 taken_nofree, of st2] f2 by blast
  then have "span_repr comm st2 (T(a := None)) Q1" by simp
  then have "span_inv comm st2 (T(a := None)) Q1" by (rule span_inv_drop) (use good f2 s1 in simp)
  then show ?thesis using E f2(4) by blast
qed

section \<open>Freeing a page\<close>

lemma length_filter_used_split:
  "length (filter P (xs @ y # ys)) = length (filter P xs) + (if P y then 1 else 0) + length (filter P ys)"
  by simp

lemma merge_next_used: "merge_next c ys = (c', ys') \<Longrightarrow> filter (\<lambda>t. snd (snd t) = SUsed) ys' = filter (\<lambda>t. snd (snd t) = SUsed) ys \<and> (not_taken ys \<longrightarrow> not_taken ys')"
  by (cases "(c, ys)" rule: merge_next.cases) auto

lemma merge_prev_used: "merge_prev xs i c = (xs', i', c') \<Longrightarrow> filter (\<lambda>t. snd (snd t) = SUsed) xs' = filter (\<lambda>t. snd (snd t) = SUsed) xs \<and> (not_taken xs \<longrightarrow> not_taken xs')"
  by (rule merge_prev_cases [of xs i c]) auto

lemma merge_spans_good:
  assumes "spans_good (u + 1) (xs @ (i, c, SUsed) # ys)" "xs \<noteq> []"
  shows "spans_good u (merge_spans xs i c ys)"
proof -
  have ap: "apart_free (xs @ (i, c, SUsed) # ys)" and nt: "not_taken xs" "not_taken ys"
    and n: "length (filter (\<lambda>t. snd (snd t) = SUsed) xs) + length (filter (\<lambda>t. snd (snd t) = SUsed) ys) = u + 1"
    using assms(1) by (auto simp: spans_good_def)
  obtain c0 xs0 where xs: "xs = (0, c0, SUsed) # xs0" using assms by (cases xs) (auto simp: spans_good_def)
  obtain c1 ys' where mn: "merge_next c ys = (c1, ys')" by (meson surj_pair)
  obtain xs' i2 c2 where mp: "merge_prev xs i c1 = (xs', i2, c2)" by (metis prod_cases3)
  have E: "merge_spans xs i c ys = xs' @ (i2, c2, SFree) # ys'" using mn mp by (simp add: merge_spans_def)
  have "\<exists>zs. xs' = (0, c0, SUsed) # zs"
  proof (rule merge_prev_cases [of xs i c1])
    fix k c' zs assume z: "xs = zs @ [(k, c', SFree)]" "merge_prev xs i c1 = (zs, k, c1 + c')"
    then show ?thesis using xs mp by (cases zs) auto
  qed (use xs mp in auto)
  then show ?thesis
    using merge_apart [OF ap] E merge_next_used [OF mn] merge_prev_used [OF mp] nt n
    by (auto simp: spans_good_def)
qed

lemma span_live_seg_used [simp]: "span_live (seg\<lparr>sg_used := n, sg_free_is_zero := z\<rparr>) t = span_live seg t"
  by (simp add: span_live_def)

lemma seg_owned_seg_used [simp]: "seg_owned comm a (seg\<lparr>sg_used := n, sg_free_is_zero := z\<rparr>) os = seg_owned comm a seg os"
  by (simp add: seg_owned_def seg_inv_def seg_shape_def seg_masks_def commit_sound_def slice_of_def)

lemma span_repr_seg:
  assumes inv: "span_repr comm st T Q" and T: "T a = Some ts" and own: "seg_owned comm a seg (tl_os st)"
    and ent: "sg_slice_entries seg = sg_slice_entries (tl_segs st a)" and live: "\<And>t. span_live (tl_segs st a) t \<Longrightarrow> span_live seg t"
  shows "span_repr comm (set_seg seg st) T Q"
proof -
  have a: "sg_addr seg = a" using seg_ownedD(1) [OF own] .
  show ?thesis using inv own ent live T unfolding span_repr_def by (simp add: a)
qed

lemma page_clear_repr:
  assumes ok: "os_ok comm env" and ar: "arena_ok comm ar" and inv: "span_inv comm st T Q"
    and T: "T a = Some (xs @ (i, c, SUsed) # ys)" and xs: "xs \<noteq> []"
    and r: "pa_segment_page_clear env ar (a, i) st = (x, st')"
  shows "\<exists>Q'. span_inv comm st' (T(a \<mapsto> merge_spans xs i c ys)) Q'"
    "\<And>a'. a' \<noteq> a \<Longrightarrow> tl_segs st' a' = tl_segs st a'"
    "sg_used (tl_segs st' a) = sg_used (tl_segs st a) - 1" "sg_dont_free (tl_segs st' a) = sg_dont_free (tl_segs st a)"
    "sg_used (tl_segs st a) \<noteq> 0"
proof -
  have repr: "span_repr comm st T Q" and good: "\<And>a ts. T a = Some ts \<Longrightarrow> spans_good (sg_used (tl_segs st a)) ts"
    using inv by (auto simp: span_inv_def)
  have c: "0 < c" using span_bounds(1) [OF repr T, of i c SUsed] by simp
  have cnt: "pg_slice_count (tl_slices st (a, i)) = c" using span_repr_slice(1) [OF repr T, of i c SUsed] by simp
  define st1 where "st1 = (if sg_allow_decommit (tl_segs st a) \<and> opt_page_reset ar
      then let (start, psize) = pa_segment_page_start (tl_slices st) (a, i) in st\<lparr>tl_os := ar_reset ar (tl_os st) start psize\<rparr> else st)"
  have st1: "span_repr comm st1 T Q" "tl_segs st1 = tl_segs st" "tl_slices st1 = tl_slices st"
    using repr span_repr_os [OF repr arena_okD(2) [OF ar]] by (auto simp: st1_def split: prod.split)
  define st2 where "st2 = set_slice (a, i) clear_page st1"
  let ?T = "T(a \<mapsto> xs @ (i, c, STaken) # ys)"
  have "span_repr comm st2 (T(a \<mapsto> xs @ [(i, c, STaken)] @ ys)) Q"
    by (rule span_repr_taken [OF st1(1), of a xs "[(i, c, SUsed)]" ys i "i + c"]) (use T c in \<open>auto simp: st2_def\<close>)
  then have inv2: "span_repr comm st2 ?T Q" by simp
  obtain x3 st3 where co: "pa_segment_span_free_coalesce env (a, i) st2 = (x3, st3)" by (meson surj_pair)
  have cnt2: "pg_slice_count (tl_slices st2 (a, i)) = c" using cnt st1(3) by (simp add: st2_def clear_page_def)
  have nt: "not_taken xs" "not_taken ys" using good [OF T] by (auto simp: spans_good_def)
  have "?T a = Some (xs @ (i, c, STaken) # ys)" by simp
  from free_coalesce_repr [OF ok inv2 this nt cnt2 co, unfolded fun_upd_upd] obtain Q3
    where r3: "span_repr comm st3 (T(a \<mapsto> merge_spans xs i c ys)) Q3" and o3: "only_seg a st2 st3" by blast
  have E: "st' = set_seg ((tl_segs st3 a)\<lparr>sg_used := sg_used (tl_segs st3 a) - 1, sg_free_is_zero := False\<rparr>) st3"
    using r co by (simp add: pa_segment_page_clear_def Let_def st1_def [symmetric] st2_def [symmetric])
  have T3: "(T(a \<mapsto> merge_spans xs i c ys)) a = Some (merge_spans xs i c ys)" by simp
  have own: "seg_owned comm a (tl_segs st3 a) (tl_os st3)" by (rule span_reprD(1) [OF r3 T3])
  have r': "span_repr comm st' (T(a \<mapsto> merge_spans xs i c ys)) Q3"
    unfolding E by (rule span_repr_seg [OF r3 T3]) (use own in simp_all)
  have s2: "tl_segs st2 = tl_segs st" using st1(2) by (simp add: st2_def)
  have f3: "sg_used (tl_segs st3 a') = sg_used (tl_segs st a')" "sg_dont_free (tl_segs st3 a') = sg_dont_free (tl_segs st a')" for a'
    using only_seg_fields [OF o3, of a'] s2 by simp_all
  show oth: "tl_segs st' a' = tl_segs st a'" if "a' \<noteq> a" for a'
    using that o3 s2 seg_ownedD(1) [OF own] by (simp add: E only_seg_def)
  show used: "sg_used (tl_segs st' a) = sg_used (tl_segs st a) - 1" "sg_dont_free (tl_segs st' a) = sg_dont_free (tl_segs st a)"
    using f3 [of a] seg_ownedD(1) [OF own] by (simp_all add: E)
  have g: "spans_good (sg_used (tl_segs st a)) (xs @ (i, c, SUsed) # ys)" by (rule good [OF T])
  show u: "sg_used (tl_segs st a) \<noteq> 0" using g xs by (cases xs) (auto simp: spans_good_def)
  have "spans_good (sg_used (tl_segs st' a)) (merge_spans xs i c ys)"
    by (rule merge_spans_good [OF _ xs]) (use g u used in simp)
  then show "\<exists>Q'. span_inv comm st' (T(a \<mapsto> merge_spans xs i c ys)) Q'"
    using r' good oth by (auto simp: span_inv_def)
qed

lemma try_purge_repr:
  assumes ok: "os_ok comm env" and inv: "span_inv comm st T Q" and T: "T a = Some ts"
    and p: "pa_segment_try_purge env (tl_segs st a) (tl_os st) force = (seg, os)"
  shows "span_inv comm ((set_seg seg st)\<lparr>tl_os := os\<rparr>) T Q \<and> sg_thread_id (tl_segs ((set_seg seg st)\<lparr>tl_os := os\<rparr>) a) \<noteq> 0"
proof -
  have repr: "span_repr comm st T Q" and good: "\<And>a ts. T a = Some ts \<Longrightarrow> spans_good (sg_used (tl_segs st a)) ts"
    using inv by (auto simp: span_inv_def)
  note D = span_reprD [OF repr]
  note P = try_purge_span [OF ok D(1) [OF T] p]
  have a: "sg_addr seg = a" using seg_ownedD(1) [OF P(1)] .
  have ent: "sg_slice_entries seg = sg_slice_entries (tl_segs st a)" using same_frame_fields [OF P(2)] by simp
  have "span_repr comm ((set_seg seg st)\<lparr>tl_os := os\<rparr>) T Q"
    unfolding span_repr_def
  proof (intro conjI allI impI)
    fix a' ts' assume T': "T a' = Some ts'"
    show "seg_owned comm a' (tl_segs ((set_seg seg st)\<lparr>tl_os := os\<rparr>) a') (tl_os ((set_seg seg st)\<lparr>tl_os := os\<rparr>))"
    proof (cases "a' = a")
      case False
      have "seg_owned comm a' (tl_segs st a') os"
        by (rule seg_owned_other [OF D(1) [OF T'] _ False P(3)]) (use D(1) [OF T] in \<open>simp add: seg_owned_def\<close>)
      then show ?thesis using False a by simp
    qed (use P(1) a in simp)
    show "spans_from 0 ts' (sg_slice_entries (tl_segs ((set_seg seg st)\<lparr>tl_os := os\<rparr>) a'))"
      using D(2) [OF T'] ent a by (cases "a' = a") simp_all
    show "\<forall>t \<in> set ts'. span_ok (tl_slices ((set_seg seg st)\<lparr>tl_os := os\<rparr>)) a' t \<and> span_live (tl_segs ((set_seg seg st)\<lparr>tl_os := os\<rparr>) a') t"
      using D(3,4) [OF T'] P(4) a by (cases "a' = a") simp_all
  qed (use span_repr_queue [OF repr] in \<open>auto\<close>)
  then show ?thesis using good same_frame_fields [OF P(2)] a seg_ownedD(4) [OF P(1)] by (simp add: span_inv_def)
qed

lemma page_free_inv:
  assumes ok: "os_ok comm env" and ar: "arena_ok comm ar" and inv: "span_inv comm st T Q"
    and T: "T a = Some (xs @ (i, c, SUsed) # ys)" and xs: "xs \<noteq> []"
  shows "\<exists>st' Q'. pa_segment_page_free env ar (a, i) st = Some st' \<and>
    (sg_thread_id (tl_segs st' a) \<noteq> 0 \<and> span_inv comm st' (T(a \<mapsto> merge_spans xs i c ys)) Q' \<or>
     sg_thread_id (tl_segs st' a) = 0 \<and> span_inv comm st' (T(a := None)) Q')"
proof -
  obtain x st1 where r: "pa_segment_page_clear env ar (a, i) st = (x, st1)" by (meson surj_pair)
  note C = page_clear_repr [OF ok ar inv T xs r]
  let ?T = "T(a \<mapsto> merge_spans xs i c ys)"
  obtain Q1 where i1: "span_inv comm st1 ?T Q1" using C(1) by blast
  have r1: "span_repr comm st1 ?T Q1" and good1: "\<And>a ts. ?T a = Some ts \<Longrightarrow> spans_good (sg_used (tl_segs st1 a)) ts"
    using i1 by (auto simp: span_inv_def)
  have T1: "?T a = Some (merge_spans xs i c ys)" by simp
  have own: "seg_owned comm a (tl_segs st1 a) (tl_os st1)" by (rule span_reprD(1) [OF r1 T1])
  show ?thesis
  proof (cases "sg_used (tl_segs st1 a) = 0")
    case used: True
    show ?thesis
    proof (cases "sg_dont_free (tl_segs st1 a)")
      case True
      then have "pa_segment_page_free env ar (a, i) st = Some st1"
        using used r by (simp add: pa_segment_page_free_def pa_segment_free_def Let_def)
      then show ?thesis using i1 seg_ownedD(4) [OF own] by blast
    next
      case False
      from segment_free_inv [OF ar i1 T1 False, unfolded fun_upd_upd] show ?thesis
        using used r by (auto simp: pa_segment_page_free_def Let_def)
    qed
  next
    case used: False
    show ?thesis
    proof (cases "sg_used (tl_segs st1 a) = sg_abandoned (tl_segs st1 a)")
      case True
      have "not_taken (merge_spans xs i c ys)" using good1 [OF T1] by (simp add: spans_good_def)
      from segment_abandon_inv [OF ok ar r1 T1 this good1, unfolded fun_upd_upd] show ?thesis
        using used True r by (auto simp: pa_segment_page_free_def Let_def)
    next
      case False
      obtain seg os where p: "pa_segment_try_purge env (tl_segs st1 a) (tl_os st1) False = (seg, os)" by (meson surj_pair)
      have E: "pa_segment_page_free env ar (a, i) st = Some ((set_seg seg st1)\<lparr>tl_os := os\<rparr>)"
        using used False r p by (simp add: pa_segment_page_free_def Let_def)
      from try_purge_repr [OF ok i1 T1 p] show ?thesis using E by blast
    qed
  qed
qed

section \<open>Adding a segment\<close>

lemma calculate_slices_normal: "fst (pa_segment_calculate_slices ps ss 0) = 512"
  by (simp add: pa_segment_calculate_slices_def Let_def size_consts)

lemma divide_up_slices: "info \<le> 512 \<Longrightarrow> unat (pa_divide_up (of_nat info * PA_SEGMENT_SLICE_SIZE) PA_COMMIT_SIZE) = info"
proof -
  assume i: "info \<le> 512"
  have "unat (of_nat info * PA_SEGMENT_SLICE_SIZE) = info * 65536" by (rule unat_slices [OF i])
  then have "unat (of_nat info * PA_SEGMENT_SLICE_SIZE + PA_COMMIT_SIZE - 1) = info * 65536 + 65535"
    using i by (simp add: size_consts unat_add_no_wrap add_diff_eq [symmetric])
  then show "unat (pa_divide_up (of_nat info * PA_SEGMENT_SLICE_SIZE) PA_COMMIT_SIZE) = info"
    by (simp add: pa_divide_up_def size_consts unat_div)
qed

lemma zero_info_simps [simp]:
  "fst p \<noteq> a \<Longrightarrow> tl_slices (zero_segment_info a n st) p = tl_slices st p"
  "tl_spans (zero_segment_info a n st) = tl_spans st" "tl_os (zero_segment_info a n st) = tl_os st"
  by (cases p; simp add: zero_segment_info_def)+

lemma zero_info_segs:
  "tl_segs (zero_segment_info a n st) = (tl_segs st)(a := (tl_segs st a)\<lparr>sg_addr := a, sg_was_reclaimed := False, sg_dont_free := False,
     sg_free_is_zero := False, sg_abandoned := 0, sg_abandoned_visits := 0, sg_used := 0, sg_segment_slices := 0,
     sg_segment_info_slices := 0, sg_kind := PA_SEGMENT_NORMAL, sg_slice_entries := 0, sg_thread_id := 0\<rparr>)"
  by (simp add: zero_segment_info_def)

lemma segment_os_alloc_cases:
  assumes r: "pa_segment_os_alloc env ar 0 0 eager_delayed req 512 info commit st = (r, st')" and i: "info \<le> 512"
  defines "sz \<equiv> of_nat 512 * PA_SEGMENT_SLICE_SIZE"
  obtains (no_memory) os1 where "r = None" "st' = st\<lparr>tl_os := os1\<rparr>"
      "ar_alloc ar (tl_os st) sz PA_SEGMENT_SIZE 0 commit (\<not> eager_delayed) req = (None, os1)"
    | (no_commit) a memid os1 os2 z where "r = None" "st' = st\<lparr>tl_os := ar_free ar os2 a sz 0 memid\<rparr>"
      "ar_alloc ar (tl_os st) sz PA_SEGMENT_SIZE 0 commit (\<not> eager_delayed) req = (Some (a, memid), os1)"
      "os_commit env os1 a (of_nat info * PA_SEGMENT_SLICE_SIZE) = (False, z, os2)" "\<not> mi_initially_committed memid"
    | (fresh) a memid os1 os2 cm seg where "r = Some (a, 512, info)" "tl_os st' = os2" "tl_spans st' = tl_spans st"
      "ar_alloc ar (tl_os st) sz PA_SEGMENT_SIZE 0 commit (\<not> eager_delayed) req = (Some (a, memid), os1)"
      "mi_initially_committed memid \<and> os2 = os1 \<and> cm = pa_commit_mask_create_full \<or>
        (\<exists>z. os_commit env os1 a (of_nat info * PA_SEGMENT_SLICE_SIZE) = (True, z, os2)) \<and> cm = pa_commit_mask_create 0 info"
      "\<And>p. fst p \<noteq> a \<Longrightarrow> tl_slices st' p = tl_slices st p" "tl_segs st' = (tl_segs st)(a := seg)"
      "sg_addr seg = a" "sg_memid seg = memid" "sg_commit_mask seg = cm" "sg_purge_mask seg = pa_commit_mask_create_empty"
      "mi_initially_zero memid \<Longrightarrow> sg_used seg = 0"
proof -
  obtain ra os1 where al: "ar_alloc ar (tl_os st) sz PA_SEGMENT_SIZE 0 commit (\<not> eager_delayed) req = (ra, os1)" by (meson surj_pair)
  show ?thesis
  proof (cases ra)
    case None
    then have "r = None" "st' = st\<lparr>tl_os := os1\<rparr>" using r al by (auto simp add: pa_segment_os_alloc_def sz_def Let_def)
    then show ?thesis using al None by (intro no_memory) simp_all
  next
    case (Some am)
    obtain a memid where am: "am = (a, memid)" by (cases am) auto
    note needed = divide_up_slices [OF i]
    have cs: "PA_COMMIT_SIZE = PA_SEGMENT_SLICE_SIZE" by (simp add: size_consts)
    define co where "co = (if mi_initially_committed memid then (True, pa_commit_mask_create_full, os1)
        else let (ok, z, os) = os_commit env os1 a (of_nat info * PA_SEGMENT_SLICE_SIZE) in (ok, pa_commit_mask_create 0 info, os))"
    obtain ok' cm os2 where co': "co = (ok', cm, os2)" by (metis prod_cases3)
    define st2 where "st2 = (if mi_initially_zero memid then zero_segment_info a 512 (st\<lparr>tl_os := os2\<rparr>) else st\<lparr>tl_os := os2\<rparr>)"
    define seg where "seg = (tl_segs st2 a)\<lparr>sg_addr := a, sg_memid := memid,
                           sg_allow_decommit := \<not> mi_is_pinned memid,
                           sg_allow_purge := \<not> mi_is_pinned memid \<and> 0 \<le> opt_purge_delay env,
                           sg_segment_size := sz, sg_commit_mask := cm, sg_purge_expire := 0,
                           sg_free_is_zero := mi_initially_zero memid, sg_purge_mask := pa_commit_mask_create_empty\<rparr>"
    have E: "(r, st') = (if \<not> ok' then (None, st\<lparr>tl_os := ar_free ar os2 a sz 0 memid\<rparr>)
        else (Some (a, 512, info), pa_segments_track_size (sint sz) (set_seg seg st2)))"
    proof -
      have "(r, st') = (case co of (ok, commit_mask, os) \<Rightarrow> if \<not> ok then (None, st\<lparr>tl_os := ar_free ar os a sz 0 memid\<rparr>)
          else let st = st\<lparr>tl_os := os\<rparr>;
                   st = (if mi_initially_zero memid then zero_segment_info a 512 st else st);
                   seg = (tl_segs st a)\<lparr>sg_addr := a, sg_memid := memid,
                           sg_allow_decommit := \<not> mi_is_pinned memid,
                           sg_allow_purge := \<not> mi_is_pinned memid \<and> 0 \<le> opt_purge_delay env,
                           sg_segment_size := sz, sg_commit_mask := commit_mask, sg_purge_expire := 0,
                           sg_free_is_zero := mi_initially_zero memid, sg_purge_mask := pa_commit_mask_create_empty\<rparr>
               in (Some (a, 512, info), pa_segments_track_size (sint sz) (set_seg seg st)))"
      proof (cases "mi_initially_committed memid")
        case True
        then show ?thesis using r [symmetric] al Some am by (simp add: pa_segment_os_alloc_def sz_def Let_def co_def)
      next
        case False
        obtain ok1 z1 osx where "os_commit env os1 a (of_nat info * PA_SEGMENT_SLICE_SIZE) = (ok1, z1, osx)" by (metis prod_cases3)
        then show ?thesis using False r [symmetric] al Some am needed
          by (simp add: pa_segment_os_alloc_def sz_def Let_def co_def cs)
      qed
      then show ?thesis unfolding co' prod.case Let_def st2_def [symmetric] seg_def [symmetric] .
    qed
    show ?thesis
    proof (cases ok')
      case False
      then obtain z where "os_commit env os1 a (of_nat info * PA_SEGMENT_SLICE_SIZE) = (False, z, os2)" "\<not> mi_initially_committed memid"
        using co' by (auto simp: co_def split: if_splits prod.splits)
      then show ?thesis using E False al Some am no_commit by simp
    next
      case True
      have st2: "\<And>p. fst p \<noteq> a \<Longrightarrow> tl_slices st2 p = tl_slices st p" "tl_spans st2 = tl_spans st" "tl_os st2 = os2"
        "\<And>b. b \<noteq> a \<Longrightarrow> tl_segs st2 b = tl_segs st b" "mi_initially_zero memid \<Longrightarrow> sg_used (tl_segs st2 a) = 0"
        by (auto simp: st2_def zero_info_segs)
      have "mi_initially_committed memid \<and> os2 = os1 \<and> cm = pa_commit_mask_create_full \<or>
        (\<exists>z. os_commit env os1 a (of_nat info * PA_SEGMENT_SLICE_SIZE) = (True, z, os2)) \<and> cm = pa_commit_mask_create 0 info"
        using co' True by (auto simp: co_def split: if_splits prod.splits)
      moreover have "tl_segs st' = (tl_segs st)(a := seg)"
        using E True st2(4) by (auto simp: seg_def fun_eq_iff)
      ultimately show ?thesis using E True al Some am st2
        by (intro fresh [of a os2 memid os1 cm seg]) (simp_all add: seg_def)
    qed
  qed
qed

lemma span_repr_other_os:
  assumes inv: "span_repr comm st T Q" and T: "T a = None" "unat a mod 0x2000000 = 0" and os: "comm (tl_os st) - seg_bytes a \<subseteq> comm os'"
  shows "span_repr comm (st\<lparr>tl_os := os'\<rparr>) T Q"
proof -
  have "seg_owned comm a' (tl_segs st a') os'" if "T a' = Some ts" for a' ts
    by (rule seg_owned_other [OF span_reprD(1) [OF inv that] T(2) _ os]) (use T(1) that in auto)
  then show ?thesis using inv unfolding span_repr_def by simp
qed

lemma fresh_masks:
  assumes ok: "os_ok comm env" and info: "info \<le> 512" and sh: "seg_shape seg" and a: "sg_addr seg = a"
    and cm: "mi_initially_committed memid \<and> os2 = os1 \<and> sg_commit_mask seg = pa_commit_mask_create_full \<or>
        (\<exists>z. os_commit env os1 a (of_nat info * PA_SEGMENT_SLICE_SIZE) = (True, z, os2)) \<and> sg_commit_mask seg = pa_commit_mask_create 0 info"
    and pm: "sg_purge_mask seg = pa_commit_mask_create_empty"
    and init: "mi_initially_committed memid \<Longrightarrow> {unat a..<unat a + 0x2000000} \<subseteq> comm os1"
  shows "seg_inv comm seg os2" "comm os1 \<subseteq> comm os2"
proof -
  have create: "cm_inv (pa_commit_mask_create 0 info)" "bits_of (pa_commit_mask_create 0 info) = {0..<info}"
    using cm_create [of 0 info] info by auto
  have m: "seg_masks seg" using cm pm create by (auto simp: seg_masks_def cm.paired_iff cm.paired_def)
  have "commit_sound comm seg os2 \<and> comm os1 \<subseteq> comm os2"
  proof (cases "mi_initially_committed memid \<and> os2 = os1 \<and> sg_commit_mask seg = pa_commit_mask_create_full")
    case True
    have "b \<in> comm os2" if "unat a \<le> b" "slice_of seg b \<in> bits_of (sg_commit_mask seg)" for b
    proof -
      have "b \<in> seg_bytes a" by (rule slice_bytes [OF a that(1)]) (use True that(2) in simp)
      then show ?thesis using True init by (auto simp: seg_bytes_def)
    qed
    then show ?thesis using True a by (simp add: commit_sound_def)
  next
    case False
    then obtain z where c: "os_commit env os1 a (of_nat info * PA_SEGMENT_SLICE_SIZE) = (True, z, os2)"
      and cmk: "sg_commit_mask seg = pa_commit_mask_create 0 info" using cm by auto
    have u: "unat (of_nat info * PA_SEGMENT_SLICE_SIZE) = info * 65536" by (rule unat_slices [OF info])
    note C = os_commitD [OF ok c]
    have "b \<in> comm os2" if b: "unat a \<le> b" "slice_of seg b \<in> bits_of (sg_commit_mask seg)" for b
    proof -
      have "(b - unat a) div 65536 < info" using b cmk create(2) a by (simp add: slice_of_def)
      then have "b - unat a < info * 65536" by (subst (asm) div_less_iff_less_mult) simp_all
      then have "b \<in> {unat a..<unat a + info * 65536}" using b(1) by simp
      then show ?thesis using C u by auto
    qed
    then show ?thesis using C a by (auto simp: commit_sound_def)
  qed
  then show "seg_inv comm seg os2" "comm os1 \<subseteq> comm os2" using sh m by (simp_all add: seg_inv_def)
qed

text \<open>The two ways the surroundings can refuse memory, and what it is for the allocation of a segment to be refused: its request to the arena layer
  fails, or the memory that it gets is not committed and the commit of the slices for the segment information fails.\<close>

definition arena_refuses :: "'o arena_env \<Rightarrow> bool" where
  "arena_refuses ar \<longleftrightarrow> (\<exists>os sz al ofs c l req os'. ar_alloc ar os sz al ofs c l req = (None, os'))"

definition commit_refused :: "'o os_env \<Rightarrow> bool" where
  "commit_refused env \<longleftrightarrow> (\<exists>os p sz z os'. os_commit env os p sz = (False, z, os'))"

definition segment_refused :: "'o os_env \<Rightarrow> 'o arena_env \<Rightarrow> int \<Rightarrow> 'o pa_segments_tld \<Rightarrow> bool" where
  "segment_refused env ar req st \<longleftrightarrow>
     (let info = snd (pa_segment_calculate_slices (ar_os_page_size ar) (ar_sizeof_segment ar) 0);
          eager_delayed = (1 < ar_thread_count ar \<and> tl_peak_count st < opt_eager_commit_delay ar);
          commit = (\<not> eager_delayed \<and> opt_eager_commit ar)
      in case ar_alloc ar (tl_os st) PA_SEGMENT_SIZE PA_SEGMENT_SIZE 0 commit (\<not> eager_delayed) req of
           (None, os1) \<Rightarrow> True
         | (Some (a, memid), os1) \<Rightarrow>
             \<not> mi_initially_committed memid \<and> \<not> fst (os_commit env os1 a (of_nat info * PA_SEGMENT_SLICE_SIZE)))"

lemma segment_refusedD: "segment_refused env ar req st \<Longrightarrow> arena_refuses ar \<or> commit_refused env"
proof -
  let ?sz = PA_SEGMENT_SIZE and ?c = "\<not> (1 < ar_thread_count ar \<and> tl_peak_count st < opt_eager_commit_delay ar)"
  assume s: "segment_refused env ar req st"
  obtain r os1 where r: "ar_alloc ar (tl_os st) ?sz ?sz 0 (?c \<and> opt_eager_commit ar) ?c req = (r, os1)" by (meson surj_pair)
  show ?thesis
  proof (cases r)
    case None
    then show ?thesis using r unfolding arena_refuses_def by blast
  next
    case (Some am)
    obtain a memid where am: "am = (a, memid)" by (cases am) auto
    let ?i = "of_nat (snd (pa_segment_calculate_slices (ar_os_page_size ar) (ar_sizeof_segment ar) 0)) * PA_SEGMENT_SLICE_SIZE"
    obtain b z os2 where c: "os_commit env os1 a ?i = (b, z, os2)" by (metis prod_cases3)
    have "\<not> b" using s c unfolding segment_refused_def Let_def r Some am by simp
    then have "os_commit env os1 a ?i = (False, z, os2)" using c by simp
    then have "commit_refused env" unfolding commit_refused_def by (intro exI)
    then show ?thesis ..
  qed
qed

lemma segment_alloc_inv:
  assumes ok: "os_ok comm env" and ar: "arena_ok comm ar" and inv: "span_inv comm st T Q"
    and fresh: "arena_fresh ar (dom T) (tl_os st)" and r: "pa_segment_alloc env ar 0 0 req st = (r, st')"
  shows "(r = None \<and> (\<exists>Q'. span_inv comm st' T Q') \<and> segment_refused env ar req st) \<or>
    (\<exists>a info Q'. r = Some (a, None) \<and> T a = None \<and>
       (\<exists>os os' c l memid. ar_alloc ar os (of_nat 512 * PA_SEGMENT_SLICE_SIZE) PA_SEGMENT_SIZE 0 c l req = (Some (a, memid), os') \<and>
          sg_memid (tl_segs st' a) = memid) \<and> 0 < info \<and> info < 512 \<and>
       info = snd (pa_segment_calculate_slices (ar_os_page_size ar) (ar_sizeof_segment ar) 0) \<and>
       span_inv comm st' (T(a \<mapsto> [(0, info, SUsed), (info, 512 - info, SFree)])) Q')"
proof -
  have repr: "span_repr comm st T Q" and good: "\<And>a ts. T a = Some ts \<Longrightarrow> spans_good (sg_used (tl_segs st a)) ts"
    using inv by (auto simp: span_inv_def)
  obtain n info where cs: "pa_segment_calculate_slices (ar_os_page_size ar) (ar_sizeof_segment ar) 0 = (n, info)" by (meson surj_pair)
  have n: "n = 512" using cs calculate_slices_normal [of "ar_os_page_size ar" "ar_sizeof_segment ar"] by simp
  have info: "0 < info" "info < 512" using arena_okD(5) [OF ar cs] by simp_all
  define ed where "ed = (1 < ar_thread_count ar \<and> tl_peak_count st < opt_eager_commit_delay ar)"
  define commit where "commit = (\<not> ed \<and> opt_eager_commit ar)"
  have usz: "unat (of_nat 512 * PA_SEGMENT_SLICE_SIZE :: size_t) = 0x2000000" using unat_slices [of 512] by simp
  have all_slices: "(of_nat 512 * PA_SEGMENT_SLICE_SIZE :: size_t) = PA_SEGMENT_SIZE" by (simp add: size_consts)
  obtain r1 st1 where os: "pa_segment_os_alloc env ar 0 0 ed req 512 info commit st = (r1, st1)" by (meson surj_pair)
  have al: "unat a mod 0x2000000 = 0 \<and> unat a + 0x2000000 < 2 ^ 64 \<and> T a = None \<and> comm (tl_os st) \<subseteq> comm os1 \<and>
      (mi_initially_committed memid \<longrightarrow> {unat a..<unat a + 0x2000000} \<subseteq> comm os1)"
    if "ar_alloc ar (tl_os st) (of_nat 512 * PA_SEGMENT_SLICE_SIZE) PA_SEGMENT_SIZE 0 commit (\<not> ed) req = (Some (a, memid), os1)" for a memid os1
  proof -
    have "a \<notin> dom T" using fresh that unfolding arena_fresh_def by blast
    moreover have "unat PA_SEGMENT_SIZE = 0x2000000" by (simp add: PA_SEGMENT_SIZE_def)
    ultimately show ?thesis using arena_okD(6,7) [OF ar that] usz by auto
  qed
  have E: "pa_segment_alloc env ar 0 0 req st =
      (case r1 of None \<Rightarrow> (None, st1)
         | Some (a, segment_slices, info_slices) \<Rightarrow>
             let st = (if \<not> mi_initially_zero (sg_memid (tl_segs st1 a)) then zero_segment_info a segment_slices st1 else st1);
                 slice_entries = (if PA_SLICES_PER_SEGMENT < segment_slices then PA_SLICES_PER_SEGMENT else segment_slices);
                 st = set_seg ((tl_segs st a)\<lparr>sg_segment_slices := segment_slices, sg_segment_info_slices := info_slices,
                        sg_thread_id := ar_thread_id ar, sg_slice_entries := slice_entries,
                        sg_kind := PA_SEGMENT_NORMAL, sg_purge_delay_ms := opt_purge_delay env\<rparr>) st;
                 (page0, st) = pa_segment_span_allocate env a 0 info_slices st
             in if page0 = None then (None, st)
                else let st = set_seg ((tl_segs st a)\<lparr>sg_used := 0\<rparr>) st
                     in (Some (a, None), pa_segment_span_free env a info_slices (slice_entries - info_slices) False st))"
  proof -
    have c: "((\<not> ed \<and> opt_eager_commit ar) \<or> (0 :: size_t) < 0) = commit" by (simp add: commit_def)
    show ?thesis
      by (simp only: pa_segment_alloc_def cs prod.case n Let_def ed_def [symmetric] c os if_True simp_thms)
  qed
  show ?thesis
    using os less_imp_le [OF info(2)]
  proof (cases rule: segment_os_alloc_cases)
    case (no_memory os1)
    then have "r = None" "st' = st\<lparr>tl_os := os1\<rparr>" using r E by auto
    moreover have "span_repr comm (st\<lparr>tl_os := os1\<rparr>) T Q" by (rule span_repr_os [OF repr arena_okD(6) [OF ar no_memory(3)]])
    moreover have "segment_refused env ar req st"
      unfolding segment_refused_def Let_def ed_def [symmetric] commit_def [symmetric] no_memory(3) [unfolded all_slices] by simp
    ultimately show ?thesis using good by (auto simp: span_inv_def)
  next
    case (no_commit a memid os1 os2 z)
    note A = al [OF no_commit(3)]
    have "comm (tl_os st) - seg_bytes a \<subseteq> comm (ar_free ar os2 a (of_nat 512 * PA_SEGMENT_SLICE_SIZE) 0 memid)"
    proof -
      have "comm os1 \<subseteq> comm os2" by (rule os_commitD(1) [OF ok no_commit(4)])
      moreover have "comm os2 - seg_bytes a \<subseteq> comm (ar_free ar os2 a (of_nat 512 * PA_SEGMENT_SLICE_SIZE) 0 memid)"
        using arena_okD(1) [OF ar, of os2 a "of_nat 512 * PA_SEGMENT_SLICE_SIZE"] unfolding usz seg_bytes_def by blast
      ultimately show ?thesis using A by blast
    qed
    from span_repr_other_os [OF repr _ _ this] have "span_repr comm st1 T Q" using A no_commit(2) by simp
    moreover have "r = None" "st' = st1" using r E no_commit(1) by auto
    moreover have "segment_refused env ar req st"
      unfolding segment_refused_def Let_def ed_def [symmetric] commit_def [symmetric] no_commit(3) [unfolded all_slices] cs using no_commit(4,5) by simp
    ultimately show ?thesis using good no_commit(2) by (auto simp: span_inv_def)
  next
    case (fresh a memid os1 os2 cm seg)
    note A = al [OF fresh(4)]
    define st2 where "st2 = (if \<not> mi_initially_zero (sg_memid (tl_segs st1 a)) then zero_segment_info a 512 st1 else st1)"
    define seg3 where "seg3 = (tl_segs st2 a)\<lparr>sg_segment_slices := 512, sg_segment_info_slices := info,
                        sg_thread_id := ar_thread_id ar, sg_slice_entries := 512,
                        sg_kind := PA_SEGMENT_NORMAL, sg_purge_delay_ms := opt_purge_delay env\<rparr>"
    define st3 where "st3 = set_seg seg3 st2"
    have seg3: "sg_addr seg3 = a" "sg_commit_mask seg3 = cm" "sg_purge_mask seg3 = pa_commit_mask_create_empty"
      "sg_kind seg3 = PA_SEGMENT_NORMAL" "sg_segment_slices seg3 = 512" "sg_segment_info_slices seg3 = info"
      "sg_thread_id seg3 \<noteq> 0" "sg_slice_entries seg3 = 512"
      using fresh arena_okD(4) [OF ar] by (simp_all add: seg3_def st2_def zero_info_segs)
    have s3: "\<And>p. fst p \<noteq> a \<Longrightarrow> tl_slices st3 p = tl_slices st p" "tl_spans st3 = tl_spans st" "tl_os st3 = os2"
      "\<And>b. b \<noteq> a \<Longrightarrow> tl_segs st3 b = tl_segs st b" "tl_segs st3 a = seg3"
      using fresh seg3(1) by (auto simp: st3_def st2_def zero_info_segs)
    have shape: "seg_shape seg3" using seg3 info A by (simp add: seg_shape_def)
    have "seg_inv comm seg3 os2 \<and> comm os1 \<subseteq> comm os2"
      using fresh_masks [OF ok _ shape seg3(1) _ seg3(3), of info memid os2 os1] fresh(5) seg3(2) info A by simp
    then have own: "seg_owned comm a seg3 os2" "comm (tl_os st) \<subseteq> comm os2"
      using seg3 A by (auto simp: seg_owned_def)
    have "span_repr comm st3 (T(a \<mapsto> [(0, 512, STaken)])) Q"
      by (rule span_repr_add [OF repr]) (use A s3 own seg3 in auto)
    then have "span_repr comm st3 ((T(a \<mapsto> [(0, 512, STaken)]))(a \<mapsto> [] @ [(0, info, STaken), (info, 512 - info, STaken)] @ [])) Q"
      by (rule span_repr_taken [of _ _ _ _ a "[]" "[(0, 512, STaken)]" "[]" 0 512]) (use info in auto)
    then have r3: "span_repr comm st3 (T(a \<mapsto> [] @ (0, info, STaken) # [(info, 512 - info, STaken)])) Q" by simp
    obtain page0 st4 where al4: "pa_segment_span_allocate env a 0 info st3 = (page0, st4)" by (meson surj_pair)
    have T3: "(T(a \<mapsto> [] @ (0, info, STaken) # [(info, 512 - info, STaken)])) a = Some ([] @ (0, info, STaken) # [(info, 512 - info, STaken)])" by simp
    note S = span_allocate_repr [OF ok r3 T3 al4, unfolded fun_upd_upd]
    have E': "(r, st') = (if page0 = None then (None, st4)
        else let st = set_seg ((tl_segs st4 a)\<lparr>sg_used := 0\<rparr>) st4
             in (Some (a, None), pa_segment_span_free env a info (512 - info) False st))"
      unfolding r [symmetric] E fresh(1) option.case prod.case Let_def st2_def [symmetric] PA_SLICES_PER_SEGMENT_def if_cancel
        seg3_def [symmetric] st3_def [symmetric] al4 by simp
    show ?thesis
    proof (cases page0)
      case None
      have "{0..<0 + info} \<subseteq> bits_of (sg_commit_mask seg3)"
        using fresh(5) cm_create [of 0 info] info unfolding seg3(2) by auto
      then have "\<not> span_commit_fails env st3 a 0 info" unfolding span_commit_fails_def s3(3,5) not_not
        by (intro ensure_committed_there [OF own(1)]) (use info in auto)
      then show ?thesis using S(1) [OF None] by blast
    next
      case (Some p)
      then have "page0 \<noteq> None" by simp
      from S(2) [OF this] obtain seg4 where r4: "span_repr comm st4 (T(a \<mapsto> [] @ (0, info, SUsed) # [(info, 512 - info, STaken)])) Q"
        and seg4: "same_frame (tl_segs st3 a) seg4" "tl_segs st4 = (tl_segs st3)(a := seg4\<lparr>sg_used := sg_used seg4 + 1\<rparr>)" by blast
      let ?T4 = "T(a \<mapsto> [(0, info, SUsed)] @ (info, 512 - info, STaken) # [])"
      have r4': "span_repr comm st4 ?T4 Q" using r4 by simp
      have T4: "?T4 a = Some ([(0, info, SUsed)] @ (info, 512 - info, STaken) # [])" by simp
      note own4 = span_reprD(1) [OF r4' T4]
      define st5 where "st5 = set_seg ((tl_segs st4 a)\<lparr>sg_used := 0\<rparr>) st4"
      have r5: "span_repr comm st5 ?T4 Q" unfolding st5_def
        by (rule span_repr_seg [OF r4' T4]) (use own4 in \<open>simp_all add: seg_owned_used\<close>)
      define st6 where "st6 = pa_segment_span_free env a info (512 - info) False st5"
      note F = span_free_repr [OF ok r5 T4, where purge = False, folded st6_def, unfolded fun_upd_upd]
      obtain Q6 where r6: "span_repr comm st6 (T(a \<mapsto> [(0, info, SUsed)] @ (info, 512 - info, SFree) # [])) Q6" using F(1) by blast
      have res: "r = Some (a, None)" "st' = st6" using E' Some by (simp_all add: st5_def st6_def Let_def)
      have u: "sg_used (tl_segs st6 a) = 0" "\<And>b. b \<noteq> a \<Longrightarrow> sg_used (tl_segs st6 b) = sg_used (tl_segs st b)"
        using only_seg_fields(1) [OF F(2)] seg_ownedD(1) [OF own4] seg4(2) s3(4) by (simp_all add: st5_def)
      have "span_inv comm st6 (T(a \<mapsto> [(0, info, SUsed), (info, 512 - info, SFree)])) Q6"
        using r6 u good by (auto simp: span_inv_def spans_good_def)
      moreover have "sg_memid (tl_segs st6 a) = memid"
        using only_seg_fields(2) [OF F(2)] seg_ownedD(1) [OF own4] seg4(2) same_frame_fields [OF seg4(1)] s3(5) fresh(6-9)
        by (simp add: st5_def seg3_def st2_def zero_info_segs)
      moreover have "info = snd (pa_segment_calculate_slices (ar_os_page_size ar) (ar_sizeof_segment ar) 0)" using cs by simp
      ultimately show ?thesis using res A fresh(4) info by blast
    qed
  qed
qed

section \<open>Extending a page\<close>

lemma extend_offsets_frame:
  "tl_segs (extend_offsets x c n st) = tl_segs st" "tl_os (extend_offsets x c n st) = tl_os st"
  "tl_spans (extend_offsets x c n st) = tl_spans st"
  by (induction n) (simp_all add: extend_offsets_def)

lemma extend_offsets_slices:
  "tl_slices (extend_offsets (a, i) c n st) (a', k) =
     (if a' = a \<and> i + c \<le> k \<and> k < i + c + n
      then (tl_slices st (a, k))\<lparr>pg_slice_offset := u32 ((k - i) * sizeof_slice), pg_slice_count := 0, pg_block_size := 1\<rparr>
      else tl_slices st (a', k))"
proof (induction n)
  case (Suc n)
  have "extend_offsets (a, i) c (Suc n) st = set_slice (a, i + (c + n)) (\<lambda>s. s\<lparr>pg_slice_offset := u32 ((c + n) * sizeof_slice),
      pg_slice_count := 0, pg_block_size := 1\<rparr>) (extend_offsets (a, i) c n st)"
    by (simp add: extend_offsets_def)
  then have S: "tl_slices (extend_offsets (a, i) c (Suc n) st) = (tl_slices (extend_offsets (a, i) c n st))((a, i + (c + n)) :=
      (tl_slices (extend_offsets (a, i) c n st) (a, i + (c + n)))\<lparr>pg_slice_offset := u32 ((c + n) * sizeof_slice),
        pg_slice_count := 0, pg_block_size := 1\<rparr>)"
    by simp
  show ?case
  proof (cases "a' = a \<and> k = i + (c + n)")
    case True
    then have "k - i = c + n" "i + c \<le> k" "k < i + c + Suc n" by simp_all
    then show ?thesis unfolding S using Suc True by simp
  next
    case False
    then have ne: "(a', k) \<noteq> (a, i + (c + n))" by simp
    have eq: "(a' = a \<and> i + c \<le> k \<and> k < i + c + Suc n) = (a' = a \<and> i + c \<le> k \<and> k < i + c + n)"
      using False by (metis add.assoc add_Suc_right less_Suc_eq)
    show ?thesis unfolding S eq fun_upd_other [OF ne] by (rule Suc)
  qed
next
  case 0
  have none: "\<not> (a' = a \<and> i + c \<le> k \<and> k < i + c + 0)" by linarith
  show ?case unfolding if_not_P [OF none] by (simp add: extend_offsets_def)
qed

text \<open>The test for the free span after the page, and the span it finds.\<close>

lemma extend_next:
  assumes inv: "span_inv comm st T Q" and T: "T a = Some (xs @ (i, c, SUsed) # ys)" and need: "0 < need"
    and fits: "i + c + need \<le> sg_slice_entries (tl_segs st a)" and free: "pg_block_size (tl_slices st (a, i + c)) = 0"
  obtains n zs where "ys = (i + c, n, SFree) # zs" "pg_slice_count (tl_slices st (a, i + c)) = n"
proof -
  have repr: "span_repr comm st T Q" and good: "spans_good (sg_used (tl_segs st a)) (xs @ (i, c, SUsed) # ys)"
    using inv T by (auto simp: span_inv_def)
  have "spans_from (i + c) ys (sg_slice_entries (tl_segs st a))"
    using span_reprD(2) [OF repr T] by (auto simp: spans_from_append)
  moreover have "ys \<noteq> []" using calculation fits need by auto
  ultimately obtain n s zs where ys: "ys = (i + c, n, s) # zs" by (cases ys) auto
  have s: "s \<noteq> STaken" using good ys by (auto simp: spans_good_def)
  have "(i + c, n, s) \<in> set (xs @ (i, c, SUsed) # ys)" using ys by simp
  note N = span_repr_slice [OF repr T this s]
  show ?thesis using that ys N(1,2) free by simp
qed

text \<open>Extending a page: its guards refuse it, or the free span behind the page is taken and cut.  Then the page gets its slices, or
  the commit fails, and the slices that were taken stay in the state in which they were taken out of the queue.\<close>

definition extend_guards :: "'o pa_segments_tld \<Rightarrow> slice_ref \<Rightarrow> nat \<Rightarrow> bool" where
  "extend_guards st p need \<longleftrightarrow>
     (let k = snd p + pg_slice_count (tl_slices st p)
      in k + need \<le> sg_slice_entries (tl_segs st (fst p)) \<and> pg_block_size (tl_slices st (fst p, k)) = 0 \<and>
         0 < pg_slice_count (tl_slices st (fst p, k)) \<and> need \<le> pg_slice_count (tl_slices st (fst p, k)))"

lemma try_extend_guarded: "\<not> extend_guards st p need \<Longrightarrow> pa_segment_try_extend_span env p need st = (False, st)"
  by (auto simp: extend_guards_def pa_segment_try_extend_span_def Let_def slice_plus_def)

lemma extend_fails_cases:
  assumes ok: "os_ok comm env" and inv: "span_inv comm st T Q" and T: "T a = Some (xs @ (i, c, SUsed) # ys)" and need: "0 < need"
    and g: "extend_guards st (a, i) need" and r: "pa_segment_try_extend_span env (a, i) need st = (extended, st')"
  shows "\<exists>n zs Q'. ys = (i + c, n, SFree) # zs \<and> need \<le> n \<and>
    (if extended
     then span_inv comm st' (T(a \<mapsto> xs @ (i, c + need, SUsed) # (if need < n then (i + c + need, n - need, SFree) # zs else zs))) Q'
     else span_commit_fails env st a (i + c) need \<and> pg_slice_count (tl_slices st' (a, i + c)) = n \<and>
       span_repr comm st' (T(a \<mapsto> xs @ [(i, c, SUsed), (i + c, need, STaken)] @ (if need < n then (i + c + need, n - need, SFree) # zs else zs))) Q')"
proof -
  have repr: "span_repr comm st T Q" and good: "\<And>a ts. T a = Some ts \<Longrightarrow> spans_good (sg_used (tl_segs st a)) ts"
    using inv by (auto simp: span_inv_def)
  have cnt: "pg_slice_count (tl_slices st (a, i)) = c" using span_repr_slice(1) [OF repr T, of i c SUsed] by simp
  have c: "0 < c" using span_bounds(1) [OF repr T, of i c SUsed] by simp
  have guards: "i + c + need \<le> sg_slice_entries (tl_segs st a)" "pg_block_size (tl_slices st (a, i + c)) = 0"
    "need \<le> pg_slice_count (tl_slices st (a, i + c))"
    using g cnt unfolding extend_guards_def Let_def fst_conv snd_conv by simp_all
  obtain n zs where ys: "ys = (i + c, n, SFree) # zs" and n: "pg_slice_count (tl_slices st (a, i + c)) = n"
    using extend_next [OF inv T need guards(1,2)] .
  have nn: "need \<le> n" "0 < n" using guards(3) n need by simp_all
  have T0: "T a = Some ((xs @ [(i, c, SUsed)]) @ (i + c, n, SFree) # zs)" using T ys by simp
  define st1 where "st1 = pa_segment_span_remove_from_queue (a, i + c) st"
  note R = remove_from_queue_repr [OF repr T0, folded st1_def]
  obtain Q1 where r1: "span_repr comm st1 (T(a \<mapsto> (xs @ [(i, c, SUsed)]) @ (i + c, n, STaken) # zs)) Q1" using R by blast
  define st2 where "st2 = (if 0 < n - need then pa_segment_span_free env a (i + c + need) (n - need) False st1 else st1)"
  define zs' where "zs' = (if need < n then (i + c + need, n - need, SFree) # zs else zs)"
  have quiet: "tl_segs st2 = tl_segs st" "tl_os st2 = tl_os st" using R by (simp_all add: st2_def span_free_quiet)
  have "\<exists>Q2. span_repr comm st2 (T(a \<mapsto> (xs @ [(i, c, SUsed)]) @ (i + c, need, STaken) # zs')) Q2 \<and> only_seg a st st2 \<and>
      pg_slice_count (tl_slices st2 (a, i + c)) = n"
  proof (cases "need < n")
    case True
    let ?T = "T(a \<mapsto> (xs @ [(i, c, SUsed)]) @ (i + c, n, STaken) # zs)"
    have "span_repr comm st1 (?T(a \<mapsto> (xs @ [(i, c, SUsed)]) @ [(i + c, need, STaken), (i + c + need, n - need, STaken)] @ zs)) Q1"
      by (rule span_repr_taken [OF r1, of a "xs @ [(i, c, SUsed)]" "[(i + c, n, STaken)]" zs "i + c" "i + c + n"])
        (use True need in auto)
    then have r1': "span_repr comm st1 (T(a \<mapsto> (xs @ [(i, c, SUsed), (i + c, need, STaken)]) @ (i + c + need, n - need, STaken) # zs)) Q1"
      by simp
    have "(T(a \<mapsto> (xs @ [(i, c, SUsed), (i + c, need, STaken)]) @ (i + c + need, n - need, STaken) # zs)) a =
       Some ((xs @ [(i, c, SUsed), (i + c, need, STaken)]) @ (i + c + need, n - need, STaken) # zs)" by simp
    note F = span_free_repr [OF ok r1' this, where purge = False, unfolded fun_upd_upd]
    have "only_seg a st st2" using F(2) R True by (simp add: st2_def only_seg_def)
    moreover
    have "page_core (tl_slices st2 (a, i + c)) = page_core (tl_slices st1 (a, i + c))"
      using F(3) [of "(a, i + c)"] True need by (simp add: st2_def)
    from page_core_fields(1) [OF this] have "pg_slice_count (tl_slices st2 (a, i + c)) = n" using R by simp
    ultimately show ?thesis using F(1) True by (simp add: st2_def zs'_def)
  next
    case False
    then have "n = need" using nn by simp
    then show ?thesis using r1 R by (auto simp: st2_def zs'_def only_seg_same)
  qed
  then obtain Q2 where r2: "span_repr comm st2 (T(a \<mapsto> (xs @ [(i, c, SUsed)]) @ (i + c, need, STaken) # zs')) Q2"
    and o2: "only_seg a st st2" and cnt2: "pg_slice_count (tl_slices st2 (a, i + c)) = n" by blast
  let ?T2 = "T(a \<mapsto> xs @ [(i, c, SUsed), (i + c, need, STaken)] @ zs')"
  have r2': "span_repr comm st2 ?T2 Q2" using r2 by simp
  have T2: "?T2 a = Some (xs @ [(i, c, SUsed), (i + c, need, STaken)] @ zs')" by simp
  note D2 = span_reprD [OF r2' T2]
  have b: "i + c + need \<le> 512" using span_bounds(3) [OF r2' T2, of "i + c" need STaken] by simp
  obtain res z seg os where e: "pa_segment_ensure_committed env (tl_segs st2 a) (tl_os st2) (pa_slice_start (a, i + c))
      (of_nat need * PA_SEGMENT_SLICE_SIZE) = (res, z, seg, os)" by (metis prod_cases4)
  note P = ensure_committed_span [OF ok D2(1) b e]
  have a: "sg_addr seg = a" using seg_ownedD(1) [OF P(1)] .
  have ent: "sg_slice_entries seg = sg_slice_entries (tl_segs st a)" "sg_slice_entries (tl_segs st2 a) = sg_slice_entries (tl_segs st a)"
    "sg_used seg = sg_used (tl_segs st a)"
    using same_frame_fields [OF P(2)] same_frame_fields [of "tl_segs st a" "tl_segs st2 a"] o2 by (simp_all add: only_seg_def)
  define st3 where "st3 = extend_offsets (a, i) c need ((set_seg seg st2)\<lparr>tl_os := os\<rparr>)"
  define st4 where "st4 = set_slice (a, i + c + need - 1) (\<lambda>s. s\<lparr>pg_slice_offset := u32 ((c + need - 1) * sizeof_slice)\<rparr>) st3"
  define st5 where "st5 = set_slice (a, i) (\<lambda>s. s\<lparr>pg_slice_count := u32 (c + need),
     pg_block_size := of_nat (c + need) * PA_SEGMENT_SLICE_SIZE\<rparr>) st4"
  have E: "(extended, st') = (if \<not> res then (False, (set_seg seg st2)\<lparr>tl_os := os\<rparr>) else (True, st5))"
  proof -
    have g: "(sg_slice_entries (tl_segs st a) < i + c + need) = False" "(n = 0 \<or> n < need) = False"
      "(i + c + need - 1 \<le> sg_slice_entries seg) = True" "(pg_block_size (tl_slices st (a, i + c)) \<noteq> 0) = False"
      using guards(1,2) nn ent by simp_all
    have n1: "pg_slice_count (tl_slices st1 (a, i + c)) = n" using R by simp
    have e': "pa_segment_ensure_committed env (tl_segs st2 a) (tl_os st2) (a + of_nat (i + c) * PA_SEGMENT_SLICE_SIZE)
      (of_nat need * PA_SEGMENT_SLICE_SIZE) = (res, z, seg, os)" using e by (simp only: pa_slice_start_def fst_conv snd_conv)
    have "pa_segment_try_extend_span env (a, i) need st =
      (if \<not> res then (False, (set_seg seg st2)\<lparr>tl_os := os\<rparr>) else (True, st5))"
      unfolding pa_segment_try_extend_span_def Let_def fst_conv snd_conv cnt slice_plus_def
      unfolding n g if_False st1_def [symmetric] n1
      unfolding st2_def [symmetric] e' prod.case g if_True
      unfolding st3_def [symmetric] st4_def [symmetric] st5_def [symmetric] by (rule refl)
    then show ?thesis using r by simp
  qed
  show ?thesis
  proof (cases extended)
    case False
    then have f: "\<not> res" "st' = (set_seg seg st2)\<lparr>tl_os := os\<rparr>" using E by (simp_all split: if_splits)
    have rng: "spans_from (i + c) [(i + c, need, STaken)] (i + c + need)" using need by simp
    have T2': "?T2 a = Some ((xs @ [(i, c, SUsed)]) @ [(i + c, need, STaken)] @ zs')" by simp
    have "span_repr comm st' (?T2(a \<mapsto> (xs @ [(i, c, SUsed)]) @ [(i + c, need, STaken)] @ zs')) Q2"
      by (rule span_repr_replace [OF r2' T2' rng rng])
        (use P(1,3,4) a ent in \<open>auto simp: f(2) span_ok_def span_live_def\<close>)
    then have "span_repr comm st' ?T2 Q2" by simp
    moreover have "span_commit_fails env st a (i + c) need"
      using e f(1) unfolding span_commit_fails_cong [OF quiet, symmetric] span_commit_fails_def by simp
    moreover have "pg_slice_count (tl_slices st' (a, i + c)) = n" using cnt2 by (simp add: f(2))
    ultimately show ?thesis using False ys nn unfolding zs'_def by auto
  next
    case True
  then have res: "res" "st' = st5" using E by (simp_all split: if_splits)
  have s5: "tl_segs st5 = (tl_segs st2)(a := seg)" "tl_os st5 = os" "tl_spans st5 = tl_spans st2"
    using a by (simp_all add: st5_def st4_def st3_def extend_offsets_frame)
  have frame: "tl_slices st5 p = tl_slices st2 p" if p: "p \<notin> {a} \<times> {i..<i + (c + need)}" for p
  proof -
    obtain a' k where k: "p = (a', k)" by (cases p) auto
    have ne: "p \<noteq> (a, i)" "p \<noteq> (a, i + c + need - 1)" using p c need by auto
    have out: "(a' = a \<and> i + c \<le> k \<and> k < i + c + need) = False" using p k by auto
    have "tl_slices st5 p = tl_slices st3 p" unfolding st5_def st4_def using ne by simp
    also have "\<dots> = tl_slices st2 p" unfolding st3_def k extend_offsets_slices out if_False by simp
    finally show ?thesis .
  qed
  have small: "(c + need) mod 4294967296 = c + need" using b by simp
  have bs: "(of_nat (c + need) * PA_SEGMENT_SLICE_SIZE :: size_t) \<noteq> 0"
  proof -
    have "unat (of_nat (c + need) * PA_SEGMENT_SLICE_SIZE :: size_t) = (c + need) * 65536" using b by (intro unat_slices) simp
    then show ?thesis using c by auto
  qed
  have "i \<noteq> i + c + need - 1" using c need by simp
  then have first: "pg_slice_count (tl_slices st5 (a, i)) = c + need" "pg_slice_offset (tl_slices st5 (a, i)) = 0"
    "pg_block_size (tl_slices st5 (a, i)) = of_nat (c + need) * PA_SEGMENT_SLICE_SIZE"
    using D2(3) [of "(i, c, SUsed)"] c by (simp_all add: st5_def st4_def st3_def extend_offsets_slices small span_ok_def)
  have off: "pg_slice_offset (tl_slices st5 (a, i + j)) = sizeof_slice * j"
    if j: "0 < j" "j < c + need" "j = c + need - 1 \<or> j \<le> PA_MAX_SLICE_OFFSET_COUNT" for j
  proof (cases "j < c")
    case True
    then have "j \<le> PA_MAX_SLICE_OFFSET_COUNT" "i + j \<noteq> i + c + need - 1" using j need by auto
    then show ?thesis using D2(3) [of "(i, c, SUsed)"] True j
      by (simp add: st5_def st4_def st3_def extend_offsets_slices span_ok_def)
  next
    case False
    have u: "u32 (j * sizeof_slice) = sizeof_slice * j" using j b by simp
    have e3: "pg_slice_offset (tl_slices st3 (a, i + j)) = sizeof_slice * j"
      using False j u by (simp add: st3_def extend_offsets_slices)
    have "pg_slice_offset (tl_slices st4 (a, i + j)) = sizeof_slice * j"
    proof (cases "i + j = i + c + need - 1")
      case True
      then have "j = c + need - 1" by simp
      then show ?thesis using True u by (simp add: st4_def)
    qed (use e3 in \<open>simp add: st4_def\<close>)
    then show ?thesis using j by (simp add: st5_def)
  qed
  have okp: "span_ok (tl_slices st5) a (i, c + need, SUsed)" using first off bs by (simp add: span_ok_def)
  have "{i..<i + (c + need)} = {i..<i + c} \<union> {i + c..<i + c + need}" by auto
  moreover have "span_live seg (i, c, SUsed)" using P(4) [OF D2(4) [of "(i, c, SUsed)"]] by simp
  ultimately have live: "span_live seg (i, c + need, SUsed)"
    using P(5) [OF res(1), of SUsed] by (simp add: span_live_def)
  have r5: "span_repr comm st5 (?T2(a \<mapsto> xs @ [(i, c + need, SUsed)] @ zs')) Q2"
  proof (rule span_repr_replace [OF r2' T2, of i "i + (c + need)"])
    show "\<forall>t \<in> set xs \<union> set zs'. span_live (tl_segs st2 a) t \<longrightarrow> span_live (tl_segs st5 a) t" using P(4) s5 by simp
  qed (use c need frame s5 P(1,3) ent okp live in auto)
  have o5: "sg_used (tl_segs st5 b) = sg_used (tl_segs st b)" for b
    using s5 ent(3) only_seg_fields(1) [OF o2, of b] by simp
  have "spans_good (sg_used (tl_segs st a)) (xs @ (i, c + need, SUsed) # zs')"
    using good [OF T] nn ys by (cases xs) (auto simp: spans_good_def zs'_def successively_append_iff successively_Cons)
  then have "span_inv comm st5 (T(a \<mapsto> xs @ (i, c + need, SUsed) # zs')) Q2"
    using r5 good o5 by (simp add: span_inv_def)
  then show ?thesis using True ys nn res(2) unfolding zs'_def by auto
  qed
qed

lemma try_extend_inv:
  assumes ok: "os_ok comm env" and inv: "span_inv comm st T Q" and T: "T a = Some (xs @ (i, c, SUsed) # ys)" and need: "0 < need"
    and r: "pa_segment_try_extend_span env (a, i) need st = (True, st')"
  shows "\<exists>n zs Q'. ys = (i + c, n, SFree) # zs \<and> need \<le> n \<and>
    span_inv comm st' (T(a \<mapsto> xs @ (i, c + need, SUsed) # (if need < n then (i + c + need, n - need, SFree) # zs else zs))) Q'"
proof -
  have "extend_guards st (a, i) need" using r try_extend_guarded [of st "(a, i)" need env] by fastforce
  from extend_fails_cases [OF ok inv T need this r] show ?thesis by simp
qed

section \<open>Histories of pages and segments\<close>

text \<open>What a thread does with its segments: it gets normal segments from the arena layer, allocates pages of any number of
  slices, uses them (the page code writes every field of the page structure but the slice count and offset, and keeps the
  block size positive), abandons and frees them.  \<open>P\<close> is the set of pages in use and \<open>S\<close> that of the segments
  that the thread owns.  Every step may have another environment, as long as it behaves as documented.

  An extension of a page may succeed or be refused, by its guards, with the state as it was.  A third outcome is not a step: a commit that fails after
  the span behind the page was taken out of its queue (segment.c:837).  The code then returns false and leaves the taken slices in no page and
  no queue; what follows from that is not what the code means to do, and the histories end there.  The failure itself is described by
  \<open>extend_fails_cases\<close> below and \<open>span_extend_failure\<close> in \<open>Palloc_SpanProps\<close>.  All other failing commits are in the histories.\<close>

definition queues_empty :: "'o pa_segments_tld \<Rightarrow> bool" where
  "queues_empty st \<longleftrightarrow> (\<forall>b \<le> PA_SEGMENT_BIN_MAX. sq_first (tl_spans st b) = None \<and> sq_last (tl_spans st b) = None)"

definition drop_segment :: "uintptr_t \<Rightarrow> slice_ref set \<Rightarrow> slice_ref set" where
  "drop_segment a P = {p \<in> P. fst p \<noteq> a}"

inductive span_history :: "('o \<Rightarrow> nat set) \<Rightarrow> 'o pa_segments_tld \<Rightarrow> slice_ref set \<Rightarrow> uintptr_t set \<Rightarrow> bool" for comm where
  start: "queues_empty st \<Longrightarrow> span_history comm st {} {}"
| new_segment: "span_history comm st P S \<Longrightarrow> os_ok comm env \<Longrightarrow> arena_ok comm ar \<Longrightarrow> arena_fresh ar S (tl_os st) \<Longrightarrow>
    pa_segment_alloc env ar 0 0 req st = (r, st') \<Longrightarrow>
    span_history comm st' P (case r of None \<Rightarrow> S | Some (a, _) \<Rightarrow> insert a S)"
| new_page: "span_history comm st P S \<Longrightarrow> os_ok comm env \<Longrightarrow> 0 < n \<Longrightarrow> n \<le> 512 \<Longrightarrow>
    pa_segments_page_find_and_allocate env n req st = Some (r, st') \<Longrightarrow>
    span_history comm st' (case r of None \<Rightarrow> P | Some p \<Rightarrow> insert p P) S"
| use_page: "span_history comm st P S \<Longrightarrow> p \<in> P \<Longrightarrow> page' = f (tl_slices st p) \<Longrightarrow>
    pg_slice_count page' = pg_slice_count (tl_slices st p) \<Longrightarrow> pg_slice_offset page' = pg_slice_offset (tl_slices st p) \<Longrightarrow>
    pg_block_size page' \<noteq> 0 \<Longrightarrow> span_history comm (set_slice p f st) P S"
| extend_page: "span_history comm st P S \<Longrightarrow> os_ok comm env \<Longrightarrow> p \<in> P \<Longrightarrow> 0 < need \<Longrightarrow>
    pa_segment_try_extend_span env p need st = (extended, st') \<Longrightarrow> extended \<or> st' = st \<Longrightarrow> span_history comm st' P S"
| free_page: "span_history comm st P S \<Longrightarrow> os_ok comm env \<Longrightarrow> arena_ok comm ar \<Longrightarrow> p \<in> P \<Longrightarrow>
    pa_segment_page_free env ar p st = Some st' \<Longrightarrow> sg_thread_id (tl_segs st' (fst p)) \<noteq> 0 \<Longrightarrow>
    span_history comm st' (P - {p}) S"
| free_page_segment: "span_history comm st P S \<Longrightarrow> os_ok comm env \<Longrightarrow> arena_ok comm ar \<Longrightarrow> p \<in> P \<Longrightarrow>
    pa_segment_page_free env ar p st = Some st' \<Longrightarrow> sg_thread_id (tl_segs st' (fst p)) = 0 \<Longrightarrow>
    span_history comm st' (drop_segment (fst p) P) (S - {fst p})"
| abandon_page: "span_history comm st P S \<Longrightarrow> os_ok comm env \<Longrightarrow> arena_ok comm ar \<Longrightarrow> p \<in> P \<Longrightarrow>
    pa_segment_page_abandon env ar p st = Some st' \<Longrightarrow> sg_thread_id (tl_segs st' (fst p)) \<noteq> 0 \<Longrightarrow>
    span_history comm st' P S"
| abandon_segment: "span_history comm st P S \<Longrightarrow> os_ok comm env \<Longrightarrow> arena_ok comm ar \<Longrightarrow> p \<in> P \<Longrightarrow>
    pa_segment_page_abandon env ar p st = Some st' \<Longrightarrow> sg_thread_id (tl_segs st' (fst p)) = 0 \<Longrightarrow>
    span_history comm st' (drop_segment (fst p) P) (S - {fst p})"

text \<open>The pages in use are the used spans but the first one of every segment.\<close>

definition pages_of :: "(uintptr_t \<Rightarrow> span list option) \<Rightarrow> slice_ref set" where
  "pages_of T = {(a, i). \<exists>ts c. T a = Some ts \<and> (i, c, SUsed) \<in> set ts \<and> 0 < i}"

definition history_inv :: "('o \<Rightarrow> nat set) \<Rightarrow> 'o pa_segments_tld \<Rightarrow> slice_ref set \<Rightarrow> uintptr_t set \<Rightarrow>
    (uintptr_t \<Rightarrow> span list option) \<Rightarrow> (nat \<Rightarrow> slice_ref list) \<Rightarrow> bool" where
  "history_inv comm st P S T Q \<longleftrightarrow> span_inv comm st T Q \<and> S = dom T \<and> P = pages_of T"

lemma pages_of_upd:
  "pages_of (T(a \<mapsto> ts)) = {p \<in> pages_of T. fst p \<noteq> a} \<union> {(a, i) | i c. (i, c, SUsed) \<in> set ts \<and> 0 < i}" (is "?L = ?R")
proof -
  have "(b, i) \<in> ?L \<longleftrightarrow> (b, i) \<in> ?R" for b i by (cases "b = a") (auto simp: pages_of_def)
  then show ?thesis by (simp only: set_eq_iff split_paired_All) blast
qed

lemma pages_of_drop: "pages_of (T(a := None)) = drop_segment a (pages_of T)" (is "?L = ?R")
proof -
  have "(b, i) \<in> ?L \<longleftrightarrow> (b, i) \<in> ?R" for b i by (cases "b = a") (auto simp: pages_of_def drop_segment_def)
  then show ?thesis by (simp only: set_eq_iff split_paired_All) blast
qed

lemma pages_of_same:
  assumes T: "T a = Some ts" and eq: "\<And>j. (\<exists>c. (j, c, SUsed) \<in> set ts') \<longleftrightarrow> (\<exists>c. (j, c, SUsed) \<in> set ts)"
  shows "pages_of (T(a \<mapsto> ts')) = pages_of T"
proof -
  have "(b, j) \<in> pages_of (T(a \<mapsto> ts')) \<longleftrightarrow> (b, j) \<in> pages_of T" for b j
    using T eq [of j] by (cases "b = a") (auto simp: pages_of_def)
  then show ?thesis by (simp only: set_eq_iff split_paired_All) blast
qed

lemma page_span:
  assumes "span_inv comm st T Q" "(a, i) \<in> pages_of T"
  obtains xs c ys where "T a = Some (xs @ (i, c, SUsed) # ys)" "xs \<noteq> []" "0 < i"
proof -
  obtain ts c where t: "T a = Some ts" "(i, c, SUsed) \<in> set ts" "0 < i" using assms(2) by (auto simp: pages_of_def)
  obtain xs ys where ts: "ts = xs @ (i, c, SUsed) # ys" using split_list [OF t(2)] by blast
  have "spans_good (sg_used (tl_segs st a)) ts" using assms(1) t(1) by (simp add: span_inv_def)
  then have "xs \<noteq> []" using ts t(3) by (cases xs) (auto simp: spans_good_def)
  then show ?thesis using that t ts by blast
qed

lemma page_mem:
  assumes "span_repr comm st T Q" "T a = Some (xs @ (i, c, s) # ys)"
  shows "(j, c', s') \<in> set (xs @ ys) \<Longrightarrow> j \<noteq> i"
proof
  assume "(j, c', s') \<in> set (xs @ ys)" "j = i"
  moreover have "distinct (map fst (xs @ (i, c, s) # ys))" by (rule spans_from_distinct [OF span_reprD(2) [OF assms]])
  ultimately show False by force
qed

lemma merge_spans_pages:
  "(j, c', SUsed) \<in> set (merge_spans xs i c ys) \<longleftrightarrow> (j, c', SUsed) \<in> set (xs @ ys)"
  by (rule merge_next_cases [of ys c]; rule merge_prev_cases [of xs i "fst (merge_next c ys)"]) (auto simp: merge_spans_def)

lemma span_repr_use:
  assumes inv: "span_repr comm st T Q" and T: "T a = Some (xs @ (i, c, SUsed) # ys)"
    and f: "page' = f (tl_slices st (a, i))" "pg_slice_count page' = pg_slice_count (tl_slices st (a, i))"
      "pg_slice_offset page' = pg_slice_offset (tl_slices st (a, i))" "pg_block_size page' \<noteq> 0"
  shows "span_repr comm (set_slice (a, i) f st) T Q"
proof -
  note D = span_reprD [OF inv T]
  have c: "0 < c" using span_bounds(1) [OF inv T, of i c SUsed] by simp
  have ch: "spans_from i [(i, c, SUsed)] (i + c)" using c by simp
  have "span_ok (tl_slices (set_slice (a, i) f st)) a (i, c, SUsed)"
    using D(3) [of "(i, c, SUsed)"] f by (simp add: span_ok_def)
  then have "span_repr comm (set_slice (a, i) f st) (T(a \<mapsto> xs @ [(i, c, SUsed)] @ ys)) Q"
    by (intro span_repr_replace [OF inv _ ch ch]) (use T c D in auto)
  then show ?thesis using T by (simp add: fun_upd_idem)
qed

lemma page_abandon_inv:
  assumes ok: "os_ok comm env" and ar: "arena_ok comm ar" and inv: "span_inv comm st T Q" and T: "T a = Some ts"
    and r: "pa_segment_page_abandon env ar (a, i) st = Some st'"
  shows "\<exists>Q'. sg_thread_id (tl_segs st' a) \<noteq> 0 \<and> span_inv comm st' T Q' \<or>
     sg_thread_id (tl_segs st' a) = 0 \<and> span_inv comm st' (T(a := None)) Q'"
proof -
  have repr: "span_repr comm st T Q" and good: "\<And>a ts. T a = Some ts \<Longrightarrow> spans_good (sg_used (tl_segs st a)) ts"
    using inv by (auto simp: span_inv_def)
  note own = span_reprD(1) [OF repr T]
  define seg where "seg = (tl_segs st a)\<lparr>sg_abandoned := sg_abandoned (tl_segs st a) + 1\<rparr>"
  define st1 where "st1 = set_seg seg st"
  have own1: "seg_owned comm a seg (tl_os st)"
    using own seg_ownedD(1) [OF own]
    by (simp add: seg_def seg_owned_def seg_inv_def seg_shape_def seg_masks_def commit_sound_def slice_of_def)
  have r1: "span_repr comm st1 T Q" unfolding st1_def
    by (rule span_repr_seg [OF repr T own1]) (simp_all add: seg_def span_live_def)
  have s1: "tl_segs st1 a = seg" "\<And>b. sg_used (tl_segs st1 b) = sg_used (tl_segs st b)"
    using seg_ownedD(1) [OF own1] by (simp_all add: st1_def seg_def)
  show ?thesis
  proof (cases "sg_used seg = sg_abandoned seg")
    case True
    then have "pa_segment_abandon env ar a st1 = Some st'"
      using r s1 by (simp add: pa_segment_page_abandon_def Let_def st1_def seg_def)
    moreover have "not_taken ts" using good [OF T] by (simp add: spans_good_def)
    ultimately show ?thesis using segment_abandon_inv [OF ok ar r1 T] good s1(2) by fastforce
  next
    case False
    then have "st' = st1" using r s1 by (simp add: pa_segment_page_abandon_def Let_def st1_def seg_def)
    then show ?thesis using r1 good s1 seg_ownedD(4) [OF own1] by (auto simp: span_inv_def)
  qed
qed

lemma span_history_inv:
  assumes "span_history comm st P S"
  shows "\<exists>T Q. history_inv comm st P S T Q"
  using assms
proof (induction rule: span_history.induct)
  case (start st)
  have "span_inv comm st Map.empty (\<lambda>_. [])"
    using start by (simp add: span_inv_def span_repr_def queues_empty_def pages.dll_def)
  then show ?case by (intro exI [of _ Map.empty] exI [of _ "\<lambda>_. []"]) (simp add: history_inv_def pages_of_def)
next
  case (new_segment st P S env ar req r st')
  then obtain T Q where h: "span_inv comm st T Q" "S = dom T" "P = pages_of T" by (auto simp: history_inv_def)
  have "arena_fresh ar (dom T) (tl_os st)" using new_segment h by simp
  from segment_alloc_inv [OF new_segment(2,3) h(1) this new_segment(5)]
  consider Q' where "r = None" "span_inv comm st' T Q'"
    | a info Q' where "r = Some (a, None)" "T a = None" "span_inv comm st' (T(a \<mapsto> [(0, info, SUsed), (info, 512 - info, SFree)])) Q'"
    by blast
  then show ?case
  proof cases
    case 1
    then show ?thesis using h by (auto simp: history_inv_def)
  next
    case s: (2 a info Q')
    have "pages_of (T(a \<mapsto> [(0, info, SUsed), (info, 512 - info, SFree)])) = P"
      using s(2) h(3) by (auto simp: pages_of_upd) (auto simp: pages_of_def)
    then show ?thesis using s h unfolding history_inv_def
      by (intro exI [of _ "T(a \<mapsto> [(0, info, SUsed), (info, 512 - info, SFree)])"] exI [of _ Q']) simp
  qed
next
  case (new_page st P S env n req r st')
  then obtain T Q where h: "span_inv comm st T Q" "S = dom T" "P = pages_of T" by (auto simp: history_inv_def)
  obtain Q' where c: "case r of
       Some (a, i) \<Rightarrow> \<exists>xs ys c. T a = Some (xs @ (i, c, SFree) # ys) \<and> n \<le> c \<and>
         span_inv comm st' (T(a \<mapsto> xs @ (i, n, SUsed) # (if n < c then (i + n, c - n, SFree) # ys else ys))) Q'
     | None \<Rightarrow> span_inv comm st' T Q'"
    using find_and_allocate_spec [OF new_page(2) h(1) new_page(3,4), of req] new_page(5) by (fastforce split: option.splits)
  show ?case
  proof (cases r)
    case None
    then show ?thesis using c h by (auto simp: history_inv_def)
  next
    case (Some p)
    obtain a i where p: "p = (a, i)" by (cases p) auto
    obtain xs ys c where x: "T a = Some (xs @ (i, c, SFree) # ys)" "n \<le> c"
      "span_inv comm st' (T(a \<mapsto> xs @ (i, n, SUsed) # (if n < c then (i + n, c - n, SFree) # ys else ys))) Q'"
      using \<open>case r of Some _ \<Rightarrow> _ | None \<Rightarrow> _\<close> Some p by auto
    let ?ts = "xs @ (i, n, SUsed) # (if n < c then (i + n, c - n, SFree) # ys else ys)"
    have "spans_good (sg_used (tl_segs st a)) (xs @ (i, c, SFree) # ys)" using h(1) x(1) by (simp add: span_inv_def)
    then have "xs \<noteq> []" by (auto simp: spans_good_def)
    moreover have "spans_from 0 (xs @ (i, c, SFree) # ys) (sg_slice_entries (tl_segs st a))"
      using h(1) x(1) by (auto simp: span_inv_def dest: span_reprD(2))
    moreover from this have "spans_from 0 xs i" unfolding spans_from_append by auto
    ultimately have i: "0 < i" using spans_from_range [of 0 xs i "fst (hd xs)" "fst (snd (hd xs))" "snd (snd (hd xs))"] by auto
    have "pages_of (T(a \<mapsto> ?ts)) = insert (a, i) P"
    proof -
      have "(j, c', SUsed) \<in> set ?ts \<longleftrightarrow> (j, c', SUsed) \<in> set (xs @ (i, c, SFree) # ys) \<or> j = i \<and> c' = n" for j c' by auto
      then show ?thesis unfolding pages_of_upd h(3) using x(1) i by (auto simp: pages_of_def)
    qed
    then show ?thesis using Some p h x unfolding history_inv_def
      by (intro exI [of _ "T(a \<mapsto> ?ts)"] exI [of _ Q']) auto
  qed
next
  case (use_page st P S p page' f)
  then obtain T Q where h: "span_inv comm st T Q" "S = dom T" "P = pages_of T" by (auto simp: history_inv_def)
  obtain a i where p: "p = (a, i)" by (cases p) auto
  obtain xs c ys where x: "T a = Some (xs @ (i, c, SUsed) # ys)" using page_span [OF h(1)] use_page(2) p h(3) by metis
  have "span_repr comm (set_slice p f st) T Q"
    unfolding p by (rule span_repr_use [of comm st T Q a xs i c ys page' f]) (use h(1) use_page p x in \<open>auto simp: span_inv_def\<close>)
  then have "span_inv comm (set_slice p f st) T Q" using h(1) by (simp add: span_inv_def)
  then show ?case using h by (auto simp: history_inv_def)
next
  case (extend_page st P S env p need extended st')
  show ?case
  proof (cases extended)
    case False
    then show ?thesis using extend_page by blast
  next
    case True
    have ex: "pa_segment_try_extend_span env p need st = (True, st')" using extend_page(5) True by simp
  from extend_page obtain T Q where h: "span_inv comm st T Q" "S = dom T" "P = pages_of T" by (auto simp: history_inv_def)
  obtain a i where p: "p = (a, i)" by (cases p) auto
  obtain xs c ys where x: "T a = Some (xs @ (i, c, SUsed) # ys)" "0 < i" using page_span [OF h(1)] extend_page(3) p h(3) by metis
  obtain n zs Q' where y: "ys = (i + c, n, SFree) # zs" "need \<le> n"
    and q: "span_inv comm st' (T(a \<mapsto> xs @ (i, c + need, SUsed) # (if need < n then (i + c + need, n - need, SFree) # zs else zs))) Q'"
    using try_extend_inv [OF extend_page(2) h(1) x(1) extend_page(4) ex [unfolded p]] by blast
  let ?ts = "xs @ (i, c + need, SUsed) # (if need < n then (i + c + need, n - need, SFree) # zs else zs)"
  have "pages_of (T(a \<mapsto> ?ts)) = pages_of T"
  proof (rule pages_of_same [where T = T and a = a, OF x(1)])
    fix j
    show "(\<exists>c'. (j, c', SUsed) \<in> set ?ts) \<longleftrightarrow> (\<exists>c'. (j, c', SUsed) \<in> set (xs @ (i, c, SUsed) # ys))"
      unfolding y(1) by (cases "need < n"; cases "j = i"; simp; blast?)
  qed
  then have "pages_of (T(a \<mapsto> ?ts)) = P" using h(3) by simp
  then show ?thesis using q h x(1) unfolding history_inv_def by (intro exI [of _ "T(a \<mapsto> ?ts)"] exI [of _ Q']) auto
  qed
next
  case (free_page st P S env ar p st')
  then obtain T Q where h: "span_inv comm st T Q" "S = dom T" "P = pages_of T" by (auto simp: history_inv_def)
  obtain a i where p: "p = (a, i)" by (cases p) auto
  obtain xs c ys where x: "T a = Some (xs @ (i, c, SUsed) # ys)" "xs \<noteq> []" using page_span [OF h(1)] free_page(4) p h(3) by metis
  have repr: "span_repr comm st T Q" using h(1) by (simp add: span_inv_def)
  obtain Q' where q: "span_inv comm st' (T(a \<mapsto> merge_spans xs i c ys)) Q'"
    using page_free_inv [OF free_page(2,3) h(1) x] free_page(5,6) p by auto
  have "pages_of (T(a \<mapsto> merge_spans xs i c ys)) = P - {p}"
    unfolding pages_of_upd h(3) p using x(1) page_mem [OF repr x(1)] by (fastforce simp: pages_of_def merge_spans_pages)
  then show ?case using q h x(1) unfolding history_inv_def
    by (intro exI [of _ "T(a \<mapsto> merge_spans xs i c ys)"] exI [of _ Q']) auto
next
  case (free_page_segment st P S env ar p st')
  then obtain T Q where h: "span_inv comm st T Q" "S = dom T" "P = pages_of T" by (auto simp: history_inv_def)
  obtain a i where p: "p = (a, i)" by (cases p) auto
  obtain xs c ys where x: "T a = Some (xs @ (i, c, SUsed) # ys)" "xs \<noteq> []" using page_span [OF h(1)] free_page_segment(4) p h(3) by metis
  obtain Q' where "span_inv comm st' (T(a := None)) Q'"
    using page_free_inv [OF free_page_segment(2,3) h(1) x] free_page_segment(5,6) p by auto
  then show ?case using h p unfolding history_inv_def pages_of_drop [symmetric]
    by (intro exI [of _ "T(a := None)"] exI [of _ Q']) (auto simp: pages_of_drop)
next
  case (abandon_page st P S env ar p st')
  then obtain T Q where h: "span_inv comm st T Q" "S = dom T" "P = pages_of T" by (auto simp: history_inv_def)
  obtain a i where p: "p = (a, i)" by (cases p) auto
  obtain ts where x: "T a = Some ts" using abandon_page(4) p h(3) by (auto simp: pages_of_def)
  from page_abandon_inv [OF abandon_page(2,3) h(1) x abandon_page(5) [unfolded p]] show ?case
    using abandon_page(6) p h by (auto simp: history_inv_def)
next
  case (abandon_segment st P S env ar p st')
  then obtain T Q where h: "span_inv comm st T Q" "S = dom T" "P = pages_of T" by (auto simp: history_inv_def)
  obtain a i where p: "p = (a, i)" by (cases p) auto
  obtain ts where x: "T a = Some ts" using abandon_segment(4) p h(3) by (auto simp: pages_of_def)
  obtain Q' where "span_inv comm st' (T(a := None)) Q'"
    using page_abandon_inv [OF abandon_segment(2,3) h(1) x abandon_segment(5) [unfolded p]] abandon_segment(6) p by auto
  then show ?case using h p unfolding history_inv_def
    by (intro exI [of _ "T(a := None)"] exI [of _ Q']) (auto simp: pages_of_drop)
qed

end
