(* ===== verification/Palloc_SpanProps.thy ===== *)
theory Palloc_SpanProps
  imports Palloc_Segments
begin

text \<open>
  What the span allocator of \<open>src/segment.c\<close> promises to the pages above it, after every history of
  segment and page operations of one thread (\<open>span_history\<close> in \<open>Palloc_Segments\<close>, which says what these leave out), why an allocation or an
  extension fails, and concrete histories on a machine that grants every request and on one with too little memory.
\<close>

section \<open>The bytes of a page\<close>

definition page_slices :: "'o pa_segments_tld \<Rightarrow> slice_ref \<Rightarrow> nat set" where
  "page_slices st p = {snd p..<snd p + pg_slice_count (tl_slices st p)}"

definition page_bytes :: "'o pa_segments_tld \<Rightarrow> slice_ref \<Rightarrow> nat set" where
  "page_bytes st p = {unat (fst p) + snd p * 65536..<unat (fst p) + (snd p + pg_slice_count (tl_slices st p)) * 65536}"

lemma page_in_history:
  assumes "history_inv comm st P S T Q" "(a, i) \<in> P"
  obtains ts c where "T a = Some ts" "(i, c, SUsed) \<in> set ts" "0 < i" "pg_slice_count (tl_slices st (a, i)) = c" "0 < c" "i + c \<le> 512"
    "span_repr comm st T Q"
proof -
  obtain ts c where t: "T a = Some ts" "(i, c, SUsed) \<in> set ts" "0 < i" using assms by (auto simp: history_inv_def pages_of_def)
  have r: "span_repr comm st T Q" using assms by (simp add: history_inv_def span_inv_def)
  have "pg_slice_count (tl_slices st (a, i)) = c" using span_reprD(3) [OF r t(1,2)] by (simp add: span_ok_def)
  then show ?thesis using that t r span_bounds [OF r t(1,2)] by blast
qed

lemma page_byte_slice:
  assumes "b \<in> page_bytes st (a, i)"
  shows "unat a \<le> b" "(b - unat a) div 65536 \<in> page_slices st (a, i)"
proof -
  let ?c = "pg_slice_count (tl_slices st (a, i))"
  show ab: "unat a \<le> b" using assms by (simp add: page_bytes_def)
  have "i * 65536 \<le> b - unat a" "b - unat a < (i + ?c) * 65536" using assms ab unfolding page_bytes_def fst_conv snd_conv by auto
  then have "i \<le> (b - unat a) div 65536" "(b - unat a) div 65536 < i + ?c"
    by (simp_all add: div_le_mono less_mult_imp_div_less less_eq_div_iff_mult_less_eq)
  then show "(b - unat a) div 65536 \<in> page_slices st (a, i)" by (simp add: page_slices_def)
qed

lemma page_bytes_committed:
  assumes h: "history_inv comm st P S T Q" and p: "(a, i) \<in> P" and b: "b \<in> page_bytes st (a, i)"
  shows "b \<in> comm (tl_os st)" "b \<in> seg_bytes a" "a \<in> S" "unat a mod 0x2000000 = 0"
proof -
  obtain ts c where t: "T a = Some ts" "(i, c, SUsed) \<in> set ts" "0 < i" "pg_slice_count (tl_slices st (a, i)) = c" "i + c \<le> 512"
    "span_repr comm st T Q" using page_in_history [OF h p] by metis
  note own = span_reprD(1) [OF t(6,1)]
  note S = page_byte_slice [OF b]
  have live: "slice_of (tl_segs st a) b \<in> bits_of (sg_commit_mask (tl_segs st a))"
    using span_reprD(4) [OF t(6,1,2)] S(2) t(4) seg_ownedD(1) [OF own]
    by (auto simp: span_live_def page_slices_def slice_of_def)
  then show "b \<in> comm (tl_os st)"
    using S(1) seg_ownedD(1,2) [OF own] by (simp add: seg_inv_def commit_sound_def)
  show "b \<in> seg_bytes a"
    by (rule slice_bytes [OF seg_ownedD(1) [OF own] S(1)]) (use live seg_ownedD(8) [OF own] in auto)
  show "a \<in> S" using h t(1) by (auto simp: history_inv_def)
  show "unat a mod 0x2000000 = 0" using own by (simp add: seg_owned_def)
qed

lemma page_slices_apart:
  assumes h: "history_inv comm st P S T Q" and p: "(a, i) \<in> P" "(a, j) \<in> P" "i \<noteq> j"
  shows "page_slices st (a, i) \<inter> page_slices st (a, j) = {}"
proof -
  obtain ts c where t: "T a = Some ts" "(i, c, SUsed) \<in> set ts" "pg_slice_count (tl_slices st (a, i)) = c"
    "span_repr comm st T Q" using page_in_history [OF h p(1)] by metis
  obtain c' where u: "(j, c', SUsed) \<in> set ts" "pg_slice_count (tl_slices st (a, j)) = c'"
    using page_in_history [OF h p(2)] t(1) by (metis option.inject)
  have "\<not> (j < i + c \<and> i < j + c')"
    using spans_from_unique [OF span_reprD(2) [OF t(4,1)] t(2) u(1)] p(3) by auto
  then show ?thesis using t(3) u(2) by (auto simp: page_slices_def)
qed

lemma seg_bytes_apart:
  assumes "unat a mod 0x2000000 = 0" "unat a' mod 0x2000000 = 0" "b \<in> seg_bytes a" "b \<in> seg_bytes a'"
  shows "a = a'"
proof -
  have "b div 0x2000000 = unat x div 0x2000000" if "unat x mod 0x2000000 = 0" "b \<in> seg_bytes x" for x :: uintptr_t
    using that by (intro div_nat_eqI) (auto simp: seg_bytes_def)
  then have "unat a div 0x2000000 = unat a' div 0x2000000" using assms by metis
  then have "unat a = unat a'" using assms(1,2) by (metis mult_div_mod_eq)
  then show ?thesis by (simp add: word_unat_eq_iff)
qed

lemma page_bytes_apart:
  assumes h: "history_inv comm st P S T Q" and p: "p \<in> P" "q \<in> P" "p \<noteq> q"
  shows "page_bytes st p \<inter> page_bytes st q = {}"
proof -
  obtain a i a' j where pq: "p = (a, i)" "q = (a', j)" by (cases p; cases q) auto
  have False if "b \<in> page_bytes st p" "b \<in> page_bytes st q" for b
  proof (cases "a = a'")
    case True
    then show False
      using page_byte_slice(2) [of b st a i] page_byte_slice(2) [of b st a j] that pq page_slices_apart [OF h, of a i j] p by auto
  next
    case False
    then show False
      using page_bytes_committed(2,4) [OF h, of a i b] page_bytes_committed(2,4) [OF h, of a' j b] that pq p
        seg_bytes_apart [of a a' b] by auto
  qed
  then show ?thesis by blast
qed

section \<open>From a pointer to its page\<close>

lemma ptr_segment_eq:
  assumes "unat a mod 0x2000000 = 0" "0 <s a" "unat a < unat p" "unat p \<le> unat a + 0x2000000"
  shows "pa_ptr_segment p = Some a"
proof -
  have m: "PA_SEGMENT_SIZE - 1 = mask 25" by (simp add: PA_SEGMENT_SIZE_def mask_eq_exp_minus_1)
  have u: "unat (p - 1) = unat p - 1" using assms(3) by (intro unat_minus_one) auto
  have "unat ((p - 1) AND NOT (mask 25)) = unat (p - 1) div 2 ^ 25 * 2 ^ 25" by (rule unat_and_not_mask)
  moreover have "unat (p - 1) div 2 ^ 25 = unat a div 2 ^ 25"
    using assms by (intro div_nat_eqI) (auto simp: u)
  moreover have "unat a div 2 ^ 25 * 2 ^ 25 = unat a" using assms(1) by auto
  ultimately have "(p - 1) AND NOT (mask 25) = a" by (simp add: word_unat_eq_iff)
  then show ?thesis using assms(2) by (simp add: pa_ptr_segment_def Let_def m)
qed

section \<open>Properties\<close>

text \<open>C2: in every history (\<open>span_history\<close>) of segment and page operations of a thread, the memory of a page that is in use is committed,
  lies inside an owned segment, and is shared with no other page in use: allocation, splitting, extending, freeing with
  coalescing, delayed purging and abandonment never hand out or take away memory of a live page.  Commits may fail everywhere but in one place:
  the histories leave out the extension of a page in place whose commit fails after the free span behind the page was taken (segment.c:837, see
  \<open>span_extend_failure\<close>).  An extension that its guards refuse, without a change, is in them.  The layers below keep their contracts (\<open>os_ok\<close>, \<open>arena_ok\<close>), and
  an arena hands out no segment that the thread already owns (\<open>arena_fresh\<close>).\<close>
theorem span_pages_exclusive:
  assumes "span_history comm st P S" "p \<in> P"
  shows "page_bytes st p \<noteq> {} \<and> page_bytes st p \<subseteq> comm (tl_os st) \<and> fst p \<in> S \<and> page_bytes st p \<subseteq> seg_bytes (fst p) \<and>
    (\<forall>q \<in> P. q \<noteq> p \<longrightarrow> page_bytes st p \<inter> page_bytes st q = {})"
proof -
  obtain T Q where h: "history_inv comm st P S T Q" using span_history_inv [OF assms(1)] by blast
  obtain a i where p: "p = (a, i)" by (cases p) auto
  have ne: "page_bytes st p \<noteq> {}" using page_in_history [OF h, of a i] assms(2) p by (auto simp: page_bytes_def)
  then show ?thesis
    using page_bytes_committed [OF h, of a i] assms(2) p page_bytes_apart [OF h assms(2)] by auto
qed

text \<open>C4: the constant-time lookup from a pointer to its page, as every free does it, is right in every history (\<open>span_history\<close>, so without an
  extension in place whose commit fails after the span was taken, segment.c:837): for an
  address inside a page in use, in the first 256 slices of the page (past these no interior pointers occur), masking gives the segment and the back
  offset of the slice gives the page.  The segment is at an address below \<open>2 ^ 63\<close>: the masking code takes an address that is negative as a
  signed number for no segment.\<close>
theorem span_page_of:
  assumes "span_history comm st P S" "p \<in> P" "0 <s fst p" "unat b \<in> page_bytes st p"
    and "(unat b - unat (fst p)) div 65536 \<le> snd p + PA_MAX_SLICE_OFFSET_COUNT"
  shows "pa_ptr_segment b = Some (fst p) \<and> pa_segment_page_of (tl_slices st) (fst p) b = p"
proof -
  obtain T Q where h: "history_inv comm st P S T Q" using span_history_inv [OF assms(1)] by blast
  obtain a i where p: "p = (a, i)" by (cases p) auto
  obtain ts c where t: "T a = Some ts" "(i, c, SUsed) \<in> set ts" "0 < i" "pg_slice_count (tl_slices st (a, i)) = c"
    "span_repr comm st T Q" using page_in_history [OF h, of a i] assms(2) p by metis
  have b: "unat b \<in> page_bytes st (a, i)" using assms(4) p by simp
  have mem: "(a, i) \<in> P" using assms(2) p by simp
  note C = page_bytes_committed [OF h mem b]
  note B = page_byte_slice [OF b]
  define k where "k = (unat b - unat a) div 65536"
  have k: "i \<le> k" "k < i + c" "k \<le> i + PA_MAX_SLICE_OFFSET_COUNT"
    using B(2) t(4) assms(5) p by (simp_all add: page_slices_def k_def)
  have "unat a + 65536 \<le> unat b" using b t(3) by (auto simp: page_bytes_def)
  then have "pa_ptr_segment b = Some a"
    using C(2,4) assms(3) p by (intro ptr_segment_eq) (auto simp: seg_bytes_def)
  moreover have "unat (drop_bit 16 (b - a)) = k"
    unfolding k_def unat_drop_bit using B(1) by (simp add: unat_sub word_le_nat_alt)
  moreover have "k - pg_slice_offset (tl_slices st (a, k)) div sizeof_slice = i"
  proof (cases "k = i")
    case True
    then show ?thesis using span_reprD(3) [OF t(5,1,2)] by (simp add: span_ok_def)
  next
    case False
    then have j: "0 < k - i" "k - i < c" "k - i \<le> PA_MAX_SLICE_OFFSET_COUNT" "i + (k - i) = k" using k by auto
    then have "pg_slice_offset (tl_slices st (a, i + (k - i))) = sizeof_slice * (k - i)"
      using span_reprD(3) [OF t(5,1,2)] unfolding span_ok_def by blast
    then show ?thesis using j(4) k(1) by simp
  qed
  ultimately show ?thesis using p by (simp add: pa_segment_page_of_def pa_slice_first_def Let_def)
qed

text \<open>C11: freeing a page in use returns, after every history (\<open>span_history\<close>): the walk over the spans of a segment that became empty (or all abandoned)
  ends, and afterwards the page, or with its segment every page of the segment, is out of use.  The histories leave out the extension of a
  page in place whose commit fails after the span was taken (segment.c:837); after it the walk can meet a slice whose stale
  count no longer leads to the next span.\<close>
theorem span_page_free_returns:
  assumes "span_history comm st P S" "os_ok comm env" "arena_ok comm ar" "p \<in> P"
  shows "\<exists>st'. pa_segment_page_free env ar p st = Some st' \<and>
    (span_history comm st' (P - {p}) S \<or> span_history comm st' (drop_segment (fst p) P) (S - {fst p}))"
proof -
  obtain T Q where h: "history_inv comm st P S T Q" using span_history_inv [OF assms(1)] by blast
  obtain a i where p: "p = (a, i)" by (cases p) auto
  have inv: "span_inv comm st T Q" and mem: "(a, i) \<in> pages_of T" using h assms(4) p by (simp_all add: history_inv_def)
  obtain xs c ys where t: "T a = Some (xs @ (i, c, SUsed) # ys)" "xs \<noteq> []" using page_span [OF inv mem] by metis
  obtain st' where "pa_segment_page_free env ar (a, i) st = Some st'" using page_free_inv [OF assms(2,3) inv t] by blast
  then show ?thesis
    using span_history.free_page [OF assms] span_history.free_page_segment [OF assms] p by blast
qed

lemma free_run_span:
  assumes ch: "spans_from m ts n" and ap: "apart_free ts" and nt: "not_taken ts" and k: "m \<le> k" "0 < len" "k + len \<le> n"
    and out: "\<And>j c. (j, c, SUsed) \<in> set ts \<Longrightarrow> {k..<k + len} \<inter> {j..<j + c} = {}"
  shows "\<exists>i c. (i, c, SFree) \<in> set ts \<and> i \<le> k \<and> k + len \<le> i + c"
  using assms
proof (induction ts arbitrary: m)
  case (Cons t ts)
  obtain c s where t: "t = (m, c, s)" "0 < c" "spans_from (m + c) ts n" using Cons.prems(1) by (cases t) auto
  show ?case
  proof (cases "m + c \<le> k")
    case True
    have "\<exists>i c. (i, c, SFree) \<in> set ts \<and> i \<le> k \<and> k + len \<le> i + c"
      by (rule Cons.IH [OF t(3)]) (use Cons.prems True in \<open>auto simp: successively_Cons\<close>)
    then show ?thesis by auto
  next
    case False
    have "s \<noteq> SUsed" using Cons.prems(7) [of m c] Cons.prems(4,5) False t by auto
    then have s: "s = SFree" using Cons.prems(3) t by (cases s) auto
    have "k + len \<le> m + c"
    proof (rule ccontr)
      assume n: "\<not> k + len \<le> m + c"
      then have "ts \<noteq> []" using t(3) Cons.prems(6) by (cases ts) auto
      then obtain c' s' ts' where ts: "ts = (m + c, c', s') # ts'" "0 < c'" using t(3) by (cases ts) auto
      have "s' \<noteq> SFree" using Cons.prems(2) t s ts by (auto simp: successively_Cons)
      moreover have "s' \<noteq> STaken" using Cons.prems(3) ts by auto
      ultimately have "s' = SUsed" by (cases s') auto
      then have "(m + c, c', SUsed) \<in> set (t # ts)" using ts by simp
      from Cons.prems(7) [OF this] show False using n False ts(2) by auto
    qed
    then show ?thesis using t s Cons.prems(4) by (intro exI [of _ m] exI [of _ c]) auto
  qed
qed simp

text \<open>The spans of a segment that this thread owns, the ones of its pages and the one of the segment information included.\<close>

definition slices_unused :: "'o pa_segments_tld \<Rightarrow> slice_ref set \<Rightarrow> uintptr_t \<Rightarrow> nat \<Rightarrow> nat \<Rightarrow> bool" where
  "slices_unused st P a k len \<longleftrightarrow> pg_slice_count (tl_slices st (a, 0)) \<le> k \<and> k + len \<le> sg_slice_entries (tl_segs st a) \<and>
     (\<forall>i. (a, i) \<in> P \<longrightarrow> {k..<k + len} \<inter> page_slices st (a, i) = {})"

text \<open>Unused slices are the ones of the free spans.\<close>

lemma unused_free_span:
  assumes h: "history_inv comm st P S T Q" and T: "T a = Some ts" and un: "slices_unused st P a k n" "0 < n"
  shows "\<exists>i c. (i, c, SFree) \<in> set ts \<and> i \<le> k \<and> k + n \<le> i + c"
proof -
  have repr: "span_repr comm st T Q" and good: "spans_good (sg_used (tl_segs st a)) ts" and P: "P = pages_of T"
    using h T by (auto simp: history_inv_def span_inv_def)
  note un' = un(1) [unfolded slices_unused_def]
  have out: "{k..<k + n} \<inter> {j..<j + c} = {}" if m: "(j, c, SUsed) \<in> set ts" for j c
  proof (cases "j = 0")
    case True
    have "pg_slice_count (tl_slices st (a, 0)) = c" using span_reprD(3) [OF repr T m] True by (simp add: span_ok_def)
    then show ?thesis using un' True by auto
  next
    case False
    then have "(a, j) \<in> P" using m T P by (auto simp: pages_of_def)
    then show ?thesis using un' span_reprD(3) [OF repr T m] by (auto simp: page_slices_def span_ok_def)
  qed
  show ?thesis
    using free_run_span [OF span_reprD(2) [OF repr T], of k n] good un' un(2) out by (auto simp: spans_good_def)
qed

lemma free_span_unused:
  assumes h: "history_inv comm st P S T Q" and T: "T a = Some ts" and f: "(i, c, SFree) \<in> set ts" "n \<le> c"
  shows "slices_unused st P a i n"
proof -
  have repr: "span_repr comm st T Q" and good: "spans_good (sg_used (tl_segs st a)) ts" and P: "P = pages_of T"
    using h T by (auto simp: history_inv_def span_inv_def)
  have off: "{i..<i + n} \<inter> {j..<j + d} = {}" if "(j, d, SUsed) \<in> set ts" for j d
    using spans_from_unique [OF span_reprD(2) [OF repr T] f(1) that] f(2) by auto
  obtain c0 ts' where hd: "ts = (0, c0, SUsed) # ts'" using good by (auto simp: spans_good_def)
  then have m0: "(0, c0, SUsed) \<in> set ts" by simp
  have "\<not> i < c0" using spans_from_unique [OF span_reprD(2) [OF repr T] f(1) m0] span_bounds(1) [OF repr T f(1)] by auto
  then have "pg_slice_count (tl_slices st (a, 0)) \<le> i" using span_reprD(3) [OF repr T m0] by (simp add: span_ok_def)
  moreover have "i + n \<le> sg_slice_entries (tl_segs st a)" using span_bounds(2) [OF repr T f(1)] f(2) by simp
  moreover have "{i..<i + n} \<inter> page_slices st (a, j) = {}" if pj: "(a, j) \<in> P" for j
  proof -
    obtain d where d: "(j, d, SUsed) \<in> set ts" using pj T P by (auto simp: pages_of_def)
    then show ?thesis using off [OF d] span_reprD(3) [OF repr T d] by (simp add: page_slices_def span_ok_def)
  qed
  ultimately show ?thesis by (simp add: slices_unused_def)
qed

text \<open>C9: the segregated search for a span is complete.  When some owned segment, in an arena that suits the request, has
  as many consecutive slices in no page as are asked for, the search returns a page of the segments of this thread, provided the system refuses no
  commit: in every history (\<open>span_history\<close>) free slices are merged into maximal spans and every free span is in the queue where the search looks.
  The histories leave out the extension of a page in place whose commit fails after the span was taken (segment.c:837), which leaves the taken slices in no page and no queue
  (\<open>span_extend_failure\<close>).\<close>
theorem span_search_complete:
  assumes "span_history comm st P S" "os_ok comm env" "0 < n" "n \<le> 512"
    and "a \<in> S" "pa_arena_memid_is_suitable (sg_memid (tl_segs st a)) req" "slices_unused st P a k n" "\<not> commit_refused env"
  shows "\<exists>p st'. pa_segments_page_find_and_allocate env n req st = Some (Some p, st') \<and> p \<notin> P \<and> fst p \<in> S \<and>
    span_history comm st' (insert p P) S \<and> pg_block_size (tl_slices st' p) = of_nat n * PA_SEGMENT_SLICE_SIZE"
proof -
  obtain T Q where h: "span_inv comm st T Q" "S = dom T" "P = pages_of T"
    using span_history_inv [OF assms(1)] by (auto simp: history_inv_def)
  have hist: "history_inv comm st P S T Q" using h by (simp add: history_inv_def)
  obtain ts where T: "T a = Some ts" using assms(5) h(2) by auto
  have repr: "span_repr comm st T Q" using h(1) by (simp add: span_inv_def)
  obtain i c where "(i, c, SFree) \<in> set ts" "i \<le> k" "k + n \<le> i + c" using unused_free_span [OF hist T assms(7,3)] by blast
  then have free: "(i, c, SFree) \<in> set ts" "n \<le> c" by simp_all
  obtain r st' Q' where r: "pa_segments_page_find_and_allocate env n req st = Some (r, st')" and
    c: "case r of
       Some (a, i) \<Rightarrow> \<exists>xs ys c. T a = Some (xs @ (i, c, SFree) # ys) \<and> n \<le> c \<and>
         pa_arena_memid_is_suitable (sg_memid (tl_segs st a)) req \<and>
         pg_block_size (tl_slices st' (a, i)) = of_nat n * PA_SEGMENT_SLICE_SIZE \<and>
         span_inv comm st' (T(a \<mapsto> xs @ (i, n, SUsed) # (if n < c then (i + n, c - n, SFree) # ys else ys))) Q'
     | None \<Rightarrow> span_inv comm st' T Q' \<and>
         (st' = st \<and> (\<forall>a ts i c. T a = Some ts \<and> (i, c, SFree) \<in> set ts \<and> n \<le> c \<longrightarrow>
            \<not> pa_arena_memid_is_suitable (sg_memid (tl_segs st a)) req) \<or>
          (\<exists>a ts i c. T a = Some ts \<and> (i, c, SFree) \<in> set ts \<and> n \<le> c \<and>
            pa_arena_memid_is_suitable (sg_memid (tl_segs st a)) req \<and> span_commit_fails env st a i n))"
    using find_and_allocate_spec [OF assms(2) h(1) assms(3,4), of req] by blast
  have "r \<noteq> None"
  proof
    assume "r = None"
    then have "(\<forall>a ts i c. T a = Some ts \<and> (i, c, SFree) \<in> set ts \<and> n \<le> c \<longrightarrow>
        \<not> pa_arena_memid_is_suitable (sg_memid (tl_segs st a)) req) \<or> (\<exists>a i. span_commit_fails env st a i n)"
      using c unfolding \<open>r = None\<close> option.case by blast
    moreover have "\<not> span_commit_fails env st a i n" for a i using assms(8) span_commit_fails_os unfolding commit_refused_def by blast
    ultimately show False using T free assms(6) by blast
  qed
  then obtain b j where rj: "r = Some (b, j)" by (cases r) auto
  obtain xs ys d where f: "T b = Some (xs @ (j, d, SFree) # ys)"
    "pg_block_size (tl_slices st' (b, j)) = of_nat n * PA_SEGMENT_SLICE_SIZE" using c rj by auto
  have "(b, j) \<notin> P"
  proof
    assume "(b, j) \<in> P"
    then obtain d' where "(j, d', SUsed) \<in> set (xs @ (j, d, SFree) # ys)" using f(1) h(3) by (auto simp: pages_of_def)
    then show False using page_mem [OF repr f(1), of j d' SUsed] by auto
  qed
  moreover have "span_history comm st' (insert (b, j) P) S"
    using span_history.new_page [OF assms(1-4) r] rj by simp
  ultimately show ?thesis using r rj f h(2) by auto
qed

lemma history_inv_slices:
  assumes "history_inv comm st P S T Q" "history_inv comm st' P S T Q'" "p \<in> P"
  shows "page_bytes st' p = page_bytes st p"
proof -
  obtain a i where p: "p = (a, i)" by (cases p) auto
  obtain ts c where t: "T a = Some ts" "(i, c, SUsed) \<in> set ts" "pg_slice_count (tl_slices st (a, i)) = c"
    using page_in_history [OF assms(1), of a i] assms(3) p by metis
  have "span_repr comm st' T Q'" using assms(2) by (simp add: history_inv_def span_inv_def)
  from span_reprD(3) [OF this t(1,2)] show ?thesis using t(3) p by (simp add: page_bytes_def span_ok_def)
qed

lemma extend_failure_pages:
  assumes h: "history_inv comm st P S T Q" and t: "T a = Some ts" and r: "span_repr comm st' (T(a \<mapsto> ts')) Q'"
    and used: "\<And>j d. (j, d, SUsed) \<in> set ts \<Longrightarrow> (j, d, SUsed) \<in> set ts'" and p: "p \<in> P"
  shows "page_bytes st' p = page_bytes st p \<and> page_bytes st p \<subseteq> comm (tl_os st')"
proof -
  obtain b i where bi: "p = (b, i)" by (cases p) auto
  obtain us c where u: "T b = Some us" "(i, c, SUsed) \<in> set us" "pg_slice_count (tl_slices st (b, i)) = c"
    using page_in_history [OF h, of b i] p bi by metis
  obtain vs where v: "(T(a \<mapsto> ts')) b = Some vs" "(i, c, SUsed) \<in> set vs"
    using u t used by (cases "b = a") auto
  note D = span_reprD [OF r v(1)]
  have same: "page_bytes st' p = page_bytes st p" using D(3) [OF v(2)] u(3) by (simp add: bi page_bytes_def span_ok_def)
  have live: "{i..<i + c} \<subseteq> bits_of (sg_commit_mask (tl_segs st' b))" using D(4) [OF v(2)] by (auto simp: span_live_def)
  have "x \<in> comm (tl_os st')" if x: "x \<in> page_bytes st p" for x
  proof -
    note B = page_byte_slice [OF x [unfolded bi]]
    have "slice_of (tl_segs st' b) x \<in> bits_of (sg_commit_mask (tl_segs st' b))"
      using B(2) u(3) live seg_ownedD(1) [OF D(1)] by (auto simp: page_slices_def slice_of_def)
    then show ?thesis using B(1) seg_ownedD(1,2) [OF D(1)] by (simp add: seg_inv_def commit_sound_def)
  qed
  then show ?thesis using same by blast
qed

text \<open>C14: a failed allocation has no effect on the pages in use, and its reason is named.  When a new normal segment cannot be had, this very request
  failed: the arena layer gave no memory for it, or gave memory that was not committed and the commit of the segment information failed.
  When a span of 1 to 512 slices for a new page cannot be had, then either nothing changed and no owned segment in a suitable arena has as many consecutive
  slices in no page, or such slices were found in an owned, suitable segment and committing just these failed.  In all cases the
  span bookkeeping is as consistent as before, and every page keeps its bytes, which are still committed.  The state before is one of a history
  (\<open>span_history\<close>), so none after an extension in place whose commit failed once the span was taken (segment.c:837).\<close>
theorem span_allocation_error:
  assumes "span_history comm st P S" "os_ok comm env" "arena_ok comm ar" "arena_fresh ar S (tl_os st)" "0 < n" "n \<le> 512"
    and "pa_segment_alloc env ar 0 0 req st = (None, st') \<or> pa_segments_page_find_and_allocate env n req st = Some (None, st')"
  shows "span_history comm st' P S \<and> (\<forall>p \<in> P. page_bytes st' p = page_bytes st p \<and> page_bytes st p \<subseteq> comm (tl_os st')) \<and>
    (pa_segment_alloc env ar 0 0 req st = (None, st') \<longrightarrow> segment_refused env ar req st) \<and>
    (pa_segments_page_find_and_allocate env n req st = Some (None, st') \<longrightarrow>
      st' = st \<and> (\<forall>a \<in> S. pa_arena_memid_is_suitable (sg_memid (tl_segs st a)) req \<longrightarrow> (\<forall>k. \<not> slices_unused st P a k n)) \<or>
      (\<exists>a \<in> S. \<exists>i. pa_arena_memid_is_suitable (sg_memid (tl_segs st a)) req \<and> slices_unused st P a i n \<and> span_commit_fails env st a i n))"
proof -
  obtain T Q where h: "history_inv comm st P S T Q" using span_history_inv [OF assms(1)] by blast
  then have inv: "span_inv comm st T Q" "S = dom T" by (simp_all add: history_inv_def)
  have fresh: "arena_fresh ar (dom T) (tl_os st)" using assms(4) inv(2) by simp
  have seg: "span_history comm st' P S \<and> (\<exists>Q'. span_inv comm st' T Q') \<and> segment_refused env ar req st"
    if r: "pa_segment_alloc env ar 0 0 req st = (None, st')"
    using segment_alloc_inv [OF assms(2,3) inv(1) fresh r] span_history.new_segment [OF assms(1-4) r] by auto
  have find: "span_history comm st' P S \<and> (\<exists>Q'. span_inv comm st' T Q') \<and>
      (st' = st \<and> (\<forall>a \<in> S. pa_arena_memid_is_suitable (sg_memid (tl_segs st a)) req \<longrightarrow> (\<forall>k. \<not> slices_unused st P a k n)) \<or>
      (\<exists>a \<in> S. \<exists>i. pa_arena_memid_is_suitable (sg_memid (tl_segs st a)) req \<and> slices_unused st P a i n \<and> span_commit_fails env st a i n))"
    if r: "pa_segments_page_find_and_allocate env n req st = Some (None, st')"
  proof -
    have "\<exists>Q'. span_inv comm st' T Q' \<and>
         (st' = st \<and> (\<forall>a ts i c. T a = Some ts \<and> (i, c, SFree) \<in> set ts \<and> n \<le> c \<longrightarrow>
            \<not> pa_arena_memid_is_suitable (sg_memid (tl_segs st a)) req) \<or>
          (\<exists>a ts i c. T a = Some ts \<and> (i, c, SFree) \<in> set ts \<and> n \<le> c \<and>
            pa_arena_memid_is_suitable (sg_memid (tl_segs st a)) req \<and> span_commit_fails env st a i n))"
      using find_and_allocate_spec [OF assms(2) inv(1) assms(5,6), of req] r by auto
    then obtain Q' where Q': "span_inv comm st' T Q'" and
      why: "st' = st \<and> (\<forall>a ts i c. T a = Some ts \<and> (i, c, SFree) \<in> set ts \<and> n \<le> c \<longrightarrow>
            \<not> pa_arena_memid_is_suitable (sg_memid (tl_segs st a)) req) \<or>
          (\<exists>a ts i c. T a = Some ts \<and> (i, c, SFree) \<in> set ts \<and> n \<le> c \<and>
            pa_arena_memid_is_suitable (sg_memid (tl_segs st a)) req \<and> span_commit_fails env st a i n)" by blast
    have "span_history comm st' P S" using span_history.new_page [OF assms(1,2,5,6) r] by simp
    moreover from why have "st' = st \<and> (\<forall>a \<in> S. pa_arena_memid_is_suitable (sg_memid (tl_segs st a)) req \<longrightarrow> (\<forall>k. \<not> slices_unused st P a k n)) \<or>
      (\<exists>a \<in> S. \<exists>i. pa_arena_memid_is_suitable (sg_memid (tl_segs st a)) req \<and> slices_unused st P a i n \<and> span_commit_fails env st a i n)"
    proof (elim disjE conjE exE)
      assume none: "st' = st" "\<forall>a ts i c. T a = Some ts \<and> (i, c, SFree) \<in> set ts \<and> n \<le> c \<longrightarrow>
            \<not> pa_arena_memid_is_suitable (sg_memid (tl_segs st a)) req"
      have "\<not> slices_unused st P a k n" if a: "a \<in> S" "pa_arena_memid_is_suitable (sg_memid (tl_segs st a)) req" for a k
      proof
        assume u: "slices_unused st P a k n"
        obtain ts where T: "T a = Some ts" using a(1) inv(2) by auto
        obtain i c where f: "(i, c, SFree) \<in> set ts" "i \<le> k" "k + n \<le> i + c" using unused_free_span [OF h T u assms(5)] by blast
        then have "n \<le> c" by simp
        then show False using none(2) [THEN spec, of a] T f(1) a(2) by blast
      qed
      then show ?thesis using none(1) by blast
    next
      fix a ts i c
      assume f: "T a = Some ts" "(i, c, SFree) \<in> set ts" "n \<le> c" "pa_arena_memid_is_suitable (sg_memid (tl_segs st a)) req"
        "span_commit_fails env st a i n"
      have "a \<in> S" using f(1) inv(2) by auto
      then show ?thesis using free_span_unused [OF h f(1-3)] f(4,5) by blast
    qed
    ultimately show ?thesis using Q' by blast
  qed
  obtain Q' where q: "span_inv comm st' T Q'" "span_history comm st' P S" using assms(7) seg find by blast
  have h': "history_inv comm st' P S T Q'" using q(1) h by (simp add: history_inv_def)
  have "page_bytes st' p = page_bytes st p \<and> page_bytes st p \<subseteq> comm (tl_os st')" if "p \<in> P" for p
  proof -
    obtain a i where p: "p = (a, i)" by (cases p) auto
    have "page_bytes st' p = page_bytes st p" by (rule history_inv_slices [OF h h' that])
    moreover have "page_bytes st' p \<subseteq> comm (tl_os st')"
      using page_bytes_committed(1) [OF h', of a i] that p by auto
    ultimately show ?thesis by simp
  qed
  then show ?thesis using q(2) seg find by blast
qed

text \<open>The spans in the queues of the thread.\<close>

definition queues_hold :: "'o pa_segments_tld \<Rightarrow> (nat \<Rightarrow> slice_ref list) \<Rightarrow> bool" where
  "queues_hold st Q \<longleftrightarrow> (\<forall>b \<le> PA_SEGMENT_BIN_MAX.
     pages.dll (tl_slices st) (sq_first (tl_spans st b)) (sq_last (tl_spans st b)) (Q b))"

text \<open>C37: what an extension of a page in place does when it returns false, after a history (\<open>span_history\<close>).  Either nothing changed, and the slices behind the page were
  not all unused.  Or they were, and committing just these failed (segment.c:837): then every page still has its bytes, committed, but the slices that were
  taken are lost, since no span in a queue contains one of them and the first of them keeps its old count, which spans the queued rest as well.\<close>
theorem span_extend_failure:
  assumes "span_history comm st P S" "os_ok comm env" "(a, i) \<in> P" "0 < need"
    and "pa_segment_try_extend_span env (a, i) need st = (False, st')" "k = i + pg_slice_count (tl_slices st (a, i))"
  shows "st' = st \<and> \<not> slices_unused st P a k need \<or>
    slices_unused st P a k need \<and> span_commit_fails env st a k need \<and>
    (\<forall>p \<in> P. page_bytes st' p = page_bytes st p \<and> page_bytes st p \<subseteq> comm (tl_os st')) \<and>
    pg_slice_count (tl_slices st' (a, k)) = pg_slice_count (tl_slices st (a, k)) \<and>
    (\<exists>Q. queues_hold st' Q \<and> (\<forall>b \<le> PA_SEGMENT_BIN_MAX. \<forall>j. (a, j) \<in> set (Q b) \<longrightarrow> page_slices st' (a, j) \<inter> {k..<k + need} = {}))"
proof -
  obtain T Q where h: "history_inv comm st P S T Q" using span_history_inv [OF assms(1)] by blast
  then have inv: "span_inv comm st T Q" and P: "P = pages_of T" and mem: "(a, i) \<in> pages_of T"
    using assms(3) by (simp_all add: history_inv_def)
  have repr: "span_repr comm st T Q" using inv by (simp add: span_inv_def)
  obtain xs c ys where t: "T a = Some (xs @ (i, c, SUsed) # ys)" using page_span [OF inv mem] by metis
  have cnt: "pg_slice_count (tl_slices st (a, i)) = c" using span_repr_slice(1) [OF repr t, of i c SUsed] by simp
  have k: "k = i + c" using assms(6) cnt by simp
  show ?thesis
  proof (cases "extend_guards st (a, i) need")
    case False
    have "st' = st" using assms(5) try_extend_guarded [OF False, of env] by simp
    moreover have "\<not> slices_unused st P a k need"
    proof
      assume u: "slices_unused st P a k need"
      obtain j d where f: "(j, d, SFree) \<in> set (xs @ (i, c, SUsed) # ys)" "j \<le> k" "k + need \<le> j + d"
        using unused_free_span [OF h t u assms(4)] by blast
      have "(i, c, SUsed) \<in> set (xs @ (i, c, SUsed) # ys)" by simp
      then have "\<not> (j < i + c \<and> i < j + d)" using spans_from_unique [OF span_reprD(2) [OF repr t] f(1)] by auto
      then have j: "j = k" using f(2,3) k assms(4) by linarith
      then have "need \<le> d" "0 < d" using f(3) assms(4) by simp_all
      moreover have "k + need \<le> sg_slice_entries (tl_segs st a)" using u by (simp add: slices_unused_def)
      moreover have "pg_slice_count (tl_slices st (a, k)) = d" "pg_block_size (tl_slices st (a, k)) = 0"
        using span_reprD(3) [OF repr t f(1)] j by (simp_all add: span_ok_def)
      ultimately have "extend_guards st (a, i) need" using k cnt by (simp add: extend_guards_def Let_def)
      then show False using False by blast
    qed
    ultimately show ?thesis by blast
  next
    case True
    obtain n zs Q' where y: "ys = (k, n, SFree) # zs" "need \<le> n" and fail: "span_commit_fails env st a k need"
      and cnt': "pg_slice_count (tl_slices st' (a, k)) = n"
      and r': "span_repr comm st' (T(a \<mapsto> xs @ [(i, c, SUsed), (k, need, STaken)] @ (if need < n then (k + need, n - need, SFree) # zs else zs))) Q'"
      using extend_fails_cases [OF assms(2) inv t assms(4) True assms(5)] unfolding k by auto
    define ts' where "ts' = xs @ [(i, c, SUsed), (k, need, STaken)] @ (if need < n then (k + need, n - need, SFree) # zs else zs)"
    have fr: "(k, n, SFree) \<in> set (xs @ (i, c, SUsed) # ys)" using y by simp
    have un: "slices_unused st P a k need" by (rule free_span_unused [OF h t fr y(2)])
    have "pg_slice_count (tl_slices st (a, k)) = n" using span_reprD(3) [OF repr t fr] by (simp add: span_ok_def)
    then have same: "pg_slice_count (tl_slices st' (a, k)) = pg_slice_count (tl_slices st (a, k))" using cnt' by simp
    have pages: "page_bytes st' p = page_bytes st p \<and> page_bytes st p \<subseteq> comm (tl_os st')" if p: "p \<in> P" for p
      by (rule extend_failure_pages [OF h t r' [folded ts'_def] _ p]) (auto simp: ts'_def y)
    have T': "(T(a \<mapsto> ts')) a = Some ts'" by simp
    have lost: "page_slices st' (a, j) \<inter> {k..<k + need} = {}" if b: "b \<le> PA_SEGMENT_BIN_MAX" and j: "(a, j) \<in> set (Q' b)" for b j
    proof -
      obtain d where d: "(j, d, SFree) \<in> set ts'" using span_repr_queue(2) [OF r' [folded ts'_def] b, of a j] j by auto
      have tk: "(k, need, STaken) \<in> set ts'" by (simp add: ts'_def)
      have "\<not> (j < k + need \<and> k < j + d)" using spans_from_unique [OF span_reprD(2) [OF r' [folded ts'_def] T'] d tk] by auto
      then show ?thesis using span_reprD(3) [OF r' [folded ts'_def] T' d] by (auto simp: page_slices_def span_ok_def)
    qed
    have "queues_hold st' Q'" using span_repr_queue(1) [OF r'] by (simp add: queues_hold_def)
    then show ?thesis using un fail pages same lost by blast
  qed
qed

section \<open>A concrete history\<close>

definition demo_arena :: "nat set arena_env" where
  "demo_arena = \<lparr>ar_alloc = \<lambda>os sz al ofs c l req.
       (Some (if al = PA_SEGMENT_SIZE \<and> sz = PA_SEGMENT_SIZE then 0x2000000 else 0, demo_memid), os),
     ar_free = \<lambda>os a sz csz memid. os - {unat a..<unat a + unat sz}, ar_reset = \<lambda>os a sz. os,
     ar_mark_abandoned = \<lambda>os a. os, ar_os_page_size = 0x1000, ar_sizeof_segment = 0xC190, ar_thread_id = 1,
     ar_thread_count = 1, opt_eager_commit = False, opt_eager_commit_delay = 1, opt_page_reset = False,
     opt_abandoned_page_purge = False\<rparr>"

definition demo_tld :: "nat set pa_segments_tld" where
  "demo_tld = \<lparr>tl_slices = \<lambda>_. zero_slice, tl_segs = \<lambda>_. demo_segment,
     tl_spans = \<lambda>_. \<lparr>sq_first = None, sq_last = None, sq_slice_count = 0\<rparr>, tl_count = 0, tl_peak_count = 0,
     tl_current_size = 0, tl_peak_size = 0, tl_reclaim_count = 0, tl_os = {}\<rparr>"

lemma demo_slices: "pa_segment_calculate_slices 0x1000 0xC190 0 = (512, 1)"
  by (simp add: pa_segment_calculate_slices_def pa_align_up_def size_consts Let_def)

lemma demo_arena_ok: "arena_ok (\<lambda>os. os) demo_arena" "arena_fresh demo_arena {} os" "\<not> arena_refuses demo_arena"
proof -
  have "unat (sz :: size_t) < 18446744073709551616" for sz using unsigned_less [of sz] by simp
  then show "arena_ok (\<lambda>os. os) demo_arena"
    by (auto simp: arena_ok_def demo_arena_def demo_slices demo_memid_def PA_SEGMENT_SIZE_def)
qed (simp_all add: demo_arena_def arena_fresh_def arena_refuses_def)

lemma demo_env_commits: "\<not> commit_refused demo_env"
  by (simp add: commit_refused_def demo_env_def)

lemma demo_segment_history:
  obtains st T Q where "pa_segment_alloc demo_env demo_arena 0 0 0 demo_tld = (Some (0x2000000, None), st)"
    "span_history (\<lambda>os. os) st {} {0x2000000}" "sg_memid (tl_segs st 0x2000000) = demo_memid"
    "slices_unused st {} 0x2000000 511 1"
proof -
  have h0: "span_history (\<lambda>os. os) demo_tld {} {}" by (rule span_history.start) (simp add: queues_empty_def demo_tld_def)
  have i0: "span_inv (\<lambda>os. os) demo_tld Map.empty (\<lambda>_. [])"
    by (simp add: span_inv_def span_repr_def demo_tld_def pages.dll_def)
  obtain r st where r: "pa_segment_alloc demo_env demo_arena 0 0 0 demo_tld = (r, st)" by (meson surj_pair)
  have fr: "arena_fresh demo_arena (dom Map.empty) (tl_os demo_tld)" using demo_arena_ok(2) by simp
  have sz: "of_nat 512 * PA_SEGMENT_SLICE_SIZE = PA_SEGMENT_SIZE" by (simp add: size_consts)
  obtain a info Q os os' c l memid where a: "r = Some (a, None)" "sg_memid (tl_segs st a) = memid"
    "ar_alloc demo_arena os (of_nat 512 * PA_SEGMENT_SLICE_SIZE) PA_SEGMENT_SIZE 0 c l 0 = (Some (a, memid), os')"
    and inv: "0 < info" "info < 512" "span_inv (\<lambda>os. os) st (Map.empty(a \<mapsto> [(0, info, SUsed), (info, 512 - info, SFree)])) Q"
    using segment_alloc_inv [OF demo_ok(1) demo_arena_ok(1) i0 fr r] segment_refusedD demo_arena_ok(3) demo_env_commits by blast
  have a': "a = 0x2000000" "memid = demo_memid" using a(3) unfolding sz by (simp_all add: demo_arena_def)
  have h: "span_history (\<lambda>os. os) st {} {0x2000000}"
    using span_history.new_segment [OF h0 demo_ok(1) demo_arena_ok(1) demo_arena_ok(2) r] a a' by simp
  have repr: "span_repr (\<lambda>os. os) st (Map.empty(a \<mapsto> [(0, info, SUsed), (info, 512 - info, SFree)])) Q"
    using inv(3) by (simp add: span_inv_def)
  have T: "(Map.empty(a \<mapsto> [(0, info, SUsed), (info, 512 - info, SFree)])) a = Some [(0, info, SUsed), (info, 512 - info, SFree)]" by simp
  have "sg_slice_entries (tl_segs st a) = 512" using span_reprD(2) [OF repr T] inv(2) by simp
  moreover have "pg_slice_count (tl_slices st (a, 0)) = info"
    using span_reprD(3) [OF repr T, of "(0, info, SUsed)"] by (simp add: span_ok_def)
  ultimately have "slices_unused st {} 0x2000000 511 1" using inv(2) a'(1) by (simp add: slices_unused_def)
  then show ?thesis
    by (intro that) (use r a a' h in auto)
qed

theorem span_search_complete_witness:
  "\<exists>st p st'. span_history (\<lambda>os. os) st {} {0x2000000} \<and> pa_segments_page_find_and_allocate demo_env 1 0 st = Some (Some p, st') \<and>
     span_history (\<lambda>os. os) st' {p} {0x2000000} \<and> fst p = 0x2000000"
proof -
  obtain st where h: "span_history (\<lambda>os. os) st {} {0x2000000}" "sg_memid (tl_segs st 0x2000000) = demo_memid"
    "slices_unused st {} 0x2000000 511 1" by (rule demo_segment_history)
  have "pa_arena_memid_is_suitable (sg_memid (tl_segs st 0x2000000)) 0"
    by (simp add: h(2) demo_memid_def pa_arena_memid_is_suitable_def pa_arena_id_is_suitable_def)
  from span_search_complete [OF h(1) demo_ok(1) _ _ _ this h(3) demo_env_commits] show ?thesis
    using h(1) by auto
qed

lemma demo_page_history:
  obtains st i where "span_history (\<lambda>os. os) st {(0x2000000, i)} {0x2000000}"
proof -
  obtain st where h: "span_history (\<lambda>os. os) st {} {0x2000000}" "sg_memid (tl_segs st 0x2000000) = demo_memid"
    "slices_unused st {} 0x2000000 511 1" by (rule demo_segment_history)
  obtain T Q where hi: "history_inv (\<lambda>os. os) st {} {0x2000000} T Q" using span_history_inv [OF h(1)] by blast
  then have inv: "span_inv (\<lambda>os. os) st T Q" and dT: "dom T = {0x2000000}" and P: "pages_of T = {}" by (auto simp: history_inv_def)
  obtain ts where T: "T 0x2000000 = Some ts" using dT by auto
  obtain i c where "(i, c, SFree) \<in> set ts" "i \<le> 511" "511 + 1 \<le> i + c" using unused_free_span [OF hi T h(3)] by auto
  then have free: "(i, c, SFree) \<in> set ts" "1 \<le> c" by simp_all
  have suit: "pa_arena_memid_is_suitable (sg_memid (tl_segs st 0x2000000)) 0"
    by (simp add: h(2) demo_memid_def pa_arena_memid_is_suitable_def pa_arena_id_is_suitable_def)
  obtain r st' where r: "pa_segments_page_find_and_allocate demo_env 1 0 st = Some (r, st')" and
    n: "r = None \<Longrightarrow> False" "\<And>a i. r = Some (a, i) \<Longrightarrow> T a \<noteq> None"
    using find_and_allocate_spec [OF demo_ok(1) inv, of 1 0] free T suit demo_env_commits
    span_commit_fails_os unfolding commit_refused_def by (fastforce split: option.splits)
  obtain a i where rs: "r = Some (a, i)" using n(1) by (cases r) auto
  have "a = 0x2000000" using n(2) [OF rs] dT by blast
  then show ?thesis
    using that span_history.new_page [OF h(1) demo_ok(1) _ _ r] rs by auto
qed

theorem span_pages_exclusive_witness:
  "\<exists>st i. span_history (\<lambda>os. os) st {(0x2000000, i)} {0x2000000} \<and> page_bytes st (0x2000000, i) \<noteq> {} \<and>
     page_bytes st (0x2000000, i) \<subseteq> tl_os st"
proof -
  obtain st i where h: "span_history (\<lambda>os. os) st {(0x2000000, i)} {0x2000000}" by (rule demo_page_history)
  from span_pages_exclusive [OF h, of "(0x2000000, i)"] h show ?thesis by blast
qed

theorem span_page_of_witness:
  "\<exists>st i. span_history (\<lambda>os. os) st {(0x2000000, i)} {0x2000000} \<and>
     pa_ptr_segment (0x2000000 + of_nat i * 0x10000 + 100) = Some 0x2000000 \<and>
     pa_segment_page_of (tl_slices st) 0x2000000 (0x2000000 + of_nat i * 0x10000 + 100) = (0x2000000, i)"
proof -
  obtain st i where h: "span_history (\<lambda>os. os) st {(0x2000000, i)} {0x2000000}" by (rule demo_page_history)
  obtain T Q where hi: "history_inv (\<lambda>os. os) st {(0x2000000, i)} {0x2000000} T Q" using span_history_inv [OF h] by blast
  obtain c where c: "pg_slice_count (tl_slices st (0x2000000, i)) = c" "0 < c" "i + c \<le> 512"
    using page_in_history [OF hi, of "0x2000000" i] by blast
  let ?b = "0x2000000 + of_nat i * 0x10000 + 100 :: uintptr_t"
  have "?b = of_nat (0x2000000 + i * 0x10000 + 100)" by simp
  then have u: "unat ?b = 0x2000000 + i * 0x10000 + 100"
    using c by (simp only: unat_of_nat) (simp add: unat_of_nat)
  have s: "(0 :: uintptr_t) <s 0x2000000" by (simp add: word_sless_alt)
  have b: "unat ?b \<in> page_bytes st (0x2000000, i)" using c u by (auto simp: page_bytes_def)
  have d: "(unat ?b - unat (0x2000000 :: uintptr_t)) div 65536 \<le> i + PA_MAX_SLICE_OFFSET_COUNT"
    unfolding u by (simp add: PA_MAX_SLICE_OFFSET_COUNT_def)
  from span_page_of [OF h, of "(0x2000000, i)" ?b] s b d h show ?thesis by auto
qed

theorem span_page_free_returns_witness:
  "\<exists>st i st'. span_history (\<lambda>os. os) st {(0x2000000, i)} {0x2000000} \<and>
     pa_segment_page_free demo_env demo_arena (0x2000000, i) st = Some st'"
proof -
  obtain st i where h: "span_history (\<lambda>os. os) st {(0x2000000, i)} {0x2000000}" by (rule demo_page_history)
  from span_page_free_returns [OF h demo_ok(1) demo_arena_ok(1), of "(0x2000000, i)"] h show ?thesis by blast
qed

text \<open>A machine with just the first two slices of the segment: a third one cannot be committed.\<close>

definition two_slices :: "unit \<Rightarrow> nat set" where
  "two_slices os = {..<0x2020000}"

definition limit_env :: "unit os_env" where
  "limit_env = \<lparr>os_commit = \<lambda>os a s. (unat a + unat s \<le> 0x2020000, False, ()), os_purge = \<lambda>os a s. (False, ()),
     clock_now = 0, opt_purge_delay = 10, opt_purge_extend_delay = 1, opt_adaptive_purge = False\<rparr>"

definition limit_arena :: "unit arena_env" where
  "limit_arena = \<lparr>ar_alloc = \<lambda>os sz al ofs c l req.
       (Some (if al = PA_SEGMENT_SIZE \<and> sz = PA_SEGMENT_SIZE then 0x2000000 else 0, demo_memid), ()),
     ar_free = \<lambda>os a sz csz memid. (), ar_reset = \<lambda>os a sz. (),
     ar_mark_abandoned = \<lambda>os a. (), ar_os_page_size = 0x1000, ar_sizeof_segment = 0xC190, ar_thread_id = 1,
     ar_thread_count = 1, opt_eager_commit = False, opt_eager_commit_delay = 1, opt_page_reset = False,
     opt_abandoned_page_purge = False\<rparr>"

definition limit_tld :: "unit pa_segments_tld" where
  "limit_tld = \<lparr>tl_slices = \<lambda>_. zero_slice, tl_segs = \<lambda>_. demo_segment,
     tl_spans = \<lambda>_. \<lparr>sq_first = None, sq_last = None, sq_slice_count = 0\<rparr>, tl_count = 0, tl_peak_count = 0,
     tl_current_size = 0, tl_peak_size = 0, tl_reclaim_count = 0, tl_os = ()\<rparr>"

lemma limit_ok: "os_ok two_slices limit_env" "arena_ok two_slices limit_arena" "arena_fresh limit_arena {} os"
proof -
  show "os_ok two_slices limit_env" by (auto simp: os_ok_def limit_env_def two_slices_def)
  have "unat (sz :: size_t) < 18446744073709551616" for sz using unsigned_less [of sz] by simp
  then show "arena_ok two_slices limit_arena"
    by (auto simp: arena_ok_def limit_arena_def two_slices_def demo_slices demo_memid_def PA_SEGMENT_SIZE_def)
qed (simp add: limit_arena_def arena_fresh_def)

lemma limit_segment:
  obtains st Q where "span_history two_slices st {} {0x2000000}" "sg_memid (tl_segs st 0x2000000) = demo_memid"
    "history_inv two_slices st {} {0x2000000} [0x2000000 \<mapsto> [(0, 1, SUsed), (1, 511, SFree)]] Q"
proof -
  have h0: "span_history two_slices limit_tld {} {}" by (rule span_history.start) (simp add: queues_empty_def limit_tld_def)
  have i0: "span_inv two_slices limit_tld Map.empty (\<lambda>_. [])"
    by (simp add: span_inv_def span_repr_def limit_tld_def pages.dll_def)
  obtain r st where r: "pa_segment_alloc limit_env limit_arena 0 0 0 limit_tld = (r, st)" by (meson surj_pair)
  have fr: "arena_fresh limit_arena (dom Map.empty) (tl_os limit_tld)" using limit_ok(3) by simp
  have sz: "of_nat 512 * PA_SEGMENT_SLICE_SIZE = PA_SEGMENT_SIZE" by (simp add: size_consts)
  have "ar_os_page_size limit_arena = 0x1000" "ar_sizeof_segment limit_arena = 0xC190" by (simp_all add: limit_arena_def)
  then have cs: "pa_segment_calculate_slices (ar_os_page_size limit_arena) (ar_sizeof_segment limit_arena) 0 = (512, 1)"
    using demo_slices by simp
  have "\<not> segment_refused limit_env limit_arena 0 limit_tld"
    unfolding segment_refused_def cs by (simp add: limit_arena_def limit_env_def size_consts)
  then obtain a Q os os' c l memid where a: "r = Some (a, None)" "sg_memid (tl_segs st a) = memid"
    "ar_alloc limit_arena os (of_nat 512 * PA_SEGMENT_SLICE_SIZE) PA_SEGMENT_SIZE 0 c l 0 = (Some (a, memid), os')"
    and inv: "span_inv two_slices st (Map.empty(a \<mapsto> [(0, 1, SUsed), (1, 511, SFree)])) Q"
    using segment_alloc_inv [OF limit_ok(1,2) i0 fr r] unfolding cs by auto
  have a': "a = 0x2000000" "memid = demo_memid" using a(3) unfolding sz by (simp_all add: limit_arena_def)
  have h: "span_history two_slices st {} {0x2000000}"
    using span_history.new_segment [OF h0 limit_ok(1,2,3) r] a a' by simp
  have "history_inv two_slices st {} {0x2000000} [0x2000000 \<mapsto> [(0, 1, SUsed), (1, 511, SFree)]] Q"
    using inv a'(1) by (auto simp: history_inv_def pages_of_def split: if_splits)
  then show ?thesis using that h a(2) a' by simp
qed

lemma limit_page:
  obtains st Q where "span_history two_slices st {(0x2000000, 1)} {0x2000000}"
    "history_inv two_slices st {(0x2000000, 1)} {0x2000000} [0x2000000 \<mapsto> [(0, 1, SUsed), (1, 1, SUsed), (2, 510, SFree)]] Q"
proof -
  let ?a = "0x2000000 :: uintptr_t"
  let ?T = "[?a \<mapsto> [(0, 1, SUsed), (1, 511, SFree)]] :: uintptr_t \<Rightarrow> span list option"
  obtain st Q where h: "span_history two_slices st {} {?a}" "sg_memid (tl_segs st ?a) = demo_memid"
    "history_inv two_slices st {} {?a} ?T Q" by (rule limit_segment)
  have inv: "span_inv two_slices st ?T Q" and repr: "span_repr two_slices st ?T Q" using h(3) by (simp_all add: history_inv_def span_inv_def)
  have T: "?T ?a = Some [(0, 1, SUsed), (1, 511, SFree)]" by simp
  have suit: "pa_arena_memid_is_suitable (sg_memid (tl_segs st ?a)) 0"
    by (simp add: h(2) demo_memid_def pa_arena_memid_is_suitable_def pa_arena_id_is_suitable_def)
  have enough: "\<not> span_commit_fails limit_env st ?a 1 1"
    using span_commit_fails_at [OF span_reprD(1) [OF repr T], of 1 1 limit_env] by (auto simp: limit_env_def)
  obtain r st' Q' where r: "pa_segments_page_find_and_allocate limit_env 1 0 st = Some (r, st')" and
    c: "case r of
       Some (a, i) \<Rightarrow> \<exists>xs ys c. ?T a = Some (xs @ (i, c, SFree) # ys) \<and> 1 \<le> c \<and>
         pa_arena_memid_is_suitable (sg_memid (tl_segs st a)) 0 \<and>
         pg_block_size (tl_slices st' (a, i)) = of_nat 1 * PA_SEGMENT_SLICE_SIZE \<and>
         span_inv two_slices st' (?T(a \<mapsto> xs @ (i, 1, SUsed) # (if 1 < c then (i + 1, c - 1, SFree) # ys else ys))) Q'
     | None \<Rightarrow> span_inv two_slices st' ?T Q' \<and>
         (st' = st \<and> (\<forall>a ts i c. ?T a = Some ts \<and> (i, c, SFree) \<in> set ts \<and> 1 \<le> c \<longrightarrow>
            \<not> pa_arena_memid_is_suitable (sg_memid (tl_segs st a)) 0) \<or>
          (\<exists>a ts i c. ?T a = Some ts \<and> (i, c, SFree) \<in> set ts \<and> 1 \<le> c \<and>
            pa_arena_memid_is_suitable (sg_memid (tl_segs st a)) 0 \<and> span_commit_fails limit_env st a i 1))"
    using find_and_allocate_spec [OF limit_ok(1) inv zero_less_one, of 0] by (simp only: one_le_numeral) blast
  have "r \<noteq> None"
  proof
    assume r: "r = None"
    have "\<exists>i c. (i, c, SFree) \<in> set [(0, 1, SUsed), (1, 511, SFree)] \<and> (1 :: nat) \<le> c" by auto
    moreover have "\<not> (\<exists>a ts i c. ?T a = Some ts \<and> (i, c, SFree) \<in> set ts \<and> span_commit_fails limit_env st a i 1)"
      using enough by (auto split: if_splits)
    ultimately show False using c [unfolded r option.case] T suit by blast
  qed
  then obtain b j where rj: "r = Some (b, j)" by (cases r) auto
  obtain xs ys d where f: "?T b = Some (xs @ (j, d, SFree) # ys)"
    "span_inv two_slices st' (?T(b \<mapsto> xs @ (j, 1, SUsed) # (if 1 < d then (j + 1, d - 1, SFree) # ys else ys))) Q'" using c rj by auto
  have b: "b = ?a" "[(0, 1, SUsed), (1, 511, SFree)] = xs @ (j, d, SFree) # ys" using f(1) by (auto split: if_splits)
  then have x: "xs = [(0, 1, SUsed)]" "j = 1" "d = 511" "ys = []" by (auto simp: Cons_eq_append_conv)
  have i': "span_inv two_slices st' [?a \<mapsto> [(0, 1, SUsed), (1, 1, SUsed), (2, 510, SFree)]] Q'" using f(2) by (simp add: b(1) x numeral_2_eq_2)
  have "pages_of [?a \<mapsto> [(0, 1, SUsed), (1, 1, SUsed), (2, 510, SFree)]] = {(?a, 1)}" by (auto simp: pages_of_def split: if_splits)
  then have "history_inv two_slices st' {(?a, 1)} {?a} [?a \<mapsto> [(0, 1, SUsed), (1, 1, SUsed), (2, 510, SFree)]] Q'"
    using i' by (auto simp: history_inv_def)
  then show ?thesis using that span_history.new_page [OF h(1) limit_ok(1) _ _ r] rj b(1) x(2) by simp
qed

theorem span_extend_failure_witness:
  "\<exists>st st'. span_history two_slices st {(0x2000000, 1)} {0x2000000} \<and> pa_segment_try_extend_span limit_env (0x2000000, 1) 1 st = (False, st') \<and>
     span_commit_fails limit_env st 0x2000000 2 1 \<and> page_bytes st' (0x2000000, 1) \<subseteq> two_slices () \<and> pg_slice_count (tl_slices st' (0x2000000, 2)) = 510"
proof -
  let ?a = "0x2000000 :: uintptr_t"
  let ?ts = "[(0, 1, SUsed)] @ (1, 1, SUsed) # [(2, 510, SFree)]"
  obtain st Q where h: "span_history two_slices st {(?a, 1)} {?a}"
    "history_inv two_slices st {(?a, 1)} {?a} [?a \<mapsto> [(0, 1, SUsed), (1, 1, SUsed), (2, 510, SFree)]] Q" by (rule limit_page)
  have inv: "span_inv two_slices st [?a \<mapsto> ?ts] Q" using h(2) by (simp add: history_inv_def)
  then have repr: "span_repr two_slices st [?a \<mapsto> ?ts] Q" by (simp add: span_inv_def)
  have T: "[?a \<mapsto> ?ts] ?a = Some ?ts" by simp
  have cnt: "pg_slice_count (tl_slices st (?a, 1)) = 1" "pg_slice_count (tl_slices st (?a, 2)) = 510"
    using span_repr_slice(1) [OF repr T, of 1 1 SUsed] span_repr_slice(1) [OF repr T, of 2 510 SFree] by simp_all
  have un: "slices_unused st {(?a, 1)} ?a 2 1" by (rule free_span_unused [OF h(2), of ?a ?ts 2 510]) simp_all
  obtain extended st' where r: "pa_segment_try_extend_span limit_env (?a, 1) 1 st = (extended, st')" by (meson surj_pair)
  have "\<not> extended"
  proof
    assume e: extended
    then have r1: "pa_segment_try_extend_span limit_env (?a, 1) 1 st = (True, st')" using r by simp
    obtain n zs Q' where "span_inv two_slices st' ([?a \<mapsto> ?ts](?a \<mapsto> [(0, 1, SUsed)] @ (1, 1 + 1, SUsed) # (if 1 < n then (1 + 1 + 1, n - 1, SFree) # zs else zs))) Q'"
      using try_extend_inv [OF limit_ok(1) inv T zero_less_one r1] by blast
    then have r': "span_repr two_slices st' ([?a \<mapsto> [(0, 1, SUsed)] @ (1, 1 + 1, SUsed) # (if 1 < n then (1 + 1 + 1, n - 1, SFree) # zs else zs)]) Q'"
      unfolding span_inv_def fun_upd_upd by (rule conjunct1)
    have "pg_slice_count (tl_slices st' (?a, 1)) = 1 + 1" using span_repr_slice(1) [OF r', of ?a _ 1 "1 + 1" SUsed] by simp
    then have b: "0x2020000 \<in> page_bytes st' (?a, 1)" by (simp add: page_bytes_def)
    have "span_history two_slices st' {(?a, 1)} {?a}" by (rule span_history.extend_page [OF h(1) limit_ok(1) _ _ r]) (use e in simp_all)
    then obtain T'' Q'' where "history_inv two_slices st' {(?a, 1)} {?a} T'' Q''" using span_history_inv by blast
    from page_bytes_committed(1) [OF this _ b] show False by (simp add: two_slices_def)
  qed
  then have f: "pa_segment_try_extend_span limit_env (?a, 1) 1 st = (False, st')" using r by simp
  have "2 = 1 + pg_slice_count (tl_slices st (?a, 1))" using cnt by simp
  from span_extend_failure [OF h(1) limit_ok(1) insertI1 _ f this] un cnt(2) h(1) f show ?thesis by fastforce
qed

text \<open>An arena that has no memory left.\<close>

definition empty_arena :: "nat set arena_env" where
  "empty_arena = demo_arena\<lparr>ar_alloc := \<lambda>os sz al ofs c l req. (None, os)\<rparr>"

theorem span_allocation_error_witness:
  "\<exists>st i st'. span_history (\<lambda>os. os) st {(0x2000000, i)} {0x2000000} \<and>
     pa_segment_alloc demo_env empty_arena 0 0 0 st = (None, st') \<and> page_bytes st' (0x2000000, i) \<subseteq> tl_os st' \<and>
     span_history (\<lambda>os. os) st' {(0x2000000, i)} {0x2000000}"
proof -
  obtain st i where h: "span_history (\<lambda>os. os) st {(0x2000000, i)} {0x2000000}" by (rule demo_page_history)
  have ok: "arena_ok (\<lambda>os. os) empty_arena" using demo_arena_ok(1) by (auto simp: arena_ok_def empty_arena_def)
  have fr: "arena_fresh empty_arena {0x2000000} (tl_os st)" by (simp add: arena_fresh_def empty_arena_def)
  obtain st' where r: "pa_segment_alloc demo_env empty_arena 0 0 0 st = (None, st')"
    by (auto simp: pa_segment_alloc_def pa_segment_os_alloc_def empty_arena_def Let_def split: prod.splits)
  have "pa_segment_alloc demo_env empty_arena 0 0 0 st = (None, st') \<or>
     pa_segments_page_find_and_allocate demo_env 1 0 st = Some (None, st')" using r ..
  from span_allocation_error [OF h demo_ok(1) ok fr _ _ this] h r show ?thesis by fastforce
qed

end
