(* ===== verification/Palloc_Arena.thy ===== *)
theory Palloc_Arena
  imports Palloc_ArenaBits Palloc_Os Palloc_Spans
begin

text \<open>
  Arenas (\<open>src/arena.c\<close>): large areas of memory that are handed out in blocks of the size of a segment.  An arena
  keeps bitmaps of its blocks (in use, dirty, committed, scheduled for a purge); the arenas are entries of a global array that
  only grows.  The model covers the small static area for meta data, claiming and freeing blocks, the fall-back to the operating system,
  reserving and adding arenas, and the delayed purge of free blocks.  Every bitmap access goes through the operations of
  \<open>Palloc_Bitmap\<close>; the accesses to the other atomic variables are plain reads and writes, so interference by other
  threads is covered for the bitmaps only, and the lock of the abandoned list and the purge guard are left out.  Statistics
  and warnings are left out too.
\<close>

section \<open>State\<close>

definition PA_ARENA_BLOCK_SIZE :: size_t where "PA_ARENA_BLOCK_SIZE = PA_SEGMENT_SIZE"
definition PA_ARENA_MIN_OBJ_SIZE :: size_t where "PA_ARENA_MIN_OBJ_SIZE = PA_ARENA_BLOCK_SIZE div 2"
definition PA_MAX_ARENAS :: nat where "PA_MAX_ARENAS = 132"
definition PA_ARENA_STATIC_MAX :: size_t where "PA_ARENA_STATIC_MAX = 0x1000"

text \<open>An optional bitmap is a pointer that can be null; \<open>aa_addr\<close> is the address of the structure itself.\<close>

record pa_arena =
  aa_addr :: uintptr_t
  aa_id :: int
  aa_memid :: pa_memid
  aa_start :: uintptr_t
  aa_block_count :: nat
  aa_field_count :: nat
  aa_meta_size :: size_t
  aa_meta_memid :: pa_memid
  aa_numa_node :: int
  aa_exclusive :: bool
  aa_is_large :: bool
  aa_search_idx :: nat
  aa_purge_expire :: int
  aa_dirty :: "bitmap_state option"
  aa_committed :: "bitmap_state option"
  aa_purge :: "bitmap_state option"
  aa_abandoned :: bitmap_state
  aa_inuse :: bitmap_state

text \<open>The state of the operating system, the array of arenas, the number of its entries in use, the time
  at which some arena may have something to purge, and the top of the static area.\<close>

record 'o pa_arenas =
  as_os :: 'o
  as_arenas :: "pa_arena option list"
  as_count :: nat
  as_purge_expire :: int
  as_static_top :: size_t

text \<open>The environment: the primitives, the clock during the operation, the options and where the static
  area is.\<close>

record 'o arenas_env =
  av_prim :: "'o pa_prim"
  av_now :: int
  av_arena_purge_mult :: int
  av_arena_reserve :: size_t
  av_arena_eager_commit :: int
  av_disallow_arena_alloc :: bool
  av_disallow_os_alloc :: bool
  av_numa_node :: int
  av_static_base :: uintptr_t
  av_sizeof_arena :: size_t

section \<open>Arena ids and sizes\<close>

definition pa_arena_id_index :: "int \<Rightarrow> nat" where
  "pa_arena_id_index id' = (if id' \<le> 0 then PA_MAX_ARENAS else nat (id' - 1))"

definition pa_arena_id_create :: "nat \<Rightarrow> int" where
  "pa_arena_id_create arena_index = int arena_index + 1"

definition pa_arena_memid_is_os_allocated :: "pa_memid \<Rightarrow> bool" where
  "pa_arena_memid_is_os_allocated memid \<longleftrightarrow> mi_memkind memid = PA_MEM_OS"

definition pa_arena_from_index :: "nat \<Rightarrow> 'o pa_arenas \<Rightarrow> pa_arena option" where
  "pa_arena_from_index idx st = as_arenas st ! idx"

definition pa_block_count_of_size :: "size_t \<Rightarrow> nat" where
  "pa_block_count_of_size sz = unat (pa_divide_up sz PA_ARENA_BLOCK_SIZE)"

definition pa_arena_block_size :: "nat \<Rightarrow> size_t" where
  "pa_arena_block_size bcount = of_nat bcount * PA_ARENA_BLOCK_SIZE"

definition pa_arena_size :: "pa_arena \<Rightarrow> size_t" where
  "pa_arena_size arena = pa_arena_block_size (aa_block_count arena)"

definition pa_memid_create_arena :: "int \<Rightarrow> bool \<Rightarrow> nat \<Rightarrow> pa_memid" where
  "pa_memid_create_arena id' is_exclusive bitmap_index =
     (pa_memid_create PA_MEM_ARENA)\<lparr>mi_mem := Mem_arena bitmap_index id' is_exclusive\<rparr>"

definition pa_arena_memid_indices :: "pa_memid \<Rightarrow> nat \<times> nat \<times> bool" where
  "pa_arena_memid_indices memid =
     (case mi_mem memid of
        Mem_arena block_index id' is_exclusive \<Rightarrow> (pa_arena_id_index id', block_index, is_exclusive)
      | Mem_os base sz \<Rightarrow> (pa_arena_id_index (sint (ucast sz :: 32 word)), unat base, (ucast (drop_bit 32 sz) :: 8 word) \<noteq> 0))"

definition pa_arena_block_start :: "pa_arena \<Rightarrow> nat \<Rightarrow> uintptr_t" where
  "pa_arena_block_start arena bindex = aa_start arena + pa_arena_block_size bindex"


section \<open>Meta data\<close>

text \<open>The static area is a byte array of the program at \<open>av_static_base\<close>; the allocations from it are never freed.
  Without interference the addition cannot find another top than the one just read, so the roll-back is dead.\<close>

definition pa_arena_static_zalloc ::
    "'o arenas_env \<Rightarrow> size_t \<Rightarrow> size_t \<Rightarrow> 'o pa_arenas \<Rightarrow> (uintptr_t \<times> pa_memid) option \<times> 'o pa_arenas" where
  "pa_arena_static_zalloc env sz alignment st =
     (if sz = 0 \<or> PA_ARENA_STATIC_MAX < sz then (None, st)
      else let toplow = as_static_top st
      in if PA_ARENA_STATIC_MAX < toplow + sz then (None, st)
      else let alignment = (if alignment < 16 then 16 else alignment); oversize = sz + alignment - 1
      in if PA_ARENA_STATIC_MAX < toplow + oversize then (None, st)
      else let oldtop = as_static_top st; top = oldtop + oversize; st = st\<lparr>as_static_top := top\<rparr>
      in if PA_ARENA_STATIC_MAX < top then (None, st\<lparr>as_static_top := oldtop\<rparr>)
      else let memid = (pa_memid_create PA_MEM_STATIC)\<lparr>mi_initially_zero := True\<rparr>; start = pa_align_up oldtop alignment
      in (Some (av_static_base env + start, memid), st))"

definition pa_arena_meta_zalloc :: "'o arenas_env \<Rightarrow> size_t \<Rightarrow> 'o pa_arenas \<Rightarrow> (uintptr_t \<times> pa_memid) option \<times> 'o pa_arenas" where
  "pa_arena_meta_zalloc env sz st =
     (let (r, st) = pa_arena_static_zalloc env sz 16 st
      in case r of Some p \<Rightarrow> (Some p, st)
         | None \<Rightarrow> let (r, os) = pa_os_zalloc (av_prim env) sz (as_os st) in (r, st\<lparr>as_os := os\<rparr>))"

definition pa_arena_meta_free :: "'o arenas_env \<Rightarrow> uintptr_t \<Rightarrow> pa_memid \<Rightarrow> size_t \<Rightarrow> 'o pa_arenas \<Rightarrow> 'o pa_arenas" where
  "pa_arena_meta_free env p memid sz st =
     (if pa_memkind_is_os (mi_memkind memid) then st\<lparr>as_os := pa_os_free (av_prim env) p sz memid (as_os st)\<rparr> else st)"

section \<open>Allocation in an arena\<close>

text \<open>An operation on a bitmap that may be absent.\<close>

definition on_bitmap :: "(bitmap_state \<Rightarrow> 'r \<times> bitmap_state) \<Rightarrow> 'r \<Rightarrow> bitmap_state option \<Rightarrow> 'r \<times> bitmap_state option" where
  "on_bitmap f dflt b = (case b of None \<Rightarrow> (dflt, None) | Some b \<Rightarrow> let (r, b) = f b in (r, Some b))"

definition pa_arena_try_claim :: "pa_arena \<Rightarrow> nat \<Rightarrow> nat option \<times> pa_arena" where
  "pa_arena_try_claim arena blocks =
     (let (r, b) = pa_bitmap_try_find_from_claim_across (aa_field_count arena) 0 blocks (aa_inuse arena);
          arena = arena\<lparr>aa_inuse := b\<rparr>
      in case r of Some i \<Rightarrow> (Some i, arena\<lparr>aa_search_idx := pa_bitmap_index_field i\<rparr>) | None \<Rightarrow> (None, arena))"

text \<open>The commit state of a claimed range: what the memory id reports and the effects on the bitmap and the memory.\<close>

definition arena_commit_range ::
    "'o pa_prim \<Rightarrow> nat \<Rightarrow> nat \<Rightarrow> uintptr_t \<Rightarrow> bool \<Rightarrow> pa_memid \<Rightarrow> bitmap_state option \<Rightarrow> 'o \<Rightarrow> pa_memid \<times> bitmap_state option \<times> 'o" where
  "arena_commit_range pr bitmap_index needed_bcount p commit memid committed os =
     (case committed of
        None \<Rightarrow> (memid\<lparr>mi_initially_committed := True\<rparr>, None, os)
      | Some cb \<Rightarrow>
          if commit then
            let memid = memid\<lparr>mi_initially_committed := True\<rparr>;
                commit_size = pa_arena_block_size needed_bcount;
                ((all_zero, any_uncommitted, already_committed), cb) = pa_bitmap_claim_across needed_bcount bitmap_index cb
            in if any_uncommitted
               then let (ok, commit_zero, os) = pa_os_commit_ex pr p commit_size os
                    in (if \<not> ok then memid\<lparr>mi_initially_committed := False\<rparr>
                        else if commit_zero then memid\<lparr>mi_initially_zero := True\<rparr> else memid, Some cb, os)
               else (memid, Some cb, pa_os_reuse pr p commit_size os)
          else
            let ((all_ones, any_ones, already_committed), cb) = pa_bitmap_is_claimedx_across needed_bcount bitmap_index cb;
                memid = memid\<lparr>mi_initially_committed := all_ones\<rparr>;
                cb = (if \<not> mi_initially_committed memid \<and> 0 < already_committed
                      then snd (pa_bitmap_unclaim_across needed_bcount bitmap_index cb) else cb)
            in (memid, Some cb, os))"

definition pa_arena_try_alloc_at ::
    "'o pa_prim \<Rightarrow> pa_arena \<Rightarrow> nat \<Rightarrow> bool \<Rightarrow> 'o \<Rightarrow> (uintptr_t \<times> pa_memid) option \<times> pa_arena \<times> 'o" where
  "pa_arena_try_alloc_at pr arena needed_bcount commit os =
     (let (r, arena) = pa_arena_try_claim arena needed_bcount
      in case r of None \<Rightarrow> (None, arena, os)
      | Some bitmap_index \<Rightarrow>
          let p = pa_arena_block_start arena bitmap_index;
              memid = (pa_memid_create_arena (aa_id arena) (aa_exclusive arena) bitmap_index)\<lparr>mi_is_pinned := mi_is_pinned (aa_memid arena)\<rparr>;
              purge = snd (on_bitmap (pa_bitmap_unclaim_across needed_bcount bitmap_index) False (aa_purge arena));
              (zero, dirty) = (if mi_initially_zero (aa_memid arena)
                               then on_bitmap (\<lambda>b. let ((all_zero, _), b) = pa_bitmap_claim_across needed_bcount bitmap_index b in (all_zero, b))
                                      False (aa_dirty arena)
                               else (False, aa_dirty arena));
              memid = memid\<lparr>mi_initially_zero := zero\<rparr>;
              (memid, committed, os) = arena_commit_range pr bitmap_index needed_bcount p commit memid (aa_committed arena) os
          in (Some (p, memid), arena\<lparr>aa_purge := purge, aa_dirty := dirty, aa_committed := committed\<rparr>, os))"

definition pa_arena_try_alloc_at_id ::
    "'o arenas_env \<Rightarrow> int \<Rightarrow> bool \<Rightarrow> int \<Rightarrow> size_t \<Rightarrow> bool \<Rightarrow> bool \<Rightarrow> int \<Rightarrow> 'o pa_arenas \<Rightarrow> (uintptr_t \<times> pa_memid) option \<times> 'o pa_arenas" where
  "pa_arena_try_alloc_at_id env arena_id match_numa_node numa_node sz commit allow_large req_arena_id st =
     (let bcount = pa_block_count_of_size sz; arena_index = pa_arena_id_index arena_id
      in case pa_arena_from_index arena_index st of None \<Rightarrow> (None, st)
      | Some arena \<Rightarrow>
          if \<not> allow_large \<and> aa_is_large arena then (None, st)
          else if \<not> pa_arena_id_is_suitable (aa_id arena) (aa_exclusive arena) req_arena_id then (None, st)
          else let numa_suitable = (numa_node < 0 \<or> aa_numa_node arena < 0 \<or> aa_numa_node arena = numa_node)
          in if req_arena_id = 0 \<and> match_numa_node \<noteq> numa_suitable then (None, st)
          else let (r, arena, os) = pa_arena_try_alloc_at (av_prim env) arena bcount commit (as_os st)
               in (r, st\<lparr>as_arenas := (as_arenas st)[arena_index := Some arena], as_os := os\<rparr>))"

fun try_alloc_arenas ::
    "'o arenas_env \<Rightarrow> bool \<Rightarrow> int \<Rightarrow> size_t \<Rightarrow> bool \<Rightarrow> bool \<Rightarrow> int \<Rightarrow> nat list \<Rightarrow> 'o pa_arenas \<Rightarrow> (uintptr_t \<times> pa_memid) option \<times> 'o pa_arenas" where
  "try_alloc_arenas env match_numa_node numa_node sz commit allow_large req_arena_id [] st = (None, st)"
| "try_alloc_arenas env match_numa_node numa_node sz commit allow_large req_arena_id (i # is) st =
     (let (r, st) = pa_arena_try_alloc_at_id env (pa_arena_id_create i) match_numa_node numa_node sz commit allow_large req_arena_id st
      in case r of Some p \<Rightarrow> (Some p, st)
         | None \<Rightarrow> try_alloc_arenas env match_numa_node numa_node sz commit allow_large req_arena_id is st)"

definition pa_arena_try_alloc ::
    "'o arenas_env \<Rightarrow> int \<Rightarrow> size_t \<Rightarrow> bool \<Rightarrow> bool \<Rightarrow> int \<Rightarrow> 'o pa_arenas \<Rightarrow> (uintptr_t \<times> pa_memid) option \<times> 'o pa_arenas" where
  "pa_arena_try_alloc env numa_node sz commit allow_large req_arena_id st =
     (let max_arena = as_count st
      in if max_arena = 0 then (None, st)
      else if req_arena_id \<noteq> 0
      then if pa_arena_id_index req_arena_id < max_arena
           then pa_arena_try_alloc_at_id env req_arena_id True numa_node sz commit allow_large req_arena_id st
           else (None, st)
      else let (r, st) = try_alloc_arenas env True numa_node sz commit allow_large req_arena_id [0..<max_arena] st
           in case r of Some p \<Rightarrow> (Some p, st)
              | None \<Rightarrow> if 0 \<le> numa_node
                        then try_alloc_arenas env False numa_node sz commit allow_large req_arena_id [0..<max_arena] st
                        else (None, st))"


section \<open>Adding and reserving arenas\<close>

definition pa_arena_add :: "pa_arena \<Rightarrow> 'o pa_arenas \<Rightarrow> bool \<times> int \<times> 'o pa_arenas" where
  "pa_arena_add arena st =
     (let i = as_count st
      in if i < PA_MAX_ARENAS
         then let arena = arena\<lparr>aa_id := pa_arena_id_create i\<rparr>
              in (True, aa_id arena, st\<lparr>as_count := i + 1, as_arenas := (as_arenas st)[i := Some arena]\<rparr>)
         else (False, -1, st))"

definition fresh_bitmap :: "size_t \<Rightarrow> nat \<Rightarrow> bitmap_state" where
  "fresh_bitmap w fields' = \<lparr>bm = replicate fields' w, bm_others = replicate fields' 0, bm_env = []\<rparr>"

text \<open>The result is success and the id of the arena.\<close>

definition pa_manage_os_memory_ex2 ::
    "'o arenas_env \<Rightarrow> uintptr_t \<Rightarrow> size_t \<Rightarrow> bool \<Rightarrow> int \<Rightarrow> bool \<Rightarrow> pa_memid \<Rightarrow> 'o pa_arenas \<Rightarrow> bool \<times> int \<times> 'o pa_arenas" where
  "pa_manage_os_memory_ex2 env start sz is_large numa_node exclusive memid st =
     (if sz < PA_ARENA_BLOCK_SIZE then (False, 0, st)
      else let aligned_start = pa_align_up start PA_SEGMENT_SIZE;
               diff = aligned_start - start;
               aligned = pa_is_aligned start PA_SEGMENT_SIZE
      in if \<not> aligned \<and> (sz \<le> diff \<or> sz - diff < PA_ARENA_BLOCK_SIZE) then (False, 0, st)
      else let start = (if aligned then start else aligned_start);
               sz = (if aligned then sz else sz - diff);
               bcount = sz div PA_ARENA_BLOCK_SIZE;
               fields' = pa_divide_up bcount 64;
               bitmaps = (if mi_is_pinned memid then 3 else 5);
               asize = av_sizeof_arena env + bitmaps * fields' * 8;
               (r, st) = pa_arena_meta_zalloc env asize st
      in case r of None \<Rightarrow> (False, 0, st)
      | Some (addr, meta_memid) \<Rightarrow>
          let n = unat fields';
              arena = \<lparr>aa_addr = addr, aa_id = 0, aa_memid = memid, aa_start = start, aa_block_count = unat bcount, aa_field_count = n,
                aa_meta_size = asize, aa_meta_memid = meta_memid, aa_numa_node = numa_node, aa_exclusive = exclusive,
                aa_is_large = is_large, aa_search_idx = 0, aa_purge_expire = 0, aa_dirty = Some (fresh_bitmap 0 n),
                aa_committed = (if mi_is_pinned memid then None
                                else Some (fresh_bitmap (if mi_initially_committed memid then NOT 0 else 0) n)),
                aa_purge = (if mi_is_pinned memid then None else Some (fresh_bitmap 0 n)),
                aa_abandoned = fresh_bitmap 0 n, aa_inuse = fresh_bitmap 0 n\<rparr>;
              post = n * 64 - unat bcount;
              arena = (if 0 < post
                       then let postidx = pa_bitmap_index_create (n - 1) (64 - post);
                                (_, _, b) = pa_bitmap_claim post postidx (aa_inuse arena)
                            in arena\<lparr>aa_inuse := b\<rparr>
                       else arena)
          in pa_arena_add arena st)"

definition pa_manage_os_memory_ex ::
    "'o arenas_env \<Rightarrow> uintptr_t \<Rightarrow> size_t \<Rightarrow> bool \<Rightarrow> bool \<Rightarrow> bool \<Rightarrow> int \<Rightarrow> bool \<Rightarrow> 'o pa_arenas \<Rightarrow> bool \<times> int \<times> 'o pa_arenas" where
  "pa_manage_os_memory_ex env start sz is_committed is_large is_zero numa_node exclusive st =
     pa_manage_os_memory_ex2 env start sz is_large numa_node exclusive
       ((pa_memid_create PA_MEM_EXTERNAL)\<lparr>mi_initially_committed := is_committed, mi_initially_zero := is_zero, mi_is_pinned := is_large\<rparr>) st"

definition ENOMEM :: int where "ENOMEM = 12"

text \<open>The result is an error number and the id of the arena.\<close>

definition pa_reserve_os_memory_ex ::
    "'o arenas_env \<Rightarrow> size_t \<Rightarrow> bool \<Rightarrow> bool \<Rightarrow> bool \<Rightarrow> 'o pa_arenas \<Rightarrow> int \<times> int \<times> 'o pa_arenas" where
  "pa_reserve_os_memory_ex env sz commit allow_large exclusive st =
     (let sz = pa_align_up sz PA_ARENA_BLOCK_SIZE;
          (r, os) = pa_os_alloc_aligned (av_prim env) sz PA_SEGMENT_SIZE commit allow_large (as_os st);
          st = st\<lparr>as_os := os\<rparr>
      in case r of None \<Rightarrow> (ENOMEM, 0, st)
      | Some (start, memid) \<Rightarrow>
          let is_large = mi_is_pinned memid; (ok, arena_id, st) = pa_manage_os_memory_ex2 env start sz is_large (-1) exclusive memid st
          in if \<not> ok then (ENOMEM, arena_id, st\<lparr>as_os := pa_os_free_ex (av_prim env) start sz commit memid (as_os st)\<rparr>)
             else (0, arena_id, st))"

definition pa_arena_reserve :: "'o arenas_env \<Rightarrow> size_t \<Rightarrow> bool \<Rightarrow> 'o pa_arenas \<Rightarrow> bool \<times> int \<times> 'o pa_arenas" where
  "pa_arena_reserve env req_size allow_large st =
     (let pr = av_prim env; arena_count = as_count st; arena_reserve = av_arena_reserve env
      in if oc_preloading (prim_cfg pr) then (False, 0, st)
      else if PA_MAX_ARENAS - 4 < arena_count then (False, 0, st)
      else if arena_reserve = 0 then (False, 0, st)
      else let arena_reserve = (if \<not> pa_os_has_virtual_reserve pr then arena_reserve div 4 else arena_reserve);
               arena_reserve = pa_align_up arena_reserve PA_ARENA_BLOCK_SIZE;
               arena_reserve = pa_align_up arena_reserve PA_SEGMENT_SIZE;
               arena_reserve =
                 (if 8 \<le> arena_count \<and> arena_count \<le> 128
                  then let multiplier = push_bit (unat (pa_clamp (of_nat (arena_count div 8)) 0 16)) 1;
                           (overflow, reserve) = builtin_umull_overflow multiplier arena_reserve
                       in if \<not> overflow then reserve else arena_reserve
                  else arena_reserve)
      in if arena_reserve < req_size then (False, 0, st)
      else let arena_commit = (if av_arena_eager_commit env = 2 then pa_os_has_overcommit pr else av_arena_eager_commit env = 1);
               (err, arena_id, st) = pa_reserve_os_memory_ex env arena_reserve arena_commit allow_large False st
      in (err = 0, arena_id, st))"

section \<open>Allocation\<close>

definition pa_arena_alloc_aligned ::
    "'o arenas_env \<Rightarrow> size_t \<Rightarrow> size_t \<Rightarrow> size_t \<Rightarrow> bool \<Rightarrow> bool \<Rightarrow> int \<Rightarrow> 'o pa_arenas \<Rightarrow> (uintptr_t \<times> pa_memid) option \<times> 'o pa_arenas" where
  "pa_arena_alloc_aligned env sz alignment align_offset commit allow_large req_arena_id st =
     (let numa_node = av_numa_node env;
          (r, st) =
            (if \<not> av_disallow_arena_alloc env \<and> PA_ARENA_MIN_OBJ_SIZE \<le> sz \<and> alignment \<le> PA_SEGMENT_SIZE \<and> align_offset = 0
             then let (r, st) = pa_arena_try_alloc env numa_node sz commit allow_large req_arena_id st
                  in if r \<noteq> None then (r, st)
                  else if req_arena_id = 0
                  then let (ok, arena_id, st) = pa_arena_reserve env sz allow_large st
                       in if ok
                          then pa_arena_try_alloc_at_id env arena_id True numa_node sz commit allow_large req_arena_id st
                          else (None, st)
                  else (None, st)
             else (None, st))
      in if r \<noteq> None then (r, st)
      else if av_disallow_os_alloc env \<or> req_arena_id \<noteq> 0 then (None, st)
      else let (r, os) = (if 0 < align_offset
                          then pa_os_alloc_aligned_at_offset (av_prim env) sz alignment align_offset commit allow_large (as_os st)
                          else pa_os_alloc_aligned (av_prim env) sz alignment commit allow_large (as_os st))
           in (r, st\<lparr>as_os := os\<rparr>))"

definition pa_arena_alloc ::
    "'o arenas_env \<Rightarrow> size_t \<Rightarrow> bool \<Rightarrow> bool \<Rightarrow> int \<Rightarrow> 'o pa_arenas \<Rightarrow> (uintptr_t \<times> pa_memid) option \<times> 'o pa_arenas" where
  "pa_arena_alloc env sz commit allow_large req_arena_id st =
     pa_arena_alloc_aligned env sz PA_ARENA_BLOCK_SIZE 0 commit allow_large req_arena_id st"

definition pa_arena_area :: "int \<Rightarrow> 'o pa_arenas \<Rightarrow> uintptr_t \<times> size_t" where
  "pa_arena_area arena_id st =
     (let arena_index = pa_arena_id_index arena_id
      in if PA_MAX_ARENAS \<le> arena_index then (0, 0)
      else case as_arenas st ! arena_index of None \<Rightarrow> (0, 0)
      | Some arena \<Rightarrow> (aa_start arena, pa_arena_block_size (aa_block_count arena)))"

definition pa_arena_contains :: "uintptr_t \<Rightarrow> 'o pa_arenas \<Rightarrow> bool" where
  "pa_arena_contains p st \<longleftrightarrow>
     list_ex (\<lambda>i. case as_arenas st ! i of None \<Rightarrow> False
       | Some arena \<Rightarrow> aa_start arena \<le> p \<and> p < aa_start arena + pa_arena_block_size (aa_block_count arena)) [0..<as_count st]"


section \<open>Purging\<close>

definition pa_arena_purge_delay :: "'o arenas_env \<Rightarrow> int" where
  "pa_arena_purge_delay env = oc_purge_delay (prim_cfg (av_prim env)) * av_arena_purge_mult env"

definition pa_arena_purge :: "'o pa_prim \<Rightarrow> nat \<Rightarrow> nat \<Rightarrow> pa_arena \<Rightarrow> 'o \<Rightarrow> pa_arena \<times> 'o" where
  "pa_arena_purge pr bitmap_idx blocks arena os =
     (let sz = pa_arena_block_size blocks; p = pa_arena_block_start arena bitmap_idx;
          ((all_committed, _, already_committed), committed) =
             on_bitmap (pa_bitmap_is_claimedx_across blocks bitmap_idx) (True, False, 0) (aa_committed arena);
          (needs_recommit, os) = (if all_committed then pa_os_purge pr p sz os else pa_os_purge_ex pr p sz False os);
          purge = snd (on_bitmap (pa_bitmap_unclaim_across blocks bitmap_idx) False (aa_purge arena));
          committed = (if needs_recommit then snd (on_bitmap (pa_bitmap_unclaim_across blocks bitmap_idx) False committed) else committed)
      in (arena\<lparr>aa_purge := purge, aa_committed := committed\<rparr>, os))"

text \<open>The last argument and the last component of the result are the global expiration time.\<close>

definition pa_arena_schedule_purge :: "'o arenas_env \<Rightarrow> nat \<Rightarrow> nat \<Rightarrow> pa_arena \<Rightarrow> 'o \<Rightarrow> int \<Rightarrow> pa_arena \<times> 'o \<times> int" where
  "pa_arena_schedule_purge env bitmap_idx blocks arena os arenas_expire =
     (let delay = pa_arena_purge_delay env
      in if delay < 0 then (arena, os, arenas_expire)
      else if oc_preloading (prim_cfg (av_prim env)) \<or> delay = 0
      then let (arena, os) = pa_arena_purge (av_prim env) bitmap_idx blocks arena os in (arena, os, arenas_expire)
      else let expire = av_now env + delay;
               (arena, arenas_expire) =
                 (if aa_purge_expire arena = 0
                  then (arena\<lparr>aa_purge_expire := expire\<rparr>, if arenas_expire = 0 then expire else arenas_expire)
                  else (arena, arenas_expire));
               purge = snd (on_bitmap (pa_bitmap_claim_across blocks bitmap_idx) (False, False, 0) (aa_purge arena))
           in (arena\<lparr>aa_purge := purge\<rparr>, os, arenas_expire))"

text \<open>The number of consecutive ones of a word from an index on, and before another.\<close>

definition ones_run :: "size_t \<Rightarrow> nat \<Rightarrow> nat \<Rightarrow> nat" where
  "ones_run w bitidx endidx = length (takeWhile (bit w) [bitidx..<endidx])"

function purge_range_loop :: "'o pa_prim \<Rightarrow> nat \<Rightarrow> nat \<Rightarrow> nat \<Rightarrow> nat \<Rightarrow> size_t \<Rightarrow> bool \<Rightarrow> pa_arena \<Rightarrow> 'o \<Rightarrow> bool \<times> pa_arena \<times> 'o" where
  "purge_range_loop pr idx bitidx endidx bitlen purge all_purged arena os =
     (if bitidx < endidx
      then let cnt = ones_run purge bitidx endidx;
               (arena, os) = (if 0 < cnt then pa_arena_purge pr (pa_bitmap_index_create idx bitidx) cnt arena os else (arena, os));
               all_purged = (if 0 < cnt \<and> cnt = bitlen then True else all_purged)
           in purge_range_loop pr idx (bitidx + (cnt + 1)) endidx bitlen purge all_purged arena os
      else (all_purged, arena, os))"
  by pat_completeness auto
termination by (relation "measure (\<lambda>(pr, idx, bitidx, endidx, bitlen, purge, a, arena, os). endidx - bitidx)") auto

definition pa_arena_purge_range :: "'o pa_prim \<Rightarrow> nat \<Rightarrow> nat \<Rightarrow> nat \<Rightarrow> size_t \<Rightarrow> pa_arena \<Rightarrow> 'o \<Rightarrow> bool \<times> pa_arena \<times> 'o" where
  "pa_arena_purge_range pr idx startidx bitlen purge arena os =
     purge_range_loop pr idx startidx (startidx + bitlen) bitlen purge False arena os"

text \<open>Claiming the longest prefix of a run that is not in use.\<close>

fun claim_longest :: "nat \<Rightarrow> nat \<Rightarrow> bitmap_state \<Rightarrow> nat \<times> bitmap_state" where
  "claim_longest bitmap_index 0 b = (0, b)"
| "claim_longest bitmap_index (Suc n) b =
     (let (ok, b) = pa_bitmap_try_claim (Suc n) bitmap_index b in if ok then (Suc n, b) else claim_longest bitmap_index n b)"

text \<open>A relaxed or acquiring load of a field of the purge bitmap.\<close>

definition load_purge :: "nat \<Rightarrow> pa_arena \<Rightarrow> size_t \<times> pa_arena" where
  "load_purge i arena = (let (w, b) = on_bitmap (atomic_load i) 0 (aa_purge arena) in (w, arena\<lparr>aa_purge := b\<rparr>))"

function purge_field_loop ::
    "'o pa_prim \<Rightarrow> nat \<Rightarrow> nat \<Rightarrow> size_t \<Rightarrow> bool \<Rightarrow> bool \<Rightarrow> pa_arena \<Rightarrow> 'o \<Rightarrow> bool \<times> bool \<times> pa_arena \<times> 'o" where
  "purge_field_loop pr i bitidx purge any_purged full_purge arena os =
     (if bitidx < 64
      then let bitmap_index = pa_bitmap_index_create i bitidx;
               (bitlen, b) = claim_longest bitmap_index (ones_run purge bitidx 64) (aa_inuse arena);
               arena = arena\<lparr>aa_inuse := b\<rparr>;
               (purge, any_purged, full_purge, arena, os) =
                 (if 0 < bitlen
                  then let (purge, arena) = load_purge i arena;
                           (all_purged, arena, os) = pa_arena_purge_range pr i bitidx bitlen purge arena os;
                           full_purge = (if \<not> all_purged then False else full_purge);
                           (_, b) = pa_bitmap_unclaim bitlen bitmap_index (aa_inuse arena)
                       in (purge, True, full_purge, arena\<lparr>aa_inuse := b\<rparr>, os)
                  else (purge, any_purged, full_purge, arena, os))
           in purge_field_loop pr i (bitidx + (bitlen + 1)) purge any_purged full_purge arena os
      else (any_purged, full_purge, arena, os))"
  by pat_completeness auto
termination by (relation "measure (\<lambda>(pr, i, bitidx, purge, any, f, arena, os). 64 - bitidx)") auto

declare purge_range_loop.simps [simp del] purge_field_loop.simps [simp del]

fun purge_fields :: "'o pa_prim \<Rightarrow> nat list \<Rightarrow> bool \<Rightarrow> bool \<Rightarrow> pa_arena \<Rightarrow> 'o \<Rightarrow> bool \<times> bool \<times> pa_arena \<times> 'o" where
  "purge_fields pr [] any_purged full_purge arena os = (any_purged, full_purge, arena, os)"
| "purge_fields pr (i # is) any_purged full_purge arena os =
     (let (purge, arena) = load_purge i arena;
          (any_purged, full_purge, arena, os) =
            (if purge \<noteq> 0 then purge_field_loop pr i 0 purge any_purged full_purge arena os
             else (any_purged, full_purge, arena, os))
      in purge_fields pr is any_purged full_purge arena os)"

definition pa_arena_try_purge :: "'o arenas_env \<Rightarrow> int \<Rightarrow> bool \<Rightarrow> pa_arena \<Rightarrow> 'o \<Rightarrow> bool \<times> pa_arena \<times> 'o" where
  "pa_arena_try_purge env now force arena os =
     (if mi_is_pinned (aa_memid arena) then (False, arena, os)
      else let expire = aa_purge_expire arena
      in if \<not> force \<and> (expire = 0 \<or> now < expire) then (False, arena, os)
      else let arena = arena\<lparr>aa_purge_expire := 0\<rparr>;
               (any_purged, full_purge, arena, os) = purge_fields (av_prim env) [0..<aa_field_count arena] False True arena os;
               arena = (if \<not> full_purge \<and> aa_purge_expire arena = 0
                        then arena\<lparr>aa_purge_expire := av_now env + pa_arena_purge_delay env\<rparr> else arena)
           in (any_purged, arena, os))"

text \<open>The result is whether all arenas were visited.\<close>

fun try_purge_arenas :: "'o arenas_env \<Rightarrow> int \<Rightarrow> bool \<Rightarrow> nat \<Rightarrow> nat list \<Rightarrow> 'o pa_arenas \<Rightarrow> bool \<times> 'o pa_arenas" where
  "try_purge_arenas env now force max_purge_count [] st = (True, st)"
| "try_purge_arenas env now force max_purge_count (i # is) st =
     (case as_arenas st ! i of
        None \<Rightarrow> try_purge_arenas env now force max_purge_count is st
      | Some arena \<Rightarrow>
          let (purged, arena, os) = pa_arena_try_purge env now force arena (as_os st);
              st = st\<lparr>as_arenas := (as_arenas st)[i := Some arena], as_os := os\<rparr>
          in if purged
             then if max_purge_count \<le> 1 then (False, st) else try_purge_arenas env now force (max_purge_count - 1) is st
             else try_purge_arenas env now force max_purge_count is st)"

definition pa_arenas_try_purge :: "'o arenas_env \<Rightarrow> bool \<Rightarrow> bool \<Rightarrow> 'o pa_arenas \<Rightarrow> 'o pa_arenas" where
  "pa_arenas_try_purge env force visit_all st =
     (if oc_preloading (prim_cfg (av_prim env)) \<or> pa_arena_purge_delay env \<le> 0 then st
      else let now = av_now env; arenas_expire = as_purge_expire st
      in if \<not> force \<and> (arenas_expire = 0 \<or> arenas_expire < now) then st
      else let max_arena = as_count st
      in if max_arena = 0 then st
      else let st = st\<lparr>as_purge_expire := now + pa_arena_purge_delay env\<rparr>;
               (all_visited, st) = try_purge_arenas env now force (if visit_all then max_arena else 2) [0..<max_arena] st
           in if all_visited then st\<lparr>as_purge_expire := 0\<rparr> else st)"

definition pa_arenas_collect :: "'o arenas_env \<Rightarrow> bool \<Rightarrow> 'o pa_arenas \<Rightarrow> 'o pa_arenas" where
  "pa_arenas_collect env force_purge st = pa_arenas_try_purge env force_purge force_purge st"

section \<open>Freeing\<close>

text \<open>Freeing reports an error through a message only; the result is the error there was.\<close>

datatype arena_free_result = Arena_freed | Invalid_arena | Invalid_arena_block | Already_free

definition pa_arena_free ::
    "'o arenas_env \<Rightarrow> uintptr_t \<Rightarrow> size_t \<Rightarrow> size_t \<Rightarrow> pa_memid \<Rightarrow> 'o pa_arenas \<Rightarrow> arena_free_result \<times> 'o pa_arenas" where
  "pa_arena_free env p sz committed_size memid st =
     (if p = 0 then (Arena_freed, st)
      else if sz = 0 then (Arena_freed, st)
      else let all_committed = (committed_size = sz)
      in if pa_memkind_is_os (mi_memkind memid)
      then let st = st\<lparr>as_os := pa_os_free (av_prim env) p sz memid (as_os st)\<rparr>
           in (Arena_freed, pa_arenas_try_purge env False False st)
      else if mi_memkind memid = PA_MEM_ARENA
      then let (arena_idx, bitmap_idx, _) = pa_arena_memid_indices memid
           in case as_arenas st ! arena_idx of None \<Rightarrow> (Invalid_arena, st)
           | Some arena \<Rightarrow>
               let blocks = pa_block_count_of_size sz
               in if aa_field_count arena \<le> pa_bitmap_index_field bitmap_idx then (Invalid_arena_block, st)
               else let (arena, os, expire) =
                      (if mi_is_pinned (aa_memid arena) \<or> aa_committed arena = None then (arena, as_os st, as_purge_expire st)
                       else let committed = (if \<not> all_committed
                                             then snd (on_bitmap (pa_bitmap_unclaim_across blocks bitmap_idx) False (aa_committed arena))
                                             else aa_committed arena)
                            in pa_arena_schedule_purge env bitmap_idx blocks (arena\<lparr>aa_committed := committed\<rparr>) (as_os st) (as_purge_expire st));
                    (all_inuse, b) = pa_bitmap_unclaim_across blocks bitmap_idx (aa_inuse arena);
                    st = st\<lparr>as_arenas := (as_arenas st)[arena_idx := Some (arena\<lparr>aa_inuse := b\<rparr>)], as_os := os, as_purge_expire := expire\<rparr>
               in if \<not> all_inuse then (Already_free, st) else (Arena_freed, pa_arenas_try_purge env False False st)
      else (Arena_freed, pa_arenas_try_purge env False False st))"

fun destroy_arenas :: "'o arenas_env \<Rightarrow> nat list \<Rightarrow> nat \<Rightarrow> 'o pa_arenas \<Rightarrow> nat \<times> 'o pa_arenas" where
  "destroy_arenas env [] new_max_arena st = (new_max_arena, st)"
| "destroy_arenas env (i # is) new_max_arena st =
     (case as_arenas st ! i of
        None \<Rightarrow> destroy_arenas env is new_max_arena st
      | Some arena \<Rightarrow>
          let (new_max_arena, st) =
                (if aa_start arena \<noteq> 0 \<and> pa_memkind_is_os (mi_memkind (aa_memid arena))
                 then (new_max_arena, st\<lparr>as_arenas := (as_arenas st)[i := None],
                         as_os := pa_os_free (av_prim env) (aa_start arena) (pa_arena_size arena) (aa_memid arena) (as_os st)\<rparr>)
                 else (i, st));
              st = pa_arena_meta_free env (aa_addr arena) (aa_meta_memid arena) (aa_meta_size arena) st
          in destroy_arenas env is new_max_arena st)"

definition pa_arenas_unsafe_destroy :: "'o arenas_env \<Rightarrow> 'o pa_arenas \<Rightarrow> 'o pa_arenas" where
  "pa_arenas_unsafe_destroy env st =
     (let max_arena = as_count st; (new_max_arena, st) = destroy_arenas env [0..<max_arena] 0 st
      in st\<lparr>as_count := new_max_arena\<rparr>)"

definition pa_arena_unsafe_destroy_all :: "'o arenas_env \<Rightarrow> 'o pa_arenas \<Rightarrow> 'o pa_arenas" where
  "pa_arena_unsafe_destroy_all env st = pa_arenas_collect env True (pa_arenas_unsafe_destroy env st)"

end
