(* ===== verification/Palloc_ArenaInv.thy ===== *)
theory Palloc_ArenaInv
  imports Palloc_Arena
begin

text \<open>
  One arena: its invariant and what the operations on it keep.  \<open>U\<close> is the set of blocks that are not
  free, the blocks that clients hold and the bits past the last block.  No other thread interferes here.
\<close>

section \<open>The invariant\<close>

definition arena_blocks :: "pa_arena \<Rightarrow> nat \<Rightarrow> nat \<Rightarrow> nat set" where
  "arena_blocks arena b n = {unat (aa_start arena) + b * 2 ^ 25..<unat (aa_start arena) + (b + n) * 2 ^ 25}"

definition arena_bytes :: "pa_arena \<Rightarrow> nat set" where
  "arena_bytes arena = arena_blocks arena 0 (aa_block_count arena)"

definition bitmap_fits :: "nat \<Rightarrow> bitmap_state \<Rightarrow> bool" where
  "bitmap_fits n b \<longleftrightarrow> quiet b \<and> length (bm b) = n"

definition arena_wf :: "pa_arena \<Rightarrow> bool" where
  "arena_wf arena \<longleftrightarrow> aa_start arena \<noteq> 0 \<and> aa_start arena mod PA_SEGMENT_SIZE = 0 \<and> 0 < aa_block_count arena \<and>
     aa_block_count arena \<le> 64 * aa_field_count arena \<and> unat (aa_start arena) + aa_block_count arena * 2 ^ 25 + 65536 \<le> 2 ^ 64 \<and>
     aa_block_count arena < 2 ^ 37 \<and>
     bitmap_fits (aa_field_count arena) (aa_inuse arena) \<and>
     (\<forall>b\<in>set_option (aa_dirty arena) \<union> set_option (aa_committed arena) \<union> set_option (aa_purge arena). bitmap_fits (aa_field_count arena) b) \<and>
     (aa_committed arena = None \<longleftrightarrow> mi_is_pinned (aa_memid arena)) \<and> (aa_purge arena = None \<longleftrightarrow> mi_is_pinned (aa_memid arena))"

definition leftover :: "pa_arena \<Rightarrow> nat set" where
  "leftover arena = {aa_block_count arena..<64 * aa_field_count arena}"

definition arena_good :: "('o \<Rightarrow> nat set) \<Rightarrow> nat set \<Rightarrow> pa_arena \<Rightarrow> 'o \<Rightarrow> bool" where
  "arena_good comm U arena os \<longleftrightarrow> arena_wf arena \<and> leftover arena \<subseteq> U \<and>
     (\<forall>b\<in>set_option (aa_purge arena). bits b \<inter> U = {}) \<and>
     (\<forall>i. i < aa_block_count arena \<and> i \<notin> U \<and> (\<forall>b\<in>set_option (aa_committed arena). i \<in> bits b) \<longrightarrow> arena_blocks arena i 1 \<subseteq> comm os)"

lemma arena_goodD:
  assumes "arena_good comm U a os"
  shows "x \<in> set_option (aa_purge a) \<Longrightarrow> bits x \<inter> U = {}" "leftover a \<subseteq> U" "arena_wf a"
    "i < aa_block_count a \<Longrightarrow> i \<notin> U \<Longrightarrow> \<forall>b\<in>set_option (aa_committed a). i \<in> bits b \<Longrightarrow> arena_blocks a i 1 \<subseteq> comm os"
  using assms unfolding arena_good_def by blast+

lemma arena_good_frame:
  assumes "arena_good comm U a os" "arena_wf a'" "aa_start a' = aa_start a" "aa_block_count a' = aa_block_count a"
    "aa_field_count a' = aa_field_count a" "aa_committed a' = aa_committed a" "\<And>x. x \<in> set_option (aa_purge a') \<Longrightarrow> bits x \<inter> U = {}"
  shows "arena_good comm U a' os"
proof -
  have "arena_blocks a' = arena_blocks a" "leftover a' = leftover a" using assms(3-5) by (simp_all add: arena_blocks_def leftover_def fun_eq_iff)
  then show ?thesis using assms unfolding arena_good_def by simp
qed

text \<open>What an operation leaves alone: everything but the bitmaps and the times; blocks are marked committed only for \<open>R\<close>.\<close>

definition same_arena :: "nat set \<Rightarrow> pa_arena \<Rightarrow> pa_arena \<Rightarrow> bool" where
  "same_arena R a a' \<longleftrightarrow> aa_id a' = aa_id a \<and> aa_memid a' = aa_memid a \<and> aa_start a' = aa_start a \<and>
     aa_block_count a' = aa_block_count a \<and> aa_field_count a' = aa_field_count a \<and>
     (aa_committed a' = None \<longleftrightarrow> aa_committed a = None) \<and>
     (\<forall>c c'. aa_committed a = Some c \<longrightarrow> aa_committed a' = Some c' \<longrightarrow> bits c' \<subseteq> bits c \<union> R)"

lemma same_arena_refl [simp]: "same_arena R a a"
  by (simp add: same_arena_def)

lemma same_arena_trans: "same_arena R a b \<Longrightarrow> same_arena R b c \<Longrightarrow> same_arena R a c"
  unfolding same_arena_def by (cases "aa_committed b") (simp, fastforce)

lemma same_arena_areas:
  assumes "same_arena R a a'"
  shows "arena_blocks a' b n = arena_blocks a b n" "arena_bytes a' = arena_bytes a" "leftover a' = leftover a"
    "pa_arena_block_start a' i = pa_arena_block_start a i"
  using assms by (simp_all add: same_arena_def arena_blocks_def arena_bytes_def leftover_def pa_arena_block_start_def)

definition free_bytes :: "pa_arena \<Rightarrow> nat set \<Rightarrow> nat set" where
  "free_bytes arena U = (\<Union>i\<in>{..<aa_block_count arena} - U. arena_blocks arena i 1)"

lemma unat_block_size: "n < 2 ^ 38 \<Longrightarrow> unat (pa_arena_block_size n) = n * 2 ^ 25"
  unfolding pa_arena_block_size_def PA_ARENA_BLOCK_SIZE_def PA_SEGMENT_SIZE_def
  by (subst unat_mult_no_wrap) (simp_all add: unat_of_nat take_bit_nat_eq_self)

lemma arena_blocks_split: "arena_blocks a b n = (\<Union>i\<in>{b..<b + n}. arena_blocks a i 1)"
proof -
  have "x \<in> arena_blocks a b n \<longleftrightarrow> (\<exists>i\<in>{b..<b + n}. x \<in> arena_blocks a i 1)" for x
  proof
    assume x: "x \<in> arena_blocks a b n"
    define i where "i = (x - unat (aa_start a)) div 2 ^ 25"
    have "i * 2 ^ 25 \<le> x - unat (aa_start a)" "x - unat (aa_start a) < (i + 1) * 2 ^ 25"
      unfolding i_def using div_mult_mod_eq [of "x - unat (aa_start a)" "2 ^ 25"] mod_less_divisor [of "2 ^ 25" "x - unat (aa_start a)"] by simp_all
    moreover have "unat (aa_start a) + b * 2 ^ 25 \<le> x" "x < unat (aa_start a) + (b + n) * 2 ^ 25" using x by (simp_all add: arena_blocks_def)
    ultimately have "b < i + 1" "i < b + n" "unat (aa_start a) + i * 2 ^ 25 \<le> x" "x < unat (aa_start a) + (i + 1) * 2 ^ 25" by simp_all
    then show "\<exists>i\<in>{b..<b + n}. x \<in> arena_blocks a i 1" by (intro bexI [of _ i]) (auto simp: arena_blocks_def)
  next
    assume "\<exists>i\<in>{b..<b + n}. x \<in> arena_blocks a i 1"
    then obtain i where "b \<le> i" "i + 1 \<le> b + n" "x \<in> arena_blocks a i 1" by auto
    moreover then have "b * 2 ^ 25 \<le> i * (2::nat) ^ 25" "(i + 1) * (2::nat) ^ 25 \<le> (b + n) * 2 ^ 25" by (simp_all only: mult_le_mono1)
    ultimately show "x \<in> arena_blocks a b n" unfolding arena_blocks_def by simp
  qed
  then show ?thesis by blast
qed

lemma arena_blocks_disjoint: "{b..<b + n} \<inter> {c..<c + m} = {} \<Longrightarrow> arena_blocks a b n \<inter> arena_blocks a c m = {}"
proof -
  have 1: "i = j" if "x \<in> arena_blocks a i 1" "x \<in> arena_blocks a j 1" for x i j
  proof -
    have "i * 2 ^ 25 < (j + 1) * (2::nat) ^ 25" "j * 2 ^ 25 < (i + 1) * (2::nat) ^ 25"
      using that unfolding arena_blocks_def by (simp_all only: atLeastLessThan_iff) linarith+
    then show ?thesis by simp
  qed
  assume "{b..<b + n} \<inter> {c..<c + m} = {}"
  then show ?thesis unfolding arena_blocks_split [of a b n] arena_blocks_split [of a c m] using 1 by blast
qed

lemma area_blocks:
  assumes "arena_wf a" "b + n \<le> aa_block_count a"
  shows "area (pa_arena_block_start a b) (pa_arena_block_size n) = arena_blocks a b n"
    "pa_arena_block_start a b \<noteq> 0" "unat (pa_arena_block_start a b) = unat (aa_start a) + b * 2 ^ 25"
    "unat (pa_arena_block_start a b) + unat (pa_arena_block_size n) + 65536 \<le> 2 ^ 64" "unat (pa_arena_block_size n) < 2 ^ 62"
    "arena_blocks a b n \<subseteq> arena_bytes a" "b < aa_block_count a \<Longrightarrow> pa_arena_block_start a b mod PA_SEGMENT_SIZE = 0"
proof -
  have w: "aa_start a \<noteq> 0" "unat (aa_start a) + aa_block_count a * 2 ^ 25 + 65536 \<le> 2 ^ 64" "aa_block_count a < 2 ^ 37"
    "aa_start a mod PA_SEGMENT_SIZE = 0" using assms(1) by (simp_all add: arena_wf_def)
  have bn: "b < 2 ^ 38" "n < 2 ^ 37" using assms(2) w(3) by simp_all
  have le: "(b + n) * 2 ^ 25 \<le> aa_block_count a * (2::nat) ^ 25" using assms(2) by (rule mult_le_mono1)
  have u: "unat (pa_arena_block_size b) = b * 2 ^ 25" "unat (pa_arena_block_size n) = n * 2 ^ 25"
    using unat_block_size bn by simp_all
  have s: "unat (pa_arena_block_start a b) = unat (aa_start a) + b * 2 ^ 25"
    unfolding pa_arena_block_start_def using u(1) w(2) le by (subst unat_add_no_wrap) simp_all
  then show "unat (pa_arena_block_start a b) = unat (aa_start a) + b * 2 ^ 25" .
  show "area (pa_arena_block_start a b) (pa_arena_block_size n) = arena_blocks a b n"
    unfolding area_def arena_blocks_def s u(2) by (simp add: algebra_simps)
  show "pa_arena_block_start a b \<noteq> 0" using s w(1) by (metis add_is_0 unat_eq_0 unat_0)
  show "unat (pa_arena_block_start a b) + unat (pa_arena_block_size n) + 65536 \<le> 2 ^ 64" unfolding s u(2) using w(2) le by simp
  show "unat (pa_arena_block_size n) < 2 ^ 62" unfolding u(2) using bn by simp
  show "arena_blocks a b n \<subseteq> arena_bytes a" using le unfolding arena_blocks_def arena_bytes_def by auto
  have "unat PA_SEGMENT_SIZE = 2 ^ 25" by (simp add: PA_SEGMENT_SIZE_def)
  moreover have "unat (aa_start a) mod 2 ^ 25 = 0" using w(4) by (simp add: word_unat_eq_iff unat_mod PA_SEGMENT_SIZE_def)
  ultimately show "pa_arena_block_start a b mod PA_SEGMENT_SIZE = 0" by (simp add: word_unat_eq_iff unat_mod s)
qed


section \<open>Updates of bitmaps\<close>

definition bitmap_upd :: "nat \<Rightarrow> (nat set \<Rightarrow> nat set) \<Rightarrow> bitmap_state option \<Rightarrow> bitmap_state option \<Rightarrow> bool" where
  "bitmap_upd m f ob ob' \<longleftrightarrow> (case ob of None \<Rightarrow> ob' = None | Some c \<Rightarrow> (\<exists>c'. ob' = Some c' \<and> bitmap_fits m c' \<and> bits c' = f (bits c)))"

lemma bitmap_updD:
  assumes "bitmap_upd m f ob ob'"
  shows "ob' = None \<longleftrightarrow> ob = None" "c' \<in> set_option ob' \<Longrightarrow> bitmap_fits m c'" "ob = Some c \<Longrightarrow> \<exists>c'. ob' = Some c' \<and> bits c' = f (bits c)"
    "c' \<in> set_option ob' \<Longrightarrow> \<exists>c. ob = Some c \<and> bits c' = f (bits c)"
  using assms by (auto simp: bitmap_upd_def split: option.splits)

lemma on_unclaim:
  assumes "\<forall>c\<in>set_option ob. bitmap_fits m c" "0 < n" "b + n \<le> 64 * m"
  shows "bitmap_upd m (\<lambda>B. B - {b..<b + n}) ob (snd (on_bitmap (pa_bitmap_unclaim_across n b) d ob))"
proof (cases ob)
  case (Some c)
  obtain r c' where u: "pa_bitmap_unclaim_across n b c = (r, c')" by (meson surj_pair)
  have "bitmap_fits m c" using assms(1) Some by simp
  then show ?thesis using unclaim_across_bits [OF _ assms(2) _ u] assms(3) Some u by (simp add: bitmap_upd_def on_bitmap_def bitmap_fits_def)
qed (simp add: bitmap_upd_def on_bitmap_def)

lemma on_claim:
  assumes "\<forall>c\<in>set_option ob. bitmap_fits m c" "0 < n" "b + n \<le> 64 * m"
  shows "bitmap_upd m (\<lambda>B. B \<union> {b..<b + n}) ob (snd (on_bitmap (pa_bitmap_claim_across n b) d ob))"
proof (cases ob)
  case (Some c)
  obtain r c' where u: "pa_bitmap_claim_across n b c = (r, c')" by (meson surj_pair)
  have "bitmap_fits m c" using assms(1) Some by simp
  then show ?thesis using claim_across_bits [OF _ assms(2) _ u] assms(3) Some u by (simp add: bitmap_upd_def on_bitmap_def bitmap_fits_def)
qed (simp add: bitmap_upd_def on_bitmap_def)

lemma on_is_claimed:
  assumes "\<forall>c\<in>set_option ob. bitmap_fits m c" "0 < n" "b + n \<le> 64 * m" "on_bitmap (pa_bitmap_is_claimedx_across n b) d ob = ((a, x, y), ob')"
  shows "ob' = ob \<and> (case ob of None \<Rightarrow> (a, x, y) = d | Some c \<Rightarrow> a \<longleftrightarrow> {b..<b + n} \<subseteq> bits c)"
proof (cases ob)
  case (Some c)
  obtain r c' where u: "pa_bitmap_is_claimedx_across n b c = (r, c')" by (meson surj_pair)
  have "bm_env c = []" "b + n \<le> 64 * length (bm c)" using assms(1,3) Some quiet_own(3) by (simp_all add: bitmap_fits_def)
  from is_claimed_across_quiet [OF this(1) assms(2) this(2) u] show ?thesis
    using assms(4) Some u by (auto simp: on_bitmap_def summary_claimed_def)
qed (use assms(4) in \<open>simp add: on_bitmap_def\<close>)

lemma arena_wf_update:
  assumes "arena_wf a" "bitmap_upd (aa_field_count a) f (aa_purge a) p" "bitmap_upd (aa_field_count a) g (aa_committed a) c"
    "bitmap_upd (aa_field_count a) h (aa_dirty a) d"
  shows "arena_wf (a\<lparr>aa_purge := p, aa_dirty := d, aa_committed := c\<rparr>)"
  using assms bitmap_updD(1,2) [OF assms(2)] bitmap_updD(1,2) [OF assms(3)] bitmap_updD(2) [OF assms(4)]
  unfolding arena_wf_def by auto

lemma bitmap_upd_id: "\<forall>c\<in>set_option ob. bitmap_fits m c \<Longrightarrow> bitmap_upd m (\<lambda>B. B) ob ob"
  by (auto simp: bitmap_upd_def split: option.split)

lemma arena_wfD:
  assumes "arena_wf a"
  shows "\<forall>c\<in>set_option (aa_purge a). bitmap_fits (aa_field_count a) c" "\<forall>c\<in>set_option (aa_committed a). bitmap_fits (aa_field_count a) c"
    "\<forall>c\<in>set_option (aa_dirty a). bitmap_fits (aa_field_count a) c" "bitmap_fits (aa_field_count a) (aa_inuse a)"
    "b + n \<le> aa_block_count a \<Longrightarrow> b + n \<le> 64 * aa_field_count a"
  using assms by (auto simp: arena_wf_def)

section \<open>Purging\<close>

text \<open>What a purge of free blocks may do.\<close>

definition purge_keeps :: "('o \<Rightarrow> nat set) \<Rightarrow> ('o \<Rightarrow> nat set) \<Rightarrow> nat set \<Rightarrow> pa_arena \<Rightarrow> 'o \<Rightarrow> pa_arena \<Rightarrow> 'o \<Rightarrow> bool" where
  "purge_keeps mapped comm U a os a' os' \<longleftrightarrow> arena_good comm U a' os' \<and> same_arena {} a a' \<and> bits (aa_inuse a') = bits (aa_inuse a) \<and>
     mapped os' = mapped os \<and> comm os - free_bytes a U \<subseteq> comm os'"

lemma purge_keeps_refl: "arena_good comm U a os \<Longrightarrow> purge_keeps mapped comm U a os a os"
  by (auto simp: purge_keeps_def)

lemma purge_keeps_trans: "purge_keeps mapped comm U a os b os1 \<Longrightarrow> purge_keeps mapped comm U b os1 c os2 \<Longrightarrow> purge_keeps mapped comm U a os c os2"
proof -
  assume 1: "purge_keeps mapped comm U a os b os1" and 2: "purge_keeps mapped comm U b os1 c os2"
  have "free_bytes b U = free_bytes a U"
    using 1 same_arena_areas(1) [of "{}" a b] by (simp add: purge_keeps_def free_bytes_def same_arena_def)
  then show ?thesis using 1 2 same_arena_trans [of "{}" a b c] by (auto simp: purge_keeps_def)
qed

lemma arena_purge_keeps:
  assumes ok: "os_prim_ok mapped comm pr" and good: "arena_good comm U a os" and np: "aa_committed a \<noteq> None"
    and R: "0 < n" "b + n \<le> aa_block_count a" "{b..<b + n} \<inter> U = {}" and r: "pa_arena_purge pr b n a os = (a', os')"
  shows "purge_keeps mapped comm U a os a' os'" "bitmap_upd (aa_field_count a) (\<lambda>B. B - {b..<b + n}) (aa_purge a) (aa_purge a')" "aa_inuse a' = aa_inuse a"
proof -
  have wf: "arena_wf a" using good by (simp add: arena_good_def)
  note W = arena_wfD [OF wf]
  note fc = W(5) [OF R(2)]
  let ?p = "pa_arena_block_start a b" and ?s = "pa_arena_block_size n"
  note A = area_blocks [OF wf R(2)]
  obtain cb where cb: "aa_committed a = Some cb" using np by blast
  obtain ac ax ay c1 where q: "on_bitmap (pa_bitmap_is_claimedx_across n b) (True, False, 0) (aa_committed a) = ((ac, ax, ay), c1)"
    by (metis prod_cases3 surj_pair)
  note Q = on_is_claimed [OF W(2) R(1) fc q]
  obtain needs os1 where p: "(if ac then pa_os_purge pr ?p ?s os else pa_os_purge_ex pr ?p ?s False os) = (needs, os1)" by (meson surj_pair)
  have P: "mapped os1 = mapped os" "comm os - arena_blocks a b n \<subseteq> comm os1" "\<not> needs \<Longrightarrow> comm os \<subseteq> comm os1"
    using os_purge_sound [OF ok A(4,5), of True os needs os1] os_purge_sound [OF ok A(4,5), of False os needs os1] p
    unfolding A(1) pa_os_purge_def by (auto split: if_splits)
  define c2 where "c2 = (if needs then snd (on_bitmap (pa_bitmap_unclaim_across n b) False (aa_committed a)) else aa_committed a)"
  define p2 where "p2 = snd (on_bitmap (pa_bitmap_unclaim_across n b) False (aa_purge a))"
  have e: "a' = a\<lparr>aa_purge := p2, aa_committed := c2\<rparr>" "os' = os1"
    using r unfolding pa_arena_purge_def Let_def q prod.case Q [THEN conjunct1] p c2_def p2_def by simp_all
  have up: "bitmap_upd (aa_field_count a) (\<lambda>B. B - {b..<b + n}) (aa_purge a) p2" unfolding p2_def by (rule on_unclaim [OF W(1) R(1) fc])
  have uc: "bitmap_upd (aa_field_count a) (\<lambda>B. if needs then B - {b..<b + n} else B) (aa_committed a) c2"
    using on_unclaim [OF W(2) R(1) fc, of False] bitmap_upd_id [OF W(2)] unfolding c2_def by simp
  have wf': "arena_wf a'" using arena_wf_update [OF wf up uc bitmap_upd_id [OF W(3)]] unfolding e by simp
  obtain c' where c': "c2 = Some c'" "bits c' = (if needs then bits cb - {b..<b + n} else bits cb)" using bitmap_updD(3) [OF uc cb] by blast
  have good': "arena_good comm U a' os'"
    unfolding arena_good_def
  proof (intro conjI allI impI ballI)
    show "arena_wf a'" by (rule wf')
    show "leftover a' \<subseteq> U" using good by (simp add: e leftover_def arena_good_def)
    show "bits x \<inter> U = {}" if "x \<in> set_option (aa_purge a')" for x
      using bitmap_updD(4) [OF up, of x] that good unfolding e arena_good_def by auto
    show "arena_blocks a' i 1 \<subseteq> comm os'" if i: "i < aa_block_count a' \<and> i \<notin> U \<and> (\<forall>x\<in>set_option (aa_committed a'). i \<in> bits x)" for i
    proof -
      have ib: "i < aa_block_count a" "i \<notin> U" "i \<in> bits c'" using i c'(1) by (auto simp: e)
      then have "arena_blocks a i 1 \<subseteq> comm os" using good c'(2) cb by (auto simp: arena_good_def split: if_splits)
      moreover have "arena_blocks a i 1 \<inter> arena_blocks a b n = {}" if needs
        using ib(3) c'(2) that by (intro arena_blocks_disjoint) auto
      moreover have "arena_blocks a' i 1 = arena_blocks a i 1" by (simp add: e(1) arena_blocks_def)
      ultimately show ?thesis using P(2,3) unfolding e(2) by (cases needs) blast+
    qed
  qed
  have "arena_blocks a b n \<subseteq> free_bytes a U"
    using R(2,3) unfolding arena_blocks_split [of a b n] free_bytes_def by (intro UN_mono) auto
  then have "comm os - free_bytes a U \<subseteq> comm os'" using P(2) e(2) by blast
  moreover have "same_arena {} a a'" using cb c' by (auto simp: e same_arena_def)
  ultimately show "purge_keeps mapped comm U a os a' os'" using good' P(1) by (simp add: purge_keeps_def e)
  show "bitmap_upd (aa_field_count a) (\<lambda>B. B - {b..<b + n}) (aa_purge a) (aa_purge a')" "aa_inuse a' = aa_inuse a" using up by (simp_all add: e)
qed


lemma purge_keeps_wf: "purge_keeps mapped comm U a os a' os' \<Longrightarrow> aa_block_count a' = aa_block_count a \<and> aa_field_count a' = aa_field_count a \<and>
    (aa_committed a' = None \<longleftrightarrow> aa_committed a = None)"
  by (simp add: purge_keeps_def same_arena_def)

lemma inter_subset_empty: "A \<inter> U = {} \<Longrightarrow> B \<subseteq> A \<Longrightarrow> B \<inter> U = {}"
  by blast

lemma ones_run_spec:
  assumes "bitidx \<le> endidx"
  shows "bitidx + ones_run w bitidx endidx \<le> endidx" "j < ones_run w bitidx endidx \<Longrightarrow> bit w (bitidx + j)"
    "bitidx + ones_run w bitidx endidx < endidx \<Longrightarrow> \<not> bit w (bitidx + ones_run w bitidx endidx)"
proof -
  let ?l = "[bitidx..<endidx]" and ?t = "takeWhile (bit w) [bitidx..<endidx]"
  have le: "length ?t \<le> length ?l" by (rule length_takeWhile_le)
  then show "bitidx + ones_run w bitidx endidx \<le> endidx" using assms by (simp add: ones_run_def)
  show "bit w (bitidx + j)" if "j < ones_run w bitidx endidx"
  proof -
    have j: "j < length ?t" using that by (simp add: ones_run_def)
    then have "?t ! j = bitidx + j" using le by (subst takeWhile_nth) (simp_all add: nth_upt)
    then show ?thesis using set_takeWhileD [OF nth_mem [OF j]] by metis
  qed
  show "\<not> bit w (bitidx + ones_run w bitidx endidx)" if "bitidx + ones_run w bitidx endidx < endidx"
  proof -
    have "length ?t < length ?l" using that by (simp add: ones_run_def)
    from nth_length_takeWhile [OF this] show ?thesis using that by (simp add: ones_run_def nth_upt)
  qed
qed

lemma purge_range_loop_keeps:
  "os_prim_ok mapped comm pr \<Longrightarrow> arena_good comm U a os \<Longrightarrow> aa_committed a \<noteq> None \<Longrightarrow> idx * 64 + endidx \<le> aa_block_count a \<Longrightarrow> {idx * 64 + bitidx..<idx * 64 + endidx} \<inter> U = {} \<Longrightarrow>
    purge_range_loop pr idx bitidx endidx bitlen w al a os = (r, a', os') \<Longrightarrow> purge_keeps mapped comm U a os a' os' \<and> aa_inuse a' = aa_inuse a"
proof (induction pr idx bitidx endidx bitlen w al a os rule: purge_range_loop.induct)
  case (1 pr idx bitidx endidx bitlen w al a os)
  show ?case
  proof (cases "bitidx < endidx")
    case False
    then show ?thesis using "1.prems" by (simp add: purge_range_loop.simps [of pr idx bitidx] purge_keeps_refl)
  next
    case True
    define cnt where "cnt = ones_run w bitidx endidx"
    obtain a1 os1 where p: "(if 0 < cnt then pa_arena_purge pr (pa_bitmap_index_create idx bitidx) cnt a os else (a, os)) = (a1, os1)" by (meson surj_pair)
    have le: "bitidx + cnt \<le> endidx" unfolding cnt_def using True by (intro ones_run_spec(1)) simp
    have k1: "purge_keeps mapped comm U a os a1 os1 \<and> aa_inuse a1 = aa_inuse a"
    proof (cases "0 < cnt")
      case True
      have R: "pa_bitmap_index_create idx bitidx + cnt \<le> aa_block_count a" using "1.prems"(4) le by (simp add: pa_bitmap_index_create_def)
      have D: "{pa_bitmap_index_create idx bitidx..<pa_bitmap_index_create idx bitidx + cnt} \<inter> U = {}"
        using "1.prems"(5) le by (fastforce simp: pa_bitmap_index_create_def)
      have r: "pa_arena_purge pr (pa_bitmap_index_create idx bitidx) cnt a os = (a1, os1)" using p True by simp
      show ?thesis using arena_purge_keeps(1,3) [OF "1.prems"(1,2,3) True R D r] by blast
    next
      case False
      then show ?thesis using p "1.prems"(2) by (simp add: purge_keeps_refl)
    qed
    note W = purge_keeps_wf [OF k1 [THEN conjunct1]]
    have r: "purge_range_loop pr idx (bitidx + (cnt + 1)) endidx bitlen w (if 0 < cnt \<and> cnt = bitlen then True else al) a1 os1 = (r, a', os')"
      using "1.prems"(6) True p unfolding purge_range_loop.simps [of pr idx bitidx endidx] Let_def cnt_def [symmetric] by simp
    have "purge_keeps mapped comm U a1 os1 a' os' \<and> aa_inuse a' = aa_inuse a1"
    proof (rule "1.IH" [OF True cnt_def p [symmetric] refl refl "1.prems"(1) _ _ _ _ r])
      show "arena_good comm U a1 os1" using k1 by (simp add: purge_keeps_def)
      show "aa_committed a1 \<noteq> None" "idx * 64 + endidx \<le> aa_block_count a1" using W "1.prems"(3,4) by simp_all
      show "{idx * 64 + (bitidx + (cnt + 1))..<idx * 64 + endidx} \<inter> U = {}" using "1.prems"(5) by (rule inter_subset_empty) auto
    qed
    then show ?thesis using k1 purge_keeps_trans by (metis (no_types))
  qed
qed

lemma claim_longest_spec:
  "bitmap_fits m b \<Longrightarrow> i mod 64 + n \<le> 64 \<Longrightarrow> i + n \<le> 64 * m \<Longrightarrow> claim_longest i n b = (k, b') \<Longrightarrow>
    k \<le> n \<and> bitmap_fits m b' \<and> bits b' = bits b \<union> {i..<i + k} \<and> bits b \<inter> {i..<i + k} = {}"
proof (induction i n b rule: claim_longest.induct)
  case (2 i n b)
  obtain ok b1 where t: "pa_bitmap_try_claim (Suc n) i b = (ok, b1)" by (meson surj_pair)
  have f: "quiet b" "length (bm b) = m" using 2(2) by (simp_all add: bitmap_fits_def)
  have le: "i + Suc n \<le> 64 * length (bm b)" using 2(4) f by simp
  note T = try_claim_quiet [OF f(1) 2(3) _ le t]
  show ?case
  proof (cases ok)
    case True
    then show ?thesis using T f 2(5) t by (auto simp: bitmap_fits_def)
  next
    case False
    then have "bitmap_fits m b1" "bits b1 = bits b" using T f by (auto simp: bitmap_fits_def)
    moreover have "claim_longest i n b1 = (k, b')" using 2(5) t False by simp
    ultimately show ?thesis using 2(1) [OF t [symmetric] refl False] 2(3,4) by auto
  qed
qed auto

lemma load_purge_same:
  assumes "\<forall>c\<in>set_option (aa_purge a). bitmap_fits m c" "load_purge i a = (w, a')"
  shows "a' = a" "aa_purge a = Some c \<Longrightarrow> w = bm c ! i" "aa_purge a = None \<Longrightarrow> w = 0"
proof -
  have s: "atomic_load i c = (bm c ! i, c)" if "aa_purge a = Some c" for c
    using assms(1) that by (auto simp: bitmap_fits_def quiet_def atomic_load_def interfere_quiet)
  show "a' = a" using assms(2) s by (cases "aa_purge a") (auto simp: load_purge_def on_bitmap_def)
  show "w = bm c ! i" if "aa_purge a = Some c" using assms(2) s [OF that] that by (auto simp: load_purge_def on_bitmap_def)
  show "w = 0" if "aa_purge a = None" using assms(2) that by (auto simp: load_purge_def on_bitmap_def)
qed

lemma arena_good_inuse: "arena_good comm U a os \<Longrightarrow> bitmap_fits (aa_field_count a) b \<Longrightarrow> arena_good comm U (a\<lparr>aa_inuse := b\<rparr>) os"
  by (simp add: arena_good_def arena_wf_def leftover_def arena_blocks_def)


lemma purge_field_loop_keeps:
  "os_prim_ok mapped comm pr \<Longrightarrow> arena_good comm U a os \<Longrightarrow> aa_committed a \<noteq> None \<Longrightarrow> bits (aa_inuse a) = U \<Longrightarrow> i < aa_field_count a \<Longrightarrow>
    purge_field_loop pr i bitidx w any full a os = (any', full', a', os') \<Longrightarrow> purge_keeps mapped comm U a os a' os'"
proof (induction "64 - bitidx" arbitrary: bitidx w any full a os rule: less_induct)
  case less
  show ?case
  proof (cases "bitidx < 64")
    case False
    then show ?thesis using less.prems by (simp add: purge_field_loop.simps [of pr i bitidx] purge_keeps_refl)
  next
    case True
    define bi where "bi = pa_bitmap_index_create i bitidx"
    obtain bitlen b where c: "claim_longest bi (ones_run w bitidx 64) (aa_inuse a) = (bitlen, b)" by (meson surj_pair)
    define a1 where "a1 = a\<lparr>aa_inuse := b\<rparr>"
    have wf: "arena_wf a" using less.prems(2) by (simp add: arena_good_def)
    note W = arena_wfD [OF wf]
    have run: "bitidx + ones_run w bitidx 64 \<le> 64" using True by (intro ones_run_spec(1)) simp
    have bm: "bi mod 64 = bitidx" "bi = i * 64 + bitidx" using True by (simp_all add: bi_def pa_bitmap_index_create_def)
    have "i * 64 + 64 \<le> 64 * aa_field_count a" using less.prems(5) by simp
    then have le: "bi mod 64 + ones_run w bitidx 64 \<le> 64" "bi + ones_run w bitidx 64 \<le> 64 * aa_field_count a" using run bm by simp_all
    note C = claim_longest_spec [OF W(4) le c]
    have g1: "arena_good comm U a1 os" unfolding a1_def by (rule arena_good_inuse [OF less.prems(2)]) (use C in blast)
    have R: "{bi..<bi + bitlen} \<inter> U = {}" using C less.prems(4) by blast
    have bc: "bi + bitlen \<le> aa_block_count a" if "0 < bitlen"
    proof (rule ccontr)
      assume "\<not> bi + bitlen \<le> aa_block_count a"
      then have "bi + bitlen - 1 \<in> leftover a" "bi + bitlen - 1 \<in> {bi..<bi + bitlen}"
        using C le that unfolding leftover_def by auto
      then show False using R less.prems(2) by (auto simp: arena_good_def)
    qed
    obtain w2 a2 where l: "load_purge i a1 = (w2, a2)" by (meson surj_pair)
    have a2: "a2 = a1" using load_purge_same(1) [OF _ l] W(1) by (simp add: a1_def)
    obtain al a3 os3 where p: "pa_arena_purge_range pr i bitidx bitlen w2 a2 os = (al, a3, os3)" by (metis prod_cases3)
    obtain un b4 where u: "pa_bitmap_unclaim bitlen bi (aa_inuse a3) = (un, b4)" by (meson surj_pair)
    define st where "st = (if 0 < bitlen then (w2, True, if \<not> al then False else full, a3\<lparr>aa_inuse := b4\<rparr>, os3) else (w, any, full, a1, os))"
    obtain w5 any5 full5 a5 os5 where st: "st = (w5, any5, full5, a5, os5)" by (metis prod_cases5)
    have S: "(if 0 < bitlen
        then let (purge, arena) = load_purge i a1; (all_purged, arena, os) = pa_arena_purge_range pr i bitidx bitlen purge arena os;
                 full_purge = if \<not> all_purged then False else full; (_, b) = pa_bitmap_unclaim bitlen bi (aa_inuse arena)
             in (purge, True, full_purge, arena\<lparr>aa_inuse := b\<rparr>, os)
        else (w, any, full, a1, os)) = st"
      unfolding st_def l p u Let_def prod.case by simp
    have k5: "purge_keeps mapped comm U a os a5 os5 \<and> bits (aa_inuse a5) = U"
    proof (cases "0 < bitlen")
      case True
      note BC = bc [OF True]
      have rng: "i * 64 + (bitidx + bitlen) \<le> aa_block_count a1" "{i * 64 + bitidx..<i * 64 + (bitidx + bitlen)} \<inter> U = {}"
        using BC R bm(2) by (simp_all add: a1_def add.assoc)
      have k3: "purge_keeps mapped comm U a1 os a3 os3 \<and> aa_inuse a3 = aa_inuse a1"
        by (rule purge_range_loop_keeps [OF less.prems(1) g1 _ rng]) (use less.prems(3) p a2 in \<open>simp_all add: a1_def pa_arena_purge_range_def\<close>)
      have f3: "quiet (aa_inuse a3)" "length (bm (aa_inuse a3)) = aa_field_count a" "bits (aa_inuse a3) = U \<union> {bi..<bi + bitlen}"
        using k3 C less.prems(4) by (simp_all add: a1_def bitmap_fits_def)
      have le3: "bi mod 64 + bitlen \<le> 64" "bi + bitlen \<le> 64 * length (bm (aa_inuse a3))" using le C f3(2) by linarith+
      note V = unclaim_quiet [OF f3(1) le3(1) True le3(2) u]
      have e5: "a5 = a3\<lparr>aa_inuse := b4\<rparr>" "os5 = os3" using st True by (simp_all add: st_def)
      have b4: "bitmap_fits (aa_field_count a3) b4" "bits b4 = U" using V f3 R k3 purge_keeps_wf [of mapped comm U a1 os a3 os3]
        by (auto simp: bitmap_fits_def a1_def)
      have "arena_good comm U a5 os5" unfolding e5 by (rule arena_good_inuse [OF _ b4(1)]) (use k3 in \<open>simp add: purge_keeps_def\<close>)
      moreover have "same_arena {} a a5" using k3 by (simp add: e5 same_arena_def purge_keeps_def a1_def)
      moreover have "free_bytes a1 U = free_bytes a U" by (simp add: a1_def free_bytes_def arena_blocks_def)
      ultimately show ?thesis using k3 less.prems(4) b4(2) by (simp add: purge_keeps_def e5)
    next
      case False
      then have e5: "a5 = a1" "os5 = os" using st by (simp_all add: st_def)
      have "bits b = U" using False C less.prems(4) by simp
      then show ?thesis using g1 less.prems(4) by (auto simp: purge_keeps_def e5 a1_def same_arena_def)
    qed
    note W5 = purge_keeps_wf [OF k5 [THEN conjunct1]]
    have r: "purge_field_loop pr i (bitidx + (bitlen + 1)) w5 any5 full5 a5 os5 = (any', full', a', os')"
      using less.prems(6) True unfolding purge_field_loop.simps [of pr i bitidx w] Let_def bi_def [symmetric] c prod.case a1_def [symmetric] S [unfolded Let_def] st
      by simp
    have "purge_keeps mapped comm U a5 os5 a' os'"
    proof (rule less.hyps [OF _ less.prems(1) _ _ _ _ r])
      show "64 - (bitidx + (bitlen + 1)) < 64 - bitidx" using True by simp
    qed (use k5 W5 less.prems in \<open>simp_all add: purge_keeps_def\<close>)
    then show ?thesis by (rule purge_keeps_trans [OF conjunct1 [OF k5]])
  qed
qed


lemma purge_fields_keeps:
  "os_prim_ok mapped comm pr \<Longrightarrow> arena_good comm U a os \<Longrightarrow> aa_committed a \<noteq> None \<Longrightarrow> bits (aa_inuse a) = U \<Longrightarrow> \<forall>i\<in>set is. i < aa_field_count a \<Longrightarrow>
    purge_fields pr is any full a os = (any', full', a', os') \<Longrightarrow> purge_keeps mapped comm U a os a' os'"
proof (induction "is" arbitrary: any full a os)
  case (Cons i "is")
  have "arena_wf a" using Cons.prems(2) by (simp add: arena_good_def)
  note W = arena_wfD [OF this]
  obtain w a1 where l: "load_purge i a = (w, a1)" by (meson surj_pair)
  have a1: "a1 = a" by (rule load_purge_same(1) [OF W(1) l])
  obtain any2 full2 a2 os2 where p: "(if w \<noteq> 0 then purge_field_loop pr i 0 w any full a os else (any, full, a, os)) = (any2, full2, a2, os2)"
    by (metis prod_cases4)
  have k: "purge_keeps mapped comm U a os a2 os2"
  proof (cases "w = 0")
    case False
    then show ?thesis using purge_field_loop_keeps [OF Cons.prems(1-4), of i 0 w any full any2 full2 a2 os2] Cons.prems(5) p by simp
  qed (use p Cons.prems(2) in \<open>simp add: purge_keeps_refl\<close>)
  have r: "purge_fields pr is any2 full2 a2 os2 = (any', full', a', os')" using Cons.prems(6) l p by (simp add: a1)
  have "purge_keeps mapped comm U a2 os2 a' os'"
    by (rule Cons.IH [OF Cons.prems(1) _ _ _ _ r]) (use k Cons.prems purge_keeps_wf [OF k] in \<open>simp_all add: purge_keeps_def\<close>)
  then show ?case by (rule purge_keeps_trans [OF k])
qed (simp add: purge_keeps_refl)

lemma expire_simps [simp]:
  "arena_good comm U (a\<lparr>aa_purge_expire := t\<rparr>) os = arena_good comm U a os" "same_arena R (a\<lparr>aa_purge_expire := t\<rparr>) a' = same_arena R a a'"
  "same_arena R a' (a\<lparr>aa_purge_expire := t\<rparr>) = same_arena R a' a" "free_bytes (a\<lparr>aa_purge_expire := t\<rparr>) U = free_bytes a U"
  by (simp_all add: arena_good_def arena_wf_def leftover_def arena_blocks_def same_arena_def free_bytes_def)

lemma purge_keeps_expire: "purge_keeps mapped comm U (a\<lparr>aa_purge_expire := t\<rparr>) os a' os' \<Longrightarrow> purge_keeps mapped comm U a os a' os'"
  "purge_keeps mapped comm U a os a' os' \<Longrightarrow> purge_keeps mapped comm U a os (a'\<lparr>aa_purge_expire := t\<rparr>) os'"
  by (simp_all add: purge_keeps_def)

lemma arena_try_purge_keeps:
  assumes ok: "os_prim_ok mapped comm (av_prim env)" and good: "arena_good comm U a os" and U: "bits (aa_inuse a) = U"
    and r: "pa_arena_try_purge env now force a os = (any, a', os')"
  shows "purge_keeps mapped comm U a os a' os'"
proof (cases "mi_is_pinned (aa_memid a) \<or> \<not> force \<and> (aa_purge_expire a = 0 \<or> now < aa_purge_expire a)")
  case True
  then have "a' = a" "os' = os" using r by (cases "mi_is_pinned (aa_memid a)"; simp add: pa_arena_try_purge_def Let_def split: if_splits)+
  then show ?thesis using good by (simp add: purge_keeps_refl)
next
  case False
  define a1 where "a1 = a\<lparr>aa_purge_expire := 0\<rparr>"
  obtain any2 full2 a2 os2 where p: "purge_fields (av_prim env) [0..<aa_field_count a1] False True a1 os = (any2, full2, a2, os2)" by (metis prod_cases4)
  have e: "a' = (if \<not> full2 \<and> aa_purge_expire a2 = 0 then a2\<lparr>aa_purge_expire := av_now env + pa_arena_purge_delay env\<rparr> else a2)" "os' = os2"
    using r False p unfolding pa_arena_try_purge_def Let_def a1_def [symmetric] by auto
  have c: "aa_committed a1 \<noteq> None" using good False by (simp add: a1_def arena_good_def arena_wf_def)
  have g: "arena_good comm U a1 os" using purge_keeps_expire(2) [OF purge_keeps_refl [OF good]] by (simp add: a1_def purge_keeps_def)
  have "purge_keeps mapped comm U a1 os a2 os2"
    by (rule purge_fields_keeps [OF ok g c _ _ p]) (use U in \<open>simp_all add: a1_def\<close>)
  then have "purge_keeps mapped comm U a os a2 os2" unfolding a1_def by (rule purge_keeps_expire(1))
  then show ?thesis unfolding e using purge_keeps_expire(2) by (auto split: if_splits)
qed

section \<open>Allocating blocks\<close>

lemma block_count_bounds:
  assumes "0 < unat sz" "unat sz < 2 ^ 62"
  shows "0 < pa_block_count_of_size sz" "pa_block_count_of_size sz \<le> 2 ^ 37" "unat sz \<le> pa_block_count_of_size sz * 2 ^ 25"
    "pa_block_count_of_size sz * 2 ^ 25 < unat sz + 2 ^ 25"
proof -
  have b: "unat PA_ARENA_BLOCK_SIZE = 2 ^ 25" by (simp add: PA_ARENA_BLOCK_SIZE_def PA_SEGMENT_SIZE_def)
  have "unat (sz + PA_ARENA_BLOCK_SIZE - 1) = unat sz + (2 ^ 25 - 1)"
  proof -
    have "PA_ARENA_BLOCK_SIZE - 1 = 0x1FFFFFF" by (simp add: PA_ARENA_BLOCK_SIZE_def PA_SEGMENT_SIZE_def)
    then have e: "sz + PA_ARENA_BLOCK_SIZE - 1 = sz + 0x1FFFFFF" by (metis add_diff_eq)
    have "unat (sz + 0x1FFFFFF) = unat sz + unat (0x1FFFFFF :: size_t)" using assms(2) by (intro unat_add_no_wrap) simp
    then show ?thesis unfolding e by simp
  qed
  then have c: "pa_block_count_of_size sz = (unat sz + (2 ^ 25 - 1)) div 2 ^ 25"
    using b by (simp add: pa_block_count_of_size_def pa_divide_up_def PA_ARENA_BLOCK_SIZE_def PA_SEGMENT_SIZE_def unat_div)
  show l: "unat sz \<le> pa_block_count_of_size sz * 2 ^ 25" and u: "pa_block_count_of_size sz * 2 ^ 25 < unat sz + 2 ^ 25"
    unfolding c using div_mult_mod_eq [of "unat sz + (2 ^ 25 - 1)" "2 ^ 25"] mod_less_divisor [of "2 ^ 25" "unat sz + (2 ^ 25 - 1)"] by simp_all
  show "0 < pa_block_count_of_size sz" using l assms(1) by (cases "pa_block_count_of_size sz") auto
  show "pa_block_count_of_size sz \<le> 2 ^ 37" using u assms(2) by simp
qed

text \<open>The commit state of a claimed range: afterwards the blocks are marked committed, and are committed when the memory id says so, or
  none of them is marked; or the commit was asked for and failed, when they are marked though they need not be committed.\<close>

lemma arena_commit_range_spec:
  assumes ok: "os_prim_ok mapped comm pr" and wf: "arena_wf a" and R: "0 < n" "b + n \<le> aa_block_count a"
    and free: "\<And>i. i \<in> {b..<b + n} \<Longrightarrow> (\<forall>c\<in>set_option (aa_committed a). i \<in> bits c) \<Longrightarrow> arena_blocks a i 1 \<subseteq> comm os"
    and r: "arena_commit_range pr b n (pa_arena_block_start a b) commit memid (aa_committed a) os = (memid', cb, os')"
  shows "\<exists>f. bitmap_upd (aa_field_count a) f (aa_committed a) cb \<and> (\<forall>B. f B - {b..<b + n} = B - {b..<b + n}) \<and>
      mapped os' = mapped os \<and> comm os \<subseteq> comm os' \<and>
      (mi_initially_committed memid' \<longrightarrow> arena_blocks a b n \<subseteq> comm os') \<and>
      (\<not> mi_initially_committed memid' \<longrightarrow> \<not> commit \<longrightarrow> (\<exists>c. cb = Some c \<and> bits c \<inter> {b..<b + n} = {}))"
    and "\<exists>i z. memid' = memid\<lparr>mi_initially_committed := i, mi_initially_zero := z\<rparr>"
proof -
  note W = arena_wfD [OF wf]
  note fc = W(5) [OF R(2)]
  note A = area_blocks [OF wf R(2)]
  let ?p = "pa_arena_block_start a b" and ?s = "pa_arena_block_size n" and ?R = "{b..<b + n}" and ?m = "aa_field_count a"
  have all: "arena_blocks a b n \<subseteq> comm os" if "\<forall>c\<in>set_option (aa_committed a). ?R \<subseteq> bits c"
    unfolding arena_blocks_split [of a b n] using free that by blast
  show "\<exists>i z. memid' = memid\<lparr>mi_initially_committed := i, mi_initially_zero := z\<rparr>"
  proof -
    have "memid' = memid\<lparr>mi_initially_committed := mi_initially_committed memid', mi_initially_zero := mi_initially_zero memid'\<rparr>"
      using r by (auto simp: arena_commit_range_def Let_def split: option.splits prod.splits if_splits)
    then show ?thesis by blast
  qed
  show "\<exists>f. bitmap_upd (aa_field_count a) f (aa_committed a) cb \<and> (\<forall>B. f B - {b..<b + n} = B - {b..<b + n}) \<and>
      mapped os' = mapped os \<and> comm os \<subseteq> comm os' \<and>
      (mi_initially_committed memid' \<longrightarrow> arena_blocks a b n \<subseteq> comm os') \<and>
      (\<not> mi_initially_committed memid' \<longrightarrow> \<not> commit \<longrightarrow> (\<exists>c. cb = Some c \<and> bits c \<inter> {b..<b + n} = {}))"
  proof (cases "aa_committed a")
    case None
    then have "memid' = memid\<lparr>mi_initially_committed := True\<rparr>" "cb = None" "os' = os" using r by (simp_all add: arena_commit_range_def)
    then show ?thesis using None all by (intro exI [of _ "\<lambda>B. B"]) (simp add: bitmap_upd_def)
  next
    case (Some c)
    then have q: "quiet c" "length (bm c) = ?m" using W(2) by (simp_all add: bitmap_fits_def)
    have le: "b + n \<le> 64 * length (bm c)" using fc q(2) by simp
    show ?thesis
    proof (cases commit)
      case True
      obtain az unc alc c1 where cl: "pa_bitmap_claim_across n b c = ((az, unc, alc), c1)" by (metis prod_cases3 surj_pair)
      note C = claim_across_bits [OF q(1) R(1) le cl]
      have unc: "unc \<longleftrightarrow> \<not> ?R \<subseteq> bits c" using C(4) by (simp add: summary_claim_def)
      obtain k z os1 where oc: "pa_os_commit_ex pr ?p ?s os = (k, z, os1)" by (metis prod_cases3)
      note O = os_commit_sound [OF ok A(2) A(4) A(5) oc, unfolded A(1)]
      have re: "mapped (pa_os_reuse pr ?p ?s os) = mapped os" "comm os \<subseteq> comm (pa_os_reuse pr ?p ?s os)"
        using os_prim_okD(5) [OF ok] by (auto simp: pa_os_reuse_def split: prod.splits)
          (metis snd_conv subsetD)+
      have e: "cb = Some c1 \<and> os' = (if unc then os1 else pa_os_reuse pr ?p ?s os) \<and> mi_initially_committed memid' = (unc \<longrightarrow> k)"
        using r True cl oc Some by (auto simp: arena_commit_range_def Let_def split: if_splits)
      have upd: "bitmap_upd ?m (\<lambda>B. B \<union> ?R) (aa_committed a) cb" using C(1-3) q(2) e Some by (simp add: bitmap_upd_def bitmap_fits_def)
      show ?thesis
      proof (intro exI [of _ "\<lambda>B. B \<union> ?R"] conjI impI)
        show "mapped os' = mapped os" "comm os \<subseteq> comm os'" using e O(1,2) re by (auto split: if_splits)
        show "arena_blocks a b n \<subseteq> comm os'" if "mi_initially_committed memid'"
          using that e O(3) re(2) all unc Some by (auto split: if_splits)
      qed (use upd True in auto)
    next
      case False
      obtain ao an alc c1 where cl: "pa_bitmap_is_claimedx_across n b c = ((ao, an, alc), c1)" by (metis prod_cases3 surj_pair)
      note C = is_claimed_across_quiet [OF quiet_own(3) [OF q(1)] R(1) le cl]
      obtain u c2 where un: "pa_bitmap_unclaim_across n b c = (u, c2)" by (meson surj_pair)
      note N = unclaim_across_bits [OF q(1) R(1) le un]
      have cl': "pa_bitmap_is_claimedx_across n b c = ((ao, an, alc), c)" using cl C by simp
      have ao: "ao \<longleftrightarrow> ?R \<subseteq> bits c" "alc = card (bits c \<inter> ?R)" using C by (simp_all add: summary_claimed_def)
      have "finite (bits c \<inter> ?R)" by simp
      then have z: "alc = 0 \<longleftrightarrow> bits c \<inter> ?R = {}" using ao(2) by simp
      have e: "cb = Some (if \<not> ao \<and> 0 < alc then c2 else c)" "os' = os" "mi_initially_committed memid' = ao"
        using r False cl' un Some by (auto simp: arena_commit_range_def Let_def split: if_splits)
      have upd: "bitmap_upd ?m (\<lambda>B. if \<not> ao \<and> 0 < alc then B - ?R else B) (aa_committed a) cb"
        using N(1-3) q e(1) Some by (simp add: bitmap_upd_def bitmap_fits_def)
      show ?thesis
      proof (intro exI [of _ "\<lambda>B. if \<not> ao \<and> 0 < alc then B - ?R else B"] conjI impI)
        show "arena_blocks a b n \<subseteq> comm os'" if "mi_initially_committed memid'" using that e all ao(1) Some by simp
        show "\<exists>c. cb = Some c \<and> bits c \<inter> ?R = {}" if "\<not> mi_initially_committed memid'"
          using that e(1,3) N(3) z by auto
      qed (use upd e(2) in auto)
    qed
  qed
qed


lemma arena_try_alloc_at_spec:
  assumes ok: "os_prim_ok mapped comm pr" and good: "arena_good comm U a os" and U: "bits (aa_inuse a) = U"
    and n: "0 < n" "n < 2 ^ 63" and r: "pa_arena_try_alloc_at pr a n commit os = (res, a', os')"
  shows "mapped os' = mapped os \<and> comm os \<subseteq> comm os' \<and>
    (case res of None \<Rightarrow> arena_good comm U a' os' \<and> same_arena {} a a' \<and> bits (aa_inuse a') = U
     | Some (p, memid) \<Rightarrow> \<exists>b. b + n \<le> aa_block_count a \<and> {b..<b + n} \<inter> U = {} \<and> p = pa_arena_block_start a b \<and>
         mi_mem memid = Mem_arena b (aa_id a) (aa_exclusive a) \<and> mi_memkind memid = PA_MEM_ARENA \<and> mi_is_pinned memid = mi_is_pinned (aa_memid a) \<and>
         arena_good comm (U \<union> {b..<b + n}) a' os' \<and> same_arena {b..<b + n} a a' \<and> bits (aa_inuse a') = U \<union> {b..<b + n} \<and>
         (mi_initially_committed memid \<longrightarrow> arena_blocks a b n \<subseteq> comm os') \<and>
         (\<not> mi_initially_committed memid \<longrightarrow> \<not> commit \<longrightarrow> (\<exists>c. aa_committed a' = Some c \<and> bits c \<inter> {b..<b + n} = {})))"
proof -
  let ?m = "aa_field_count a"
  have wf: "arena_wf a" and left: "leftover a \<subseteq> U" using good by (simp_all add: arena_good_def)
  note W = arena_wfD [OF wf]
  have q: "quiet (aa_inuse a)" "length (bm (aa_inuse a)) = ?m" using W(4) by (simp_all add: bitmap_fits_def)
  have m0: "0 < length (bm (aa_inuse a))" using wf q(2) by (simp add: arena_wf_def)
  obtain cl ib where f: "pa_bitmap_try_find_from_claim_across ?m 0 n (aa_inuse a) = (cl, ib)" by (meson surj_pair)
  note F = find_claim_bits [OF q(1) m0 n, unfolded q(2), OF f]
  have ib: "bitmap_fits ?m ib" using F q(2) by (simp add: bitmap_fits_def)
  show ?thesis
  proof (cases cl)
    case None
    then have e: "res = None" "a' = a\<lparr>aa_inuse := ib\<rparr>" "os' = os"
      using r f by (simp_all add: pa_arena_try_alloc_at_def pa_arena_try_claim_def Let_def)
    have "same_arena {} a a'" by (simp add: e same_arena_def)
    then show ?thesis using F None U arena_good_inuse [OF good ib] by (simp add: e)
  next
    case (Some b)
    let ?R = "{b..<b + n}"
    have b: "b + n \<le> 64 * ?m" "bits ib = U \<union> ?R" "?R \<inter> U = {}" using F Some U by auto
    have bc: "b + n \<le> aa_block_count a"
    proof (rule ccontr)
      assume "\<not> b + n \<le> aa_block_count a"
      then have "b + n - 1 \<in> leftover a \<inter> ?R" using b(1) n(1) by (auto simp: leftover_def)
      then show False using left b(3) by blast
    qed
    define a1 where "a1 = a\<lparr>aa_inuse := ib, aa_search_idx := pa_bitmap_index_field b\<rparr>"
    have cl: "pa_arena_try_claim a n = (Some b, a1)" using f Some by (simp add: pa_arena_try_claim_def a1_def)
    define purge where "purge = snd (on_bitmap (pa_bitmap_unclaim_across n b) False (aa_purge a))"
    define zf where "zf = (\<lambda>b'. case pa_bitmap_claim_across n b b' of (x, xa) \<Rightarrow> (case x of (all_zero, u) \<Rightarrow> Pair all_zero) xa)"
    obtain zero dirty where zd: "(if mi_initially_zero (aa_memid a) then on_bitmap zf False (aa_dirty a) else (False, aa_dirty a)) = (zero, dirty)"
      by (meson surj_pair)
    define memid where "memid = (pa_memid_create_arena (aa_id a) (aa_exclusive a) b)\<lparr>mi_is_pinned := mi_is_pinned (aa_memid a), mi_initially_zero := zero\<rparr>"
    obtain memid' cb os1 where c: "arena_commit_range pr b n (pa_arena_block_start a b) commit memid (aa_committed a) os = (memid', cb, os1)"
      by (metis prod_cases3)
    have A1: "aa_memid a1 = aa_memid a" "aa_dirty a1 = aa_dirty a" "aa_purge a1 = aa_purge a" "aa_committed a1 = aa_committed a"
      "aa_id a1 = aa_id a" "aa_exclusive a1 = aa_exclusive a" "pa_arena_block_start a1 b = pa_arena_block_start a b"
      by (simp_all add: a1_def pa_arena_block_start_def)
    have "(Some (pa_arena_block_start a b, memid'), a1\<lparr>aa_purge := purge, aa_dirty := dirty, aa_committed := cb\<rparr>, os1) = (res, a', os')"
      using r unfolding pa_arena_try_alloc_at_def cl Let_def prod.case option.case A1 zf_def [symmetric] zd purge_def [symmetric] memid_def [symmetric] c .
    then have e: "res = Some (pa_arena_block_start a b, memid')" "a' = a1\<lparr>aa_purge := purge, aa_dirty := dirty, aa_committed := cb\<rparr>" "os' = os1"
      by simp_all
    have up: "bitmap_upd ?m (\<lambda>B. B - ?R) (aa_purge a) purge" unfolding purge_def by (rule on_unclaim [OF W(1) n(1) b(1)])
    have ud: "bitmap_upd ?m (\<lambda>B. if mi_initially_zero (aa_memid a) then B \<union> ?R else B) (aa_dirty a) dirty"
    proof -
      have "snd (on_bitmap zf False (aa_dirty a)) = snd (on_bitmap (pa_bitmap_claim_across n b) (False, False, 0) (aa_dirty a))"
        by (cases "aa_dirty a") (auto simp: on_bitmap_def zf_def Let_def split: prod.splits)
      then show ?thesis using zd on_claim [OF W(3) n(1) b(1), of "(False, False, 0)"] bitmap_upd_id [OF W(3)] by (auto split: if_splits)
    qed
    have free: "arena_blocks a i 1 \<subseteq> comm os" if "i \<in> ?R" "\<forall>c\<in>set_option (aa_committed a). i \<in> bits c" for i
      by (rule arena_goodD(4) [OF good _ _ that(2)]) (use that(1) bc b(3) in auto)
    note C = arena_commit_range_spec [OF ok wf n(1) bc free c]
    from C(1) obtain g where g: "bitmap_upd ?m g (aa_committed a) cb" "\<And>B. g B - ?R = B - ?R" "mapped os' = mapped os" "comm os \<subseteq> comm os'"
      "mi_initially_committed memid' \<longrightarrow> arena_blocks a b n \<subseteq> comm os'"
      "\<not> mi_initially_committed memid' \<longrightarrow> \<not> commit \<longrightarrow> (\<exists>c. cb = Some c \<and> bits c \<inter> ?R = {})"
      unfolding e(3) by blast
    have wf': "arena_wf a'"
    proof -
      have "arena_wf a1" using wf ib by (simp add: arena_wf_def a1_def)
      then have "arena_wf (a1\<lparr>aa_purge := purge, aa_dirty := dirty, aa_committed := cb\<rparr>)"
        by (rule arena_wf_update [where f = "\<lambda>B. B - ?R" and g = g]) (use up g(1) ud in \<open>simp_all add: a1_def\<close>)
      then show ?thesis by (simp add: e)
    qed
    have out: "i \<in> bits c \<longleftrightarrow> i \<in> bits c0" if "aa_committed a = Some c0" "cb = Some c" "i \<notin> ?R" for i c c0
      using bitmap_updD(3) [OF g(1) that(1)] that(2,3) g(2) [of "bits c0"] by auto
    have good': "arena_good comm (U \<union> ?R) a' os'"
      unfolding arena_good_def
    proof (intro conjI allI impI ballI)
      show "leftover a' \<subseteq> U \<union> ?R" using left by (auto simp: e a1_def leftover_def)
      show "bits x \<inter> (U \<union> ?R) = {}" if "x \<in> set_option (aa_purge a')" for x
        using bitmap_updD(4) [OF up, of x] that good unfolding e arena_good_def by auto
      show "arena_blocks a' i 1 \<subseteq> comm os'"
        if i: "i < aa_block_count a' \<and> i \<notin> U \<union> ?R \<and> (\<forall>x\<in>set_option (aa_committed a'). i \<in> bits x)" for i
      proof -
        have "\<forall>x\<in>set_option (aa_committed a). i \<in> bits x"
          using i out bitmap_updD(3) [OF g(1)] by (force simp: e)
        then have "arena_blocks a i 1 \<subseteq> comm os" using good i by (simp add: arena_good_def e a1_def)
        then show ?thesis using g(4) by (simp add: e a1_def arena_blocks_def)
      qed
    qed (rule wf')
    have sa: "same_arena ?R a a'" unfolding same_arena_def using bitmap_updD(1) [OF g(1)] out by (auto simp: e a1_def)
    have mm: "mi_mem memid' = Mem_arena b (aa_id a) (aa_exclusive a)" "mi_memkind memid' = PA_MEM_ARENA"
      "mi_is_pinned memid' = mi_is_pinned (aa_memid a)"
    proof -
      obtain i z where m: "memid' = memid\<lparr>mi_initially_committed := i, mi_initially_zero := z\<rparr>" using C(2) by blast
      show "mi_mem memid' = Mem_arena b (aa_id a) (aa_exclusive a)" "mi_memkind memid' = PA_MEM_ARENA"
        "mi_is_pinned memid' = mi_is_pinned (aa_memid a)" unfolding m memid_def pa_memid_create_arena_def pa_memid_create_def by simp_all
    qed
    have bu: "bits (aa_inuse a') = U \<union> ?R" by (simp add: e a1_def b(2))
    have cb: "aa_committed a' = cb" by (simp add: e)
    show ?thesis unfolding e(1) option.case prod.case
    proof (rule conjI [OF g(3) conjI [OF g(4)]], rule exI [of _ b], intro conjI)
      show "b + n \<le> aa_block_count a" "?R \<inter> U = {}" "pa_arena_block_start a b = pa_arena_block_start a b"
        "mi_mem memid' = Mem_arena b (aa_id a) (aa_exclusive a)" "mi_memkind memid' = PA_MEM_ARENA"
        "mi_is_pinned memid' = mi_is_pinned (aa_memid a)" "arena_good comm (U \<union> ?R) a' os'" "same_arena ?R a a'" "bits (aa_inuse a') = U \<union> ?R"
        by (rule bc b(3) refl mm good' sa bu)+
      show "mi_initially_committed memid' \<longrightarrow> arena_blocks a b n \<subseteq> comm os'" by (rule g(5))
      show "\<not> mi_initially_committed memid' \<longrightarrow> \<not> commit \<longrightarrow> (\<exists>c. aa_committed a' = Some c \<and> bits c \<inter> ?R = {})"
        unfolding cb by (rule g(6))
    qed
  qed
qed

section \<open>Freeing blocks\<close>

lemma arena_schedule_purge_keeps:
  assumes ok: "os_prim_ok mapped comm (av_prim env)" and good: "arena_good comm U a os" and np: "aa_committed a \<noteq> None"
    and R: "0 < n" "b + n \<le> aa_block_count a" "{b..<b + n} \<inter> U = {}" and r: "pa_arena_schedule_purge env b n a os t = (a', os', t')"
  shows "purge_keeps mapped comm U a os a' os'" "aa_inuse a' = aa_inuse a"
proof -
  have wf: "arena_wf a" using good by (simp add: arena_good_def)
  note W = arena_wfD [OF wf]
  let ?purge = "snd (on_bitmap (pa_bitmap_claim_across n b) (False, False, 0) (aa_purge a))"
  have P: "purge_keeps mapped comm U a os a' os' \<and> aa_inuse a' = aa_inuse a" if "pa_arena_purge (av_prim env) b n a os = (a', os')"
    using arena_purge_keeps(1,3) [OF ok good np R that] by blast
  have uc: "bitmap_upd (aa_field_count a) (\<lambda>B. B \<union> {b..<b + n}) (aa_purge a) ?purge" by (rule on_claim [OF W(1) R(1) W(5) [OF R(2)]])
  have cases: "(a' = a \<and> os' = os) \<or> pa_arena_purge (av_prim env) b n a os = (a', os') \<or>
      (\<exists>a0 e. (a0 = a \<or> a0 = a\<lparr>aa_purge_expire := e\<rparr>) \<and> a' = a0\<lparr>aa_purge := ?purge\<rparr> \<and> os' = os)"
  proof (cases "pa_arena_purge_delay env < 0 \<or> oc_preloading (prim_cfg (av_prim env)) \<or> pa_arena_purge_delay env = 0")
    case True
    then show ?thesis using r by (auto simp: pa_arena_schedule_purge_def Let_def split: if_splits prod.splits)
  next
    case False
    then show ?thesis using r by (cases "aa_purge_expire a = 0") (auto simp: pa_arena_schedule_purge_def Let_def)
  qed
  have third: "purge_keeps mapped comm U a os (a0\<lparr>aa_purge := ?purge\<rparr>) os" if a0: "a0 = a \<or> a0 = a\<lparr>aa_purge_expire := e\<rparr>" for a0 e
  proof -
    have "arena_wf (a\<lparr>aa_purge := ?purge, aa_dirty := aa_dirty a, aa_committed := aa_committed a\<rparr>)"
      by (rule arena_wf_update [OF wf uc bitmap_upd_id [OF W(2)] bitmap_upd_id [OF W(3)]])
    then have wf': "arena_wf (a0\<lparr>aa_purge := ?purge\<rparr>)" using a0 by (elim disjE; simp add: arena_wf_def)
    have "bits x \<inter> U = {}" if "x \<in> set_option ?purge" for x
      using bitmap_updD(4) [OF uc that] arena_goodD(1) [OF good] R(3) by (metis Int_Un_distrib2 Un_empty option.set_intros)
    then have "arena_good comm U (a0\<lparr>aa_purge := ?purge\<rparr>) os" using a0
      by (intro arena_good_frame [OF good wf']) auto
    then show ?thesis using a0 by (auto simp: purge_keeps_def same_arena_def)
  qed
  have "purge_keeps mapped comm U a os a' os' \<and> aa_inuse a' = aa_inuse a"
    using cases
  proof (elim disjE exE conjE)
    fix a0 e assume "a0 = a" "a' = a0\<lparr>aa_purge := ?purge\<rparr>" "os' = os"
    then show ?thesis using third [of a0] by simp
  next
    fix a0 e assume "a0 = a\<lparr>aa_purge_expire := e\<rparr>" "a' = a0\<lparr>aa_purge := ?purge\<rparr>" "os' = os"
    then show ?thesis using third [of a0 e] by simp
  qed (use good P in \<open>simp_all add: purge_keeps_refl\<close>)
  then show "purge_keeps mapped comm U a os a' os'" "aa_inuse a' = aa_inuse a" by blast+
qed


lemma arena_free_blocks:
  assumes ok: "os_prim_ok mapped comm (av_prim env)" and good: "arena_good comm U a os" and U: "bits (aa_inuse a) = U"
    and R: "0 < n" "b + n \<le> aa_block_count a" "{b..<b + n} \<subseteq> U"
    and promise: "\<And>i. all \<Longrightarrow> i \<in> {b..<b + n} \<Longrightarrow> \<forall>c\<in>set_option (aa_committed a). i \<in> bits c \<Longrightarrow> arena_blocks a i 1 \<subseteq> comm os"
    and all: "aa_committed a = None \<Longrightarrow> all"
    and m: "(if mi_is_pinned (aa_memid a) \<or> aa_committed a = None then (a, os, t)
       else pa_arena_schedule_purge env b n (a\<lparr>aa_committed := (if \<not> all
               then snd (on_bitmap (pa_bitmap_unclaim_across n b) False (aa_committed a)) else aa_committed a)\<rparr>) os t) = (a1, os1, t1)"
    and u: "pa_bitmap_unclaim_across n b (aa_inuse a1) = (ai, ib)"
  shows "ai" "bits ib = U - {b..<b + n}" "purge_keeps mapped comm (U - {b..<b + n}) (a\<lparr>aa_inuse := ib\<rparr>) os (a1\<lparr>aa_inuse := ib\<rparr>) os1"
proof -
  let ?R = "{b..<b + n}" and ?m = "aa_field_count a"
  have wf: "arena_wf a" and left: "leftover a \<subseteq> U" using arena_goodD [OF good] by simp_all
  note W = arena_wfD [OF wf]
  note fc = W(5) [OF R(2)]
  define c where "c = (if \<not> all then snd (on_bitmap (pa_bitmap_unclaim_across n b) False (aa_committed a)) else aa_committed a)"
  define a0 where "a0 = a\<lparr>aa_committed := c\<rparr>"
  have uc: "bitmap_upd ?m (\<lambda>B. if \<not> all then B - ?R else B) (aa_committed a) c"
    using on_unclaim [OF W(2) R(1) fc, of False] bitmap_upd_id [OF W(2)] unfolding c_def by simp
  have wf0: "arena_wf a0" using arena_wf_update [OF wf bitmap_upd_id [OF W(1)] uc bitmap_upd_id [OF W(3)]] by (simp add: a0_def)
  have blk: "arena_blocks a0 = arena_blocks a" "leftover a0 = leftover a" by (simp_all add: a0_def arena_blocks_def leftover_def fun_eq_iff)
  have good0: "arena_good comm (U - ?R) a0 os"
    unfolding arena_good_def blk
  proof (intro conjI allI impI ballI)
    show "leftover a \<subseteq> U - ?R" using left R(2) by (auto simp: leftover_def)
    show "bits x \<inter> (U - ?R) = {}" if "x \<in> set_option (aa_purge a0)" for x
      using arena_goodD(1) [OF good, of x] that by (auto simp: a0_def)
    show "arena_blocks a i 1 \<subseteq> comm os"
      if i: "i < aa_block_count a0 \<and> i \<notin> U - ?R \<and> (\<forall>x\<in>set_option (aa_committed a0). i \<in> bits x)" for i
    proof -
      have C: "\<forall>x\<in>set_option (aa_committed a). i \<in> bits x"
        using i bitmap_updD(3) [OF uc] by (force simp: a0_def split: if_splits)
      show ?thesis
      proof (cases "i \<in> ?R")
        case True
        have all
        proof (rule ccontr)
          assume na: "\<not> all"
          then obtain c0 where c0: "aa_committed a = Some c0" using all by blast
          show False using bitmap_updD(3) [OF uc c0] i True na by (auto simp: a0_def)
        qed
        from promise [OF this True C] show ?thesis .
      next
        case False
        then show ?thesis using arena_goodD(4) [OF good _ _ C] i by (simp add: a0_def)
      qed
    qed
  qed (rule wf0)
  have P: "purge_keeps mapped comm (U - ?R) a0 os a1 os1 \<and> aa_inuse a1 = aa_inuse a"
  proof (cases "mi_is_pinned (aa_memid a) \<or> aa_committed a = None")
    case True
    then have "aa_committed a = None" using wf by (simp add: arena_wf_def)
    then have "a0 = a" using all by (simp add: a0_def c_def)
    moreover have "a1 = a" "os1 = os" using m True by simp_all
    ultimately show ?thesis using purge_keeps_refl [OF good0] by simp
  next
    case False
    have np: "aa_committed a0 \<noteq> None" using bitmap_updD(1) [OF uc] False by (simp add: a0_def)
    have r: "pa_arena_schedule_purge env b n a0 os t = (a1, os1, t1)" using m False by (simp add: a0_def c_def)
    have "b + n \<le> aa_block_count a0" using R(2) by (simp add: a0_def)
    then show ?thesis using arena_schedule_purge_keeps [OF ok good0 np R(1) _ _ r] by (auto simp: a0_def)
  qed
  have q: "quiet (aa_inuse a1)" "length (bm (aa_inuse a1)) = ?m" using P W(4) by (simp_all add: bitmap_fits_def)
  have le: "b + n \<le> 64 * length (bm (aa_inuse a1))" using fc q(2) by simp
  note N = unclaim_across_bits [OF q(1) R(1) le u]
  show ai "bits ib = U - ?R" using N(3,4) R(3) U P by auto
  have ib: "bitmap_fits ?m ib" using N(1,2) q(2) by (simp add: bitmap_fits_def)
  have s0: "same_arena {} a a0" using bitmap_updD(1,3) [OF uc] unfolding same_arena_def by (auto simp: a0_def split: if_splits)
  have fb: "free_bytes (a\<lparr>aa_inuse := ib\<rparr>) (U - ?R) = free_bytes a0 (U - ?R)" by (simp add: free_bytes_def arena_blocks_def a0_def)
  have sa: "same_arena {} a a1" using same_arena_trans [OF s0] P by (simp add: purge_keeps_def)
  have fc1: "aa_field_count a1 = ?m" using sa by (simp add: same_arena_def)
  have g1: "arena_good comm (U - ?R) (a1\<lparr>aa_inuse := ib\<rparr>) os1" by (rule arena_good_inuse) (use P ib fc1 in \<open>simp_all add: purge_keeps_def\<close>)
  show "purge_keeps mapped comm (U - ?R) (a\<lparr>aa_inuse := ib\<rparr>) os (a1\<lparr>aa_inuse := ib\<rparr>) os1"
    unfolding purge_keeps_def fb using g1 P sa by (simp add: purge_keeps_def same_arena_def)
qed

end
