(* ===== verification/Palloc_ArenaHistory.thy ===== *)
theory Palloc_ArenaHistory
  imports Palloc_ArenaInv
begin

text \<open>
  All arenas together: the memory that clients hold, the invariant that ties it to the bitmaps of the
  arenas and to the mappings of the process, and the histories of allocations, frees and purges.
\<close>

section \<open>Held memory\<close>

text \<open>An allocation: its address, its size, its memory id, and whether committed memory was asked for.\<close>

type_synonym holding = "uintptr_t \<times> size_t \<times> pa_memid \<times> bool"

definition holding_bytes :: "holding \<Rightarrow> nat set" where
  "holding_bytes = (\<lambda>(p, sz, memid, c). area p sz)"

text \<open>What the allocation takes up: whole blocks of an arena, or all that was mapped for it.\<close>

definition extent :: "holding \<Rightarrow> nat set" where
  "extent = (\<lambda>(p, sz, memid, c). case mi_mem memid of
     Mem_arena b id' e \<Rightarrow> {unat p..<unat p + pa_block_count_of_size sz * 2 ^ 25} | Mem_os base s \<Rightarrow> os_extent memid)"

text \<open>The blocks of the arena with index \<open>i\<close> that are held.\<close>

definition blocks_of :: "nat \<Rightarrow> holding \<Rightarrow> nat set" where
  "blocks_of i = (\<lambda>(p, sz, memid, c). case mi_mem memid of
     Mem_arena b id' e \<Rightarrow> (if id' = int i + 1 then {b..<b + pa_block_count_of_size sz} else {}) | Mem_os base s \<Rightarrow> {})"

definition held :: "nat \<Rightarrow> holding set \<Rightarrow> nat set" where
  "held i L = (\<Union>x\<in>L. blocks_of i x)"

lemma held_insert [simp]: "held i (insert x L) = blocks_of i x \<union> held i L"
  by (simp add: held_def)

text \<open>A block past the end of a holding is committed when it is marked committed, unless committing it failed.\<close>

definition tail_ok :: "('o \<Rightarrow> nat set) \<Rightarrow> pa_arena \<Rightarrow> nat \<Rightarrow> 'o \<Rightarrow> holding \<Rightarrow> bool" where
  "tail_ok comm a b os = (\<lambda>(p, sz, memid, c).
     (mi_initially_committed memid \<longrightarrow> extent (p, sz, memid, c) - area p sz \<subseteq> comm os) \<and>
     (\<not> mi_initially_committed memid \<longrightarrow> \<not> c \<longrightarrow>
        (\<exists>cb. aa_committed a = Some cb \<and> bits cb \<inter> {b..<b + pa_block_count_of_size sz} = {})))"

definition holding_ok :: "('o \<Rightarrow> nat set) \<Rightarrow> ('o \<Rightarrow> nat set) \<Rightarrow> 'o pa_arenas \<Rightarrow> holding \<Rightarrow> bool" where
  "holding_ok mapped comm st = (\<lambda>(p, sz, memid, c). p \<noteq> 0 \<and> 0 < unat sz \<and> unat sz < 2 ^ 62 \<and>
     (case mi_mem memid of
        Mem_arena b id' e \<Rightarrow> mi_memkind memid = PA_MEM_ARENA \<and>
          (\<exists>i a. i < PA_MAX_ARENAS \<and> id' = int i + 1 \<and> as_arenas st ! i = Some a \<and> b + pa_block_count_of_size sz \<le> aa_block_count a \<and>
             p = pa_arena_block_start a b \<and> mi_is_pinned memid = mi_is_pinned (aa_memid a) \<and> tail_ok comm a b (as_os st) (p, sz, memid, c))
      | Mem_os base s \<Rightarrow> os_memid_ok memid \<and> area p sz \<subseteq> os_extent memid \<and> os_extent memid \<subseteq> mapped (as_os st) \<and>
          (\<forall>i a. i < PA_MAX_ARENAS \<longrightarrow> as_arenas st ! i = Some a \<longrightarrow> arena_bytes a \<inter> os_extent memid = {})))"

definition arena_at_ok :: "('o \<Rightarrow> nat set) \<Rightarrow> ('o \<Rightarrow> nat set) \<Rightarrow> 'o pa_arenas \<Rightarrow> holding set \<Rightarrow> nat \<Rightarrow> pa_arena \<Rightarrow> bool" where
  "arena_at_ok mapped comm st L i a \<longleftrightarrow> i < as_count st \<and> aa_id a = int i + 1 \<and> bits (aa_inuse a) = leftover a \<union> held i L \<and>
     arena_good comm (leftover a \<union> held i L) a (as_os st) \<and> arena_bytes a \<subseteq> mapped (as_os st)"

definition arenas_inv :: "('o \<Rightarrow> nat set) \<Rightarrow> ('o \<Rightarrow> nat set) \<Rightarrow> 'o pa_arenas \<Rightarrow> holding set \<Rightarrow> bool" where
  "arenas_inv mapped comm st L \<longleftrightarrow> length (as_arenas st) = PA_MAX_ARENAS \<and> as_count st \<le> PA_MAX_ARENAS \<and>
     (\<forall>i a. i < PA_MAX_ARENAS \<longrightarrow> as_arenas st ! i = Some a \<longrightarrow> arena_at_ok mapped comm st L i a) \<and>
     (\<forall>i j a b. i < PA_MAX_ARENAS \<longrightarrow> j < PA_MAX_ARENAS \<longrightarrow> i \<noteq> j \<longrightarrow> as_arenas st ! i = Some a \<longrightarrow> as_arenas st ! j = Some b \<longrightarrow>
        arena_bytes a \<inter> arena_bytes b = {}) \<and>
     (\<forall>x\<in>L. holding_ok mapped comm st x) \<and> (\<forall>x\<in>L. \<forall>y\<in>L. x \<noteq> y \<longrightarrow> extent x \<inter> extent y = {})"

lemma arenas_invD:
  assumes "arenas_inv mapped comm st L"
  shows "length (as_arenas st) = PA_MAX_ARENAS" "as_count st \<le> PA_MAX_ARENAS"
    "i < PA_MAX_ARENAS \<Longrightarrow> as_arenas st ! i = Some a \<Longrightarrow> arena_at_ok mapped comm st L i a"
    "i < PA_MAX_ARENAS \<Longrightarrow> j < PA_MAX_ARENAS \<Longrightarrow> i \<noteq> j \<Longrightarrow> as_arenas st ! i = Some a \<Longrightarrow> as_arenas st ! j = Some b \<Longrightarrow> arena_bytes a \<inter> arena_bytes b = {}"
    "x \<in> L \<Longrightarrow> holding_ok mapped comm st x" "x \<in> L \<Longrightarrow> y \<in> L \<Longrightarrow> x \<noteq> y \<Longrightarrow> extent x \<inter> extent y = {}"
  using assms unfolding arenas_inv_def by blast+

lemma arenas_invI:
  assumes "length (as_arenas st) = PA_MAX_ARENAS" "as_count st \<le> PA_MAX_ARENAS"
    "\<And>i a. i < PA_MAX_ARENAS \<Longrightarrow> as_arenas st ! i = Some a \<Longrightarrow> arena_at_ok mapped comm st L i a"
    "\<And>i j a b. i < PA_MAX_ARENAS \<Longrightarrow> j < PA_MAX_ARENAS \<Longrightarrow> i \<noteq> j \<Longrightarrow> as_arenas st ! i = Some a \<Longrightarrow> as_arenas st ! j = Some b \<Longrightarrow>
        arena_bytes a \<inter> arena_bytes b = {}"
    "\<And>x. x \<in> L \<Longrightarrow> holding_ok mapped comm st x" "\<And>x y. x \<in> L \<Longrightarrow> y \<in> L \<Longrightarrow> x \<noteq> y \<Longrightarrow> extent x \<inter> extent y = {}"
  shows "arenas_inv mapped comm st L"
  using assms unfolding arenas_inv_def by blast

lemma arena_extent:
  assumes "arena_wf a" "b + pa_block_count_of_size sz \<le> aa_block_count a" "0 < unat sz" "unat sz < 2 ^ 62"
    "mi_mem memid = Mem_arena b id' e"
  shows "extent (pa_arena_block_start a b, sz, memid, c) = arena_blocks a b (pa_block_count_of_size sz)"
    "area (pa_arena_block_start a b) sz \<subseteq> arena_blocks a b (pa_block_count_of_size sz)"
proof -
  note A = area_blocks [OF assms(1,2)]
  show e: "extent (pa_arena_block_start a b, sz, memid, c) = arena_blocks a b (pa_block_count_of_size sz)"
    unfolding extent_def prod.case assms(5) pa_memid_info.case A(3) arena_blocks_def by (simp add: algebra_simps)
  show "area (pa_arena_block_start a b) sz \<subseteq> arena_blocks a b (pa_block_count_of_size sz)"
    using block_count_bounds(3) [OF assms(3,4)] unfolding e [symmetric] extent_def prod.case assms(5) pa_memid_info.case area_def by auto
qed

text \<open>A holding inside an arena.\<close>

lemma holding_arena:
  assumes inv: "arenas_inv mapped comm st L" and x: "(p, sz, memid, c) \<in> L" and m: "mi_mem memid = Mem_arena b id' e"
  obtains i a where "i < PA_MAX_ARENAS" "id' = int i + 1" "as_arenas st ! i = Some a" "arena_at_ok mapped comm st L i a"
    "b + pa_block_count_of_size sz \<le> aa_block_count a" "p = pa_arena_block_start a b" "mi_is_pinned memid = mi_is_pinned (aa_memid a)"
    "tail_ok comm a b (as_os st) (p, sz, memid, c)" "extent (p, sz, memid, c) = arena_blocks a b (pa_block_count_of_size sz)"
    "blocks_of i (p, sz, memid, c) = {b..<b + pa_block_count_of_size sz}" "area p sz \<subseteq> extent (p, sz, memid, c)"
    "extent (p, sz, memid, c) \<subseteq> arena_bytes a" "mi_memkind memid = PA_MEM_ARENA" "0 < pa_block_count_of_size sz"
    "0 < unat sz" "unat sz < 2 ^ 62"
proof -
  note H = arenas_invD(5) [OF inv x]
  obtain i a where i: "i < PA_MAX_ARENAS" "id' = int i + 1" "as_arenas st ! i = Some a"
    "b + pa_block_count_of_size sz \<le> aa_block_count a" "p = pa_arena_block_start a b" "mi_is_pinned memid = mi_is_pinned (aa_memid a)"
    "tail_ok comm a b (as_os st) (p, sz, memid, c)" "mi_memkind memid = PA_MEM_ARENA" "0 < unat sz" "unat sz < 2 ^ 62"
    using H m unfolding holding_ok_def by auto
  note A = arenas_invD(3) [OF inv i(1,3)]
  have wf: "arena_wf a" using A arena_goodD(3) by (auto simp: arena_at_ok_def)
  note E = arena_extent [OF wf i(4,9,10) m]
  show thesis
  proof (rule that [OF i(1-3) A i(4-7)])
    show "extent (p, sz, memid, c) = arena_blocks a b (pa_block_count_of_size sz)" unfolding i(5) by (rule E(1))
    show "blocks_of i (p, sz, memid, c) = {b..<b + pa_block_count_of_size sz}" by (simp add: blocks_of_def m i(2))
    show "area p sz \<subseteq> extent (p, sz, memid, c)" unfolding i(5) E(1) by (rule E(2))
    show "extent (p, sz, memid, c) \<subseteq> arena_bytes a" unfolding i(5) E(1) by (rule area_blocks(6) [OF wf i(4)])
    show "0 < pa_block_count_of_size sz" by (rule block_count_bounds(1) [OF i(9,10)])
  qed (use i in auto)
qed

lemma holding_os:
  assumes inv: "arenas_inv mapped comm st L" and x: "(p, sz, memid, c) \<in> L" and m: "mi_mem memid = Mem_os base s"
  shows "os_memid_ok memid" "area p sz \<subseteq> os_extent memid" "os_extent memid \<subseteq> mapped (as_os st)" "extent (p, sz, memid, c) = os_extent memid"
    "i < PA_MAX_ARENAS \<Longrightarrow> as_arenas st ! i = Some a \<Longrightarrow> arena_bytes a \<inter> os_extent memid = {}" "blocks_of i (p, sz, memid, c) = {}"
    "0 < unat sz" "p \<noteq> 0"
  using arenas_invD(5) [OF inv x] m by (auto simp: holding_ok_def extent_def blocks_of_def)

lemma holding_area:
  assumes inv: "arenas_inv mapped comm st L" and x: "(p, sz, memid, c) \<in> L"
  shows "area p sz \<subseteq> extent (p, sz, memid, c)" "extent (p, sz, memid, c) \<subseteq> mapped (as_os st)" "p \<noteq> 0"
proof -
  show "p \<noteq> 0" using arenas_invD(5) [OF inv x] by (simp add: holding_ok_def)
  have "area p sz \<subseteq> extent (p, sz, memid, c) \<and> extent (p, sz, memid, c) \<subseteq> mapped (as_os st)"
  proof (cases "mi_mem memid")
    case (Mem_os base s)
    show ?thesis using holding_os(2,3,4) [OF inv x Mem_os] by simp
  next
    case (Mem_arena b id' e)
    show ?thesis by (rule holding_arena [OF inv x Mem_arena]) (auto simp: arena_at_ok_def)
  qed
  then show "area p sz \<subseteq> extent (p, sz, memid, c)" "extent (p, sz, memid, c) \<subseteq> mapped (as_os st)" by blast+
qed


section \<open>Keeping the invariant\<close>

lemma blocks_of_disjoint:
  assumes inv: "arenas_inv mapped comm st L" and xy: "x \<in> L" "y \<in> L" "x \<noteq> y"
  shows "blocks_of i x \<inter> blocks_of i y = {}"
proof (rule ccontr)
  assume "blocks_of i x \<inter> blocks_of i y \<noteq> {}"
  then obtain k where k: "k \<in> blocks_of i x" "k \<in> blocks_of i y" by blast
  have sub: "\<exists>a. as_arenas st ! i = Some a \<and> arena_blocks a k 1 \<subseteq> extent z" if z: "z \<in> L" "k \<in> blocks_of i z" for z
  proof -
    obtain p sz memid c where e: "z = (p, sz, memid, c)" by (metis prod_cases4)
    obtain b id' ex where m: "mi_mem memid = Mem_arena b id' ex" and id: "id' = int i + 1" and kb: "k \<in> {b..<b + pa_block_count_of_size sz}"
      using z(2) by (auto simp: e blocks_of_def split: pa_memid_info.splits if_splits)
    show ?thesis
    proof (rule holding_arena [OF inv z(1) [unfolded e] m])
      fix j a assume j: "id' = int j + 1" "as_arenas st ! j = Some a"
        "extent (p, sz, memid, c) = arena_blocks a b (pa_block_count_of_size sz)"
      have "arena_blocks a k 1 \<subseteq> arena_blocks a b (pa_block_count_of_size sz)" using kb arena_blocks_split [of a b "pa_block_count_of_size sz"] by blast
      then show ?thesis using j id by (auto simp: e)
    qed
  qed
  obtain a where a: "arena_blocks a k 1 \<subseteq> extent x" "arena_blocks a k 1 \<subseteq> extent y" using sub [OF xy(1) k(1)] sub [OF xy(2) k(2)] by auto
  have "arena_blocks a k 1 \<noteq> {}" by (simp add: arena_blocks_def)
  then show False using a arenas_invD(6) [OF inv xy] by blast
qed

lemma free_bytes_sub: "free_bytes a U \<subseteq> arena_bytes a"
proof -
  have "free_bytes a U \<subseteq> (\<Union>i\<in>{0..<0 + aa_block_count a}. arena_blocks a i 1)" by (auto simp: free_bytes_def)
  then show ?thesis by (simp only: arena_bytes_def arena_blocks_split [of a 0 "aa_block_count a"])
qed

lemma free_bytes_disjoint:
  assumes "{b..<b + n} \<subseteq> U"
  shows "arena_blocks a b n \<inter> free_bytes a U = {}"
  unfolding arena_blocks_split [of a b n] free_bytes_def
proof -
  have "arena_blocks a i 1 \<inter> arena_blocks a j 1 = {}" if "i \<in> {b..<b + n}" "j \<in> {..<aa_block_count a} - U" for i j
    using assms that by (intro arena_blocks_disjoint) auto
  then show "(\<Union>i\<in>{b..<b + n}. arena_blocks a i 1) \<inter> (\<Union>i\<in>{..<aa_block_count a} - U. arena_blocks a i 1) = {}" by blast
qed

lemma arena_good_os:
  assumes "arena_good comm U a os" "comm os \<inter> free_bytes a U \<subseteq> comm os'"
  shows "arena_good comm U a os'"
proof -
  have "arena_blocks a i 1 \<subseteq> comm os'" if "i < aa_block_count a" "i \<notin> U" "\<forall>b\<in>set_option (aa_committed a). i \<in> bits b" for i
  proof -
    have "arena_blocks a i 1 \<subseteq> free_bytes a U" using that by (auto simp: free_bytes_def)
    then show ?thesis using arena_goodD(4) [OF assms(1) that] assms(2) by blast
  qed
  then show ?thesis using assms(1) unfolding arena_good_def by blast
qed

lemma tail_ok_keep:
  assumes "tail_ok comm a b os x" "comm os \<inter> (extent x - holding_bytes x) \<subseteq> comm os'"
    and "\<And>c p sz m k. x = (p, sz, m, k) \<Longrightarrow> aa_committed a = Some c \<Longrightarrow> \<exists>c'. aa_committed a' = Some c' \<and>
       bits c' \<inter> {b..<b + pa_block_count_of_size sz} \<subseteq> bits c"
  shows "tail_ok comm a' b os' x"
proof -
  obtain p sz m k where x: "x = (p, sz, m, k)" by (metis prod_cases4)
  show ?thesis using assms(1,2) assms(3) [OF x] unfolding x tail_ok_def holding_bytes_def by (fastforce simp: Int_commute)
qed

lemma held_mono: "x \<in> L \<Longrightarrow> blocks_of i x \<subseteq> held i L"
  by (auto simp: held_def)

lemma arenas_inv_change:
  assumes inv: "arenas_inv mapped comm st L" and i: "i < PA_MAX_ARENAS" "as_arenas st ! i = Some a"
    and st': "as_arenas st' = (as_arenas st)[i := Some a']" "as_count st' = as_count st"
    and same: "same_arena R a a'" and held: "\<And>j. j \<noteq> i \<Longrightarrow> held j L' = held j L"
    and use: "bits (aa_inuse a') = leftover a \<union> held i L'" and good: "arena_good comm (leftover a \<union> held i L') a' (as_os st')"
    and os: "mapped (as_os st') = mapped (as_os st)" "comm (as_os st) - free_bytes a (leftover a \<union> held i L') \<subseteq> comm (as_os st')"
    and R: "\<And>x. x \<in> L \<Longrightarrow> x \<in> L' \<Longrightarrow> blocks_of i x \<inter> R = {}"
    and new: "\<And>x. x \<in> L' \<Longrightarrow> x \<notin> L \<Longrightarrow> holding_ok mapped comm st' x"
      "\<And>x y. x \<in> L' \<Longrightarrow> x \<notin> L \<Longrightarrow> y \<in> L' \<Longrightarrow> x \<noteq> y \<Longrightarrow> extent x \<inter> extent y = {}"
  shows "arenas_inv mapped comm st' L'"
proof -
  note A = arenas_invD(3) [OF inv i]
  note sa = same_arena_areas [OF same]
  have len: "length (as_arenas st) = PA_MAX_ARENAS" by (rule arenas_invD(1) [OF inv])
  have nth: "as_arenas st' ! j = (if j = i then Some a' else as_arenas st ! j)" if "j < PA_MAX_ARENAS" for j
    using that st'(1) len by (simp add: nth_list_update)
  have bytes: "j < PA_MAX_ARENAS \<Longrightarrow> as_arenas st' ! j = Some b' \<Longrightarrow> \<exists>b. as_arenas st ! j = Some b \<and> arena_bytes b' = arena_bytes b" for j b'
    using nth [of j] i sa(2) by (auto split: if_splits)
  let ?F = "free_bytes a (leftover a \<union> held i L')"
  have F: "?F \<subseteq> arena_bytes a" by (rule free_bytes_sub)
  show ?thesis
  proof (rule arenas_invI)
    show "length (as_arenas st') = PA_MAX_ARENAS" using st'(1) len by simp
    show "as_count st' \<le> PA_MAX_ARENAS" using st'(2) arenas_invD(2) [OF inv] by simp
    fix j b assume j: "j < PA_MAX_ARENAS" "as_arenas st' ! j = Some b"
    show "arena_at_ok mapped comm st' L' j b"
    proof (cases "j = i")
      case True
      then have "b = a'" using j nth by simp
      then show ?thesis using A same use good os(1) sa st'(2) True unfolding arena_at_ok_def by (simp add: same_arena_def)
    next
      case False
      then have b: "as_arenas st ! j = Some b" using j nth by simp
      note B = arenas_invD(3) [OF inv j(1) b]
      have "arena_bytes a \<inter> arena_bytes b = {}" by (rule arenas_invD(4) [OF inv i(1) j(1) _ i(2) b]) (use False in simp)
      then have "comm (as_os st) \<inter> free_bytes b (leftover b \<union> held j L) \<subseteq> comm (as_os st')" using os(2) F free_bytes_sub by blast
      then show ?thesis using B arena_good_os [of comm _ b "as_os st" "as_os st'"] os(1) st'(2) held [OF False] unfolding arena_at_ok_def by simp
    qed
  next
    fix j k b c assume "j < PA_MAX_ARENAS" "k < PA_MAX_ARENAS" "j \<noteq> k" "as_arenas st' ! j = Some b" "as_arenas st' ! k = Some c"
    then show "arena_bytes b \<inter> arena_bytes c = {}" using bytes arenas_invD(4) [OF inv] by metis
  next
    fix x assume x: "x \<in> L'"
    show "holding_ok mapped comm st' x"
    proof (cases "x \<in> L")
      case False
      then show ?thesis using new(1) x by blast
    next
      case True
      obtain p sz m c where e: "x = (p, sz, m, c)" by (metis prod_cases4)
      note H = arenas_invD(5) [OF inv True]
      show ?thesis
      proof (cases "mi_mem m")
        case (Mem_os base s)
        have "\<forall>j b. j < PA_MAX_ARENAS \<longrightarrow> as_arenas st' ! j = Some b \<longrightarrow> arena_bytes b \<inter> os_extent m = {}"
          using bytes holding_os(5) [OF inv True [unfolded e] Mem_os] by metis
        then show ?thesis using H Mem_os os(1) unfolding holding_ok_def e by simp
      next
        case (Mem_arena b id' ex)
        show ?thesis
        proof (rule holding_arena [OF inv True [unfolded e] Mem_arena])
          fix j d assume j: "j < PA_MAX_ARENAS" "id' = int j + 1" "as_arenas st ! j = Some d" "arena_at_ok mapped comm st L j d"
            "b + pa_block_count_of_size sz \<le> aa_block_count d" "p = pa_arena_block_start d b" "mi_is_pinned m = mi_is_pinned (aa_memid d)"
            "tail_ok comm d b (as_os st) (p, sz, m, c)" "extent (p, sz, m, c) = arena_blocks d b (pa_block_count_of_size sz)"
            "blocks_of j (p, sz, m, c) = {b..<b + pa_block_count_of_size sz}" "extent (p, sz, m, c) \<subseteq> arena_bytes d" "mi_memkind m = PA_MEM_ARENA"
          define d' where "d' = (if j = i then a' else d)"
          have d': "as_arenas st' ! j = Some d'" "aa_block_count d' = aa_block_count d" "aa_memid d' = aa_memid d" "pa_arena_block_start d' b = pa_arena_block_start d b"
            using nth [OF j(1)] j(3) i(2) same sa(4) by (auto simp: d'_def same_arena_def)
          have keep: "comm (as_os st) \<inter> extent x \<subseteq> comm (as_os st')"
          proof (cases "j = i")
            case True
            then have "{b..<b + pa_block_count_of_size sz} \<subseteq> leftover a \<union> held i L'" using held_mono [OF x, of i] j(10) by (auto simp: e)
            from free_bytes_disjoint [OF this, of a] show ?thesis using os(2) True j(3,9) i(2) by (auto simp: e)
          next
            case False
            have "arena_bytes a \<inter> arena_bytes d = {}" by (rule arenas_invD(4) [OF inv i(1) j(1) _ i(2) j(3)]) (use False in simp)
            then show ?thesis using os(2) F j(11) by (auto simp: e)
          qed
          have "tail_ok comm d' b (as_os st') (p, sz, m, c)"
          proof (rule tail_ok_keep [OF j(8)])
            show "comm (as_os st) \<inter> (extent (p, sz, m, c) - holding_bytes (p, sz, m, c)) \<subseteq> comm (as_os st')" using keep by (auto simp: e)
            fix c0 p' sz' m' k assume q: "(p, sz, m, c) = (p', sz', m', k)" "aa_committed d = Some c0"
            show "\<exists>c'. aa_committed d' = Some c' \<and> bits c' \<inter> {b..<b + pa_block_count_of_size sz'} \<subseteq> bits c0"
            proof (cases "j = i")
              case True
              then have "aa_committed a = Some c0" using q(2) j(3) i(2) by simp
              then obtain c' where c': "aa_committed a' = Some c'" "bits c' \<subseteq> bits c0 \<union> R" using same unfolding same_arena_def by auto
              have "{b..<b + pa_block_count_of_size sz} \<inter> R = {}" using R [OF \<open>x \<in> L\<close> x] j(10) True by (simp add: e)
              then show ?thesis using c' True q(1) by (auto simp: d'_def)
            qed (use q(2) in \<open>simp add: d'_def\<close>)
          qed
          then show ?thesis using H Mem_arena j d' unfolding holding_ok_def e by auto
        qed
      qed
    qed
  next
    fix x y assume "x \<in> L'" "y \<in> L'" "x \<noteq> y"
    then show "extent x \<inter> extent y = {}" using new(2) arenas_invD(6) [OF inv] by (cases "x \<in> L"; cases "y \<in> L"; blast)
  qed
qed


lemma arenas_inv_os:
  assumes inv: "arenas_inv mapped comm st L" and L': "L' \<subseteq> L" "\<And>i. held i L' = held i L"
    and st': "as_arenas st' = as_arenas st" "as_count st' = as_count st"
    and arena: "\<And>i a. i < PA_MAX_ARENAS \<Longrightarrow> as_arenas st ! i = Some a \<Longrightarrow>
        arena_bytes a \<subseteq> mapped (as_os st') \<and> comm (as_os st) \<inter> free_bytes a (leftover a \<union> held i L) \<subseteq> comm (as_os st')"
    and hold: "\<And>x. x \<in> L' \<Longrightarrow> extent x \<subseteq> mapped (as_os st') \<and> comm (as_os st) \<inter> (extent x - holding_bytes x) \<subseteq> comm (as_os st')"
  shows "arenas_inv mapped comm st' L'"
proof (rule arenas_invI)
  show "length (as_arenas st') = PA_MAX_ARENAS" "as_count st' \<le> PA_MAX_ARENAS" using arenas_invD(1,2) [OF inv] st' by simp_all
  fix i a assume i: "i < PA_MAX_ARENAS" "as_arenas st' ! i = Some a"
  note A = arenas_invD(3) [OF inv i(1) i(2) [unfolded st'(1)]]
  show "arena_at_ok mapped comm st' L' i a"
    using A arena [OF i(1) i(2) [unfolded st'(1)]] arena_good_os [of comm _ a "as_os st" "as_os st'"] unfolding arena_at_ok_def L'(2) st'(2) by simp
next
  fix i j a b assume "i < PA_MAX_ARENAS" "j < PA_MAX_ARENAS" "i \<noteq> j" "as_arenas st' ! i = Some a" "as_arenas st' ! j = Some b"
  then show "arena_bytes a \<inter> arena_bytes b = {}" using arenas_invD(4) [OF inv] unfolding st'(1) by blast
next
  fix x assume x: "x \<in> L'"
  then have xL: "x \<in> L" using L'(1) by blast
  obtain p sz m c where e: "x = (p, sz, m, c)" by (metis prod_cases4)
  note H = arenas_invD(5) [OF inv xL] and K = hold [OF x]
  show "holding_ok mapped comm st' x"
  proof (cases "mi_mem m")
    case (Mem_os base s)
    then show ?thesis using H K unfolding holding_ok_def e st'(1) by (simp add: extent_def)
  next
    case (Mem_arena b id' ex)
    then obtain i a where i: "i < PA_MAX_ARENAS" "id' = int i + 1" "as_arenas st ! i = Some a"
      "b + pa_block_count_of_size sz \<le> aa_block_count a" "p = pa_arena_block_start a b" "mi_is_pinned m = mi_is_pinned (aa_memid a)"
      "tail_ok comm a b (as_os st) x" using H unfolding holding_ok_def e by auto
    have "tail_ok comm a b (as_os st') x" by (rule tail_ok_keep [OF i(7)]) (use K in auto)
    then show ?thesis using H Mem_arena i unfolding holding_ok_def e st'(1) by auto
  qed
next
  fix x y assume "x \<in> L'" "y \<in> L'" "x \<noteq> y"
  then show "extent x \<inter> extent y = {}" using L'(1) arenas_invD(6) [OF inv] by blast
qed

text \<open>More is mapped, and nothing that was mapped loses its commit.\<close>

lemma arenas_inv_grow:
  assumes inv: "arenas_inv mapped comm st L" and st': "as_arenas st' = as_arenas st" "as_count st' = as_count st"
    and os: "mapped (as_os st) \<subseteq> mapped (as_os st')" "comm (as_os st) \<inter> mapped (as_os st) \<subseteq> comm (as_os st')"
  shows "arenas_inv mapped comm st' L"
proof (rule arenas_inv_os [OF inv order.refl refl st'])
  fix i a assume i: "i < PA_MAX_ARENAS" "as_arenas st ! i = Some a"
  have "arena_bytes a \<subseteq> mapped (as_os st)" using arenas_invD(3) [OF inv i] by (simp add: arena_at_ok_def)
  then show "arena_bytes a \<subseteq> mapped (as_os st') \<and> comm (as_os st) \<inter> free_bytes a (leftover a \<union> held i L) \<subseteq> comm (as_os st')"
    using os free_bytes_sub by blast
next
  fix x assume x: "x \<in> L"
  obtain p sz m c where e: "x = (p, sz, m, c)" by (metis prod_cases4)
  show "extent x \<subseteq> mapped (as_os st') \<and> comm (as_os st) \<inter> (extent x - holding_bytes x) \<subseteq> comm (as_os st')"
    using holding_area(2) [OF inv x [unfolded e]] os unfolding e by blast
qed

lemma arenas_inv_insert_os:
  assumes inv: "arenas_inv mapped comm st L" and z: "mi_mem m = Mem_os base s" "holding_ok mapped comm st (p, sz, m, c)"
    and dis: "\<And>y. y \<in> L \<Longrightarrow> os_extent m \<inter> extent y = {}"
  shows "arenas_inv mapped comm st (insert (p, sz, m, c) L)"
proof -
  let ?z = "(p, sz, m, c)"
  have h: "arena_at_ok mapped comm st (insert ?z L) i a = arena_at_ok mapped comm st L i a" for i a
    by (simp add: blocks_of_def z(1) arena_at_ok_def)
  have ex: "extent ?z = os_extent m" by (simp add: extent_def z(1))
  have dz: "x \<in> insert ?z L \<Longrightarrow> y \<in> insert ?z L \<Longrightarrow> x \<noteq> y \<Longrightarrow> extent x \<inter> extent y = {}" for x y
    using dis arenas_invD(6) [OF inv] ex by (metis Int_commute insert_iff)
  show ?thesis
    by (rule arenas_invI; (unfold h)?) (use arenas_invD [OF inv] z(2) dz in \<open>blast+\<close>)
qed

lemma arenas_inv_add:
  assumes inv: "arenas_inv mapped comm st L" and st': "as_arenas st' = (as_arenas st)[as_count st := Some a]" "as_count st' = as_count st + 1" "as_os st' = as_os st"
    and a: "as_count st < PA_MAX_ARENAS" "aa_id a = int (as_count st) + 1" "bits (aa_inuse a) = leftover a" "arena_good comm (leftover a) a (as_os st)"
      "arena_bytes a \<subseteq> mapped (as_os st)"
    and dis: "\<And>i b. i < PA_MAX_ARENAS \<Longrightarrow> as_arenas st ! i = Some b \<Longrightarrow> arena_bytes a \<inter> arena_bytes b = {}"
      "\<And>x. x \<in> L \<Longrightarrow> arena_bytes a \<inter> extent x = {}"
  shows "arenas_inv mapped comm st' L"
proof -
  let ?n = "as_count st"
  have len: "length (as_arenas st) = PA_MAX_ARENAS" by (rule arenas_invD(1) [OF inv])
  have nth: "as_arenas st' ! j = (if j = ?n then Some a else as_arenas st ! j)" if "j < PA_MAX_ARENAS" for j
    using that st'(1) len by (simp add: nth_list_update)
  have none: "as_arenas st ! ?n = None"
    using arenas_invD(3) [OF inv a(1)] by (cases "as_arenas st ! ?n") (auto simp: arena_at_ok_def)
  have h: "held ?n L = {}"
  proof (rule ccontr)
    assume "held ?n L \<noteq> {}"
    then obtain x where x: "x \<in> L" "blocks_of ?n x \<noteq> {}" unfolding held_def by blast
    obtain p sz m c where e: "x = (p, sz, m, c)" by (metis prod_cases4)
    obtain b id' ex where m: "mi_mem m = Mem_arena b id' ex" and id: "id' = int ?n + 1"
      using x(2) by (auto simp: e blocks_of_def split: pa_memid_info.splits if_splits)
    show False by (rule holding_arena [OF inv x(1) [unfolded e] m]) (use id none in auto)
  qed
  show ?thesis
  proof (rule arenas_invI)
    show "length (as_arenas st') = PA_MAX_ARENAS" "as_count st' \<le> PA_MAX_ARENAS" using len st' a(1) by simp_all
    fix j b assume j: "j < PA_MAX_ARENAS" "as_arenas st' ! j = Some b"
    show "arena_at_ok mapped comm st' L j b"
    proof (cases "j = ?n")
      case True
      then show ?thesis using j nth a st' by (simp add: arena_at_ok_def h)
    next
      case False
      then show ?thesis using j nth arenas_invD(3) [OF inv j(1)] st' by (auto simp: arena_at_ok_def)
    qed
  next
    fix j k b c assume jk: "j < PA_MAX_ARENAS" "k < PA_MAX_ARENAS" "j \<noteq> k" "as_arenas st' ! j = Some b" "as_arenas st' ! k = Some c"
    then show "arena_bytes b \<inter> arena_bytes c = {}" using nth dis(1) arenas_invD(4) [OF inv jk(1,2,3)]
      by (auto split: if_splits)
  next
    fix x assume x: "x \<in> L"
    obtain p sz m c where e: "x = (p, sz, m, c)" by (metis prod_cases4)
    note H = arenas_invD(5) [OF inv x]
    show "holding_ok mapped comm st' x"
    proof (cases "mi_mem m")
      case (Mem_os base s)
      have "\<forall>j b. j < PA_MAX_ARENAS \<longrightarrow> as_arenas st' ! j = Some b \<longrightarrow> arena_bytes b \<inter> os_extent m = {}"
      proof (intro allI impI)
        fix j b assume j: "j < PA_MAX_ARENAS" "as_arenas st' ! j = Some b"
        show "arena_bytes b \<inter> os_extent m = {}"
        proof (cases "j = ?n")
          case True
          then show ?thesis using dis(2) [OF x] j nth Mem_os by (auto simp: e extent_def)
        next
          case False
          then have "as_arenas st ! j = Some b" using j nth by simp
          then show ?thesis by (rule holding_os(5) [OF inv x [unfolded e] Mem_os j(1)])
        qed
      qed
      then show ?thesis using H Mem_os st'(3) unfolding holding_ok_def e by simp
    next
      case (Mem_arena b id' ex)
      then obtain i d where i: "i < PA_MAX_ARENAS" "id' = int i + 1" "as_arenas st ! i = Some d"
        "b + pa_block_count_of_size sz \<le> aa_block_count d" "p = pa_arena_block_start d b" "mi_is_pinned m = mi_is_pinned (aa_memid d)"
        "tail_ok comm d b (as_os st) x" using H unfolding holding_ok_def e by auto
      have "as_arenas st' ! i = Some d" using nth [OF i(1)] i(3) none by auto
      then show ?thesis using H Mem_arena i st'(3) unfolding holding_ok_def e by auto
    qed
  qed (rule arenas_invD(6) [OF inv])
qed


section \<open>Allocating\<close>

text \<open>What the environment has to provide: sound primitives with partial unmapping, and sizes that are not absurd.\<close>

definition arenas_env_ok :: "('o \<Rightarrow> nat set) \<Rightarrow> ('o \<Rightarrow> nat set) \<Rightarrow> 'o arenas_env \<Rightarrow> bool" where
  "arenas_env_ok mapped comm env \<longleftrightarrow> os_prim_ok mapped comm (av_prim env) \<and> oc_has_partial_free (prim_cfg (av_prim env)) \<and>
     0 < unat (av_sizeof_arena env) \<and> unat (av_sizeof_arena env) < 2 ^ 32 \<and> unat (av_arena_reserve env) \<le> 2 ^ 44"

definition os_grows :: "('o \<Rightarrow> nat set) \<Rightarrow> ('o \<Rightarrow> nat set) \<Rightarrow> 'o pa_arenas \<Rightarrow> 'o pa_arenas \<Rightarrow> bool" where
  "os_grows mapped comm st st' \<longleftrightarrow> mapped (as_os st) \<subseteq> mapped (as_os st') \<and> comm (as_os st) \<inter> mapped (as_os st) \<subseteq> comm (as_os st')"

lemma os_grows_refl [simp]: "os_grows mapped comm st st"
  by (simp add: os_grows_def)

lemma os_grows_trans: "os_grows mapped comm st st1 \<Longrightarrow> os_grows mapped comm st1 st2 \<Longrightarrow> os_grows mapped comm st st2"
  unfolding os_grows_def by blast

text \<open>The outcome of an attempt to allocate: the invariant holds with the new holding, nothing that was mapped is lost, and the
  new holding is exclusive, committed when it says so, and as \<open>P\<close> asks of its address.\<close>

definition alloc_outcome :: "('o \<Rightarrow> nat set) \<Rightarrow> ('o \<Rightarrow> nat set) \<Rightarrow> 'o pa_arenas \<Rightarrow> holding set \<Rightarrow> size_t \<Rightarrow> bool \<Rightarrow> (uintptr_t \<Rightarrow> bool) \<Rightarrow>
    (uintptr_t \<times> pa_memid) option \<Rightarrow> 'o pa_arenas \<Rightarrow> bool" where
  "alloc_outcome mapped comm st L sz c P r st' \<longleftrightarrow> os_grows mapped comm st st' \<and>
     (case r of None \<Rightarrow> arenas_inv mapped comm st' L
      | Some (p, memid) \<Rightarrow> arenas_inv mapped comm st' (insert (p, sz, memid, c) L) \<and> P p \<and>
          (\<forall>y\<in>L. extent (p, sz, memid, c) \<inter> extent y = {}) \<and> (mi_initially_committed memid \<longrightarrow> area p sz \<subseteq> comm (as_os st')))"

lemma alloc_outcome_None: "arenas_inv mapped comm st L \<Longrightarrow> alloc_outcome mapped comm st L sz c P None st"
  by (simp add: alloc_outcome_def)

lemma alloc_outcome_trans:
  assumes "alloc_outcome mapped comm st L sz c P None st1" "alloc_outcome mapped comm st1 L sz c P r st2"
  shows "alloc_outcome mapped comm st L sz c P r st2"
  using assms os_grows_trans unfolding alloc_outcome_def by (auto split: option.splits)

lemma alloc_outcome_mono: "alloc_outcome mapped comm st L sz c P r st' \<Longrightarrow> (\<And>p. P p \<Longrightarrow> Q p) \<Longrightarrow> alloc_outcome mapped comm st L sz c Q r st'"
  unfolding alloc_outcome_def by (auto split: option.splits)

abbreviation block_aligned :: "uintptr_t \<Rightarrow> bool" where
  "block_aligned p \<equiv> p mod PA_SEGMENT_SIZE = 0"

lemma arena_at_alloc:
  assumes env: "arenas_env_ok mapped comm env" and inv: "arenas_inv mapped comm st L" and i: "i < PA_MAX_ARENAS" "as_arenas st ! i = Some a"
    and sz: "0 < unat sz" "unat sz < 2 ^ 62"
    and r: "pa_arena_try_alloc_at (av_prim env) a (pa_block_count_of_size sz) c (as_os st) = (res, a', os')"
    and st': "st' = st\<lparr>as_arenas := (as_arenas st)[i := Some a'], as_os := os'\<rparr>"
  shows "alloc_outcome mapped comm st L sz c block_aligned res st'"
proof -
  let ?n = "pa_block_count_of_size sz" and ?U = "leftover a \<union> held i L"
  note A = arenas_invD(3) [OF inv i, unfolded arena_at_ok_def]
  have good: "arena_good comm ?U a (as_os st)" and use: "bits (aa_inuse a) = ?U" and id: "aa_id a = int i + 1" using A by blast+
  have wf: "arena_wf a" by (rule arena_goodD(3) [OF good])
  have n: "0 < ?n" "?n < 2 ^ 63" using block_count_bounds(1,2) [OF sz] by simp_all
  have ok: "os_prim_ok mapped comm (av_prim env)" using env by (simp add: arenas_env_ok_def)
  note S = arena_try_alloc_at_spec [OF ok good use n r]
  have m: "mapped os' = mapped (as_os st)" "comm (as_os st) \<subseteq> comm os'" using S by blast+
  have grow: "os_grows mapped comm st st'" using m by (auto simp: os_grows_def st')
  show ?thesis
  proof (cases res)
    case None
    have N: "arena_good comm ?U a' os'" "same_arena {} a a'" "bits (aa_inuse a') = ?U" using S None by auto
    have "arenas_inv mapped comm st' L"
      by (rule arenas_inv_change [OF inv i _ _ N(2) refl]) (use N m in \<open>auto simp: st'\<close>)
    then show ?thesis using grow None by (simp add: alloc_outcome_def)
  next
    case (Some x)
    obtain p memid where x: "x = (p, memid)" by (meson surj_pair)
    from S [unfolded Some x option.case prod.case, THEN conjunct2, THEN conjunct2] obtain b where
      b: "b + ?n \<le> aa_block_count a" "{b..<b + ?n} \<inter> ?U = {}" "p = pa_arena_block_start a b" "mi_mem memid = Mem_arena b (aa_id a) (aa_exclusive a)"
      "mi_memkind memid = PA_MEM_ARENA" "mi_is_pinned memid = mi_is_pinned (aa_memid a)" "arena_good comm (?U \<union> {b..<b + ?n}) a' os'"
      "same_arena {b..<b + ?n} a a'" "bits (aa_inuse a') = ?U \<union> {b..<b + ?n}" "mi_initially_committed memid \<longrightarrow> arena_blocks a b ?n \<subseteq> comm os'"
      "\<not> mi_initially_committed memid \<longrightarrow> \<not> c \<longrightarrow> (\<exists>c. aa_committed a' = Some c \<and> bits c \<inter> {b..<b + ?n} = {})" by blast
    let ?z = "(p, sz, memid, c)"
    note E = arena_extent [OF wf b(1) sz b(4), folded b(3)]
    note AB = area_blocks [OF wf b(1), folded b(3)]
    have bz: "blocks_of i ?z = {b..<b + ?n}" by (simp add: blocks_of_def b(4) id)
    have bj: "blocks_of j ?z = {}" if "j \<noteq> i" for j using that by (simp add: blocks_of_def b(4) id)
    have U': "leftover a \<union> held i (insert ?z L) = ?U \<union> {b..<b + ?n}" using bz by auto
    have len: "length (as_arenas st) = PA_MAX_ARENAS" by (rule arenas_invD(1) [OF inv])
    have dis: "extent ?z \<inter> extent y = {}" if y: "y \<in> L" for y
    proof -
      obtain q s m k where e: "y = (q, s, m, k)" by (metis prod_cases4)
      have zb: "extent ?z \<subseteq> arena_bytes a" using E(1) AB(6) by simp
      show ?thesis
      proof (cases "mi_mem m")
        case (Mem_os base s')
        then show ?thesis using holding_os(4,5) [OF inv y [unfolded e] Mem_os] i zb unfolding e by blast
      next
        case (Mem_arena b2 id2 e2)
        show ?thesis
        proof (rule holding_arena [OF inv y [unfolded e] Mem_arena])
          fix j d assume j: "j < PA_MAX_ARENAS" "as_arenas st ! j = Some d" "extent (q, s, m, k) = arena_blocks d b2 (pa_block_count_of_size s)"
            "blocks_of j (q, s, m, k) = {b2..<b2 + pa_block_count_of_size s}" "extent (q, s, m, k) \<subseteq> arena_bytes d"
          show ?thesis
          proof (cases "j = i")
            case True
            have "blocks_of j (q, s, m, k) \<subseteq> held i L" using held_mono [OF y, of i] True unfolding e by simp
            then have "{b..<b + ?n} \<inter> {b2..<b2 + pa_block_count_of_size s} = {}" using b(2) j(4) by blast
            then show ?thesis using arena_blocks_disjoint j(2,3) True i(2) E(1) by (auto simp: e)
          next
            case False
            then show ?thesis using arenas_invD(4) [OF inv i(1) j(1) _ i(2) j(2)] zb j(5) unfolding e by blast
          qed
        qed
      qed
    qed
    have ok': "holding_ok mapped comm st' ?z"
    proof -
      have nth: "as_arenas st' ! i = Some a'" using i len by (simp add: st')
      have "tail_ok comm a' b os' ?z"
        unfolding tail_ok_def prod.case using b(10,11) E(1) by auto
      moreover have "p = pa_arena_block_start a' b" "b + ?n \<le> aa_block_count a'" "mi_is_pinned memid = mi_is_pinned (aa_memid a')"
        using same_arena_areas(4) [OF b(8)] b(1,3,6,8) by (simp_all add: same_arena_def)
      ultimately show ?thesis unfolding holding_ok_def prod.case b(4) pa_memid_info.case
        using i(1) nth id b(5) sz AB(2) by (auto simp: st')
    qed
    have "arenas_inv mapped comm st' (insert ?z L)"
    proof (rule arenas_inv_change [OF inv i _ _ b(8)])
      show "as_arenas st' = (as_arenas st)[i := Some a']" "as_count st' = as_count st" by (simp_all add: st')
      show "held j (insert ?z L) = held j L" if "j \<noteq> i" for j using bj [OF that] by simp
      show "bits (aa_inuse a') = leftover a \<union> held i (insert ?z L)" "arena_good comm (leftover a \<union> held i (insert ?z L)) a' (as_os st')"
        unfolding U' using b(7,9) by (simp_all add: st')
      show "mapped (as_os st') = mapped (as_os st)" using m by (simp add: st')
      show "comm (as_os st) - free_bytes a (leftover a \<union> held i (insert ?z L)) \<subseteq> comm (as_os st')" using m by (auto simp: st')
      show "blocks_of i x \<inter> {b..<b + ?n} = {}" if "x \<in> L" for x using held_mono [OF that, of i] b(2) by blast
    qed (use ok' dis in auto)
    moreover have "area p sz \<subseteq> comm (as_os st')" if "mi_initially_committed memid" using E b(10) that by (auto simp: st')
    moreover have "block_aligned p" using AB(7) n(1) b(1) by simp
    ultimately show ?thesis unfolding alloc_outcome_def Some x option.case prod.case using grow dis by blast
  qed
qed

lemma arena_at_id_alloc:
  assumes env: "arenas_env_ok mapped comm env" and inv: "arenas_inv mapped comm st L" and i: "pa_arena_id_index id' < PA_MAX_ARENAS"
    and sz: "0 < unat sz" "unat sz < 2 ^ 62"
    and r: "pa_arena_try_alloc_at_id env id' match_numa numa sz c allow_large req st = (res, st')"
  shows "alloc_outcome mapped comm st L sz c block_aligned res st'"
proof (cases "as_arenas st ! pa_arena_id_index id'")
  case None
  then show ?thesis using r inv by (simp add: pa_arena_try_alloc_at_id_def pa_arena_from_index_def Let_def alloc_outcome_None)
next
  case (Some a)
  obtain res1 a1 os1 where t: "pa_arena_try_alloc_at (av_prim env) a (pa_block_count_of_size sz) c (as_os st) = (res1, a1, os1)" by (metis prod_cases3)
  have "(res, st') = (None, st) \<or> (res, st') = (res1, st\<lparr>as_arenas := (as_arenas st)[pa_arena_id_index id' := Some a1], as_os := os1\<rparr>)"
    using r Some t by (auto simp: pa_arena_try_alloc_at_id_def pa_arena_from_index_def Let_def split: if_splits)
  then show ?thesis using arena_at_alloc [OF env inv i Some sz t refl] alloc_outcome_None [OF inv] by auto
qed

lemma arenas_alloc_loop:
  "arenas_env_ok mapped comm env \<Longrightarrow> arenas_inv mapped comm st L \<Longrightarrow> \<forall>i\<in>set is. i < PA_MAX_ARENAS \<Longrightarrow> 0 < unat sz \<Longrightarrow> unat sz < 2 ^ 62 \<Longrightarrow>
    try_alloc_arenas env match_numa numa sz c allow_large req is st = (res, st') \<Longrightarrow> alloc_outcome mapped comm st L sz c block_aligned res st'"
proof (induction "is" arbitrary: st)
  case (Cons i "is")
  obtain r1 st1 where t: "pa_arena_try_alloc_at_id env (pa_arena_id_create i) match_numa numa sz c allow_large req st = (r1, st1)" by (meson surj_pair)
  have "pa_arena_id_index (pa_arena_id_create i) < PA_MAX_ARENAS" using Cons.prems(3) by (simp add: pa_arena_id_index_def pa_arena_id_create_def)
  note O = arena_at_id_alloc [OF Cons.prems(1,2) this Cons.prems(4,5) t]
  show ?case
  proof (cases r1)
    case None
    have "try_alloc_arenas env match_numa numa sz c allow_large req is st1 = (res, st')" using Cons.prems(6) t None by simp
    moreover have "arenas_inv mapped comm st1 L" using O None by (simp add: alloc_outcome_def)
    ultimately have "alloc_outcome mapped comm st1 L sz c block_aligned res st'" using Cons.IH Cons.prems(1,3,4,5) by simp
    then show ?thesis using alloc_outcome_trans O None by blast
  next
    case (Some x)
    then show ?thesis using O Cons.prems(6) t by simp
  qed
qed (simp add: alloc_outcome_None)

lemma arenas_try_alloc:
  assumes env: "arenas_env_ok mapped comm env" and inv: "arenas_inv mapped comm st L" and sz: "0 < unat sz" "unat sz < 2 ^ 62"
    and r: "pa_arena_try_alloc env numa sz c allow_large req st = (res, st')"
  shows "alloc_outcome mapped comm st L sz c block_aligned res st'"
proof -
  have cnt: "as_count st \<le> PA_MAX_ARENAS" by (rule arenas_invD(2) [OF inv])
  obtain r1 st1 where t1: "try_alloc_arenas env True numa sz c allow_large req [0..<as_count st] st = (r1, st1)" by (meson surj_pair)
  obtain r2 st2 where t2: "try_alloc_arenas env False numa sz c allow_large req [0..<as_count st] st1 = (r2, st2)" by (meson surj_pair)
  have up: "\<forall>i\<in>set [0..<as_count st]. i < PA_MAX_ARENAS" using cnt by auto
  note O1 = arenas_alloc_loop [OF env inv up sz t1]
  have O2: "alloc_outcome mapped comm st L sz c block_aligned r2 st2" if n: "r1 = None"
  proof -
    have "arenas_inv mapped comm st1 L" using O1 n by (simp add: alloc_outcome_def)
    from arenas_alloc_loop [OF env this up sz t2] show ?thesis using alloc_outcome_trans O1 n by blast
  qed
  have O3: "alloc_outcome mapped comm st L sz c block_aligned r3 st3"
    if "pa_arena_id_index req < as_count st" "pa_arena_try_alloc_at_id env req True numa sz c allow_large req st = (r3, st3)" for r3 st3
    using arena_at_id_alloc [OF env inv _ sz that(2)] that(1) cnt by simp
  show ?thesis using r t1 t2 O1 O2 O3 alloc_outcome_None [OF inv, of sz c block_aligned]
    by (auto simp: pa_arena_try_alloc_def Let_def split: if_splits option.splits)
qed


section \<open>Adding arenas\<close>

lemma fresh_bitmap_fits: "bitmap_fits n (fresh_bitmap w n)"
  by (simp add: bitmap_fits_def quiet_def fresh_bitmap_def bits_of_def)

lemma fresh_bitmap_bits: "bits (fresh_bitmap 0 n) = {}" "bits (fresh_bitmap (NOT 0) n) = {..<64 * n}"
proof -
  show "bits (fresh_bitmap 0 n) = {}" by (simp add: fresh_bitmap_def bits_of_def)
  have "i div 64 < n" if "i < 64 * n" for i using that by (simp add: less_mult_imp_div_less mult.commute)
  then show "bits (fresh_bitmap (NOT 0) n) = {..<64 * n}" by (auto simp: fresh_bitmap_def bits_of_def bit_not_iff)
qed

lemma meta_zalloc_grows:
  assumes env: "arenas_env_ok mapped comm env" and sz: "0 < unat sz" and r: "pa_arena_meta_zalloc env sz st = (res, st')"
  shows "os_grows mapped comm st st'" "as_arenas st' = as_arenas st" "as_count st' = as_count st" "as_purge_expire st' = as_purge_expire st"
proof -
  have ok: "os_prim_ok mapped comm (av_prim env)" using env by (simp add: arenas_env_ok_def)
  obtain r1 st1 where s: "pa_arena_static_zalloc env sz 16 st = (r1, st1)" by (meson surj_pair)
  have "st1 = st \<or> (\<exists>t. st1 = st\<lparr>as_static_top := t\<rparr>)"
    using s unfolding pa_arena_static_zalloc_def Let_def by (auto split: if_splits)
  then have S: "as_os st1 = as_os st" "as_arenas st1 = as_arenas st" "as_count st1 = as_count st" "as_purge_expire st1 = as_purge_expire st" by auto
  obtain r2 os2 where z: "pa_os_zalloc (av_prim env) sz (as_os st1) = (r2, os2)" by (meson surj_pair)
  note Z = os_zalloc_spec [OF ok sz z]
  have st': "st' = st1 \<or> st' = st1\<lparr>as_os := os2\<rparr>" using r s z by (auto simp: pa_arena_meta_zalloc_def split: option.splits)
  then show "os_grows mapped comm st st'" using Z S unfolding os_grows_def by (elim disjE) simp_all
  show "as_arenas st' = as_arenas st" "as_count st' = as_count st" "as_purge_expire st' = as_purge_expire st" using st' S by auto
qed

lemma divide_up_64:
  assumes "unat n < 2 ^ 40"
  shows "unat (pa_divide_up n 64) = (unat n + 63) div 64"
proof -
  have "unat (n + 63) = unat n + unat (63 :: size_t)" using assms by (intro unat_add_no_wrap) simp
  then show ?thesis by (simp add: pa_divide_up_def unat_div add_diff_eq [symmetric])
qed

lemma manage_memory:
  assumes env: "arenas_env_ok mapped comm env" and inv: "arenas_inv mapped comm st L"
    and start: "start \<noteq> 0" "unat start + unat sz + 65536 \<le> 2 ^ 64" "unat sz < 2 ^ 62"
    and own: "area start sz \<subseteq> mapped (as_os st)" "\<And>i b. i < PA_MAX_ARENAS \<Longrightarrow> as_arenas st ! i = Some b \<Longrightarrow> area start sz \<inter> arena_bytes b = {}"
      "\<And>x. x \<in> L \<Longrightarrow> area start sz \<inter> extent x = {}"
    and com: "mi_initially_committed memid \<or> mi_is_pinned memid \<Longrightarrow> area start sz \<subseteq> comm (as_os st)"
    and r: "pa_manage_os_memory_ex2 env start sz is_large numa excl memid st = (res, id', st')"
  shows "os_grows mapped comm st st' \<and> arenas_inv mapped comm st' L \<and> (\<not> res \<longrightarrow> as_arenas st' = as_arenas st) \<and>
    (res \<longrightarrow> pa_arena_id_index id' < PA_MAX_ARENAS)"
proof -
  have B: "unat PA_ARENA_BLOCK_SIZE = 2 ^ 25" "unat PA_SEGMENT_SIZE = 2 ^ 25" "PA_SEGMENT_SIZE \<noteq> 0"
    by (simp_all add: PA_ARENA_BLOCK_SIZE_def PA_SEGMENT_SIZE_def)
  define up where "up = pa_align_up start PA_SEGMENT_SIZE"
  define diff where "diff = up - start"
  define aligned where "aligned = pa_is_aligned start PA_SEGMENT_SIZE"
  define start' where "start' = (if aligned then start else up)"
  define sz' where "sz' = (if aligned then sz else sz - diff)"
  define bcount where "bcount = sz' div PA_ARENA_BLOCK_SIZE"
  define fields' where "fields' = pa_divide_up bcount 64"
  define asize where "asize = av_sizeof_arena env + (if mi_is_pinned memid then 3 else 5) * fields' * 8"
  obtain mr st1 where m: "pa_arena_meta_zalloc env asize st = (mr, st1)" by (meson surj_pair)
  define small where "small \<longleftrightarrow> sz < PA_ARENA_BLOCK_SIZE \<or> \<not> aligned \<and> (sz \<le> diff \<or> sz - diff < PA_ARENA_BLOCK_SIZE)"
  have small0: ?thesis if small
  proof -
    have "(res, id', st') = (False, 0, st)"
      unfolding r [symmetric] pa_manage_os_memory_ex2_def Let_def up_def [symmetric] diff_def [symmetric] aligned_def [symmetric]
      using that by (auto simp: small_def)
    then have "\<not> res" "st' = st" by auto
    then show ?thesis using inv by simp_all
  qed
  show ?thesis
  proof (cases small)
    case True
    then show ?thesis by (rule small0)
  next
    case False
    have geo: "unat start' mod 2 ^ 25 = 0" "unat start \<le> unat start'" "unat start' + unat sz' \<le> unat start + unat sz" "2 ^ 25 \<le> unat sz'"
    proof -
      have "unat start' mod 2 ^ 25 = 0 \<and> unat start \<le> unat start' \<and> unat start' + unat sz' \<le> unat start + unat sz \<and> 2 ^ 25 \<le> unat sz'"
      proof (cases aligned)
        case True
        then show ?thesis using False B by (simp add: start'_def sz'_def small_def aligned_def pa_is_aligned_def word_unat_eq_iff unat_mod word_less_nat_alt)
      next
        case na: False
        have lt: "\<not> sz \<le> diff" "\<not> sz - diff < PA_ARENA_BLOCK_SIZE" "\<not> sz < PA_ARENA_BLOCK_SIZE" using False na by (auto simp: small_def)
        have "2 ^ 25 \<le> unat sz" using lt(3) B(1) by (simp add: word_less_nat_alt)
        then have "unat start + unat PA_SEGMENT_SIZE \<le> 2 ^ 64" using start(2) B(2) by simp
        note U = unat_align_up_bounds [OF B(3) this, folded up_def]
        have d: "unat diff = unat up - unat start" unfolding diff_def using U(1) by (intro unat_sub) (simp add: word_le_nat_alt)
        have "unat (sz - diff) = unat sz - unat diff" using lt(1) by (intro unat_sub) simp
        then have s: "unat sz' = unat sz - unat diff" "unat diff < unat sz" "2 ^ 25 \<le> unat sz'"
          using na lt B(1) by (simp_all add: sz'_def word_le_nat_alt word_less_nat_alt)
        moreover have "start' = up" using na by (simp add: start'_def)
        ultimately show ?thesis using U B(2) d by (simp add: mod_eq_0_iff_dvd)
      qed
      then show "unat start' mod 2 ^ 25 = 0" "unat start \<le> unat start'" "unat start' + unat sz' \<le> unat start + unat sz" "2 ^ 25 \<le> unat sz'" by blast+
    qed
    have bc: "unat bcount = unat sz' div 2 ^ 25" by (simp add: bcount_def unat_div B(1))
    have bcb: "0 < unat bcount" "unat bcount < 2 ^ 37" "unat bcount * 2 ^ 25 \<le> unat sz'"
    proof -
      have "unat bcount * 2 ^ 25 + unat sz' mod 2 ^ 25 = unat sz'" unfolding bc by (rule div_mult_mod_eq)
      moreover have "unat sz' mod 2 ^ 25 < 2 ^ 25" by simp
      moreover have "unat sz' < 2 ^ 62" using geo(2,3) start(3) by linarith
      ultimately show "0 < unat bcount" "unat bcount < 2 ^ 37" "unat bcount * 2 ^ 25 \<le> unat sz'" using geo(4) by simp_all
    qed
    define n where "n = unat fields'"
    have n: "n = (unat bcount + 63) div 64" unfolding n_def fields'_def by (rule divide_up_64) (use bcb(2) in simp)
    have nb: "unat bcount \<le> 64 * n" "64 * n < unat bcount + 64" "n < 2 ^ 37" unfolding n using bcb(2) by linarith+
    have as0: "0 < unat asize"
    proof -
      define k :: size_t where "k = (if mi_is_pinned memid then 3 else 5)"
      have "unat k \<le> 5" by (simp add: k_def)
      then have kn: "unat k * n \<le> 5 * n" by (rule mult_le_mono1)
      have small: "unat k * n < 2 ^ 40"
      proof (rule le_less_trans [OF kn])
        show "5 * n < 2 ^ 40" using nb(3) by simp
      qed
      have u: "unat (k * fields') = unat k * n" unfolding n_def
        by (rule unat_mult_no_wrap) (use small in \<open>simp add: n_def\<close>)
      have u8: "unat (k * fields' * 8) = unat k * n * 8" using small unfolding u [symmetric] by (subst unat_mult_no_wrap) simp_all
      have "unat asize = unat (av_sizeof_arena env) + unat (k * fields' * 8)" unfolding asize_def k_def [symmetric]
        using env small u8 by (intro unat_add_no_wrap) (simp add: arenas_env_ok_def)
      then show ?thesis using env by (simp add: arenas_env_ok_def)
    qed
    note M = meta_zalloc_grows [OF env as0 m]
    have inv1: "arenas_inv mapped comm st1 L" by (rule arenas_inv_grow [OF inv M(2,3)]) (use M(1) in \<open>simp_all add: os_grows_def\<close>)
    define post where "post = n * 64 - unat bcount"
    define arena0 where "arena0 addr mm = \<lparr>aa_addr = addr, aa_id = 0, aa_memid = memid, aa_start = start', aa_block_count = unat bcount, aa_field_count = n,
                aa_meta_size = asize, aa_meta_memid = mm, aa_numa_node = numa, aa_exclusive = excl,
                aa_is_large = is_large, aa_search_idx = 0, aa_purge_expire = 0, aa_dirty = Some (fresh_bitmap 0 n),
                aa_committed = (if mi_is_pinned memid then None
                                else Some (fresh_bitmap (if mi_initially_committed memid then NOT 0 else 0) n)),
                aa_purge = (if mi_is_pinned memid then None else Some (fresh_bitmap 0 n)),
                aa_abandoned = fresh_bitmap 0 n, aa_inuse = fresh_bitmap 0 n\<rparr>" for addr mm
    obtain cz ca cb where cl: "pa_bitmap_claim post (pa_bitmap_index_create (n - 1) (64 - post)) (fresh_bitmap 0 n) = (cz, ca, cb)" by (metis prod_cases3)
    define arena where "arena addr mm = (if 0 < post then (arena0 addr mm)\<lparr>aa_inuse := cb\<rparr> else arena0 addr mm)" for addr mm
    have E: "(res, id', st') = (case mr of None \<Rightarrow> (False, 0, st1) | Some (addr, mm) \<Rightarrow> pa_arena_add (arena addr mm) st1)"
      unfolding r [symmetric] pa_manage_os_memory_ex2_def Let_def up_def [symmetric] diff_def [symmetric] aligned_def [symmetric] start'_def [symmetric]
        sz'_def [symmetric] bcount_def [symmetric] fields'_def [symmetric] asize_def [symmetric] m prod.case n_def [symmetric] post_def [symmetric] arena0_def [symmetric]
      using False cl by (auto simp: small_def arena_def arena0_def split: option.splits)
    have ib: "bitmap_fits n (aa_inuse (arena addr mm))" "bits (aa_inuse (arena addr mm)) = {unat bcount..<64 * n}" for addr mm
    proof -
      have "bitmap_fits n (aa_inuse (arena addr mm)) \<and> bits (aa_inuse (arena addr mm)) = {unat bcount..<64 * n}"
      proof (cases "0 < post")
        case True
        have idx: "pa_bitmap_index_create (n - 1) (64 - post) = unat bcount" "unat bcount + post = 64 * n" "unat bcount mod 64 + post = 64"
        proof -
          have p: "post < 64" "1 \<le> n" "unat bcount + post = 64 * n" using nb bcb(1) True unfolding post_def by linarith+
          then show "pa_bitmap_index_create (n - 1) (64 - post) = unat bcount" "unat bcount + post = 64 * n" unfolding pa_bitmap_index_create_def by linarith+
          have "unat bcount = 64 * (n - 1) + (64 - post)" using p by linarith
          then have "unat bcount mod 64 = (64 - post) mod 64" by (metis mod_mult_self4)
          then show "unat bcount mod 64 + post = 64" using p(1) True by simp
        qed
        have q: "quiet (fresh_bitmap 0 n)" "length (bm (fresh_bitmap 0 n)) = n" using fresh_bitmap_fits [of n 0] by (simp_all add: bitmap_fits_def)
        have "quiet cb \<and> length (bm cb) = length (bm (fresh_bitmap 0 n)) \<and> bits cb = bits (fresh_bitmap 0 n) \<union> {unat bcount..<unat bcount + post}"
          by (rule claim_quiet [OF q(1) _ True _ cl [unfolded idx(1)]]) (use idx q(2) in simp_all)
        then show ?thesis using True q(2) idx(2) fresh_bitmap_bits(1) [of n] by (simp add: arena_def bitmap_fits_def)
      next
        case F: False
        then have "unat bcount = 64 * n" using nb unfolding post_def by linarith
        then show ?thesis using F fresh_bitmap_fits fresh_bitmap_bits(1) [of n] by (simp add: arena_def arena0_def)
      qed
      then show "bitmap_fits n (aa_inuse (arena addr mm))" "bits (aa_inuse (arena addr mm)) = {unat bcount..<64 * n}" by blast+
    qed
    show ?thesis
    proof (cases "mr = None \<or> PA_MAX_ARENAS \<le> as_count st1")
      case True
      then have "\<not> res" "st' = st1" using E by (auto simp: pa_arena_add_def Let_def split: option.splits)
      then show ?thesis using M inv1 by simp_all
    next
      case lt: False
      then obtain addr mm where mr: "mr = Some (addr, mm)" by auto
      define a where "a = (arena addr mm)\<lparr>aa_id := int (as_count st1) + 1\<rparr>"
      have e: "res" "id' = int (as_count st1) + 1" "st' = st1\<lparr>as_count := as_count st1 + 1, as_arenas := (as_arenas st1)[as_count st1 := Some a]\<rparr>"
        using E lt mr by (simp_all add: pa_arena_add_def Let_def a_def pa_arena_id_create_def)
      have f: "aa_start a = start'" "aa_block_count a = unat bcount" "aa_field_count a = n" "aa_memid a = memid" "aa_inuse a = aa_inuse (arena addr mm)"
        "aa_dirty a = Some (fresh_bitmap 0 n)" "aa_purge a = (if mi_is_pinned memid then None else Some (fresh_bitmap 0 n))"
        "aa_committed a = (if mi_is_pinned memid then None else Some (fresh_bitmap (if mi_initially_committed memid then NOT 0 else 0) n))"
        by (simp_all add: a_def arena_def arena0_def)
      have by1: "arena_bytes a \<subseteq> area start sz" using geo(2,3) bcb(3) by (auto simp: arena_bytes_def arena_blocks_def f area_def)
      have wf: "arena_wf a"
        unfolding arena_wf_def f
      proof (intro conjI)
        show "start' \<noteq> 0" using geo(2) start(1) by (metis le_zero_eq unat_0 unat_eq_0)
        show "start' mod PA_SEGMENT_SIZE = 0" using geo(1) B(2) by (simp add: word_unat_eq_iff unat_mod)
        show "unat start' + unat bcount * 2 ^ 25 + 65536 \<le> 2 ^ 64" using geo(3) bcb(3) start(2) by linarith
      qed (use bcb nb ib fresh_bitmap_fits in auto)
      have good: "arena_good comm (leftover a) a (as_os st1)"
        unfolding arena_good_def
      proof (intro conjI wf order.refl ballI allI impI)
        show "bits b \<inter> leftover a = {}" if "b \<in> set_option (aa_purge a)" for b using that fresh_bitmap_bits(1) [of n] by (auto simp: f split: if_splits)
        fix i assume i: "i < aa_block_count a \<and> i \<notin> leftover a \<and> (\<forall>b\<in>set_option (aa_committed a). i \<in> bits b)"
        have "mi_initially_committed memid \<or> mi_is_pinned memid" using i fresh_bitmap_bits(1) [of n] by (auto simp: f split: if_splits)
        then have "area start sz \<subseteq> comm (as_os st)" by (rule com)
        then have "arena_bytes a \<subseteq> comm (as_os st1)" using by1 M(1) own(1) unfolding os_grows_def by blast
        moreover have "arena_blocks a i 1 \<subseteq> arena_bytes a" by (rule area_blocks(6) [OF wf]) (use i in simp)
        ultimately show "arena_blocks a i 1 \<subseteq> comm (as_os st1)" by blast
      qed
      have "arenas_inv mapped comm st' L"
      proof (rule arenas_inv_add [OF inv1, where a = a])
        show "as_count st1 < PA_MAX_ARENAS" using lt by simp
        show "bits (aa_inuse a) = leftover a" by (simp add: f ib(2) leftover_def)
        show "arena_bytes a \<subseteq> mapped (as_os st1)" using by1 own(1) M(1) unfolding os_grows_def by blast
        show "arena_bytes a \<inter> arena_bytes b = {}" if "i < PA_MAX_ARENAS" "as_arenas st1 ! i = Some b" for i b
          using by1 own(2) [OF that(1)] that(2) M(2) by auto
        show "arena_bytes a \<inter> extent x = {}" if "x \<in> L" for x using by1 own(3) [OF that] by blast
      qed (use good e in \<open>simp_all add: a_def\<close>)
      moreover have "os_grows mapped comm st st'" using M(1) by (simp add: e os_grows_def)
      moreover have "pa_arena_id_index id' < PA_MAX_ARENAS" using lt by (simp add: e pa_arena_id_index_def)
      ultimately show ?thesis using e(1) by blast
    qed
  qed
qed


lemma arenas_env_os:
  assumes "arenas_env_ok mapped comm env"
  shows "os_prim_ok mapped comm (av_prim env)" "oc_has_partial_free (prim_cfg (av_prim env))" "pa_os_page_size (av_prim env) \<le> PA_SEGMENT_SIZE"
    "pa_is_power_of_two PA_SEGMENT_SIZE" "unat PA_SEGMENT_SIZE \<le> 2 ^ 62"
proof -
  show ok: "os_prim_ok mapped comm (av_prim env)" "oc_has_partial_free (prim_cfg (av_prim env))" using assms by (simp_all add: arenas_env_ok_def)
  obtain k where "unat (pa_os_page_size (av_prim env)) \<le> 65536" using page_size_pow2 [OF ok(1)] by metis
  then show "pa_os_page_size (av_prim env) \<le> PA_SEGMENT_SIZE" by (simp add: PA_SEGMENT_SIZE_def word_le_nat_alt)
  show "pa_is_power_of_two PA_SEGMENT_SIZE" "unat PA_SEGMENT_SIZE \<le> 2 ^ 62" by (simp_all add: PA_SEGMENT_SIZE_def pa_is_power_of_two_def)
qed

lemma extent_mapped: "arenas_inv mapped comm st L \<Longrightarrow> x \<in> L \<Longrightarrow> extent x \<subseteq> mapped (as_os st)"
  using holding_area(2) by (cases x) blast

lemma reserve_memory:
  assumes env: "arenas_env_ok mapped comm env" and inv: "arenas_inv mapped comm st L" and sz: "0 < unat sz" "unat sz < 2 ^ 61"
    and r: "pa_reserve_os_memory_ex env sz commit allow_large excl st = (err, id', st')"
  shows "os_grows mapped comm st st' \<and> arenas_inv mapped comm st' L \<and> (err = 0 \<longrightarrow> pa_arena_id_index id' < PA_MAX_ARENAS)"
proof -
  note V = arenas_env_os [OF env]
  define up where "up = pa_align_up sz PA_ARENA_BLOCK_SIZE"
  have B: "PA_ARENA_BLOCK_SIZE \<noteq> 0" "unat PA_ARENA_BLOCK_SIZE = 2 ^ 25" by (simp_all add: PA_ARENA_BLOCK_SIZE_def PA_SEGMENT_SIZE_def)
  have "unat sz + unat PA_ARENA_BLOCK_SIZE \<le> 2 ^ 64" using sz(2) B(2) by simp
  note U = unat_align_up_bounds [OF B(1) this, folded up_def]
  have u: "0 < unat up" "unat up < 2 ^ 62" using U sz B(2) by simp_all
  obtain r1 os1 where a: "pa_os_alloc_aligned (av_prim env) up PA_SEGMENT_SIZE commit allow_large (as_os st) = (r1, os1)" by (meson surj_pair)
  note S = os_alloc_aligned_spec [OF V(1,2,4,3,5) u a]
  define st1 where "st1 = st\<lparr>as_os := os1\<rparr>"
  show ?thesis
  proof (cases r1)
    case None
    then have e: "st' = st1" "err = ENOMEM" using r a by (simp_all add: pa_reserve_os_memory_ex_def Let_def up_def st1_def)
    have g: "os_grows mapped comm st st1" using S None by (simp add: os_grows_def st1_def)
    have "arenas_inv mapped comm st1 L" by (rule arenas_inv_grow [OF inv]) (use g in \<open>simp_all add: st1_def os_grows_def\<close>)
    then show ?thesis using g by (simp add: e ENOMEM_def)
  next
    case (Some x)
    obtain start memid where x: "x = (start, memid)" by (meson surj_pair)
    have A: "start mod PA_SEGMENT_SIZE = 0" "os_memid_ok memid" "mem_os_base memid = start" "unat up \<le> unat (mem_os_size memid)"
      "mi_initially_committed memid = commit" "os_extent memid \<inter> mapped (as_os st) = {}" "mapped (as_os st) \<union> os_extent memid \<subseteq> mapped os1"
      "commit \<or> mi_is_pinned memid \<longrightarrow> os_extent memid \<subseteq> comm os1" "comm (as_os st) \<inter> mapped (as_os st) \<subseteq> comm os1"
      using S Some x by auto
    have g1: "os_grows mapped comm st st1" using A by (auto simp: os_grows_def st1_def)
    have inv1: "arenas_inv mapped comm st1 L" by (rule arenas_inv_grow [OF inv]) (use g1 in \<open>simp_all add: st1_def os_grows_def\<close>)
    have sub: "area start up \<subseteq> os_extent memid" using A(4) by (auto simp: os_extent_def area_def A(3))
    obtain res id2 st2 where m: "pa_manage_os_memory_ex2 env start up (mi_is_pinned memid) (-1) excl memid st1 = (res, id2, st2)" by (metis prod_cases3)
    have e: "err = (if res then 0 else ENOMEM)" "id' = id2"
      "st' = (if res then st2 else st2\<lparr>as_os := pa_os_free_ex (av_prim env) start up commit memid (as_os st2)\<rparr>)"
      using r a m Some x by (auto simp: pa_reserve_os_memory_ex_def Let_def up_def st1_def split: if_splits)
    have off: "os_extent memid \<inter> arena_bytes b = {}" if "i < PA_MAX_ARENAS" "as_arenas st ! i = Some b" for i b
      using arenas_invD(3) [OF inv that] A(6) by (auto simp: arena_at_ok_def)
    have offx: "os_extent memid \<inter> extent y = {}" if "y \<in> L" for y using extent_mapped [OF inv that] A(6) by blast
    have M: "os_grows mapped comm st1 st2 \<and> arenas_inv mapped comm st2 L \<and> (\<not> res \<longrightarrow> as_arenas st2 = as_arenas st1) \<and>
        (res \<longrightarrow> pa_arena_id_index id2 < PA_MAX_ARENAS)"
    proof (rule manage_memory [OF env inv1 _ _ u(2) _ _ _ _ m])
      show "start \<noteq> 0" using A(2,3) by (simp add: os_memid_ok_def)
      show "unat start + unat up + 65536 \<le> 2 ^ 64" using A(2,3,4) by (simp add: os_memid_ok_def)
      show "area start up \<subseteq> mapped (as_os st1)" using sub A(7) by (auto simp: st1_def)
      show "area start up \<inter> arena_bytes b = {}" if "i < PA_MAX_ARENAS" "as_arenas st1 ! i = Some b" for i b
        using off [OF that(1)] that(2) sub by (auto simp: st1_def)
      show "area start up \<inter> extent y = {}" if "y \<in> L" for y using offx [OF that] sub by blast
      show "area start up \<subseteq> comm (as_os st1)" if "mi_initially_committed memid \<or> mi_is_pinned memid"
        using A(5,8) that sub by (auto simp: st1_def)
    qed
    show ?thesis
    proof (cases res)
      case True
      then show ?thesis using M os_grows_trans [OF g1] by (simp add: e)
    next
      case False
      note F = os_free_extent(1,4) [OF V(1) A(2), where p = start and sz = up and c = commit and os = "as_os st2"]
      have same: "as_arenas st2 = as_arenas st" using M False by (simp add: st1_def)
      have inv2: "arenas_inv mapped comm st2 L" using M by blast
      have ar: "arena_bytes b \<inter> os_extent memid = {}" "arena_bytes b \<subseteq> mapped (as_os st2)"
        if "i < PA_MAX_ARENAS" "as_arenas st2 ! i = Some b" for i b
        using off [OF that(1)] that(2) same arenas_invD(3) [OF inv2 that] by (auto simp: arena_at_ok_def)
      have st': "st' = st2\<lparr>as_os := pa_os_free_ex (av_prim env) start up commit memid (as_os st2)\<rparr>" using e(3) False by simp
      have "arenas_inv mapped comm st' L"
      proof (rule arenas_inv_os [OF inv2 order.refl refl])
        fix i b assume i: "i < PA_MAX_ARENAS" "as_arenas st2 ! i = Some b"
        show "arena_bytes b \<subseteq> mapped (as_os st') \<and> comm (as_os st2) \<inter> free_bytes b (leftover b \<union> held i L) \<subseteq> comm (as_os st')"
          using ar [OF i] F free_bytes_sub [of b "leftover b \<union> held i L"] unfolding st' by auto
      next
        fix y assume y: "y \<in> L"
        show "extent y \<subseteq> mapped (as_os st') \<and> comm (as_os st2) \<inter> (extent y - holding_bytes y) \<subseteq> comm (as_os st')"
          using extent_mapped [OF inv2 y] offx [OF y] F unfolding st' by auto
      qed (simp_all add: st')
      moreover have "os_grows mapped comm st st'"
        using os_grows_trans [OF g1 M [THEN conjunct1]] A(6) F unfolding os_grows_def st' by auto
      ultimately show ?thesis using False by (simp add: e ENOMEM_def)
    qed
  qed
qed

lemma arena_reserve_inv:
  assumes env: "arenas_env_ok mapped comm env" and inv: "arenas_inv mapped comm st L"
    and r: "pa_arena_reserve env req_size allow_large st = (ok, id', st')"
  shows "os_grows mapped comm st st' \<and> arenas_inv mapped comm st' L \<and> (ok \<longrightarrow> pa_arena_id_index id' < PA_MAX_ARENAS)"
proof -
  define res0 where "res0 = (if \<not> pa_os_has_virtual_reserve (av_prim env) then av_arena_reserve env div 4 else av_arena_reserve env)"
  define res1 where "res1 = pa_align_up (pa_align_up res0 PA_ARENA_BLOCK_SIZE) PA_SEGMENT_SIZE"
  define mult :: size_t where "mult = push_bit (unat (pa_clamp (of_nat (as_count st div 8)) 0 16)) 1"
  obtain ovf reserve where mo: "builtin_umull_overflow mult res1 = (ovf, reserve)" by (meson surj_pair)
  define res2 where "res2 = (if 8 \<le> as_count st \<and> as_count st \<le> 128 then if \<not> ovf then reserve else res1 else res1)"
  define commit where "commit = (if av_arena_eager_commit env = 2 then pa_os_has_overcommit (av_prim env) else av_arena_eager_commit env = 1)"
  obtain err id1 st1 where p: "pa_reserve_os_memory_ex env res2 commit allow_large False st = (err, id1, st1)" by (metis prod_cases3)
  define no where "no \<longleftrightarrow> oc_preloading (prim_cfg (av_prim env)) \<or> PA_MAX_ARENAS - 4 < as_count st \<or> av_arena_reserve env = 0 \<or> res2 < req_size"
  have E: "(ok, id', st') = (if no then (False, 0, st) else (err = 0, id1, st1))"
    unfolding r [symmetric] pa_arena_reserve_def Let_def res0_def [symmetric] res1_def [symmetric] mult_def [symmetric] mo prod.case res2_def [symmetric]
      commit_def [symmetric] p no_def by auto
  have b: "unat PA_ARENA_BLOCK_SIZE = 2 ^ 25" "unat PA_SEGMENT_SIZE = 2 ^ 25" "PA_ARENA_BLOCK_SIZE \<noteq> 0" "PA_SEGMENT_SIZE \<noteq> 0"
    by (simp_all add: PA_ARENA_BLOCK_SIZE_def PA_SEGMENT_SIZE_def)
  have r0: "unat res0 \<le> 2 ^ 44" using env by (auto simp: res0_def arenas_env_ok_def unat_div)
  have r1: "unat res0 \<le> unat res1" "unat res1 < 2 ^ 45"
  proof -
    have "unat res0 + unat PA_ARENA_BLOCK_SIZE \<le> 2 ^ 64" using r0 b by simp
    note U = unat_align_up_bounds [OF b(3) this]
    have "unat (pa_align_up res0 PA_ARENA_BLOCK_SIZE) + unat PA_SEGMENT_SIZE \<le> 2 ^ 64" using U r0 b by simp
    note W = unat_align_up_bounds [OF b(4) this, folded res1_def]
    show "unat res0 \<le> unat res1" "unat res1 < 2 ^ 45" using U W r0 b by simp_all
  qed
  have m: "0 < unat mult" "unat mult \<le> 2 ^ 16"
  proof -
    let ?k = "unat (pa_clamp (of_nat (as_count st div 8)) 0 16)"
    have k: "?k \<le> 16" by (simp add: pa_clamp_def word_less_nat_alt split: if_splits)
    have "unat mult = 2 ^ ?k" using k by (simp add: mult_def push_bit_eq_mult)
    moreover have "(2::nat) ^ ?k \<le> 2 ^ 16" using k by (intro power_increasing) auto
    ultimately show "0 < unat mult" "unat mult \<le> 2 ^ 16" by simp_all
  qed
  have mr: "unat reserve = unat mult * unat res1"
  proof -
    have lt: "unat mult * unat res1 \<le> 2 ^ 16 * 2 ^ 45" using m(2) r1(2) by (intro mult_le_mono) simp_all
    have "reserve = mult * res1" using mo by (simp add: builtin_umull_overflow_def)
    then show ?thesis using lt by (simp add: unat_mult_no_wrap)
  qed
  have r2: "unat res1 \<le> unat res2" "unat res2 \<le> 2 ^ 16 * unat res1"
    using m mr by (auto simp: res2_def)
  show ?thesis
  proof (cases no)
    case True
    then show ?thesis using E inv by simp
  next
    case False

    show ?thesis
    proof (cases "unat res2 = 0")
      case True
      then have z: "res2 = 0" by (simp add: unat_eq_0)
      have "pa_align_up 0 PA_ARENA_BLOCK_SIZE = 0" by (simp add: pa_align_up_def PA_ARENA_BLOCK_SIZE_def PA_SEGMENT_SIZE_def Let_def)
      then have "(err, id1, st1) = (ENOMEM, 0, st)"
        unfolding p [symmetric] z by (simp add: pa_reserve_os_memory_ex_def pa_os_alloc_aligned_def Let_def)
      then show ?thesis using E False inv by (simp add: ENOMEM_def)
    next
      case nz: False
      have "unat res2 < 2 ^ 61" using r2(2) r1(2) by simp
      from reserve_memory [OF env inv _ this p] nz show ?thesis using E False by simp
    qed
  qed
qed


lemma aligned_pow2:
  assumes "p mod PA_SEGMENT_SIZE = 0" "pa_is_power_of_two al" "al \<noteq> 0" "al \<le> PA_SEGMENT_SIZE"
  shows "p mod al = 0"
proof -
  obtain m where m: "unat al = 2 ^ m" using assms(2,3) pow2_and_pred_mask by (auto simp: pa_is_power_of_two_def)
  have S: "unat PA_SEGMENT_SIZE = 2 ^ 25" by (simp add: PA_SEGMENT_SIZE_def)
  have "(2::nat) ^ m \<le> 2 ^ 25" using assms(4) m S by (simp add: word_le_nat_alt)
  then have "m \<le> 25" by (rule power_le_imp_le_exp [rotated]) simp
  then have "(2::nat) ^ m dvd 2 ^ 25" by (rule le_imp_power_dvd)
  moreover have "2 ^ 25 dvd unat p" using assms(1) S by (simp add: word_unat_eq_iff unat_mod mod_eq_0_iff_dvd)
  ultimately have "2 ^ m dvd unat p" by (rule dvd_trans)
  then show ?thesis using m by (simp add: word_unat_eq_iff unat_mod)
qed

lemma arena_alloc_aligned_inv:
  assumes env: "arenas_env_ok mapped comm env" and inv: "arenas_inv mapped comm st L" and sz: "0 < unat sz" "unat sz < 2 ^ 60"
    and al: "pa_is_power_of_two al" "pa_os_page_size (av_prim env) \<le> al" "unat al \<le> 2 ^ 60"
    and r: "pa_arena_alloc_aligned env sz al ofs c allow_large req st = (res, st')"
  shows "alloc_outcome mapped comm st L sz c (\<lambda>p. (p + ofs) mod al = 0) res st'"
proof -
  note V = arenas_env_os [OF env]
  let ?P = "\<lambda>p. (p + ofs) mod al = 0"
  have al0: "al \<noteq> 0" using al(2) page_size_pow2 [OF V(1)] by (metis word_le_0_iff)
  have sz': "unat sz < 2 ^ 62" using sz(2) by simp
  define tr where "tr \<longleftrightarrow> \<not> av_disallow_arena_alloc env \<and> PA_ARENA_MIN_OBJ_SIZE \<le> sz \<and> al \<le> PA_SEGMENT_SIZE \<and> ofs = 0"
  obtain r1 st1 where t1: "pa_arena_try_alloc env (av_numa_node env) sz c allow_large req st = (r1, st1)" by (meson surj_pair)
  obtain ok id2 st2 where t2: "pa_arena_reserve env sz allow_large st1 = (ok, id2, st2)" by (metis prod_cases3)
  obtain r3 st3 where t3: "pa_arena_try_alloc_at_id env id2 True (av_numa_node env) sz c allow_large req st2 = (r3, st3)" by (meson surj_pair)
  define x where "x = (if tr then if r1 \<noteq> None then (r1, st1) else if req = 0 then if ok then (r3, st3) else (None, st2) else (None, st1) else (None, st))"
  obtain r4 st4 where x: "x = (r4, st4)" by (meson surj_pair)
  obtain r5 os5 where t5: "(if 0 < ofs then pa_os_alloc_aligned_at_offset (av_prim env) sz al ofs c allow_large (as_os st4)
      else pa_os_alloc_aligned (av_prim env) sz al c allow_large (as_os st4)) = (r5, os5)" by (meson surj_pair)
  have E: "(res, st') = (if r4 \<noteq> None then (r4, st4) else if av_disallow_os_alloc env \<or> req \<noteq> 0 then (None, st4) else (r5, st4\<lparr>as_os := os5\<rparr>))"
  proof -
    have "(if tr then let (r, st) = (r1, st1) in if r \<noteq> None then (r, st) else if req = 0
             then let (ok, arena_id, st) = pa_arena_reserve env sz allow_large st
                  in if ok then pa_arena_try_alloc_at_id env arena_id True (av_numa_node env) sz c allow_large req st else (None, st)
             else (None, st) else (None, st)) = (r4, st4)"
      using x t2 t3 by (auto simp: x_def split: if_splits)
    then show ?thesis
      unfolding r [symmetric] pa_arena_alloc_aligned_def Let_def t1 tr_def [symmetric] prod.case using t5 by (simp split: prod.split)
  qed
  have X: "alloc_outcome mapped comm st L sz c ?P r4 st4"
  proof (cases tr)
    case False
    then show ?thesis using x alloc_outcome_None [OF inv] by (simp add: x_def)
  next
    case True
    have imp: "block_aligned p \<Longrightarrow> ?P p" for p using aligned_pow2 [OF _ al(1) al0, of p] True by (simp add: tr_def)
    note O1 = arenas_try_alloc [OF env inv sz(1) sz' t1]
    show ?thesis
    proof (cases "r1 = None")
      case n: True
      have inv1: "arenas_inv mapped comm st1 L" using O1 n by (simp add: alloc_outcome_def)
      have O2: "alloc_outcome mapped comm st L sz c block_aligned None st2"
      proof -
        have "alloc_outcome mapped comm st1 L sz c block_aligned None st2"
          using arena_reserve_inv [OF env inv1 t2] by (simp add: alloc_outcome_def)
        then show ?thesis using alloc_outcome_trans O1 n by blast
      qed
      have O3: "alloc_outcome mapped comm st L sz c block_aligned r3 st3" if ok
      proof -
        have R: "arenas_inv mapped comm st2 L" "pa_arena_id_index id2 < PA_MAX_ARENAS" using arena_reserve_inv [OF env inv1 t2] that by simp_all
        from arena_at_id_alloc [OF env R sz(1) sz' t3] show ?thesis using alloc_outcome_trans O2 by blast
      qed
      have "alloc_outcome mapped comm st L sz c block_aligned r4 st4" using x True n O1 O2 O3 by (auto simp: x_def split: if_splits)
      then show ?thesis by (rule alloc_outcome_mono) (rule imp)
    next
      case False
      then have "r4 = r1" "st4 = st1" using x True by (simp_all add: x_def)
      then have "alloc_outcome mapped comm st L sz c block_aligned r4 st4" using O1 by simp
      then show ?thesis by (rule alloc_outcome_mono) (rule imp)
    qed
  qed
  show ?thesis
  proof (cases "r4 \<noteq> None \<or> av_disallow_os_alloc env \<or> req \<noteq> 0")
    case True
    then have "res = r4" "st' = st4" using E by (cases r4; auto split: if_splits)+
    then show ?thesis using X by simp
  next
    case False
    then have e: "res = r5" "st' = st4\<lparr>as_os := os5\<rparr>" using E by (auto split: if_splits)
    have inv4: "arenas_inv mapped comm st4 L" and g4: "os_grows mapped comm st st4" using X False by (cases r4; simp add: alloc_outcome_def)+
    have S: "comm (as_os st4) \<inter> mapped (as_os st4) \<subseteq> comm os5 \<and> mapped (as_os st4) \<subseteq> mapped os5 \<and> (case r5 of None \<Rightarrow> True
      | Some (p, memid) \<Rightarrow> ?P p \<and> os_memid_ok memid \<and> area p sz \<subseteq> os_extent memid \<and> mi_initially_committed memid = c \<and>
          os_extent memid \<inter> mapped (as_os st4) = {} \<and> os_extent memid \<subseteq> mapped os5 \<and> (c \<longrightarrow> area p sz \<subseteq> comm os5))"
    proof (cases "ofs = 0")
      case True
      then have a: "pa_os_alloc_aligned (av_prim env) sz al c allow_large (as_os st4) = (r5, os5)" using t5 by simp
      have "unat al \<le> 2 ^ 62" using al(3) by simp
      note A = os_alloc_aligned_spec [OF V(1,2) al(1,2) this sz(1) sz' a]
      have "area p sz \<subseteq> os_extent memid" if "mem_os_base memid = p" "unat sz \<le> unat (mem_os_size memid)" for p memid
        using that by (auto simp: area_def os_extent_def)
      note sub = this
      show ?thesis
      proof (cases r5)
        case (Some y)
        obtain p memid where y: "y = (p, memid)" by (meson surj_pair)
        have "area p sz \<subseteq> os_extent memid" by (rule sub) (use A Some y in auto)
        then show ?thesis using A True unfolding Some y option.case prod.case True add_0_right by blast
      qed (use A in simp)
    next
      case False
      then have a: "pa_os_alloc_aligned_at_offset (av_prim env) sz al ofs c allow_large (as_os st4) = (r5, os5)" using t5 by (simp add: word_neq_0_conv)
      note A = os_alloc_at_offset_spec [OF V(1,2) al(1,2,3) sz False a]
      show ?thesis
      proof (cases r5)
        case (Some y)
        obtain p memid where y: "y = (p, memid)" by (meson surj_pair)
        show ?thesis using A unfolding Some y option.case prod.case by blast
      qed (use A in simp)
    qed
    have g5: "os_grows mapped comm st4 st'" using S by (auto simp: os_grows_def e split: option.splits)
    have g: "os_grows mapped comm st st'" by (rule os_grows_trans [OF g4 g5])
    have inv5: "arenas_inv mapped comm st' L" by (rule arenas_inv_grow [OF inv4]) (use g5 in \<open>simp_all add: e os_grows_def\<close>)
    show ?thesis
    proof (cases r5)
      case None
      then show ?thesis using g inv5 by (simp add: alloc_outcome_def e)
    next
      case (Some y)
      obtain p memid where y: "y = (p, memid)" by (meson surj_pair)
      have A: "?P p" "os_memid_ok memid" "area p sz \<subseteq> os_extent memid" "mi_initially_committed memid = c" "os_extent memid \<inter> mapped (as_os st4) = {}"
        "os_extent memid \<subseteq> mapped os5" "c \<longrightarrow> area p sz \<subseteq> comm os5" using S Some y by auto
      obtain base s where m: "mi_mem memid = Mem_os base s"
      proof (cases "mi_mem memid")
        case (Mem_arena b i x)
        then have "mem_os_size memid = 0" by (simp add: mem_os_size_def)
        then show ?thesis using A(2) by (simp add: os_memid_ok_def)
      qed
      have p0: "p \<noteq> 0"
      proof
        assume "p = 0"
        then have "0 \<in> os_extent memid" using A(3) sz(1) by (auto simp: area_def)
        moreover have "0 < unat (mem_os_base memid)" using A(2) by (simp add: os_memid_ok_def unat_gt_0)
        ultimately show False by (simp add: os_extent_def area_def)
      qed
      have dis: "os_extent memid \<inter> extent z = {}" if "z \<in> L" for z using extent_mapped [OF inv4 that] A(5) by blast
      have "arena_bytes b \<inter> os_extent memid = {}" if "i < PA_MAX_ARENAS" "as_arenas st4 ! i = Some b" for i b
        using arenas_invD(3) [OF inv4 that] A(5) by (auto simp: arena_at_ok_def)
      then have "holding_ok mapped comm st' (p, sz, memid, c)"
        unfolding holding_ok_def prod.case m pa_memid_info.case using p0 sz(1) sz' A by (auto simp: e)
      from arenas_inv_insert_os [OF inv5 m this dis] show ?thesis
        using A(1,4,7) dis g unfolding alloc_outcome_def e(1) Some y by (simp add: e extent_def m)
    qed
  qed
qed

section \<open>Freeing and purging\<close>

lemma extent_not_free:
  assumes inv: "arenas_inv mapped comm st L" and x: "x \<in> L" "x \<in> M" and i: "i < PA_MAX_ARENAS" "as_arenas st ! i = Some a"
  shows "extent x \<inter> free_bytes a (leftover a \<union> held i M) = {}"
proof -
  let ?U = "leftover a \<union> held i M"
  obtain p sz m c where e: "x = (p, sz, m, c)" by (metis prod_cases4)
  show ?thesis
  proof (cases "mi_mem m")
    case (Mem_os base s)
    then show ?thesis using holding_os(4,5) [OF inv x(1) [unfolded e] Mem_os] i free_bytes_sub [of a ?U] unfolding e by blast
  next
    case (Mem_arena b id' ex)
    show ?thesis
    proof (rule holding_arena [OF inv x(1) [unfolded e] Mem_arena])
      fix j d assume j: "j < PA_MAX_ARENAS" "as_arenas st ! j = Some d" "extent (p, sz, m, c) = arena_blocks d b (pa_block_count_of_size sz)"
        "blocks_of j (p, sz, m, c) = {b..<b + pa_block_count_of_size sz}" "extent (p, sz, m, c) \<subseteq> arena_bytes d"
      show ?thesis
      proof (cases "j = i")
        case True
        then have "{b..<b + pa_block_count_of_size sz} \<subseteq> ?U" using held_mono [OF x(2), of i] j(4) unfolding e by auto
        from free_bytes_disjoint [OF this, of d] show ?thesis using True j(2,3) i(2) by (simp add: e)
      next
        case False
        then show ?thesis using arenas_invD(4) [OF inv i(1) j(1) _ i(2) j(2)] j(5) free_bytes_sub [of a ?U] unfolding e by blast
      qed
    qed
  qed
qed

text \<open>The sizes of the arenas, which no purge or free changes.\<close>

definition arena_shapes :: "'o pa_arenas \<Rightarrow> (nat \<times> nat) option list" where
  "arena_shapes st = map (map_option (\<lambda>a. (aa_block_count a, aa_field_count a))) (as_arenas st)"

lemma arena_shapes_update:
  assumes "as_arenas st' = (as_arenas st)[i := Some a']" "as_arenas st ! i = Some a" "i < length (as_arenas st)" "same_arena R a a'"
  shows "arena_shapes st' = arena_shapes st"
proof -
  let ?f = "map_option (\<lambda>a. (aa_block_count a, aa_field_count a))"
  have "?f (Some a') = map ?f (as_arenas st) ! i" using assms(2,3,4) by (simp add: same_arena_def)
  then show ?thesis unfolding arena_shapes_def assms(1) map_update by (simp only: list_update_id)
qed

lemma arena_shapes_nth:
  assumes "arena_shapes st' = arena_shapes st" "i < length (as_arenas st)" "as_arenas st ! i = Some a"
  shows "\<exists>a'. as_arenas st' ! i = Some a' \<and> aa_block_count a' = aa_block_count a \<and> aa_field_count a' = aa_field_count a"
proof -
  let ?f = "map_option (\<lambda>a. (aa_block_count a, aa_field_count a))"
  have "length (as_arenas st') = length (as_arenas st)" using arg_cong [OF assms(1), of length] by (simp add: arena_shapes_def)
  then have "?f (as_arenas st' ! i) = ?f (Some a)"
    using arg_cong [OF assms(1), of "\<lambda>l. l ! i"] assms(2,3) by (simp add: arena_shapes_def)
  then show ?thesis by (cases "as_arenas st' ! i") auto
qed

lemma arenas_purge_loop:
  "arenas_env_ok mapped comm env \<Longrightarrow> arenas_inv mapped comm st L \<Longrightarrow> \<forall>i\<in>set is. i < PA_MAX_ARENAS \<Longrightarrow>
    try_purge_arenas env now force k is st = (v, st') \<Longrightarrow>
    arenas_inv mapped comm st' L \<and> mapped (as_os st') = mapped (as_os st) \<and> (\<forall>x\<in>L. extent x \<inter> comm (as_os st) \<subseteq> comm (as_os st')) \<and>
    arena_shapes st' = arena_shapes st"
proof (induction "is" arbitrary: k st)
  case (Cons i "is")
  show ?case
  proof (cases "as_arenas st ! i")
    case None
    then show ?thesis using Cons.IH [OF Cons.prems(1,2)] Cons.prems(3,4) by simp
  next
    case (Some a)
    have i: "i < PA_MAX_ARENAS" using Cons.prems(3) by simp
    note A = arenas_invD(3) [OF Cons.prems(2) i Some, unfolded arena_at_ok_def]
    let ?U = "leftover a \<union> held i L"
    obtain pd a1 os1 where t: "pa_arena_try_purge env now force a (as_os st) = (pd, a1, os1)" by (metis prod_cases3)
    have good: "arena_good comm ?U a (as_os st)" and use: "bits (aa_inuse a) = ?U" using A by blast+
    note P = arena_try_purge_keeps [OF arenas_env_os(1) [OF Cons.prems(1)] good use t, unfolded purge_keeps_def]
    define st1 where "st1 = st\<lparr>as_arenas := (as_arenas st)[i := Some a1], as_os := os1\<rparr>"
    have inv1: "arenas_inv mapped comm st1 L"
      by (rule arenas_inv_change [OF Cons.prems(2) i Some, where R = "{}" and a' = a1]) (use P use in \<open>auto simp: st1_def\<close>)
    have keep: "extent x \<inter> comm (as_os st) \<subseteq> comm (as_os st1)" if x: "x \<in> L" for x
    proof -
      have "extent x \<inter> free_bytes a ?U = {}" by (rule extent_not_free [OF Cons.prems(2) x x i Some])
      then show ?thesis using P by (auto simp: st1_def)
    qed
    have m1: "mapped (as_os st1) = mapped (as_os st)" using P by (simp add: st1_def)
    have sh: "arena_shapes st1 = arena_shapes st"
      by (rule arena_shapes_update [where R = "{}" and a' = a1, OF _ Some]) (use P i arenas_invD(1) [OF Cons.prems(2)] in \<open>simp_all add: st1_def\<close>)
    have r: "(if pd then if k \<le> 1 then (False, st1) else try_purge_arenas env now force (k - 1) is st1 else try_purge_arenas env now force k is st1) = (v, st')"
      using Cons.prems(4) Some t by (simp add: st1_def Let_def split: if_splits)
    show ?thesis
    proof (cases "pd \<and> k \<le> 1")
      case True
      then show ?thesis using r inv1 m1 keep sh by auto
    next
      case False
      then obtain k' where k': "try_purge_arenas env now force k' is st1 = (v, st')" using r by (auto split: if_splits)
      have "\<forall>i\<in>set is. i < PA_MAX_ARENAS" using Cons.prems(3) by simp
      note I = Cons.IH [OF Cons.prems(1) inv1 this k']
      show ?thesis using I m1 keep sh by (metis Int_subset_iff le_infE order_trans inf_le1 le_infI)
    qed
  qed
qed auto

lemma arenas_try_purge_inv:
  assumes env: "arenas_env_ok mapped comm env" and inv: "arenas_inv mapped comm st L"
  shows "arenas_inv mapped comm (pa_arenas_try_purge env force all st) L \<and> mapped (as_os (pa_arenas_try_purge env force all st)) = mapped (as_os st) \<and>
    (\<forall>x\<in>L. extent x \<inter> comm (as_os st) \<subseteq> comm (as_os (pa_arenas_try_purge env force all st))) \<and>
    arena_shapes (pa_arenas_try_purge env force all st) = arena_shapes st"
proof -
  have ex: "arenas_inv mapped comm st L \<Longrightarrow> arenas_inv mapped comm (st\<lparr>as_purge_expire := t\<rparr>) L" for t st
    by (rule arenas_inv_grow) auto
  define st0 where "st0 = st\<lparr>as_purge_expire := av_now env + pa_arena_purge_delay env\<rparr>"
  obtain v st1 where t: "try_purge_arenas env (av_now env) force (if all then as_count st else 2) [0..<as_count st] st0 = (v, st1)" by (meson surj_pair)
  have "\<forall>i\<in>set [0..<as_count st]. i < PA_MAX_ARENAS" using arenas_invD(2) [OF inv] by auto
  note P = arenas_purge_loop [OF env ex [OF inv] this t [unfolded st0_def]]
  have "pa_arenas_try_purge env force all st \<in> {st, st1, st1\<lparr>as_purge_expire := 0\<rparr>}"
    using t by (auto simp: pa_arenas_try_purge_def Let_def st0_def split: if_splits)
  note c3 = this
  have sh: "arena_shapes (st1\<lparr>as_purge_expire := 0\<rparr>) = arena_shapes st1" "arena_shapes (st\<lparr>as_purge_expire := av_now env + pa_arena_purge_delay env\<rparr>) = arena_shapes st"
    by (simp_all add: arena_shapes_def)
  have k0: "as_os (st1\<lparr>as_purge_expire := 0\<rparr>) = as_os st1" by simp
  show ?thesis using c3 ex [of st1 0] P sh inv k0 by (elim insertE emptyE) (simp_all only:, simp_all)
qed


lemma held_remove:
  assumes inv: "arenas_inv mapped comm st L" and x: "x \<in> L"
  shows "held i (L - {x}) = held i L - blocks_of i x"
proof -
  have "blocks_of i y \<inter> blocks_of i x = {}" if "y \<in> L - {x}" for y using blocks_of_disjoint [OF inv _ x, of y] that by blast
  then show ?thesis using x unfolding held_def by blast
qed

text \<open>When all of an allocation is freed as committed, its bytes are; and the rest of its last block is when it is marked so.\<close>

definition freed_as :: "('o \<Rightarrow> nat set) \<Rightarrow> 'o \<Rightarrow> size_t \<Rightarrow> holding \<Rightarrow> bool" where
  "freed_as comm os csz = (\<lambda>(p, sz, memid, c).
     (csz = sz \<longrightarrow> area p sz \<subseteq> comm os \<and> (mi_initially_committed memid \<or> \<not> c \<or> 2 ^ 25 dvd unat sz)) \<and>
     (mi_is_pinned memid \<longrightarrow> csz = sz))"

lemma arena_free_inv:
  assumes env: "arenas_env_ok mapped comm env" and inv: "arenas_inv mapped comm st L" and x: "(p, sz, memid, c) \<in> L"
    and csz: "freed_as comm (as_os st) csz (p, sz, memid, c)"
    and r: "pa_arena_free env p sz csz memid st = (res, st')"
  shows "res = Arena_freed \<and> arenas_inv mapped comm st' (L - {(p, sz, memid, c)}) \<and>
    (\<forall>y\<in>L - {(p, sz, memid, c)}. extent y \<inter> comm (as_os st) \<subseteq> comm (as_os st')) \<and> arena_shapes st' = arena_shapes st"
proof -
  let ?x = "(p, sz, memid, c)" and ?n = "pa_block_count_of_size sz"
  note V = arenas_env_os [OF env]
  have p0: "p \<noteq> 0" "sz \<noteq> 0" using arenas_invD(5) [OF inv x] by (auto simp: holding_ok_def)
  have final: ?thesis if st1: "arenas_inv mapped comm st1 (L - {?x})" "\<And>y. y \<in> L - {?x} \<Longrightarrow> extent y \<inter> comm (as_os st) \<subseteq> comm (as_os st1)"
      and sh: "arena_shapes st1 = arena_shapes st" and e: "res = Arena_freed" "st' = pa_arenas_try_purge env False False st1" for st1
  proof -
    note T = arenas_try_purge_inv [OF env st1(1), of False False, folded e(2)]
    have "extent y \<inter> comm (as_os st) \<subseteq> comm (as_os st')" if "y \<in> L - {?x}" for y
      using T [THEN conjunct2, THEN conjunct2, THEN conjunct1, THEN bspec, OF that] st1(2) [OF that] by blast
    then show ?thesis using T e(1) sh by simp
  qed
  show ?thesis
  proof (cases "mi_mem memid")
    case (Mem_os base s)
    note H = holding_os [OF inv x Mem_os]
    define st1 where "st1 = st\<lparr>as_os := pa_os_free (av_prim env) p sz memid (as_os st)\<rparr>"
    have "pa_memkind_is_os (mi_memkind memid)" using H(1) by (simp add: os_memid_ok_def pa_memkind_is_os_def)
    then have e: "res = Arena_freed" "st' = pa_arenas_try_purge env False False st1"
      using r p0 by (simp_all add: pa_arena_free_def Let_def st1_def)
    note F = os_free_extent(1,4) [OF V(1) H(1), where p = p and sz = sz and c = True and os = "as_os st", folded pa_os_free_def]
    have os1: "as_os st1 = pa_os_free (av_prim env) p sz memid (as_os st)" by (simp add: st1_def)
    have hold: "extent y \<inter> os_extent memid = {}" if "y \<in> L - {?x}" for y using arenas_invD(6) [OF inv _ x, of y] that H(4) by auto
    have ar: "arena_bytes a \<inter> os_extent memid = {}" "arena_bytes a \<subseteq> mapped (as_os st)" if "i < PA_MAX_ARENAS" "as_arenas st ! i = Some a" for i a
      using H(5) [OF that] arenas_invD(3) [OF inv that] by (auto simp: arena_at_ok_def)
    have "arenas_inv mapped comm st1 (L - {?x})"
    proof (rule arenas_inv_os [OF inv])
      show "held i (L - {?x}) = held i L" for i using held_remove [OF inv x] by (simp add: blocks_of_def Mem_os)
      fix i a assume i: "i < PA_MAX_ARENAS" "as_arenas st ! i = Some a"
      show "arena_bytes a \<subseteq> mapped (as_os st1) \<and> comm (as_os st) \<inter> free_bytes a (leftover a \<union> held i L) \<subseteq> comm (as_os st1)"
        unfolding os1 using ar [OF i] F free_bytes_sub [of a "leftover a \<union> held i L"] by blast
    next
      fix y assume y: "y \<in> L - {?x}"
      then have "extent y \<subseteq> mapped (as_os st)" using extent_mapped [OF inv] by blast
      then show "extent y \<subseteq> mapped (as_os st1) \<and> comm (as_os st) \<inter> (extent y - holding_bytes y) \<subseteq> comm (as_os st1)"
        unfolding os1 using hold [OF y] F by blast
    qed (auto simp: st1_def)
    then show ?thesis
    proof (rule final [OF _ _ _ e])
      fix y assume "y \<in> L - {?x}"
      then show "extent y \<inter> comm (as_os st) \<subseteq> comm (as_os st1)" unfolding os1 using hold F by blast
    qed (simp add: arena_shapes_def st1_def)
  next
    case (Mem_arena b id' ex)
    show ?thesis
    proof (rule holding_arena [OF inv x Mem_arena])
      fix i a assume i: "i < PA_MAX_ARENAS" "id' = int i + 1" "as_arenas st ! i = Some a" "arena_at_ok mapped comm st L i a"
        "b + ?n \<le> aa_block_count a" "p = pa_arena_block_start a b" "mi_is_pinned memid = mi_is_pinned (aa_memid a)"
        "tail_ok comm a b (as_os st) ?x" "extent ?x = arena_blocks a b ?n" "blocks_of i ?x = {b..<b + ?n}" "area p sz \<subseteq> extent ?x"
        "mi_memkind memid = PA_MEM_ARENA" "0 < ?n" "unat sz < 2 ^ 62"
      let ?U = "leftover a \<union> held i L" and ?R = "{b..<b + ?n}"
      have good: "arena_good comm ?U a (as_os st)" and use: "bits (aa_inuse a) = ?U" using i(4) by (simp_all add: arena_at_ok_def)
      have wf: "arena_wf a" by (rule arena_goodD(3) [OF good])
      have R: "?R \<subseteq> ?U" using held_mono [OF x, of i] i(10) by auto
      have U': "?U - ?R = leftover a \<union> held i (L - {?x})" using held_remove [OF inv x, of i] i(5,10) by (auto simp: leftover_def)
      define all where "all \<longleftrightarrow> csz = sz"
      obtain a1 os1 t1 where m: "(if mi_is_pinned (aa_memid a) \<or> aa_committed a = None then (a, as_os st, as_purge_expire st)
         else pa_arena_schedule_purge env b ?n (a\<lparr>aa_committed := (if \<not> all
               then snd (on_bitmap (pa_bitmap_unclaim_across ?n b) False (aa_committed a)) else aa_committed a)\<rparr>) (as_os st) (as_purge_expire st)) = (a1, os1, t1)"
        by (metis prod_cases3)
      obtain ai ib where u: "pa_bitmap_unclaim_across ?n b (aa_inuse a1) = (ai, ib)" by (meson surj_pair)
      have pinned: "aa_committed a = None \<Longrightarrow> all" using wf csz i(7) by (simp add: arena_wf_def freed_as_def all_def)
      have promise: "arena_blocks a k 1 \<subseteq> comm (as_os st)"
        if al: all and k: "k \<in> ?R" and cb: "\<forall>c\<in>set_option (aa_committed a). k \<in> bits c" for k
      proof -
        have own: "area p sz \<subseteq> comm (as_os st)" "mi_initially_committed memid \<or> \<not> c \<or> 2 ^ 25 dvd unat sz"
          using csz al by (simp_all add: freed_as_def all_def)
        have "arena_blocks a b ?n \<subseteq> comm (as_os st)"
        proof (cases "mi_initially_committed memid")
          case True
          then have "extent ?x - area p sz \<subseteq> comm (as_os st)" using i(8) by (simp add: tail_ok_def)
          then show ?thesis using own(1) i(9) by blast
        next
          case F: False
          show ?thesis
          proof (cases c)
            case False
            then obtain cb' where "aa_committed a = Some cb'" "bits cb' \<inter> ?R = {}" using i(8) F by (auto simp: tail_ok_def)
            then show ?thesis using cb k by auto
          next
            case True
            then have dvd: "2 ^ 25 dvd unat sz" using own(2) F by simp
            note BC = block_count_bounds [OF _ i(14)]
            have s0: "0 < unat sz" using p0(2) by (simp add: unat_gt_0)
            from dvd obtain q where q: "unat sz = 2 ^ 25 * q" by (elim dvdE)
            have "?n = q" using BC(3,4) [OF s0] unfolding q by simp
            then have "unat sz = ?n * 2 ^ 25" using q by simp
            then have "extent ?x = area p sz" by (simp add: extent_def Mem_arena area_def)
            then show ?thesis using own(1) i(9) by simp
          qed
        qed
        then show ?thesis using arena_blocks_split [of a b ?n] k by blast
      qed
      note F0 = arena_free_blocks [OF V(1) good use i(13,5) R _ _ m u, unfolded U']
      have F: ai "bits ib = leftover a \<union> held i (L - {?x})"
        "purge_keeps mapped comm (leftover a \<union> held i (L - {?x})) (a\<lparr>aa_inuse := ib\<rparr>) (as_os st) (a1\<lparr>aa_inuse := ib\<rparr>) os1"
        by (rule F0 [OF promise pinned]; assumption)+
      have K: "arena_good comm (leftover a \<union> held i (L - {?x})) (a1\<lparr>aa_inuse := ib\<rparr>) os1" "same_arena {} a (a1\<lparr>aa_inuse := ib\<rparr>)"
        "mapped os1 = mapped (as_os st)" "comm (as_os st) - free_bytes a (leftover a \<union> held i (L - {?x})) \<subseteq> comm os1"
      proof -
        have "free_bytes (a\<lparr>aa_inuse := ib\<rparr>) U = free_bytes a U" "same_arena {} (a\<lparr>aa_inuse := ib\<rparr>) y = same_arena {} a y" for U y
          by (simp_all add: free_bytes_def arena_blocks_def same_arena_def)
        then show "arena_good comm (leftover a \<union> held i (L - {?x})) (a1\<lparr>aa_inuse := ib\<rparr>) os1" "same_arena {} a (a1\<lparr>aa_inuse := ib\<rparr>)"
          "mapped os1 = mapped (as_os st)" "comm (as_os st) - free_bytes a (leftover a \<union> held i (L - {?x})) \<subseteq> comm os1"
          using F(3) unfolding purge_keeps_def by blast+
      qed
      define st1 where "st1 = st\<lparr>as_arenas := (as_arenas st)[i := Some (a1\<lparr>aa_inuse := ib\<rparr>)], as_os := os1, as_purge_expire := t1\<rparr>"
      have fld: "\<not> aa_field_count a \<le> pa_bitmap_index_field b"
      proof -
        have "b < 64 * aa_field_count a" using wf i(5,13) by (simp add: arena_wf_def)
        then show ?thesis by (simp add: pa_bitmap_index_field_def not_le less_mult_imp_div_less mult.commute)
      qed
      have e: "res = Arena_freed" "st' = pa_arenas_try_purge env False False st1"
      proof -
        have k: "(p = 0) = False" "(sz = 0) = False" "pa_memkind_is_os (mi_memkind memid) = False" "(mi_memkind memid = PA_MEM_ARENA) = True"
          "(aa_field_count a \<le> pa_bitmap_index_field b) = False" "ai = True"
          subgoal by (rule eq_False [THEN iffD2, OF p0(1)])
          subgoal by (rule eq_False [THEN iffD2, OF p0(2)])
          subgoal unfolding i(12) by (simp add: pa_memkind_is_os_def)
          subgoal unfolding i(12) by simp
          subgoal by (rule eq_False [THEN iffD2, OF fld])
          subgoal by (rule eqTrueI [OF F(1)])
          done
        have ix: "pa_arena_memid_indices memid = (i, b, ex)" using Mem_arena i(2) by (simp add: pa_arena_memid_indices_def pa_arena_id_index_def)
        have "(res, st') = (Arena_freed, pa_arenas_try_purge env False False st1)"
          unfolding r [symmetric] pa_arena_free_def Let_def all_def [symmetric] k if_True if_False ix prod.case i(3) option.case m u not_True_eq_False
          by (simp only: st1_def)
        then show "res = Arena_freed" "st' = pa_arenas_try_purge env False False st1" by simp_all
      qed
      have "arenas_inv mapped comm st1 (L - {?x})"
      proof (rule arenas_inv_change [OF inv i(1,3) _ _ K(2)])
        show "held j (L - {?x}) = held j L" if "j \<noteq> i" for j
          using held_remove [OF inv x, of j] that by (simp add: blocks_of_def Mem_arena i(2))
        have s: "as_os st1 = os1" "as_arenas st1 = (as_arenas st)[i := Some (a1\<lparr>aa_inuse := ib\<rparr>)]" "as_count st1 = as_count st"
          by (simp_all add: st1_def)
        show "as_arenas st1 = (as_arenas st)[i := Some (a1\<lparr>aa_inuse := ib\<rparr>)]" "as_count st1 = as_count st" by (rule s)+
        show "bits (aa_inuse (a1\<lparr>aa_inuse := ib\<rparr>)) = leftover a \<union> held i (L - {?x})" using F(2) by simp
        show "arena_good comm (leftover a \<union> held i (L - {?x})) (a1\<lparr>aa_inuse := ib\<rparr>) (as_os st1)" "mapped (as_os st1) = mapped (as_os st)"
          "comm (as_os st) - free_bytes a (leftover a \<union> held i (L - {?x})) \<subseteq> comm (as_os st1)" unfolding s by (rule K)+
      qed simp_all
      then show ?thesis
      proof (rule final [OF _ _ _ e])
        show "arena_shapes st1 = arena_shapes st"
          by (rule arena_shapes_update [OF _ i(3) _ K(2)]) (use i(1) arenas_invD(1) [OF inv] in \<open>simp_all add: st1_def\<close>)
        fix y assume y: "y \<in> L - {?x}"
        have "extent y \<inter> free_bytes a (leftover a \<union> held i (L - {?x})) = {}" by (rule extent_not_free [OF inv _ y i(1,3)]) (use y in simp)
        then show "extent y \<inter> comm (as_os st) \<subseteq> comm (as_os st1)" using K(4) by (auto simp: st1_def)
      qed
    qed
  qed
qed


section \<open>Histories\<close>

text \<open>The operations on the arenas, one after the other, with the memory that is held after each of them.  Between
  them the holders use their memory: whatever they do to the commit state is inside what they hold.  Memory that a
  client adds must be its own.  A free reports its committed size as \<open>freed_as\<close> says; this leaves out the histories in which memory whose commit
  failed in \<open>pa_arena_try_alloc_at\<close> (arena.c:272), of a size that is no multiple of the block, is freed as fully committed.\<close>

inductive arenas_history :: "('o \<Rightarrow> nat set) \<Rightarrow> ('o \<Rightarrow> nat set) \<Rightarrow> 'o pa_arenas \<Rightarrow> holding set \<Rightarrow> bool" for mapped comm where
  start: "as_arenas st = replicate PA_MAX_ARENAS None \<Longrightarrow> as_count st = 0 \<Longrightarrow> arenas_history mapped comm st {}"
| alloc: "arenas_history mapped comm st L \<Longrightarrow> arenas_env_ok mapped comm env \<Longrightarrow> 0 < unat sz \<Longrightarrow> unat sz < 2 ^ 60 \<Longrightarrow>
    pa_is_power_of_two al \<Longrightarrow> pa_os_page_size (av_prim env) \<le> al \<Longrightarrow> unat al \<le> 2 ^ 60 \<Longrightarrow>
    pa_arena_alloc_aligned env sz al ofs c allow_large req st = (r, st') \<Longrightarrow>
    arenas_history mapped comm st' (case r of None \<Rightarrow> L | Some (p, memid) \<Rightarrow> insert (p, sz, memid, c) L)"
| use: "arenas_history mapped comm st L \<Longrightarrow> mapped os' = mapped (as_os st) \<Longrightarrow> comm (as_os st) - \<Union> (holding_bytes ` L) \<subseteq> comm os' \<Longrightarrow>
    arenas_history mapped comm (st\<lparr>as_os := os'\<rparr>) L"
| free: "arenas_history mapped comm st L \<Longrightarrow> arenas_env_ok mapped comm env \<Longrightarrow> (p, sz, memid, c) \<in> L \<Longrightarrow>
    freed_as comm (as_os st) csz (p, sz, memid, c) \<Longrightarrow> pa_arena_free env p sz csz memid st = (res, st') \<Longrightarrow>
    arenas_history mapped comm st' (L - {(p, sz, memid, c)})"
| collect: "arenas_history mapped comm st L \<Longrightarrow> arenas_env_ok mapped comm env \<Longrightarrow> arenas_history mapped comm (pa_arenas_collect env force st) L"
| reserve: "arenas_history mapped comm st L \<Longrightarrow> arenas_env_ok mapped comm env \<Longrightarrow> 0 < unat sz \<Longrightarrow> unat sz < 2 ^ 61 \<Longrightarrow>
    pa_reserve_os_memory_ex env sz commit allow_large excl st = (err, id', st') \<Longrightarrow> arenas_history mapped comm st' L"
| manage: "arenas_history mapped comm st L \<Longrightarrow> arenas_env_ok mapped comm env \<Longrightarrow> start \<noteq> 0 \<Longrightarrow> unat start + unat sz + 65536 \<le> 2 ^ 64 \<Longrightarrow>
    unat sz < 2 ^ 62 \<Longrightarrow> area start sz \<subseteq> mapped (as_os st) \<Longrightarrow>
    (\<forall>i<PA_MAX_ARENAS. \<forall>a. as_arenas st ! i = Some a \<longrightarrow> area start sz \<inter> arena_bytes a = {}) \<Longrightarrow> (\<forall>x\<in>L. area start sz \<inter> extent x = {}) \<Longrightarrow>
    (is_committed \<or> is_large \<longrightarrow> area start sz \<subseteq> comm (as_os st)) \<Longrightarrow>
    pa_manage_os_memory_ex env start sz is_committed is_large is_zero numa excl st = (res, id', st') \<Longrightarrow> arenas_history mapped comm st' L"

lemma holding_in_extent: "arenas_inv mapped comm st L \<Longrightarrow> x \<in> L \<Longrightarrow> holding_bytes x \<subseteq> extent x"
  using holding_area(1) by (cases x) (simp add: holding_bytes_def)

lemma arenas_history_inv: "arenas_history mapped comm st L \<Longrightarrow> arenas_inv mapped comm st L"
proof (induction rule: arenas_history.induct)
  case (start st)
  then show ?case by (intro arenas_invI) auto
next
  case (alloc st L env sz al ofs c allow_large req r st')
  have "alloc_outcome mapped comm st L sz c (\<lambda>p. (p + ofs) mod al = 0) r st'"
    by (rule arena_alloc_aligned_inv [OF alloc(2) alloc.IH alloc(3-8)])
  then show ?case by (auto simp: alloc_outcome_def split: option.splits)
next
  case (use st L os')
  have os: "as_os (st\<lparr>as_os := os'\<rparr>) = os'" by simp
  show ?case
  proof (rule arenas_inv_os [OF use.IH order.refl refl])
    fix i a assume i: "i < PA_MAX_ARENAS" "as_arenas st ! i = Some a"
    have "arena_bytes a \<subseteq> mapped (as_os st)" using arenas_invD(3) [OF use.IH i] by (simp add: arena_at_ok_def)
    moreover have "holding_bytes x \<inter> free_bytes a (leftover a \<union> held i L) = {}" if "x \<in> L" for x
      using extent_not_free [OF use.IH that that i] holding_in_extent [OF use.IH that] by blast
    ultimately show "arena_bytes a \<subseteq> mapped (as_os (st\<lparr>as_os := os'\<rparr>)) \<and>
        comm (as_os st) \<inter> free_bytes a (leftover a \<union> held i L) \<subseteq> comm (as_os (st\<lparr>as_os := os'\<rparr>))"
      unfolding os use(2) using use(3) by blast
  next
    fix x assume x: "x \<in> L"
    have "(extent x - holding_bytes x) \<inter> holding_bytes y = {}" if y: "y \<in> L" for y
    proof (cases "y = x")
      case False
      then show ?thesis using arenas_invD(6) [OF use.IH x y] holding_in_extent [OF use.IH y] by blast
    qed auto
    then show "extent x \<subseteq> mapped (as_os (st\<lparr>as_os := os'\<rparr>)) \<and> comm (as_os st) \<inter> (extent x - holding_bytes x) \<subseteq> comm (as_os (st\<lparr>as_os := os'\<rparr>))"
      unfolding os use(2) using extent_mapped [OF use.IH x] use(3) by blast
  qed simp_all
next
  case (free st L env p sz memid c csz res st')
  then show ?case using arena_free_inv [OF free(2) free.IH free(3-5)] by blast
next
  case (collect st L env force)
  then show ?case using arenas_try_purge_inv [OF collect(2) collect.IH, of force force] by (simp add: pa_arenas_collect_def)
next
  case (reserve st L env sz commit allow_large excl err id' st')
  then show ?case using reserve_memory [OF reserve(2) reserve.IH reserve(3-5)] by blast
next
  case (manage st L env start sz is_committed is_large is_zero numa excl res id' st')
  have "os_grows mapped comm st st' \<and> arenas_inv mapped comm st' L \<and> (\<not> res \<longrightarrow> as_arenas st' = as_arenas st) \<and> (res \<longrightarrow> pa_arena_id_index id' < PA_MAX_ARENAS)"
    by (rule manage_memory [OF manage(2) manage.IH manage(3,4,5,6) _ _ _ manage(10) [unfolded pa_manage_os_memory_ex_def]])
      (use manage in \<open>auto simp: pa_memid_create_def\<close>)
  then show ?case by blast
qed

lemma alloc_exclusive:
  assumes "alloc_outcome mapped comm st L sz c P (Some (p, memid)) st'"
  shows "P p" "p \<noteq> 0" "area p sz \<subseteq> mapped (as_os st')" "mi_initially_committed memid \<Longrightarrow> area p sz \<subseteq> comm (as_os st')"
    "x \<in> L \<Longrightarrow> area p sz \<inter> holding_bytes x = {}"
    "x \<in> L \<Longrightarrow> holding_bytes x \<inter> mapped (as_os st) \<subseteq> mapped (as_os st') \<and> holding_bytes x \<inter> comm (as_os st) \<inter> mapped (as_os st) \<subseteq> comm (as_os st')"
proof -
  have inv: "arenas_inv mapped comm st' (insert (p, sz, memid, c) L)" and A: "P p" "\<forall>y\<in>L. extent (p, sz, memid, c) \<inter> extent y = {}"
    "mi_initially_committed memid \<longrightarrow> area p sz \<subseteq> comm (as_os st')" "os_grows mapped comm st st'"
    using assms by (simp_all add: alloc_outcome_def)
  note H = holding_area [OF inv insertI1]
  show "P p" "p \<noteq> 0" "area p sz \<subseteq> mapped (as_os st')" "mi_initially_committed memid \<Longrightarrow> area p sz \<subseteq> comm (as_os st')"
    using A H by auto
  show "area p sz \<inter> holding_bytes x = {}" if "x \<in> L"
    using A(2) H(1) holding_in_extent [OF inv insertI2 [OF that]] that by blast
  show "holding_bytes x \<inter> mapped (as_os st) \<subseteq> mapped (as_os st') \<and> holding_bytes x \<inter> comm (as_os st) \<inter> mapped (as_os st) \<subseteq> comm (as_os st')"
    if "x \<in> L" using A(4) by (auto simp: os_grows_def)
qed

end
