(* ===== verification/Palloc_ArenaProps.thy ===== *)
theory Palloc_ArenaProps
  imports Palloc_ArenaHistory
begin

text \<open>
  What arenas promise: memory that is handed out is exclusive, mapped and committed as reported, the
  blocks in use are those that are held, and freeing twice is reported and harmless.
\<close>

section \<open>Freeing blocks that are free\<close>

lemma arena_free_again:
  assumes env: "arenas_env_ok mapped comm env" and inv: "arenas_inv mapped comm st L" and i: "i < PA_MAX_ARENAS" "as_arenas st ! i = Some a"
    and m: "mi_mem memid = Mem_arena b (int i + 1) ex" "mi_memkind memid = PA_MEM_ARENA"
    and p: "p \<noteq> 0" "0 < unat sz" "unat sz < 2 ^ 62" and R: "b + pa_block_count_of_size sz \<le> aa_block_count a"
      "{b..<b + pa_block_count_of_size sz} \<inter> (leftover a \<union> held i L) = {}"
    and r: "pa_arena_free env p sz csz memid st = (res, st')"
  shows "res = Already_free" "arenas_inv mapped comm st' L" "\<forall>y\<in>L. extent y \<inter> comm (as_os st) \<subseteq> comm (as_os st')"
proof -
  let ?n = "pa_block_count_of_size sz" and ?U = "leftover a \<union> held i L"
  note A = arenas_invD(3) [OF inv i, unfolded arena_at_ok_def]
  have good: "arena_good comm ?U a (as_os st)" and use: "bits (aa_inuse a) = ?U" using A by blast+
  have wf: "arena_wf a" by (rule arena_goodD(3) [OF good])
  note W = arena_wfD [OF wf]
  have n0: "0 < ?n" by (rule block_count_bounds(1) [OF p(2,3)])
  note fc = W(5) [OF R(1)]
  define all where "all \<longleftrightarrow> csz = sz"
  define c where "c = (if \<not> all then snd (on_bitmap (pa_bitmap_unclaim_across ?n b) False (aa_committed a)) else aa_committed a)"
  define a0 where "a0 = a\<lparr>aa_committed := c\<rparr>"
  have uc: "bitmap_upd (aa_field_count a) (\<lambda>B. if \<not> all then B - {b..<b + ?n} else B) (aa_committed a) c"
    using on_unclaim [OF W(2) n0 fc, of False] bitmap_upd_id [OF W(2)] unfolding c_def by simp
  have wf0: "arena_wf a0" using arena_wf_update [OF wf bitmap_upd_id [OF W(1)] uc bitmap_upd_id [OF W(3)]] by (simp add: a0_def)
  have blk: "arena_blocks a0 = arena_blocks a" "leftover a0 = leftover a" by (simp_all add: a0_def arena_blocks_def leftover_def fun_eq_iff)
  have good0: "arena_good comm ?U a0 (as_os st)"
    unfolding arena_good_def blk
  proof (intro conjI allI impI ballI)
    show "leftover a \<subseteq> ?U" by blast
    show "bits x \<inter> ?U = {}" if "x \<in> set_option (aa_purge a0)" for x
      using arena_goodD(1) [OF good, of x] that by (simp add: a0_def)
    show "arena_blocks a k 1 \<subseteq> comm (as_os st)" if k: "k < aa_block_count a0 \<and> k \<notin> ?U \<and> (\<forall>x\<in>set_option (aa_committed a0). k \<in> bits x)" for k
    proof -
      have "\<forall>x\<in>set_option (aa_committed a). k \<in> bits x"
        using k bitmap_updD(3) [OF uc] by (force simp: a0_def split: if_splits)
      then show ?thesis using arena_goodD(4) [OF good] k by (simp add: a0_def)
    qed
  qed (rule wf0)
  obtain a1 os1 t1 where m1: "(if mi_is_pinned (aa_memid a) \<or> aa_committed a = None then (a, as_os st, as_purge_expire st)
     else pa_arena_schedule_purge env b ?n (a\<lparr>aa_committed := (if \<not> all
           then snd (on_bitmap (pa_bitmap_unclaim_across ?n b) False (aa_committed a)) else aa_committed a)\<rparr>) (as_os st) (as_purge_expire st)) = (a1, os1, t1)"
    by (metis prod_cases3)
  obtain ai ib where u: "pa_bitmap_unclaim_across ?n b (aa_inuse a1) = (ai, ib)" by (meson surj_pair)
  have P: "purge_keeps mapped comm ?U a (as_os st) a1 os1 \<and> aa_inuse a1 = aa_inuse a"
  proof (cases "mi_is_pinned (aa_memid a) \<or> aa_committed a = None")
    case True
    then show ?thesis using m1 purge_keeps_refl [OF good] by simp
  next
    case False
    have r1: "pa_arena_schedule_purge env b ?n a0 (as_os st) (as_purge_expire st) = (a1, os1, t1)" using m1 False by (simp add: a0_def c_def)
    have np: "aa_committed a0 \<noteq> None" using bitmap_updD(1) [OF uc] False by (simp add: a0_def)
    have R0: "b + ?n \<le> aa_block_count a0" using R(1) by (simp add: a0_def)
    note K = arena_schedule_purge_keeps [OF arenas_env_os(1) [OF env] good0 np n0 R0 R(2) r1]
    have s0: "same_arena {} a a0" using bitmap_updD(1,3) [OF uc] unfolding same_arena_def by (auto simp: a0_def split: if_splits)
    have fb: "free_bytes a0 ?U = free_bytes a ?U" by (simp add: a0_def free_bytes_def arena_blocks_def)
    have "purge_keeps mapped comm ?U a (as_os st) a1 os1"
      using K(1) same_arena_trans [OF s0, of a1] unfolding purge_keeps_def fb by (simp add: a0_def)
    then show ?thesis using K(2) by (simp add: a0_def)
  qed
  have q: "quiet (aa_inuse a1)" "length (bm (aa_inuse a1)) = aa_field_count a" using P W(4) by (simp_all add: bitmap_fits_def)
  have le: "b + ?n \<le> 64 * length (bm (aa_inuse a1))" using fc q(2) by simp
  note N = unclaim_across_bits [OF q(1) n0 le u]
  have eqs: "aa_inuse a1 = aa_inuse a" "bits (aa_inuse a1) = ?U" using P use by simp_all
  have bU: "b \<notin> ?U" using R(2) n0 by (simp add: disjoint_iff)
  have ai: "\<not> ai"
  proof
    assume ai
    then have "{b..<b + ?n} \<subseteq> ?U" using N(4) unfolding eqs(2) by simp
    then have "b \<in> ?U" by (rule subsetD) (use n0 in simp)
    with bU show False ..
  qed
  have "?U - {b..<b + ?n} = ?U" using R(2) by (simp only: Diff_triv Int_commute)
  then have ib: "bits ib = ?U" "bitmap_fits (aa_field_count a) ib" using N(1-3) q(2) unfolding eqs(2) by (simp_all add: bitmap_fits_def)
  define st1 where "st1 = st\<lparr>as_arenas := (as_arenas st)[i := Some (a1\<lparr>aa_inuse := ib\<rparr>)], as_os := os1, as_purge_expire := t1\<rparr>"
  have fld: "\<not> aa_field_count a \<le> pa_bitmap_index_field b"
  proof -
    have "b < 64 * aa_field_count a" using wf R(1) n0 by (simp add: arena_wf_def)
    then show ?thesis by (simp add: pa_bitmap_index_field_def not_le less_mult_imp_div_less mult.commute)
  qed
  have e: "res = Already_free" "st' = st1"
  proof -
    have s0: "sz \<noteq> 0" using p(2) by auto
    have k: "(p = 0) = False" "(sz = 0) = False" "(aa_field_count a \<le> pa_bitmap_index_field b) = False" "ai = False"
      using p(1) s0 fld ai by blast+
    have k2: "pa_memkind_is_os (mi_memkind memid) = False" "(mi_memkind memid = PA_MEM_ARENA) = True" unfolding m(2) by (simp_all add: pa_memkind_is_os_def)
    have ix: "pa_arena_memid_indices memid = (i, b, ex)" using m(1) by (simp add: pa_arena_memid_indices_def pa_arena_id_index_def)
    have "(res, st') = (Already_free, st1)"
      unfolding r [symmetric] pa_arena_free_def Let_def all_def [symmetric] k k2 if_True if_False ix prod.case i(2) option.case m1 u not_False_eq_True
      by (simp only: st1_def)
    then show "res = Already_free" "st' = st1" by simp_all
  qed
  show "res = Already_free" by (rule e(1))
  have s: "as_os st1 = os1" "as_arenas st1 = (as_arenas st)[i := Some (a1\<lparr>aa_inuse := ib\<rparr>)]" "as_count st1 = as_count st"
    by (simp_all add: st1_def)
  have sa: "same_arena {} a (a1\<lparr>aa_inuse := ib\<rparr>)" using P by (simp add: purge_keeps_def same_arena_def)
  have "aa_field_count a1 = aa_field_count a" using P by (simp add: purge_keeps_def same_arena_def)
  then have g1: "arena_good comm ?U (a1\<lparr>aa_inuse := ib\<rparr>) os1" using P ib(2) by (intro arena_good_inuse) (simp_all add: purge_keeps_def)
  have os1: "mapped os1 = mapped (as_os st)" "comm (as_os st) - free_bytes a ?U \<subseteq> comm os1" using P by (simp_all add: purge_keeps_def)
  show "arenas_inv mapped comm st' L" unfolding e(2)
    by (rule arenas_inv_change [OF inv i s(2,3) sa refl]) (use ib(1) g1 os1 s(1) in simp_all)
  show "\<forall>y\<in>L. extent y \<inter> comm (as_os st) \<subseteq> comm (as_os st')" unfolding e(2) s(1) using extent_not_free [OF inv _ _ i] os1(2) by blast
qed

section \<open>A small run\<close>

text \<open>An address space of two blocks, all committed, whose state is the list of the areas that were unmapped.  It has no more memory
  to give.\<close>

definition demo_hole_prim :: "(uintptr_t \<times> size_t) list pa_prim" where
  "demo_hole_prim = \<lparr>prim_alloc = \<lambda>os hint sz al c l. (12, False, False, 0, os), prim_free = \<lambda>os p sz. (0, (p, sz) # os),
     prim_commit = \<lambda>os p sz. (12, False, os), prim_decommit = \<lambda>os p sz. (0, False, os), prim_reset = \<lambda>os p sz. (0, os),
     prim_reuse = \<lambda>os p sz. (0, os), prim_protect = \<lambda>os p sz b. (0, os),
     prim_alloc_huge_os_pages = \<lambda>os p sz n. (12, False, 0, os), prim_cfg = demo_cfg\<rparr>"

definition demo_space :: "(uintptr_t \<times> size_t) list \<Rightarrow> nat set" where
  "demo_space os = area 0x2000000 0x4000000 - (\<Union>(p, sz)\<in>set os. area p sz)"

definition demo_arenas_env :: "(uintptr_t \<times> size_t) list arenas_env" where
  "demo_arenas_env = \<lparr>av_prim = demo_hole_prim, av_now = 0, av_arena_purge_mult = 10, av_arena_reserve = 0, av_arena_eager_commit = 1,
     av_disallow_arena_alloc = False, av_disallow_os_alloc = False, av_numa_node = -1, av_static_base = 0x10000, av_sizeof_arena = 256\<rparr>"

definition demo_no_arenas :: "(uintptr_t \<times> size_t) list pa_arenas" where
  "demo_no_arenas = \<lparr>as_os = [], as_arenas = replicate PA_MAX_ARENAS None, as_count = 0, as_purge_expire = 0, as_static_top = 0\<rparr>"

definition demo_managed :: "(uintptr_t \<times> size_t) list pa_arenas" where
  "demo_managed = snd (snd (pa_manage_os_memory_ex demo_arenas_env 0x2000000 0x4000000 True False False (-1) False demo_no_arenas))"

definition demo_arena_memid :: pa_memid where
  "demo_arena_memid = (pa_memid_create_arena 1 False 0)\<lparr>mi_initially_committed := True\<rparr>"

definition demo_allocated :: "(uintptr_t \<times> size_t) list pa_arenas" where
  "demo_allocated = snd (pa_arena_alloc_aligned demo_arenas_env 0x2000000 0x2000000 0 True False 0 demo_managed)"

definition demo_freed :: "(uintptr_t \<times> size_t) list pa_arenas" where
  "demo_freed = snd (pa_arena_free demo_arenas_env 0x2000000 0x2000000 0x2000000 demo_arena_memid demo_allocated)"

lemma demo_arenas_run:
  "pa_manage_os_memory_ex demo_arenas_env 0x2000000 0x4000000 True False False (-1) False demo_no_arenas = (True, 1, demo_managed)"
  "pa_arena_alloc_aligned demo_arenas_env 0x2000000 0x2000000 0 True False 0 demo_managed = (Some (0x2000000, demo_arena_memid), demo_allocated)"
  "map_option fst (fst (pa_arena_alloc_aligned demo_arenas_env 0x1000000 0x2000000 0 True False 0 demo_allocated)) = Some 0x4000000"
  "pa_arena_free demo_arenas_env 0x2000000 0x2000000 0x2000000 demo_arena_memid demo_allocated = (Arena_freed, demo_freed)"
  "as_os demo_allocated = []" "as_arenas demo_allocated ! 0 \<noteq> None"
  by code_simp+

text \<open>The run meets the hypotheses of the properties.\<close>

lemma demo_space_simps: "demo_space [] = area 0x2000000 0x4000000" by (simp add: demo_space_def)

lemma demo_env_ok: "arenas_env_ok demo_space demo_space demo_arenas_env"
proof -
  have "pa_os_page_size demo_hole_prim = 2 ^ 12" by (simp add: pa_os_page_size_def demo_hole_prim_def demo_cfg_def)
  then have "\<exists>k\<le>16. 3 \<le> k \<and> pa_os_page_size demo_hole_prim = 2 ^ k" by (intro exI [of _ 12]) simp
  then have "os_prim_ok demo_space demo_space demo_hole_prim" unfolding os_prim_ok_def by (auto simp: demo_hole_prim_def demo_space_def)
  then show ?thesis by (simp add: arenas_env_ok_def demo_arenas_env_def demo_hole_prim_def demo_cfg_def)
qed

lemma demo_history_managed: "arenas_history demo_space demo_space demo_managed {}"
proof (rule arenas_history.manage [OF arenas_history.start demo_env_ok _ _ _ _ _ _ _ demo_arenas_run(1)])
  show "as_arenas demo_no_arenas = replicate PA_MAX_ARENAS None" "as_count demo_no_arenas = 0" by (simp_all add: demo_no_arenas_def)
  have os: "as_os demo_no_arenas = []" by (simp add: demo_no_arenas_def)
  show "area 0x2000000 0x4000000 \<subseteq> demo_space (as_os demo_no_arenas)" "True \<or> False \<longrightarrow> area 0x2000000 0x4000000 \<subseteq> demo_space (as_os demo_no_arenas)"
    unfolding os by (simp_all add: demo_space_simps)
  show "\<forall>i<PA_MAX_ARENAS. \<forall>a. as_arenas demo_no_arenas ! i = Some a \<longrightarrow> area 0x2000000 0x4000000 \<inter> arena_bytes a = {}"
    by (simp add: demo_no_arenas_def)
qed simp_all

lemma demo_alloc_premises:
  "0 < unat (0x1000000 :: size_t)" "unat (0x1000000 :: size_t) < 2 ^ 60" "0 < unat (0x2000000 :: size_t)" "unat (0x2000000 :: size_t) < 2 ^ 60"
  "pa_is_power_of_two 0x2000000" "pa_os_page_size (av_prim demo_arenas_env) \<le> 0x2000000" "unat (0x2000000 :: size_t) \<le> 2 ^ 60"
  by (simp_all add: pa_is_power_of_two_def pa_os_page_size_def demo_arenas_env_def demo_hole_prim_def demo_cfg_def)

lemma demo_history_allocated: "arenas_history demo_space demo_space demo_allocated {(0x2000000, 0x2000000, demo_arena_memid, True)}"
  using arenas_history.alloc [OF demo_history_managed demo_env_ok demo_alloc_premises(3-7) demo_arenas_run(2)] by simp

section \<open>The properties\<close>

text \<open>C13: arenas hand out exclusive memory.  After any history (\<open>arenas_history\<close>) of allocations, frees, purges, reservations and uses, one
  operation after the other, a new allocation
  is aligned, mapped, committed when its memory id says so, and overlaps nothing that is held, whether it comes from an arena or
  from the operating system; and the memory that others hold stays mapped and keeps its commit.  The size is positive and below \<open>2 ^ 60\<close>, the
  alignment a power of two from the page size to \<open>2 ^ 60\<close>.
  Two things are required of the histories.  Ranges can be unmapped partially (\<open>arenas_env_ok\<close>).  And each free reports its committed
  size as \<open>freed_as\<close> has it: it may report all of an allocation as committed only when it is, and not at all when the commit in \<open>pa_arena_try_alloc_at\<close> (arena.c:272) failed
  for a size that is no multiple of the 32 MiB block; pinned memory it always reports as fully committed.  When the commit failed, where the user commits the memory and frees it as fully committed, the code later
  reports the rest of the last block as committed though it never was, and the property does not hold.\<close>
theorem arena_memory_exclusive:
  assumes "arenas_history mapped comm st L" "arenas_env_ok mapped comm env" "0 < unat sz" "unat sz < 2 ^ 60"
    and "pa_is_power_of_two al" "pa_os_page_size (av_prim env) \<le> al" "unat al \<le> 2 ^ 60"
    and "pa_arena_alloc_aligned env sz al ofs commit allow_large req st = (Some (p, memid), st')"
  shows "p \<noteq> 0 \<and> (p + ofs) mod al = 0 \<and> area p sz \<subseteq> mapped (as_os st') \<and> (mi_initially_committed memid \<longrightarrow> area p sz \<subseteq> comm (as_os st')) \<and>
    (\<forall>x\<in>L. area p sz \<inter> holding_bytes x = {} \<and> holding_bytes x \<subseteq> mapped (as_os st') \<and> holding_bytes x \<inter> comm (as_os st) \<subseteq> comm (as_os st'))"
proof -
  have inv: "arenas_inv mapped comm st L" by (rule arenas_history_inv [OF assms(1)])
  have O: "alloc_outcome mapped comm st L sz commit (\<lambda>p. (p + ofs) mod al = 0) (Some (p, memid)) st'"
    by (rule arena_alloc_aligned_inv [OF assms(2) inv assms(3-8)])
  have m: "holding_bytes x \<subseteq> mapped (as_os st)" if "x \<in> L" for x
    using holding_in_extent [OF inv that] extent_mapped [OF inv that] by blast
  show ?thesis using alloc_exclusive [OF O] m by blast
qed

theorem arena_memory_exclusive_witness:
  "\<exists>memid st'. pa_arena_alloc_aligned demo_arenas_env 0x1000000 0x2000000 0 True False 0 demo_allocated = (Some (0x4000000, memid), st') \<and>
     area 0x4000000 0x1000000 \<subseteq> demo_space (as_os st') \<and> area 0x4000000 0x1000000 \<inter> area 0x2000000 0x2000000 = {} \<and>
     area 0x2000000 0x2000000 \<subseteq> demo_space (as_os st')"
proof -
  obtain memid st' where r: "pa_arena_alloc_aligned demo_arenas_env 0x1000000 0x2000000 0 True False 0 demo_allocated = (Some (0x4000000, memid), st')"
    using demo_arenas_run(3) by (cases "pa_arena_alloc_aligned demo_arenas_env 0x1000000 0x2000000 0 True False 0 demo_allocated") auto
  from arena_memory_exclusive [OF demo_history_allocated demo_env_ok demo_alloc_premises(1,2,5-7) r]
  show ?thesis using r by (auto simp: holding_bytes_def)
qed

text \<open>C15: the bitmaps of an arena account for its blocks.  After any history (\<open>arenas_history\<close>), one operation after the other, the bits in use are exactly the blocks that are held and the
  bits past the last block, so a purge gives back the blocks it claims and no block is lost; no block in use is
  scheduled for a purge; and a free block that is marked committed is committed.
  The histories require that ranges can be unmapped partially, and of each free that it reports the committed size as \<open>freed_as\<close> has it: all of the
  allocation only when all of it is committed, and always for pinned memory.  Beyond that \<open>freed_as\<close> leaves out one history of the code: a commit that fails at arena.c:272 for a size that is no multiple of the 32 MiB block, after which the user commits the memory and frees it as
  fully committed; there the last block is marked committed and is not.\<close>
theorem arena_blocks_accounted:
  assumes "arenas_history mapped comm st L" "i < PA_MAX_ARENAS" "as_arenas st ! i = Some a"
  shows "bits (aa_inuse a) = leftover a \<union> held i L \<and> (\<forall>b\<in>set_option (aa_purge a). bits b \<inter> bits (aa_inuse a) = {}) \<and>
    (\<forall>k<aa_block_count a. k \<notin> held i L \<and> (\<forall>b\<in>set_option (aa_committed a). k \<in> bits b) \<longrightarrow> arena_blocks a k 1 \<subseteq> comm (as_os st))"
proof -
  have A: "arena_at_ok mapped comm st L i a" by (rule arenas_invD(3) [OF arenas_history_inv [OF assms(1)] assms(2,3)])
  then have u: "bits (aa_inuse a) = leftover a \<union> held i L" and g: "arena_good comm (leftover a \<union> held i L) a (as_os st)"
    by (simp_all add: arena_at_ok_def)
  have "arena_blocks a k 1 \<subseteq> comm (as_os st)"
    if "k < aa_block_count a" "k \<notin> held i L" "\<forall>b\<in>set_option (aa_committed a). k \<in> bits b" for k
    by (rule arena_goodD(4) [OF g that(1) _ that(3)]) (use that(1,2) in \<open>simp add: leftover_def\<close>)
  then show ?thesis unfolding u using arena_goodD(1) [OF g] by blast
qed

theorem arena_blocks_accounted_witness:
  "\<exists>a. as_arenas demo_allocated ! 0 = Some a \<and> bits (aa_inuse a) = leftover a \<union> {0}"
proof -
  obtain a where a: "as_arenas demo_allocated ! 0 = Some a" using demo_arenas_run(6) by blast
  have "blocks_of 0 (0x2000000, 0x2000000, demo_arena_memid, True) = {0}"
  proof -
    have "pa_block_count_of_size 0x2000000 = 1" by code_simp
    then show ?thesis by (simp add: blocks_of_def demo_arena_memid_def pa_memid_create_arena_def)
  qed
  then show ?thesis using arena_blocks_accounted [OF demo_history_allocated _ a] a by (auto simp: PA_MAX_ARENAS_def held_def)
qed

text \<open>C17: a double free in an arena is detected and does no harm.  When blocks of an arena are freed and then freed again at once,
  the second free reports it, whatever committed size it is given, and neither the memory that others hold
  nor the accounting of the blocks change.  This is for the histories \<open>arenas_history\<close> (one operation after the other, ranges can be unmapped partially), and the first
  free, like each free of the history, reports its committed size as \<open>freed_as\<close> has it: all of the allocation only when all of it is committed, and not when
  the commit at arena.c:272 failed for a size that is no multiple of the 32 MiB block; and always for pinned memory.\<close>
theorem arena_double_free_reported:
  assumes "arenas_history mapped comm st L" "arenas_env_ok mapped comm env" "(p, sz, memid, c) \<in> L" "mi_memkind memid = PA_MEM_ARENA"
    and "freed_as comm (as_os st) csz (p, sz, memid, c)"
    and "pa_arena_free env p sz csz memid st = (res, st1)" "pa_arena_free env p sz csz2 memid st1 = (res2, st2)"
  shows "res = Arena_freed \<and> res2 = Already_free \<and>
    (\<forall>x\<in>L - {(p, sz, memid, c)}. holding_bytes x \<subseteq> mapped (as_os st2) \<and> holding_bytes x \<inter> comm (as_os st) \<subseteq> comm (as_os st2)) \<and>
    (\<forall>i<PA_MAX_ARENAS. \<forall>a. as_arenas st2 ! i = Some a \<longrightarrow> bits (aa_inuse a) = leftover a \<union> held i (L - {(p, sz, memid, c)}))"
proof -
  let ?x = "(p, sz, memid, c)"
  have inv: "arenas_inv mapped comm st L" by (rule arenas_history_inv [OF assms(1)])
  note F = arena_free_inv [OF assms(2) inv assms(3,5,6)]
  have inv1: "arenas_inv mapped comm st1 (L - {?x})" using F by blast
  have ar: "\<exists>b id' ex. mi_mem memid = Mem_arena b id' ex"
    using arenas_invD(5) [OF inv assms(3)] assms(4) by (cases "mi_mem memid") (auto simp: holding_ok_def os_memid_ok_def)
  then obtain b id' ex where m: "mi_mem memid = Mem_arena b id' ex" by blast
  show ?thesis
  proof (rule holding_arena [OF inv assms(3) m])
    let ?n = "pa_block_count_of_size sz"
    fix i a assume i: "i < PA_MAX_ARENAS" "id' = int i + 1" "as_arenas st ! i = Some a" "b + ?n \<le> aa_block_count a"
      "blocks_of i ?x = {b..<b + ?n}" "0 < unat sz" "unat sz < 2 ^ 62"
    have "i < length (as_arenas st)" using arenas_invD(1) [OF inv] i(1) by simp
    then obtain a1 where a1: "as_arenas st1 ! i = Some a1" "aa_block_count a1 = aa_block_count a"
      using arena_shapes_nth [of st1 st i a] F i(3) by blast
    have R: "{b..<b + ?n} \<inter> (leftover a1 \<union> held i (L - {?x})) = {}"
      using held_remove [OF inv assms(3), of i] i(4,5) a1(2) by (auto simp: leftover_def)
    have p0: "p \<noteq> 0" using arenas_invD(5) [OF inv assms(3)] by (simp add: holding_ok_def)
    note G = arena_free_again [OF assms(2) inv1 i(1) a1(1) m [unfolded i(2)] assms(4) p0 i(6,7) _ R assms(7), unfolded a1(2), OF i(4)]
    have "holding_bytes y \<subseteq> mapped (as_os st2) \<and> holding_bytes y \<inter> comm (as_os st) \<subseteq> comm (as_os st2)" if y: "y \<in> L - {?x}" for y
      using holding_in_extent [OF G(2) y] extent_mapped [OF G(2) y] F y G(3) by blast
    moreover have "bits (aa_inuse d) = leftover d \<union> held j (L - {?x})" if "j < PA_MAX_ARENAS" "as_arenas st2 ! j = Some d" for j d
      using arenas_invD(3) [OF G(2) that] by (simp add: arena_at_ok_def)
    ultimately show ?thesis using F G(1) by blast
  qed
qed

theorem arena_double_free_reported_witness:
  "fst (pa_arena_free demo_arenas_env 0x2000000 0x2000000 0x2000000 demo_arena_memid demo_allocated) = Arena_freed \<and>
   fst (pa_arena_free demo_arenas_env 0x2000000 0x2000000 0x1000 demo_arena_memid demo_freed) = Already_free"
proof -
  obtain res2 st2 where r: "pa_arena_free demo_arenas_env 0x2000000 0x2000000 0x1000 demo_arena_memid demo_freed = (res2, st2)" by (meson surj_pair)
  have k: "mi_memkind demo_arena_memid = PA_MEM_ARENA" by (simp add: demo_arena_memid_def pa_memid_create_arena_def pa_memid_create_def)
  have "demo_space (as_os demo_allocated) = area 0x2000000 0x4000000" by (simp add: demo_arenas_run(5) demo_space_simps)
  then have "freed_as demo_space (as_os demo_allocated) 0x2000000 (0x2000000, 0x2000000, demo_arena_memid, True)"
    by (simp add: freed_as_def area_def demo_arena_memid_def)
  from arena_double_free_reported [OF demo_history_allocated demo_env_ok insertI1 k this demo_arenas_run(4) r] show ?thesis
    using demo_arenas_run(4) r by simp
qed

end
