(* ===== verification/Spec2Isabelle.thy ===== *)
theory Spec2Isabelle
  imports Palloc_Base Palloc_Arith Palloc_Bits Palloc_Bins Palloc_BitArray Palloc_CommitMask Palloc_Types
    Palloc_SegCommit Palloc_Bitmap Palloc_ArenaBits Palloc_Os Palloc_VecArena Palloc_DLL Palloc_FreeList Palloc_PageQueue Palloc_ThreadFree
    Palloc_Spans Palloc_SpanOps Palloc_Segments Palloc_SpanProps
    Palloc_Arena Palloc_ArenaInv Palloc_ArenaHistory Palloc_ArenaProps
begin

text \<open>
  A verification development for palloc, a thread-caching memory allocator in C (\<open>src/src/*.c\<close>,
  \<open>src/include/palloc/*.h\<close>).  The model is that of a 64-bit release build: slices of 64 KiB, segments of 32 MiB with 512
  slices, natural alignment 16, no padding, guard pages, encoded free lists, statistics or debug checks, and no
  per-thread cache of blocks.

  \<^bold>\<open>The program and the theories.\<close>  A heap of a thread keeps pages, runs of slices that are divided into blocks of one size, in queues by size
  class.  A page is allocated from the free spans of a segment; a segment is allocated from an arena or from the
  operating system; an arena hands out whole blocks of segment size and keeps track of them in atomic bitmaps.  The theories follow the
  layers from the bottom to the top.

  \<^item> \<open>Palloc_Base\<close>: the machine types (addresses and sizes are 64-bit words, address 0 is the null pointer), the
    collections of simplification rules, generic lemmas.
  \<^item> \<open>Palloc_Arith\<close>, \<open>Palloc_Bits\<close>: alignment, overflow-checked multiplication, pointer encoding and bit scans of
    \<open>internal.h\<close>; rounding is exact unless it would wrap, overflow is reported exactly, the portable scans agree with the builtins.
  \<^item> \<open>Palloc_Bins\<close>: the size classes of page queues (\<open>page-queue.c\<close>, \<open>init.c\<close>) and of span queues (\<open>segment.c\<close>).
  \<^item> \<open>Palloc_BitArray\<close>, \<open>Palloc_CommitMask\<close>: arrays of words as sets of bits; the commit masks of a segment are such sets, and
    the iteration over a mask visits exactly its maximal runs.  \<open>slice_set\<close> is the interface the segment code uses.
  \<^item> \<open>Palloc_Types\<close>: pages, segments, memory ids as records, after \<open>types.h\<close>.
  \<^item> \<open>Palloc_SegCommit\<close>: committing and purging ranges of a segment, immediately or delayed; the commit mask never claims more than is committed.
  \<^item> \<open>Palloc_Bitmap\<close>, \<open>Palloc_ArenaBits\<close>: \<open>bitmap.c\<close>.  Before each atomic access other threads may change the bits they own and claim
    free ones, as listed in \<open>bm_env\<close>; a claim is exclusive whatever they do.  The locale \<open>field_search\<close> is the search over fields that three operations share.
    \<open>Palloc_ArenaBits\<close> says what the operations do to the set of bits when nobody interferes.
  \<^item> \<open>Palloc_Os\<close>: \<open>os.c\<close> over the primitives of \<open>prim.h\<close>, a record of functions on an abstract address space.
  \<^item> \<open>Palloc_Arena\<close>, \<open>Palloc_ArenaInv\<close>, \<open>Palloc_ArenaHistory\<close>, \<open>Palloc_ArenaProps\<close>: \<open>arena.c\<close>; one arena, all arenas, the histories of
    operations, and what they promise: memory handed out is exclusive and committed as reported, every block is
    accounted for, a double free is reported.
  \<^item> \<open>Palloc_VecArena\<close>: the bump arenas of \<open>palloc_vector.c\<close> and \<open>arena_pomai.c\<close>, both instances of the locale \<open>bump_arena\<close>.
  \<^item> \<open>Palloc_DLL\<close>, \<open>Palloc_PageQueue\<close>: doubly linked lists over any store with links (locale \<open>dll_store\<close>) and the page queues of a
    heap (\<open>page-queue.c\<close>), which refine a family of lists.
  \<^item> \<open>Palloc_FreeList\<close>: the free lists of one page (\<open>page.c\<close>, \<open>alloc.c\<close>, \<open>free.c\<close>): allocation is exclusive, collection loses no
    block, extension makes room.
  \<^item> \<open>Palloc_ThreadFree\<close>: the same page under frees by other threads, one atomic access per step, with compare-and-swap that may fail
    spuriously: the blocks are always partitioned between owner, lists and threads, and a heap is not
    accessed by a freeing thread after the owner is done with it.
  \<^item> \<open>Palloc_Spans\<close>, \<open>Palloc_SpanOps\<close>, \<open>Palloc_Segments\<close>, \<open>Palloc_SpanProps\<close>: the spans of the segments of a thread (\<open>segment.c\<close>): splitting,
    coalescing, searching, allocating, extending and freeing segments and pages; after every history of \<open>span_history\<close> the pages in use are exclusive and
    committed, and interior pointers find their page.  \<open>span_extend_failure\<close> describes the one failure that the histories leave out.

  \<^bold>\<open>State and effects.\<close>  Operations take the state and return it changed; a null result is \<open>None\<close>.  What a layer does below is a record of functions
  with a contract (\<open>os_ok\<close>, \<open>arena_ok\<close>, \<open>os_prim_ok\<close>, \<open>arenas_env_ok\<close>), which says what is committed and what is mapped
  after a call and leaves out whether it succeeds; each contract is met by a concrete instance in the witnesses.  Invariants that tie bookkeeping to
  memory are proved over inductive histories of operations, so that a property speaks of every sequence of these calls, with an environment
  that may change from call to call and may refuse memory.

  \<^bold>\<open>What the histories leave out, and what else is assumed.\<close>

  \<^item> \<open>span_history\<close>: the extension of a page in place whose commit fails after the span behind the page was taken (segment.c:837).
  The code then leaves slices in no page and no queue; freeing the segment skips the queued rest behind them, and the walk over the spans may not end.  An
  extension that is refused without a change, and every other failing commit, are steps.
  \<^item> \<open>arenas_history\<close>: a free that reports memory as fully committed (\<open>freed_as\<close>) after the commit in \<open>pa_arena_try_alloc_at\<close> (arena.c:272) failed for a size that is no
  multiple of the block; the last block then counts as committed and is not.  The operations on arenas come one after the other, and ranges can be
  unmapped partially.
  \<^item> Unmapping may fail (\<open>os_prim_ok\<close>); only that nothing leaks, in \<open>os_alloc_aligned_exact\<close>, needs that it does not (\<open>unmap_ok\<close>).  The first commit of a vector arena, whose result
  the code ignores, must have made the first slab accessible (\<open>first_commit_ok\<close>); later commits may fail.

  \<^bold>\<open>Loops.\<close>  Loops over indices are structural or have a measure.  The walk over the spans of a segment is a \<open>partial_function\<close>, as its end depends
  on the slice counts in memory; that it ends is proved for every history of \<open>span_history\<close> (\<open>span_page_free_returns\<close>).  Retries of
  compare-and-swap end because the list of interferences is finite, or are steps of a step relation.  No fuel is used.

  \<^bold>\<open>Not modelled.\<close>  The system calls themselves (\<open>prim/*\<close>, the sources for Windows tracing), options, statistics, messages and random numbers
  (\<open>options.c\<close>, \<open>stats.c\<close>, \<open>libc.c\<close>, \<open>random.c\<close>): input and output and formatting; what the code takes from them
  is a parameter.  Process start-up and thread-local data (\<open>init.c\<close> but for the tables), heap life-cycle (\<open>heap.c\<close>), reclaiming abandoned
  segments (\<open>arena-abandon.c\<close>), the segment map, and the aligned, posix and C++ entry points are outside the model.
  Statistics counters, assertions, warnings and the debug and secure configurations are left out of the functions that are
  modelled.
\<close>

end
